(* ===== verification/Prelude.thy ===== *)
theory Prelude
  imports Main "HOL-Library.Word"
begin

text \<open>
  The shared vocabulary of the development: the machine-integer types, the status codes and
  limits of \<^verbatim>\<open>kernel/os_types.h\<close>, and the generic facts on lists, words and bitmaps that the
  component theories use. Integers whose width matters are \<open>32 word\<close>s; list indexes, core
  numbers and priority levels, which the code bounds before use, are natural numbers.
\<close>

unbundle bit_operations_syntax

type_synonym u8 = "8 word"
type_synonym u32 = "32 word"

named_theorems kernel_defs \<open>definitions of the kernel operations, for unfolding\<close>

section \<open>Status codes and limits (os_types.h)\<close>

datatype os_err_t =
    OS_ERR_NONE | OS_ERR_ERROR | OS_ERR_INVALID_ARG | OS_ERR_EMPTY | OS_ERR_FULL
  | OS_ERR_BUSY | OS_ERR_TIMEOUT | OS_ERR_NOT_OWNER | OS_ERR_NO_MEMORY | OS_ERR_ISR

datatype os_task_state_t =
    OS_TASK_STATE_INACTIVE | OS_TASK_STATE_READY | OS_TASK_STATE_RUNNING
  | OS_TASK_STATE_BLOCKED | OS_TASK_STATE_SUSPENDED

definition OS_WAIT_FOREVER :: u32 where
  "OS_WAIT_FOREVER = 0xFFFFFFFF"

definition OS_WAIT_NOTHING :: u32 where
  "OS_WAIT_NOTHING = 0"

definition OS_TASK_PRIO_IDLE :: nat where "OS_TASK_PRIO_IDLE = 0"
definition OS_TASK_PRIO_1_LOWEST :: nat where "OS_TASK_PRIO_1_LOWEST = 1"
definition OS_TASK_PRIO_30_HIGHEST :: nat where "OS_TASK_PRIO_30_HIGHEST = 30"
definition OS_TASK_PRIO_MAX :: nat where "OS_TASK_PRIO_MAX = 31"

definition OS_TASK_CORE_ANY :: u32 where "OS_TASK_CORE_ANY = 0"

lemmas prio_defs = OS_TASK_PRIO_IDLE_def OS_TASK_PRIO_1_LOWEST_def
  OS_TASK_PRIO_30_HIGHEST_def OS_TASK_PRIO_MAX_def

section \<open>Lists\<close>

lemma remove1_last: "x \<notin> set xs \<Longrightarrow> remove1 x (xs @ [x]) = xs"
  by (simp add: remove1_append)

lemma remove1_mid: "x \<notin> set xs \<Longrightarrow> remove1 x (xs @ x # ys) = xs @ ys"
  by (simp add: remove1_append)

lemma remove1_eq_Nil: "distinct xs \<Longrightarrow> remove1 x xs = [] \<longleftrightarrow> set xs \<subseteq> {x}"
proof (cases xs)
  case (Cons y ys)
  assume "distinct xs"
  with Cons show ?thesis by (cases ys) auto
qed simp

lemma find_filter: "List.find P xs = (case filter P xs of [] \<Rightarrow> None | x # _ \<Rightarrow> Some x)"
  by (induction xs) auto

lemma find_SomeD: "List.find P xs = Some x \<Longrightarrow> P x \<and> x \<in> set xs"
  by (induction xs) (auto split: if_splits)

lemma find_None_iff_all: "List.find P xs = None \<longleftrightarrow> (\<forall>x \<in> set xs. \<not> P x)"
  by (induction xs) auto

text \<open>Sorting by a key, greatest first: the order of every waiter list.\<close>

definition sorted_desc :: "('a \<Rightarrow> nat) \<Rightarrow> 'a list \<Rightarrow> bool" where
  "sorted_desc f xs = sorted_wrt (\<lambda>x y. f y \<le> f x) xs"

lemma sorted_desc_Nil [simp]: "sorted_desc f []"
  by (simp add: sorted_desc_def)

lemma sorted_desc_Cons: "sorted_desc f (x # xs) \<longleftrightarrow> (\<forall>y \<in> set xs. f y \<le> f x) \<and> sorted_desc f xs"
  by (simp add: sorted_desc_def)

lemma sorted_desc_append:
  "sorted_desc f (xs @ ys) \<longleftrightarrow>
     sorted_desc f xs \<and> sorted_desc f ys \<and> (\<forall>x \<in> set xs. \<forall>y \<in> set ys. f y \<le> f x)"
  by (auto simp: sorted_desc_def sorted_wrt_append)

lemma sorted_desc_cong: "(\<And>x. x \<in> set xs \<Longrightarrow> f x = g x) \<Longrightarrow> sorted_desc f xs = sorted_desc g xs"
  by (induction xs) (auto simp: sorted_desc_def)

lemma sorted_desc_remove1: "sorted_desc f xs \<Longrightarrow> sorted_desc f (remove1 x xs)"
proof (induction xs)
  case (Cons y ys)
  then show ?case by (auto simp: sorted_desc_Cons dest: notin_set_remove1 [rotated])
qed simp

lemma sorted_desc_hd: "sorted_desc f (x # xs) \<Longrightarrow> y \<in> set (x # xs) \<Longrightarrow> f y \<le> f x"
  by (auto simp: sorted_desc_Cons)

section \<open>Words and bitmaps\<close>

lemma word32_not_forever_iff: "(w :: u32) \<noteq> OS_WAIT_FOREVER \<longleftrightarrow> unat w < 4294967295"
proof -
  have "unat w < 4294967296"
    using unsigned_less [of w] by simp
  moreover have "w = OS_WAIT_FOREVER \<longleftrightarrow> unat w = 4294967295"
    by (simp add: OS_WAIT_FOREVER_def word_unat_eq_iff)
  ultimately show ?thesis by linarith
qed

lemma unat_sub_le: "(b :: u32) \<le> a \<Longrightarrow> unat (a - b) = unat a - unat b"
  by (rule unat_sub)

lemma unat_add_lt: "unat (a :: u32) + unat b < 4294967296 \<Longrightarrow> unat (a + b) = unat a + unat b"
  by (simp add: unat_word_ariths)

lemma word32_nonzero_bit: "(w :: u32) \<noteq> 0 \<longleftrightarrow> (\<exists>i < 32. bit w i)"
proof
  assume "w \<noteq> 0"
  then obtain i where i: "bit w i" by (auto simp: bit_eq_iff)
  then have "i < 32" using bit_imp_le_length [OF i] by simp
  with i show "\<exists>i < 32. bit w i" by blast
qed auto

lemma bit_above_mask:
  assumes "p < 31"
  shows "bit (NOT (push_bit (p + 1) 1 - 1) :: u32) q \<longleftrightarrow> p < q \<and> q < 32"
proof -
  have "(push_bit (p + 1) 1 - 1 :: u32) = mask (p + 1)"
    by (simp add: mask_eq_exp_minus_1 push_bit_eq_mult)
  then show ?thesis
    by (auto simp: bit_not_iff bit_mask_iff)
qed

lemma bit_one_shift: "p < 32 \<Longrightarrow> bit (2 ^ p :: u32) q \<longleftrightarrow> q = p"
  by (auto simp: bit_exp_iff)

lemma bit_set_bit: "p < 32 \<Longrightarrow> bit (w OR 2 ^ p :: u32) q \<longleftrightarrow> bit w q \<or> q = p"
  by (auto simp: bit_or_iff bit_one_shift)

lemma bit_clear_bit: "p < 32 \<Longrightarrow> bit (w AND NOT (2 ^ p) :: u32) q \<longleftrightarrow> bit w q \<and> q \<noteq> p"
  by (auto simp: bit_and_iff bit_not_iff bit_one_shift dest: bit_imp_le_length)

lemma word_and_shift_iff: "p < 32 \<Longrightarrow> ((w :: u32) AND 2 ^ p \<noteq> 0) \<longleftrightarrow> bit w p"
  by (auto simp: word32_nonzero_bit bit_and_iff bit_one_shift)

text \<open>The two bit scans of the port layer (\<^verbatim>\<open>__builtin_clz\<close>, \<^verbatim>\<open>__builtin_ctz\<close>).\<close>

definition os_arch_highest_bit_get :: "u32 \<Rightarrow> nat" where
  "os_arch_highest_bit_get bitmap =
     (case List.find (\<lambda>i. bit bitmap i) (rev [0..<32]) of Some i \<Rightarrow> i | None \<Rightarrow> 32)"

definition os_arch_lowest_bit_get :: "u32 \<Rightarrow> nat" where
  "os_arch_lowest_bit_get bitmap =
     (case List.find (\<lambda>i. bit bitmap i) [0..<32] of Some i \<Rightarrow> i | None \<Rightarrow> 32)"

lemma find_rev_upt_greatest:
  "List.find P (rev [0..<n]) = Some i \<Longrightarrow> i < n \<and> P i \<and> (\<forall>j. i < j \<and> j < n \<longrightarrow> \<not> P j)"
proof (induction n)
  case (Suc n)
  show ?case
  proof (cases "P n")
    case True
    with Suc.prems show ?thesis by auto
  next
    case False
    with Suc.prems have "List.find P (rev [0..<n]) = Some i" by simp
    from Suc.IH [OF this] False show ?thesis by (auto simp: less_Suc_eq)
  qed
qed simp

lemma highest_bit:
  assumes "bitmap \<noteq> 0"
  shows "os_arch_highest_bit_get bitmap < 32" "bit bitmap (os_arch_highest_bit_get bitmap)"
    "\<forall>q. bit bitmap q \<longrightarrow> q \<le> os_arch_highest_bit_get bitmap"
proof -
  obtain k where k: "k < 32" "bit bitmap k"
    using assms by (auto simp: word32_nonzero_bit)
  then have "List.find (\<lambda>i. bit bitmap i) (rev [0..<32]) \<noteq> None"
    unfolding find_None_iff_all by auto
  then obtain i where i: "List.find (\<lambda>i. bit bitmap i) (rev [0..<32]) = Some i"
    by blast
  have g: "os_arch_highest_bit_get bitmap = i"
    using i by (simp only: os_arch_highest_bit_get_def option.case)
  note f = find_rev_upt_greatest [OF i]
  show "os_arch_highest_bit_get bitmap < 32" "bit bitmap (os_arch_highest_bit_get bitmap)"
    using f by (simp_all only: g)
  show "\<forall>q. bit bitmap q \<longrightarrow> q \<le> os_arch_highest_bit_get bitmap"
  proof (intro allI impI)
    fix q assume q: "bit bitmap q"
    then have "q < 32" using bit_imp_le_length [OF q] by simp
    with q f show "q \<le> os_arch_highest_bit_get bitmap"
      using not_le_imp_less g by blast
  qed
qed

end
