(* ===== verification/TaskState.thy ===== *)
theory TaskState
  imports Prelude
begin

text \<open>
  The state of the task subsystem: the task control block of \<^verbatim>\<open>kernel/os_task_internal.h\<close>, the
  globals of \<^verbatim>\<open>kernel/os_task.c\<close> and \<^verbatim>\<open>kernel/os_kernel.c\<close>, and the small accessors that every
  other operation starts from. A TCB is named by its place, a slot of \<open>os_task_table\<close> or a
  core's idle block; a waiter list is named by the object that embeds it. The intrusive lists are
  HOL lists of TCB names, head first (see \<^verbatim>\<open>OsList\<close> for why that is what the pointers mean).
  The C build switches that change behaviour (core count, table size, time slice, assertions)
  are fields of the state that no operation writes. A pended context switch and a pended
  inter-core interrupt are flags: the hardware side of both requests.
\<close>

datatype tref = Slot nat | Idle nat

datatype wref =
    MutexWaiters nat | SemWaiters nat | EventWaiters nat
  | QueueSendWaiters nat | QueueReceiveWaiters nat
  | MsgSendWaiters nat | MsgReceiveWaiters nat

record os_notify_slot_t =
  slot_value :: u32
  slot_pending :: bool
  slot_waiting :: bool

record os_task_tcb_t =
  task_name :: "string option"
  stack_base :: "nat option"
  stack_ptr :: "nat option"
  stack_bytes :: nat
  priority :: nat
  task_id :: u32
  delay_ticks :: u32
  core_affinity :: u32
  task_state :: os_task_state_t
  running_core :: nat
  wait_list :: "wref option"
  wait_signaled :: bool
  system_task :: bool
  wait_data0 :: u32
  wait_data1 :: u32
  wait_result :: u32
  woken_from :: "wref option"
  base_priority :: nat
  owned_mutexes :: "nat list"
  pi_owner_id :: u32
  blocked_on_mutex :: "nat option"
  blocked_forever :: bool
  notify :: os_notify_slot_t

record os_mutex_t =
  locked :: bool
  owner_id :: u32

record kstate =
  core_count :: nat
  table_size :: nat
  time_slice_ticks :: u32
  assert_on :: bool
  this_core :: nat
  in_isr :: bool
  kernel_running :: bool
  tick_count :: u32
  tcb_of :: "tref \<Rightarrow> os_task_tcb_t"
  next_generation :: "nat \<Rightarrow> u32"
  current :: "nat \<Rightarrow> tref option"
  ready_list :: "nat \<Rightarrow> tref list"
  ready_bitmap :: u32
  delay_list :: "tref list"
  slice_left :: "nat \<Rightarrow> u32"
  lock_count :: "nat \<Rightarrow> u32"
  switch_pending :: "nat \<Rightarrow> bool"
  wlist :: "wref \<Rightarrow> tref list"
  mutexes :: "nat \<Rightarrow> os_mutex_t"
  plan_generation :: u32
  window_open :: bool
  switch_req :: "nat \<Rightarrow> bool"
  ipi_req :: "nat \<Rightarrow> bool"
  halted :: bool
  diverged :: bool

definition upd_tcb :: "tref \<Rightarrow> (os_task_tcb_t \<Rightarrow> os_task_tcb_t) \<Rightarrow> kstate \<Rightarrow> kstate" where
  "upd_tcb t f s = s\<lparr>tcb_of := (tcb_of s)(t := f (tcb_of s t))\<rparr>"

definition set_wlist :: "wref \<Rightarrow> tref list \<Rightarrow> kstate \<Rightarrow> kstate" where
  "set_wlist w l s = s\<lparr>wlist := (wlist s)(w := l)\<rparr>"

definition is_slot :: "tref \<Rightarrow> bool" where
  "is_slot t = (case t of Slot _ \<Rightarrow> True | Idle _ \<Rightarrow> False)"

lemma is_slot_simps [simp]: "is_slot (Slot i)" "\<not> is_slot (Idle c)"
  by (simp_all add: is_slot_def)

section \<open>Task ids\<close>

definition OS_TASK_ID_SLOT :: "u32 \<Rightarrow> u32" where
  "OS_TASK_ID_SLOT ident = drop_bit 24 ident - 1"

definition OS_TASK_ID_MAKE :: "nat \<Rightarrow> u32 \<Rightarrow> u32" where
  "OS_TASK_ID_MAKE slot gen = push_bit 24 (word_of_nat slot + 1) OR (gen AND 0x00FFFFFF)"

definition os_task_find_by_id :: "u32 \<Rightarrow> kstate \<Rightarrow> tref option" where
  "os_task_find_by_id ident s =
     (if ident \<noteq> 0 then
        let slot = unat (OS_TASK_ID_SLOT ident) in
        if slot < table_size s \<and> task_state (tcb_of s (Slot slot)) \<noteq> OS_TASK_STATE_INACTIVE \<and>
           task_id (tcb_of s (Slot slot)) = ident
        then Some (Slot slot) else None
      else None)"

section \<open>The calling task\<close>

definition os_task_self_tcb :: "kstate \<Rightarrow> tref option" where
  "os_task_self_tcb s = (if in_isr s then None else current s (this_core s))"

definition os_task_current_id_get :: "kstate \<Rightarrow> u32" where
  "os_task_current_id_get s =
     (case current s (this_core s) of None \<Rightarrow> 0 | Some t \<Rightarrow> task_id (tcb_of s t))"

definition os_task_current_is_idle :: "kstate \<Rightarrow> bool" where
  "os_task_current_is_idle s \<longleftrightarrow> current s (this_core s) = Some (Idle (this_core s))"

definition os_internal_can_block :: "kstate \<Rightarrow> bool" where
  "os_internal_can_block s \<longleftrightarrow>
     kernel_running s \<and> \<not> in_isr s \<and> lock_count s (this_core s) = 0"

definition os_task_running_core :: "tref \<Rightarrow> kstate \<Rightarrow> nat" where
  "os_task_running_core t s =
     (case List.find (\<lambda>c. current s c = Some t) [0..<core_count s] of
        Some c \<Rightarrow> c | None \<Rightarrow> core_count s)"

section \<open>Requesting a context switch\<close>

definition os_arch_core_ipi_request :: "nat \<Rightarrow> kstate \<Rightarrow> kstate" where
  "os_arch_core_ipi_request c s = s\<lparr>ipi_req := (ipi_req s)(c := True)\<rparr>"

definition os_arch_context_switch_request :: "kstate \<Rightarrow> kstate" where
  "os_arch_context_switch_request s = s\<lparr>switch_req := (switch_req s)(this_core s := True)\<rparr>"

definition os_task_switch_request :: "kstate \<Rightarrow> kstate" where
  "os_task_switch_request s =
     (if lock_count s (this_core s) \<noteq> 0
      then s\<lparr>switch_pending := (switch_pending s)(this_core s := True)\<rparr>
      else os_arch_context_switch_request s)"

definition affinity_allows :: "u32 \<Rightarrow> nat \<Rightarrow> bool" where
  "affinity_allows aff c \<longleftrightarrow> aff = OS_TASK_CORE_ANY \<or> aff AND push_bit c 1 \<noteq> 0"

definition outranks :: "tref \<Rightarrow> nat \<Rightarrow> kstate \<Rightarrow> bool" where
  "outranks t c s =
     (case current s c of None \<Rightarrow> True
      | Some r \<Rightarrow> priority (tcb_of s t) > priority (tcb_of s r))"

definition os_task_preempt_request :: "tref \<Rightarrow> kstate \<Rightarrow> kstate" where
  "os_task_preempt_request t s =
     (let aff = core_affinity (tcb_of s t) in
      if 1 < core_count s \<and> \<not> affinity_allows aff (this_core s)
      then os_arch_core_ipi_request (os_arch_lowest_bit_get aff) s
      else if outranks t (this_core s) s
      then os_task_switch_request s
      else if 1 < core_count s
      then (case List.find (\<lambda>c. c \<noteq> this_core s \<and> affinity_allows aff c \<and> outranks t c s)
                   [0..<core_count s] of
              Some c \<Rightarrow> os_arch_core_ipi_request c s
            | None \<Rightarrow> s)
      else s)"

section \<open>Frame facts\<close>

lemma upd_tcb_simps [simp]:
  "tcb_of (upd_tcb t f s) = (tcb_of s)(t := f (tcb_of s t))"
  "core_count (upd_tcb t f s) = core_count s" "table_size (upd_tcb t f s) = table_size s"
  "time_slice_ticks (upd_tcb t f s) = time_slice_ticks s" "assert_on (upd_tcb t f s) = assert_on s"
  "this_core (upd_tcb t f s) = this_core s" "in_isr (upd_tcb t f s) = in_isr s"
  "kernel_running (upd_tcb t f s) = kernel_running s" "tick_count (upd_tcb t f s) = tick_count s"
  "next_generation (upd_tcb t f s) = next_generation s" "current (upd_tcb t f s) = current s"
  "ready_list (upd_tcb t f s) = ready_list s" "ready_bitmap (upd_tcb t f s) = ready_bitmap s"
  "delay_list (upd_tcb t f s) = delay_list s" "slice_left (upd_tcb t f s) = slice_left s"
  "lock_count (upd_tcb t f s) = lock_count s" "switch_pending (upd_tcb t f s) = switch_pending s"
  "wlist (upd_tcb t f s) = wlist s" "mutexes (upd_tcb t f s) = mutexes s"
  "plan_generation (upd_tcb t f s) = plan_generation s" "window_open (upd_tcb t f s) = window_open s"
  "switch_req (upd_tcb t f s) = switch_req s" "ipi_req (upd_tcb t f s) = ipi_req s"
  "halted (upd_tcb t f s) = halted s" "diverged (upd_tcb t f s) = diverged s"
  by (simp_all add: upd_tcb_def)

lemma set_wlist_simps [simp]:
  "wlist (set_wlist w l s) = (wlist s)(w := l)" "tcb_of (set_wlist w l s) = tcb_of s"
  "core_count (set_wlist w l s) = core_count s" "table_size (set_wlist w l s) = table_size s"
  "time_slice_ticks (set_wlist w l s) = time_slice_ticks s" "assert_on (set_wlist w l s) = assert_on s"
  "this_core (set_wlist w l s) = this_core s" "in_isr (set_wlist w l s) = in_isr s"
  "kernel_running (set_wlist w l s) = kernel_running s" "tick_count (set_wlist w l s) = tick_count s"
  "next_generation (set_wlist w l s) = next_generation s" "current (set_wlist w l s) = current s"
  "ready_list (set_wlist w l s) = ready_list s" "ready_bitmap (set_wlist w l s) = ready_bitmap s"
  "delay_list (set_wlist w l s) = delay_list s" "slice_left (set_wlist w l s) = slice_left s"
  "lock_count (set_wlist w l s) = lock_count s" "switch_pending (set_wlist w l s) = switch_pending s"
  "mutexes (set_wlist w l s) = mutexes s" "plan_generation (set_wlist w l s) = plan_generation s"
  "window_open (set_wlist w l s) = window_open s"
  "switch_req (set_wlist w l s) = switch_req s" "ipi_req (set_wlist w l s) = ipi_req s"
  "halted (set_wlist w l s) = halted s" "diverged (set_wlist w l s) = diverged s"
  by (simp_all add: set_wlist_def)

text \<open>
  The request operations write the request flags and nothing else. \<open>with_requests\<close> names a state
  with other flags; every fact about a state that does not read the flags carries over.
\<close>

definition with_requests ::
  "(nat \<Rightarrow> bool) \<Rightarrow> (nat \<Rightarrow> bool) \<Rightarrow> (nat \<Rightarrow> bool) \<Rightarrow> kstate \<Rightarrow> kstate" where
  "with_requests p q i s = s\<lparr>switch_pending := p, switch_req := q, ipi_req := i\<rparr>"

lemma with_requests_simps [simp]:
  "tcb_of (with_requests p q i s) = tcb_of s"
  "core_count (with_requests p q i s) = core_count s"
  "table_size (with_requests p q i s) = table_size s"
  "time_slice_ticks (with_requests p q i s) = time_slice_ticks s"
  "assert_on (with_requests p q i s) = assert_on s"
  "this_core (with_requests p q i s) = this_core s" "in_isr (with_requests p q i s) = in_isr s"
  "kernel_running (with_requests p q i s) = kernel_running s"
  "tick_count (with_requests p q i s) = tick_count s"
  "next_generation (with_requests p q i s) = next_generation s"
  "current (with_requests p q i s) = current s"
  "ready_list (with_requests p q i s) = ready_list s"
  "ready_bitmap (with_requests p q i s) = ready_bitmap s"
  "delay_list (with_requests p q i s) = delay_list s"
  "slice_left (with_requests p q i s) = slice_left s"
  "lock_count (with_requests p q i s) = lock_count s"
  "wlist (with_requests p q i s) = wlist s" "mutexes (with_requests p q i s) = mutexes s"
  "plan_generation (with_requests p q i s) = plan_generation s"
  "window_open (with_requests p q i s) = window_open s"
  "halted (with_requests p q i s) = halted s" "diverged (with_requests p q i s) = diverged s"
  "switch_pending (with_requests p q i s) = p" "switch_req (with_requests p q i s) = q"
  "ipi_req (with_requests p q i s) = i"
  by (simp_all add: with_requests_def)

lemma switch_request_flags: "\<exists>p q i. os_task_switch_request s = with_requests p q i s"
proof (cases "lock_count s (this_core s) = 0")
  case True
  then have "os_task_switch_request s =
      with_requests (switch_pending s) ((switch_req s)(this_core s := True)) (ipi_req s) s"
    by (simp add: os_task_switch_request_def os_arch_context_switch_request_def with_requests_def)
  then show ?thesis by blast
next
  case False
  then have "os_task_switch_request s =
      with_requests ((switch_pending s)(this_core s := True)) (switch_req s) (ipi_req s) s"
    by (simp add: os_task_switch_request_def with_requests_def)
  then show ?thesis by blast
qed

lemma ipi_request_flags: "\<exists>p q i. os_arch_core_ipi_request c s = with_requests p q i s"
proof -
  have "os_arch_core_ipi_request c s =
      with_requests (switch_pending s) (switch_req s) ((ipi_req s)(c := True)) s"
    by (simp add: os_arch_core_ipi_request_def with_requests_def)
  then show ?thesis by blast
qed

lemma no_request_flags: "\<exists>p q i. s = with_requests p q i s"
proof -
  have "s = with_requests (switch_pending s) (switch_req s) (ipi_req s) s"
    by (simp add: with_requests_def)
  then show ?thesis by blast
qed

lemma preempt_request_flags: "\<exists>p q i. os_task_preempt_request t s = with_requests p q i s"
  unfolding os_task_preempt_request_def Let_def
  using switch_request_flags [of s] ipi_request_flags [of _ s] no_request_flags [of s]
  by (simp split: option.split)

lemma switch_request_simps [simp]:
  "tcb_of (os_task_switch_request s) = tcb_of s"
  "core_count (os_task_switch_request s) = core_count s"
  "table_size (os_task_switch_request s) = table_size s"
  "assert_on (os_task_switch_request s) = assert_on s"
  "this_core (os_task_switch_request s) = this_core s"
  "in_isr (os_task_switch_request s) = in_isr s"
  "kernel_running (os_task_switch_request s) = kernel_running s"
  "tick_count (os_task_switch_request s) = tick_count s"
  "next_generation (os_task_switch_request s) = next_generation s"
  "current (os_task_switch_request s) = current s"
  "ready_list (os_task_switch_request s) = ready_list s"
  "ready_bitmap (os_task_switch_request s) = ready_bitmap s"
  "delay_list (os_task_switch_request s) = delay_list s"
  "lock_count (os_task_switch_request s) = lock_count s"
  "wlist (os_task_switch_request s) = wlist s" "mutexes (os_task_switch_request s) = mutexes s"
  "halted (os_task_switch_request s) = halted s" "diverged (os_task_switch_request s) = diverged s"
  by (simp_all add: os_task_switch_request_def os_arch_context_switch_request_def)

lemma ipi_request_simps [simp]:
  "tcb_of (os_arch_core_ipi_request c s) = tcb_of s"
  "core_count (os_arch_core_ipi_request c s) = core_count s"
  "table_size (os_arch_core_ipi_request c s) = table_size s"
  "assert_on (os_arch_core_ipi_request c s) = assert_on s"
  "this_core (os_arch_core_ipi_request c s) = this_core s"
  "in_isr (os_arch_core_ipi_request c s) = in_isr s"
  "kernel_running (os_arch_core_ipi_request c s) = kernel_running s"
  "tick_count (os_arch_core_ipi_request c s) = tick_count s"
  "next_generation (os_arch_core_ipi_request c s) = next_generation s"
  "current (os_arch_core_ipi_request c s) = current s"
  "ready_list (os_arch_core_ipi_request c s) = ready_list s"
  "ready_bitmap (os_arch_core_ipi_request c s) = ready_bitmap s"
  "delay_list (os_arch_core_ipi_request c s) = delay_list s"
  "lock_count (os_arch_core_ipi_request c s) = lock_count s"
  "wlist (os_arch_core_ipi_request c s) = wlist s" "mutexes (os_arch_core_ipi_request c s) = mutexes s"
  "halted (os_arch_core_ipi_request c s) = halted s"
  "diverged (os_arch_core_ipi_request c s) = diverged s"
  by (simp_all add: os_arch_core_ipi_request_def)

lemma preempt_request_simps [simp]:
  "tcb_of (os_task_preempt_request t s) = tcb_of s"
  "core_count (os_task_preempt_request t s) = core_count s"
  "table_size (os_task_preempt_request t s) = table_size s"
  "assert_on (os_task_preempt_request t s) = assert_on s"
  "this_core (os_task_preempt_request t s) = this_core s"
  "in_isr (os_task_preempt_request t s) = in_isr s"
  "kernel_running (os_task_preempt_request t s) = kernel_running s"
  "tick_count (os_task_preempt_request t s) = tick_count s"
  "next_generation (os_task_preempt_request t s) = next_generation s"
  "current (os_task_preempt_request t s) = current s"
  "ready_list (os_task_preempt_request t s) = ready_list s"
  "ready_bitmap (os_task_preempt_request t s) = ready_bitmap s"
  "delay_list (os_task_preempt_request t s) = delay_list s"
  "lock_count (os_task_preempt_request t s) = lock_count s"
  "wlist (os_task_preempt_request t s) = wlist s" "mutexes (os_task_preempt_request t s) = mutexes s"
  "halted (os_task_preempt_request t s) = halted s"
  "diverged (os_task_preempt_request t s) = diverged s"
  by (simp_all add: os_task_preempt_request_def Let_def split: option.split)

section \<open>Facts about ids and lookups\<close>

lemma find_by_id_SomeD:
  assumes "os_task_find_by_id ident s = Some t"
  shows "is_slot t" "task_state (tcb_of s t) \<noteq> OS_TASK_STATE_INACTIVE"
    "task_id (tcb_of s t) = ident" "\<exists>i < table_size s. t = Slot i" "ident \<noteq> 0"
  using assms by (auto simp: os_task_find_by_id_def Let_def is_slot_def split: if_splits tref.splits)

lemma running_core_iff:
  "os_task_running_core t s < core_count s \<longleftrightarrow> (\<exists>c < core_count s. current s c = Some t)"
  by (auto simp: os_task_running_core_def find_None_iff_all split: option.splits dest: find_SomeD)

lemma running_core_current:
  "os_task_running_core t s < core_count s \<Longrightarrow> current s (os_task_running_core t s) = Some t"
  by (auto simp: os_task_running_core_def split: option.splits dest: find_SomeD)

end
