(* ===== verification/DeltaList.thy ===== *)
theory DeltaList
  imports Prelude
begin

text \<open>
  Delta-encoded deadline queues. The sleeper list of \<^verbatim>\<open>kernel/os_task.c\<close> and the running-timer
  list of \<^verbatim>\<open>kernel/os_timer.c\<close> both keep, in each entry, only the distance in ticks to the entry
  before it. The two C walks (insert an entry, take one out) are the same algorithm on two
  structures; it is written here once, on a list of keys and a function that gives each key's
  stored delta, and the locale \<open>delta_queue\<close> states what both users get from it: the deadline of
  an entry is what it was armed with, and no other entry's deadline moves.
\<close>

fun delta_insert :: "'k \<Rightarrow> u32 \<Rightarrow> 'k list \<Rightarrow> ('k \<Rightarrow> u32) \<Rightarrow> 'k list \<times> ('k \<Rightarrow> u32)" where
  "delta_insert k remaining [] d = ([k], d(k := remaining))"
| "delta_insert k remaining (e # es) d =
     (if d e > remaining then (k # e # es, (d(e := d e - remaining))(k := remaining))
      else (case delta_insert k (remaining - d e) es d of (es', d') \<Rightarrow> (e # es', d')))"

fun delta_remove :: "'k \<Rightarrow> 'k list \<Rightarrow> ('k \<Rightarrow> u32) \<Rightarrow> 'k list \<times> ('k \<Rightarrow> u32)" where
  "delta_remove k [] d = ([], d)"
| "delta_remove k (e # es) d =
     (if e = k then (es, case es of [] \<Rightarrow> d | n # _ \<Rightarrow> d(n := d n + d k))
      else (case delta_remove k es d of (es', d') \<Rightarrow> (e # es', d')))"

text \<open>The absolute deadline of a key, and of the whole list, in ticks from the time base.\<close>

fun due :: "'k list \<Rightarrow> ('k \<Rightarrow> u32) \<Rightarrow> 'k \<Rightarrow> nat option" where
  "due [] d k = None"
| "due (e # es) d k =
     (if e = k then Some (unat (d e)) else map_option (\<lambda>n. unat (d e) + n) (due es d k))"

fun delta_total :: "'k list \<Rightarrow> ('k \<Rightarrow> u32) \<Rightarrow> nat" where
  "delta_total [] d = 0"
| "delta_total (e # es) d = unat (d e) + delta_total es d"

lemma delta_total_cong: "(\<And>x. x \<in> set l \<Longrightarrow> d x = d' x) \<Longrightarrow> delta_total l d = delta_total l d'"
  by (induction l) auto

lemma due_cong: "(\<And>x. x \<in> set l \<Longrightarrow> d x = d' x) \<Longrightarrow> due l d k = due l d' k"
  by (induction l) auto

lemma due_None_iff: "due l d k = None \<longleftrightarrow> k \<notin> set l"
  by (induction l) auto

lemma due_le_total: "due l d k = Some n \<Longrightarrow> n \<le> delta_total l d"
  by (induction l arbitrary: n) (auto split: if_splits)

lemma delta_le_due: "due l d k = Some n \<Longrightarrow> unat (d k) \<le> n"
  by (induction l arbitrary: n) (auto split: if_splits)

lemma delta_total_upd [simp]: "x \<notin> set l \<Longrightarrow> delta_total l (d(x := v)) = delta_total l d"
  by (rule delta_total_cong) auto

lemma due_upd [simp]: "x \<notin> set l \<Longrightarrow> due l (d(x := v)) k = due l d k"
  by (rule due_cong) auto

subsection \<open>Insertion\<close>

lemma delta_insert_split:
  "\<exists>xs ys. l = xs @ ys \<and> fst (delta_insert k r l d) = xs @ k # ys"
proof (induction k r l d rule: delta_insert.induct)
  case (2 k r e es d)
  show ?case
  proof (cases "d e > r")
    case True
    then have "e # es = [] @ (e # es) \<and> fst (delta_insert k r (e # es) d) = [] @ k # (e # es)"
      by simp
    then show ?thesis by blast
  next
    case False
    with "2.IH" obtain xs ys where "es = xs @ ys" "fst (delta_insert k (r - d e) es d) = xs @ k # ys"
      by blast
    then have "e # es = (e # xs) @ ys \<and> fst (delta_insert k r (e # es) d) = (e # xs) @ k # ys"
      using False by (simp add: split_beta)
    then show ?thesis by blast
  qed
qed simp

lemma delta_insert_set: "set (fst (delta_insert k r l d)) = insert k (set l)"
  using delta_insert_split [of l k r d] by auto

lemma delta_insert_distinct:
  "distinct l \<Longrightarrow> k \<notin> set l \<Longrightarrow> distinct (fst (delta_insert k r l d))"
  using delta_insert_split [of l k r d] by auto

lemma delta_insert_other:
  "x \<notin> set l \<Longrightarrow> x \<noteq> k \<Longrightarrow> snd (delta_insert k r l d) x = d x"
  by (induction k r l d rule: delta_insert.induct) (auto simp: split_beta)

text \<open>The walk does not read the delta of the key it inserts.\<close>

lemma delta_insert_self: "k \<notin> set l \<Longrightarrow> delta_insert k r l (d(k := v)) = delta_insert k r l d"
proof (induction k r l d rule: delta_insert.induct)
  case (2 k r e es d)
  then have "(d(k := v))(e := d e - r, k := r) = (d(e := d e - r))(k := r)" by (auto simp: fun_eq_iff)
  then show ?case using 2 by auto
qed simp

lemma delta_insert_total:
  "distinct l \<Longrightarrow> k \<notin> set l \<Longrightarrow>
   delta_total (fst (delta_insert k r l d)) (snd (delta_insert k r l d)) = max (delta_total l d) (unat r)"
proof (induction k r l d rule: delta_insert.induct)
  case (2 k r e es d)
  show ?case
  proof (cases "d e > r")
    case True
    then have "unat (d e - r) = unat (d e) - unat r" "unat r < unat (d e)"
      by (simp_all add: unat_sub_le word_less_nat_alt word_le_nat_alt)
    moreover have "delta_total es ((d(e := d e - r))(k := r)) = delta_total es d"
      by (rule delta_total_cong) (use "2.prems" in auto)
    ultimately show ?thesis
      using True "2.prems" by (auto simp del: fun_upd_apply simp: fun_upd_same fun_upd_other)
  next
    case False
    then have le: "d e \<le> r" by simp
    have "snd (delta_insert k (r - d e) es d) e = d e"
      by (rule delta_insert_other) (use "2.prems" in auto)
    then show ?thesis
      using "2.IH" False le "2.prems"
      by (auto simp: split_beta unat_sub_le word_le_nat_alt max_def)
  qed
qed simp

lemma delta_insert_due:
  assumes "distinct l" "k \<notin> set l"
  shows "due (fst (delta_insert k r l d)) (snd (delta_insert k r l d)) x =
           (if x = k then Some (unat r) else due l d x)"
  using assms
proof (induction k r l d rule: delta_insert.induct)
  case (2 k r e es d)
  show ?case
  proof (cases "d e > r")
    case True
    then have "unat (d e - r) = unat (d e) - unat r" "unat r < unat (d e)"
      by (simp_all add: unat_sub_le word_less_nat_alt word_le_nat_alt)
    moreover have "due es ((d(e := d e - r))(k := r)) x = due es d x"
      by (rule due_cong) (use "2.prems" in auto)
    ultimately show ?thesis using True "2.prems"
      by (auto simp del: fun_upd_apply simp: fun_upd_same fun_upd_other option.map_comp o_def)
  next
    case False
    then have "d e \<le> r" by simp
    then have "unat (r - d e) = unat r - unat (d e)" "unat (d e) \<le> unat r"
      by (simp_all add: unat_sub_le word_le_nat_alt)
    moreover have "snd (delta_insert k (r - d e) es d) e = d e"
      by (rule delta_insert_other) (use "2.prems" in auto)
    ultimately show ?thesis
      using "2.IH" False "2.prems" by (auto simp: split_beta)
  qed
qed simp

text \<open>
  Entries with equal deadlines keep their arming order: the new entry goes behind every entry
  that is due no later than it, and in front of every later one.
\<close>

lemma delta_insert_order:
  assumes "distinct l"
  shows "\<exists>xs ys. l = xs @ ys \<and> fst (delta_insert k r l d) = xs @ k # ys \<and>
           (\<forall>x \<in> set xs. \<exists>n. due l d x = Some n \<and> n \<le> unat r) \<and>
           (\<forall>y \<in> set ys. \<exists>n. due l d y = Some n \<and> unat r < n)"
  using assms
proof (induction k r l d rule: delta_insert.induct)
  case (2 k r e es d)
  show ?case
  proof (cases "d e > r")
    case True
    have "\<exists>n. due (e # es) d y = Some n \<and> unat r < n" if "y \<in> set (e # es)" for y
    proof (cases "y = e")
      case False
      with that obtain n where "due es d y = Some n"
        using due_None_iff [of es d y] by auto
      with False True show ?thesis by (auto simp: word_less_nat_alt)
    qed (use True in \<open>auto simp: word_less_nat_alt\<close>)
    with True show ?thesis
      by (intro exI [of _ "[]"] exI [of _ "e # es"]) auto
  next
    case False
    then have "d e \<le> r" by simp
    then have rr: "unat (r - d e) = unat r - unat (d e)" "unat (d e) \<le> unat r"
      by (simp_all add: unat_sub_le word_le_nat_alt)
    from "2.IH" False "2.prems" obtain xs ys where
      s: "es = xs @ ys" "fst (delta_insert k (r - d e) es d) = xs @ k # ys"
      and x: "\<forall>x \<in> set xs. \<exists>n. due es d x = Some n \<and> n \<le> unat (r - d e)"
      and y: "\<forall>y \<in> set ys. \<exists>n. due es d y = Some n \<and> unat (r - d e) < n"
      by auto
    have ne: "e \<notin> set xs" "e \<notin> set ys" using "2.prems" s by auto
    have "\<forall>x \<in> set (e # xs). \<exists>n. due (e # es) d x = Some n \<and> n \<le> unat r"
      using x rr ne by fastforce
    moreover have "\<forall>y \<in> set ys. \<exists>n. due (e # es) d y = Some n \<and> unat r < n"
      using y rr ne by fastforce
    ultimately show ?thesis
      using s False by (intro exI [of _ "e # xs"] exI [of _ ys]) (simp add: split_beta)
  qed
qed simp

subsection \<open>Removal\<close>

lemma delta_remove_list: "fst (delta_remove k l d) = remove1 k l"
  by (induction k l d rule: delta_remove.induct) (auto simp: split_beta)

lemma delta_remove_other:
  "x \<notin> set l \<Longrightarrow> snd (delta_remove k l d) x = d x"
  by (induction k l d rule: delta_remove.induct) (auto simp: split_beta split: list.splits)

lemma delta_remove_self: "distinct l \<Longrightarrow> snd (delta_remove k l d) k = d k"
  by (induction k l d rule: delta_remove.induct) (auto simp: split_beta split: list.splits)

lemma delta_remove_absent: "k \<notin> set l \<Longrightarrow> delta_remove k l d = (l, d)"
  by (induction k l d rule: delta_remove.induct) auto

lemma delta_remove_due:
  assumes "distinct l" "delta_total l d < 4294967296" "x \<noteq> k"
  shows "due (fst (delta_remove k l d)) (snd (delta_remove k l d)) x = due l d x"
  using assms
proof (induction k l d rule: delta_remove.induct)
  case (2 k e es d)
  show ?case
  proof (cases "e = k")
    case True
    show ?thesis
    proof (cases es)
      case (Cons n ns)
      have "unat (d n + d k) = unat (d n) + unat (d k)"
        using "2.prems" Cons True by (intro unat_add_lt) auto
      moreover have "due ns (d(n := d n + d k)) x = due ns d x"
        by (rule due_cong) (use "2.prems" Cons in auto)
      ultimately show ?thesis using True Cons "2.prems"
        by (cases "due ns d x")
          (auto simp del: fun_upd_apply simp: fun_upd_same fun_upd_other)
    qed (use True "2.prems" in simp)
  next
    case False
    have "snd (delta_remove k es d) e = d e"
      by (rule delta_remove_other) (use "2.prems" in auto)
    then show ?thesis using "2.IH" False "2.prems" by (auto simp: split_beta)
  qed
qed simp

lemma delta_remove_total:
  assumes "distinct l" "delta_total l d < 4294967296"
  shows "delta_total (fst (delta_remove k l d)) (snd (delta_remove k l d)) \<le> delta_total l d"
  using assms
proof (induction k l d rule: delta_remove.induct)
  case (2 k e es d)
  show ?case
  proof (cases "e = k")
    case True
    show ?thesis
    proof (cases es)
      case (Cons n ns)
      have "unat (d n + d k) = unat (d n) + unat (d k)"
        using "2.prems" Cons True by (intro unat_add_lt) auto
      moreover have "delta_total ns (d(n := d n + d k)) = delta_total ns d"
        by (rule delta_total_cong) (use "2.prems" Cons in auto)
      ultimately show ?thesis using True Cons "2.prems"
        by (auto simp del: fun_upd_apply simp: fun_upd_same fun_upd_other)
    qed (use True in simp)
  next
    case False
    have "snd (delta_remove k es d) e = d e"
      by (rule delta_remove_other) (use "2.prems" in auto)
    then show ?thesis using "2.IH" False "2.prems" by (auto simp: split_beta)
  qed
qed simp

section \<open>The contract of a delta queue\<close>

text \<open>
  A structure with a queue of keys and a stored delta per key, whose insert and remove are the
  two walks above. \<open>deadline s k\<close> is the absolute deadline. The laws a user relies on follow from
  the walks once, here.
\<close>

locale delta_queue =
  fixes keys :: "'s \<Rightarrow> 'k list"
    and delta :: "'s \<Rightarrow> 'k \<Rightarrow> u32"
    and arm :: "'k \<Rightarrow> u32 \<Rightarrow> 's \<Rightarrow> 's"
    and disarm :: "'k \<Rightarrow> 's \<Rightarrow> 's"
  assumes arm_walk: "k \<notin> set (keys s) \<Longrightarrow>
      (keys (arm k r s), delta (arm k r s)) = delta_insert k r (keys s) (delta s)"
    and disarm_walk: "(keys (disarm k s), delta (disarm k s)) = delta_remove k (keys s) (delta s)"
begin

definition deadline :: "'s \<Rightarrow> 'k \<Rightarrow> nat option" where
  "deadline s k = due (keys s) (delta s) k"

definition queue_ok :: "'s \<Rightarrow> bool" where
  "queue_ok s \<longleftrightarrow> distinct (keys s) \<and> delta_total (keys s) (delta s) < 4294967295"

lemma arm_keys: "k \<notin> set (keys s) \<Longrightarrow> keys (arm k r s) = fst (delta_insert k r (keys s) (delta s))"
  by (metis arm_walk fst_conv)

lemma arm_delta: "k \<notin> set (keys s) \<Longrightarrow> delta (arm k r s) = snd (delta_insert k r (keys s) (delta s))"
  by (metis arm_walk snd_conv)

lemma disarm_keys: "keys (disarm k s) = remove1 k (keys s)"
  by (metis disarm_walk fst_conv delta_remove_list)

lemma disarm_delta: "delta (disarm k s) = snd (delta_remove k (keys s) (delta s))"
  by (metis disarm_walk snd_conv)

lemma arm_deadline:
  "queue_ok s \<Longrightarrow> k \<notin> set (keys s) \<Longrightarrow>
   deadline (arm k r s) x = (if x = k then Some (unat r) else deadline s x)"
  by (simp add: deadline_def queue_ok_def arm_keys arm_delta delta_insert_due)

lemma arm_ok:
  "queue_ok s \<Longrightarrow> k \<notin> set (keys s) \<Longrightarrow> r \<noteq> OS_WAIT_FOREVER \<Longrightarrow> queue_ok (arm k r s)"
  by (simp add: queue_ok_def arm_keys arm_delta delta_insert_total delta_insert_distinct
      word32_not_forever_iff)

lemma arm_set: "k \<notin> set (keys s) \<Longrightarrow> set (keys (arm k r s)) = insert k (set (keys s))"
  by (simp add: arm_keys delta_insert_set)

lemma disarm_deadline: "queue_ok s \<Longrightarrow> x \<noteq> k \<Longrightarrow> deadline (disarm k s) x = deadline s x"
  by (simp add: deadline_def queue_ok_def disarm_delta disarm_keys delta_remove_due
      delta_remove_list [of k "keys s" "delta s", symmetric])

lemma disarm_ok: "queue_ok s \<Longrightarrow> queue_ok (disarm k s)"
  using delta_remove_total [of "keys s" "delta s" k]
  by (simp add: queue_ok_def disarm_keys disarm_delta delta_remove_list)

lemma disarm_set: "queue_ok s \<Longrightarrow> set (keys (disarm k s)) = set (keys s) - {k}"
  by (simp add: queue_ok_def disarm_keys)

lemma arm_disarm_deadline:
  "queue_ok s \<Longrightarrow> k \<notin> set (keys s) \<Longrightarrow> r \<noteq> OS_WAIT_FOREVER \<Longrightarrow> x \<noteq> k \<Longrightarrow>
   deadline (disarm k (arm k r s)) x = deadline s x"
  by (simp add: disarm_deadline arm_ok arm_deadline)

end

end
