(* ===== verification/Sched.thy ===== *)
theory Sched
  imports TaskState DeltaList
begin

text \<open>
  The scheduler core of \<^verbatim>\<open>kernel/os_task.c\<close> with the priority inheritance of
  \<^verbatim>\<open>kernel/os_task_mutex.c\<close>: moving tasks between the ready lists, the sleeper list and the
  waiter lists, and keeping effective priorities in step. \<^verbatim>\<open>os_task_unlink\<close>,
  \<^verbatim>\<open>os_task_effective_priority_set\<close> and the recomputation call each other in C; the model breaks
  the circle with the parameter \<open>U\<close>, the unlink that a priority change uses on a READY task, and
  ties it by a nesting depth. Running out of depth raises the flag \<open>diverged\<close>; the invariant
  theory shows that a depth of two is enough, because a READY task never waits on a list.
\<close>

section \<open>Ready lists\<close>

definition os_task_make_ready :: "tref \<Rightarrow> kstate \<Rightarrow> kstate" where
  "os_task_make_ready t s =
     (let s1 = upd_tcb t (\<lambda>x. x\<lparr>task_state := OS_TASK_STATE_READY\<rparr>) s;
          p = priority (tcb_of s1 t)
      in s1\<lparr>ready_list := (ready_list s1)(p := ready_list s1 p @ [t]),
            ready_bitmap := ready_bitmap s1 OR push_bit p 1\<rparr>)"

section \<open>The sleeper list\<close>

definition os_task_delay_insert :: "tref \<Rightarrow> u32 \<Rightarrow> kstate \<Rightarrow> kstate" where
  "os_task_delay_insert t ticks s =
     (case delta_insert t ticks (delay_list s) (\<lambda>x. delay_ticks (tcb_of s x)) of
        (l, d) \<Rightarrow> s\<lparr>delay_list := l, tcb_of := (\<lambda>x. (tcb_of s x)\<lparr>delay_ticks := d x\<rparr>)\<rparr>)"

definition os_task_delay_remove :: "tref \<Rightarrow> kstate \<Rightarrow> kstate" where
  "os_task_delay_remove t s =
     (case delta_remove t (delay_list s) (\<lambda>x. delay_ticks (tcb_of s x)) of
        (l, d) \<Rightarrow> s\<lparr>delay_list := l, tcb_of := (\<lambda>x. (tcb_of s x)\<lparr>delay_ticks := d x\<rparr>)\<rparr>)"

definition os_task_next_delay_ticks_get :: "kstate \<Rightarrow> u32" where
  "os_task_next_delay_ticks_get s =
     (case delay_list s of [] \<Rightarrow> 0xFFFFFFFF | t # _ \<Rightarrow> delay_ticks (tcb_of s t))"

section \<open>Waiter lists\<close>

fun wait_insert :: "(tref \<Rightarrow> nat) \<Rightarrow> tref \<Rightarrow> tref list \<Rightarrow> tref list" where
  "wait_insert prio t [] = [t]"
| "wait_insert prio t (x # xs) =
     (if prio x < prio t then t # x # xs else x # wait_insert prio t xs)"

definition os_task_wait_node_insert :: "wref \<Rightarrow> tref \<Rightarrow> kstate \<Rightarrow> kstate" where
  "os_task_wait_node_insert w t s =
     set_wlist w (wait_insert (\<lambda>x. priority (tcb_of s x)) t (wlist s w)) s"

section \<open>Unlinking, priority changes and priority inheritance\<close>

text \<open>The first half of \<^verbatim>\<open>os_task_unlink\<close>: off the ready list or the sleeper list.\<close>

definition unlink_state :: "tref \<Rightarrow> kstate \<Rightarrow> kstate" where
  "unlink_state t s =
     (if task_state (tcb_of s t) = OS_TASK_STATE_READY then
        let p = priority (tcb_of s t); l = remove1 t (ready_list s p) in
        s\<lparr>ready_list := (ready_list s)(p := l),
          ready_bitmap := (if l = [] then ready_bitmap s AND NOT (push_bit p 1) else ready_bitmap s)\<rparr>
      else if task_state (tcb_of s t) = OS_TASK_STATE_BLOCKED \<and>
              delay_ticks (tcb_of s t) \<noteq> OS_WAIT_FOREVER
      then os_task_delay_remove t s
      else s)"

definition above_mask :: "nat \<Rightarrow> u32" where
  "above_mask p = NOT (push_bit (p + 1) 1 - 1)"

definition effective_priority_set ::
  "(tref \<Rightarrow> kstate \<Rightarrow> kstate) \<Rightarrow> tref \<Rightarrow> nat \<Rightarrow> kstate \<Rightarrow> kstate" where
  "effective_priority_set U t new_priority s =
     (let old = priority (tcb_of s t); st = task_state (tcb_of s t) in
      if new_priority = old then s
      else if st = OS_TASK_STATE_READY then
        let s1 = U t s;
            s2 = upd_tcb t (\<lambda>x. x\<lparr>priority := new_priority\<rparr>) s1;
            s3 = os_task_make_ready t s2
        in if new_priority > old \<and> kernel_running s3 then os_task_preempt_request t s3 else s3
      else if st = OS_TASK_STATE_RUNNING \<and> new_priority < old \<and> kernel_running s then
        let c = os_task_running_core t s;
            s1 = upd_tcb t (\<lambda>x. x\<lparr>priority := new_priority\<rparr>) s
        in if c < core_count s \<and> new_priority < OS_TASK_PRIO_MAX \<and>
              ready_bitmap s1 AND above_mask new_priority \<noteq> 0
           then (if 1 < core_count s \<and> c \<noteq> this_core s then os_arch_core_ipi_request c s1
                 else os_task_switch_request s1)
           else s1
      else
        let s1 = upd_tcb t (\<lambda>x. x\<lparr>priority := new_priority\<rparr>) s
        in (case wait_list (tcb_of s1 t) of
              None \<Rightarrow> s1
            | Some w \<Rightarrow> os_task_wait_node_insert w t (set_wlist w (remove1 t (wlist s1 w)) s1)))"

text \<open>The greatest of a base priority and the head waiter of every held mutex.\<close>

fun held_priority :: "kstate \<Rightarrow> nat list \<Rightarrow> nat \<Rightarrow> nat" where
  "held_priority s [] p = p"
| "held_priority s (m # ms) p =
     held_priority s ms
       (case wlist s (MutexWaiters m) of
          [] \<Rightarrow> p
        | h # _ \<Rightarrow> (if priority (tcb_of s h) > p then priority (tcb_of s h) else p))"

definition effective_recompute ::
  "(tref \<Rightarrow> kstate \<Rightarrow> kstate) \<Rightarrow> tref \<Rightarrow> kstate \<Rightarrow> kstate" where
  "effective_recompute U t s =
     effective_priority_set U t
       (held_priority s (owned_mutexes (tcb_of s t)) (base_priority (tcb_of s t))) s"

definition OS_TASK_DEADLOCK_MAX_DEPTH :: nat where
  "OS_TASK_DEADLOCK_MAX_DEPTH = 8"

fun recompute_chain ::
  "(tref \<Rightarrow> kstate \<Rightarrow> kstate) \<Rightarrow> nat \<Rightarrow> tref option \<Rightarrow> kstate \<Rightarrow> kstate" where
  "recompute_chain U 0 task s = s"
| "recompute_chain U (Suc n) None s = s"
| "recompute_chain U (Suc n) (Some t) s =
     (let s1 = effective_recompute U t s in
      case blocked_on_mutex (tcb_of s1 t) of
        None \<Rightarrow> s1
      | Some m \<Rightarrow> recompute_chain U n (os_task_find_by_id (owner_id (mutexes s1 m)) s1) s1)"

definition priority_recompute ::
  "(tref \<Rightarrow> kstate \<Rightarrow> kstate) \<Rightarrow> tref option \<Rightarrow> kstate \<Rightarrow> kstate" where
  "priority_recompute U task s = recompute_chain U OS_TASK_DEADLOCK_MAX_DEPTH task s"

definition waiter_depart_tcb :: "(tref \<Rightarrow> kstate \<Rightarrow> kstate) \<Rightarrow> tref \<Rightarrow> kstate \<Rightarrow> kstate" where
  "waiter_depart_tcb U t s =
     (let x = tcb_of s t;
          oid = (case blocked_on_mutex x of Some m \<Rightarrow> owner_id (mutexes s m) | None \<Rightarrow> pi_owner_id x);
          s1 = upd_tcb t (\<lambda>x. x\<lparr>pi_owner_id := 0, blocked_on_mutex := None,
                                blocked_forever := False\<rparr>) s
      in if oid \<noteq> 0 then priority_recompute U (os_task_find_by_id oid s1) s1 else s1)"

definition unlink_body :: "(tref \<Rightarrow> kstate \<Rightarrow> kstate) \<Rightarrow> tref \<Rightarrow> kstate \<Rightarrow> kstate" where
  "unlink_body U t s =
     (let s1 = unlink_state t s in
      case wait_list (tcb_of s1 t) of
        None \<Rightarrow> s1
      | Some w \<Rightarrow>
          waiter_depart_tcb U t
            (upd_tcb t (\<lambda>x. x\<lparr>wait_list := None\<rparr>) (set_wlist w (remove1 t (wlist s1 w)) s1)))"

primrec unlink_depth :: "nat \<Rightarrow> tref \<Rightarrow> kstate \<Rightarrow> kstate" where
  "unlink_depth 0 = (\<lambda>t s. s\<lparr>diverged := True\<rparr>)"
| "unlink_depth (Suc n) = unlink_body (unlink_depth n)"

definition os_task_unlink :: "tref \<Rightarrow> kstate \<Rightarrow> kstate" where
  "os_task_unlink = unlink_depth 2"

definition os_task_effective_priority_set :: "tref \<Rightarrow> nat \<Rightarrow> kstate \<Rightarrow> kstate" where
  "os_task_effective_priority_set = effective_priority_set os_task_unlink"

definition os_task_mutex_priority_recompute :: "tref option \<Rightarrow> kstate \<Rightarrow> kstate" where
  "os_task_mutex_priority_recompute = priority_recompute os_task_unlink"

definition os_task_mutex_waiter_depart_tcb :: "tref \<Rightarrow> kstate \<Rightarrow> kstate" where
  "os_task_mutex_waiter_depart_tcb = waiter_depart_tcb os_task_unlink"

definition os_task_mutex_waiter_depart :: "kstate \<Rightarrow> kstate" where
  "os_task_mutex_waiter_depart s =
     (case current s (this_core s) of
        None \<Rightarrow> s | Some t \<Rightarrow> os_task_mutex_waiter_depart_tcb t s)"

definition os_task_mutex_owner_link :: "nat \<Rightarrow> kstate \<Rightarrow> kstate" where
  "os_task_mutex_owner_link m s =
     (case current s (this_core s) of
        None \<Rightarrow> s
      | Some t \<Rightarrow>
          if task_id (tcb_of s t) \<noteq> 0 then
            let s1 = upd_tcb t (\<lambda>x. x\<lparr>owned_mutexes := owned_mutexes x @ [m]\<rparr>) s
            in if wlist s1 (MutexWaiters m) \<noteq> []
               then os_task_mutex_priority_recompute (Some t) s1 else s1
          else s)"

definition os_task_mutex_priority_inherit :: "u32 \<Rightarrow> kstate \<Rightarrow> kstate" where
  "os_task_mutex_priority_inherit owner_task_id s =
     (case (current s (this_core s), os_task_find_by_id owner_task_id s) of
        (Some cur, Some owner) \<Rightarrow>
          let s1 = upd_tcb cur (\<lambda>x. x\<lparr>pi_owner_id := owner_task_id\<rparr>) s in
          if priority (tcb_of s1 cur) > priority (tcb_of s1 owner) then
            let s2 = os_task_effective_priority_set owner (priority (tcb_of s1 cur)) s1 in
            (case blocked_on_mutex (tcb_of s2 owner) of
               None \<Rightarrow> s2
             | Some m \<Rightarrow> os_task_mutex_priority_recompute
                           (os_task_find_by_id (owner_id (mutexes s2 m)) s2) s2)
          else s1
      | _ \<Rightarrow> s)"

definition os_task_mutex_owner_unlink_and_reprioritize :: "u32 \<Rightarrow> nat \<Rightarrow> kstate \<Rightarrow> kstate" where
  "os_task_mutex_owner_unlink_and_reprioritize oid m s =
     (case os_task_find_by_id oid s of
        None \<Rightarrow> s
      | Some owner \<Rightarrow>
          let was_lifting = wlist s (MutexWaiters m) \<noteq> [];
              s1 = upd_tcb owner (\<lambda>x. x\<lparr>owned_mutexes := remove1 m (owned_mutexes x)\<rparr>) s
          in if was_lifting then os_task_mutex_priority_recompute (Some owner) s1 else s1)"

definition os_task_mutex_blocked_on_set :: "nat \<Rightarrow> bool \<Rightarrow> kstate \<Rightarrow> kstate" where
  "os_task_mutex_blocked_on_set m forever s =
     (case current s (this_core s) of
        None \<Rightarrow> s
      | Some t \<Rightarrow> upd_tcb t (\<lambda>x. x\<lparr>blocked_on_mutex := Some m, blocked_forever := forever\<rparr>) s)"

text \<open>The deadlock walk: does the chain of owners behind a mutex lead back to the caller?\<close>

fun deadlock_walk :: "nat \<Rightarrow> tref \<Rightarrow> nat option \<Rightarrow> kstate \<Rightarrow> bool" where
  "deadlock_walk 0 cur link s = False"
| "deadlock_walk (Suc n) cur None s = False"
| "deadlock_walk (Suc n) cur (Some m) s =
     (case os_task_find_by_id (owner_id (mutexes s m)) s of
        None \<Rightarrow> False
      | Some owner \<Rightarrow>
          if owner = cur then True
          else deadlock_walk n cur
                 (if blocked_forever (tcb_of s owner) then blocked_on_mutex (tcb_of s owner) else None) s)"

definition os_task_mutex_deadlock_check :: "nat \<Rightarrow> kstate \<Rightarrow> bool" where
  "os_task_mutex_deadlock_check m s =
     (case current s (this_core s) of
        None \<Rightarrow> False
      | Some cur \<Rightarrow> deadlock_walk OS_TASK_DEADLOCK_MAX_DEPTH cur (Some m) s)"

section \<open>Waking\<close>

definition signal_and_ready :: "tref \<Rightarrow> (os_task_tcb_t \<Rightarrow> os_task_tcb_t) \<Rightarrow> kstate \<Rightarrow> kstate" where
  "signal_and_ready t f s =
     (let s1 = os_task_unlink t s;
          s2 = upd_tcb t (\<lambda>x. f (x\<lparr>wait_signaled := True\<rparr>)) s1;
          s3 = os_task_make_ready t s2
      in if kernel_running s3 then os_task_preempt_request t s3 else s3)"

definition os_task_wake_locked :: "tref option \<Rightarrow> kstate \<Rightarrow> kstate" where
  "os_task_wake_locked task s =
     (case task of
        None \<Rightarrow> s
      | Some t \<Rightarrow>
          if task_state (tcb_of s t) = OS_TASK_STATE_BLOCKED
          then signal_and_ready t (\<lambda>x. x) s else s)"

definition os_task_wake :: "u32 \<Rightarrow> kstate \<Rightarrow> kstate" where
  "os_task_wake ident s =
     (if ident \<noteq> 0 then os_task_wake_locked (os_task_find_by_id ident s) s else s)"

definition os_task_waiters_wake_one :: "wref \<Rightarrow> kstate \<Rightarrow> bool \<times> kstate" where
  "os_task_waiters_wake_one w s =
     (case wlist s w of
        [] \<Rightarrow> (False, s)
      | t # _ \<Rightarrow> (True, signal_and_ready t (\<lambda>x. x\<lparr>woken_from := Some w\<rparr>) s))"

text \<open>
  \<^verbatim>\<open>os_task_waiters_wake_match\<close> walks the list it takes waiters out of; the next node is read
  before the current one is unlinked, so the walk visits the waiters that were there when it
  started. The callback's context is threaded as a value \<open>c\<close>; it returns the result to deliver
  when the waiter matches.
\<close>

fun wake_match ::
  "(u32 \<Rightarrow> u32 \<Rightarrow> 'c \<Rightarrow> u32 option \<times> 'c) \<Rightarrow> wref \<Rightarrow> tref list \<Rightarrow> 'c \<Rightarrow> kstate \<Rightarrow> nat \<times> 'c \<times> kstate" where
  "wake_match f w [] c s = (0, c, s)"
| "wake_match f w (t # ts) c s =
     (case f (wait_data0 (tcb_of s t)) (wait_data1 (tcb_of s t)) c of
        (None, c') \<Rightarrow> wake_match f w ts c' s
      | (Some r, c') \<Rightarrow>
          (case wake_match f w ts c'
                  (signal_and_ready t (\<lambda>x. x\<lparr>wait_result := r, woken_from := Some w\<rparr>) s) of
             (n, c'', s') \<Rightarrow> (Suc n, c'', s')))"

definition os_task_waiters_wake_match ::
  "wref \<Rightarrow> (u32 \<Rightarrow> u32 \<Rightarrow> 'c \<Rightarrow> u32 option \<times> 'c) \<Rightarrow> 'c \<Rightarrow> kstate \<Rightarrow> nat \<times> 'c \<times> kstate" where
  "os_task_waiters_wake_match w f c s = wake_match f w (wlist s w) c s"

definition os_task_wake_compensate :: "tref \<Rightarrow> kstate \<Rightarrow> kstate" where
  "os_task_wake_compensate t s =
     (let x = tcb_of s t in
      case woken_from x of
        Some w \<Rightarrow>
          if task_state x = OS_TASK_STATE_READY \<and> wait_signaled x
          then snd (os_task_waiters_wake_one w (upd_tcb t (\<lambda>x. x\<lparr>woken_from := None\<rparr>) s))
          else s
      | None \<Rightarrow> s)"

section \<open>Blocking\<close>

definition os_tickless_deadline_armed :: "kstate \<Rightarrow> kstate" where
  "os_tickless_deadline_armed s =
     (let s1 = s\<lparr>plan_generation := plan_generation s + 1\<rparr> in
      if 1 < core_count s1 \<and> window_open s1 \<and> this_core s1 \<noteq> 0
      then os_arch_core_ipi_request 0 s1 else s1)"

definition os_task_sleep_ticks :: "u32 \<Rightarrow> kstate \<Rightarrow> kstate" where
  "os_task_sleep_ticks ticks s =
     (if ticks = 0 then s
      else case current s (this_core s) of
        None \<Rightarrow> s
      | Some t \<Rightarrow>
          if kernel_running s \<and> \<not> in_isr s \<and> lock_count s (this_core s) = 0 \<and>
             t \<noteq> Idle (this_core s)
          then
            let s1 = upd_tcb t (\<lambda>x. x\<lparr>delay_ticks := ticks, task_state := OS_TASK_STATE_BLOCKED\<rparr>) s;
                s2 = (if ticks \<noteq> OS_WAIT_FOREVER
                      then os_tickless_deadline_armed (os_task_delay_insert t ticks s1) else s1)
            in os_task_switch_request s2
          else s)"

definition os_task_wait_begin :: "wref \<Rightarrow> u32 \<Rightarrow> kstate \<Rightarrow> kstate" where
  "os_task_wait_begin w timeout_ticks s =
     (case current s (this_core s) of
        None \<Rightarrow> s
      | Some t \<Rightarrow>
          if t \<noteq> Idle (this_core s) then
            let s1 = os_task_wait_node_insert w t s;
                s2 = upd_tcb t (\<lambda>x. x\<lparr>wait_list := Some w, wait_signaled := False,
                       woken_from := None, delay_ticks := timeout_ticks,
                       task_state := OS_TASK_STATE_BLOCKED\<rparr>) s1;
                s3 = (if timeout_ticks \<noteq> OS_WAIT_FOREVER
                      then os_tickless_deadline_armed (os_task_delay_insert t timeout_ticks s2)
                      else s2)
            in os_task_switch_request s3
          else s)"

definition os_task_wait_end_locked :: "kstate \<Rightarrow> kstate" where
  "os_task_wait_end_locked s =
     (if in_isr s then s
      else case current s (this_core s) of
        None \<Rightarrow> s
      | Some t \<Rightarrow> upd_tcb t (\<lambda>x. x\<lparr>wait_signaled := False, woken_from := None, pi_owner_id := 0,
                                  blocked_on_mutex := None, blocked_forever := False\<rparr>) s)"

definition os_task_wait_signaled :: "kstate \<Rightarrow> bool" where
  "os_task_wait_signaled s =
     (case current s (this_core s) of None \<Rightarrow> False | Some t \<Rightarrow> wait_signaled (tcb_of s t))"

definition os_task_wait_data_set :: "u32 \<Rightarrow> u32 \<Rightarrow> kstate \<Rightarrow> kstate" where
  "os_task_wait_data_set data0 data1 s =
     (case current s (this_core s) of
        None \<Rightarrow> s
      | Some t \<Rightarrow> upd_tcb t (\<lambda>x. x\<lparr>wait_data0 := data0, wait_data1 := data1, wait_result := 0\<rparr>) s)"

definition os_task_wait_result_get :: "kstate \<Rightarrow> u32" where
  "os_task_wait_result_get s =
     (case current s (this_core s) of None \<Rightarrow> 0 | Some t \<Rightarrow> wait_result (tcb_of s t))"

end
