(* ===== verification/SchedInv.thy ===== *)
theory SchedInv
  imports Sched
begin

text \<open>
  The well-formedness invariant of the scheduler's shared structures, and the proof that every
  operation of \<^verbatim>\<open>Sched\<close> keeps it. \<open>kwf D s\<close> is the invariant while the tasks of \<open>D\<close> are in
  transit: unlinked from wherever they were and not linked again yet. The kernel's own invariant
  is \<open>kwf {}\<close>.
\<close>

section \<open>The invariant\<close>

definition prio_wf :: "kstate \<Rightarrow> bool" where
  "prio_wf s \<longleftrightarrow> (\<forall>t. priority (tcb_of s t) \<le> 31 \<and> base_priority (tcb_of s t) \<le> 31)"

definition ready_wf :: "tref set \<Rightarrow> kstate \<Rightarrow> bool" where
  "ready_wf D s \<longleftrightarrow>
     (\<forall>p. distinct (ready_list s p)) \<and>
     (\<forall>p t. t \<in> set (ready_list s p) \<longleftrightarrow>
        is_slot t \<and> t \<notin> D \<and> task_state (tcb_of s t) = OS_TASK_STATE_READY \<and>
        priority (tcb_of s t) = p) \<and>
     (\<forall>p < 32. bit (ready_bitmap s) p \<longleftrightarrow> ready_list s p \<noteq> [])"

definition delay_wf :: "tref set \<Rightarrow> kstate \<Rightarrow> bool" where
  "delay_wf D s \<longleftrightarrow>
     distinct (delay_list s) \<and>
     (\<forall>t. t \<in> set (delay_list s) \<longleftrightarrow>
        is_slot t \<and> t \<notin> D \<and> task_state (tcb_of s t) = OS_TASK_STATE_BLOCKED \<and>
        delay_ticks (tcb_of s t) \<noteq> OS_WAIT_FOREVER) \<and>
     delta_total (delay_list s) (\<lambda>x. delay_ticks (tcb_of s x)) < 4294967295"

definition wait_wf :: "kstate \<Rightarrow> bool" where
  "wait_wf s \<longleftrightarrow>
     (\<forall>w. distinct (wlist s w) \<and> sorted_desc (\<lambda>x. priority (tcb_of s x)) (wlist s w)) \<and>
     (\<forall>w t. t \<in> set (wlist s w) \<longleftrightarrow> wait_list (tcb_of s t) = Some w) \<and>
     (\<forall>t. wait_list (tcb_of s t) \<noteq> None \<longrightarrow>
        is_slot t \<and> task_state (tcb_of s t) = OS_TASK_STATE_BLOCKED)"

definition run_wf :: "kstate \<Rightarrow> bool" where
  "run_wf s \<longleftrightarrow>
     (\<forall>t. task_state (tcb_of s t) = OS_TASK_STATE_RUNNING \<longrightarrow>
        (\<exists>c < core_count s. current s c = Some t)) \<and>
     (\<forall>c t. current s c = Some t \<longrightarrow> is_slot t \<or> t = Idle c)"

definition kwf :: "tref set \<Rightarrow> kstate \<Rightarrow> bool" where
  "kwf D s \<longleftrightarrow> prio_wf s \<and> ready_wf D s \<and> delay_wf D s \<and> wait_wf s \<and> run_wf s"

lemma kwfI:
  "prio_wf s \<Longrightarrow> ready_wf D s \<Longrightarrow> delay_wf D s \<Longrightarrow> wait_wf s \<Longrightarrow> run_wf s \<Longrightarrow> kwf D s"
  by (simp add: kwf_def)

lemma kwfD:
  assumes "kwf D s"
  shows "prio_wf s" "ready_wf D s" "delay_wf D s" "wait_wf s" "run_wf s"
  using assms by (simp_all add: kwf_def)

lemma kwf_priority: "kwf D s \<Longrightarrow> priority (tcb_of s t) \<le> 31"
  by (simp add: kwf_def prio_wf_def)

lemma kwf_ready_iff:
  "kwf D s \<Longrightarrow> t \<in> set (ready_list s p) \<longleftrightarrow>
     is_slot t \<and> t \<notin> D \<and> task_state (tcb_of s t) = OS_TASK_STATE_READY \<and> priority (tcb_of s t) = p"
  by (simp add: kwf_def ready_wf_def)

lemma kwf_delay_iff:
  "kwf D s \<Longrightarrow> t \<in> set (delay_list s) \<longleftrightarrow>
     is_slot t \<and> t \<notin> D \<and> task_state (tcb_of s t) = OS_TASK_STATE_BLOCKED \<and>
     delay_ticks (tcb_of s t) \<noteq> OS_WAIT_FOREVER"
  by (simp add: kwf_def delay_wf_def)

lemma kwf_wait_iff: "kwf D s \<Longrightarrow> t \<in> set (wlist s w) \<longleftrightarrow> wait_list (tcb_of s t) = Some w"
  by (simp add: kwf_def wait_wf_def)

lemma kwf_waiting:
  "kwf D s \<Longrightarrow> wait_list (tcb_of s t) = Some w \<Longrightarrow>
   is_slot t \<and> task_state (tcb_of s t) = OS_TASK_STATE_BLOCKED"
  by (auto simp: kwf_def wait_wf_def)

lemma kwf_not_waiting:
  "kwf D s \<Longrightarrow> task_state (tcb_of s t) \<noteq> OS_TASK_STATE_BLOCKED \<Longrightarrow> wait_list (tcb_of s t) = None"
  using kwf_waiting [of D s t] by (cases "wait_list (tcb_of s t)") auto

section \<open>States that agree on what the invariant reads\<close>

text \<open>
  Flags, tick counts and most TCB fields are invisible to the invariant. \<open>same_view\<close> says two
  states look alike to it.
\<close>

definition same_view :: "kstate \<Rightarrow> kstate \<Rightarrow> bool" where
  "same_view s s' \<longleftrightarrow>
     (\<forall>t. priority (tcb_of s' t) = priority (tcb_of s t) \<and>
          base_priority (tcb_of s' t) = base_priority (tcb_of s t) \<and>
          task_state (tcb_of s' t) = task_state (tcb_of s t) \<and>
          delay_ticks (tcb_of s' t) = delay_ticks (tcb_of s t) \<and>
          wait_list (tcb_of s' t) = wait_list (tcb_of s t)) \<and>
     ready_list s' = ready_list s \<and> ready_bitmap s' = ready_bitmap s \<and>
     delay_list s' = delay_list s \<and> wlist s' = wlist s \<and>
     current s' = current s \<and> core_count s' = core_count s"

lemma same_view_kwf: "same_view s s' \<Longrightarrow> kwf D s' = kwf D s"
  unfolding same_view_def kwf_def prio_wf_def ready_wf_def delay_wf_def wait_wf_def run_wf_def
  by simp

lemma kwf_with_requests [simp]: "kwf D (with_requests p q i s) = kwf D s"
  by (rule same_view_kwf) (simp add: same_view_def)

lemma kwf_switch_request [simp]: "kwf D (os_task_switch_request s) = kwf D s"
  using switch_request_flags [of s] by auto

lemma kwf_preempt_request [simp]: "kwf D (os_task_preempt_request t s) = kwf D s"
  using preempt_request_flags [of t s] by auto

lemma kwf_ipi_request [simp]: "kwf D (os_arch_core_ipi_request c s) = kwf D s"
  using ipi_request_flags [of c s] by auto

lemma kwf_deadline_armed [simp]: "kwf D (os_tickless_deadline_armed s) = kwf D s"
proof -
  have "kwf D (s\<lparr>plan_generation := plan_generation s + 1\<rparr>) = kwf D s"
    by (rule same_view_kwf) (simp add: same_view_def)
  then show ?thesis by (simp add: os_tickless_deadline_armed_def Let_def)
qed

text \<open>Fields of a TCB that the invariant does not read.\<close>

lemma kwf_upd_tcb_view:
  assumes "\<And>x. priority (f x) = priority x" "\<And>x. base_priority (f x) = base_priority x"
    "\<And>x. task_state (f x) = task_state x" "\<And>x. delay_ticks (f x) = delay_ticks x"
    "\<And>x. wait_list (f x) = wait_list x"
  shows "kwf D (upd_tcb t f s) = kwf D s"
  by (rule same_view_kwf) (simp add: same_view_def assms)

section \<open>The primitive list moves\<close>

lemma kwf_make_ready:
  assumes k: "kwf D s" and t: "is_slot t" "t \<in> D" "wait_list (tcb_of s t) = None"
  shows "kwf (D - {t}) (os_task_make_ready t s)"
proof (rule kwfI)
  let ?s' = "os_task_make_ready t s" and ?p = "priority (tcb_of s t)"
  note mr = os_task_make_ready_def Let_def
  have p: "?p \<le> 31" using k by (rule kwf_priority)
  have notin: "t \<notin> set (ready_list s q)" for q using kwf_ready_iff [OF k] t by simp
  show "prio_wf ?s'" using kwfD(1) [OF k] by (auto simp: prio_wf_def mr)
  show "ready_wf (D - {t}) ?s'"
    using kwfD(2) [OF k] t notin p
    by (auto simp: ready_wf_def mr bit_set_bit)
  have nt: "t \<notin> set (delay_list s)" using kwf_delay_iff [OF k] t by simp
  have "delta_total (delay_list s) (\<lambda>x. delay_ticks (tcb_of ?s' x)) =
        delta_total (delay_list s) (\<lambda>x. delay_ticks (tcb_of s x))"
    by (rule delta_total_cong) (simp add: mr)
  then show "delay_wf (D - {t}) ?s'"
    using kwfD(3) [OF k] nt by (auto simp: delay_wf_def mr)
  have pr: "(\<lambda>x. priority (tcb_of ?s' x)) = (\<lambda>x. priority (tcb_of s x))"
    by (auto simp: mr)
  show "wait_wf ?s'"
    unfolding wait_wf_def pr using kwfD(4) [OF k] t by (auto simp: wait_wf_def mr)
  show "run_wf ?s'" using kwfD(5) [OF k] by (auto simp: run_wf_def mr)
qed

interpretation sleepers: delta_queue
  delay_list "\<lambda>s x. delay_ticks (tcb_of s x)" os_task_delay_insert os_task_delay_remove
  by unfold_locales
    (simp_all add: os_task_delay_insert_def os_task_delay_remove_def split_beta)

lemma delay_insert_simps [simp]:
  "priority (tcb_of (os_task_delay_insert t r s) x) = priority (tcb_of s x)"
  "base_priority (tcb_of (os_task_delay_insert t r s) x) = base_priority (tcb_of s x)"
  "task_state (tcb_of (os_task_delay_insert t r s) x) = task_state (tcb_of s x)"
  "wait_list (tcb_of (os_task_delay_insert t r s) x) = wait_list (tcb_of s x)"
  "ready_list (os_task_delay_insert t r s) = ready_list s"
  "ready_bitmap (os_task_delay_insert t r s) = ready_bitmap s"
  "wlist (os_task_delay_insert t r s) = wlist s" "current (os_task_delay_insert t r s) = current s"
  "core_count (os_task_delay_insert t r s) = core_count s"
  by (simp_all add: os_task_delay_insert_def split_beta)

lemma delay_remove_simps [simp]:
  "tcb_of (os_task_delay_remove t s) x =
     (tcb_of s x)\<lparr>delay_ticks := delay_ticks (tcb_of (os_task_delay_remove t s) x)\<rparr>"
  "priority (tcb_of (os_task_delay_remove t s) x) = priority (tcb_of s x)"
  "base_priority (tcb_of (os_task_delay_remove t s) x) = base_priority (tcb_of s x)"
  "task_state (tcb_of (os_task_delay_remove t s) x) = task_state (tcb_of s x)"
  "wait_list (tcb_of (os_task_delay_remove t s) x) = wait_list (tcb_of s x)"
  "ready_list (os_task_delay_remove t s) = ready_list s"
  "ready_bitmap (os_task_delay_remove t s) = ready_bitmap s"
  "wlist (os_task_delay_remove t s) = wlist s" "current (os_task_delay_remove t s) = current s"
  "core_count (os_task_delay_remove t s) = core_count s"
  by (simp_all add: os_task_delay_remove_def split_beta)

declare delay_remove_simps(1) [simp del]

lemma kwf_queue_ok: "kwf D s \<Longrightarrow> sleepers.queue_ok s"
  by (simp add: kwf_def delay_wf_def sleepers.queue_ok_def)

text \<open>An entry other than the one removed keeps a delta that is not the forever value.\<close>

lemma queue_ok_not_forever:
  assumes "sleepers.queue_ok s" "x \<in> set (delay_list s)"
  shows "delay_ticks (tcb_of s x) \<noteq> OS_WAIT_FOREVER"
proof -
  obtain n where n: "due (delay_list s) (\<lambda>x. delay_ticks (tcb_of s x)) x = Some n"
    using assms(2) due_None_iff by fastforce
  have "unat (delay_ticks (tcb_of s x)) \<le> n" using delta_le_due [OF n] .
  also have "n \<le> delta_total (delay_list s) (\<lambda>x. delay_ticks (tcb_of s x))"
    by (rule due_le_total [OF n])
  also have "\<dots> < 4294967295" using assms(1) by (simp add: sleepers.queue_ok_def)
  finally show ?thesis by (simp add: word32_not_forever_iff)
qed

lemma delay_remove_other:
  "x \<notin> set (delay_list s) \<Longrightarrow> delay_ticks (tcb_of (os_task_delay_remove t s) x) = delay_ticks (tcb_of s x)"
  by (simp add: os_task_delay_remove_def split_beta DeltaList.delta_remove_other)

lemma delay_insert_other:
  "x \<notin> set (delay_list s) \<Longrightarrow> x \<noteq> t \<Longrightarrow>
   delay_ticks (tcb_of (os_task_delay_insert t r s) x) = delay_ticks (tcb_of s x)"
  by (simp add: os_task_delay_insert_def split_beta DeltaList.delta_insert_other)

lemma delay_remove_self: "distinct (delay_list s) \<Longrightarrow>
  delay_ticks (tcb_of (os_task_delay_remove t s) t) = delay_ticks (tcb_of s t)"
  by (simp add: os_task_delay_remove_def split_beta DeltaList.delta_remove_self)

lemma kwf_delay_remove:
  assumes k: "kwf D s" and t: "is_slot t" "t \<notin> D" "task_state (tcb_of s t) = OS_TASK_STATE_BLOCKED"
    "delay_ticks (tcb_of s t) \<noteq> OS_WAIT_FOREVER"
  shows "kwf (insert t D) (os_task_delay_remove t s)"
proof (rule kwfI)
  let ?s' = "os_task_delay_remove t s"
  have q: "sleepers.queue_ok s" using k by (rule kwf_queue_ok)
  note q' = sleepers.disarm_ok [OF q, of t]
  have d: "distinct (delay_list s)" using q by (simp add: sleepers.queue_ok_def)
  show "prio_wf ?s'" using kwfD(1) [OF k] by (simp add: prio_wf_def)
  show "ready_wf (insert t D) ?s'" using kwfD(2) [OF k] t by (auto simp: ready_wf_def)
  have "x \<in> set (delay_list ?s') \<longleftrightarrow> is_slot x \<and> x \<notin> insert t D \<and>
      task_state (tcb_of s x) = OS_TASK_STATE_BLOCKED \<and>
      delay_ticks (tcb_of ?s' x) \<noteq> OS_WAIT_FOREVER" for x
    using queue_ok_not_forever [OF q', of x] kwf_delay_iff [OF k, of x] delay_remove_other [of x s t] d
    by (auto simp: sleepers.disarm_keys)
  then show "delay_wf (insert t D) ?s'"
    using q' by (simp add: delay_wf_def sleepers.queue_ok_def)
  show "wait_wf ?s'" using kwfD(4) [OF k] by (simp add: wait_wf_def)
  show "run_wf ?s'" using kwfD(5) [OF k] by (simp add: run_wf_def)
qed

lemma kwf_ready_remove:
  assumes k: "kwf D s" and t: "is_slot t" "t \<notin> D" "task_state (tcb_of s t) = OS_TASK_STATE_READY"
  shows "kwf (insert t D) (unlink_state t s)"
proof (rule kwfI)
  let ?s' = "unlink_state t s" and ?p = "priority (tcb_of s t)"
  have tcb: "tcb_of ?s' = tcb_of s" "delay_list ?s' = delay_list s" "wlist ?s' = wlist s"
    "current ?s' = current s" "core_count ?s' = core_count s"
    using t by (simp_all add: unlink_state_def Let_def)
  have rl: "ready_list ?s' = (ready_list s)(?p := remove1 t (ready_list s ?p))"
    "ready_bitmap ?s' = (if remove1 t (ready_list s ?p) = []
       then ready_bitmap s AND NOT (2 ^ ?p) else ready_bitmap s)"
    using t by (simp_all add: unlink_state_def Let_def)
  have p: "?p \<le> 31" using k by (rule kwf_priority)
  have dist: "distinct (ready_list s q)" for q using kwfD(2) [OF k] by (simp add: ready_wf_def)
  have bits: "bit (ready_bitmap s) q \<longleftrightarrow> ready_list s q \<noteq> []" if "q < 32" for q
    using kwfD(2) [OF k] that by (simp add: ready_wf_def)
  have mem: "t \<in> set (ready_list s ?p)" using kwf_ready_iff [OF k] t by simp
  show "prio_wf ?s'" using kwfD(1) [OF k] by (simp add: prio_wf_def tcb)
  show "ready_wf (insert t D) ?s'"
    unfolding ready_wf_def
  proof (intro conjI allI impI)
    show "distinct (ready_list ?s' q)" for q using dist by (simp add: rl)
    show "x \<in> set (ready_list ?s' q) \<longleftrightarrow> is_slot x \<and> x \<notin> insert t D \<and>
        task_state (tcb_of ?s' x) = OS_TASK_STATE_READY \<and> priority (tcb_of ?s' x) = q" for q x
      using kwf_ready_iff [OF k, of x q] dist by (auto simp: rl tcb)
    show "bit (ready_bitmap ?s') q \<longleftrightarrow> ready_list ?s' q \<noteq> []" if "q < 32" for q
    proof (cases "q = ?p")
      case True
      then show ?thesis using bits [OF that] mem p by (auto simp: rl bit_clear_bit)
    next
      case False
      then show ?thesis using bits [OF that] p by (simp add: rl bit_clear_bit)
    qed
  qed
  show "delay_wf (insert t D) ?s'" using kwfD(3) [OF k] t by (auto simp: delay_wf_def tcb)
  show "wait_wf ?s'" using kwfD(4) [OF k] by (simp add: wait_wf_def tcb)
  show "run_wf ?s'" using kwfD(5) [OF k] by (simp add: run_wf_def tcb)
qed

lemma kwf_more_detached:
  assumes k: "kwf D s" and "is_slot t \<Longrightarrow> t \<notin> D \<Longrightarrow> task_state (tcb_of s t) \<noteq> OS_TASK_STATE_READY"
    and "is_slot t \<Longrightarrow> t \<notin> D \<Longrightarrow> task_state (tcb_of s t) = OS_TASK_STATE_BLOCKED \<Longrightarrow>
         delay_ticks (tcb_of s t) = OS_WAIT_FOREVER"
  shows "kwf (insert t D) s"
  using assms unfolding kwf_def ready_wf_def delay_wf_def by auto

lemma kwf_unlink_state:
  assumes k: "kwf D s" and t: "is_slot t" "t \<notin> D"
  shows "kwf (insert t D) (unlink_state t s)"
proof (cases "task_state (tcb_of s t) = OS_TASK_STATE_READY")
  case True
  then show ?thesis using kwf_ready_remove [OF k t] by simp
next
  case nr: False
  show ?thesis
  proof (cases "task_state (tcb_of s t) = OS_TASK_STATE_BLOCKED \<and>
                delay_ticks (tcb_of s t) \<noteq> OS_WAIT_FOREVER")
    case True
    then show ?thesis using kwf_delay_remove [OF k t] nr by (simp add: unlink_state_def)
  next
    case False
    then have "kwf (insert t D) s" using nr by (intro kwf_more_detached [OF k]) auto
    then show ?thesis using False nr by (auto simp: unlink_state_def)
  qed
qed

text \<open>What unlinking from the ready or sleeper list leaves alone.\<close>

lemma unlink_state_simps [simp]:
  "task_state (tcb_of (unlink_state t s) x) = task_state (tcb_of s x)"
  "priority (tcb_of (unlink_state t s) x) = priority (tcb_of s x)"
  "base_priority (tcb_of (unlink_state t s) x) = base_priority (tcb_of s x)"
  "wait_list (tcb_of (unlink_state t s) x) = wait_list (tcb_of s x)"
  "wlist (unlink_state t s) = wlist s" "current (unlink_state t s) = current s"
  "core_count (unlink_state t s) = core_count s"
  by (simp_all add: unlink_state_def Let_def)

lemma unlink_state_ready_tcb:
  "task_state (tcb_of s t) = OS_TASK_STATE_READY \<Longrightarrow> tcb_of (unlink_state t s) = tcb_of s"
  by (simp add: unlink_state_def Let_def)

section \<open>Waiter lists\<close>

lemma wait_insert_set: "set (wait_insert f t xs) = insert t (set xs)"
  by (induction f t xs rule: wait_insert.induct) auto

lemma wait_insert_distinct: "distinct xs \<Longrightarrow> t \<notin> set xs \<Longrightarrow> distinct (wait_insert f t xs)"
  by (induction f t xs rule: wait_insert.induct) (auto simp: wait_insert_set)

lemma wait_insert_sorted: "sorted_desc f xs \<Longrightarrow> sorted_desc f (wait_insert f t xs)"
  by (induction f t xs rule: wait_insert.induct) (auto simp: sorted_desc_Cons wait_insert_set)

text \<open>A new waiter goes behind every waiter of its own or a higher priority, before the rest.\<close>

lemma wait_insert_position:
  "sorted_desc f xs \<Longrightarrow>
   wait_insert f t xs = filter (\<lambda>x. f t \<le> f x) xs @ t # filter (\<lambda>x. f x < f t) xs"
proof (induction f t xs rule: wait_insert.induct)
  case (2 f t x xs)
  show ?case
  proof (cases "f x < f t")
    case True
    then have "\<forall>y \<in> set xs. f y < f t" using "2.prems" by (auto simp: sorted_desc_Cons)
    then have "filter (\<lambda>x. f t \<le> f x) xs = []" "filter (\<lambda>x. f x < f t) xs = xs"
      by (auto simp: filter_empty_conv filter_id_conv)
    then show ?thesis using True by simp
  next
    case False
    then show ?thesis using 2 by (simp add: sorted_desc_Cons)
  qed
qed simp

text \<open>Changing the priority of a task that is in no ready list, and re-sorting where it waits.\<close>

lemma kwf_priority_change:
  assumes k: "kwf D s" and p: "p \<le> 31"
    and t: "t \<in> D \<or> task_state (tcb_of s t) \<noteq> OS_TASK_STATE_READY" "wait_list (tcb_of s t) = None"
  shows "kwf D (upd_tcb t (\<lambda>x. x\<lparr>priority := p\<rparr>) s)"
proof (rule kwfI)
  let ?s' = "upd_tcb t (\<lambda>x. x\<lparr>priority := p\<rparr>) s"
  have tcb: "task_state (tcb_of ?s' x) = task_state (tcb_of s x)"
    "delay_ticks (tcb_of ?s' x) = delay_ticks (tcb_of s x)"
    "wait_list (tcb_of ?s' x) = wait_list (tcb_of s x)" for x by simp_all
  show "prio_wf ?s'" using kwfD(1) [OF k] p by (simp add: prio_wf_def)
  show "ready_wf D ?s'" using kwfD(2) [OF k] t by (auto simp: ready_wf_def)
  have dt: "(\<lambda>x. delay_ticks (tcb_of ?s' x)) = (\<lambda>x. delay_ticks (tcb_of s x))"
    by (simp add: fun_eq_iff)
  show "delay_wf D ?s'" using kwfD(3) [OF k] unfolding delay_wf_def dt tcb by simp
  have notin: "t \<notin> set (wlist s w)" for w using kwf_wait_iff [OF k] t by simp
  have "sorted_desc (\<lambda>x. priority (tcb_of ?s' x)) (wlist s w)" for w
  proof -
    have "sorted_desc (\<lambda>x. priority (tcb_of ?s' x)) (wlist s w) =
          sorted_desc (\<lambda>x. priority (tcb_of s x)) (wlist s w)"
      by (rule sorted_desc_cong) (use notin [of w] in auto)
    then show ?thesis using kwfD(4) [OF k] by (simp add: wait_wf_def)
  qed
  then show "wait_wf ?s'" using kwfD(4) [OF k] unfolding wait_wf_def tcb by simp
  show "run_wf ?s'" using kwfD(5) [OF k] by (simp add: run_wf_def)
qed

lemma kwf_resort:
  assumes k: "kwf D s" and p: "p \<le> 31" and w: "wait_list (tcb_of s t) = Some w"
  shows "kwf D (os_task_wait_node_insert w t
     (set_wlist w (remove1 t (wlist s w)) (upd_tcb t (\<lambda>x. x\<lparr>priority := p\<rparr>) s)))"
    (is "kwf D ?s'")
proof (rule kwfI)
  let ?f = "\<lambda>x. priority (tcb_of ?s' x)"
  have view: "task_state (tcb_of ?s' x) = task_state (tcb_of s x)"
    "delay_ticks (tcb_of ?s' x) = delay_ticks (tcb_of s x)"
    "wait_list (tcb_of ?s' x) = wait_list (tcb_of s x)"
    "base_priority (tcb_of ?s' x) = base_priority (tcb_of s x)"
    "?f x = (if x = t then p else priority (tcb_of s x))" for x
    by (simp_all add: os_task_wait_node_insert_def)
  have dt: "(\<lambda>x. delay_ticks (tcb_of ?s' x)) = (\<lambda>x. delay_ticks (tcb_of s x))"
    by (rule ext) (rule view(2))
  have lists: "ready_list ?s' = ready_list s" "ready_bitmap ?s' = ready_bitmap s"
    "delay_list ?s' = delay_list s" "current ?s' = current s" "core_count ?s' = core_count s"
    "wlist ?s' = (wlist s)(w := wait_insert ?f t (remove1 t (wlist s w)))"
    by (simp_all add: os_task_wait_node_insert_def)
  have b: "task_state (tcb_of s t) = OS_TASK_STATE_BLOCKED" using kwf_waiting [OF k w] by simp
  have dist: "distinct (wlist s v)" and sort: "sorted_desc (\<lambda>x. priority (tcb_of s x)) (wlist s v)"
    for v using kwfD(4) [OF k] by (simp_all add: wait_wf_def)
  show "prio_wf ?s'" using kwfD(1) [OF k] p unfolding prio_wf_def view by simp
  show "ready_wf D ?s'" using kwfD(2) [OF k] b unfolding ready_wf_def view lists by auto
  show "delay_wf D ?s'" using kwfD(3) [OF k] unfolding delay_wf_def dt view lists by simp
  have member: "x \<in> set (wlist ?s' v) \<longleftrightarrow> wait_list (tcb_of s x) = Some v" for v x
    using kwf_wait_iff [OF k] w dist [of w] by (auto simp: lists wait_insert_set)
  have fresh: "t \<notin> set (remove1 t (wlist s w))" using dist [of w] by simp
  have "sorted_desc ?f (wlist ?s' v)" for v
  proof (cases "v = w")
    case True
    have "sorted_desc ?f (remove1 t (wlist s w)) =
          sorted_desc (\<lambda>x. priority (tcb_of s x)) (remove1 t (wlist s w))"
      by (rule sorted_desc_cong) (use view fresh in auto)
    then show ?thesis
      using True sort [of w] by (simp add: lists wait_insert_sorted sorted_desc_remove1)
  next
    case False
    have "t \<notin> set (wlist s v)" using kwf_wait_iff [OF k] w False by auto
    then have "sorted_desc ?f (wlist s v) = sorted_desc (\<lambda>x. priority (tcb_of s x)) (wlist s v)"
      by (intro sorted_desc_cong) (auto simp: view)
    then show ?thesis using False sort by (simp add: lists)
  qed
  moreover have "distinct (wlist ?s' v)" for v
    using dist fresh by (simp add: lists wait_insert_distinct)
  ultimately show "wait_wf ?s'"
    unfolding wait_wf_def view member using kwfD(4) [OF k] by (simp add: wait_wf_def)
  show "run_wf ?s'" using kwfD(5) [OF k] unfolding run_wf_def view lists by simp
qed

section \<open>Priority changes and the inheritance walk\<close>

text \<open>
  What a priority change may do to the rest of the kernel: nothing but priorities, the order of
  ready and waiter lists, and request flags.
\<close>

definition prio_step :: "kstate \<Rightarrow> kstate \<Rightarrow> bool" where
  "prio_step s s' \<longleftrightarrow>
     (\<forall>x. (tcb_of s' x)\<lparr>priority := 0\<rparr> = (tcb_of s x)\<lparr>priority := 0\<rparr>) \<and>
     delay_list s' = delay_list s \<and> current s' = current s \<and> mutexes s' = mutexes s \<and>
     core_count s' = core_count s \<and> table_size s' = table_size s \<and>
     lock_count s' = lock_count s \<and> kernel_running s' = kernel_running s \<and>
     this_core s' = this_core s \<and> in_isr s' = in_isr s \<and> tick_count s' = tick_count s \<and>
     next_generation s' = next_generation s \<and> assert_on s' = assert_on s \<and>
     halted s' = halted s \<and> diverged s' = diverged s \<and>
     (\<forall>w. set (wlist s' w) = set (wlist s w))"

lemma prio_step_refl [simp]: "prio_step s s"
  by (simp add: prio_step_def)

lemma prio_stepD:
  assumes "prio_step s s'"
  shows "(tcb_of s' x)\<lparr>priority := 0\<rparr> = (tcb_of s x)\<lparr>priority := 0\<rparr>"
    "delay_list s' = delay_list s" "current s' = current s" "mutexes s' = mutexes s"
    "core_count s' = core_count s" "table_size s' = table_size s" "lock_count s' = lock_count s"
    "kernel_running s' = kernel_running s" "this_core s' = this_core s" "in_isr s' = in_isr s"
    "tick_count s' = tick_count s" "next_generation s' = next_generation s"
    "assert_on s' = assert_on s" "halted s' = halted s" "diverged s' = diverged s"
    "set (wlist s' w) = set (wlist s w)"
  using assms unfolding prio_step_def by blast+

lemma strip_priority_fields:
  assumes "x'\<lparr>priority := 0\<rparr> = (x :: os_task_tcb_t)\<lparr>priority := 0\<rparr>"
  shows "task_state x' = task_state x" "task_id x' = task_id x" "wait_list x' = wait_list x"
    "delay_ticks x' = delay_ticks x" "owned_mutexes x' = owned_mutexes x"
    "base_priority x' = base_priority x" "blocked_on_mutex x' = blocked_on_mutex x"
    "system_task x' = system_task x" "wait_signaled x' = wait_signaled x"
    "woken_from x' = woken_from x" "wait_data0 x' = wait_data0 x" "wait_data1 x' = wait_data1 x"
    "wait_result x' = wait_result x"
  using assms [THEN arg_cong [where f = task_state]] assms [THEN arg_cong [where f = task_id]]
    assms [THEN arg_cong [where f = wait_list]] assms [THEN arg_cong [where f = delay_ticks]]
    assms [THEN arg_cong [where f = owned_mutexes]] assms [THEN arg_cong [where f = base_priority]]
    assms [THEN arg_cong [where f = blocked_on_mutex]] assms [THEN arg_cong [where f = system_task]]
    assms [THEN arg_cong [where f = wait_signaled]] assms [THEN arg_cong [where f = woken_from]]
    assms [THEN arg_cong [where f = wait_data0]] assms [THEN arg_cong [where f = wait_data1]]
    assms [THEN arg_cong [where f = wait_result]]
  by simp_all

lemma prio_step_fields:
  assumes "prio_step s s'"
  shows "task_state (tcb_of s' x) = task_state (tcb_of s x)" "task_id (tcb_of s' x) = task_id (tcb_of s x)"
    "wait_list (tcb_of s' x) = wait_list (tcb_of s x)" "delay_ticks (tcb_of s' x) = delay_ticks (tcb_of s x)"
    "owned_mutexes (tcb_of s' x) = owned_mutexes (tcb_of s x)"
    "base_priority (tcb_of s' x) = base_priority (tcb_of s x)"
    "blocked_on_mutex (tcb_of s' x) = blocked_on_mutex (tcb_of s x)"
    "system_task (tcb_of s' x) = system_task (tcb_of s x)"
    "wait_signaled (tcb_of s' x) = wait_signaled (tcb_of s x)"
    "woken_from (tcb_of s' x) = woken_from (tcb_of s x)"
  using strip_priority_fields [OF prio_stepD(1) [OF assms, of x]] by simp_all

lemma prio_step_trans: "prio_step s s' \<Longrightarrow> prio_step s' s'' \<Longrightarrow> prio_step s s''"
  by (simp add: prio_step_def)

text \<open>The unlink that a priority change may use: right on READY tasks, which never wait.\<close>

definition unlink_ok :: "(tref \<Rightarrow> kstate \<Rightarrow> kstate) \<Rightarrow> bool" where
  "unlink_ok U \<longleftrightarrow>
     (\<forall>t s. task_state (tcb_of s t) = OS_TASK_STATE_READY \<longrightarrow> wait_list (tcb_of s t) = None \<longrightarrow>
        U t s = unlink_state t s)"

lemma unlink_ok_body: "unlink_ok (unlink_body U)"
  by (simp add: unlink_ok_def unlink_body_def)

lemma unlink_ok_depth: "unlink_ok (unlink_depth (Suc n))"
  by (simp add: unlink_ok_body)

lemma unlink_ok_os: "unlink_ok os_task_unlink"
  unfolding os_task_unlink_def using unlink_ok_depth [of 1] by (simp add: numeral_2_eq_2)

definition detached_ok :: "tref set \<Rightarrow> kstate \<Rightarrow> bool" where
  "detached_ok D s \<longleftrightarrow> (\<forall>t \<in> D. task_state (tcb_of s t) \<noteq> OS_TASK_STATE_READY)"

lemma kwf_effective_priority_set:
  assumes u: "unlink_ok U" and k: "kwf D s" and t: "is_slot t" and p: "p \<le> 31"
    and d: "detached_ok D s"
  shows "kwf D (effective_priority_set U t p s)"
proof (cases "p = priority (tcb_of s t)")
  case True
  then show ?thesis using k by (simp add: effective_priority_set_def)
next
  case ne: False
  show ?thesis
  proof (cases "task_state (tcb_of s t) = OS_TASK_STATE_READY")
    case True
    let ?s1 = "unlink_state t s"
    let ?s2 = "upd_tcb t (\<lambda>x. x\<lparr>priority := p\<rparr>) ?s1"
    have nd: "t \<notin> D" using d True by (auto simp: detached_ok_def)
    have w: "wait_list (tcb_of s t) = None" using kwf_not_waiting [OF k, of t] True by simp
    have U: "U t s = ?s1" using u True w by (simp add: unlink_ok_def)
    have k1: "kwf (insert t D) ?s1" by (rule kwf_unlink_state [OF k t nd])
    have "kwf (insert t D) ?s2" by (rule kwf_priority_change [OF k1 p]) (use w in auto)
    from kwf_make_ready [OF this t] w nd have "kwf D (os_task_make_ready t ?s2)" by simp
    then show ?thesis using ne True U by (simp add: effective_priority_set_def Let_def)
  next
    case nr: False
    have k1: "wait_list (tcb_of s t) = None \<Longrightarrow> kwf D (upd_tcb t (\<lambda>x. x\<lparr>priority := p\<rparr>) s)"
      by (rule kwf_priority_change [OF k p]) (use nr in auto)
    show ?thesis
    proof (cases "task_state (tcb_of s t) = OS_TASK_STATE_RUNNING \<and> p < priority (tcb_of s t) \<and>
                  kernel_running s")
      case True
      then have "wait_list (tcb_of s t) = None" using kwf_not_waiting [OF k, of t] by simp
      then show ?thesis using k1 True ne nr by (simp add: effective_priority_set_def Let_def)
    next
      case False
      show ?thesis
      proof (cases "wait_list (tcb_of s t)")
        case None
        then show ?thesis using k1 False ne nr by (auto simp: effective_priority_set_def Let_def)
      next
        case (Some w)
        have "effective_priority_set U t p s = os_task_wait_node_insert w t
            (set_wlist w (remove1 t (wlist s w)) (upd_tcb t (\<lambda>x. x\<lparr>priority := p\<rparr>) s))"
          using Some False ne nr by (auto simp: effective_priority_set_def Let_def)
        then show ?thesis using kwf_resort [OF k p Some] by simp
      qed
    qed
  qed
qed

lemma prio_step_effective_priority_set:
  assumes u: "unlink_ok U"
    and w: "task_state (tcb_of s t) = OS_TASK_STATE_READY \<Longrightarrow> wait_list (tcb_of s t) = None"
    and m: "\<And>v. wait_list (tcb_of s t) = Some v \<Longrightarrow> t \<in> set (wlist s v) \<and> distinct (wlist s v)"
  shows "prio_step s (effective_priority_set U t p s)"
proof -
  have "task_state (tcb_of s t) = OS_TASK_STATE_READY \<Longrightarrow> U t s = unlink_state t s"
    using u w by (simp add: unlink_ok_def)
  then show ?thesis
    using m
    by (auto simp: effective_priority_set_def Let_def prio_step_def os_task_make_ready_def
        unlink_state_def os_task_wait_node_insert_def wait_insert_set split: option.splits)
qed

lemma kwf_prio_step:
  assumes "unlink_ok U" "kwf D s"
  shows "prio_step s (effective_priority_set U t p s)"
proof (rule prio_step_effective_priority_set [OF assms(1)])
  show "wait_list (tcb_of s t) = None" if "task_state (tcb_of s t) = OS_TASK_STATE_READY"
    using kwf_not_waiting [OF assms(2), of t] that by simp
  show "t \<in> set (wlist s v) \<and> distinct (wlist s v)" if "wait_list (tcb_of s t) = Some v" for v
    using kwf_wait_iff [OF assms(2)] that kwfD(4) [OF assms(2)] by (simp add: wait_wf_def)
qed

lemma detached_ok_step: "prio_step s s' \<Longrightarrow> detached_ok D s' = detached_ok D s"
  by (simp add: detached_ok_def prio_step_fields)

lemma held_priority_bound:
  assumes "kwf D s" "p \<le> 31"
  shows "held_priority s ms p \<le> 31"
  using assms(2)
proof (induction ms arbitrary: p)
  case (Cons m ms)
  show ?case
    using Cons.IH Cons.prems kwf_priority [OF assms(1)] by (auto split: list.splits)
qed simp

lemma kwf_base_priority: "kwf D s \<Longrightarrow> base_priority (tcb_of s t) \<le> 31"
  by (simp add: kwf_def prio_wf_def)

lemma effective_recompute_kwf:
  assumes "unlink_ok U" "kwf D s" "is_slot t" "detached_ok D s"
  shows "kwf D (effective_recompute U t s)" "prio_step s (effective_recompute U t s)"
  unfolding effective_recompute_def
  using assms kwf_effective_priority_set held_priority_bound kwf_base_priority kwf_prio_step
  by blast+

lemma recompute_chain_kwf:
  assumes "unlink_ok U" "kwf D s" "\<And>t. task = Some t \<Longrightarrow> is_slot t" "detached_ok D s"
  shows "kwf D (recompute_chain U n task s) \<and> prio_step s (recompute_chain U n task s)"
  using assms(2-4)
proof (induction n arbitrary: task s)
  case (Suc n)
  show ?case
  proof (cases task)
    case None
    then show ?thesis using Suc.prems by simp
  next
    case (Some t)
    let ?s1 = "effective_recompute U t s"
    have k1: "kwf D ?s1" and st: "prio_step s ?s1"
      using effective_recompute_kwf [OF assms(1)] Suc.prems Some by auto
    have d1: "detached_ok D ?s1" using detached_ok_step [OF st] Suc.prems by simp
    show ?thesis
    proof (cases "blocked_on_mutex (tcb_of ?s1 t)")
      case None
      then show ?thesis using Some k1 st by simp
    next
      case (Some m)
      let ?next = "os_task_find_by_id (owner_id (mutexes ?s1 m)) ?s1"
      have "kwf D (recompute_chain U n ?next ?s1) \<and> prio_step ?s1 (recompute_chain U n ?next ?s1)"
        by (rule Suc.IH [OF k1 _ d1]) (rule find_by_id_SomeD)
      then show ?thesis using Some \<open>task = Some t\<close> prio_step_trans [OF st] by (simp add: Let_def)
    qed
  qed
qed simp

lemma priority_recompute_kwf:
  assumes "unlink_ok U" "kwf D s" "\<And>t. task = Some t \<Longrightarrow> is_slot t" "detached_ok D s"
  shows "kwf D (priority_recompute U task s)" "prio_step s (priority_recompute U task s)"
  unfolding priority_recompute_def using recompute_chain_kwf [OF assms] by blast+

text \<open>Two unlinks that are right on READY tasks give the same priority changes.\<close>

lemma effective_priority_set_indep:
  assumes "unlink_ok U" "unlink_ok U'" "kwf D s"
  shows "effective_priority_set U t p s = effective_priority_set U' t p s"
proof -
  have "U t s = U' t s" if "task_state (tcb_of s t) = OS_TASK_STATE_READY"
    using assms kwf_not_waiting [OF assms(3), of t] that by (simp add: unlink_ok_def)
  then show ?thesis by (simp add: effective_priority_set_def Let_def)
qed

lemma recompute_chain_indep:
  assumes u: "unlink_ok U" "unlink_ok U'" and "kwf D s" "\<And>t. task = Some t \<Longrightarrow> is_slot t" "detached_ok D s"
  shows "recompute_chain U n task s = recompute_chain U' n task s"
  using assms(3-5)
proof (induction n arbitrary: task s)
  case (Suc n)
  show ?case
  proof (cases task)
    case (Some t)
    let ?s1 = "effective_recompute U t s"
    have e: "effective_recompute U' t s = ?s1"
      unfolding effective_recompute_def
      by (rule effective_priority_set_indep [OF u(2,1) Suc.prems(1)])
    have k1: "kwf D ?s1" and st: "prio_step s ?s1"
      using effective_recompute_kwf [OF u(1)] Suc.prems Some by auto
    have d1: "detached_ok D ?s1" using detached_ok_step [OF st] Suc.prems by simp
    have "recompute_chain U n (os_task_find_by_id i ?s1) ?s1 =
          recompute_chain U' n (os_task_find_by_id i ?s1) ?s1" for i
      by (rule Suc.IH [OF k1 _ d1]) (rule find_by_id_SomeD)
    then show ?thesis using Some e by (simp add: Let_def split: option.split)
  qed simp
qed simp

section \<open>Unlinking\<close>

text \<open>What no scheduler move touches: configuration, context, currents, locks and mutexes.\<close>

definition same_env :: "kstate \<Rightarrow> kstate \<Rightarrow> bool" where
  "same_env s s' \<longleftrightarrow>
     current s' = current s \<and> mutexes s' = mutexes s \<and> core_count s' = core_count s \<and>
     table_size s' = table_size s \<and> lock_count s' = lock_count s \<and>
     kernel_running s' = kernel_running s \<and> this_core s' = this_core s \<and> in_isr s' = in_isr s \<and>
     tick_count s' = tick_count s \<and> next_generation s' = next_generation s \<and>
     assert_on s' = assert_on s \<and> halted s' = halted s \<and> diverged s' = diverged s"

lemma same_env_refl [simp]: "same_env s s"
  by (simp add: same_env_def)

lemma same_env_trans: "same_env s s' \<Longrightarrow> same_env s' s'' \<Longrightarrow> same_env s s''"
  by (simp add: same_env_def)

lemma same_envD:
  assumes "same_env s s'"
  shows "current s' = current s" "mutexes s' = mutexes s" "core_count s' = core_count s"
    "table_size s' = table_size s" "lock_count s' = lock_count s"
    "kernel_running s' = kernel_running s" "this_core s' = this_core s" "in_isr s' = in_isr s"
    "tick_count s' = tick_count s" "next_generation s' = next_generation s"
    "assert_on s' = assert_on s" "halted s' = halted s" "diverged s' = diverged s"
  using assms by (simp_all add: same_env_def)

lemma prio_step_env: "prio_step s s' \<Longrightarrow> same_env s s'"
  by (simp add: prio_step_def same_env_def)

lemma same_env_upd_tcb [simp]: "same_env s (upd_tcb t f s') = same_env s s'"
  by (simp add: same_env_def)

lemma same_env_set_wlist [simp]: "same_env s (set_wlist w l s') = same_env s s'"
  by (simp add: same_env_def)

lemma same_env_with_requests [simp]: "same_env s (with_requests p q i s') = same_env s s'"
  by (simp add: same_env_def)

lemma same_env_switch_request [simp]: "same_env s (os_task_switch_request s') = same_env s s'"
  by (simp add: same_env_def)

lemma same_env_preempt_request [simp]: "same_env s (os_task_preempt_request t s') = same_env s s'"
  by (simp add: same_env_def)

lemma same_env_deadline_armed [simp]: "same_env s (os_tickless_deadline_armed s') = same_env s s'"
  by (simp add: same_env_def os_tickless_deadline_armed_def Let_def)

lemma same_env_make_ready [simp]: "same_env s (os_task_make_ready t s') = same_env s s'"
  by (simp add: same_env_def os_task_make_ready_def Let_def)

lemma same_env_delay_insert [simp]: "same_env s (os_task_delay_insert t r s') = same_env s s'"
  by (simp add: same_env_def os_task_delay_insert_def split_beta)

lemma same_env_unlink_state [simp]: "same_env s (unlink_state t s') = same_env s s'"
  by (simp add: same_env_def unlink_state_def os_task_delay_remove_def split_beta Let_def)

lemma same_env_wait_node_insert [simp]: "same_env s (os_task_wait_node_insert w t s') = same_env s s'"
  by (simp add: os_task_wait_node_insert_def)

text \<open>The fields of other tasks an unlink may change: their priority and their stored delta.\<close>

definition strip_tcb :: "os_task_tcb_t \<Rightarrow> os_task_tcb_t" where
  "strip_tcb x = x\<lparr>priority := 0, delay_ticks := 0\<rparr>"

definition others_kept :: "tref \<Rightarrow> kstate \<Rightarrow> kstate \<Rightarrow> bool" where
  "others_kept t s s' \<longleftrightarrow> (\<forall>x. x \<noteq> t \<longrightarrow> strip_tcb (tcb_of s' x) = strip_tcb (tcb_of s x))"

lemma strip_tcb_fields:
  assumes "strip_tcb x' = strip_tcb x"
  shows "task_state x' = task_state x" "task_id x' = task_id x" "wait_list x' = wait_list x"
    "owned_mutexes x' = owned_mutexes x" "base_priority x' = base_priority x"
    "blocked_on_mutex x' = blocked_on_mutex x" "blocked_forever x' = blocked_forever x"
    "pi_owner_id x' = pi_owner_id x" "system_task x' = system_task x"
    "wait_signaled x' = wait_signaled x" "woken_from x' = woken_from x"
    "wait_data0 x' = wait_data0 x" "wait_data1 x' = wait_data1 x" "wait_result x' = wait_result x"
    "core_affinity x' = core_affinity x" "running_core x' = running_core x" "notify x' = notify x"
    "stack_ptr x' = stack_ptr x" "stack_base x' = stack_base x" "stack_bytes x' = stack_bytes x"
  using assms [THEN arg_cong [where f = task_state]] assms [THEN arg_cong [where f = task_id]]
    assms [THEN arg_cong [where f = wait_list]] assms [THEN arg_cong [where f = owned_mutexes]]
    assms [THEN arg_cong [where f = base_priority]] assms [THEN arg_cong [where f = blocked_on_mutex]]
    assms [THEN arg_cong [where f = blocked_forever]] assms [THEN arg_cong [where f = pi_owner_id]]
    assms [THEN arg_cong [where f = system_task]] assms [THEN arg_cong [where f = wait_signaled]]
    assms [THEN arg_cong [where f = woken_from]] assms [THEN arg_cong [where f = wait_data0]]
    assms [THEN arg_cong [where f = wait_data1]] assms [THEN arg_cong [where f = wait_result]]
    assms [THEN arg_cong [where f = core_affinity]] assms [THEN arg_cong [where f = running_core]]
    assms [THEN arg_cong [where f = notify]] assms [THEN arg_cong [where f = stack_ptr]]
    assms [THEN arg_cong [where f = stack_base]] assms [THEN arg_cong [where f = stack_bytes]]
  by (simp_all add: strip_tcb_def)

lemma others_kept_refl [simp]: "others_kept t s s"
  by (simp add: others_kept_def)

lemma others_kept_trans: "others_kept t s s' \<Longrightarrow> others_kept t s' s'' \<Longrightarrow> others_kept t s s''"
  by (simp add: others_kept_def)

lemma others_keptD: "others_kept t s s' \<Longrightarrow> x \<noteq> t \<Longrightarrow> strip_tcb (tcb_of s' x) = strip_tcb (tcb_of s x)"
  by (simp add: others_kept_def)

lemma strip_priority_tcb:
  assumes "x'\<lparr>priority := 0\<rparr> = (x :: os_task_tcb_t)\<lparr>priority := 0\<rparr>"
  shows "strip_tcb x' = strip_tcb x"
  unfolding strip_tcb_def
  by (rule arg_cong [where f = "\<lambda>x. x\<lparr>delay_ticks := 0\<rparr>", OF assms])

lemma others_kept_prio_step: "prio_step s s' \<Longrightarrow> others_kept t s s'"
  unfolding others_kept_def by (intro allI impI strip_priority_tcb) (rule prio_stepD(1))

lemma others_kept_upd_tcb [simp]: "others_kept t s (upd_tcb t f s)"
  by (simp add: others_kept_def)

lemma others_kept_unlink_state [simp]: "others_kept t s (unlink_state t s)"
  by (simp add: others_kept_def strip_tcb_def unlink_state_def os_task_delay_remove_def split_beta
      Let_def)

end
