(* ===== verification/SchedOps.thy ===== *)
theory SchedOps
  imports SchedInv
begin

text \<open>
  The composite scheduler operations keep the invariant: unlinking with its priority-inheritance
  tail, waking, blocking, and the walks over waiter lists. Each lemma also says what the
  operation leaves alone.
\<close>

section \<open>Unlinking\<close>

lemma kwf_drop_waiter:
  assumes k: "kwf D s" and w: "wait_list (tcb_of s t) = Some w"
  shows "kwf D (upd_tcb t (\<lambda>x. x\<lparr>wait_list := None\<rparr>) (set_wlist w (remove1 t (wlist s w)) s))"
    (is "kwf D ?s'")
proof (rule kwfI)
  have view: "task_state (tcb_of ?s' x) = task_state (tcb_of s x)"
    "delay_ticks (tcb_of ?s' x) = delay_ticks (tcb_of s x)"
    "priority (tcb_of ?s' x) = priority (tcb_of s x)"
    "base_priority (tcb_of ?s' x) = base_priority (tcb_of s x)"
    "wait_list (tcb_of ?s' x) = (if x = t then None else wait_list (tcb_of s x))" for x
    by simp_all
  have fe: "(\<lambda>x. delay_ticks (tcb_of ?s' x)) = (\<lambda>x. delay_ticks (tcb_of s x))"
    "(\<lambda>x. priority (tcb_of ?s' x)) = (\<lambda>x. priority (tcb_of s x))"
    by (rule ext, rule view)+
  have dist: "distinct (wlist s v)" and sort: "sorted_desc (\<lambda>x. priority (tcb_of s x)) (wlist s v)"
    for v using kwfD(4) [OF k] by (simp_all add: wait_wf_def)
  show "prio_wf ?s'" using kwfD(1) [OF k] unfolding prio_wf_def view by simp
  show "ready_wf D ?s'" using kwfD(2) [OF k] unfolding ready_wf_def view by simp
  show "delay_wf D ?s'" using kwfD(3) [OF k] unfolding delay_wf_def fe view by simp
  have "x \<in> set (wlist ?s' v) \<longleftrightarrow> wait_list (tcb_of ?s' x) = Some v" for v x
    using kwf_wait_iff [OF k, of x v] dist [of w] w by (auto simp: view)
  moreover have "is_slot x \<and> task_state (tcb_of s x) = OS_TASK_STATE_BLOCKED"
    if "wait_list (tcb_of ?s' x) \<noteq> None" for x
    using that kwf_waiting [OF k, of x] by (auto split: if_splits)
  ultimately show "wait_wf ?s'"
    unfolding wait_wf_def fe using dist sort by (simp add: sorted_desc_remove1)
  show "run_wf ?s'" using kwfD(5) [OF k] unfolding run_wf_def view by simp
qed

lemma waiter_depart_kwf:
  assumes u: "unlink_ok U" and k: "kwf D s" and d: "detached_ok D s"
  shows "kwf D (waiter_depart_tcb U t s)"
    and "same_env s (waiter_depart_tcb U t s)"
    and "others_kept t s (waiter_depart_tcb U t s)"
    and "task_state (tcb_of (waiter_depart_tcb U t s) x) = task_state (tcb_of s x)"
    and "wait_list (tcb_of (waiter_depart_tcb U t s) x) = wait_list (tcb_of s x)"
    and "set (wlist (waiter_depart_tcb U t s) w) = set (wlist s w)"
    and "delay_list (waiter_depart_tcb U t s) = delay_list s"
    and "delay_ticks (tcb_of (waiter_depart_tcb U t s) x) = delay_ticks (tcb_of s x)"
    and "system_task (tcb_of (waiter_depart_tcb U t s) x) = system_task (tcb_of s x)"
    and "task_id (tcb_of (waiter_depart_tcb U t s) x) = task_id (tcb_of s x)"
    and "woken_from (tcb_of (waiter_depart_tcb U t s) x) = woken_from (tcb_of s x)"
    and "wait_signaled (tcb_of (waiter_depart_tcb U t s) x) = wait_signaled (tcb_of s x)"
    and "owned_mutexes (tcb_of (waiter_depart_tcb U t s) x) = owned_mutexes (tcb_of s x)"
    and "base_priority (tcb_of (waiter_depart_tcb U t s) x) = base_priority (tcb_of s x)"
    and "notify (tcb_of (waiter_depart_tcb U t s) x) = notify (tcb_of s x)"
proof -
  let ?s1 = "upd_tcb t (\<lambda>x. x\<lparr>pi_owner_id := 0, blocked_on_mutex := None, blocked_forever := False\<rparr>) s"
  have k1: "kwf D ?s1" using k by (simp add: kwf_upd_tcb_view)
  have d1: "detached_ok D ?s1" using d by (simp add: detached_ok_def)
  have r: "kwf D (priority_recompute U (os_task_find_by_id i ?s1) ?s1)"
    "prio_step ?s1 (priority_recompute U (os_task_find_by_id i ?s1) ?s1)" for i
    by (rule priority_recompute_kwf [OF u k1 _ d1], erule find_by_id_SomeD)+
  have "kwf D (waiter_depart_tcb U t s) \<and> prio_step ?s1 (waiter_depart_tcb U t s)"
    using r k1 by (simp add: waiter_depart_tcb_def Let_def)
  then have k': "kwf D (waiter_depart_tcb U t s)" and p: "prio_step ?s1 (waiter_depart_tcb U t s)"
    by blast+
  show "kwf D (waiter_depart_tcb U t s)" by (rule k')
  show "same_env s (waiter_depart_tcb U t s)"
    using same_env_trans [OF _ prio_step_env [OF p], of s] by simp
  show "others_kept t s (waiter_depart_tcb U t s)"
    using others_kept_trans [OF _ others_kept_prio_step [OF p], of t s] by simp
  show "set (wlist (waiter_depart_tcb U t s) w) = set (wlist s w)"
    "delay_list (waiter_depart_tcb U t s) = delay_list s"
    using prio_stepD(16) [OF p, of w] prio_stepD(2) [OF p] by simp_all
  show "task_state (tcb_of (waiter_depart_tcb U t s) x) = task_state (tcb_of s x)"
    "wait_list (tcb_of (waiter_depart_tcb U t s) x) = wait_list (tcb_of s x)"
    "delay_ticks (tcb_of (waiter_depart_tcb U t s) x) = delay_ticks (tcb_of s x)"
    "system_task (tcb_of (waiter_depart_tcb U t s) x) = system_task (tcb_of s x)"
    "task_id (tcb_of (waiter_depart_tcb U t s) x) = task_id (tcb_of s x)"
    "woken_from (tcb_of (waiter_depart_tcb U t s) x) = woken_from (tcb_of s x)"
    "wait_signaled (tcb_of (waiter_depart_tcb U t s) x) = wait_signaled (tcb_of s x)"
    "owned_mutexes (tcb_of (waiter_depart_tcb U t s) x) = owned_mutexes (tcb_of s x)"
    "base_priority (tcb_of (waiter_depart_tcb U t s) x) = base_priority (tcb_of s x)"
    using prio_step_fields [OF p, of x] by simp_all
  show "notify (tcb_of (waiter_depart_tcb U t s) x) = notify (tcb_of s x)"
    using prio_stepD(1) [OF p, of x, THEN arg_cong [where f = notify]] by simp
qed

text \<open>
  One record of what an unlink does to a task \<open>t\<close>: it is in no list afterwards, every other
  task keeps all but priority and stored delta, and task states do not change.
\<close>

definition unlinked :: "tref \<Rightarrow> kstate \<Rightarrow> kstate \<Rightarrow> bool" where
  "unlinked t s s' \<longleftrightarrow>
     same_env s s' \<and> others_kept t s s' \<and> wait_list (tcb_of s' t) = None \<and>
     (\<forall>x. task_state (tcb_of s' x) = task_state (tcb_of s x)) \<and>
     (\<forall>w. set (wlist s' w) = set (wlist s w) - {t}) \<and>
     set (delay_list s') \<subseteq> set (delay_list s) \<and>
     system_task (tcb_of s' t) = system_task (tcb_of s t) \<and>
     task_id (tcb_of s' t) = task_id (tcb_of s t) \<and>
     woken_from (tcb_of s' t) = woken_from (tcb_of s t) \<and>
     wait_signaled (tcb_of s' t) = wait_signaled (tcb_of s t) \<and>
     owned_mutexes (tcb_of s' t) = owned_mutexes (tcb_of s t) \<and>
     base_priority (tcb_of s' t) = base_priority (tcb_of s t) \<and>
     notify (tcb_of s' t) = notify (tcb_of s t)"

lemma unlink_state_more:
  "system_task (tcb_of (unlink_state t s) x) = system_task (tcb_of s x)"
  "task_id (tcb_of (unlink_state t s) x) = task_id (tcb_of s x)"
  "woken_from (tcb_of (unlink_state t s) x) = woken_from (tcb_of s x)"
  "wait_signaled (tcb_of (unlink_state t s) x) = wait_signaled (tcb_of s x)"
  "owned_mutexes (tcb_of (unlink_state t s) x) = owned_mutexes (tcb_of s x)"
  "notify (tcb_of (unlink_state t s) x) = notify (tcb_of s x)"
  by (simp_all add: unlink_state_def os_task_delay_remove_def split_beta Let_def)

lemma unlink_state_delay_list: "set (delay_list (unlink_state t s)) \<subseteq> set (delay_list s)"
  using set_remove1_subset [of t "delay_list s"]
  by (simp add: unlink_state_def sleepers.disarm_keys Let_def)

lemma unlink_body_kwf:
  assumes u: "unlink_ok U" and k: "kwf D s" and t: "is_slot t" "t \<notin> D" and d: "detached_ok D s"
  shows "kwf (insert t D) (unlink_body U t s)" "unlinked t s (unlink_body U t s)"
proof -
  let ?s1 = "unlink_state t s"
  have k1: "kwf (insert t D) ?s1" by (rule kwf_unlink_state [OF k t])
  have "kwf (insert t D) (unlink_body U t s) \<and> unlinked t s (unlink_body U t s)"
  proof (cases "wait_list (tcb_of s t)")
    case None
    then have "\<forall>w. t \<notin> set (wlist s w)" using kwf_wait_iff [OF k, of t] by simp
    then show ?thesis
      using None k1 unlink_state_delay_list [of t s]
      by (simp add: unlink_body_def unlinked_def unlink_state_more)
  next
    case (Some w)
    let ?s2 = "upd_tcb t (\<lambda>x. x\<lparr>wait_list := None\<rparr>) (set_wlist w (remove1 t (wlist ?s1 w)) ?s1)"
    have k2: "kwf (insert t D) ?s2" by (rule kwf_drop_waiter [OF k1]) (simp add: Some)
    have b: "task_state (tcb_of s t) = OS_TASK_STATE_BLOCKED" using kwf_waiting [OF k Some] by simp
    then have d2: "detached_ok (insert t D) ?s2" using d by (simp add: detached_ok_def)
    note dep = waiter_depart_kwf [OF u k2 d2, of t]
    have e: "unlink_body U t s = waiter_depart_tcb U t ?s2"
      using Some by (simp add: unlink_body_def Let_def)
    have others: "others_kept t s ?s2"
      using others_kept_unlink_state [of t s] by (simp add: others_kept_def)
    have "t \<notin> set (wlist s v)" if "v \<noteq> w" for v using kwf_wait_iff [OF k, of t v] Some that by simp
    moreover have "distinct (wlist s w)" using kwfD(4) [OF k] by (simp add: wait_wf_def)
    ultimately have sets: "set (wlist ?s2 v) = set (wlist s v) - {t}" for v by auto
    have "same_env s ?s2" by simp
    then show ?thesis
      unfolding unlinked_def e
      using dep others others_kept_trans [OF others dep(3)] same_env_trans [OF _ dep(2)]
        unlink_state_delay_list [of t s] sets
      by (simp add: unlink_state_more)
  qed
  then show "kwf (insert t D) (unlink_body U t s)" "unlinked t s (unlink_body U t s)" by blast+
qed

lemma os_task_unlink_body: "os_task_unlink = unlink_body (unlink_depth 1)"
  by (simp add: os_task_unlink_def numeral_2_eq_2)

lemma os_task_unlink_kwf:
  assumes "kwf D s" "is_slot t" "t \<notin> D" "detached_ok D s"
  shows "kwf (insert t D) (os_task_unlink t s)" "unlinked t s (os_task_unlink t s)"
  unfolding os_task_unlink_body
  using unlink_body_kwf [OF unlink_ok_depth [of 0] assms] by simp_all

text \<open>A nesting depth of two is enough, and more depth changes nothing.\<close>

lemma unlink_depth_enough:
  assumes k: "kwf D s" and t: "is_slot t" "t \<notin> D" and d: "detached_ok D s"
  shows "unlink_depth (Suc (Suc n)) t s = os_task_unlink t s"
proof -
  let ?U = "unlink_depth (Suc n)" and ?V = "unlink_depth (Suc 0)"
  note ok = unlink_ok_depth [of n] unlink_ok_depth [of 0]
  have k1: "kwf (insert t D) (unlink_state t s)" by (rule kwf_unlink_state [OF k t])
  have "unlink_body ?U t s = unlink_body ?V t s"
  proof (cases "wait_list (tcb_of s t)")
    case (Some w)
    let ?s2 = "upd_tcb t (\<lambda>x. x\<lparr>wait_list := None\<rparr>)
      (set_wlist w (remove1 t (wlist (unlink_state t s) w)) (unlink_state t s))"
    let ?s3 = "upd_tcb t (\<lambda>x. x\<lparr>pi_owner_id := 0, blocked_on_mutex := None,
      blocked_forever := False\<rparr>) ?s2"
    have "kwf (insert t D) ?s2" by (rule kwf_drop_waiter [OF k1]) (simp add: Some)
    then have k3: "kwf (insert t D) ?s3" by (simp add: kwf_upd_tcb_view)
    have "task_state (tcb_of s t) = OS_TASK_STATE_BLOCKED" using kwf_waiting [OF k Some] by simp
    then have d3: "detached_ok (insert t D) ?s3" using d by (simp add: detached_ok_def)
    have "priority_recompute ?U (os_task_find_by_id i ?s3) ?s3 =
          priority_recompute ?V (os_task_find_by_id i ?s3) ?s3" for i
      unfolding priority_recompute_def
      by (rule recompute_chain_indep [OF ok k3 _ d3], erule find_by_id_SomeD)
    then show ?thesis using Some by (simp add: unlink_body_def waiter_depart_tcb_def Let_def)
  qed (simp add: unlink_body_def)
  then show ?thesis by (simp add: os_task_unlink_def numeral_2_eq_2)
qed

section \<open>Waking\<close>

definition view_kept :: "(os_task_tcb_t \<Rightarrow> os_task_tcb_t) \<Rightarrow> bool" where
  "view_kept f \<longleftrightarrow> (\<forall>x. priority (f x) = priority x \<and> base_priority (f x) = base_priority x \<and>
     task_state (f x) = task_state x \<and> delay_ticks (f x) = delay_ticks x \<and>
     wait_list (f x) = wait_list x)"

lemma kwf_view_kept: "view_kept f \<Longrightarrow> kwf D (upd_tcb t f s) = kwf D s"
  by (rule kwf_upd_tcb_view) (simp_all add: view_kept_def)

lemma detached_ok_empty [simp]: "detached_ok {} s"
  by (simp add: detached_ok_def)

lemma make_ready_tcb:
  "tcb_of (os_task_make_ready t s) =
     (tcb_of s)(t := (tcb_of s t)\<lparr>task_state := OS_TASK_STATE_READY\<rparr>)"
  by (simp add: os_task_make_ready_def Let_def)

lemma make_ready_lists [simp]:
  "wlist (os_task_make_ready t s) = wlist s" "delay_list (os_task_make_ready t s) = delay_list s"
  by (simp_all add: os_task_make_ready_def Let_def)

lemma signal_and_ready_kwf:
  assumes k: "kwf {} s" and t: "is_slot t" and f: "view_kept f"
  shows "kwf {} (signal_and_ready t f s)"
proof -
  let ?s1 = "os_task_unlink t s"
  let ?s2 = "upd_tcb t (\<lambda>x. f (x\<lparr>wait_signaled := True\<rparr>)) ?s1"
  have k1: "kwf {t} ?s1" and u: "unlinked t s ?s1" using os_task_unlink_kwf [OF k t] by simp_all
  have vk: "view_kept (\<lambda>x. f (x\<lparr>wait_signaled := True\<rparr>))" using f by (simp add: view_kept_def)
  have "kwf {t} ?s2" using k1 kwf_view_kept [OF vk] by simp
  moreover have "wait_list (tcb_of ?s2 t) = None"
    using u f by (simp add: unlinked_def view_kept_def)
  ultimately have "kwf ({t} - {t}) (os_task_make_ready t ?s2)" using t by (intro kwf_make_ready) auto
  then show ?thesis by (simp add: signal_and_ready_def Let_def)
qed

text \<open>The full effect of a wake: the task is READY, signaled, off every waiter list, and the
  other tasks keep their states.\<close>

lemma signal_and_ready_effect:
  assumes k: "kwf {} s" and t: "is_slot t" and f: "view_kept f"
  shows "same_env s (signal_and_ready t f s)"
    and "others_kept t s (signal_and_ready t f s)"
    and "task_state (tcb_of (signal_and_ready t f s) x) =
           (if x = t then OS_TASK_STATE_READY else task_state (tcb_of s x))"
    and "wait_list (tcb_of (signal_and_ready t f s) t) = None"
    and "set (wlist (signal_and_ready t f s) w) = set (wlist s w) - {t}"
    and "set (delay_list (signal_and_ready t f s)) \<subseteq> set (delay_list s)"
    and "(\<And>x. notify (f x) = notify x) \<Longrightarrow> notify (tcb_of (signal_and_ready t f s) t) = notify (tcb_of s t)"
proof -
  let ?s1 = "os_task_unlink t s"
  let ?s2 = "upd_tcb t (\<lambda>x. f (x\<lparr>wait_signaled := True\<rparr>)) ?s1"
  let ?s3 = "os_task_make_ready t ?s2"
  have u: "unlinked t s ?s1" using os_task_unlink_kwf [OF k t] by simp
  have e: "tcb_of (signal_and_ready t f s) = tcb_of ?s3" "wlist (signal_and_ready t f s) = wlist ?s3"
    "delay_list (signal_and_ready t f s) = delay_list ?s3"
    by (simp_all add: signal_and_ready_def Let_def)
  have env: "same_env s (signal_and_ready t f s) = same_env s ?s3"
    by (simp add: signal_and_ready_def Let_def)
  show "same_env s (signal_and_ready t f s)" using u by (simp only: env) (simp add: unlinked_def)
  show "others_kept t s (signal_and_ready t f s)"
    using u by (simp add: others_kept_def e make_ready_tcb unlinked_def)
  show "task_state (tcb_of (signal_and_ready t f s) x) =
      (if x = t then OS_TASK_STATE_READY else task_state (tcb_of s x))"
    using u by (simp add: e make_ready_tcb unlinked_def)
  show "wait_list (tcb_of (signal_and_ready t f s) t) = None"
    using u f by (simp add: e make_ready_tcb unlinked_def view_kept_def)
  show "set (wlist (signal_and_ready t f s) w) = set (wlist s w) - {t}"
    "set (delay_list (signal_and_ready t f s)) \<subseteq> set (delay_list s)"
    using u by (simp_all add: e unlinked_def)
  show "(\<And>x. notify (f x) = notify x) \<Longrightarrow> notify (tcb_of (signal_and_ready t f s) t) = notify (tcb_of s t)"
    using u by (simp add: e make_ready_tcb unlinked_def)
qed

lemma view_kept_simps [simp]:
  "view_kept (\<lambda>x. x)" "view_kept (\<lambda>x. x\<lparr>woken_from := w\<rparr>)"
  "view_kept (\<lambda>x. x\<lparr>wait_result := r, woken_from := w\<rparr>)"
  by (simp_all add: view_kept_def)

lemma os_task_wake_locked_kwf:
  assumes "kwf {} s" "\<And>t. task = Some t \<Longrightarrow> is_slot t"
  shows "kwf {} (os_task_wake_locked task s)" "same_env s (os_task_wake_locked task s)"
  using assms signal_and_ready_kwf [of s _ "\<lambda>x. x"] signal_and_ready_effect(1) [of s _ "\<lambda>x. x"]
  by (auto simp: os_task_wake_locked_def split: option.split)

lemma os_task_wake_kwf: "kwf {} s \<Longrightarrow> kwf {} (os_task_wake ident s)"
  unfolding os_task_wake_def using os_task_wake_locked_kwf(1) find_by_id_SomeD(1) by auto

lemma waiter_is_slot: "kwf D s \<Longrightarrow> t \<in> set (wlist s w) \<Longrightarrow> is_slot t"
  using kwf_wait_iff [of D s t w] kwf_waiting [of D s t w] by simp

lemma os_task_waiters_wake_one_kwf:
  assumes "kwf {} s"
  shows "kwf {} (snd (os_task_waiters_wake_one w s))"
    "same_env s (snd (os_task_waiters_wake_one w s))"
proof -
  have slot: "is_slot t" if "wlist s w = t # ts" for t ts
    using waiter_is_slot [OF assms, of t w] that by simp
  then show "kwf {} (snd (os_task_waiters_wake_one w s))"
    using signal_and_ready_kwf [OF assms] assms
    by (auto simp: os_task_waiters_wake_one_def split: list.split)
  show "same_env s (snd (os_task_waiters_wake_one w s))"
    using slot signal_and_ready_effect(1) [OF assms]
    by (auto simp: os_task_waiters_wake_one_def split: list.split)
qed

lemma wake_match_kwf:
  assumes "kwf {} s" "\<forall>t \<in> set ts. is_slot t"
  shows "kwf {} (snd (snd (wake_match f w ts c s)))"
    "same_env s (snd (snd (wake_match f w ts c s)))"
proof -
  have "kwf {} (snd (snd (wake_match f w ts c s))) \<and> same_env s (snd (snd (wake_match f w ts c s)))"
    using assms
  proof (induction f w ts c s rule: wake_match.induct)
    case (2 f w t ts c s)
    obtain r c' where m: "f (wait_data0 (tcb_of s t)) (wait_data1 (tcb_of s t)) c = (r, c')"
      by force
    show ?case
    proof (cases r)
      case None
      then show ?thesis using 2 m by auto
    next
      case (Some v)
      let ?s1 = "signal_and_ready t (\<lambda>x. x\<lparr>wait_result := v, woken_from := Some w\<rparr>) s"
      have k1: "kwf {} ?s1" and e1: "same_env s ?s1"
        using signal_and_ready_kwf signal_and_ready_effect(1) "2.prems" by simp_all
      have "kwf {} (snd (snd (wake_match f w ts c' ?s1))) \<and>
            same_env ?s1 (snd (snd (wake_match f w ts c' ?s1)))"
        using "2.IH"(2) [OF m [symmetric] Some] k1 "2.prems" m Some by simp
      then show ?thesis using m Some same_env_trans [OF e1] by (simp add: split_beta)
    qed
  qed simp
  then show "kwf {} (snd (snd (wake_match f w ts c s)))"
    "same_env s (snd (snd (wake_match f w ts c s)))" by blast+
qed

lemma signal_and_ready_tcb:
  "tcb_of (signal_and_ready t f s) t =
     (f ((tcb_of (os_task_unlink t s) t)\<lparr>wait_signaled := True\<rparr>))\<lparr>task_state := OS_TASK_STATE_READY\<rparr>"
  by (simp add: signal_and_ready_def Let_def make_ready_tcb)

text \<open>
  What a matching walk does when the callback's decision is a function \<open>g\<close> of the waiter's data, as
  it is for every callback in the kernel (\<open>P\<close> is what the context keeps): exactly the waiters that
  \<open>g\<close> accepts are woken, each with its own result; the others keep their place and their TCB.
\<close>

definition accepted :: "(u32 \<Rightarrow> u32 \<Rightarrow> u32 option) \<Rightarrow> kstate \<Rightarrow> tref \<Rightarrow> u32 option" where
  "accepted g s t = g (wait_data0 (tcb_of s t)) (wait_data1 (tcb_of s t))"

lemma others_kept_accepted: "others_kept t s s' \<Longrightarrow> x \<noteq> t \<Longrightarrow> accepted g s' x = accepted g s x"
  using strip_tcb_fields [of "tcb_of s' x" "tcb_of s x"] by (simp add: others_kept_def accepted_def)

lemma wake_match_effect:
  assumes "kwf {} s" "distinct ts" "\<forall>t \<in> set ts. is_slot t" "P c"
    and g: "\<And>a b c. P c \<Longrightarrow> fst (f a b c) = g a b \<and> P (snd (f a b c))"
    and s': "s' = snd (snd (wake_match f w ts c s))"
  shows "(\<forall>t \<in> set ts. \<forall>r. accepted g s t = Some r \<longrightarrow>
            task_state (tcb_of s' t) = OS_TASK_STATE_READY \<and> wait_signaled (tcb_of s' t) \<and>
            wait_result (tcb_of s' t) = r \<and> woken_from (tcb_of s' t) = Some w) \<and>
         (\<forall>x. x \<notin> set ts \<or> accepted g s x = None \<longrightarrow> strip_tcb (tcb_of s' x) = strip_tcb (tcb_of s x)) \<and>
         (\<forall>v. set (wlist s' v) = set (wlist s v) - {t \<in> set ts. accepted g s t \<noteq> None}) \<and>
         fst (snd (wake_match f w ts c s)) =
           fold (\<lambda>t c. snd (f (wait_data0 (tcb_of s t)) (wait_data1 (tcb_of s t)) c)) ts c \<and>
         fst (wake_match f w ts c s) = length (filter (\<lambda>t. accepted g s t \<noteq> None) ts)"
  using assms(1-4) s'
proof (induction ts arbitrary: c s)
  case (Cons t ts)
  obtain q c1 where fc: "f (wait_data0 (tcb_of s t)) (wait_data1 (tcb_of s t)) c = (q, c1)"
    by (cases "f (wait_data0 (tcb_of s t)) (wait_data1 (tcb_of s t)) c") auto
  have q: "accepted g s t = q" "P c1" using g [OF Cons.prems(4), of "wait_data0 (tcb_of s t)" "wait_data1 (tcb_of s t)"] fc
    by (simp_all add: accepted_def)
  show ?case
  proof (cases q)
    case None
    have "s' = snd (snd (wake_match f w ts c1 s))" using Cons.prems(5) fc None by simp
    from Cons.IH [OF Cons.prems(1) _ _ q(2) this] Cons.prems(2,3) q None fc show ?thesis by auto
  next
    case (Some r)
    let ?h = "\<lambda>x. x\<lparr>wait_result := r, woken_from := Some w\<rparr>"
    let ?s1 = "signal_and_ready t ?h s"
    have t: "is_slot t" "t \<notin> set ts" using Cons.prems(2,3) by auto
    have k1: "kwf {} ?s1" by (rule signal_and_ready_kwf [OF Cons.prems(1) t(1)]) simp
    note eff = signal_and_ready_effect [OF Cons.prems(1) t(1), of ?h]
    have oth: "others_kept t s ?s1" by (rule eff(2)) simp
    then have acc: "accepted g ?s1 x = accepted g s x" if "x \<noteq> t" for x
      using that by (rule others_kept_accepted)
    have dat: "wait_data0 (tcb_of ?s1 x) = wait_data0 (tcb_of s x) \<and>
        wait_data1 (tcb_of ?s1 x) = wait_data1 (tcb_of s x)" if "x \<noteq> t" for x
      using oth that strip_tcb_fields [of "tcb_of ?s1 x" "tcb_of s x"] by (simp add: others_kept_def)
    have fold_eq: "fold (\<lambda>t c. snd (f (wait_data0 (tcb_of ?s1 t)) (wait_data1 (tcb_of ?s1 t)) c)) ts c1 =
        fold (\<lambda>t c. snd (f (wait_data0 (tcb_of s t)) (wait_data1 (tcb_of s t)) c)) ts c1"
    proof (rule fold_cong [OF refl refl])
      fix x assume "x \<in> set ts"
      then have "x \<noteq> t" using t(2) by auto
      then show "(\<lambda>c. snd (f (wait_data0 (tcb_of ?s1 x)) (wait_data1 (tcb_of ?s1 x)) c)) =
          (\<lambda>c. snd (f (wait_data0 (tcb_of s x)) (wait_data1 (tcb_of s x)) c))" using dat by simp
    qed
    have filt: "filter (\<lambda>t. accepted g ?s1 t \<noteq> None) ts = filter (\<lambda>t. accepted g s t \<noteq> None) ts"
    proof (rule filter_cong [OF refl])
      fix x assume "x \<in> set ts"
      then have "x \<noteq> t" using t(2) by auto
      then show "(accepted g ?s1 x \<noteq> None) = (accepted g s x \<noteq> None)" using acc by simp
    qed
    have wm: "wake_match f w (t # ts) c s =
        (case wake_match f w ts c1 ?s1 of (n, c2, s2) \<Rightarrow> (Suc n, c2, s2))"
      using fc Some by simp
    have "s' = snd (snd (wake_match f w ts c1 ?s1))"
      using Cons.prems(5) unfolding wm by (simp add: case_prod_beta)
    note ih = Cons.IH [OF k1 _ _ q(2) this]
    have self: "task_state (tcb_of s' t) = OS_TASK_STATE_READY \<and> wait_signaled (tcb_of s' t) \<and>
        wait_result (tcb_of s' t) = r \<and> woken_from (tcb_of s' t) = Some w"
    proof -
      have "strip_tcb (tcb_of s' t) = strip_tcb (tcb_of ?s1 t)" using ih t(2) Cons.prems(2,3) by auto
      from strip_tcb_fields [OF this] show ?thesis by (simp add: signal_and_ready_tcb)
    qed
    have wl: "set (wlist ?s1 v) = set (wlist s v) - {t}" for v by (rule eff(5)) simp
    have ds: "distinct ts" "\<forall>t \<in> set ts. is_slot t" using Cons.prems(2,3) by auto
    note i = ih [OF ds]
    have strip1: "strip_tcb (tcb_of ?s1 x) = strip_tcb (tcb_of s x)" if "x \<noteq> t" for x
      using oth that by (simp add: others_kept_def)
    show ?thesis
    proof (intro conjI)
      show "\<forall>x \<in> set (t # ts). \<forall>r. accepted g s x = Some r \<longrightarrow>
          task_state (tcb_of s' x) = OS_TASK_STATE_READY \<and> wait_signaled (tcb_of s' x) \<and>
          wait_result (tcb_of s' x) = r \<and> woken_from (tcb_of s' x) = Some w"
      proof (intro ballI allI impI)
        fix x v assume x: "x \<in> set (t # ts)" "accepted g s x = Some v"
        show "task_state (tcb_of s' x) = OS_TASK_STATE_READY \<and> wait_signaled (tcb_of s' x) \<and>
            wait_result (tcb_of s' x) = v \<and> woken_from (tcb_of s' x) = Some w"
        proof (cases "x = t")
          case True
          then show ?thesis using self x q Some by simp
        next
          case False
          then have "x \<in> set ts" "accepted g ?s1 x = Some v" using x acc by auto
          then show ?thesis using i by blast
        qed
      qed
      show "\<forall>x. x \<notin> set (t # ts) \<or> accepted g s x = None \<longrightarrow>
          strip_tcb (tcb_of s' x) = strip_tcb (tcb_of s x)"
      proof (intro allI impI)
        fix x assume x: "x \<notin> set (t # ts) \<or> accepted g s x = None"
        then have n: "x \<noteq> t" using q Some by auto
        then have "x \<notin> set ts \<or> accepted g ?s1 x = None" using x acc by auto
        then have "strip_tcb (tcb_of s' x) = strip_tcb (tcb_of ?s1 x)" using i by blast
        then show "strip_tcb (tcb_of s' x) = strip_tcb (tcb_of s x)" using strip1 n by simp
      qed
      show "\<forall>v. set (wlist s' v) = set (wlist s v) - {x \<in> set (t # ts). accepted g s x \<noteq> None}"
      proof
        fix v
        have "{x \<in> set ts. accepted g ?s1 x \<noteq> None} = {x \<in> set ts. accepted g s x \<noteq> None}"
          using acc t(2) by (metis (no_types, lifting))
        then have "set (wlist s' v) = (set (wlist s v) - {t}) - {x \<in> set ts. accepted g s x \<noteq> None}"
          using i wl by simp
        then show "set (wlist s' v) = set (wlist s v) - {x \<in> set (t # ts). accepted g s x \<noteq> None}"
          using q Some by auto
      qed
      show "fst (snd (wake_match f w (t # ts) c s)) =
          fold (\<lambda>t c. snd (f (wait_data0 (tcb_of s t)) (wait_data1 (tcb_of s t)) c)) (t # ts) c"
        unfolding wm using i fc fold_eq by (simp add: case_prod_beta)
      show "fst (wake_match f w (t # ts) c s) = length (filter (\<lambda>t. accepted g s t \<noteq> None) (t # ts))"
        unfolding wm using i filt q Some by (simp add: case_prod_beta)
    qed
  qed
qed simp

lemma os_task_waiters_wake_match_kwf:
  assumes "kwf {} s"
  shows "kwf {} (snd (snd (os_task_waiters_wake_match w f c s)))"
    "same_env s (snd (snd (os_task_waiters_wake_match w f c s)))"
  unfolding os_task_waiters_wake_match_def
  by (rule wake_match_kwf [OF assms]; use waiter_is_slot [OF assms] in blast)+

lemma os_task_wake_compensate_kwf:
  assumes "kwf {} s"
  shows "kwf {} (os_task_wake_compensate t s)" "same_env s (os_task_wake_compensate t s)"
proof -
  let ?s1 = "upd_tcb t (\<lambda>x. x\<lparr>woken_from := None\<rparr>) s"
  have k1: "kwf {} ?s1" using assms by (simp add: kwf_view_kept)
  have e1: "same_env s ?s1" by simp
  show "kwf {} (os_task_wake_compensate t s)" "same_env s (os_task_wake_compensate t s)"
    using os_task_waiters_wake_one_kwf [OF k1] same_env_trans [OF e1] assms
    by (auto simp: os_task_wake_compensate_def Let_def split: option.split)
qed

section \<open>Blocking\<close>

text \<open>A running task becomes BLOCKED before it is linked anywhere.\<close>

lemma kwf_block_running:
  assumes k: "kwf D s" and t: "task_state (tcb_of s t) = OS_TASK_STATE_RUNNING"
    and f: "\<And>x. priority (f x) = priority x" "\<And>x. base_priority (f x) = base_priority x"
      "\<And>x. task_state (f x) = OS_TASK_STATE_BLOCKED" "\<And>x. wait_list (f x) = wait_list x"
  shows "kwf (insert t D) (upd_tcb t f s)"
proof (rule kwfI)
  let ?s' = "upd_tcb t f s"
  have nt: "t \<notin> set (delay_list s)" "t \<notin> set (ready_list s p)" for p
    using kwf_delay_iff [OF k, of t] kwf_ready_iff [OF k, of t] t by simp_all
  have w: "wait_list (tcb_of s t) = None" using kwf_not_waiting [OF k, of t] t by simp
  have pr: "(\<lambda>x. priority (tcb_of ?s' x)) = (\<lambda>x. priority (tcb_of s x))"
    by (simp add: fun_eq_iff f)
  show "prio_wf ?s'" using kwfD(1) [OF k] by (simp add: prio_wf_def f)
  show "ready_wf (insert t D) ?s'" using kwfD(2) [OF k] t by (auto simp: ready_wf_def f)
  have "delta_total (delay_list s) (\<lambda>x. delay_ticks (tcb_of ?s' x)) =
        delta_total (delay_list s) (\<lambda>x. delay_ticks (tcb_of s x))"
    by (rule delta_total_cong) (use nt in auto)
  then show "delay_wf (insert t D) ?s'"
    using kwfD(3) [OF k] nt t by (auto simp: delay_wf_def)
  show "wait_wf ?s'"
    unfolding wait_wf_def pr using kwfD(4) [OF k] w by (auto simp: wait_wf_def f)
  show "run_wf ?s'" using kwfD(5) [OF k] by (auto simp: run_wf_def f)
qed

lemma kwf_delay_insert:
  assumes k: "kwf D s" and t: "is_slot t" "t \<in> D" "task_state (tcb_of s t) = OS_TASK_STATE_BLOCKED"
    and r: "r \<noteq> OS_WAIT_FOREVER"
  shows "kwf (D - {t}) (os_task_delay_insert t r s)"
proof (rule kwfI)
  let ?s' = "os_task_delay_insert t r s"
  have q: "sleepers.queue_ok s" using k by (rule kwf_queue_ok)
  have nt: "t \<notin> set (delay_list s)" using kwf_delay_iff [OF k, of t] t by simp
  note q' = sleepers.arm_ok [OF q nt r]
  show "prio_wf ?s'" using kwfD(1) [OF k] by (simp add: prio_wf_def)
  show "ready_wf (D - {t}) ?s'" using kwfD(2) [OF k] t by (auto simp: ready_wf_def)
  have "x \<in> set (delay_list ?s') \<longleftrightarrow> is_slot x \<and> x \<notin> D - {t} \<and>
      task_state (tcb_of ?s' x) = OS_TASK_STATE_BLOCKED \<and>
      delay_ticks (tcb_of ?s' x) \<noteq> OS_WAIT_FOREVER" for x
    using queue_ok_not_forever [OF q', of x] kwf_delay_iff [OF k, of x] t
      delay_insert_other [of x s t r]
    by (cases "x = t") (auto simp: sleepers.arm_set nt)
  then show "delay_wf (D - {t}) ?s'"
    using q' by (simp add: delay_wf_def sleepers.queue_ok_def)
  show "wait_wf ?s'" using kwfD(4) [OF k] by (simp add: wait_wf_def)
  show "run_wf ?s'" using kwfD(5) [OF k] by (simp add: run_wf_def)
qed

lemma kwf_attach_forever:
  assumes "kwf D s" "task_state (tcb_of s t) = OS_TASK_STATE_BLOCKED"
    "delay_ticks (tcb_of s t) = OS_WAIT_FOREVER"
  shows "kwf (D - {t}) s"
  using assms unfolding kwf_def ready_wf_def delay_wf_def by auto

lemma kwf_join_waiters:
  assumes k: "kwf D s" and t: "is_slot t" "wait_list (tcb_of s t) = None"
    "task_state (tcb_of s t) = OS_TASK_STATE_BLOCKED"
  shows "kwf D (upd_tcb t (\<lambda>x. x\<lparr>wait_list := Some w\<rparr>) (os_task_wait_node_insert w t s))"
    (is "kwf D ?s'")
proof (rule kwfI)
  let ?f = "\<lambda>x. priority (tcb_of s x)"
  have view: "task_state (tcb_of ?s' x) = task_state (tcb_of s x)"
    "delay_ticks (tcb_of ?s' x) = delay_ticks (tcb_of s x)"
    "priority (tcb_of ?s' x) = priority (tcb_of s x)"
    "base_priority (tcb_of ?s' x) = base_priority (tcb_of s x)"
    "wait_list (tcb_of ?s' x) = (if x = t then Some w else wait_list (tcb_of s x))" for x
    by (simp_all add: os_task_wait_node_insert_def)
  have fe: "(\<lambda>x. delay_ticks (tcb_of ?s' x)) = (\<lambda>x. delay_ticks (tcb_of s x))"
    "(\<lambda>x. priority (tcb_of ?s' x)) = ?f"
    by (rule ext, rule view)+
  have lists: "ready_list ?s' = ready_list s" "ready_bitmap ?s' = ready_bitmap s"
    "delay_list ?s' = delay_list s" "current ?s' = current s" "core_count ?s' = core_count s"
    "wlist ?s' = (wlist s)(w := wait_insert ?f t (wlist s w))"
    by (simp_all add: os_task_wait_node_insert_def)
  have notin: "t \<notin> set (wlist s v)" for v using kwf_wait_iff [OF k] t by simp
  have dist: "distinct (wlist s v)" and sort: "sorted_desc ?f (wlist s v)"
    for v using kwfD(4) [OF k] by (simp_all add: wait_wf_def)
  show "prio_wf ?s'" using kwfD(1) [OF k] unfolding prio_wf_def view by simp
  show "ready_wf D ?s'" using kwfD(2) [OF k] unfolding ready_wf_def view lists by simp
  show "delay_wf D ?s'" using kwfD(3) [OF k] unfolding delay_wf_def fe view lists by simp
  have "x \<in> set (wlist ?s' v) \<longleftrightarrow> wait_list (tcb_of ?s' x) = Some v" for v x
    using kwf_wait_iff [OF k, of x v] notin [of v] unfolding view lists
    by (auto simp: wait_insert_set)
  moreover have "is_slot x \<and> task_state (tcb_of s x) = OS_TASK_STATE_BLOCKED"
    if "wait_list (tcb_of ?s' x) \<noteq> None" for x
    using that kwf_waiting [OF k, of x] t unfolding view by (auto split: if_splits)
  moreover have "distinct (wlist ?s' v)" "sorted_desc ?f (wlist ?s' v)" for v
    unfolding lists
    using dist sort notin by (simp_all add: wait_insert_distinct wait_insert_sorted)
  ultimately show "wait_wf ?s'"
    unfolding wait_wf_def fe view(1) by blast
  show "run_wf ?s'" using kwfD(5) [OF k] unfolding run_wf_def view lists by simp
qed

text \<open>The task a blocking call runs in: current on the calling core, RUNNING, and not idle.\<close>

definition caller :: "kstate \<Rightarrow> tref \<Rightarrow> bool" where
  "caller s t \<longleftrightarrow> current s (this_core s) = Some t \<and>
     task_state (tcb_of s t) = OS_TASK_STATE_RUNNING \<and> is_slot t"

lemma os_task_sleep_ticks_kwf:
  assumes k: "kwf {} s" and c: "caller s t"
  shows "kwf {} (os_task_sleep_ticks ticks s)" "same_env s (os_task_sleep_ticks ticks s)"
proof -
  let ?s1 = "upd_tcb t (\<lambda>x. x\<lparr>delay_ticks := ticks, task_state := OS_TASK_STATE_BLOCKED\<rparr>) s"
  have t: "is_slot t" "task_state (tcb_of s t) = OS_TASK_STATE_RUNNING"
    using c by (simp_all add: caller_def)
  have k1: "kwf {t} ?s1" using kwf_block_running [OF k t(2)] by simp
  have "kwf {} ?s1" if "ticks = OS_WAIT_FOREVER"
    using kwf_attach_forever [OF k1, of t] that by simp
  moreover have "kwf {} (os_task_delay_insert t ticks ?s1)" if "ticks \<noteq> OS_WAIT_FOREVER"
    using kwf_delay_insert [OF k1 t(1) _ _ that] by simp
  ultimately show "kwf {} (os_task_sleep_ticks ticks s)" "same_env s (os_task_sleep_ticks ticks s)"
    using k c by (simp_all add: os_task_sleep_ticks_def caller_def Let_def)
qed

lemma os_task_wait_begin_kwf:
  assumes k: "kwf {} s" and c: "caller s t"
  shows "kwf {} (os_task_wait_begin w ticks s)" "same_env s (os_task_wait_begin w ticks s)"
proof -
  let ?g = "\<lambda>x. x\<lparr>wait_list := Some w, wait_signaled := False, woken_from := None,
    delay_ticks := ticks, task_state := OS_TASK_STATE_BLOCKED\<rparr>"
  let ?s2 = "upd_tcb t ?g (os_task_wait_node_insert w t s)"
  let ?a = "upd_tcb t (\<lambda>x. x\<lparr>wait_signaled := False, woken_from := None,
    delay_ticks := ticks, task_state := OS_TASK_STATE_BLOCKED\<rparr>) s"
  have t: "is_slot t" "task_state (tcb_of s t) = OS_TASK_STATE_RUNNING"
    using c by (simp_all add: caller_def)
  have "kwf {t} ?a" using kwf_block_running [OF k t(2)] by simp
  moreover have "wait_list (tcb_of s t) = None" using kwf_not_waiting [OF k, of t] t by simp
  ultimately have "kwf {t} (upd_tcb t (\<lambda>x. x\<lparr>wait_list := Some w\<rparr>) (os_task_wait_node_insert w t ?a))"
    using t by (intro kwf_join_waiters) simp_all
  moreover have "same_view (upd_tcb t (\<lambda>x. x\<lparr>wait_list := Some w\<rparr>) (os_task_wait_node_insert w t ?a)) ?s2"
  proof -
    have "(\<lambda>x. priority (tcb_of ?a x)) = (\<lambda>x. priority (tcb_of s x))" by (simp add: fun_eq_iff)
    then show ?thesis
      by (simp add: same_view_def os_task_wait_node_insert_def)
  qed
  ultimately have k2: "kwf {t} ?s2" using same_view_kwf by blast
  have "kwf {} ?s2" if "ticks = OS_WAIT_FOREVER"
    using kwf_attach_forever [OF k2, of t] that by simp
  moreover have "kwf {} (os_task_delay_insert t ticks ?s2)" if "ticks \<noteq> OS_WAIT_FOREVER"
    using kwf_delay_insert [OF k2 t(1) _ _ that] by simp
  ultimately show "kwf {} (os_task_wait_begin w ticks s)" "same_env s (os_task_wait_begin w ticks s)"
    using k c by (auto simp: os_task_wait_begin_def caller_def Let_def)
qed

lemma os_task_wait_end_locked_kwf:
  "kwf D s \<Longrightarrow> kwf D (os_task_wait_end_locked s)" "same_env s (os_task_wait_end_locked s)"
  by (auto simp: os_task_wait_end_locked_def kwf_upd_tcb_view split: option.split)

lemma os_task_wait_data_set_kwf:
  "kwf D s \<Longrightarrow> kwf D (os_task_wait_data_set a b s)" "same_env s (os_task_wait_data_set a b s)"
  by (auto simp: os_task_wait_data_set_def kwf_upd_tcb_view split: option.split)

end
