(* ===== verification/TaskApi.thy ===== *)
theory TaskApi
  imports SchedOps
begin

text \<open>
  The task interface of \<^verbatim>\<open>kernel/os_task.c\<close>: creating, starting, pausing, deleting and
  re-prioritising tasks, the handles and ids that name them, and the bring-up of the task
  subsystem. A null task handle is \<open>None\<close>. Stack memory is a byte store of its own, because only
  the fill, the guard word and the watermark scan touch it; the port's stack initialiser, which
  builds the first frame, is a field of \<open>task_port\<close> with the two limits that the build sets.
  Each body between \<^verbatim>\<open>os_critical_enter\<close> and \<^verbatim>\<open>os_critical_exit\<close> is one step.
\<close>

type_synonym stack_memory = "nat \<Rightarrow> u8"

record os_task_storage_t =
  st_name :: "string option"
  st_stack :: "nat option"
  st_bytes :: nat

record os_task_t =
  ident :: u32
  storage :: "os_task_storage_t option"

record os_task_config_t =
  entry_point :: "nat option"
  entry_context :: nat
  config_priority :: nat
  config_affinity :: u32

record task_port =
  stack_initialize ::
    "nat \<Rightarrow> nat \<Rightarrow> nat \<Rightarrow> nat \<Rightarrow> stack_memory \<Rightarrow> nat option \<times> stack_memory"
  min_stack :: nat
  stack_align :: nat
  idle_stack :: "nat \<Rightarrow> nat"
  idle_entry :: nat

section \<open>Stack memory\<close>

definition OS_TASK_STACK_FILL_BYTE :: u8 where
  "OS_TASK_STACK_FILL_BYTE = 0xA5"

definition os_task_stack_fill :: "nat \<Rightarrow> nat \<Rightarrow> stack_memory \<Rightarrow> stack_memory" where
  "os_task_stack_fill base n mem =
     (\<lambda>a. if base \<le> a \<and> a < base + n then OS_TASK_STACK_FILL_BYTE else mem a)"

text \<open>The guard is the 32-bit word \<open>0xA5A5A5A5\<close>: four bytes, the same in either byte order.\<close>

definition os_task_stack_guard_set :: "nat \<Rightarrow> stack_memory \<Rightarrow> stack_memory" where
  "os_task_stack_guard_set base mem = mem(base := 0xA5, base + 1 := 0xA5, base + 2 := 0xA5, base + 3 := 0xA5)"

definition guard_intact :: "nat \<Rightarrow> stack_memory \<Rightarrow> bool" where
  "guard_intact base mem \<longleftrightarrow>
     mem base = 0xA5 \<and> mem (base + 1) = 0xA5 \<and> mem (base + 2) = 0xA5 \<and> mem (base + 3) = 0xA5"

text \<open>A failed check reports the task and parks the core for good.\<close>

definition os_task_stack_guard_check :: "stack_memory \<Rightarrow> tref \<Rightarrow> nat \<Rightarrow> kstate \<Rightarrow> kstate" where
  "os_task_stack_guard_check mem t sp s =
     (case stack_base (tcb_of s t) of
        None \<Rightarrow> s
      | Some base \<Rightarrow> if \<not> (sp \<ge> base \<and> guard_intact base mem) then s\<lparr>halted := True\<rparr> else s)"

section \<open>Clearing a control block\<close>

definition OS_TASK_TCB_EMPTY :: "nat \<Rightarrow> os_task_tcb_t" where
  "OS_TASK_TCB_EMPTY cores =
     \<lparr>task_name = None, stack_base = None, stack_ptr = None, stack_bytes = 0, priority = 0,
      task_id = 0, delay_ticks = 0, core_affinity = OS_TASK_CORE_ANY,
      task_state = OS_TASK_STATE_INACTIVE, running_core = cores, wait_list = None,
      wait_signaled = False, system_task = False, wait_data0 = 0, wait_data1 = 0, wait_result = 0,
      woken_from = None, base_priority = 0, owned_mutexes = [], pi_owner_id = 0,
      blocked_on_mutex = None, blocked_forever = False,
      notify = \<lparr>slot_value = 0, slot_pending = False, slot_waiting = False\<rparr>\<rparr>"

definition os_task_tcb_clear :: "tref \<Rightarrow> kstate \<Rightarrow> kstate" where
  "os_task_tcb_clear t s =
     (let held = owned_mutexes (tcb_of s t);
          s1 = upd_tcb t (\<lambda>x. OS_TASK_TCB_EMPTY (core_count s)) s
      in if assert_on s \<and> held \<noteq> [] then s1\<lparr>halted := True\<rparr> else s1)"

section \<open>Creating a task\<close>

definition os_task_create_args_ok ::
  "task_port \<Rightarrow> nat \<Rightarrow> os_task_t option \<Rightarrow> os_task_config_t option \<Rightarrow> bool" where
  "os_task_create_args_ok port cores task config =
     (case (task, config) of
        (Some h, Some c) \<Rightarrow>
          (case storage h of
             None \<Rightarrow> False
           | Some st \<Rightarrow>
               (case st_stack st of
                  None \<Rightarrow> False
                | Some addr \<Rightarrow>
                    entry_point c \<noteq> None \<and> config_priority c \<le> OS_TASK_PRIO_MAX \<and>
                    st_bytes st \<ge> min_stack port \<and> drop_bit cores (config_affinity c) = 0 \<and>
                    addr mod stack_align port = 0 \<and> st_bytes st mod stack_align port = 0))
      | _ \<Rightarrow> False)"

definition handle_live :: "os_task_t \<Rightarrow> kstate \<Rightarrow> bool" where
  "handle_live h s \<longleftrightarrow> ident h \<noteq> 0 \<and> os_task_find_by_id (ident h) s \<noteq> None"

definition OS_TASK_ID_GENERATION_MASK :: u32 where
  "OS_TASK_ID_GENERATION_MASK = 0x00FFFFFF"

definition next_gen :: "u32 \<Rightarrow> u32" where
  "next_gen g = (let n = (g + 1) AND OS_TASK_ID_GENERATION_MASK in if n = 0 then 1 else n)"

text \<open>The second critical section of \<^verbatim>\<open>os_task_create_any\<close>: claim the first free slot.\<close>

definition create_claim ::
  "os_task_storage_t \<Rightarrow> os_task_config_t \<Rightarrow> bool \<Rightarrow> nat \<Rightarrow> os_task_t \<Rightarrow> kstate \<Rightarrow>
     os_err_t \<times> os_task_t \<times> kstate" where
  "create_claim st c sys sp h s =
     (if handle_live h s then (OS_ERR_BUSY, h, s)
      else case List.find (\<lambda>i. task_state (tcb_of s (Slot i)) = OS_TASK_STATE_INACTIVE) [0..<table_size s] of
        None \<Rightarrow> (OS_ERR_FULL, h, s)
      | Some i \<Rightarrow>
          let g = next_generation s i; new_id = OS_TASK_ID_MAKE i g;
              s1 = upd_tcb (Slot i) (\<lambda>x. x\<lparr>task_name := st_name st, stack_base := st_stack st,
                     stack_ptr := Some sp, stack_bytes := st_bytes st,
                     priority := config_priority c, base_priority := config_priority c,
                     pi_owner_id := 0, task_id := new_id, delay_ticks := 0,
                     core_affinity := config_affinity c, system_task := sys,
                     task_state := OS_TASK_STATE_SUSPENDED\<rparr>) s
          in (OS_ERR_NONE, h\<lparr>ident := new_id\<rparr>,
              s1\<lparr>next_generation := (next_generation s1)(i := next_gen g)\<rparr>))"

text \<open>
  The whole call. Between its two critical sections other tasks run; \<open>env\<close> stands for whatever they
  do to the kernel state, so that a lemma about the call holds for every interleaving.
\<close>

definition os_task_create_any ::
  "task_port \<Rightarrow> (kstate \<Rightarrow> kstate) \<Rightarrow> os_task_t option \<Rightarrow> os_task_config_t option \<Rightarrow> bool \<Rightarrow>
     stack_memory \<Rightarrow> kstate \<Rightarrow> os_err_t \<times> os_task_t option \<times> stack_memory \<times> kstate" where
  "os_task_create_any port env task config sys mem s =
     (if \<not> os_task_create_args_ok port (core_count s) task config
      then (OS_ERR_INVALID_ARG, task, mem, s)
      else
        let h = the task; c = the config; st = the (storage h); base = the (st_stack st) in
        if handle_live h s then (OS_ERR_BUSY, task, mem, s)
        else
          let m1 = os_task_stack_guard_set base (os_task_stack_fill base (st_bytes st) mem) in
          (case stack_initialize port base (st_bytes st) (the (entry_point c)) (entry_context c) m1 of
             (None, m2) \<Rightarrow> (OS_ERR_ERROR, task, m2, s)
           | (Some sp, m2) \<Rightarrow>
               (case create_claim st c sys sp h (env s) of
                  (e, h', s') \<Rightarrow> (e, Some h', m2, s'))))"

definition os_task_create ::
  "task_port \<Rightarrow> (kstate \<Rightarrow> kstate) \<Rightarrow> os_task_t option \<Rightarrow> os_task_config_t option \<Rightarrow>
     stack_memory \<Rightarrow> kstate \<Rightarrow> os_err_t \<times> os_task_t option \<times> stack_memory \<times> kstate" where
  "os_task_create port env task config mem s =
     (case config of
        None \<Rightarrow> (OS_ERR_INVALID_ARG, task, mem, s)
      | Some c \<Rightarrow>
          if config_priority c \<ge> OS_TASK_PRIO_1_LOWEST \<and> config_priority c \<le> OS_TASK_PRIO_30_HIGHEST
          then os_task_create_any port env task config False mem s
          else (OS_ERR_INVALID_ARG, task, mem, s))"

definition os_task_create_system ::
  "task_port \<Rightarrow> (kstate \<Rightarrow> kstate) \<Rightarrow> os_task_t option \<Rightarrow> os_task_config_t option \<Rightarrow>
     stack_memory \<Rightarrow> kstate \<Rightarrow> os_err_t \<times> os_task_t option \<times> stack_memory \<times> kstate" where
  "os_task_create_system port env task config mem s =
     os_task_create_any port env task config True mem s"

text \<open>A handle for the kernel's own services: the task's place, looked up once.\<close>

definition os_task_tcb_resolve :: "u32 \<Rightarrow> kstate \<Rightarrow> tref option" where
  "os_task_tcb_resolve i s = os_task_find_by_id i s"

section \<open>Starting, pausing, deleting\<close>

definition os_task_start :: "os_task_t option \<Rightarrow> kstate \<Rightarrow> os_err_t \<times> kstate" where
  "os_task_start task s =
     (case task of
        None \<Rightarrow> (OS_ERR_INVALID_ARG, s)
      | Some h \<Rightarrow>
          if ident h = 0 then (OS_ERR_INVALID_ARG, s)
          else case os_task_find_by_id (ident h) s of
            None \<Rightarrow> (OS_ERR_INVALID_ARG, s)
          | Some t \<Rightarrow>
              let s1 = (if task_state (tcb_of s t) = OS_TASK_STATE_BLOCKED
                        then upd_tcb t (\<lambda>x. x\<lparr>wait_signaled := True\<rparr>) (os_task_unlink t s)
                        else upd_tcb t (\<lambda>x. x\<lparr>delay_ticks := 0\<rparr>) (os_task_unlink t s));
                  s2 = (if os_task_running_core t s1 < core_count s1
                        then upd_tcb t (\<lambda>x. x\<lparr>task_state := OS_TASK_STATE_RUNNING\<rparr>) s1
                        else os_task_make_ready t s1);
                  s3 = (if kernel_running s2 then os_task_preempt_request t s2 else s2)
              in (OS_ERR_NONE, s3))"

text \<open>The handle argument shared by pause, priority and query calls: null is the caller.\<close>

definition task_resolve :: "os_task_t option \<Rightarrow> kstate \<Rightarrow> tref option" where
  "task_resolve task s =
     (case task of
        None \<Rightarrow> os_task_self_tcb s
      | Some h \<Rightarrow> if ident h = 0 then None else os_task_find_by_id (ident h) s)"

definition os_task_pause :: "os_task_t option \<Rightarrow> kstate \<Rightarrow> os_err_t \<times> kstate" where
  "os_task_pause task s =
     (if in_isr s then (OS_ERR_ISR, s)
      else case task_resolve task s of
        None \<Rightarrow> (OS_ERR_INVALID_ARG, s)
      | Some t \<Rightarrow>
          let core = this_core s; is_self = (current s core = Some t) in
          if t = Idle core then (OS_ERR_BUSY, s)
          else if system_task (tcb_of s t) then (OS_ERR_BUSY, s)
          else if \<not> is_self \<and> os_task_running_core t s < core_count s then (OS_ERR_BUSY, s)
          else if is_self \<and> lock_count s core \<noteq> 0 then (OS_ERR_BUSY, s)
          else
            let s1 = os_task_wake_compensate t s;
                s2 = (if task_state (tcb_of s1 t) = OS_TASK_STATE_BLOCKED
                      then upd_tcb t (\<lambda>x. x\<lparr>wait_signaled := True\<rparr>) s1 else s1);
                s3 = os_task_unlink t s2;
                s4 = upd_tcb t (\<lambda>x. x\<lparr>delay_ticks := 0, task_state := OS_TASK_STATE_SUSPENDED\<rparr>) s3;
                s5 = (if is_self \<and> kernel_running s4 then os_task_switch_request s4 else s4)
            in (OS_ERR_NONE, s5))"

definition os_task_delete_resolve ::
  "os_task_t option \<Rightarrow> nat \<Rightarrow> kstate \<Rightarrow> os_err_t + (tref \<times> bool)" where
  "os_task_delete_resolve task core s =
     (let found =
        (case task of
           None \<Rightarrow>
             (case os_task_self_tcb s of
                None \<Rightarrow> Inl OS_ERR_INVALID_ARG
              | Some t \<Rightarrow>
                  if t = Idle core then Inl OS_ERR_BUSY
                  else (case os_task_find_by_id (task_id (tcb_of s t)) s of
                          None \<Rightarrow> Inl OS_ERR_INVALID_ARG | Some t' \<Rightarrow> Inr t'))
         | Some h \<Rightarrow>
             if ident h \<noteq> 0
             then (case os_task_find_by_id (ident h) s of
                     None \<Rightarrow> Inl OS_ERR_INVALID_ARG | Some t' \<Rightarrow> Inr t')
             else Inl OS_ERR_INVALID_ARG)
      in case found of
           Inl e \<Rightarrow> Inl e
         | Inr t \<Rightarrow>
             let is_self = (current s core = Some t) in
             if system_task (tcb_of s t) then Inl OS_ERR_BUSY
             else if \<not> is_self \<and> os_task_running_core t s < core_count s then Inl OS_ERR_BUSY
             else if is_self \<and> lock_count s core \<noteq> 0 then Inl OS_ERR_BUSY
             else Inr (t, is_self))"

definition os_task_delete ::
  "os_task_t option \<Rightarrow> kstate \<Rightarrow> os_err_t \<times> os_task_t option \<times> kstate" where
  "os_task_delete task s =
     (if in_isr s then (OS_ERR_ISR, task, s)
      else case os_task_delete_resolve task (this_core s) s of
        Inl e \<Rightarrow> (e, task, s)
      | Inr (t, is_self) \<Rightarrow>
          let s1 = os_task_wake_compensate t s;
              s2 = os_task_unlink t s1;
              s3 = os_task_tcb_clear t s2;
              s4 = (if is_self then
                      let s' = s3\<lparr>current := (current s3)(this_core s3 := None)\<rparr>
                      in if kernel_running s' then os_task_switch_request s' else s'
                    else s3)
          in (OS_ERR_NONE, map_option (\<lambda>h. h\<lparr>ident := 0\<rparr>) task, s4))"

definition os_task_yield :: "kstate \<Rightarrow> kstate" where
  "os_task_yield s = (if kernel_running s \<and> \<not> in_isr s then os_task_switch_request s else s)"

section \<open>Priority, affinity and queries\<close>

definition os_task_priority_set :: "os_task_t option \<Rightarrow> nat \<Rightarrow> kstate \<Rightarrow> os_err_t \<times> kstate" where
  "os_task_priority_set task v s =
     (if v \<ge> OS_TASK_PRIO_1_LOWEST \<and> v \<le> OS_TASK_PRIO_30_HIGHEST then
        (case task_resolve task s of
           None \<Rightarrow> (OS_ERR_INVALID_ARG, s)
         | Some t \<Rightarrow>
             if t = Idle (this_core s) then (OS_ERR_BUSY, s)
             else if system_task (tcb_of s t) then (OS_ERR_BUSY, s)
             else (OS_ERR_NONE,
                   os_task_mutex_priority_recompute (Some t)
                     (upd_tcb t (\<lambda>x. x\<lparr>base_priority := v\<rparr>) s)))
      else (OS_ERR_INVALID_ARG, s))"

definition os_task_priority_get :: "os_task_t option \<Rightarrow> kstate \<Rightarrow> os_err_t + nat" where
  "os_task_priority_get task s =
     (case task_resolve task s of
        None \<Rightarrow> Inl OS_ERR_INVALID_ARG
      | Some t \<Rightarrow> Inr (base_priority (tcb_of s t)))"

definition os_task_state_get :: "os_task_t option \<Rightarrow> kstate \<Rightarrow> os_task_state_t" where
  "os_task_state_get task s =
     (case task_resolve task s of
        None \<Rightarrow> OS_TASK_STATE_INACTIVE | Some t \<Rightarrow> task_state (tcb_of s t))"

definition os_task_name_get :: "os_task_t option \<Rightarrow> kstate \<Rightarrow> string option" where
  "os_task_name_get task s =
     (case task_resolve task s of None \<Rightarrow> None | Some t \<Rightarrow> task_name (tcb_of s t))"

definition os_task_core_affinity_set :: "os_task_t option \<Rightarrow> u32 \<Rightarrow> kstate \<Rightarrow> os_err_t \<times> kstate" where
  "os_task_core_affinity_set task aff s =
     (if drop_bit (core_count s) aff = 0 then
        (case task_resolve task s of
           None \<Rightarrow> (OS_ERR_INVALID_ARG, s)
         | Some t \<Rightarrow>
             let s1 = upd_tcb t (\<lambda>x. x\<lparr>core_affinity := aff\<rparr>) s;
                 running = os_task_running_core t s1;
                 s2 = (if running < core_count s1 \<and> kernel_running s1 \<and> aff \<noteq> OS_TASK_CORE_ANY \<and>
                          aff AND push_bit running 1 = 0
                       then (if running = this_core s1 then os_task_switch_request s1
                             else os_arch_core_ipi_request running s1)
                       else s1)
             in (OS_ERR_NONE, s2))
      else (OS_ERR_INVALID_ARG, s))"

text \<open>The watermark scan: untouched fill bytes from the low end of the stack.\<close>

fun watermark_scan :: "stack_memory \<Rightarrow> nat \<Rightarrow> nat \<Rightarrow> nat" where
  "watermark_scan mem base 0 = 0"
| "watermark_scan mem base (Suc n) =
     (if mem base \<noteq> OS_TASK_STACK_FILL_BYTE then 0 else Suc (watermark_scan mem (base + 1) n))"

text \<open>The scan runs unlocked; the task is looked up again afterwards, in the state \<open>env s\<close>.\<close>

definition os_task_stack_watermark_get ::
  "(kstate \<Rightarrow> kstate) \<Rightarrow> os_task_t option \<Rightarrow> stack_memory \<Rightarrow> kstate \<Rightarrow> os_err_t + nat" where
  "os_task_stack_watermark_get env task mem s =
     (case task_resolve task s of
        None \<Rightarrow> Inl OS_ERR_INVALID_ARG
      | Some t \<Rightarrow>
          (case stack_base (tcb_of s t) of
             None \<Rightarrow> Inl OS_ERR_INVALID_ARG
           | Some base \<Rightarrow>
               let n = stack_bytes (tcb_of s t); free = watermark_scan mem base n; s' = env s in
               (case (case task of None \<Rightarrow> os_task_self_tcb s'
                      | Some h \<Rightarrow> os_task_find_by_id (ident h) s') of
                  None \<Rightarrow> Inl OS_ERR_INVALID_ARG
                | Some t' \<Rightarrow>
                    if stack_base (tcb_of s' t') = Some base \<and> stack_bytes (tcb_of s' t') = n
                    then Inr free else Inl OS_ERR_INVALID_ARG)))"

definition os_task_tcb_current :: "kstate \<Rightarrow> tref option" where
  "os_task_tcb_current s =
     (case current s (this_core s) of
        None \<Rightarrow> None | Some t \<Rightarrow> if t \<noteq> Idle (this_core s) then Some t else None)"

definition os_task_notify_slot :: "tref \<Rightarrow> kstate \<Rightarrow> os_notify_slot_t" where
  "os_task_notify_slot t s = notify (tcb_of s t)"

definition os_task_tcb_is_blocked :: "tref \<Rightarrow> kstate \<Rightarrow> bool" where
  "os_task_tcb_is_blocked t s \<longleftrightarrow> task_state (tcb_of s t) = OS_TASK_STATE_BLOCKED"

section \<open>Bringing up the task subsystem\<close>

definition idle_init :: "task_port \<Rightarrow> nat \<Rightarrow> nat \<Rightarrow> os_task_tcb_t \<Rightarrow> os_task_tcb_t" where
  "idle_init port core sp x =
     x\<lparr>task_name := Some ''tsk_idle'', stack_base := Some (idle_stack port core),
       stack_ptr := Some sp, stack_bytes := min_stack port, priority := OS_TASK_PRIO_IDLE,
       base_priority := OS_TASK_PRIO_IDLE, task_id := 0, delay_ticks := 0,
       core_affinity := push_bit core 1, task_state := OS_TASK_STATE_READY\<rparr>"

fun idle_create_from ::
  "task_port \<Rightarrow> nat list \<Rightarrow> stack_memory \<Rightarrow> kstate \<Rightarrow> os_err_t \<times> stack_memory \<times> kstate" where
  "idle_create_from port [] mem s = (OS_ERR_NONE, mem, s)"
| "idle_create_from port (core # cores) mem s =
     (if task_state (tcb_of s (Idle core)) = OS_TASK_STATE_INACTIVE then
        let base = idle_stack port core;
            m1 = os_task_stack_guard_set base (os_task_stack_fill base (min_stack port) mem)
        in (case stack_initialize port base (min_stack port) (idle_entry port) 0 m1 of
              (None, m2) \<Rightarrow> (OS_ERR_ERROR, m2, s)
            | (Some sp, m2) \<Rightarrow>
                idle_create_from port cores m2 (upd_tcb (Idle core) (idle_init port core sp) s))
      else idle_create_from port cores mem s)"

definition os_task_idle_create ::
  "task_port \<Rightarrow> stack_memory \<Rightarrow> kstate \<Rightarrow> os_err_t \<times> stack_memory \<times> kstate" where
  "os_task_idle_create port mem s = idle_create_from port [0..<core_count s] mem s"

definition os_task_idle_is_created :: "kstate \<Rightarrow> bool" where
  "os_task_idle_is_created s \<longleftrightarrow>
     list_all (\<lambda>core. \<not> (task_state (tcb_of s (Idle core)) = OS_TASK_STATE_INACTIVE \<or>
                         stack_ptr (tcb_of s (Idle core)) = None)) [0..<core_count s]"

definition os_task_system_init :: "kstate \<Rightarrow> kstate" where
  "os_task_system_init s =
     (let s1 = fold (\<lambda>i. os_task_tcb_clear (Slot i)) [0..<table_size s] s;
          s2 = s1\<lparr>ready_list := (\<lambda>p. if p \<le> OS_TASK_PRIO_MAX then [] else ready_list s1 p),
                  ready_bitmap := 0, delay_list := [],
                  next_generation := (\<lambda>i. if i < table_size s1 then 1 else next_generation s1 i)\<rparr>;
          s3 = s2\<lparr>current := (\<lambda>c. if c < core_count s2 then None else current s2 c),
                  lock_count := (\<lambda>c. if c < core_count s2 then 0 else lock_count s2 c),
                  switch_pending := (\<lambda>c. if c < core_count s2 then False else switch_pending s2 c),
                  slice_left := (\<lambda>c. if c < core_count s2 then time_slice_ticks s2 else slice_left s2 c)\<rparr>
      in fold (\<lambda>c. os_task_tcb_clear (Idle c)) [0..<core_count s] s3)"

section \<open>The interface keeps the scheduler invariant\<close>

text \<open>Rewriting the control block of a task that is in no list, to a state that needs none.\<close>

lemma kwf_detached_upd:
  assumes k: "kwf D s"
    and t: "is_slot t \<Longrightarrow> t \<in> D \<or> task_state (tcb_of s t) \<notin> {OS_TASK_STATE_READY, OS_TASK_STATE_BLOCKED}"
      "wait_list (tcb_of s t) = None"
    and f: "is_slot t \<Longrightarrow> task_state (f (tcb_of s t)) \<notin> {OS_TASK_STATE_READY, OS_TASK_STATE_BLOCKED}"
      "task_state (f (tcb_of s t)) = OS_TASK_STATE_RUNNING \<Longrightarrow> \<exists>c < core_count s. current s c = Some t"
      "wait_list (f (tcb_of s t)) = None"
      "priority (f (tcb_of s t)) \<le> 31" "base_priority (f (tcb_of s t)) \<le> 31"
  shows "kwf (D - {t}) (upd_tcb t f s)"
proof (rule kwfI)
  let ?s' = "upd_tcb t f s"
  have nt: "t \<notin> set (delay_list s)" "t \<notin> set (ready_list s p)" "t \<notin> set (wlist s w)" for p w
    using kwf_delay_iff [OF k, of t] kwf_ready_iff [OF k, of t] kwf_wait_iff [OF k, of t] t by auto
  show "prio_wf ?s'" using kwfD(1) [OF k] f by (simp add: prio_wf_def)
  have "x \<in> set (ready_list s p) \<longleftrightarrow> is_slot x \<and> x \<notin> D - {t} \<and>
      task_state (tcb_of ?s' x) = OS_TASK_STATE_READY \<and> priority (tcb_of ?s' x) = p" for x p
    using kwf_ready_iff [OF k, of x p] nt f(1) by (cases "x = t") auto
  then show "ready_wf (D - {t}) ?s'" using kwfD(2) [OF k] by (simp add: ready_wf_def)
  have "delta_total (delay_list s) (\<lambda>x. delay_ticks (tcb_of ?s' x)) =
        delta_total (delay_list s) (\<lambda>x. delay_ticks (tcb_of s x))"
    by (rule delta_total_cong) (use nt in auto)
  moreover have "x \<in> set (delay_list s) \<longleftrightarrow> is_slot x \<and> x \<notin> D - {t} \<and>
      task_state (tcb_of ?s' x) = OS_TASK_STATE_BLOCKED \<and>
      delay_ticks (tcb_of ?s' x) \<noteq> OS_WAIT_FOREVER" for x
    using kwf_delay_iff [OF k, of x] nt f(1) by (cases "x = t") auto
  ultimately show "delay_wf (D - {t}) ?s'" using kwfD(3) [OF k] by (simp add: delay_wf_def)
  have "sorted_desc (\<lambda>x. priority (tcb_of ?s' x)) (wlist s w) =
        sorted_desc (\<lambda>x. priority (tcb_of s x)) (wlist s w)" for w
    by (rule sorted_desc_cong) (use nt in auto)
  then show "wait_wf ?s'" using kwfD(4) [OF k] t(2) f(3) by (auto simp: wait_wf_def)
  show "run_wf ?s'" using kwfD(5) [OF k] f(2) by (auto simp: run_wf_def)
qed

lemma kwf_delay_field:
  assumes k: "kwf D s" and t: "task_state (tcb_of s t) \<noteq> OS_TASK_STATE_BLOCKED"
  shows "kwf D (upd_tcb t (\<lambda>x. x\<lparr>delay_ticks := v\<rparr>) s)"
proof (rule kwfI)
  let ?s' = "upd_tcb t (\<lambda>x. x\<lparr>delay_ticks := v\<rparr>) s"
  have nt: "t \<notin> set (delay_list s)" using kwf_delay_iff [OF k, of t] t by simp
  have view: "priority (tcb_of ?s' x) = priority (tcb_of s x)"
    "base_priority (tcb_of ?s' x) = base_priority (tcb_of s x)"
    "task_state (tcb_of ?s' x) = task_state (tcb_of s x)"
    "wait_list (tcb_of ?s' x) = wait_list (tcb_of s x)" for x by simp_all
  have pr: "(\<lambda>x. priority (tcb_of ?s' x)) = (\<lambda>x. priority (tcb_of s x))"
    by (rule ext) (rule view)
  have lists: "ready_list ?s' = ready_list s" "ready_bitmap ?s' = ready_bitmap s"
    "delay_list ?s' = delay_list s" "current ?s' = current s" "core_count ?s' = core_count s"
    "wlist ?s' = wlist s" by simp_all
  have "delta_total (delay_list s) (\<lambda>x. delay_ticks (tcb_of ?s' x)) =
        delta_total (delay_list s) (\<lambda>x. delay_ticks (tcb_of s x))"
    by (rule delta_total_cong) (use nt in auto)
  then show "delay_wf D ?s'" using kwfD(3) [OF k] t unfolding delay_wf_def lists view by auto
  show "prio_wf ?s'" "ready_wf D ?s'" "wait_wf ?s'" "run_wf ?s'"
    using kwfD [OF k] unfolding prio_wf_def ready_wf_def wait_wf_def run_wf_def view pr lists by auto
qed

lemma kwf_halt [simp]: "kwf D (s\<lparr>halted := h\<rparr>) = kwf D s"
  by (rule same_view_kwf) (simp add: same_view_def)

lemma kwf_generation [simp]: "kwf D (s\<lparr>next_generation := g\<rparr>) = kwf D s"
  by (rule same_view_kwf) (simp add: same_view_def)

lemma OS_TASK_TCB_EMPTY_simps [simp]:
  "priority (OS_TASK_TCB_EMPTY n) = 0" "base_priority (OS_TASK_TCB_EMPTY n) = 0"
  "task_state (OS_TASK_TCB_EMPTY n) = OS_TASK_STATE_INACTIVE"
  "wait_list (OS_TASK_TCB_EMPTY n) = None" "task_id (OS_TASK_TCB_EMPTY n) = 0"
  "running_core (OS_TASK_TCB_EMPTY n) = n" "owned_mutexes (OS_TASK_TCB_EMPTY n) = []"
  "stack_ptr (OS_TASK_TCB_EMPTY n) = None" "system_task (OS_TASK_TCB_EMPTY n) = False"
  by (simp_all add: OS_TASK_TCB_EMPTY_def)

lemma os_task_tcb_clear_kwf:
  assumes "kwf D s" "is_slot t \<Longrightarrow> t \<in> D" "wait_list (tcb_of s t) = None"
  shows "kwf (D - {t}) (os_task_tcb_clear t s)"
  using kwf_detached_upd [OF assms(1) _ assms(3), of "\<lambda>x. OS_TASK_TCB_EMPTY (core_count s)"] assms(2)
  by (simp add: os_task_tcb_clear_def Let_def)

lemma create_claim_kwf:
  assumes k: "kwf {} s" and p: "config_priority c \<le> 31"
  shows "kwf {} (snd (snd (create_claim st c sys sp h s)))"
proof -
  have "kwf {} (upd_tcb (Slot i) f s)"
    if "task_state (tcb_of s (Slot i)) = OS_TASK_STATE_INACTIVE"
      and "\<And>x. task_state (f x) = OS_TASK_STATE_SUSPENDED" "\<And>x. wait_list (f x) = wait_list x"
        "\<And>x. priority (f x) = config_priority c" "\<And>x. base_priority (f x) = config_priority c"
    for i f
  proof -
    have w: "wait_list (tcb_of s (Slot i)) = None" using kwf_not_waiting [OF k] that(1) by simp
    have "kwf ({} - {Slot i}) (upd_tcb (Slot i) f s)"
      by (rule kwf_detached_upd [OF k]) (use that w p in auto)
    then show ?thesis by simp
  qed
  then show ?thesis using k
    by (auto simp: create_claim_def Let_def dest!: find_SomeD split: option.split)
qed

lemma os_task_create_any_kwf:
  assumes "kwf {} s" "\<And>s. kwf {} s \<Longrightarrow> kwf {} (env s)"
  shows "kwf {} (snd (snd (snd (os_task_create_any port env task config sys mem s))))"
proof (cases "os_task_create_args_ok port (core_count s) task config")
  case True
  then have "config_priority (the config) \<le> 31"
    by (auto simp: os_task_create_args_ok_def prio_defs split: option.splits)
  then show ?thesis using create_claim_kwf [OF assms(2) [OF assms(1)]] assms(1) True
    by (auto simp: os_task_create_any_def Let_def split_beta split: option.split)
qed (simp add: os_task_create_any_def assms)

lemma os_task_create_kwf:
  assumes "kwf {} s" "\<And>s. kwf {} s \<Longrightarrow> kwf {} (env s)"
  shows "kwf {} (snd (snd (snd (os_task_create port env task config mem s))))"
  using os_task_create_any_kwf [OF assms] assms(1)
  by (simp add: os_task_create_def split: option.split)

lemma os_task_start_kwf:
  assumes k: "kwf {} s"
  shows "kwf {} (snd (os_task_start task s))"
proof -
  have main: "kwf {} (if os_task_running_core t s1 < core_count s1
        then upd_tcb t (\<lambda>x. x\<lparr>task_state := OS_TASK_STATE_RUNNING\<rparr>) s1
        else os_task_make_ready t s1)" (is "kwf {} ?s2")
    if k1: "kwf {t} s1" "is_slot t" "wait_list (tcb_of s1 t) = None" for t s1
  proof (cases "os_task_running_core t s1 < core_count s1")
    case True
    then have "\<exists>c < core_count s1. current s1 c = Some t" by (simp add: running_core_iff)
    then have "kwf ({t} - {t}) (upd_tcb t (\<lambda>x. x\<lparr>task_state := OS_TASK_STATE_RUNNING\<rparr>) s1)"
      using kwfD(1) [OF k1(1)] that by (intro kwf_detached_upd [OF k1(1)]) (auto simp: prio_wf_def)
    then show ?thesis using True by simp
  next
    case False
    then show ?thesis using kwf_make_ready [OF k1(1)] that by simp
  qed
  have "kwf {} (if kernel_running s2 then os_task_preempt_request t s2 else s2)"
    if "kwf {} s2" for t s2 using that by simp
  moreover have "kwf {t} (upd_tcb t (\<lambda>x. x\<lparr>wait_signaled := True\<rparr>) (os_task_unlink t s))"
    "wait_list (tcb_of (os_task_unlink t s) t) = None" if "is_slot t" for t
    using os_task_unlink_kwf [OF k that] by (simp_all add: kwf_upd_tcb_view unlinked_def)
  moreover have "kwf {t} (upd_tcb t (\<lambda>x. x\<lparr>delay_ticks := 0\<rparr>) (os_task_unlink t s))"
    if "is_slot t" "task_state (tcb_of s t) \<noteq> OS_TASK_STATE_BLOCKED" for t
  proof -
    have u: "kwf {t} (os_task_unlink t s)" "unlinked t s (os_task_unlink t s)"
      using os_task_unlink_kwf [OF k that(1)] by simp_all
    have "t \<notin> set (delay_list (os_task_unlink t s))" using kwf_delay_iff [OF u(1), of t] by simp
    then show ?thesis
      using kwf_delay_field [OF u(1)] that u(2) by (simp add: unlinked_def)
  qed
  ultimately show ?thesis
    using k main find_by_id_SomeD(1)
    by (auto simp: os_task_start_def Let_def split: option.split)
qed

section \<open>Identity across wakes and unlinks\<close>

definition names_kept :: "kstate \<Rightarrow> kstate \<Rightarrow> bool" where
  "names_kept s s' \<longleftrightarrow>
     table_size s' = table_size s \<and>
     (\<forall>x. task_id (tcb_of s' x) = task_id (tcb_of s x) \<and>
          system_task (tcb_of s' x) = system_task (tcb_of s x) \<and>
          (task_state (tcb_of s' x) = OS_TASK_STATE_INACTIVE \<longleftrightarrow>
           task_state (tcb_of s x) = OS_TASK_STATE_INACTIVE))"

lemma names_kept_refl [simp]: "names_kept s s"
  by (simp add: names_kept_def)

lemma names_kept_trans: "names_kept s s' \<Longrightarrow> names_kept s' s'' \<Longrightarrow> names_kept s s''"
  by (simp add: names_kept_def)

lemma find_by_id_kept: "names_kept s s' \<Longrightarrow> os_task_find_by_id i s' = os_task_find_by_id i s"
  by (simp add: names_kept_def os_task_find_by_id_def Let_def)

lemma names_kept_unlinked:
  assumes "unlinked t s s'"
  shows "names_kept s s'"
proof -
  have "task_id (tcb_of s' x) = task_id (tcb_of s x) \<and> system_task (tcb_of s' x) = system_task (tcb_of s x)" for x
    using assms strip_tcb_fields [OF others_keptD [of t s s' x]]
    by (cases "x = t") (auto simp: unlinked_def)
  then show ?thesis using assms by (simp add: names_kept_def unlinked_def same_env_def)
qed

lemma names_kept_upd_tcb:
  assumes "names_kept s s'" "\<And>x. task_id (f x) = task_id x" "\<And>x. system_task (f x) = system_task x"
    "task_state (f (tcb_of s' t)) = OS_TASK_STATE_INACTIVE \<longleftrightarrow>
     task_state (tcb_of s' t) = OS_TASK_STATE_INACTIVE"
  shows "names_kept s (upd_tcb t f s')"
  using assms by (simp add: names_kept_def)

lemma names_kept_requests [simp]:
  "names_kept s (os_task_preempt_request t s') = names_kept s s'"
  "names_kept s (os_task_switch_request s') = names_kept s s'"
  by (simp_all add: names_kept_def)

lemma signal_and_ready_names:
  assumes k: "kwf {} s" and t: "is_slot t" "task_state (tcb_of s t) = OS_TASK_STATE_BLOCKED"
    and f: "\<And>x. task_id (f x) = task_id x" "\<And>x. system_task (f x) = system_task x"
      "\<And>x. task_state (f x) = task_state x"
  shows "names_kept s (signal_and_ready t f s)"
proof -
  have u: "names_kept s (os_task_unlink t s)" "unlinked t s (os_task_unlink t s)"
    using names_kept_unlinked os_task_unlink_kwf [OF k t(1)] by simp_all
  show ?thesis using u f t(2)
    by (auto simp: signal_and_ready_def Let_def names_kept_def make_ready_tcb unlinked_def
        os_task_make_ready_def)
qed

lemma os_task_waiters_wake_one_names:
  assumes k: "kwf {} s"
  shows "names_kept s (snd (os_task_waiters_wake_one w s))"
proof (cases "wlist s w")
  case (Cons t ts)
  then have "wait_list (tcb_of s t) = Some w" using kwf_wait_iff [OF k, of t w] by simp
  then show ?thesis using kwf_waiting [OF k] signal_and_ready_names [OF k] Cons
    by (simp add: os_task_waiters_wake_one_def)
qed (simp add: os_task_waiters_wake_one_def)

lemma os_task_wake_compensate_names:
  assumes k: "kwf {} s"
  shows "names_kept s (os_task_wake_compensate t s)"
proof -
  let ?s1 = "upd_tcb t (\<lambda>x. x\<lparr>woken_from := None\<rparr>) s"
  have "kwf {} ?s1" using k by (simp add: kwf_view_kept)
  moreover have "names_kept s ?s1" by (rule names_kept_upd_tcb) simp_all
  ultimately show ?thesis
    using os_task_waiters_wake_one_names names_kept_trans
    by (auto simp: os_task_wake_compensate_def Let_def split: option.split)
qed

section \<open>Pausing and deleting\<close>

lemma task_resolve_slot:
  assumes "kwf D s" "task_resolve task s = Some t" "t \<noteq> Idle (this_core s)"
  shows "is_slot t"
  using assms find_by_id_SomeD(1) kwfD(5) [OF assms(1)]
  by (auto simp: task_resolve_def os_task_self_tcb_def run_wf_def split: option.splits if_splits)

text \<open>The shared middle of pause and delete: compensate a pending wake, then unlink.\<close>

definition withdraw :: "tref \<Rightarrow> kstate \<Rightarrow> kstate" where
  "withdraw t s =
     os_task_unlink t
       (let s1 = os_task_wake_compensate t s
        in if task_state (tcb_of s1 t) = OS_TASK_STATE_BLOCKED
           then upd_tcb t (\<lambda>x. x\<lparr>wait_signaled := True\<rparr>) s1 else s1)"

lemma withdraw_kwf:
  assumes k: "kwf {} s" and t: "is_slot t"
  shows "kwf {t} (withdraw t s)" "same_env s (withdraw t s)" "names_kept s (withdraw t s)"
    "wait_list (tcb_of (withdraw t s) t) = None" "t \<notin> set (wlist (withdraw t s) w)"
proof -
  let ?s1 = "os_task_wake_compensate t s"
  let ?s2 = "if task_state (tcb_of ?s1 t) = OS_TASK_STATE_BLOCKED
    then upd_tcb t (\<lambda>x. x\<lparr>wait_signaled := True\<rparr>) ?s1 else ?s1"
  note c = os_task_wake_compensate_kwf [OF k, of t] os_task_wake_compensate_names [OF k, of t]
  have k2: "kwf {} ?s2" using c by (simp add: kwf_upd_tcb_view)
  have e2: "same_env s ?s2" using c by simp
  have n2: "names_kept s ?s2" using c by (simp add: names_kept_upd_tcb)
  have e: "withdraw t s = os_task_unlink t ?s2" by (simp add: withdraw_def Let_def)
  note u = os_task_unlink_kwf [OF k2 t]
  show "kwf {t} (withdraw t s)" using u(1) e by simp
  show "wait_list (tcb_of (withdraw t s) t) = None" "t \<notin> set (wlist (withdraw t s) w)"
    using u(2) e by (simp_all add: unlinked_def)
  show "same_env s (withdraw t s)" unfolding e
    using same_env_trans [OF e2] u(2) by (simp add: unlinked_def)
  show "names_kept s (withdraw t s)" unfolding e
    using names_kept_trans [OF n2] names_kept_unlinked u(2) by simp
qed

lemma os_task_pause_eq:
  assumes "fst (os_task_pause task s) = OS_ERR_NONE"
  obtains t where "task_resolve task s = Some t" "t \<noteq> Idle (this_core s)"
    "\<not> in_isr s" "\<not> system_task (tcb_of s t)"
    "current s (this_core s) = Some t \<Longrightarrow> lock_count s (this_core s) = 0"
    "snd (os_task_pause task s) =
       (let s4 = upd_tcb t (\<lambda>x. x\<lparr>delay_ticks := 0, task_state := OS_TASK_STATE_SUSPENDED\<rparr>) (withdraw t s)
        in if current s (this_core s) = Some t \<and> kernel_running s4 then os_task_switch_request s4 else s4)"
  using assms
  by (auto simp: os_task_pause_def withdraw_def Let_def split: option.splits if_splits)

lemma kwf_suspend:
  assumes "kwf {t} s" "is_slot t" "wait_list (tcb_of s t) = None"
  shows "kwf {} (upd_tcb t (\<lambda>x. x\<lparr>delay_ticks := 0, task_state := OS_TASK_STATE_SUSPENDED\<rparr>) s)"
proof -
  have "kwf ({t} - {t}) (upd_tcb t (\<lambda>x. x\<lparr>delay_ticks := 0, task_state := OS_TASK_STATE_SUSPENDED\<rparr>) s)"
    by (rule kwf_detached_upd [OF assms(1)]) (use assms kwfD(1) [OF assms(1)] in \<open>auto simp: prio_wf_def\<close>)
  then show ?thesis by simp
qed

lemma os_task_pause_unchanged: "fst (os_task_pause task s) \<noteq> OS_ERR_NONE \<Longrightarrow> snd (os_task_pause task s) = s"
  by (auto simp: os_task_pause_def Let_def split: option.splits if_splits)

lemma os_task_pause_kwf:
  assumes k: "kwf {} s"
  shows "kwf {} (snd (os_task_pause task s))"
proof (cases "fst (os_task_pause task s) = OS_ERR_NONE")
  case True
  then obtain t where t: "task_resolve task s = Some t" "t \<noteq> Idle (this_core s)" and
    e: "snd (os_task_pause task s) =
       (let s4 = upd_tcb t (\<lambda>x. x\<lparr>delay_ticks := 0, task_state := OS_TASK_STATE_SUSPENDED\<rparr>) (withdraw t s)
        in if current s (this_core s) = Some t \<and> kernel_running s4 then os_task_switch_request s4 else s4)"
    by (rule os_task_pause_eq)
  have "is_slot t" by (rule task_resolve_slot [OF k t])
  then show ?thesis using kwf_suspend withdraw_kwf [OF k] by (simp add: e Let_def)
qed (simp add: os_task_pause_unchanged k)

lemma kwf_clear_current:
  assumes k: "kwf D s" and c: "\<And>t. current s c = Some t \<Longrightarrow> task_state (tcb_of s t) \<noteq> OS_TASK_STATE_RUNNING"
  shows "kwf D (s\<lparr>current := (current s)(c := None)\<rparr>)"
proof (rule kwfI)
  let ?s' = "s\<lparr>current := (current s)(c := None)\<rparr>"
  have lists: "tcb_of ?s' = tcb_of s" "ready_list ?s' = ready_list s"
    "ready_bitmap ?s' = ready_bitmap s" "delay_list ?s' = delay_list s"
    "core_count ?s' = core_count s" "wlist ?s' = wlist s" by simp_all
  show "prio_wf ?s'" "ready_wf D ?s'" "delay_wf D ?s'" "wait_wf ?s'"
    using kwfD [OF k] unfolding prio_wf_def ready_wf_def delay_wf_def wait_wf_def lists by auto
  have "\<exists>c' < core_count s. current ?s' c' = Some t" if r: "task_state (tcb_of s t) = OS_TASK_STATE_RUNNING" for t
  proof -
    obtain c' where "c' < core_count s" "current s c' = Some t"
      using kwfD(5) [OF k] r by (auto simp: run_wf_def)
    moreover from this have "c' \<noteq> c" using c r by blast
    ultimately show ?thesis by (intro exI [of _ c']) simp
  qed
  then show "run_wf ?s'" using kwfD(5) [OF k] by (auto simp: run_wf_def)
qed

lemma os_task_delete_resolve_InrD:
  assumes "os_task_delete_resolve task core s = Inr (t, is_self)"
  shows "\<exists>i. os_task_find_by_id i s = Some t \<and> (\<forall>h. task = Some h \<longrightarrow> i = ident h)"
    "is_self = (current s core = Some t)" "\<not> system_task (tcb_of s t)"
    "\<not> is_self \<Longrightarrow> \<not> os_task_running_core t s < core_count s"
    "is_self \<Longrightarrow> lock_count s core = 0"
  using assms
  by (auto simp: os_task_delete_resolve_def Let_def split: option.splits if_splits sum.splits)

lemma os_task_delete_eq:
  assumes "fst (os_task_delete task s) = OS_ERR_NONE"
  obtains t where "os_task_delete_resolve task (this_core s) s = Inr (t, current s (this_core s) = Some t)"
    "\<not> in_isr s" "fst (snd (os_task_delete task s)) = map_option (\<lambda>h. h\<lparr>ident := 0\<rparr>) task"
    "snd (snd (os_task_delete task s)) =
       (let s3 = os_task_tcb_clear t (os_task_unlink t (os_task_wake_compensate t s)) in
        if current s (this_core s) = Some t then
          let s' = s3\<lparr>current := (current s3)(this_core s3 := None)\<rparr>
          in if kernel_running s' then os_task_switch_request s' else s'
        else s3)"
proof (cases "os_task_delete_resolve task (this_core s) s")
  case (Inr a)
  obtain t is_self where a: "a = (t, is_self)" by (cases a)
  have "is_self = (current s (this_core s) = Some t)"
    using os_task_delete_resolve_InrD(2) Inr a by blast
  then show ?thesis using that [of t] assms Inr a
    by (simp add: os_task_delete_def Let_def split: if_splits)
qed (use assms in \<open>auto simp: os_task_delete_def os_task_delete_resolve_def Let_def
    split: if_splits option.splits sum.splits\<close>)

lemma os_task_delete_unchanged:
  "fst (os_task_delete task s) \<noteq> OS_ERR_NONE \<Longrightarrow> snd (os_task_delete task s) = (task, s)"
  by (auto simp: os_task_delete_def Let_def split: sum.splits if_splits)

lemma os_task_tcb_clear_simps [simp]:
  "tcb_of (os_task_tcb_clear t s) = (tcb_of s)(t := OS_TASK_TCB_EMPTY (core_count s))"
  "current (os_task_tcb_clear t s) = current s" "this_core (os_task_tcb_clear t s) = this_core s"
  "kernel_running (os_task_tcb_clear t s) = kernel_running s"
  "table_size (os_task_tcb_clear t s) = table_size s"
  "core_count (os_task_tcb_clear t s) = core_count s"
  "ready_list (os_task_tcb_clear t s) = ready_list s" "delay_list (os_task_tcb_clear t s) = delay_list s"
  "wlist (os_task_tcb_clear t s) = wlist s" "next_generation (os_task_tcb_clear t s) = next_generation s"
  "mutexes (os_task_tcb_clear t s) = mutexes s" "lock_count (os_task_tcb_clear t s) = lock_count s"
  by (simp_all add: os_task_tcb_clear_def Let_def)

lemma unlink_compensate_kwf:
  assumes k: "kwf {} s" and t: "is_slot t"
  shows "kwf {t} (os_task_unlink t (os_task_wake_compensate t s))"
    "wait_list (tcb_of (os_task_unlink t (os_task_wake_compensate t s)) t) = None"
    "same_env s (os_task_unlink t (os_task_wake_compensate t s))"
    "names_kept s (os_task_unlink t (os_task_wake_compensate t s))"
proof -
  note c = os_task_wake_compensate_kwf [OF k, of t] os_task_wake_compensate_names [OF k, of t]
  note u = os_task_unlink_kwf [OF c(1) t]
  show "kwf {t} (os_task_unlink t (os_task_wake_compensate t s))"
    "wait_list (tcb_of (os_task_unlink t (os_task_wake_compensate t s)) t) = None"
    using u by (simp_all add: unlinked_def)
  show "same_env s (os_task_unlink t (os_task_wake_compensate t s))"
    using same_env_trans [OF c(2)] u(2) by (simp add: unlinked_def)
  show "names_kept s (os_task_unlink t (os_task_wake_compensate t s))"
    using names_kept_trans [OF c(3)] names_kept_unlinked u(2) by simp
qed

lemma os_task_delete_kwf:
  assumes k: "kwf {} s"
  shows "kwf {} (snd (snd (os_task_delete task s)))"
proof (cases "fst (os_task_delete task s) = OS_ERR_NONE")
  case True
  then obtain t where t: "os_task_delete_resolve task (this_core s) s = Inr (t, current s (this_core s) = Some t)"
    and e: "snd (snd (os_task_delete task s)) =
       (let s3 = os_task_tcb_clear t (os_task_unlink t (os_task_wake_compensate t s)) in
        if current s (this_core s) = Some t then
          let s' = s3\<lparr>current := (current s3)(this_core s3 := None)\<rparr>
          in if kernel_running s' then os_task_switch_request s' else s'
        else s3)"
    by (rule os_task_delete_eq)
  let ?u = "os_task_unlink t (os_task_wake_compensate t s)"
  have slot: "is_slot t" using os_task_delete_resolve_InrD(1) [OF t] find_by_id_SomeD(1) by blast
  note u = unlink_compensate_kwf [OF k slot]
  have k3: "kwf {} (os_task_tcb_clear t ?u)"
    using os_task_tcb_clear_kwf [OF u(1) _ u(2)] by simp
  have cur: "current ?u = current s" "this_core ?u = this_core s" using same_envD [OF u(3)] by simp_all
  have "kwf {} ((os_task_tcb_clear t ?u)\<lparr>current := (current ?u)(this_core ?u := None)\<rparr>)"
    if "current s (this_core s) = Some t"
    using kwf_clear_current [OF k3, of "this_core s"] that cur by simp
  then show ?thesis using k3 by (simp add: e Let_def)
qed (simp add: os_task_delete_unchanged k)

text \<open>A deleted task's id names nothing, and every other id still names the same task.\<close>

lemma os_task_delete_find:
  assumes k: "kwf {} s" and ok: "fst (os_task_delete (Some h) s) = OS_ERR_NONE"
  shows "os_task_find_by_id (ident h) (snd (snd (os_task_delete (Some h) s))) = None"
    "i \<noteq> ident h \<Longrightarrow> os_task_find_by_id i (snd (snd (os_task_delete (Some h) s))) = os_task_find_by_id i s"
proof -
  from ok obtain t where t: "os_task_delete_resolve (Some h) (this_core s) s =
      Inr (t, current s (this_core s) = Some t)"
    and e: "snd (snd (os_task_delete (Some h) s)) =
       (let s3 = os_task_tcb_clear t (os_task_unlink t (os_task_wake_compensate t s)) in
        if current s (this_core s) = Some t then
          let s' = s3\<lparr>current := (current s3)(this_core s3 := None)\<rparr>
          in if kernel_running s' then os_task_switch_request s' else s'
        else s3)"
    by (rule os_task_delete_eq)
  let ?u = "os_task_unlink t (os_task_wake_compensate t s)"
  let ?s' = "snd (snd (os_task_delete (Some h) s))"
  have f: "os_task_find_by_id (ident h) s = Some t" using os_task_delete_resolve_InrD(1) [OF t] by auto
  note fd = find_by_id_SomeD [OF f]
  have n: "names_kept s ?u" by (rule unlink_compensate_kwf(4) [OF k fd(1)])
  have view: "tcb_of ?s' = (tcb_of ?u)(t := OS_TASK_TCB_EMPTY (core_count ?u))"
    "table_size ?s' = table_size ?u"
    by (simp_all add: e Let_def)
  obtain j where j: "t = Slot j" "unat (OS_TASK_ID_SLOT (ident h)) = j"
    using f by (auto simp: os_task_find_by_id_def Let_def split: if_splits)
  then show "os_task_find_by_id (ident h) ?s' = None"
    by (simp add: os_task_find_by_id_def Let_def view)
  show "os_task_find_by_id i ?s' = os_task_find_by_id i s" if "i \<noteq> ident h"
  proof -
    have "os_task_find_by_id i ?u = os_task_find_by_id i s" by (rule find_by_id_kept [OF n])
    moreover have "os_task_find_by_id i ?s' = os_task_find_by_id i ?u"
      using fd(3) n that j
      by (auto simp: os_task_find_by_id_def Let_def view names_kept_def)
    ultimately show ?thesis by simp
  qed
qed

section \<open>Priority and affinity changes\<close>

lemma os_task_priority_set_kwf:
  assumes k: "kwf {} s"
  shows "kwf {} (snd (os_task_priority_set task v s))"
proof -
  have "kwf {} (os_task_mutex_priority_recompute (Some t) (upd_tcb t (\<lambda>x. x\<lparr>base_priority := v\<rparr>) s))"
    if r: "task_resolve task s = Some t" "t \<noteq> Idle (this_core s)" and v: "v \<le> 31" for t
  proof -
    let ?s1 = "upd_tcb t (\<lambda>x. x\<lparr>base_priority := v\<rparr>) s"
    have view: "task_state (tcb_of ?s1 x) = task_state (tcb_of s x)"
      "priority (tcb_of ?s1 x) = priority (tcb_of s x)"
      "delay_ticks (tcb_of ?s1 x) = delay_ticks (tcb_of s x)"
      "wait_list (tcb_of ?s1 x) = wait_list (tcb_of s x)" for x by simp_all
    have fe: "(\<lambda>x. delay_ticks (tcb_of ?s1 x)) = (\<lambda>x. delay_ticks (tcb_of s x))"
      "(\<lambda>x. priority (tcb_of ?s1 x)) = (\<lambda>x. priority (tcb_of s x))" by (rule ext, rule view)+
    have "kwf {} ?s1"
    proof (rule kwfI)
      show "prio_wf ?s1" using kwfD(1) [OF k] v by (simp add: prio_wf_def)
      show "ready_wf {} ?s1" using kwfD(2) [OF k] unfolding ready_wf_def view by simp
      show "delay_wf {} ?s1" using kwfD(3) [OF k] unfolding delay_wf_def fe view by simp
      show "wait_wf ?s1" using kwfD(4) [OF k] unfolding wait_wf_def fe view by simp
      show "run_wf ?s1" using kwfD(5) [OF k] unfolding run_wf_def view by simp
    qed
    then show ?thesis
      unfolding os_task_mutex_priority_recompute_def
      by (rule priority_recompute_kwf(1) [OF unlink_ok_os]) (use task_resolve_slot [OF k r] in auto)
  qed
  then show ?thesis using k
    by (auto simp: os_task_priority_set_def prio_defs split: option.split)
qed

lemma os_task_core_affinity_set_kwf:
  "kwf {} s \<Longrightarrow> kwf {} (snd (os_task_core_affinity_set task aff s))"
  by (auto simp: os_task_core_affinity_set_def Let_def kwf_upd_tcb_view split: option.split)

lemma os_task_yield_kwf: "kwf D s \<Longrightarrow> kwf D (os_task_yield s)"
  by (simp add: os_task_yield_def)

text \<open>A recomputation leaves the task at the greatest of its base and its waiters' priorities.\<close>

lemma wait_insert_hd_other:
  "t \<notin> set xs \<Longrightarrow> wait_insert f t xs = (case xs of [] \<Rightarrow> [t] | y # ys \<Rightarrow>
     if f y < f t then t # xs else y # wait_insert f t ys)"
  by (cases xs) auto

lemma effective_priority_set_priority:
  assumes "unlink_ok U" "kwf D s" "is_slot t" "p \<le> 31" "detached_ok D s"
  shows "priority (tcb_of (effective_priority_set U t p s) t) = p"
proof -
  have u: "U t s = unlink_state t s"
    if "task_state (tcb_of s t) = OS_TASK_STATE_READY"
    using assms(1) kwf_not_waiting [OF assms(2), of t] that by (simp add: unlink_ok_def)
  show ?thesis
    using u by (auto simp: effective_priority_set_def Let_def make_ready_tcb
        os_task_wait_node_insert_def split: option.split)
qed

section \<open>Task ids\<close>

lemma generation_mask: "(w :: u32) AND OS_TASK_ID_GENERATION_MASK = take_bit 24 w"
proof -
  have "OS_TASK_ID_GENERATION_MASK = mask 24"
    by (simp add: OS_TASK_ID_GENERATION_MASK_def mask_eq_exp_minus_1)
  then show ?thesis by (simp add: take_bit_eq_mask)
qed

text \<open>An id carries its slot and its generation.\<close>

lemma OS_TASK_ID_fields:
  assumes "i < 255"
  shows "OS_TASK_ID_SLOT (OS_TASK_ID_MAKE i g) = word_of_nat i"
    and "OS_TASK_ID_MAKE i g AND OS_TASK_ID_GENERATION_MASK = g AND OS_TASK_ID_GENERATION_MASK"
    and "OS_TASK_ID_MAKE i g \<noteq> 0"
proof -
  have top: "drop_bit 24 (OS_TASK_ID_MAKE i g) = (word_of_nat i + 1 :: u32)"
  proof -
    have "take_bit 8 (word_of_nat (i + 1) :: u32) = word_of_nat (i + 1)"
      using assms by (simp only: take_bit_of_nat) (simp add: take_bit_nat_eq_self)
    then have "take_bit 8 (word_of_nat i + 1 :: u32) = word_of_nat i + 1"
      by (simp add: add.commute)
    then have small: "\<not> bit (word_of_nat i + 1 :: u32) n" if "8 \<le> n" for n
      using that by (metis bit_take_bit_iff not_less)
    show ?thesis
      by (rule bit_word_eqI)
        (use small not_less in \<open>auto simp: OS_TASK_ID_MAKE_def bit_simps\<close>)
  qed
  then show "OS_TASK_ID_SLOT (OS_TASK_ID_MAKE i g) = word_of_nat i"
    by (simp add: OS_TASK_ID_SLOT_def)
  have "(word_of_nat i + 1 :: u32) \<noteq> 0"
  proof
    assume "(word_of_nat i + 1 :: u32) = 0"
    then have "(word_of_nat (i + 1) :: u32) = 0" by (simp add: add.commute)
    then have "unat (word_of_nat (i + 1) :: u32) = unat (0 :: u32)" by (rule arg_cong)
    then show False using assms by (simp only: unat_of_nat) simp
  qed
  then show "OS_TASK_ID_MAKE i g \<noteq> 0" using top by (metis drop_bit_of_0)
  show "OS_TASK_ID_MAKE i g AND OS_TASK_ID_GENERATION_MASK = g AND OS_TASK_ID_GENERATION_MASK"
    unfolding OS_TASK_ID_MAKE_def OS_TASK_ID_GENERATION_MASK_def [symmetric] generation_mask
    by (rule bit_word_eqI) (auto simp: bit_simps)
qed

text \<open>A created task is found under the id its handle received.\<close>

definition slots_ok :: "kstate \<Rightarrow> bool" where
  "slots_ok s \<longleftrightarrow> table_size s < 255"

lemma create_claim_ok:
  assumes "create_claim st c sys sp h s = (OS_ERR_NONE, h', s')" and sz: "slots_ok s"
  obtains i where "i < table_size s" "task_state (tcb_of s (Slot i)) = OS_TASK_STATE_INACTIVE"
    "\<forall>j < i. task_state (tcb_of s (Slot j)) \<noteq> OS_TASK_STATE_INACTIVE"
    "h' = h\<lparr>ident := OS_TASK_ID_MAKE i (next_generation s i)\<rparr>"
    "os_task_find_by_id (ident h') s' = Some (Slot i)"
    "task_state (tcb_of s' (Slot i)) = OS_TASK_STATE_SUSPENDED"
    "priority (tcb_of s' (Slot i)) = config_priority c"
    "next_generation s' = (next_generation s)(i := next_gen (next_generation s i))"
    "\<forall>x. x \<noteq> Slot i \<longrightarrow> tcb_of s' x = tcb_of s x"
proof -
  let ?P = "\<lambda>i. task_state (tcb_of s (Slot i)) = OS_TASK_STATE_INACTIVE"
  obtain i where f: "List.find ?P [0..<table_size s] = Some i"
    using assms(1) by (auto simp: create_claim_def split: option.splits if_splits)
  have i: "?P i" "i < table_size s" using find_SomeD [OF f] by simp_all
  have first: "\<forall>j < i. \<not> ?P j"
    using f unfolding find_Some_iff by (auto simp: nth_append)
  have i255: "i < 255" using i sz by (simp add: slots_ok_def)
  note e = assms(1) [unfolded create_claim_def Let_def f]
  have "h' = h\<lparr>ident := OS_TASK_ID_MAKE i (next_generation s i)\<rparr>" "table_size s' = table_size s"
    "task_state (tcb_of s' (Slot i)) = OS_TASK_STATE_SUSPENDED"
    "task_id (tcb_of s' (Slot i)) = OS_TASK_ID_MAKE i (next_generation s i)"
    "priority (tcb_of s' (Slot i)) = config_priority c"
    "next_generation s' = (next_generation s)(i := next_gen (next_generation s i))"
    "\<forall>x. x \<noteq> Slot i \<longrightarrow> tcb_of s' x = tcb_of s x"
    using e by (auto split: if_splits)
  moreover have "unat (word_of_nat i :: u32) = i"
    using i255 by (simp add: unat_of_nat)
  moreover have "os_task_find_by_id (OS_TASK_ID_MAKE i (next_generation s i)) s' = Some (Slot i)"
    using calculation OS_TASK_ID_fields [OF i255, of "next_generation s i"] i(2)
    by (simp add: os_task_find_by_id_def Let_def)
  ultimately show ?thesis using that i first by auto
qed

text \<open>
  Generations run through all values \<open>1 .. 2 ^ 24 - 1\<close> before one repeats, so a stale handle can
  only be mistaken for a new task of its slot after \<open>2 ^ 24 - 1\<close> creations there.
\<close>

definition gen_ok :: "u32 \<Rightarrow> bool" where
  "gen_ok g \<longleftrightarrow> 0 < unat g \<and> unat g < 16777216"

lemma unat_next_gen:
  assumes "gen_ok g"
  shows "unat (next_gen g) = (if unat g = 16777215 then 1 else unat g + 1)"
proof -
  have s: "unat (g + 1) = unat g + 1" using assms by (simp add: gen_ok_def unat_add_lt)
  have "unat ((g + 1) AND OS_TASK_ID_GENERATION_MASK) = (unat g + 1) mod 16777216"
    unfolding generation_mask unsigned_take_bit_eq s by (simp only: take_bit_eq_mod) simp
  then have n: "unat ((g + 1) AND OS_TASK_ID_GENERATION_MASK) =
      (if unat g = 16777215 then 0 else unat g + 1)" using assms by (simp add: gen_ok_def)
  show ?thesis
  proof (cases "unat g = 16777215")
    case True
    have "unat ((g + 1) AND OS_TASK_ID_GENERATION_MASK) = 0" unfolding n using True by (rule if_P)
    then have "(g + 1) AND OS_TASK_ID_GENERATION_MASK = 0" by (rule unat_eq_zero [THEN iffD1])
    then show ?thesis using True by (simp add: next_gen_def)
  next
    case False
    then have "(g + 1) AND OS_TASK_ID_GENERATION_MASK \<noteq> 0" using n by (metis add_is_0 unat_0 zero_neq_one)
    then show ?thesis using False n by (simp add: next_gen_def Let_def)
  qed
qed

lemma next_gen_ok: "gen_ok g \<Longrightarrow> gen_ok (next_gen g)"
  using unat_next_gen [of g] by (auto simp: gen_ok_def)

lemma next_gen_iterate:
  assumes "gen_ok g"
  shows "gen_ok ((next_gen ^^ n) g) \<and> unat ((next_gen ^^ n) g) = (unat g - 1 + n) mod 16777215 + 1"
proof (induction n)
  case 0
  then show ?case using assms by (auto simp: gen_ok_def)
next
  case (Suc n)
  let ?m = "(unat g - 1 + n) mod 16777215"
  have "unat ((next_gen ^^ Suc n) g) = (if ?m + 1 = 16777215 then 1 else ?m + 2)"
    using Suc unat_next_gen [of "(next_gen ^^ n) g"] by simp
  moreover have "(unat g - 1 + Suc n) mod 16777215 = (if ?m + 1 = 16777215 then 0 else ?m + 1)"
    by (simp add: mod_Suc)
  ultimately show ?case using Suc next_gen_ok by simp
qed

lemma generations_distinct:
  assumes "gen_ok g" "0 < n" "n < 16777215"
  shows "(next_gen ^^ n) g \<noteq> g"
proof
  assume e: "(next_gen ^^ n) g = g"
  have "unat g = (unat g - 1 + n) mod 16777215 + 1"
    using next_gen_iterate [OF assms(1), of n] unfolding e by blast
  then have "(unat g - 1 + n) mod 16777215 = unat g - 1" by linarith
  then have "(unat g - 1 + n) mod 16777215 = (unat g - 1) mod 16777215" by (metis mod_mod_trivial)
  then have "16777215 dvd n" by (simp add: mod_eq_dvd_iff_nat)
  then show False using assms by (auto dest: dvd_imp_le)
qed

lemma OS_TASK_ID_MAKE_inject:
  assumes "i < 255" "gen_ok g" "gen_ok g'" "OS_TASK_ID_MAKE i g = OS_TASK_ID_MAKE i g'"
  shows "g = g'"
proof -
  have "take_bit 24 g = take_bit 24 g'"
    using OS_TASK_ID_fields(2) [OF assms(1), of g] OS_TASK_ID_fields(2) [OF assms(1), of g'] assms(4)
    by (simp add: generation_mask)
  moreover have "take_bit 24 h = h" if "gen_ok h" for h
    using that by (simp add: word_unat_eq_iff unsigned_take_bit_eq take_bit_nat_eq_self gen_ok_def)
  ultimately show ?thesis using assms by metis
qed

section \<open>Bring-up\<close>

lemma tcb_clear_fold:
  "\<exists>h. fold (\<lambda>i. os_task_tcb_clear (f i)) is s =
     s\<lparr>tcb_of := (\<lambda>x. if x \<in> f ` set is then OS_TASK_TCB_EMPTY (core_count s) else tcb_of s x),
       halted := h\<rparr>"
proof (induction "is" arbitrary: s)
  case Nil
  have "s = s\<lparr>halted := halted s\<rparr>" by simp
  then show ?case by (intro exI [of _ "halted s"]) simp
next
  case (Cons i "is")
  have "os_task_tcb_clear (f i) s = s\<lparr>tcb_of := (tcb_of s)(f i := OS_TASK_TCB_EMPTY (core_count s)),
      halted := halted (os_task_tcb_clear (f i) s)\<rparr>"
    by (simp add: os_task_tcb_clear_def upd_tcb_def Let_def)
  then obtain h where h: "os_task_tcb_clear (f i) s =
      s\<lparr>tcb_of := (tcb_of s)(f i := OS_TASK_TCB_EMPTY (core_count s)), halted := h\<rparr>" by blast
  have eq: "(\<lambda>x. if x \<in> f ` set is then OS_TASK_TCB_EMPTY (core_count s)
               else ((tcb_of s)(f i := OS_TASK_TCB_EMPTY (core_count s))) x) =
        (\<lambda>x. if x \<in> f ` set (i # is) then OS_TASK_TCB_EMPTY (core_count s) else tcb_of s x)"
    by (auto simp: fun_eq_iff)
  from Cons.IH [of "os_task_tcb_clear (f i) s"] obtain h' where
    "fold (\<lambda>i. os_task_tcb_clear (f i)) is (os_task_tcb_clear (f i) s) =
      s\<lparr>tcb_of := (\<lambda>x. if x \<in> f ` set is then OS_TASK_TCB_EMPTY (core_count s)
               else ((tcb_of s)(f i := OS_TASK_TCB_EMPTY (core_count s))) x), halted := h'\<rparr>"
    unfolding h by (auto simp del: fun_upd_apply cong: if_cong)
  then show ?case unfolding eq by auto
qed

text \<open>
  After \<^verbatim>\<open>os_task_system_init\<close> the kernel invariant holds whatever was in memory, provided the
  waiter lists, which live in the objects, start empty and no control block lies outside the table.
\<close>

lemma os_task_system_init_result:
  assumes "\<And>w. wlist s w = []"
    and "\<And>i. table_size s \<le> i \<Longrightarrow> tcb_of s (Slot i) = OS_TASK_TCB_EMPTY (core_count s)"
    and "\<And>c. core_count s \<le> c \<Longrightarrow> tcb_of s (Idle c) = OS_TASK_TCB_EMPTY (core_count s)"
    and "\<And>c. core_count s \<le> c \<Longrightarrow> current s c = None"
    and "\<And>p. 31 < p \<Longrightarrow> ready_list s p = []"
  shows "tcb_of (os_task_system_init s) x = OS_TASK_TCB_EMPTY (core_count s)"
    "ready_list (os_task_system_init s) = (\<lambda>_. [])" "ready_bitmap (os_task_system_init s) = 0"
    "delay_list (os_task_system_init s) = []" "wlist (os_task_system_init s) = (\<lambda>_. [])"
    "current (os_task_system_init s) = (\<lambda>_. None)"
proof -
  let ?s' = "os_task_system_init s"
  obtain h where h: "fold (\<lambda>i. os_task_tcb_clear (Slot i)) [0..<table_size s] s =
     s\<lparr>tcb_of := (\<lambda>x. if x \<in> Slot ` set [0..<table_size s] then OS_TASK_TCB_EMPTY (core_count s)
       else tcb_of s x), halted := h\<rparr>" (is "_ = ?s1") using tcb_clear_fold by blast
  let ?s2 = "?s1\<lparr>ready_list := (\<lambda>p. if p \<le> OS_TASK_PRIO_MAX then [] else ready_list s p),
    ready_bitmap := 0, delay_list := [],
    next_generation := (\<lambda>i. if i < table_size s then 1 else next_generation s i),
    current := (\<lambda>c. if c < core_count s then None else current s c),
    lock_count := (\<lambda>c. if c < core_count s then 0 else lock_count s c),
    switch_pending := (\<lambda>c. if c < core_count s then False else switch_pending s c),
    slice_left := (\<lambda>c. if c < core_count s then time_slice_ticks s else slice_left s c)\<rparr>"
  have "?s' = fold (\<lambda>c. os_task_tcb_clear (Idle c)) [0..<core_count s] ?s2"
    unfolding os_task_system_init_def h by (simp add: Let_def cong: if_cong)
  then obtain h' where s': "?s' = ?s2\<lparr>tcb_of := (\<lambda>x. if x \<in> Idle ` set [0..<core_count s]
      then OS_TASK_TCB_EMPTY (core_count ?s2) else tcb_of ?s2 x), halted := h'\<rparr>"
    using tcb_clear_fold [of Idle "[0..<core_count s]" ?s2] by auto
  show "tcb_of ?s' x = OS_TASK_TCB_EMPTY (core_count s)"
    unfolding s' using assms(2,3) by (cases x) (auto simp: image_iff not_less)
  show "ready_list ?s' = (\<lambda>_. [])" "ready_bitmap ?s' = 0" "delay_list ?s' = []"
    "wlist ?s' = (\<lambda>_. [])" "current ?s' = (\<lambda>_. None)"
    unfolding s' using assms(1,4,5) by (auto simp: prio_defs fun_eq_iff not_le not_less)
qed

lemma os_task_system_init_kwf:
  assumes "\<And>w. wlist s w = []"
    and "\<And>i. table_size s \<le> i \<Longrightarrow> tcb_of s (Slot i) = OS_TASK_TCB_EMPTY (core_count s)"
    and "\<And>c. core_count s \<le> c \<Longrightarrow> tcb_of s (Idle c) = OS_TASK_TCB_EMPTY (core_count s)"
    and "\<And>c. core_count s \<le> c \<Longrightarrow> current s c = None"
    and "\<And>p. 31 < p \<Longrightarrow> ready_list s p = []"
  shows "kwf {} (os_task_system_init s)"
  by (rule kwfI)
    (simp_all add: prio_wf_def ready_wf_def delay_wf_def wait_wf_def run_wf_def os_task_system_init_result [OF assms])

lemma idle_init_simps [simp]:
  "priority (idle_init port c sp x) = 0" "base_priority (idle_init port c sp x) = 0"
  "task_state (idle_init port c sp x) = OS_TASK_STATE_READY"
  "wait_list (idle_init port c sp x) = wait_list x" "stack_ptr (idle_init port c sp x) = Some sp"
  by (simp_all add: idle_init_def prio_defs)

lemma idle_create_from_kwf:
  "kwf {} s \<Longrightarrow> kwf {} (snd (snd (idle_create_from port cs mem s)))"
proof (induction port cs mem s rule: idle_create_from.induct)
  case (2 port core cores mem s)
  show ?case
  proof (cases "task_state (tcb_of s (Idle core)) = OS_TASK_STATE_INACTIVE")
    case True
    have "wait_list (tcb_of s (Idle core)) = None"
      using kwf_not_waiting [OF "2.prems"] True by simp
    then have "kwf ({} - {Idle core}) (upd_tcb (Idle core) (idle_init port core sp) s)" for sp
      by (intro kwf_detached_upd [OF "2.prems"]) simp_all
    then show ?thesis using 2 True by (simp add: Let_def split: prod.split option.split)
  qed (use 2 in simp)
qed simp

text \<open>When creation reports success, every core has an idle task with a stack frame.\<close>

lemma idle_create_from_done:
  assumes "fst (idle_create_from port cs mem s) = OS_ERR_NONE"
    "\<forall>c. task_state (tcb_of s (Idle c)) \<noteq> OS_TASK_STATE_INACTIVE \<longrightarrow> stack_ptr (tcb_of s (Idle c)) \<noteq> None"
  shows "let s' = snd (snd (idle_create_from port cs mem s)) in
     core_count s' = core_count s \<and>
     (\<forall>c. task_state (tcb_of s' (Idle c)) \<noteq> OS_TASK_STATE_INACTIVE \<longrightarrow> stack_ptr (tcb_of s' (Idle c)) \<noteq> None) \<and>
     (\<forall>c. c \<in> set cs \<or> task_state (tcb_of s (Idle c)) \<noteq> OS_TASK_STATE_INACTIVE \<longrightarrow>
        task_state (tcb_of s' (Idle c)) \<noteq> OS_TASK_STATE_INACTIVE)"
  using assms
proof (induction port cs mem s rule: idle_create_from.induct)
  case (2 port core cores mem s)
  show ?case
  proof (cases "task_state (tcb_of s (Idle core)) = OS_TASK_STATE_INACTIVE")
    case True
    let ?m = "os_task_stack_guard_set (idle_stack port core)
      (os_task_stack_fill (idle_stack port core) (min_stack port) mem)"
    obtain r m2 where r: "stack_initialize port (idle_stack port core) (min_stack port) (idle_entry port) 0 ?m = (r, m2)"
      by force
    from "2.prems" True r obtain sp where sp: "r = Some sp" by (cases r) (auto simp: Let_def)
    let ?s1 = "upd_tcb (Idle core) (idle_init port core sp) s"
    have e: "idle_create_from port (core # cores) mem s = idle_create_from port cores m2 ?s1"
      using True r sp by (simp add: Let_def)
    have "let s' = snd (snd (idle_create_from port cores m2 ?s1)) in
     core_count s' = core_count ?s1 \<and>
     (\<forall>c. task_state (tcb_of s' (Idle c)) \<noteq> OS_TASK_STATE_INACTIVE \<longrightarrow> stack_ptr (tcb_of s' (Idle c)) \<noteq> None) \<and>
     (\<forall>c. c \<in> set cores \<or> task_state (tcb_of ?s1 (Idle c)) \<noteq> OS_TASK_STATE_INACTIVE \<longrightarrow>
        task_state (tcb_of s' (Idle c)) \<noteq> OS_TASK_STATE_INACTIVE)"
      by (rule "2.IH"(1) [OF True refl refl r [symmetric] sp]) (use "2.prems" e in auto)
    then show ?thesis unfolding e by (auto simp: Let_def)
  next
    case False
    then show ?thesis using "2.IH"(2) "2.prems" by (auto simp: Let_def)
  qed
qed simp

lemma os_task_idle_create_done:
  assumes "fst (os_task_idle_create port mem s) = OS_ERR_NONE"
    "\<forall>c. task_state (tcb_of s (Idle c)) \<noteq> OS_TASK_STATE_INACTIVE \<longrightarrow> stack_ptr (tcb_of s (Idle c)) \<noteq> None"
  shows "os_task_idle_is_created (snd (snd (os_task_idle_create port mem s)))"
  using idle_create_from_done [of port "[0..<core_count s]" mem s] assms
  by (auto simp: os_task_idle_create_def os_task_idle_is_created_def list_all_iff Let_def)

end
