(* ===== verification/Switch.thy ===== *)
theory Switch
  imports TaskApi
begin

text \<open>
  The context switch and the tick: saving the outgoing task, picking the next one, waking the
  sleepers whose time has come, the round-robin slice, and the tick handler's question whether a
  switch is worth requesting. A stack pointer is a number; the guard word under it is read from the
  stack memory.
\<close>

section \<open>Saving the outgoing task\<close>

definition os_task_stack_save_current :: "stack_memory \<Rightarrow> nat \<Rightarrow> kstate \<Rightarrow> kstate" where
  "os_task_stack_save_current mem sp s =
     (let core = this_core s in
      case current s core of
        None \<Rightarrow> s
      | Some t \<Rightarrow>
          let s1 = os_task_stack_guard_check mem t sp (upd_tcb t (\<lambda>x. x\<lparr>stack_ptr := Some sp\<rparr>) s) in
          if halted s1 then s1
          else if task_state (tcb_of s1 t) = OS_TASK_STATE_RUNNING \<and> lock_count s1 core \<noteq> 0
          then s1\<lparr>switch_pending := (switch_pending s1)(core := True)\<rparr>
          else
            let s2 = upd_tcb t (\<lambda>x. x\<lparr>running_core := core_count s1\<rparr>) s1 in
            if task_state (tcb_of s2 t) = OS_TASK_STATE_RUNNING then
              (if t = Idle core then upd_tcb t (\<lambda>x. x\<lparr>task_state := OS_TASK_STATE_READY\<rparr>) s2
               else os_task_make_ready t s2)
            else s2)"

section \<open>Picking the next task\<close>

definition can_run_here :: "nat \<Rightarrow> kstate \<Rightarrow> tref \<Rightarrow> bool" where
  "can_run_here core s t \<longleftrightarrow>
     core_count s \<le> 1 \<or>
     affinity_allows (core_affinity (tcb_of s t)) core \<and> running_core (tcb_of s t) = core_count s"

lemma clear_highest_less:
  assumes "(bitmap :: u32) \<noteq> 0"
  shows "unat (bitmap AND NOT (push_bit (os_arch_highest_bit_get bitmap) 1)) < unat bitmap"
proof -
  let ?p = "os_arch_highest_bit_get bitmap"
  have p: "?p < 32" "bit bitmap ?p" using highest_bit [OF assms] by simp_all
  have "bitmap AND NOT (push_bit ?p 1) \<noteq> bitmap"
    using bit_clear_bit [OF p(1), of bitmap ?p] p by auto
  moreover have "bitmap AND NOT (push_bit ?p 1) \<le> bitmap" by (rule word_and_le2)
  ultimately have "bitmap AND NOT (push_bit ?p 1) < bitmap" by (simp only: order_less_le simp_thms)
  then show ?thesis by (simp only: word_less_nat_alt)
qed

function select_scan :: "nat \<Rightarrow> kstate \<Rightarrow> u32 \<Rightarrow> (nat \<times> tref) option" where
  "select_scan core s bitmap =
     (if bitmap = 0 then None
      else
        let p = os_arch_highest_bit_get bitmap in
        case List.find (can_run_here core s) (ready_list s p) of
          Some t \<Rightarrow> Some (p, t)
        | None \<Rightarrow> select_scan core s (bitmap AND NOT (push_bit p 1)))"
  by pat_completeness auto
termination
  by (relation "measure (\<lambda>(core, s, bitmap). unat bitmap)")
    (use clear_highest_less in \<open>auto simp del: push_bit_of_1\<close>)

declare select_scan.simps [simp del]

definition select_switch :: "nat \<Rightarrow> kstate \<Rightarrow> nat option \<times> kstate" where
  "select_switch core s =
     (let (nxt, s1) =
        (case select_scan core s (ready_bitmap s) of
           None \<Rightarrow> (Idle core, s)
         | Some (p, t) \<Rightarrow>
             let l = remove1 t (ready_list s p) in
             (t, s\<lparr>ready_list := (ready_list s)(p := l),
                   ready_bitmap := (if l = [] then ready_bitmap s AND NOT (push_bit p 1)
                                    else ready_bitmap s)\<rparr>));
          s2 = upd_tcb nxt (\<lambda>x. x\<lparr>task_state := OS_TASK_STATE_RUNNING, running_core := core\<rparr>) s1;
          s3 = s2\<lparr>current := (current s2)(core := Some nxt),
                  slice_left := (if time_slice_ticks s2 > 0
                    then (slice_left s2)(core := time_slice_ticks s2) else slice_left s2)\<rparr>
      in (stack_ptr (tcb_of s3 nxt), s3))"

definition os_task_stack_select_next :: "kstate \<Rightarrow> nat option \<times> kstate" where
  "os_task_stack_select_next s =
     (let core = this_core s in
      case current s core of
        Some t \<Rightarrow>
          if lock_count s core \<noteq> 0 \<and> task_state (tcb_of s t) = OS_TASK_STATE_RUNNING
          then (stack_ptr (tcb_of s t), s) else select_switch core s
      | None \<Rightarrow> select_switch core s)"

section \<open>The tick\<close>

text \<open>
  The walk over the sleepers. In C it reads the next node before it unlinks the current one, so it
  visits the list as it was; \<open>ts\<close> is what is left of it.
\<close>

fun tick_walk :: "u32 \<Rightarrow> tref list \<Rightarrow> kstate \<Rightarrow> kstate" where
  "tick_walk elapsed [] s = s"
| "tick_walk elapsed (t # ts) s =
     (if delay_ticks (tcb_of s t) > elapsed
      then upd_tcb t (\<lambda>x. x\<lparr>delay_ticks := delay_ticks x - elapsed\<rparr>) s
      else
        let left = elapsed - delay_ticks (tcb_of s t);
            s1 = upd_tcb t (\<lambda>x. x\<lparr>delay_ticks := 0\<rparr>) s;
            s2 = os_task_make_ready t (os_task_unlink t s1);
            s3 = (if kernel_running s2 then os_task_preempt_request t s2 else s2)
        in tick_walk left ts s3)"

definition os_task_tick_update :: "u32 \<Rightarrow> kstate \<Rightarrow> kstate" where
  "os_task_tick_update elapsed s = (if elapsed \<noteq> 0 then tick_walk elapsed (delay_list s) s else s)"

definition os_task_slice_tick :: "u32 \<Rightarrow> kstate \<Rightarrow> kstate" where
  "os_task_slice_tick elapsed s =
     (if time_slice_ticks s > 0 then
        let core = this_core s; left = slice_left s core in
        s\<lparr>slice_left := (slice_left s)(core := (if left > elapsed then left - elapsed else 0))\<rparr>
      else s)"

definition os_task_reschedule_possible :: "kstate \<Rightarrow> bool" where
  "os_task_reschedule_possible s \<longleftrightarrow>
     (let core = this_core s in
      if lock_count s core \<noteq> 0 then False
      else case current s core of
        None \<Rightarrow> ready_bitmap s \<noteq> 0
      | Some t \<Rightarrow>
          let p = priority (tcb_of s t);
              above = (if p < OS_TASK_PRIO_MAX then above_mask p else 0)
          in ready_bitmap s AND above \<noteq> 0 \<or>
             (time_slice_ticks s > 0 \<and> slice_left s core = 0 \<and>
              ready_bitmap s AND push_bit p 1 \<noteq> 0))"

section \<open>What the scan picks\<close>

lemma select_scan_SomeD:
  assumes "kwf {} s" "\<And>q. q < 32 \<Longrightarrow> bit bitmap q \<Longrightarrow> bit (ready_bitmap s) q"
    "select_scan core s bitmap = Some (p, t)"
  shows "p < 32 \<and> bit bitmap p \<and> List.find (can_run_here core s) (ready_list s p) = Some t \<and>
    (\<forall>q. p < q \<longrightarrow> bit bitmap q \<longrightarrow> (\<forall>x \<in> set (ready_list s q). \<not> can_run_here core s x))"
  using assms(2,3)
proof (induction core s bitmap rule: select_scan.induct)
  case (1 core s bitmap)
  show ?case
  proof (cases "bitmap = 0")
    case False
    let ?h = "os_arch_highest_bit_get bitmap"
    note h = highest_bit [OF False]
    show ?thesis
    proof (cases "List.find (can_run_here core s) (ready_list s ?h)")
      case None
      let ?b = "bitmap AND NOT (push_bit ?h 1)"
      have b: "bit ?b q \<longleftrightarrow> bit bitmap q \<and> q \<noteq> ?h" for q
        using bit_clear_bit [OF h(1)] by simp
      have "select_scan core s ?b = Some (p, t)"
        using "1.prems"(2) False None by (subst (asm) select_scan.simps) (simp add: Let_def)
      then have ih: "p < 32 \<and> bit ?b p \<and> List.find (can_run_here core s) (ready_list s p) = Some t \<and>
          (\<forall>q. p < q \<longrightarrow> bit ?b q \<longrightarrow> (\<forall>x \<in> set (ready_list s q). \<not> can_run_here core s x))"
        using "1.IH" [OF False refl None] "1.prems"(1) b by blast
      moreover have "\<forall>x \<in> set (ready_list s ?h). \<not> can_run_here core s x"
        using None by (simp add: find_None_iff_all)
      ultimately show ?thesis using b by blast
    next
      case (Some x)
      then have "p = ?h" "t = x"
        using "1.prems"(2) False by (simp_all add: select_scan.simps Let_def)
      then show ?thesis using h Some by (auto simp: not_less [symmetric])
    qed
  qed (use "1.prems" in \<open>simp add: select_scan.simps\<close>)
qed

lemma select_scan_NoneD:
  assumes "select_scan core s bitmap = None" "bit bitmap q" "x \<in> set (ready_list s q)"
  shows "\<not> can_run_here core s x"
  using assms
proof (induction core s bitmap rule: select_scan.induct)
  case (1 core s bitmap)
  have nz: "bitmap \<noteq> 0" using "1.prems"(2) by auto
  let ?h = "os_arch_highest_bit_get bitmap"
  note h = highest_bit [OF nz]
  have none: "List.find (can_run_here core s) (ready_list s ?h) = None"
    using "1.prems"(1) nz by (subst (asm) select_scan.simps) (simp add: Let_def split: option.splits)
  show ?case
  proof (cases "q = ?h")
    case True
    then show ?thesis using none "1.prems"(3) by (simp add: find_None_iff_all)
  next
    case False
    have "select_scan core s (bitmap AND NOT (push_bit ?h 1)) = None"
      using "1.prems"(1) nz none by (subst (asm) select_scan.simps) (simp add: Let_def)
    then show ?thesis
      using "1.IH" [OF nz refl none] "1.prems" False bit_clear_bit [OF h(1)] by simp
  qed
qed

text \<open>
  The choice in terms of the tasks: the first in FIFO order among those of the greatest priority
  that are ready and may run on this core.
\<close>

definition eligible :: "nat \<Rightarrow> kstate \<Rightarrow> tref \<Rightarrow> bool" where
  "eligible core s t \<longleftrightarrow>
     is_slot t \<and> task_state (tcb_of s t) = OS_TASK_STATE_READY \<and> can_run_here core s t"

lemma ready_bit: "kwf {} s \<Longrightarrow> x \<in> set (ready_list s q) \<Longrightarrow> bit (ready_bitmap s) q \<and> q < 32"
  using kwf_ready_iff [of "{}" s x q] kwf_priority [of "{}" s x] kwfD(2) [of "{}" s]
  by (force simp: ready_wf_def)

lemma select_scan_best:
  assumes k: "kwf {} s" and sc: "select_scan core s (ready_bitmap s) = Some (p, t)"
  shows "eligible core s t" "priority (tcb_of s t) = p" "p < 32"
    "\<forall>x. eligible core s x \<longrightarrow> priority (tcb_of s x) \<le> p"
    "\<exists>pre post. ready_list s p = pre @ t # post \<and> (\<forall>x \<in> set pre. \<not> can_run_here core s x)"
proof -
  note d = select_scan_SomeD [OF k _ sc]
  have f: "List.find (can_run_here core s) (ready_list s p) = Some t" using d by blast
  have t: "can_run_here core s t" "t \<in> set (ready_list s p)" using find_SomeD [OF f] by simp_all
  show "eligible core s t" "priority (tcb_of s t) = p"
    using t kwf_ready_iff [OF k, of t p] by (auto simp: eligible_def)
  show "p < 32" using d by blast
  show "\<forall>x. eligible core s x \<longrightarrow> priority (tcb_of s x) \<le> p"
  proof (intro allI impI, rule ccontr)
    fix x assume x: "eligible core s x" and "\<not> priority (tcb_of s x) \<le> p"
    then have gt: "p < priority (tcb_of s x)" by simp
    have mem: "x \<in> set (ready_list s (priority (tcb_of s x)))"
      using x kwf_ready_iff [OF k, of x] by (simp add: eligible_def)
    then show False using d gt x ready_bit [OF k mem] by (auto simp: eligible_def)
  qed
  obtain i where "i < length (ready_list s p)" "ready_list s p ! i = t"
    "\<forall>j < i. \<not> can_run_here core s (ready_list s p ! j)"
    using f by (auto simp: find_Some_iff)
  then show "\<exists>pre post. ready_list s p = pre @ t # post \<and> (\<forall>x \<in> set pre. \<not> can_run_here core s x)"
    by (intro exI [of _ "take i (ready_list s p)"] exI [of _ "drop (Suc i) (ready_list s p)"])
      (auto simp: id_take_nth_drop [symmetric] in_set_conv_nth)
qed

lemma select_scan_idle:
  assumes "kwf {} s" "select_scan core s (ready_bitmap s) = None"
  shows "\<not> eligible core s x"
proof
  assume e: "eligible core s x"
  then have "x \<in> set (ready_list s (priority (tcb_of s x)))"
    using kwf_ready_iff [OF assms(1), of x] by (simp add: eligible_def)
  then show False
    using select_scan_NoneD [OF assms(2)] ready_bit [OF assms(1)] e by (auto simp: eligible_def)
qed

section \<open>The switch as a whole\<close>

text \<open>
  The handler of the port (\<^verbatim>\<open>arch/arm/common/os_arch_port_v7m.c\<close>) calls the two functions in turn.
  A stack overflow found by the first parks the core, so the second does not run.
\<close>

definition context_switch :: "stack_memory \<Rightarrow> nat \<Rightarrow> kstate \<Rightarrow> nat option \<times> kstate" where
  "context_switch mem sp s =
     (let s1 = os_task_stack_save_current mem sp s in
      if halted s1 then (None, s1) else os_task_stack_select_next s1)"

lemma guard_check_view:
  "tcb_of (os_task_stack_guard_check mem t sp s) = tcb_of s"
  "current (os_task_stack_guard_check mem t sp s) = current s"
  "kwf D (os_task_stack_guard_check mem t sp s) = kwf D s"
  "this_core (os_task_stack_guard_check mem t sp s) = this_core s"
  "core_count (os_task_stack_guard_check mem t sp s) = core_count s"
  "lock_count (os_task_stack_guard_check mem t sp s) = lock_count s"
  by (auto simp: os_task_stack_guard_check_def split: option.split)

lemma kwf_to_ready_idle:
  assumes k: "kwf {} s" and t: "\<not> is_slot t"
  shows "kwf {} (upd_tcb t (\<lambda>x. x\<lparr>task_state := OS_TASK_STATE_READY\<rparr>) s)"
proof -
  have w: "wait_list (tcb_of s t) = None"
    using kwf_waiting [OF k, of t] t by (cases "wait_list (tcb_of s t)") auto
  have "kwf ({} - {t}) (upd_tcb t (\<lambda>x. x\<lparr>task_state := OS_TASK_STATE_READY\<rparr>) s)"
    by (rule kwf_detached_upd [OF k]) (use t w kwfD(1) [OF k] in \<open>auto simp: prio_wf_def\<close>)
  then show ?thesis by simp
qed

lemma kwf_running_to_ready:
  assumes k: "kwf {} s" and t: "is_slot t" "task_state (tcb_of s t) = OS_TASK_STATE_RUNNING"
  shows "kwf {} (os_task_make_ready t s)"
proof -
  have "kwf {t} s" by (rule kwf_more_detached [OF k]) (use t in simp_all)
  moreover have "wait_list (tcb_of s t) = None" using kwf_not_waiting [OF k, of t] t by simp
  ultimately show ?thesis using kwf_make_ready [of "{t}" s t] t by simp
qed

lemma kwf_switch_pending [simp]: "kwf D (s\<lparr>switch_pending := p\<rparr>) = kwf D s"
  by (rule same_view_kwf) (simp add: same_view_def)

text \<open>Saved: the invariant holds, and unless the scheduler is locked nobody runs on this core.\<close>

lemma save_current_kwf:
  fixes mem :: stack_memory and sp :: nat
  assumes k: "kwf {} s"
  defines "s' \<equiv> os_task_stack_save_current mem sp s"
  shows "kwf {} s'" "current s' = current s" "this_core s' = this_core s"
    "core_count s' = core_count s" "lock_count s' = lock_count s"
    "current s (this_core s) = Some t \<Longrightarrow> \<not> halted s' \<Longrightarrow>
       task_state (tcb_of s' t) \<noteq> OS_TASK_STATE_RUNNING \<and> running_core (tcb_of s' t) = core_count s \<or>
       lock_count s (this_core s) \<noteq> 0 \<and> task_state (tcb_of s' t) = OS_TASK_STATE_RUNNING"
proof -
  have "kwf {} s' \<and> current s' = current s \<and> this_core s' = this_core s \<and>
    core_count s' = core_count s \<and> lock_count s' = lock_count s \<and>
    (current s (this_core s) = Some t \<longrightarrow> \<not> halted s' \<longrightarrow>
       task_state (tcb_of s' t) \<noteq> OS_TASK_STATE_RUNNING \<and> running_core (tcb_of s' t) = core_count s \<or>
       lock_count s (this_core s) \<noteq> 0 \<and> task_state (tcb_of s' t) = OS_TASK_STATE_RUNNING)"
  proof (cases "current s (this_core s)")
    case (Some u)
    let ?s1 = "os_task_stack_guard_check mem u sp (upd_tcb u (\<lambda>x. x\<lparr>stack_ptr := Some sp\<rparr>) s)"
    let ?s2 = "upd_tcb u (\<lambda>x. x\<lparr>running_core := core_count s\<rparr>) ?s1"
    have k1: "kwf {} ?s1" using k by (simp add: guard_check_view kwf_upd_tcb_view)
    then have k2: "kwf {} ?s2" by (simp add: kwf_upd_tcb_view)
    have slot: "is_slot u \<or> u = Idle (this_core s)" using kwfD(5) [OF k] Some by (auto simp: run_wf_def)
    have kr: "kwf {} (os_task_make_ready u ?s2)"
      if "u \<noteq> Idle (this_core s)" "task_state (tcb_of s u) = OS_TASK_STATE_RUNNING"
      using kwf_running_to_ready [OF k2] that slot by (simp add: guard_check_view)
    have ki: "kwf {} (upd_tcb (Idle (this_core s)) (\<lambda>x. x\<lparr>task_state := OS_TASK_STATE_READY\<rparr>) ?s2)"
      by (rule kwf_to_ready_idle [OF k2]) simp
    show ?thesis
      unfolding s'_def os_task_stack_save_current_def
      using Some k1 k2 kr ki
      by (auto simp: Let_def guard_check_view make_ready_tcb os_task_make_ready_def)
  qed (simp add: s'_def os_task_stack_save_current_def k)
  then show "kwf {} s'" "current s' = current s" "this_core s' = this_core s"
    "core_count s' = core_count s" "lock_count s' = lock_count s"
    "current s (this_core s) = Some t \<Longrightarrow> \<not> halted s' \<Longrightarrow>
       task_state (tcb_of s' t) \<noteq> OS_TASK_STATE_RUNNING \<and> running_core (tcb_of s' t) = core_count s \<or>
       lock_count s (this_core s) \<noteq> 0 \<and> task_state (tcb_of s' t) = OS_TASK_STATE_RUNNING"
    by blast+
qed

text \<open>Making a detached task the running task of a core that runs nothing.\<close>

lemma kwf_dispatch:
  assumes k: "kwf D s" and c: "core < core_count s"
    and none: "\<And>x. current s core = Some x \<Longrightarrow> task_state (tcb_of s x) \<noteq> OS_TASK_STATE_RUNNING"
    and t: "is_slot t \<Longrightarrow> t \<in> D" "is_slot t \<or> t = Idle core" "wait_list (tcb_of s t) = None"
  shows "kwf (D - {t}) ((upd_tcb t (\<lambda>x. x\<lparr>task_state := OS_TASK_STATE_RUNNING, running_core := core\<rparr>) s)
     \<lparr>current := (current s)(core := Some t), slice_left := sl\<rparr>)"
proof -
  let ?s1 = "s\<lparr>current := (current s)(core := Some t)\<rparr>"
  have k1: "kwf D ?s1"
  proof (rule kwfI)
    have view: "tcb_of ?s1 = tcb_of s" "ready_list ?s1 = ready_list s" "ready_bitmap ?s1 = ready_bitmap s"
      "delay_list ?s1 = delay_list s" "core_count ?s1 = core_count s" "wlist ?s1 = wlist s" by simp_all
    show "prio_wf ?s1" "ready_wf D ?s1" "delay_wf D ?s1" "wait_wf ?s1"
      using kwfD [OF k] unfolding prio_wf_def ready_wf_def delay_wf_def wait_wf_def view by auto
    have "\<exists>c < core_count s. current ?s1 c = Some x" if r: "task_state (tcb_of s x) = OS_TASK_STATE_RUNNING" for x
    proof -
      obtain c' where "c' < core_count s" "current s c' = Some x"
        using kwfD(5) [OF k] r by (auto simp: run_wf_def)
      moreover from this have "c' \<noteq> core" using none r by blast
      ultimately show ?thesis by (intro exI [of _ c']) simp
    qed
    then show "run_wf ?s1" using kwfD(5) [OF k] t(2) by (auto simp: run_wf_def)
  qed
  let ?f = "\<lambda>x. x\<lparr>task_state := OS_TASK_STATE_RUNNING, running_core := core\<rparr>"
  have "kwf (D - {t}) (upd_tcb t ?f ?s1)"
  proof (rule kwf_detached_upd [OF k1])
    show "\<exists>c < core_count ?s1. current ?s1 c = Some t" using c by (intro exI [of _ core]) simp
  qed (use t kwfD(1) [OF k] in \<open>auto simp: prio_wf_def\<close>)
  moreover have "same_view (upd_tcb t ?f ?s1)
      ((upd_tcb t ?f s)\<lparr>current := (current s)(core := Some t), slice_left := sl\<rparr>)"
    by (simp add: same_view_def)
  ultimately show ?thesis using same_view_kwf by blast
qed

lemma select_switch_kwf:
  assumes k: "kwf {} s" and c: "core < core_count s"
    and none: "\<And>x. current s core = Some x \<Longrightarrow> task_state (tcb_of s x) \<noteq> OS_TASK_STATE_RUNNING"
  shows "kwf {} (snd (select_switch core s))"
proof (cases "select_scan core s (ready_bitmap s)")
  case None
  have w: "wait_list (tcb_of s (Idle core)) = None"
    using kwf_waiting [OF k, of "Idle core"] by (cases "wait_list (tcb_of s (Idle core))") auto
  then show ?thesis
    using kwf_dispatch [OF k c none, of "Idle core"] None
    by (simp add: select_switch_def Let_def)
next
  case (Some pt)
  obtain p t where pt: "pt = (p, t)" by (cases pt)
  note b = select_scan_best [OF k Some [unfolded pt]]
  let ?s1 = "unlink_state t s"
  have t: "is_slot t" "task_state (tcb_of s t) = OS_TASK_STATE_READY"
    using b(1) by (simp_all add: eligible_def)
  have k1: "kwf {t} ?s1" using kwf_unlink_state [OF k t(1)] by simp
  have w: "wait_list (tcb_of ?s1 t) = None" using kwf_not_waiting [OF k, of t] t by simp
  have s1: "?s1 = s\<lparr>ready_list := (ready_list s)(p := remove1 t (ready_list s p)),
      ready_bitmap := (if remove1 t (ready_list s p) = [] then ready_bitmap s AND NOT (push_bit p 1)
                       else ready_bitmap s)\<rparr>"
    using t b(2) by (simp add: unlink_state_def Let_def)
  have "kwf {} ((upd_tcb t (\<lambda>x. x\<lparr>task_state := OS_TASK_STATE_RUNNING, running_core := core\<rparr>) ?s1)
     \<lparr>current := (current ?s1)(core := Some t), slice_left := sl\<rparr>)" for sl
    using kwf_dispatch [OF k1, of core t sl] c none t w by simp
  then show ?thesis
    using Some pt unfolding select_switch_def s1 by (simp add: Let_def)
qed

lemma context_switch_kwf:
  assumes k: "kwf {} s" and c: "this_core s < core_count s"
  shows "kwf {} (snd (context_switch mem sp s))"
proof -
  let ?s1 = "os_task_stack_save_current mem sp s"
  note v = save_current_kwf(1-5) [OF k, of mem sp] and r = save_current_kwf(6) [OF k, of _ mem sp]
  have "kwf {} (snd (os_task_stack_select_next ?s1))" if h: "\<not> halted ?s1"
  proof (cases "\<exists>t. current ?s1 (this_core ?s1) = Some t \<and> lock_count ?s1 (this_core ?s1) \<noteq> 0 \<and>
      task_state (tcb_of ?s1 t) = OS_TASK_STATE_RUNNING")
    case True
    then show ?thesis using v by (auto simp: os_task_stack_select_next_def Let_def)
  next
    case False
    then have e: "os_task_stack_select_next ?s1 = select_switch (this_core ?s1) ?s1"
      by (auto simp: os_task_stack_select_next_def Let_def split: option.split)
    have "kwf {} (snd (select_switch (this_core ?s1) ?s1))"
      by (rule select_switch_kwf [OF v(1)]) (use v c r h False in auto)
    then show ?thesis by (simp add: e)
  qed
  then show ?thesis using v(1) by (simp add: context_switch_def Let_def)
qed

text \<open>Who runs next: the first of the most urgent eligible tasks, or the idle task.\<close>

lemma select_switch_choice:
  assumes k: "kwf {} s"
  shows "case current (snd (select_switch core s)) core of
      Some t \<Rightarrow>
        task_state (tcb_of (snd (select_switch core s)) t) = OS_TASK_STATE_RUNNING \<and>
        running_core (tcb_of (snd (select_switch core s)) t) = core \<and>
        fst (select_switch core s) = stack_ptr (tcb_of s t) \<and>
        (if t = Idle core then \<forall>x. \<not> eligible core s x
         else eligible core s t \<and>
              (\<forall>x. eligible core s x \<longrightarrow> priority (tcb_of s x) \<le> priority (tcb_of s t)) \<and>
              (\<exists>pre post. ready_list s (priority (tcb_of s t)) = pre @ t # post \<and>
                 (\<forall>x \<in> set pre. \<not> can_run_here core s x)))
    | None \<Rightarrow> False"
proof (cases "select_scan core s (ready_bitmap s)")
  case None
  then show ?thesis using select_scan_idle [OF k None]
    by (simp add: select_switch_def Let_def)
next
  case (Some pt)
  obtain p t where pt: "pt = (p, t)" by (cases pt)
  note b = select_scan_best [OF k Some [unfolded pt]]
  have "t \<noteq> Idle core" using b(1) by (auto simp: eligible_def)
  then show ?thesis using b Some pt by (simp add: select_switch_def Let_def)
qed

section \<open>Waking the sleepers\<close>

text \<open>An unlink takes a sleeper out of the queue and moves no other deadline.\<close>

lemma os_task_unlink_queue:
  assumes k: "kwf D s" and t: "is_slot t" "t \<notin> D" and d: "detached_ok D s"
    and b: "task_state (tcb_of s t) = OS_TASK_STATE_BLOCKED"
  shows "delay_list (os_task_unlink t s) = delay_list (unlink_state t s)"
    "delay_ticks (tcb_of (os_task_unlink t s) x) = delay_ticks (tcb_of (unlink_state t s) x)"
proof -
  let ?s1 = "unlink_state t s"
  have k1: "kwf (insert t D) ?s1" by (rule kwf_unlink_state [OF k t])
  have "delay_list (os_task_unlink t s) = delay_list ?s1 \<and>
    (\<forall>x. delay_ticks (tcb_of (os_task_unlink t s) x) = delay_ticks (tcb_of ?s1 x))"
  proof (cases "wait_list (tcb_of s t)")
    case None
    then show ?thesis by (simp add: os_task_unlink_body unlink_body_def)
  next
    case (Some w)
    let ?s2 = "upd_tcb t (\<lambda>x. x\<lparr>wait_list := None\<rparr>) (set_wlist w (remove1 t (wlist ?s1 w)) ?s1)"
    have k2: "kwf (insert t D) ?s2" by (rule kwf_drop_waiter [OF k1]) (simp add: Some)
    have "detached_ok (insert t D) ?s2" using d b by (simp add: detached_ok_def)
    note dep = waiter_depart_kwf [OF unlink_ok_depth [of 0] k2 this, of t]
    have "os_task_unlink t s = waiter_depart_tcb (unlink_depth (Suc 0)) t ?s2"
      using Some by (simp add: os_task_unlink_body unlink_body_def Let_def)
    then show ?thesis using dep(7,8) by simp
  qed
  then show "delay_list (os_task_unlink t s) = delay_list (unlink_state t s)"
    "delay_ticks (tcb_of (os_task_unlink t s) x) = delay_ticks (tcb_of (unlink_state t s) x)"
    by blast+
qed

text \<open>One expiry: \<open>t\<close> heads the queue, its remaining delta is spent.\<close>

definition wake_due :: "tref \<Rightarrow> kstate \<Rightarrow> kstate" where
  "wake_due t s =
     (let s2 = os_task_make_ready t (os_task_unlink t (upd_tcb t (\<lambda>x. x\<lparr>delay_ticks := 0\<rparr>) s))
      in if kernel_running s2 then os_task_preempt_request t s2 else s2)"

lemma kwf_shorten_head:
  assumes k: "kwf {} s" and l: "delay_list s = t # ts" and v: "v \<le> delay_ticks (tcb_of s t)"
  shows "kwf {} (upd_tcb t (\<lambda>x. x\<lparr>delay_ticks := v\<rparr>) s)"
proof (rule kwfI)
  let ?s' = "upd_tcb t (\<lambda>x. x\<lparr>delay_ticks := v\<rparr>) s"
  have t: "is_slot t" "task_state (tcb_of s t) = OS_TASK_STATE_BLOCKED"
    "delay_ticks (tcb_of s t) \<noteq> OS_WAIT_FOREVER" "t \<notin> set ts"
    using kwf_delay_iff [OF k, of t] l kwfD(3) [OF k] by (auto simp: delay_wf_def)
  have vf: "v \<noteq> OS_WAIT_FOREVER"
    using v t(3) by (auto simp: word32_not_forever_iff word_le_nat_alt)
  have view: "priority (tcb_of ?s' x) = priority (tcb_of s x)"
    "base_priority (tcb_of ?s' x) = base_priority (tcb_of s x)"
    "task_state (tcb_of ?s' x) = task_state (tcb_of s x)"
    "wait_list (tcb_of ?s' x) = wait_list (tcb_of s x)" for x by simp_all
  have pr: "(\<lambda>x. priority (tcb_of ?s' x)) = (\<lambda>x. priority (tcb_of s x))" by (rule ext) (rule view)
  have lists: "ready_list ?s' = ready_list s" "ready_bitmap ?s' = ready_bitmap s"
    "delay_list ?s' = delay_list s" "current ?s' = current s" "core_count ?s' = core_count s"
    "wlist ?s' = wlist s" by simp_all
  have "delta_total ts (\<lambda>x. delay_ticks (tcb_of ?s' x)) = delta_total ts (\<lambda>x. delay_ticks (tcb_of s x))"
    by (rule delta_total_cong) (use t in auto)
  then have "delta_total (delay_list s) (\<lambda>x. delay_ticks (tcb_of ?s' x)) < 4294967295"
    using kwfD(3) [OF k] v l by (simp add: delay_wf_def word_le_nat_alt)
  moreover have "x \<in> set (delay_list s) \<longleftrightarrow> is_slot x \<and>
      task_state (tcb_of s x) = OS_TASK_STATE_BLOCKED \<and> delay_ticks (tcb_of ?s' x) \<noteq> OS_WAIT_FOREVER" for x
    using kwf_delay_iff [OF k, of x] t vf by (cases "x = t") auto
  ultimately show "delay_wf {} ?s'"
    using kwfD(3) [OF k] unfolding delay_wf_def lists view by simp
  show "prio_wf ?s'" "ready_wf {} ?s'" "wait_wf ?s'" "run_wf ?s'"
    using kwfD [OF k] unfolding prio_wf_def ready_wf_def wait_wf_def run_wf_def view pr lists by auto
qed

lemma wake_due_effect:
  assumes k: "kwf {} s" and l: "delay_list s = t # ts"
  shows "kwf {} (wake_due t s)" "delay_list (wake_due t s) = ts" "same_env s (wake_due t s)"
    "task_state (tcb_of (wake_due t s) x) = (if x = t then OS_TASK_STATE_READY else task_state (tcb_of s x))"
    "x \<in> set ts \<Longrightarrow> delay_ticks (tcb_of (wake_due t s) x) = delay_ticks (tcb_of s x)"
    "wait_signaled (tcb_of (wake_due t s) t) = wait_signaled (tcb_of s t)"
proof -
  let ?s1 = "upd_tcb t (\<lambda>x. x\<lparr>delay_ticks := 0\<rparr>) s" and ?s2 = "os_task_unlink t (upd_tcb t (\<lambda>x. x\<lparr>delay_ticks := 0\<rparr>) s)"
  have t: "is_slot t" "task_state (tcb_of s t) = OS_TASK_STATE_BLOCKED" "t \<notin> set ts"
    using kwf_delay_iff [OF k, of t] l kwfD(3) [OF k] by (auto simp: delay_wf_def)
  have k1: "kwf {} ?s1" by (rule kwf_shorten_head [OF k l]) simp
  have u: "kwf {t} ?s2" "unlinked t ?s1 ?s2" using os_task_unlink_kwf [OF k1 t(1)] by simp_all
  have w2: "wait_list (tcb_of ?s2 t) = None" using u(2) by (simp add: unlinked_def)
  have k3: "kwf {} (os_task_make_ready t ?s2)"
    using kwf_make_ready [of "{t}" ?s2 t] u(1) t(1) w2 by simp
  have st: "task_state (tcb_of ?s2 x) = task_state (tcb_of s x)" for x
    using u(2) by (simp add: unlinked_def)
  show "kwf {} (wake_due t s)" using k3 by (simp add: wake_due_def Let_def)
  have "same_env ?s1 ?s2" using u(2) unfolding unlinked_def by blast
  then have "same_env s ?s2" using same_env_trans [of s ?s1 ?s2] by simp
  then show "same_env s (wake_due t s)" by (simp add: wake_due_def Let_def)
  show "task_state (tcb_of (wake_due t s) x) = (if x = t then OS_TASK_STATE_READY else task_state (tcb_of s x))"
    using st by (simp add: wake_due_def Let_def make_ready_tcb)
  show "wait_signaled (tcb_of (wake_due t s) t) = wait_signaled (tcb_of s t)"
    using u(2) by (simp add: wake_due_def Let_def make_ready_tcb unlinked_def)
  have us: "unlink_state t ?s1 = os_task_delay_remove t ?s1"
    using t by (simp add: unlink_state_def OS_WAIT_FOREVER_def)
  note q = os_task_unlink_queue [OF k1 t(1) _ detached_ok_empty, unfolded us]
  have dl: "delay_list ?s2 = ts" using q(1) t l by (simp add: sleepers.disarm_keys)
  then show "delay_list (wake_due t s) = ts" by (simp add: wake_due_def Let_def)
  have rem: "delay_ticks (tcb_of (os_task_delay_remove t ?s1) x) = delay_ticks (tcb_of s x)"
    if "x \<in> set ts" for x
  proof (cases ts)
    case (Cons n ns)
    have "(\<lambda>x. delay_ticks (tcb_of (os_task_delay_remove t ?s1) x)) =
        (\<lambda>x. delay_ticks (tcb_of ?s1 x))(n := delay_ticks (tcb_of ?s1 n) + delay_ticks (tcb_of ?s1 t))"
      by (subst sleepers.disarm_delta) (simp add: l Cons)
    then show ?thesis using that t(3) Cons by (simp add: fun_eq_iff) auto
  qed (use that in simp)
  show "x \<in> set ts \<Longrightarrow> delay_ticks (tcb_of (wake_due t s) x) = delay_ticks (tcb_of s x)"
    using q(2) [of x] rem t by (auto simp: wake_due_def Let_def make_ready_tcb)
qed

text \<open>
  The tick as a whole: exactly the sleepers whose deadline lies within the elapsed ticks become
  ready, and what every other sleeper still has to wait is its deadline less the elapsed ticks.
\<close>

lemma tick_walk_spec:
  assumes "kwf {} s" "delay_list s = ts"
  shows "kwf {} (tick_walk e ts s) \<and> same_env s (tick_walk e ts s) \<and>
     (\<forall>x. task_state (tcb_of (tick_walk e ts s) x) =
        (case due ts (\<lambda>x. delay_ticks (tcb_of s x)) x of
           None \<Rightarrow> task_state (tcb_of s x)
         | Some n \<Rightarrow> if n \<le> unat e then OS_TASK_STATE_READY else task_state (tcb_of s x))) \<and>
     (\<forall>x. sleepers.deadline (tick_walk e ts s) x =
        (case due ts (\<lambda>x. delay_ticks (tcb_of s x)) x of
           None \<Rightarrow> None | Some n \<Rightarrow> if n \<le> unat e then None else Some (n - unat e)))"
  using assms
proof (induction e ts s rule: tick_walk.induct)
  case (1 e s)
  then show ?case by (simp add: sleepers.deadline_def)
next
  case (2 e t ts s)
  let ?d = "\<lambda>x. delay_ticks (tcb_of s x)"
  have t: "t \<notin> set ts" using "2.prems" kwfD(3) [OF "2.prems"(1)] by (auto simp: delay_wf_def)
  show ?case
  proof (cases "?d t > e")
    case True
    let ?s' = "upd_tcb t (\<lambda>x. x\<lparr>delay_ticks := delay_ticks x - e\<rparr>) s"
    have e: "tick_walk e (t # ts) s = ?s'" using True by simp
    have up: "upd_tcb t (\<lambda>x. x\<lparr>delay_ticks := delay_ticks x - e\<rparr>) s =
        upd_tcb t (\<lambda>x. x\<lparr>delay_ticks := ?d t - e\<rparr>) s" by (simp add: upd_tcb_def)
    have "e \<le> ?d t" using True by simp
    then have sub: "unat (?d t - e) = unat (?d t) - unat e" "unat e < unat (?d t)"
      using True unat_sub_le by (auto simp: word_less_nat_alt)
    have k': "kwf {} ?s'" unfolding up
      by (rule kwf_shorten_head [OF "2.prems"]) (use sub in \<open>simp add: word_le_nat_alt\<close>)
    have tail: "due ts (\<lambda>x. delay_ticks (tcb_of ?s' x)) x = due ts ?d x" for x
      by (rule due_cong) (use t in auto)
    have dl: "sleepers.deadline ?s' x = map_option (\<lambda>n. n - unat e) (due (t # ts) ?d x)" for x
      unfolding sleepers.deadline_def using "2.prems"(2) tail [of x] sub
      by (cases "due ts ?d x"; cases "t = x") simp_all
    have late: "\<not> n \<le> unat e" if "due (t # ts) ?d x = Some n" for x n
      using that sub by (auto split: if_splits)
    have "task_state (tcb_of ?s' x) = task_state (tcb_of s x)" for x by simp
    then show ?thesis
      unfolding e using k' dl late by (auto simp del: due.simps upd_tcb_simps(1) split: option.split)
  next
    case False
    let ?s1 = "wake_due t s" and ?e = "e - ?d t"
    have e: "tick_walk e (t # ts) s = tick_walk ?e ts ?s1"
      using False by (simp add: wake_due_def Let_def)
    have sub: "unat ?e = unat e - unat (?d t)" "unat (?d t) \<le> unat e"
      using False by (simp_all add: unat_sub_le not_less word_le_nat_alt)
    note ex = wake_due_effect [OF "2.prems"]
    let ?s2 = "os_task_make_ready t (os_task_unlink t (upd_tcb t (\<lambda>x. x\<lparr>delay_ticks := 0\<rparr>) s))"
    have step: "(if kernel_running ?s2 then os_task_preempt_request t ?s2 else ?s2) = ?s1"
      by (simp add: wake_due_def Let_def)
    have due1: "due ts (\<lambda>x. delay_ticks (tcb_of ?s1 x)) x = due ts ?d x" for x
      by (rule due_cong) (rule ex(5))
    have ih: "kwf {} (tick_walk ?e ts ?s1) \<and> same_env ?s1 (tick_walk ?e ts ?s1) \<and>
     (\<forall>x. task_state (tcb_of (tick_walk ?e ts ?s1) x) =
        (case due ts ?d x of None \<Rightarrow> task_state (tcb_of ?s1 x)
         | Some n \<Rightarrow> if n \<le> unat ?e then OS_TASK_STATE_READY else task_state (tcb_of ?s1 x))) \<and>
     (\<forall>x. sleepers.deadline (tick_walk ?e ts ?s1) x =
        (case due ts ?d x of None \<Rightarrow> None
         | Some n \<Rightarrow> if n \<le> unat ?e then None else Some (n - unat ?e)))"
      using "2.IH" [OF False refl refl refl refl, unfolded step, OF ex(1,2)] unfolding due1 .
    have nt: "due ts ?d t = None" using t by (simp add: due_None_iff)
    show ?thesis
      unfolding e using ih same_env_trans [OF ex(3)] ex(4) sub nt
      by (auto split: option.split)
  qed
qed

lemma os_task_tick_update_spec:
  assumes "kwf {} s"
  shows "kwf {} (os_task_tick_update e s)" "same_env s (os_task_tick_update e s)"
    "task_state (tcb_of (os_task_tick_update e s) x) =
       (case sleepers.deadline s x of
          None \<Rightarrow> task_state (tcb_of s x)
        | Some n \<Rightarrow> if 0 < unat e \<and> n \<le> unat e then OS_TASK_STATE_READY else task_state (tcb_of s x))"
    "sleepers.deadline (os_task_tick_update e s) x =
       (case sleepers.deadline s x of
          None \<Rightarrow> None
        | Some n \<Rightarrow> if 0 < unat e \<and> n \<le> unat e then None else Some (n - unat e))"
  using tick_walk_spec [OF assms refl, of e] assms
  by (auto simp: os_task_tick_update_def sleepers.deadline_def unat_gt_0 split: option.split)

section \<open>One core, one task\<close>

text \<open>
  \<open>running_core\<close> is a core's claim on a task's stack, from the dispatch to the save. Whoever claims
  a core is that core's current task, so no two tasks claim one core, and on a multicore build a
  task that some core still claims is never picked.
\<close>

definition claims_ok :: "kstate \<Rightarrow> bool" where
  "claims_ok s \<longleftrightarrow>
     (\<forall>c < core_count s. \<forall>t. running_core (tcb_of s t) = c \<longrightarrow> current s c = Some t)"

lemma make_ready_running_core [simp]:
  "running_core (tcb_of (os_task_make_ready t s) x) = running_core (tcb_of s x)"
  by (simp add: make_ready_tcb)

lemma save_current_claims:
  fixes mem :: stack_memory and sp :: nat
  assumes cl: "claims_ok s" and c: "this_core s < core_count s"
  defines "s' \<equiv> os_task_stack_save_current mem sp s"
  assumes nh: "\<not> halted s'"
  shows "claims_ok s'"
    "(\<forall>t. running_core (tcb_of s' t) \<noteq> this_core s) \<or>
     (\<exists>t. current s' (this_core s) = Some t \<and> lock_count s' (this_core s) \<noteq> 0 \<and>
          task_state (tcb_of s' t) = OS_TASK_STATE_RUNNING)"
proof -
  have "claims_ok s' \<and> ((\<forall>t. running_core (tcb_of s' t) \<noteq> this_core s) \<or>
     (\<exists>t. current s' (this_core s) = Some t \<and> lock_count s' (this_core s) \<noteq> 0 \<and>
          task_state (tcb_of s' t) = OS_TASK_STATE_RUNNING))"
  proof (cases "current s (this_core s)")
    case None
    have "running_core (tcb_of s t) \<noteq> this_core s" for t
      using cl c None by (auto simp: claims_ok_def)
    then show ?thesis using cl None by (simp add: s'_def os_task_stack_save_current_def)
  next
    case (Some u)
    have "running_core (tcb_of s t) \<noteq> this_core s" if "t \<noteq> u" for t
      using cl c Some that by (auto simp: claims_ok_def)
    then show ?thesis
      using cl c Some nh unfolding s'_def os_task_stack_save_current_def
      by (auto simp: claims_ok_def Let_def guard_check_view make_ready_tcb os_task_make_ready_def
          split: if_splits)
  qed
  then show "claims_ok s'"
    "(\<forall>t. running_core (tcb_of s' t) \<noteq> this_core s) \<or>
     (\<exists>t. current s' (this_core s) = Some t \<and> lock_count s' (this_core s) \<noteq> 0 \<and>
          task_state (tcb_of s' t) = OS_TASK_STATE_RUNNING)" by blast+
qed

lemma select_switch_claims:
  assumes "claims_ok s" "core < core_count s" "\<forall>t. running_core (tcb_of s t) \<noteq> core"
  shows "claims_ok (snd (select_switch core s))"
proof -
  obtain nxt s1 where n: "(case select_scan core s (ready_bitmap s) of
           None \<Rightarrow> (Idle core, s)
         | Some (p, t) \<Rightarrow>
             let l = remove1 t (ready_list s p) in
             (t, s\<lparr>ready_list := (ready_list s)(p := l),
                   ready_bitmap := (if l = [] then ready_bitmap s AND NOT (push_bit p 1)
                                    else ready_bitmap s)\<rparr>)) = (nxt, s1)" by fastforce
  have s1: "tcb_of s1 = tcb_of s" "current s1 = current s" "core_count s1 = core_count s"
    using n by (auto simp: Let_def split: option.splits)
  show ?thesis
    using assms unfolding select_switch_def n by (auto simp: claims_ok_def s1 Let_def)
qed

lemma context_switch_claims:
  assumes cl: "claims_ok s" and c: "this_core s < core_count s" and k: "kwf {} s"
    and nh: "\<not> halted (os_task_stack_save_current mem sp s)"
  shows "claims_ok (snd (context_switch mem sp s))"
proof -
  let ?s1 = "os_task_stack_save_current mem sp s"
  note sv = save_current_claims [OF cl c nh]
  note v = save_current_kwf(1-5) [OF k, of mem sp]
  show ?thesis
  proof (cases "\<exists>t. current ?s1 (this_core ?s1) = Some t \<and> lock_count ?s1 (this_core ?s1) \<noteq> 0 \<and>
      task_state (tcb_of ?s1 t) = OS_TASK_STATE_RUNNING")
    case True
    then show ?thesis using sv nh by (auto simp: context_switch_def os_task_stack_select_next_def Let_def)
  next
    case False
    then have e: "os_task_stack_select_next ?s1 = select_switch (this_core ?s1) ?s1"
      by (auto simp: os_task_stack_select_next_def Let_def split: option.split)
    have "claims_ok (snd (select_switch (this_core ?s1) ?s1))"
      by (rule select_switch_claims [OF sv(1)]) (use sv v c False in auto)
    then show ?thesis using nh by (simp add: context_switch_def e Let_def)
  qed
qed

section \<open>Preemption requests\<close>

text \<open>
  If the woken task may run on this core and outranks some core it may run on, then a switch or an
  inter-core interrupt is requested on a core where it outranks.
\<close>

lemma preempt_request_reaches:
  assumes loc: "core_count s \<le> 1 \<or> affinity_allows (core_affinity (tcb_of s t)) (this_core s)"
    and c: "c < core_count s" "outranks t c s" "this_core s < core_count s"
      "affinity_allows (core_affinity (tcb_of s t)) c"
  shows "outranks t (this_core s) s \<and>
       (switch_req (os_task_preempt_request t s) (this_core s) \<or>
        switch_pending (os_task_preempt_request t s) (this_core s)) \<or>
     (\<exists>c' < core_count s. affinity_allows (core_affinity (tcb_of s t)) c' \<and> outranks t c' s \<and>
        ipi_req (os_task_preempt_request t s) c')"
proof (cases "outranks t (this_core s) s")
  case True
  then show ?thesis using loc
    by (auto simp: os_task_preempt_request_def os_task_switch_request_def
        os_arch_context_switch_request_def Let_def)
next
  case False
  then have ne: "c \<noteq> this_core s" using c by auto
  then have many: "1 < core_count s" using c by linarith
  let ?P = "\<lambda>c. c \<noteq> this_core s \<and> affinity_allows (core_affinity (tcb_of s t)) c \<and> outranks t c s"
  have "List.find ?P [0..<core_count s] \<noteq> None"
    using c ne by (auto simp: find_None_iff_all)
  then obtain c' where f: "List.find ?P [0..<core_count s] = Some c'" by blast
  then have "?P c'" "c' < core_count s" using find_SomeD [OF f] by auto
  then show ?thesis using loc many False f
    by (intro disjI2 exI [of _ c'])
      (simp add: os_task_preempt_request_def os_arch_core_ipi_request_def Let_def)
qed

text \<open>
  When the task may not run on this core, only the lowest core of its mask is interrupted, whatever
  that core runs: an idle core further up the mask hears nothing.
\<close>

lemma preempt_request_excluded:
  assumes "1 < core_count s" "\<not> affinity_allows (core_affinity (tcb_of s t)) (this_core s)"
    and "c \<noteq> os_arch_lowest_bit_get (core_affinity (tcb_of s t))"
  shows "ipi_req (os_task_preempt_request t s) c = ipi_req s c"
    "switch_req (os_task_preempt_request t s) = switch_req s"
  using assms by (simp_all add: os_task_preempt_request_def os_arch_core_ipi_request_def Let_def)

section \<open>A start inside the switch window\<close>

text \<open>
  Between the save and the pick the outgoing task is READY and still \<open>current\<close>, and the port leaves
  interrupts enabled there. \<^verbatim>\<open>os_task_start\<close> on that task takes it off the ready list and, seeing
  it current, marks it RUNNING; the pick then dispatches another task.
\<close>

lemma start_in_switch_window:
  assumes k: "kwf {} s" and one: "core_count s = 1" "this_core s = 0"
    and t: "current s 0 = Some t" "task_state (tcb_of s t) = OS_TASK_STATE_READY"
      "os_task_find_by_id (ident h) s = Some t" and l: "lock_count s 0 = 0"
  defines "s1 \<equiv> snd (os_task_start (Some h) s)"
  shows "task_state (tcb_of (snd (os_task_stack_select_next s1)) t) = OS_TASK_STATE_RUNNING"
    "current (snd (os_task_stack_select_next s1)) 0 \<noteq> Some t"
    "t \<notin> set (ready_list (snd (os_task_stack_select_next s1)) p)"
proof -
  note f = find_by_id_SomeD [OF t(3)]
  have k1: "kwf {} s1" unfolding s1_def by (rule os_task_start_kwf [OF k])
  let ?u = "upd_tcb t (\<lambda>x. x\<lparr>delay_ticks := 0\<rparr>) (os_task_unlink t s)"
  have un: "unlinked t s (os_task_unlink t s)" using os_task_unlink_kwf [OF k f(1)] by simp
  have env: "current ?u = current s" "core_count ?u = core_count s" "this_core ?u = this_core s"
    "lock_count ?u = lock_count s"
    using un by (simp_all add: unlinked_def same_env_def)
  have rc: "os_task_running_core t ?u < core_count ?u"
    unfolding running_core_iff unfolding env using one t(1) by simp
  have s1: "task_state (tcb_of s1 t) = OS_TASK_STATE_RUNNING" "current s1 0 = Some t"
    "lock_count s1 0 = 0" "this_core s1 = 0"
    using t f(5) rc env l one by (simp_all add: s1_def os_task_start_def Let_def)
  have e: "os_task_stack_select_next s1 = select_switch 0 s1"
    using s1 by (simp add: os_task_stack_select_next_def Let_def)
  have nr: "t \<notin> set (ready_list s1 q)" for q using kwf_ready_iff [OF k1, of t q] s1 by simp
  have "t \<noteq> Idle 0" using f(1) by auto
  then have "(case select_scan 0 s1 (ready_bitmap s1) of None \<Rightarrow> True | Some (p, x) \<Rightarrow> x \<noteq> t)"
    using select_scan_best(1) [OF k1, of 0] s1 by (auto simp: eligible_def split: option.split)
  then show "task_state (tcb_of (snd (os_task_stack_select_next s1)) t) = OS_TASK_STATE_RUNNING"
    "current (snd (os_task_stack_select_next s1)) 0 \<noteq> Some t"
    "t \<notin> set (ready_list (snd (os_task_stack_select_next s1)) p)"
    unfolding e using s1 nr \<open>t \<noteq> Idle 0\<close>
    by (auto simp: select_switch_def Let_def split: option.splits dest: notin_set_remove1 [rotated])
qed

end
