(* ===== verification/Waiting.thy ===== *)
theory Waiting
  imports TaskApi
begin

text \<open>
  Time and the blocking protocol. The first part is the tick arithmetic of
  \<^verbatim>\<open>kernel/os_internal.h\<close>: milliseconds to ticks, and what is left of a budget when the 32-bit
  tick counter may wrap. The second part is the loop that every blocking call of the kernel runs:
  try the operation in a critical section; when it cannot complete, join the object's waiter list
  and sleep; when dispatched again, either the wake was a signal, and the loop tries again with
  what is left of its budget, or it was the timeout, and the call reports it. The objects differ
  in the attempt and in the exit taken on a timeout, which the locale \<open>blocking_call\<close> leaves open.
\<close>

section \<open>Ticks\<close>

definition os_tick_get :: "kstate \<Rightarrow> u32" where
  "os_tick_get s = tick_count s"

definition os_internal_timeout_to_ticks :: "u32 \<Rightarrow> u32 \<Rightarrow> u32" where
  "os_internal_timeout_to_ticks hz timeout_ms =
     (if timeout_ms = OS_WAIT_FOREVER then OS_WAIT_FOREVER
      else if hz = 1000 then timeout_ms
      else let ticks = ((ucast timeout_ms :: 64 word) * ucast hz + 999) div 1000 in
           if ticks \<ge> ucast OS_WAIT_FOREVER then OS_WAIT_FOREVER - 1 else ucast ticks)"

definition os_internal_wait_origin :: "kstate \<Rightarrow> u32" where
  "os_internal_wait_origin s = os_tick_get s"

definition os_internal_wait_remaining :: "u32 \<Rightarrow> u32 \<Rightarrow> kstate \<Rightarrow> u32" where
  "os_internal_wait_remaining budget start s =
     (if budget \<noteq> OS_WAIT_FOREVER then
        let elapsed = os_tick_get s - start in if elapsed \<ge> budget then 0 else budget - elapsed
      else OS_WAIT_FOREVER)"

lemma unat_ucast_32_64 [simp]: "unat (ucast (w :: u32) :: 64 word) = unat w"
  by (simp add: unsigned_ucast_eq take_bit_nat_eq_self unsigned_less [THEN less_le_trans])

text \<open>The conversion in plain numbers: the ceiling of the exact value, capped below forever.\<close>

lemma timeout_to_ticks_value:
  assumes hz: "0 < unat hz" "unat hz \<le> 1000000000" and ms: "ms \<noteq> OS_WAIT_FOREVER"
  shows "unat (os_internal_timeout_to_ticks hz ms) =
     min ((unat ms * unat hz + 999) div 1000) 4294967294"
proof -
  have msb: "unat ms < 4294967295" using ms by (simp add: word32_not_forever_iff)
  show ?thesis
  proof (cases "hz = 1000")
    case True
    then have "(unat ms * unat hz + 999) div 1000 = unat ms" by simp
    then show ?thesis using True ms msb by (simp add: os_internal_timeout_to_ticks_def)
  next
    case False
    let ?n = "unat ms * unat hz + 999"
    have "unat ms * unat hz \<le> 4294967295 * 1000000000" using msb hz by (intro mult_mono) auto
    then have small: "?n < 2 ^ 64" by simp
    have "unat ((ucast ms :: 64 word) * ucast hz) = unat ms * unat hz"
      using small by (subst unat_mult_lem [THEN iffD1]) simp_all
    then have n: "unat ((ucast ms :: 64 word) * ucast hz + 999) = ?n"
      using small by (subst unat_add_lem [THEN iffD1]) simp_all
    have d: "unat (((ucast ms :: 64 word) * ucast hz + 999) div 1000) = ?n div 1000"
      by (simp add: unat_div n)
    have f: "unat (ucast OS_WAIT_FOREVER :: 64 word) = 4294967295"
      by (simp add: OS_WAIT_FOREVER_def)
    have top: "unat (OS_WAIT_FOREVER - 1) = 4294967294" by (simp add: OS_WAIT_FOREVER_def)
    show ?thesis
      using False ms d f top
      by (auto simp: os_internal_timeout_to_ticks_def Let_def word_le_nat_alt
          unsigned_ucast_eq take_bit_nat_eq_self min_def)
  qed
qed

text \<open>A budget never reads as forever, and what is left of it is exact across a counter wrap.\<close>

lemma wait_remaining_exact:
  assumes b: "budget \<noteq> OS_WAIT_FOREVER" and t: "tick_count s = start + word_of_nat n" "n < 4294967296"
  shows "unat (os_internal_wait_remaining budget start s) = unat budget - n"
proof -
  have e: "unat (tick_count s - start) = n"
    using t by (simp add: unat_of_nat)
  show ?thesis using b e
    by (auto simp: os_internal_wait_remaining_def os_tick_get_def Let_def word_le_nat_alt
        unat_sub_le not_le)
qed

section \<open>The blocking loop\<close>

datatype outcome = Done os_err_t | Wait | Halt

text \<open>The end of a wait takes a critical section of its own around the locked form.\<close>

definition os_task_wait_end :: "kstate \<Rightarrow> kstate" where
  "os_task_wait_end s = (if \<not> in_isr s then os_task_wait_end_locked s else s)"

text \<open>
  \<open>attempt\<close> is one pass through the critical section with the ticks that remain; \<open>expired\<close> is the
  exit after a wait that no signal ended; \<open>env\<close> is what the rest of the system does between the
  moment the caller blocks and the moment it is dispatched again, counted from the end so that
  every round can differ. The loop is unbounded in C; \<open>None\<close> is a call that has not returned
  after the given number of rounds, or that stopped in a failed assertion (\<open>Halt\<close>) and never will.
\<close>

fun wait_loop ::
  "nat \<Rightarrow> (u32 \<Rightarrow> kstate \<times> 'o \<Rightarrow> outcome \<times> kstate \<times> 'o) \<Rightarrow>
   (kstate \<times> 'o \<Rightarrow> os_err_t \<times> kstate \<times> 'o) \<Rightarrow> (nat \<Rightarrow> kstate \<times> 'o \<Rightarrow> kstate \<times> 'o) \<Rightarrow>
   u32 \<Rightarrow> u32 \<Rightarrow> u32 \<Rightarrow> kstate \<times> 'o \<Rightarrow> (os_err_t \<times> kstate \<times> 'o) option" where
  "wait_loop 0 attempt expired env budget start remaining st = None"
| "wait_loop (Suc n) attempt expired env budget start remaining st =
     (case attempt remaining st of
        (Done e, st') \<Rightarrow> Some (e, st')
      | (Halt, st') \<Rightarrow> None
      | (Wait, st') \<Rightarrow>
          let st2 = env n st' in
          if os_task_wait_signaled (fst st2)
          then wait_loop n attempt expired env budget start
                 (os_internal_wait_remaining budget start (fst st2)) st2
          else Some (expired st2))"

text \<open>
  Not every call leaves or retries the way \<open>wait_loop\<close> does: a queue send tries once more after its
  timeout, an event wait may find its answer already delivered, a notification wait never asks
  whether it was signalled. \<open>resume_loop\<close> is the loop with that step as a parameter: what the call
  does when it is dispatched again is to return, or to retry with some ticks left.
\<close>

datatype resumption = Return os_err_t | Retry u32

fun resume_loop ::
  "nat \<Rightarrow> (u32 \<Rightarrow> 's \<Rightarrow> outcome \<times> 's) \<Rightarrow> ('s \<Rightarrow> resumption \<times> 's) \<Rightarrow> (nat \<Rightarrow> 's \<Rightarrow> 's) \<Rightarrow>
   u32 \<Rightarrow> 's \<Rightarrow> (os_err_t \<times> 's) option" where
  "resume_loop 0 attempt resume env remaining st = None"
| "resume_loop (Suc n) attempt resume env remaining st =
     (case attempt remaining st of
        (Done e, st') \<Rightarrow> Some (e, st')
      | (Halt, st') \<Rightarrow> None
      | (Wait, st') \<Rightarrow>
          (case resume (env n st') of
             (Return e, st2) \<Rightarrow> Some (e, st2)
           | (Retry r, st2) \<Rightarrow> resume_loop n attempt resume env r st2))"

definition wait_resume ::
  "(kstate \<times> 'o \<Rightarrow> os_err_t \<times> kstate \<times> 'o) \<Rightarrow> u32 \<Rightarrow> u32 \<Rightarrow> kstate \<times> 'o \<Rightarrow>
     resumption \<times> kstate \<times> 'o" where
  "wait_resume expired budget start st =
     (if os_task_wait_signaled (fst st)
      then (Retry (os_internal_wait_remaining budget start (fst st)), st)
      else case expired st of (e, st') \<Rightarrow> (Return e, st'))"

lemma wait_loop_resumes:
  "wait_loop n attempt expired env budget start r st =
   resume_loop n attempt (wait_resume expired budget start) env r st"
  by (induction n arbitrary: r st)
     (auto simp: wait_resume_def Let_def split: prod.split outcome.split)

text \<open>
  The contract of such a call. \<open>ready st\<close> holds before a pass, \<open>woken st\<close> when the caller is
  dispatched again, and \<open>sound st\<close> always. A pass keeps \<open>sound\<close>; it never waits with nothing left of
  its budget; and a result, of a pass or of a resumption, establishes \<open>post\<close>.
\<close>

locale resuming_call =
  fixes attempt :: "u32 \<Rightarrow> 's \<Rightarrow> outcome \<times> 's"
    and resume :: "'s \<Rightarrow> resumption \<times> 's"
    and ready :: "'s \<Rightarrow> bool" and woken :: "'s \<Rightarrow> bool" and sound :: "'s \<Rightarrow> bool"
    and post :: "os_err_t \<Rightarrow> 's \<Rightarrow> bool"
  assumes attempt_done: "ready st \<Longrightarrow> attempt r st = (Done e, st') \<Longrightarrow> sound st' \<and> post e st'"
    and attempt_wait: "ready st \<Longrightarrow> attempt r st = (Wait, st') \<Longrightarrow> sound st' \<and> r \<noteq> 0"
    and resume_return: "woken st \<Longrightarrow> resume st = (Return e, st') \<Longrightarrow> sound st' \<and> post e st'"
    and resume_retry: "woken st \<Longrightarrow> resume st = (Retry r, st') \<Longrightarrow> ready st'"
begin

lemma resume_result:
  assumes "ready st" "\<And>k x. sound x \<Longrightarrow> woken (env k x)"
    "resume_loop n attempt resume env r st = Some (e, st')"
  shows "sound st' \<and> post e st'"
  using assms(1,3)
proof (induction n arbitrary: r st)
  case (Suc n)
  obtain out st1 where a: "attempt r st = (out, st1)" by (cases "attempt r st") auto
  show ?case
  proof (cases out)
    case (Done e')
    then show ?thesis using Suc.prems a attempt_done [of st r e' st1] by simp
  next
    case Wait
    then have "sound st1" using Suc.prems a attempt_wait by blast
    then have r2: "woken (env n st1)" by (rule assms(2))
    obtain q st2 where q: "resume (env n st1) = (q, st2)" by (cases "resume (env n st1)") auto
    show ?thesis
    proof (cases q)
      case (Return e')
      then show ?thesis using Suc.prems a Wait q resume_return [OF r2, of e' st2] by simp
    next
      case (Retry r')
      then have "ready st2" using resume_retry [OF r2] q by blast
      then show ?thesis using Suc.IH [of st2 r'] Suc.prems a Wait q Retry by simp
    qed
  qed (use Suc.prems a in simp)
qed simp

text \<open>The call returns when every retry has fewer ticks left than the pass before it.\<close>

lemma resume_returns:
  assumes "ready st" "\<And>k x. sound x \<Longrightarrow> woken (env k x)"
    and less: "\<And>k r r' x x1 x2. ready x \<Longrightarrow> attempt r x = (Wait, x1) \<Longrightarrow>
        resume (env k x1) = (Retry r', x2) \<Longrightarrow> unat r' < unat r"
    and no_halt: "\<And>r x. ready x \<Longrightarrow> fst (attempt r x) \<noteq> Halt"
    and fuel: "unat r < n"
  shows "\<exists>e st'. resume_loop n attempt resume env r st = Some (e, st')"
  using assms(1) fuel
proof (induction n arbitrary: r st)
  case (Suc n)
  obtain out st1 where a: "attempt r st = (out, st1)" by (cases "attempt r st") auto
  show ?case
  proof (cases out)
    case Wait
    then have "sound st1" using Suc.prems a attempt_wait by blast
    then have r2: "woken (env n st1)" by (rule assms(2))
    obtain q st2 where q: "resume (env n st1) = (q, st2)" by (cases "resume (env n st1)") auto
    show ?thesis
    proof (cases q)
      case (Retry r')
      then have "unat r' < n" using less [OF Suc.prems(1), of r st1 n r' st2] Suc.prems a Wait q by simp
      moreover have "ready st2" using resume_retry [OF r2] q Retry by blast
      ultimately show ?thesis using Suc.IH [of st2 r'] a Wait q Retry by simp
    qed (use a Wait q in simp)
  qed (use a no_halt [OF Suc.prems(1), of r] in simp_all)
qed simp

end

text \<open>
  The common case, where the resumption is \<open>wait_resume\<close>: only the exit on a timeout is open.
\<close>

locale blocking_call =
  fixes attempt :: "u32 \<Rightarrow> kstate \<times> 'o \<Rightarrow> outcome \<times> kstate \<times> 'o"
    and expired :: "kstate \<times> 'o \<Rightarrow> os_err_t \<times> kstate \<times> 'o"
    and ready :: "kstate \<times> 'o \<Rightarrow> bool" and sound :: "kstate \<times> 'o \<Rightarrow> bool"
    and post :: "os_err_t \<Rightarrow> kstate \<times> 'o \<Rightarrow> bool"
  assumes pass_done: "ready st \<Longrightarrow> attempt r st = (Done e, st') \<Longrightarrow> sound st' \<and> post e st'"
    and pass_wait: "ready st \<Longrightarrow> attempt r st = (Wait, st') \<Longrightarrow> sound st' \<and> r \<noteq> 0"
    and expired_done: "ready st \<Longrightarrow> expired st = (e, st') \<Longrightarrow> sound st' \<and> post e st'"

sublocale blocking_call \<subseteq> rs: resuming_call attempt "wait_resume expired budget start" ready ready sound post
  for budget start
proof
  fix st st' and e and r
  { assume "ready st" "attempt r st = (Done e, st')"
    then show "sound st' \<and> post e st'" by (rule pass_done) }
  { assume "ready st" "attempt r st = (Wait, st')"
    then show "sound st' \<and> r \<noteq> 0" by (rule pass_wait) }
  { assume "ready st" "wait_resume expired budget start st = (Return e, st')"
    then show "sound st' \<and> post e st'"
      using expired_done [of st e st'] by (auto simp: wait_resume_def split: if_splits prod.splits) }
  { assume "ready st" "wait_resume expired budget start st = (Retry r, st')"
    then show "ready st'" by (auto simp: wait_resume_def split: if_splits prod.splits) }
qed

context blocking_call
begin

lemma loop_result:
  assumes "ready st" "\<And>k x. sound x \<Longrightarrow> ready (env k x)"
    "wait_loop n attempt expired env budget start r st = Some (e, st')"
  shows "sound st' \<and> post e st'"
  using rs.resume_result [OF assms(1,2)] assms(3) by (simp add: wait_loop_resumes)

text \<open>
  A call with a finite budget returns. The premise on \<open>env\<close> is that time passes while the caller
  is blocked: at least one tick per round, and less than a full turn of the counter in all.
\<close>

lemma loop_returns:
  assumes "ready st" "\<And>k x. sound x \<Longrightarrow> ready (env k x)"
    and budget: "budget \<noteq> OS_WAIT_FOREVER"
    and time: "\<And>k x. sound x \<Longrightarrow>
        unat (tick_count (fst x) - start) < unat budget \<Longrightarrow>
        unat (tick_count (fst x) - start) < unat (tick_count (fst (env k x)) - start)"
    and still: "\<And>r x x' out. ready x \<Longrightarrow> attempt r x = (out, x') \<Longrightarrow>
        tick_count (fst x') = tick_count (fst x)"
    and no_halt: "\<And>r x. ready x \<Longrightarrow> fst (attempt r x) \<noteq> Halt"
    and remaining: "r = os_internal_wait_remaining budget start (fst st)"
    and fuel: "unat budget - unat (tick_count (fst st) - start) < n"
  shows "\<exists>e st'. wait_loop n attempt expired env budget start r st = Some (e, st')"
  using assms(1) remaining fuel
proof (induction n arbitrary: r st)
  case (Suc n)
  obtain out st1 where a: "attempt r st = (out, st1)" by (cases "attempt r st") auto
  show ?case
  proof (cases out)
    case Wait
    have w: "sound st1" "r \<noteq> 0" using pass_wait Suc.prems(1) a Wait by blast+
    let ?e = "unat (tick_count (fst st) - start)" and ?st2 = "env n st1"
    have r2: "ready ?st2" using assms(2) w by blast
    have early: "?e < unat budget"
      using w(2) Suc.prems(2) budget
      by (auto simp: os_internal_wait_remaining_def os_tick_get_def Let_def word_le_nat_alt
          split: if_splits)
    have t1: "tick_count (fst st1) = tick_count (fst st)"
      using still Suc.prems(1) a by blast
    have "?e < unat (tick_count (fst ?st2) - start)" using time [OF w(1), of n] early t1 by simp
    then have "unat budget - unat (tick_count (fst ?st2) - start) < n"
      using Suc.prems(3) early by linarith
    then show ?thesis using Suc.IH [OF r2 refl] a Wait by (cases "expired ?st2") (auto simp: Let_def)
  qed (use a no_halt [OF Suc.prems(1), of r] in simp_all)
qed simp

end

section \<open>The caller of a blocking call\<close>

text \<open>
  What holds whenever a task executes kernel code that may block: the scheduler invariant, and the
  current task of the calling core is the core's idle task or is RUNNING.
\<close>

definition dispatched :: "kstate \<Rightarrow> bool" where
  "dispatched s \<longleftrightarrow> kwf {} s \<and>
     (os_internal_can_block s \<longrightarrow>
        (\<forall>t. current s (this_core s) = Some t \<longrightarrow>
           t = Idle (this_core s) \<or> task_state (tcb_of s t) = OS_TASK_STATE_RUNNING))"

lemma dispatched_kwf: "dispatched s \<Longrightarrow> kwf {} s"
  by (simp add: dispatched_def)

lemma dispatched_caller:
  assumes "dispatched s" "os_internal_can_block s" "current s (this_core s) = Some t"
    "t \<noteq> Idle (this_core s)"
  shows "caller s t"
  using assms kwfD(5) [OF dispatched_kwf [OF assms(1)]]
  by (auto simp: dispatched_def caller_def run_wf_def)

lemma wait_begin_dispatched:
  assumes d: "dispatched s" and b: "os_internal_can_block s"
  shows "kwf {} (os_task_wait_begin w r s)" "same_env s (os_task_wait_begin w r s)"
proof -
  have "kwf {} (os_task_wait_begin w r s) \<and> same_env s (os_task_wait_begin w r s)"
  proof (cases "\<exists>t. current s (this_core s) = Some t \<and> t \<noteq> Idle (this_core s)")
    case True
    then obtain t where "caller s t" using dispatched_caller [OF d b] by blast
    then show ?thesis using os_task_wait_begin_kwf dispatched_kwf [OF d] by simp
  next
    case False
    then have "os_task_wait_begin w r s = s"
      by (auto simp: os_task_wait_begin_def split: option.split)
    then show ?thesis using dispatched_kwf [OF d] by simp
  qed
  then show "kwf {} (os_task_wait_begin w r s)" "same_env s (os_task_wait_begin w r s)" by blast+
qed

lemma os_task_wait_end_kwf:
  "kwf D s \<Longrightarrow> kwf D (os_task_wait_end s)" "same_env s (os_task_wait_end s)"
  using os_task_wait_end_locked_kwf by (simp_all add: os_task_wait_end_def)

lemma wait_data_set_env:
  "os_internal_can_block (os_task_wait_data_set a b s) = os_internal_can_block s"
  "dispatched s \<Longrightarrow> dispatched (os_task_wait_data_set a b s)"
  using os_task_wait_data_set_kwf(1) [of "{}" s a b]
  by (auto simp: os_task_wait_data_set_def dispatched_def os_internal_can_block_def upd_tcb_def
      split: option.splits)

lemma data_wait_begin_dispatched:
  assumes d: "dispatched s" and b: "os_internal_can_block s"
  shows "kwf {} (os_task_wait_begin w r (os_task_wait_data_set x y s))"
    "same_env s (os_task_wait_begin w r (os_task_wait_data_set x y s))"
proof -
  note wb = wait_begin_dispatched [OF wait_data_set_env(2) [OF d], of x y w r]
  show "kwf {} (os_task_wait_begin w r (os_task_wait_data_set x y s))"
    using wb(1) b by (simp add: wait_data_set_env)
  show "same_env s (os_task_wait_begin w r (os_task_wait_data_set x y s))"
    using wb(2) b os_task_wait_data_set_kwf(2) [of s x y] same_env_trans
    by (auto simp: wait_data_set_env)
qed

end
