(* ===== verification/Mutex.thy ===== *)
theory Mutex
  imports Waiting
begin

text \<open>
  Mutexes with owner tracking and priority inheritance, \<^verbatim>\<open>kernel/os_mutex.c\<close>. The object is a
  number; its flag and owner id are in the kernel state (\<open>mutexes\<close>), because the inheritance walks
  of \<^verbatim>\<open>kernel/os_task_mutex.c\<close> read them, and its waiters are the list \<open>MutexWaiters\<close>.
\<close>

definition set_mutex :: "nat \<Rightarrow> os_mutex_t \<Rightarrow> kstate \<Rightarrow> kstate" where
  "set_mutex m x s = s\<lparr>mutexes := (mutexes s)(m := x)\<rparr>"

definition os_mutex_init :: "nat option \<Rightarrow> kstate \<Rightarrow> os_err_t \<times> kstate" where
  "os_mutex_init mutex s =
     (case mutex of
        None \<Rightarrow> (OS_ERR_INVALID_ARG, s)
      | Some m \<Rightarrow>
          if wlist s (MutexWaiters m) \<noteq> [] \<or> locked (mutexes s m) then (OS_ERR_BUSY, s)
          else (OS_ERR_NONE,
                set_wlist (MutexWaiters m) [] (set_mutex m \<lparr>locked = False, owner_id = 0\<rparr> s)))"

definition mutex_attempt :: "nat \<Rightarrow> u32 \<Rightarrow> u32 \<Rightarrow> u32 \<Rightarrow> kstate \<times> unit \<Rightarrow> outcome \<times> kstate \<times> unit" where
  "mutex_attempt m timeout_ms self_id remaining =
     (\<lambda>(s, u).
        let x = mutexes s m in
        if \<not> locked x then
          (Done OS_ERR_NONE,
           os_task_wait_end_locked
             (os_task_mutex_owner_link m (set_mutex m \<lparr>locked = True, owner_id = self_id\<rparr> s)), u)
        else
          let held_by_self = (self_id \<noteq> 0 \<and> owner_id x = self_id) in
          if held_by_self \<or> timeout_ms = OS_WAIT_NOTHING \<or> \<not> os_internal_can_block s
          then (Done OS_ERR_BUSY, os_task_wait_end_locked (os_task_mutex_waiter_depart s), u)
          else if remaining = 0
          then (Done OS_ERR_TIMEOUT, os_task_wait_end_locked (os_task_mutex_waiter_depart s), u)
          else if assert_on s \<and> timeout_ms = OS_WAIT_FOREVER \<and> os_task_mutex_deadlock_check m s
          then (Halt, s\<lparr>halted := True\<rparr>, u)
          else
            (Wait,
             os_task_wait_begin (MutexWaiters m) remaining
               (os_task_mutex_blocked_on_set m (timeout_ms = OS_WAIT_FOREVER)
                 (os_task_mutex_priority_inherit (owner_id x) s)), u))"

definition mutex_expired :: "kstate \<times> unit \<Rightarrow> os_err_t \<times> kstate \<times> unit" where
  "mutex_expired =
     (\<lambda>(s, u). (OS_ERR_TIMEOUT, os_task_wait_end (os_task_mutex_waiter_depart s), u))"

definition os_mutex_lock ::
  "nat \<Rightarrow> u32 \<Rightarrow> (nat \<Rightarrow> kstate \<times> unit \<Rightarrow> kstate \<times> unit) \<Rightarrow> nat option \<Rightarrow> u32 \<Rightarrow> kstate \<Rightarrow>
     (os_err_t \<times> kstate) option" where
  "os_mutex_lock fuel hz env mutex timeout_ms s =
     (if in_isr s then Some (OS_ERR_ISR, s)
      else case mutex of
        None \<Rightarrow> Some (OS_ERR_INVALID_ARG, s)
      | Some m \<Rightarrow>
          let budget = os_internal_timeout_to_ticks hz timeout_ms in
          map_option (\<lambda>(e, s', u). (e, s'))
            (wait_loop fuel (mutex_attempt m timeout_ms (os_task_current_id_get s)) mutex_expired env
               budget (os_internal_wait_origin s) budget (s, ())))"

definition os_mutex_unlock :: "nat option \<Rightarrow> kstate \<Rightarrow> os_err_t \<times> kstate" where
  "os_mutex_unlock mutex s =
     (if in_isr s then (OS_ERR_ISR, s)
      else case mutex of
        None \<Rightarrow> (OS_ERR_INVALID_ARG, s)
      | Some m \<Rightarrow>
          let self_id = os_task_current_id_get s; x = mutexes s m in
          if \<not> locked x then (OS_ERR_ERROR, s)
          else if owner_id x \<noteq> 0 \<and> self_id \<noteq> 0 \<and> owner_id x \<noteq> self_id then (OS_ERR_NOT_OWNER, s)
          else
            let s1 = set_mutex m \<lparr>locked = False, owner_id = 0\<rparr> s;
                s2 = os_task_mutex_owner_unlink_and_reprioritize (owner_id x) m s1
            in (OS_ERR_NONE, snd (os_task_waiters_wake_one (MutexWaiters m) s2)))"

section \<open>The scheduler invariant\<close>

lemma kwf_set_mutex [simp]: "kwf D (set_mutex m x s) = kwf D s"
  by (rule same_view_kwf) (simp add: same_view_def set_mutex_def)

lemma set_mutex_simps [simp]:
  "tcb_of (set_mutex m x s) = tcb_of s" "current (set_mutex m x s) = current s"
  "this_core (set_mutex m x s) = this_core s" "wlist (set_mutex m x s) = wlist s"
  "mutexes (set_mutex m x s) = (mutexes s)(m := x)" "in_isr (set_mutex m x s) = in_isr s"
  "table_size (set_mutex m x s) = table_size s" "core_count (set_mutex m x s) = core_count s"
  "lock_count (set_mutex m x s) = lock_count s" "kernel_running (set_mutex m x s) = kernel_running s"
  "ready_list (set_mutex m x s) = ready_list s" "ready_bitmap (set_mutex m x s) = ready_bitmap s"
  "delay_list (set_mutex m x s) = delay_list s"
  by (simp_all add: set_mutex_def)

lemma find_by_id_set_mutex [simp]: "os_task_find_by_id i (set_mutex m x s) = os_task_find_by_id i s"
  by (simp add: os_task_find_by_id_def Let_def)

text \<open>
  Every nonzero id in a control block resolves to that block. Idle blocks have no slot, so they
  carry no id and never own a mutex.
\<close>

definition names_wf :: "kstate \<Rightarrow> bool" where
  "names_wf s \<longleftrightarrow> (\<forall>t. task_id (tcb_of s t) \<noteq> 0 \<longrightarrow> os_task_find_by_id (task_id (tcb_of s t)) s = Some t)"

lemma current_slot: "names_wf s \<Longrightarrow> task_id (tcb_of s t) \<noteq> 0 \<Longrightarrow> is_slot t"
  using find_by_id_SomeD(1) by (auto simp: names_wf_def)

text \<open>A recomputation is a step that changes priorities and the order of waiters only.\<close>

lemma mutex_recompute_step:
  assumes "kwf {} s" "\<And>t. task = Some t \<Longrightarrow> is_slot t"
  shows "kwf {} (os_task_mutex_priority_recompute task s)"
    "prio_step s (os_task_mutex_priority_recompute task s)"
  unfolding os_task_mutex_priority_recompute_def
  using priority_recompute_kwf [OF unlink_ok_os assms(1), of task] assms(2) by simp_all

lemma owner_link_kwf:
  assumes k: "kwf {} s" and i: "names_wf s"
  shows "kwf {} (os_task_mutex_owner_link m s)" "same_env s (os_task_mutex_owner_link m s)"
proof -
  have "kwf {} (os_task_mutex_owner_link m s) \<and> same_env s (os_task_mutex_owner_link m s)"
  proof (cases "\<exists>t. current s (this_core s) = Some t \<and> task_id (tcb_of s t) \<noteq> 0")
    case True
    then obtain t where t: "current s (this_core s) = Some t" "task_id (tcb_of s t) \<noteq> 0" by blast
    let ?s1 = "upd_tcb t (\<lambda>x. x\<lparr>owned_mutexes := owned_mutexes x @ [m]\<rparr>) s"
    have "kwf {} ?s1" using k by (simp add: kwf_upd_tcb_view)
    then show ?thesis
      using mutex_recompute_step [of ?s1 "Some t"] current_slot [OF i t(2)] t prio_step_env
        same_env_trans [of s ?s1]
      by (simp add: os_task_mutex_owner_link_def Let_def)
  next
    case False
    then have "os_task_mutex_owner_link m s = s"
      by (auto simp: os_task_mutex_owner_link_def Let_def split: option.split)
    then show ?thesis using k by simp
  qed
  then show "kwf {} (os_task_mutex_owner_link m s)" "same_env s (os_task_mutex_owner_link m s)"
    by blast+
qed

lemma waiter_depart_current_kwf:
  assumes "kwf {} s"
  shows "kwf {} (os_task_mutex_waiter_depart s)" "same_env s (os_task_mutex_waiter_depart s)"
  using waiter_depart_kwf [OF unlink_ok_os assms detached_ok_empty] assms
  by (auto simp: os_task_mutex_waiter_depart_def os_task_mutex_waiter_depart_tcb_def split: option.split)

lemma priority_inherit_kwf:
  assumes k: "kwf {} s"
  shows "kwf {} (os_task_mutex_priority_inherit i s)" "same_env s (os_task_mutex_priority_inherit i s)"
proof -
  have "kwf {} (os_task_mutex_priority_inherit i s) \<and> same_env s (os_task_mutex_priority_inherit i s)"
  proof (cases "\<exists>cur owner. current s (this_core s) = Some cur \<and> os_task_find_by_id i s = Some owner")
    case True
    then obtain cur owner where c: "current s (this_core s) = Some cur"
      "os_task_find_by_id i s = Some owner" by blast
    let ?s1 = "upd_tcb cur (\<lambda>x. x\<lparr>pi_owner_id := i\<rparr>) s"
    let ?s2 = "os_task_effective_priority_set owner (priority (tcb_of ?s1 cur)) ?s1"
    have k1: "kwf {} ?s1" using k by (simp add: kwf_upd_tcb_view)
    have p: "priority (tcb_of ?s1 cur) \<le> 31" by (rule kwf_priority [OF k1])
    have o1: "is_slot owner" by (rule find_by_id_SomeD(1) [OF c(2)])
    have k2: "kwf {} ?s2" and e2: "prio_step ?s1 ?s2"
      unfolding os_task_effective_priority_set_def
      using kwf_effective_priority_set [OF unlink_ok_os k1 o1 p]
        kwf_prio_step [OF unlink_ok_os k1] by simp_all
    have r: "kwf {} (os_task_mutex_priority_recompute (os_task_find_by_id j ?s2) ?s2)"
      "prio_step ?s2 (os_task_mutex_priority_recompute (os_task_find_by_id j ?s2) ?s2)" for j
      by (rule mutex_recompute_step [OF k2], erule find_by_id_SomeD)+
    have "same_env s ?s1" by simp
    then have "same_env s ?s2" "\<And>j. same_env s (os_task_mutex_priority_recompute (os_task_find_by_id j ?s2) ?s2)"
      using prio_step_env [OF e2] prio_step_env [OF r(2)] same_env_trans by blast+
    then show ?thesis using c k1 k2 r
      by (auto simp: os_task_mutex_priority_inherit_def Let_def split: option.split)
  next
    case False
    then have "os_task_mutex_priority_inherit i s = s"
      by (auto simp: os_task_mutex_priority_inherit_def split: option.splits)
    then show ?thesis using k by simp
  qed
  then show "kwf {} (os_task_mutex_priority_inherit i s)" "same_env s (os_task_mutex_priority_inherit i s)"
    by blast+
qed

section \<open>Ownership\<close>

text \<open>
  A mutex is in a task's list of held mutexes exactly when it is locked and its owner id resolves
  to that task. Two tasks can therefore never hold the same mutex.
\<close>

definition mutex_wf :: "kstate \<Rightarrow> bool" where
  "mutex_wf s \<longleftrightarrow>
     (\<forall>t m. m \<in> set (owned_mutexes (tcb_of s t)) \<longleftrightarrow>
        locked (mutexes s m) \<and> os_task_find_by_id (owner_id (mutexes s m)) s = Some t) \<and>
     (\<forall>t. distinct (owned_mutexes (tcb_of s t)))"

text \<open>What the ownership invariant reads.\<close>

definition owners_kept :: "kstate \<Rightarrow> kstate \<Rightarrow> bool" where
  "owners_kept s s' \<longleftrightarrow> mutexes s' = mutexes s \<and>
     (\<forall>t. owned_mutexes (tcb_of s' t) = owned_mutexes (tcb_of s t) \<and>
          task_id (tcb_of s' t) = task_id (tcb_of s t)) \<and>
     (\<forall>i. os_task_find_by_id i s' = os_task_find_by_id i s)"

lemma owners_kept_wf:
  assumes "owners_kept s s'"
  shows "mutex_wf s' = mutex_wf s" "names_wf s' = names_wf s"
  using assms by (simp_all add: owners_kept_def mutex_wf_def names_wf_def)

lemma owners_kept_refl [simp]: "owners_kept s s"
  by (simp add: owners_kept_def)

lemma owners_kept_trans: "owners_kept s s' \<Longrightarrow> owners_kept s' s'' \<Longrightarrow> owners_kept s s''"
  by (simp add: owners_kept_def)

lemma owners_kept_step:
  assumes "prio_step s s'"
  shows "owners_kept s s'"
proof -
  have "names_kept s s'"
    using assms by (simp add: names_kept_def prio_step_fields prio_stepD)
  then have "os_task_find_by_id i s' = os_task_find_by_id i s" for i by (rule find_by_id_kept)
  then show ?thesis using assms by (simp add: owners_kept_def prio_step_fields prio_stepD)
qed

lemma owners_kept_upd_tcb:
  assumes "owners_kept s s'" "\<And>x. owned_mutexes (f x) = owned_mutexes x" "\<And>x. task_id (f x) = task_id x"
    "task_state (f (tcb_of s' t)) = OS_TASK_STATE_INACTIVE \<longleftrightarrow>
     task_state (tcb_of s' t) = OS_TASK_STATE_INACTIVE"
  shows "owners_kept s (upd_tcb t f s')"
proof -
  have "os_task_find_by_id i (upd_tcb t f s') = os_task_find_by_id i s'" for i
    using assms by (auto simp: os_task_find_by_id_def Let_def)
  then show ?thesis using assms by (simp add: owners_kept_def)
qed

lemma owners_kept_wait_end_locked: "owners_kept s (os_task_wait_end_locked s)"
  by (auto simp: os_task_wait_end_locked_def owners_kept_upd_tcb split: option.split)

lemma owners_kept_wait_end: "owners_kept s (os_task_wait_end s)"
  by (simp add: os_task_wait_end_def owners_kept_wait_end_locked)

lemma owners_kept_unlinked:
  assumes "unlinked t s s'"
  shows "owners_kept s s'"
proof -
  have n: "names_kept s s'" by (rule names_kept_unlinked [OF assms])
  have "owned_mutexes (tcb_of s' x) = owned_mutexes (tcb_of s x)" for x
    using assms strip_tcb_fields(4) [OF others_keptD [of t s s' x]]
    by (cases "x = t") (auto simp: unlinked_def)
  then show ?thesis using n find_by_id_kept [OF n] assms
    by (simp add: owners_kept_def names_kept_def unlinked_def same_env_def)
qed

lemma owners_kept_requests [simp]:
  "owners_kept s (os_task_preempt_request t s') = owners_kept s s'"
  "owners_kept s (os_task_switch_request s') = owners_kept s s'"
  by (simp_all add: owners_kept_def os_task_find_by_id_def Let_def)

lemma make_ready_owners:
  assumes "owners_kept s s'" "task_state (tcb_of s' t) \<noteq> OS_TASK_STATE_INACTIVE"
  shows "owners_kept s (os_task_make_ready t s')"
proof -
  have "names_kept s' (os_task_make_ready t s')"
    using assms(2) by (simp add: names_kept_def os_task_make_ready_def Let_def)
  then have "os_task_find_by_id i (os_task_make_ready t s') = os_task_find_by_id i s'" for i
    by (rule find_by_id_kept)
  then show ?thesis using assms(1) by (simp add: owners_kept_def os_task_make_ready_def Let_def)
qed

lemma signal_and_ready_owners:
  assumes k: "kwf {} s" and t: "is_slot t" "task_state (tcb_of s t) = OS_TASK_STATE_BLOCKED"
    and f: "\<And>x. task_id (f x) = task_id x" "\<And>x. owned_mutexes (f x) = owned_mutexes x"
      "\<And>x. task_state (f x) = task_state x"
  shows "owners_kept s (signal_and_ready t f s)"
proof -
  have u: "unlinked t s (os_task_unlink t s)" using os_task_unlink_kwf [OF k t(1)] by simp
  have "owners_kept s (upd_tcb t (\<lambda>x. f (x\<lparr>wait_signaled := True\<rparr>)) (os_task_unlink t s))"
    using owners_kept_unlinked [OF u] f by (intro owners_kept_upd_tcb) simp_all
  then show ?thesis using u t(2) f
    by (auto simp: signal_and_ready_def Let_def unlinked_def intro!: make_ready_owners)
qed

lemma wake_one_owners:
  assumes k: "kwf {} s"
  shows "owners_kept s (snd (os_task_waiters_wake_one w s))"
proof (cases "wlist s w")
  case (Cons t ts)
  then have "wait_list (tcb_of s t) = Some w" using kwf_wait_iff [OF k, of t w] by simp
  then show ?thesis using kwf_waiting [OF k] signal_and_ready_owners [OF k] Cons
    by (simp add: os_task_waiters_wake_one_def)
qed (simp add: os_task_waiters_wake_one_def)

lemma waiter_depart_owners:
  assumes "kwf {} s"
  shows "owners_kept s (os_task_mutex_waiter_depart s)"
proof -
  have "owners_kept s (os_task_mutex_waiter_depart_tcb t s)" for t
  proof -
    let ?s1 = "upd_tcb t (\<lambda>x. x\<lparr>pi_owner_id := 0, blocked_on_mutex := None, blocked_forever := False\<rparr>) s"
    have k1: "kwf {} ?s1" using assms by (simp add: kwf_upd_tcb_view)
    have "prio_step ?s1 (priority_recompute os_task_unlink (os_task_find_by_id j ?s1) ?s1)" for j
      by (rule priority_recompute_kwf(2) [OF unlink_ok_os k1 find_by_id_SomeD(1) detached_ok_empty])
    then have "owners_kept ?s1 (priority_recompute os_task_unlink (os_task_find_by_id j ?s1) ?s1)" for j
      by (rule owners_kept_step)
    moreover have "owners_kept s ?s1" by (rule owners_kept_upd_tcb) simp_all
    ultimately show ?thesis
      using owners_kept_trans
      by (auto simp: os_task_mutex_waiter_depart_tcb_def waiter_depart_tcb_def Let_def)
  qed
  then show ?thesis by (simp add: os_task_mutex_waiter_depart_def split: option.split)
qed

lemma priority_inherit_owners:
  assumes k: "kwf {} s"
  shows "owners_kept s (os_task_mutex_priority_inherit i s)"
    "task_state (tcb_of (os_task_mutex_priority_inherit i s) x) = task_state (tcb_of s x)"
proof -
  have "owners_kept s (os_task_mutex_priority_inherit i s) \<and>
    (\<forall>x. task_state (tcb_of (os_task_mutex_priority_inherit i s) x) = task_state (tcb_of s x))"
  proof (cases "\<exists>cur owner. current s (this_core s) = Some cur \<and> os_task_find_by_id i s = Some owner")
    case True
    then obtain cur owner where c: "current s (this_core s) = Some cur"
      "os_task_find_by_id i s = Some owner" by blast
    let ?s1 = "upd_tcb cur (\<lambda>x. x\<lparr>pi_owner_id := i\<rparr>) s"
    let ?s2 = "os_task_effective_priority_set owner (priority (tcb_of ?s1 cur)) ?s1"
    have k1: "kwf {} ?s1" using k by (simp add: kwf_upd_tcb_view)
    have o1: "is_slot owner" by (rule find_by_id_SomeD(1) [OF c(2)])
    have p: "priority (tcb_of ?s1 cur) \<le> 31" by (rule kwf_priority [OF k1])
    have k2: "kwf {} ?s2" and e2: "prio_step ?s1 ?s2"
      unfolding os_task_effective_priority_set_def
      using kwf_effective_priority_set [OF unlink_ok_os k1 o1 p]
        kwf_prio_step [OF unlink_ok_os k1] by simp_all
    have r: "prio_step ?s2 (os_task_mutex_priority_recompute (os_task_find_by_id j ?s2) ?s2)" for j
      by (rule mutex_recompute_step [OF k2], erule find_by_id_SomeD)
    have o0: "owners_kept s ?s1" by (rule owners_kept_upd_tcb) simp_all
    have s1: "\<forall>x. task_state (tcb_of ?s1 x) = task_state (tcb_of s x)" by simp
    note o2 = owners_kept_trans [OF o0 owners_kept_step [OF e2]]
    note o3 = owners_kept_trans [OF o2 owners_kept_step [OF r]]
    have "\<exists>s'. os_task_mutex_priority_inherit i s = s' \<and> owners_kept s s' \<and>
        (\<forall>x. task_state (tcb_of s' x) = task_state (tcb_of ?s1 x))"
    proof (cases "priority (tcb_of ?s1 cur) > priority (tcb_of ?s1 owner)")
      case lift: True
      show ?thesis
      proof (cases "blocked_on_mutex (tcb_of ?s2 owner)")
        case None
        then show ?thesis using lift c o2 prio_step_fields(1) [OF e2]
          by (intro exI [of _ ?s2]) (auto simp: os_task_mutex_priority_inherit_def Let_def)
      next
        case (Some m)
        let ?s3 = "os_task_mutex_priority_recompute (os_task_find_by_id (owner_id (mutexes ?s2 m)) ?s2) ?s2"
        show ?thesis using lift c o3 Some prio_step_fields(1) [OF e2] prio_step_fields(1) [OF r]
          by (intro exI [of _ ?s3]) (auto simp: os_task_mutex_priority_inherit_def Let_def)
      qed
    next
      case False
      then show ?thesis using c o0
        by (intro exI [of _ ?s1]) (auto simp: os_task_mutex_priority_inherit_def Let_def)
    qed
    then show ?thesis using s1 by auto
  next
    case False
    then have "os_task_mutex_priority_inherit i s = s"
      by (auto simp: os_task_mutex_priority_inherit_def split: option.splits)
    then show ?thesis by simp
  qed
  then show "owners_kept s (os_task_mutex_priority_inherit i s)"
    "task_state (tcb_of (os_task_mutex_priority_inherit i s) x) = task_state (tcb_of s x)" by blast+
qed

lemma blocked_on_set_simps:
  "owners_kept s (os_task_mutex_blocked_on_set m f s)"
  "task_state (tcb_of (os_task_mutex_blocked_on_set m f s) x) = task_state (tcb_of s x)"
  "kwf D (os_task_mutex_blocked_on_set m f s) = kwf D s"
  "same_env s (os_task_mutex_blocked_on_set m f s)"
  by (auto simp: os_task_mutex_blocked_on_set_def owners_kept_upd_tcb kwf_upd_tcb_view
      split: option.split)

lemma wait_begin_owners:
  assumes d: "dispatched s" and b: "os_internal_can_block s"
  shows "owners_kept s (os_task_wait_begin w r s)"
proof (cases "\<exists>t. current s (this_core s) = Some t \<and> t \<noteq> Idle (this_core s)")
  case True
  then obtain t where t: "current s (this_core s) = Some t" "t \<noteq> Idle (this_core s)" by blast
  then have st: "task_state (tcb_of s t) = OS_TASK_STATE_RUNNING"
    using dispatched_caller [OF d b] by (simp add: caller_def)
  let ?s2 = "upd_tcb t (\<lambda>x. x\<lparr>wait_list := Some w, wait_signaled := False, woken_from := None,
    delay_ticks := r, task_state := OS_TASK_STATE_BLOCKED\<rparr>) (os_task_wait_node_insert w t s)"
  have "owners_kept s (os_task_wait_node_insert w t s)"
    by (simp add: owners_kept_def os_task_wait_node_insert_def os_task_find_by_id_def Let_def)
  then have o2: "owners_kept s ?s2"
    by (rule owners_kept_upd_tcb) (simp_all add: st os_task_wait_node_insert_def)
  have n: "owners_kept ?s2 (os_task_delay_insert t r ?s2)"
  proof -
    have "names_kept ?s2 (os_task_delay_insert t r ?s2)"
      by (simp add: names_kept_def os_task_delay_insert_def split_beta)
    then show ?thesis using find_by_id_kept
      by (simp add: owners_kept_def os_task_delay_insert_def split_beta)
  qed
  have "owners_kept s (os_tickless_deadline_armed s') = owners_kept s s'" for s'
    by (simp add: owners_kept_def os_tickless_deadline_armed_def Let_def os_task_find_by_id_def)
  then show ?thesis using t o2 owners_kept_trans [OF o2 n]
    by (cases "r = OS_WAIT_FOREVER") (simp_all add: os_task_wait_begin_def Let_def)
next
  case False
  then have "os_task_wait_begin w r s = s"
    by (auto simp: os_task_wait_begin_def split: option.split)
  then show ?thesis by simp
qed

section \<open>Taking the mutex\<close>

lemma can_block_env: "same_env s s' \<Longrightarrow> os_internal_can_block s' = os_internal_can_block s"
  by (simp add: same_env_def os_internal_can_block_def)

lemma mutex_acquire:
  assumes k: "kwf {} s" and n: "names_wf s" and w: "mutex_wf s"
    and free: "\<not> locked (mutexes s m)" and self: "self_id = os_task_current_id_get s"
  defines "s' \<equiv> os_task_wait_end_locked
      (os_task_mutex_owner_link m (set_mutex m \<lparr>locked = True, owner_id = self_id\<rparr> s))"
  shows "kwf {} s'" "names_wf s'" "mutex_wf s'" "mutexes s' m = \<lparr>locked = True, owner_id = self_id\<rparr>"
    "current s (this_core s) = Some t \<Longrightarrow> self_id \<noteq> 0 \<Longrightarrow> m \<in> set (owned_mutexes (tcb_of s' t))"
proof -
  let ?s1 = "set_mutex m \<lparr>locked = True, owner_id = self_id\<rparr> s"
  let ?s2 = "os_task_mutex_owner_link m ?s1"
  have k1: "kwf {} ?s1" and n1: "names_wf ?s1" using k n by (simp_all add: names_wf_def)
  note l = owner_link_kwf [OF k1 n1]
  have fresh: "m \<notin> set (owned_mutexes (tcb_of s t))" for t
    using w free by (auto simp: mutex_wf_def)
  have "names_wf ?s2 \<and> mutex_wf ?s2 \<and> mutexes ?s2 m = \<lparr>locked = True, owner_id = self_id\<rparr> \<and>
    (\<forall>t. current s (this_core s) = Some t \<longrightarrow> self_id \<noteq> 0 \<longrightarrow> m \<in> set (owned_mutexes (tcb_of ?s2 t)))"
  proof (cases "self_id = 0")
    case True
    then have e: "?s2 = ?s1"
      using self by (auto simp: os_task_mutex_owner_link_def os_task_current_id_get_def Let_def
          split: option.splits)
    have "os_task_find_by_id 0 s = None" by (simp add: os_task_find_by_id_def)
    then show ?thesis unfolding e using n w fresh True
      by (auto simp: names_wf_def mutex_wf_def)
  next
    case False
    then obtain t where t: "current s (this_core s) = Some t" "task_id (tcb_of s t) = self_id"
      using self by (auto simp: os_task_current_id_get_def split: option.splits)
    let ?u = "upd_tcb t (\<lambda>x. x\<lparr>owned_mutexes := owned_mutexes x @ [m]\<rparr>) ?s1"
    have find: "os_task_find_by_id i ?u = os_task_find_by_id i s" for i
      by (auto simp: os_task_find_by_id_def Let_def)
    have cur: "os_task_find_by_id self_id s = Some t" using n t False by (auto simp: names_wf_def)
    have "x \<in> set (owned_mutexes (tcb_of ?u t')) \<longleftrightarrow>
        locked (mutexes ?u x) \<and> os_task_find_by_id (owner_id (mutexes ?u x)) ?u = Some t'" for t' x
      using w cur fresh [of t'] unfolding find by (auto simp: mutex_wf_def)
    moreover have "distinct (owned_mutexes (tcb_of ?u t'))" for t'
      using w fresh [of t'] by (auto simp: mutex_wf_def)
    ultimately have mu: "mutex_wf ?u" by (simp add: mutex_wf_def)
    have nu: "names_wf ?u" using n unfolding names_wf_def find by simp
    have ku: "kwf {} ?u" using k1 by (simp add: kwf_upd_tcb_view)
    have "is_slot t" using current_slot [OF n] t False by simp
    then have st: "prio_step ?u (os_task_mutex_priority_recompute (Some t) ?u)"
      using mutex_recompute_step [OF ku, of "Some t"] by simp
    have o2: "owners_kept ?u ?s2"
      using t False owners_kept_step [OF st] by (simp add: os_task_mutex_owner_link_def Let_def)
    show ?thesis
      using owners_kept_wf [OF o2] mu nu o2 t by (simp add: owners_kept_def)
  qed
  moreover have "owners_kept ?s2 s'" unfolding s'_def by (rule owners_kept_wait_end_locked)
  ultimately show "names_wf s'" "mutex_wf s'" "mutexes s' m = \<lparr>locked = True, owner_id = self_id\<rparr>"
    "current s (this_core s) = Some t \<Longrightarrow> self_id \<noteq> 0 \<Longrightarrow> m \<in> set (owned_mutexes (tcb_of s' t))"
    using owners_kept_wf [of ?s2 s'] by (auto simp: owners_kept_def)
  show "kwf {} s'" unfolding s'_def by (rule os_task_wait_end_locked_kwf(1) [OF l(1)])
qed

text \<open>Every pass of the lock loop keeps all three invariants.\<close>

definition mutex_sound :: "kstate \<times> unit \<Rightarrow> bool" where
  "mutex_sound = (\<lambda>(s, u). kwf {} s \<and> names_wf s \<and> mutex_wf s)"

definition mutex_ready :: "u32 \<Rightarrow> kstate \<times> unit \<Rightarrow> bool" where
  "mutex_ready self_id = (\<lambda>(s, u). dispatched s \<and> names_wf s \<and> mutex_wf s \<and>
     self_id = os_task_current_id_get s)"

definition mutex_post :: "nat \<Rightarrow> u32 \<Rightarrow> os_err_t \<Rightarrow> kstate \<times> unit \<Rightarrow> bool" where
  "mutex_post m self_id e = (\<lambda>(s, u).
     e \<in> {OS_ERR_NONE, OS_ERR_BUSY, OS_ERR_TIMEOUT} \<and>
     (e = OS_ERR_NONE \<longrightarrow> mutexes s m = \<lparr>locked = True, owner_id = self_id\<rparr>))"

lemma mutex_depart_sound:
  assumes "kwf {} s" "names_wf s" "mutex_wf s"
  shows "mutex_sound (os_task_wait_end_locked (os_task_mutex_waiter_depart s), u)"
proof -
  have "owners_kept s (os_task_wait_end_locked (os_task_mutex_waiter_depart s))"
    using owners_kept_trans waiter_depart_owners [OF assms(1)] owners_kept_wait_end_locked by blast
  then show ?thesis
    using owners_kept_wf os_task_wait_end_locked_kwf(1) waiter_depart_current_kwf(1) assms
    by (auto simp: mutex_sound_def)
qed

lemma mutex_block_sound:
  assumes d: "dispatched s" and n: "names_wf s" "mutex_wf s" and b: "os_internal_can_block s"
  shows "mutex_sound (os_task_wait_begin w r
      (os_task_mutex_blocked_on_set m f (os_task_mutex_priority_inherit i s)), u)"
proof -
  let ?s1 = "os_task_mutex_priority_inherit i s"
  let ?s2 = "os_task_mutex_blocked_on_set m f ?s1"
  have k: "kwf {} s" by (rule dispatched_kwf [OF d])
  note p = priority_inherit_kwf [OF k, of i] priority_inherit_owners [OF k, of i]
  have e2: "same_env s ?s2" using same_env_trans [OF p(2)] blocked_on_set_simps(4) by blast
  have st: "task_state (tcb_of ?s2 x) = task_state (tcb_of s x)" for x
    using p(4) by (simp add: blocked_on_set_simps)
  have b2: "os_internal_can_block ?s2" using can_block_env [OF e2] b by simp
  have d2: "dispatched ?s2"
    using d p(1) b2 b same_envD [OF e2] by (simp add: dispatched_def blocked_on_set_simps p(4))
  have "owners_kept s (os_task_wait_begin w r ?s2)"
    using owners_kept_trans p(3) blocked_on_set_simps(1) wait_begin_owners [OF d2 b2] by metis
  then show ?thesis
    using owners_kept_wf wait_begin_dispatched(1) [OF d2 b2] n by (auto simp: mutex_sound_def)
qed

interpretation mutex_call: blocking_call
  "mutex_attempt m ms self_id" mutex_expired "mutex_ready self_id" mutex_sound "mutex_post m self_id"
  for m ms self_id
proof
  fix st st' :: "kstate \<times> unit" and r e
  assume rd: "mutex_ready self_id st"
  obtain s u where st: "st = (s, u)" by (cases st)
  then have d: "dispatched s" "names_wf s" "mutex_wf s" "self_id = os_task_current_id_get s"
    using rd by (auto simp: mutex_ready_def)
  note k = dispatched_kwf [OF d(1)]
  note dep = mutex_depart_sound [OF k d(2,3)]
  { assume a: "mutex_attempt m ms self_id r st = (Done e, st')"
    show "mutex_sound st' \<and> mutex_post m self_id e st'"
    proof (cases "locked (mutexes s m)")
      case True
      then show ?thesis using a st dep
        by (auto simp: mutex_attempt_def Let_def mutex_post_def split: if_splits)
    next
      case False
      then show ?thesis using a st mutex_acquire [OF k d(2,3) False d(4)]
        by (auto simp: mutex_attempt_def Let_def mutex_post_def mutex_sound_def)
    qed }
  { assume a: "mutex_attempt m ms self_id r st = (Wait, st')"
    then show "mutex_sound st' \<and> r \<noteq> 0"
      using st mutex_block_sound [OF d(1,2,3)]
      by (auto simp: mutex_attempt_def Let_def split: if_splits) }
  { assume "mutex_expired st = (e, st')"
    moreover have "owners_kept s (os_task_wait_end (os_task_mutex_waiter_depart s))"
      using owners_kept_trans waiter_depart_owners [OF k] owners_kept_wait_end by blast
    ultimately show "mutex_sound st' \<and> mutex_post m self_id e st'"
      using st owners_kept_wf os_task_wait_end_kwf(1) waiter_depart_current_kwf(1) [OF k] d
      by (auto simp: mutex_expired_def mutex_sound_def mutex_post_def) }
qed

section \<open>Releasing the mutex\<close>

lemma os_mutex_unlock_refused:
  "fst (os_mutex_unlock mutex s) \<noteq> OS_ERR_NONE \<Longrightarrow> snd (os_mutex_unlock mutex s) = s"
  by (auto simp: os_mutex_unlock_def Let_def split: option.splits if_splits)

lemma os_mutex_unlock_not_owner:
  "\<not> in_isr s \<Longrightarrow> locked (mutexes s m) \<Longrightarrow> owner_id (mutexes s m) \<noteq> 0 \<Longrightarrow>
   os_task_current_id_get s \<noteq> 0 \<Longrightarrow> owner_id (mutexes s m) \<noteq> os_task_current_id_get s \<Longrightarrow>
   fst (os_mutex_unlock (Some m) s) = OS_ERR_NOT_OWNER"
  by (simp add: os_mutex_unlock_def)

lemma find_by_id_owned [simp]:
  "os_task_find_by_id i (upd_tcb t (\<lambda>x. x\<lparr>owned_mutexes := f x\<rparr>) s) = os_task_find_by_id i s"
  by (auto simp: os_task_find_by_id_def Let_def)

lemma owner_unlink_step:
  assumes k: "kwf {} s"
  shows "kwf {} (os_task_mutex_owner_unlink_and_reprioritize i m s)"
    "owners_kept (case os_task_find_by_id i s of None \<Rightarrow> s
        | Some t \<Rightarrow> upd_tcb t (\<lambda>x. x\<lparr>owned_mutexes := remove1 m (owned_mutexes x)\<rparr>) s)
      (os_task_mutex_owner_unlink_and_reprioritize i m s)"
proof -
  have "kwf {} (os_task_mutex_owner_unlink_and_reprioritize i m s) \<and>
    owners_kept (case os_task_find_by_id i s of None \<Rightarrow> s
             | Some t \<Rightarrow> upd_tcb t (\<lambda>x. x\<lparr>owned_mutexes := remove1 m (owned_mutexes x)\<rparr>) s)
      (os_task_mutex_owner_unlink_and_reprioritize i m s)"
  proof (cases "os_task_find_by_id i s")
    case (Some t)
    let ?s1 = "upd_tcb t (\<lambda>x. x\<lparr>owned_mutexes := remove1 m (owned_mutexes x)\<rparr>) s"
    have k1: "kwf {} ?s1" using k by (simp add: kwf_upd_tcb_view)
    have r: "kwf {} (os_task_mutex_priority_recompute (Some t) ?s1)"
      "prio_step ?s1 (os_task_mutex_priority_recompute (Some t) ?s1)"
      using mutex_recompute_step [OF k1, of "Some t"] find_by_id_SomeD(1) [OF Some] by simp_all
    show ?thesis using Some k1 r owners_kept_step [OF r(2)]
      by (simp add: os_task_mutex_owner_unlink_and_reprioritize_def Let_def)
  qed (simp add: os_task_mutex_owner_unlink_and_reprioritize_def k)
  then show "kwf {} (os_task_mutex_owner_unlink_and_reprioritize i m s)"
    "owners_kept (case os_task_find_by_id i s of None \<Rightarrow> s
        | Some t \<Rightarrow> upd_tcb t (\<lambda>x. x\<lparr>owned_mutexes := remove1 m (owned_mutexes x)\<rparr>) s)
      (os_task_mutex_owner_unlink_and_reprioritize i m s)"
    by blast+
qed

lemma os_mutex_unlock_sound:
  assumes k: "kwf {} s" and n: "names_wf s" and w: "mutex_wf s"
  shows "mutex_sound (snd (os_mutex_unlock mutex s), u)"
proof (cases "fst (os_mutex_unlock mutex s) = OS_ERR_NONE")
  case True
  then obtain m where m: "mutex = Some m" "locked (mutexes s m)"
    by (auto simp: os_mutex_unlock_def Let_def split: option.splits if_splits)
  let ?i = "owner_id (mutexes s m)" and ?s1 = "set_mutex m \<lparr>locked = False, owner_id = 0\<rparr> s"
  let ?s2 = "os_task_mutex_owner_unlink_and_reprioritize ?i m ?s1"
  have e: "snd (os_mutex_unlock mutex s) = snd (os_task_waiters_wake_one (MutexWaiters m) ?s2)"
    using True m by (auto simp: os_mutex_unlock_def Let_def split: if_splits)
  have k1: "kwf {} ?s1" using k by simp
  let ?r = "case os_task_find_by_id ?i s of None \<Rightarrow> ?s1
    | Some t \<Rightarrow> upd_tcb t (\<lambda>x. x\<lparr>owned_mutexes := remove1 m (owned_mutexes x)\<rparr>) ?s1"
  have k2: "kwf {} ?s2" and o2: "owners_kept ?r ?s2" using owner_unlink_step [OF k1] by simp_all
  have find: "os_task_find_by_id i ?r = os_task_find_by_id i s" for i
    by (cases "os_task_find_by_id ?i s") simp_all
  have mut: "mutexes ?r = (mutexes s)(m := \<lparr>locked = False, owner_id = 0\<rparr>)"
    by (simp split: option.split)
  have mw: "m' \<in> set (owned_mutexes (tcb_of s t)) \<longleftrightarrow>
      locked (mutexes s m') \<and> os_task_find_by_id (owner_id (mutexes s m')) s = Some t"
    "distinct (owned_mutexes (tcb_of s t))" for m' t using w by (auto simp: mutex_wf_def)
  have own: "owned_mutexes (tcb_of ?r t) =
      (if os_task_find_by_id ?i s = Some t then remove1 m (owned_mutexes (tcb_of s t))
       else owned_mutexes (tcb_of s t))" for t
    by (auto split: option.split)
  have "m' \<in> set (owned_mutexes (tcb_of ?r t)) \<longleftrightarrow>
      m' \<noteq> m \<and> m' \<in> set (owned_mutexes (tcb_of s t))" for m' t
    unfolding own using mw(1) [of m t] mw(2) [of t] m(2) by auto
  moreover have "distinct (owned_mutexes (tcb_of ?r t))" for t
    unfolding own using mw(2) [of t] by simp
  ultimately have "mutex_wf ?r" unfolding mutex_wf_def find mut using mw(1) by simp
  moreover have "names_wf ?r"
  proof -
    have "task_id (tcb_of ?r t) = task_id (tcb_of s t)" for t by (simp split: option.split)
    then show ?thesis using n unfolding names_wf_def find by simp
  qed
  moreover have "owners_kept ?r (snd (os_mutex_unlock mutex s))"
    unfolding e by (rule owners_kept_trans [OF o2 wake_one_owners [OF k2]])
  ultimately show ?thesis
    using owners_kept_wf os_task_waiters_wake_one_kwf(1) [OF k2] e by (simp add: mutex_sound_def)
next
  case False
  then show ?thesis using assms by (simp add: os_mutex_unlock_refused mutex_sound_def)
qed

text \<open>A mutex that was released is free, and its first waiter is ready to take it.\<close>

lemma os_mutex_unlock_effect:
  assumes k: "kwf {} s" and ok: "fst (os_mutex_unlock (Some m) s) = OS_ERR_NONE"
  shows "mutexes (snd (os_mutex_unlock (Some m) s)) = (mutexes s)(m := \<lparr>locked = False, owner_id = 0\<rparr>)"
    "wlist s (MutexWaiters m) \<noteq> [] \<Longrightarrow>
       \<exists>h \<in> set (wlist s (MutexWaiters m)).
         task_state (tcb_of (snd (os_mutex_unlock (Some m) s)) h) = OS_TASK_STATE_READY \<and>
         set (wlist (snd (os_mutex_unlock (Some m) s)) (MutexWaiters m)) =
           set (wlist s (MutexWaiters m)) - {h}"
proof -
  let ?i = "owner_id (mutexes s m)" and ?s1 = "set_mutex m \<lparr>locked = False, owner_id = 0\<rparr> s"
  let ?s2 = "os_task_mutex_owner_unlink_and_reprioritize ?i m ?s1"
  have e: "snd (os_mutex_unlock (Some m) s) = snd (os_task_waiters_wake_one (MutexWaiters m) ?s2)"
    using ok by (auto simp: os_mutex_unlock_def Let_def split: if_splits)
  have k1: "kwf {} ?s1" using k by simp
  have k2: "kwf {} ?s2" by (rule owner_unlink_step(1) [OF k1])
  have "mutexes ?s2 = mutexes ?s1"
    using owner_unlink_step(2) [OF k1, of m ?i] by (auto simp: owners_kept_def split: option.splits)
  moreover have "mutexes (snd (os_task_waiters_wake_one (MutexWaiters m) ?s2)) = mutexes ?s2"
    by (rule same_envD(2) [OF os_task_waiters_wake_one_kwf(2) [OF k2]])
  ultimately show "mutexes (snd (os_mutex_unlock (Some m) s)) =
      (mutexes s)(m := \<lparr>locked = False, owner_id = 0\<rparr>)" by (simp add: e)
  have sets: "set (wlist ?s2 w) = set (wlist s w)" for w
  proof (cases "os_task_find_by_id ?i s")
    case (Some t)
    let ?u = "upd_tcb t (\<lambda>x. x\<lparr>owned_mutexes := remove1 m (owned_mutexes x)\<rparr>) ?s1"
    have "kwf {} ?u" using k1 by (simp add: kwf_upd_tcb_view)
    then have "prio_step ?u (os_task_mutex_priority_recompute (Some t) ?u)"
      using mutex_recompute_step(2) [of ?u "Some t"] find_by_id_SomeD(1) [OF Some] by simp
    then show ?thesis using Some prio_stepD(16) [of ?u _ w]
      by (simp add: os_task_mutex_owner_unlink_and_reprioritize_def Let_def)
  qed (simp add: os_task_mutex_owner_unlink_and_reprioritize_def)
  assume "wlist s (MutexWaiters m) \<noteq> []"
  then obtain h l where h: "wlist ?s2 (MutexWaiters m) = h # l"
    using sets [of "MutexWaiters m"] by (cases "wlist ?s2 (MutexWaiters m)") auto
  have slot: "is_slot h" using waiter_is_slot [OF k2, of h "MutexWaiters m"] h by simp
  let ?f = "\<lambda>x. x\<lparr>woken_from := Some (MutexWaiters m)\<rparr>"
  have e2: "snd (os_mutex_unlock (Some m) s) = signal_and_ready h ?f ?s2"
    by (simp add: e os_task_waiters_wake_one_def h)
  have "h \<in> set (wlist s (MutexWaiters m))" using h sets [of "MutexWaiters m"] by auto
  then show "\<exists>h \<in> set (wlist s (MutexWaiters m)).
         task_state (tcb_of (snd (os_mutex_unlock (Some m) s)) h) = OS_TASK_STATE_READY \<and>
         set (wlist (snd (os_mutex_unlock (Some m) s)) (MutexWaiters m)) =
           set (wlist s (MutexWaiters m)) - {h}"
    unfolding e2 using signal_and_ready_effect(3,5) [OF k2 slot, of ?f] sets
    by (intro bexI [of _ h]) simp_all
qed

section \<open>Priority inheritance\<close>

text \<open>
  \<open>held_priority\<close> reads only the head of each waiter list. Because the lists are sorted, what it
  returns bounds every waiter of every mutex in the list, and it is attained.
\<close>

lemma held_priority_ge: "p \<le> held_priority s ms p"
  by (induction s ms p rule: held_priority.induct) (fastforce split: list.splits)+

lemma Max_insert_Max:
  assumes "finite A" "A \<noteq> {}" "finite R"
  shows "Max (insert (Max A) R) = Max (A \<union> (R :: nat set))"
proof (cases "R = {}")
  case False
  then show ?thesis
    unfolding Max_insert [OF assms(3) False] Max_Un [OF assms(1,2) assms(3) False] by simp
qed simp

lemma held_priority_max:
  assumes "kwf D s"
  shows "held_priority s ms p =
     Max (insert p (\<Union>m \<in> set ms. (\<lambda>x. priority (tcb_of s x)) ` set (wlist s (MutexWaiters m))))"
proof (induction ms arbitrary: p)
  case (Cons m ms)
  let ?f = "\<lambda>x. priority (tcb_of s x)" and ?W = "\<lambda>m. set (wlist s (MutexWaiters m))"
  let ?q = "case wlist s (MutexWaiters m) of [] \<Rightarrow> p | h # _ \<Rightarrow> (if ?f h > p then ?f h else p)"
  have q: "?q = Max (insert p (?f ` ?W m))"
  proof (cases "wlist s (MutexWaiters m)")
    case (Cons h l)
    have "sorted_desc ?f (h # l)" using kwfD(4) [OF assms] Cons by (metis wait_wf_def)
    then have "\<forall>x \<in> set l. ?f x \<le> ?f h" by (simp add: sorted_desc_Cons)
    then have "Max (?f ` ?W m) = ?f h" using Cons by (intro Max_eqI) auto
    then show ?thesis using Cons by (simp add: max_def)
  qed simp
  let ?R = "\<Union>m \<in> set ms. ?f ` ?W m"
  have "held_priority s (m # ms) p = Max (insert ?q ?R)" using Cons.IH [of ?q] by simp
  also have "\<dots> = Max (insert p (?f ` ?W m) \<union> ?R)"
    unfolding q by (rule Max_insert_Max) simp_all
  finally show ?case by (simp add: Un_assoc)
qed simp

text \<open>The effective priority a recomputation gives to a task.\<close>

lemma effective_recompute_exact:
  assumes k: "kwf {} s" and t: "is_slot t"
  shows "priority (tcb_of (effective_recompute os_task_unlink t s) t) =
     Max (insert (base_priority (tcb_of s t))
       (\<Union>m \<in> set (owned_mutexes (tcb_of s t)).
          (\<lambda>x. priority (tcb_of s x)) ` set (wlist s (MutexWaiters m))))"
proof -
  have "held_priority s (owned_mutexes (tcb_of s t)) (base_priority (tcb_of s t)) \<le> 31"
    by (rule held_priority_bound [OF k kwf_base_priority [OF k]])
  then have "priority (tcb_of (effective_recompute os_task_unlink t s) t) =
      held_priority s (owned_mutexes (tcb_of s t)) (base_priority (tcb_of s t))"
    unfolding effective_recompute_def
    using effective_priority_set_priority [OF unlink_ok_os k t] by simp
  then show ?thesis by (simp only: held_priority_max [OF k])
qed

text \<open>The owner of a mutex someone starts to wait for is at least as urgent as that task.\<close>

lemma priority_inherit_lifts:
  assumes k: "kwf {} s" and c: "current s (this_core s) = Some cur"
    and o1: "os_task_find_by_id i s = Some owner" and ne: "owner \<noteq> cur"
    and b: "blocked_on_mutex (tcb_of s owner) = None"
  shows "priority (tcb_of (os_task_mutex_priority_inherit i s) owner) =
     max (priority (tcb_of s owner)) (priority (tcb_of s cur))"
proof -
  let ?s1 = "upd_tcb cur (\<lambda>x. x\<lparr>pi_owner_id := i\<rparr>) s"
  let ?p = "priority (tcb_of ?s1 cur)"
  let ?s2 = "os_task_effective_priority_set owner ?p ?s1"
  have k1: "kwf {} ?s1" using k by (simp add: kwf_upd_tcb_view)
  have p: "?p \<le> 31" by (rule kwf_priority [OF k1])
  have slot: "is_slot owner" by (rule find_by_id_SomeD(1) [OF o1])
  have pr: "priority (tcb_of ?s2 owner) = ?p"
    unfolding os_task_effective_priority_set_def
    by (rule effective_priority_set_priority [OF unlink_ok_os k1 slot p detached_ok_empty])
  have "prio_step ?s1 ?s2"
    unfolding os_task_effective_priority_set_def by (rule kwf_prio_step [OF unlink_ok_os k1])
  then have "blocked_on_mutex (tcb_of ?s2 owner) = None"
    using b ne prio_step_fields(7) [of ?s1 ?s2 owner] by simp
  then show ?thesis
    using pr c o1 ne by (simp add: os_task_mutex_priority_inherit_def Let_def max_def)
qed

text \<open>
  Unlocking a mutex that had waiters brings its owner back to exactly what it still deserves: its
  base priority, or the most urgent waiter of a mutex it keeps.
\<close>

lemma owner_unlink_exact:
  assumes k: "kwf {} s" and o1: "os_task_find_by_id i s = Some t"
    and w: "wlist s (MutexWaiters m) \<noteq> []" and b: "blocked_on_mutex (tcb_of s t) = None"
    and d: "distinct (owned_mutexes (tcb_of s t))"
  shows "priority (tcb_of (os_task_mutex_owner_unlink_and_reprioritize i m s) t) =
     Max (insert (base_priority (tcb_of s t))
       (\<Union>m' \<in> set (owned_mutexes (tcb_of s t)) - {m}.
          (\<lambda>x. priority (tcb_of s x)) ` set (wlist s (MutexWaiters m'))))"
proof -
  let ?s1 = "upd_tcb t (\<lambda>x. x\<lparr>owned_mutexes := remove1 m (owned_mutexes x)\<rparr>) s"
  let ?s2 = "effective_recompute os_task_unlink t ?s1"
  have k1: "kwf {} ?s1" using k by (simp add: kwf_upd_tcb_view)
  have slot: "is_slot t" by (rule find_by_id_SomeD(1) [OF o1])
  have "prio_step ?s1 ?s2"
    unfolding effective_recompute_def by (rule kwf_prio_step [OF unlink_ok_os k1])
  then have "blocked_on_mutex (tcb_of ?s2 t) = None" using b prio_step_fields(7) [of ?s1 ?s2 t] by simp
  then have "os_task_mutex_owner_unlink_and_reprioritize i m s = ?s2"
    using o1 w
    by (simp add: os_task_mutex_owner_unlink_and_reprioritize_def Let_def
        os_task_mutex_priority_recompute_def priority_recompute_def OS_TASK_DEADLOCK_MAX_DEPTH_def
        numeral_nat)
  moreover have pr: "(\<lambda>x. priority (tcb_of ?s1 x)) = (\<lambda>x. priority (tcb_of s x))"
    by (simp add: fun_eq_iff)
  ultimately show ?thesis
    using effective_recompute_exact [OF k1 slot, unfolded pr] d by simp
qed

section \<open>Deadlock detection\<close>

text \<open>The owner reached after a number of hops along waits that will never time out.\<close>

primrec owner_after :: "kstate \<Rightarrow> nat \<Rightarrow> nat \<Rightarrow> tref option" where
  "owner_after s m 0 = os_task_find_by_id (owner_id (mutexes s m)) s"
| "owner_after s m (Suc k) =
     (case owner_after s m k of
        None \<Rightarrow> None
      | Some t \<Rightarrow>
          if blocked_forever (tcb_of s t) then
            (case blocked_on_mutex (tcb_of s t) of
               None \<Rightarrow> None | Some m' \<Rightarrow> os_task_find_by_id (owner_id (mutexes s m')) s)
          else None)"

lemma owner_after_shift:
  assumes "owner_after s m 0 = Some t" "blocked_forever (tcb_of s t)" "blocked_on_mutex (tcb_of s t) = Some m'"
  shows "owner_after s m (Suc k) = owner_after s m' k"
  using assms by (induction k) simp_all

lemma owner_after_stuck:
  assumes "owner_after s m 0 = Some t" "\<not> (blocked_forever (tcb_of s t) \<and> blocked_on_mutex (tcb_of s t) \<noteq> None)"
  shows "owner_after s m (Suc k) = None"
  using assms by (induction k) auto

lemma owner_after_none: "owner_after s m 0 = None \<Longrightarrow> owner_after s m k = None"
  by (induction k) auto

lemma deadlock_walk_None [simp]: "\<not> deadlock_walk n cur None s"
  by (cases n) simp_all

lemma deadlock_walk_iff:
  "deadlock_walk n cur (Some m) s \<longleftrightarrow> (\<exists>k < n. owner_after s m k = Some cur)"
proof (induction n arbitrary: m)
  case (Suc n)
  have ex: "(\<exists>k < Suc n. P k) \<longleftrightarrow> P 0 \<or> (\<exists>k < n. P (Suc k))" for P by (rule Ex_less_Suc2)
  show ?case
  proof (cases "owner_after s m 0")
    case None
    then show ?thesis using owner_after_none [OF None] by simp
  next
    case (Some t)
    show ?thesis
    proof (cases "blocked_forever (tcb_of s t) \<and> blocked_on_mutex (tcb_of s t) \<noteq> None")
      case True
      then obtain m' where m': "blocked_on_mutex (tcb_of s t) = Some m'" by auto
      then show ?thesis
        unfolding ex using True Some Suc.IH [of m'] owner_after_shift [OF Some _ m'] by auto
    next
      case False
      then show ?thesis
        unfolding ex using Some owner_after_stuck [OF Some False] by auto
    qed
  qed
qed simp

lemma os_task_mutex_deadlock_check_iff:
  assumes "current s (this_core s) = Some cur"
  shows "os_task_mutex_deadlock_check m s \<longleftrightarrow> (\<exists>k < 8. owner_after s m k = Some cur)"
  by (simp add: os_task_mutex_deadlock_check_def assms deadlock_walk_iff OS_TASK_DEADLOCK_MAX_DEPTH_def)

end
