(* ===== verification/Semaphore.thy ===== *)
theory Semaphore
  imports Waiting
begin

text \<open>
  Counting semaphores, \<^verbatim>\<open>kernel/os_sem.c\<close>. The waiter list embedded in the object is the list
  that the scheduler keeps under the name \<open>SemWaiters\<close> of the object.
\<close>

record os_sem_t =
  sem_ref :: nat
  sem_count :: u32
  sem_max :: u32

definition os_sem_init ::
  "os_sem_t option \<Rightarrow> u32 \<Rightarrow> u32 \<Rightarrow> kstate \<Rightarrow> os_err_t \<times> os_sem_t option \<times> kstate" where
  "os_sem_init sem initial_count max_count s =
     (case sem of
        None \<Rightarrow> (OS_ERR_INVALID_ARG, None, s)
      | Some o1 \<Rightarrow>
          if max_count \<noteq> 0 \<and> initial_count \<le> max_count then
            (if wlist s (SemWaiters (sem_ref o1)) \<noteq> [] then (OS_ERR_BUSY, sem, s)
             else (OS_ERR_NONE, Some (o1\<lparr>sem_count := initial_count, sem_max := max_count\<rparr>),
                   set_wlist (SemWaiters (sem_ref o1)) [] s))
          else (OS_ERR_INVALID_ARG, sem, s))"

definition os_sem_give :: "os_sem_t option \<Rightarrow> kstate \<Rightarrow> os_err_t \<times> os_sem_t option \<times> kstate" where
  "os_sem_give sem s =
     (case sem of
        None \<Rightarrow> (OS_ERR_INVALID_ARG, None, s)
      | Some o1 \<Rightarrow>
          if sem_count o1 \<ge> sem_max o1 then (OS_ERR_FULL, sem, s)
          else (OS_ERR_NONE, Some (o1\<lparr>sem_count := sem_count o1 + 1\<rparr>),
                snd (os_task_waiters_wake_one (SemWaiters (sem_ref o1)) s)))"

definition sem_attempt :: "u32 \<Rightarrow> u32 \<Rightarrow> kstate \<times> os_sem_t \<Rightarrow> outcome \<times> kstate \<times> os_sem_t" where
  "sem_attempt timeout_ms remaining =
     (\<lambda>(s, o1).
        if sem_count o1 > 0
        then (Done OS_ERR_NONE, os_task_wait_end_locked s, o1\<lparr>sem_count := sem_count o1 - 1\<rparr>)
        else if timeout_ms = OS_WAIT_NOTHING \<or> \<not> os_internal_can_block s
        then (Done OS_ERR_EMPTY, os_task_wait_end_locked s, o1)
        else if remaining = 0
        then (Done OS_ERR_TIMEOUT, os_task_wait_end_locked s, o1)
        else (Wait, os_task_wait_begin (SemWaiters (sem_ref o1)) remaining s, o1))"

definition sem_expired :: "kstate \<times> os_sem_t \<Rightarrow> os_err_t \<times> kstate \<times> os_sem_t" where
  "sem_expired = (\<lambda>(s, o1). (OS_ERR_TIMEOUT, os_task_wait_end s, o1))"

definition os_sem_take ::
  "nat \<Rightarrow> u32 \<Rightarrow> (nat \<Rightarrow> kstate \<times> os_sem_t \<Rightarrow> kstate \<times> os_sem_t) \<Rightarrow> os_sem_t option \<Rightarrow> u32 \<Rightarrow> kstate \<Rightarrow>
     (os_err_t \<times> kstate \<times> os_sem_t option) option" where
  "os_sem_take fuel hz env sem timeout_ms s =
     (case sem of
        None \<Rightarrow> Some (OS_ERR_INVALID_ARG, s, None)
      | Some o1 \<Rightarrow>
          let budget = os_internal_timeout_to_ticks hz timeout_ms in
          map_option (\<lambda>(e, s', o2). (e, s', Some o2))
            (wait_loop fuel (sem_attempt timeout_ms) sem_expired env budget
               (os_internal_wait_origin s) budget (s, o1)))"

section \<open>Correctness\<close>

definition sem_ok :: "os_sem_t \<Rightarrow> bool" where
  "sem_ok o1 \<longleftrightarrow> sem_count o1 \<le> sem_max o1"

lemma unat_dec: "(w :: u32) \<noteq> 0 \<Longrightarrow> unat w = unat (w - 1) + 1"
  using unat_sub_le [of 1 w] unat_gt_0 [of w] by (simp add: word_le_nat_alt)

lemma sem_attempt_count:
  assumes "sem_attempt ms r (s, o1) = (out, s', o2)"
  shows "sem_max o2 = sem_max o1" "sem_ref o2 = sem_ref o1"
    "out = Done OS_ERR_NONE \<Longrightarrow> unat (sem_count o1) = unat (sem_count o2) + 1"
    "out \<noteq> Done OS_ERR_NONE \<Longrightarrow> sem_count o2 = sem_count o1"
    "out \<noteq> Done OS_ERR_NONE \<Longrightarrow> sem_count o1 = 0"
  using assms unat_dec [of "sem_count o1"]
  by (auto simp: sem_attempt_def word_gt_0 split: if_splits)

lemma sem_attempt_kwf:
  assumes "dispatched s" "sem_attempt ms r (s, o1) = (out, s', o2)"
  shows "kwf {} s'" "same_env s s'"
  using assms dispatched_kwf [OF assms(1)] os_task_wait_end_locked_kwf(1) [of "{}" s]
    os_task_wait_end_locked_kwf(2) [of s]
    wait_begin_dispatched [OF assms(1)]
  by (auto simp: sem_attempt_def split: if_splits)

interpretation sem_call: blocking_call
  "sem_attempt ms" sem_expired
  "\<lambda>(s, o1). dispatched s \<and> sem_ok o1 \<and> sem_max o1 = m"
  "\<lambda>(s, o1). kwf {} s \<and> sem_ok o1 \<and> sem_max o1 = m"
  "\<lambda>e (s, o1). e \<in> {OS_ERR_NONE, OS_ERR_EMPTY, OS_ERR_TIMEOUT} \<and> (e = OS_ERR_NONE \<longrightarrow> sem_count o1 < m)"
  for ms m
proof
  fix st st' :: "kstate \<times> os_sem_t" and r e
  assume rd: "case st of (s, o1) \<Rightarrow> dispatched s \<and> sem_ok o1 \<and> sem_max o1 = m"
  obtain s o1 s' o2 where st: "st = (s, o1)" "st' = (s', o2)" by (cases st, cases st')
  then have d: "dispatched s" "sem_ok o1" "sem_max o1 = m" using rd by auto
  have dec: "sem_count o1 - 1 \<le> sem_max o1" "sem_count o1 - 1 < sem_max o1" if "sem_count o1 \<noteq> 0"
    using d(2) unat_dec [OF that] by (simp_all add: sem_ok_def word_le_nat_alt word_less_nat_alt)
  { assume a: "sem_attempt ms r st = (Done e, st')"
    show "(case st' of (s, o1) \<Rightarrow> kwf {} s \<and> sem_ok o1 \<and> sem_max o1 = m) \<and>
          (case st' of (s, o1) \<Rightarrow> e \<in> {OS_ERR_NONE, OS_ERR_EMPTY, OS_ERR_TIMEOUT} \<and>
             (e = OS_ERR_NONE \<longrightarrow> sem_count o1 < m))"
      using sem_attempt_kwf [OF d(1)] a st d dec
      by (auto simp: sem_attempt_def sem_ok_def split: if_splits) }
  { assume a: "sem_attempt ms r st = (Wait, st')"
    show "(case st' of (s, o1) \<Rightarrow> kwf {} s \<and> sem_ok o1 \<and> sem_max o1 = m) \<and> r \<noteq> 0"
      using sem_attempt_kwf [OF d(1)] a st d
      by (auto simp: sem_attempt_def sem_ok_def split: if_splits) }
  { assume "sem_expired st = (e, st')"
    then show "(case st' of (s, o1) \<Rightarrow> kwf {} s \<and> sem_ok o1 \<and> sem_max o1 = m) \<and>
          (case st' of (s, o1) \<Rightarrow> e \<in> {OS_ERR_NONE, OS_ERR_EMPTY, OS_ERR_TIMEOUT} \<and>
             (e = OS_ERR_NONE \<longrightarrow> sem_count o1 < m))"
      using os_task_wait_end_kwf dispatched_kwf [OF d(1)] st d by (auto simp: sem_expired_def) }
qed

text \<open>
  A history of one semaphore: successful gives and takes are counted, and the rest of the system
  may change the kernel state in any way between two operations.
\<close>

inductive sem_history :: "os_sem_t \<Rightarrow> kstate \<Rightarrow> os_sem_t \<Rightarrow> nat \<Rightarrow> nat \<Rightarrow> bool" for o0 where
  start: "sem_history o0 s o0 0 0"
| give: "sem_history o0 s o1 g t \<Longrightarrow> os_sem_give (Some o1) s = (e, Some o2, s') \<Longrightarrow>
    sem_history o0 s' o2 (if e = OS_ERR_NONE then Suc g else g) t"
| take: "sem_history o0 s o1 g t \<Longrightarrow> sem_attempt ms r (s, o1) = (out, s', o2) \<Longrightarrow>
    sem_history o0 s' o2 g (if out = Done OS_ERR_NONE then Suc t else t)"
| rest: "sem_history o0 s o1 g t \<Longrightarrow> sem_history o0 s' o1 g t"

lemma sem_give_count:
  assumes "os_sem_give (Some o1) s = (e, Some o2, s')"
  shows "sem_max o2 = sem_max o1" "e = OS_ERR_NONE \<Longrightarrow> unat (sem_count o2) = unat (sem_count o1) + 1"
    "e \<noteq> OS_ERR_NONE \<Longrightarrow> o2 = o1" "e = OS_ERR_NONE \<Longrightarrow> sem_count o1 < sem_max o1"
proof -
  show "e = OS_ERR_NONE \<Longrightarrow> sem_count o1 < sem_max o1"
    using assms by (auto simp: os_sem_give_def split: if_splits)
  show "e = OS_ERR_NONE \<Longrightarrow> unat (sem_count o2) = unat (sem_count o1) + 1"
  proof -
    assume "e = OS_ERR_NONE"
    then have o2: "sem_count o2 = sem_count o1 + 1" "sem_count o1 < sem_max o1"
      using assms by (auto simp: os_sem_give_def split: if_splits)
    have "unat (sem_max o1) < 4294967296" using unsigned_less [of "sem_max o1"] by simp
    then have "unat (sem_count o1) + 1 < 2 ^ 32" using o2(2) by (simp add: word_less_nat_alt)
    then show "unat (sem_count o2) = unat (sem_count o1) + 1"
      unfolding o2(1) by (subst unat_add_lem [THEN iffD1]) simp_all
  qed
qed (use assms in \<open>auto simp: os_sem_give_def split: if_splits\<close>)

lemma sem_history_balance:
  assumes "sem_history o0 s o1 g t" "sem_ok o0"
  shows "unat (sem_count o1) + t = unat (sem_count o0) + g \<and> sem_ok o1 \<and> sem_max o1 = sem_max o0"
  using assms
proof (induction rule: sem_history.induct)
  case (give s o1 g t e o2 s')
  then show ?case
    using sem_give_count [OF give.hyps(2)]
    by (cases "e = OS_ERR_NONE") (auto simp: sem_ok_def word_le_nat_alt word_less_nat_alt)
next
  case (take s o1 g t ms r out s' o2)
  then show ?case
    using sem_attempt_count [OF take.hyps(2)]
    by (cases "out = Done OS_ERR_NONE") (auto simp: sem_ok_def word_le_nat_alt)
qed auto

text \<open>A give with waiters readies the first waiter, which has the greatest priority.\<close>

lemma os_sem_give_wakes:
  assumes k: "kwf {} s" and w: "wlist s (SemWaiters (sem_ref o1)) = h # rest"
    and c: "sem_count o1 < sem_max o1"
  shows "fst (os_sem_give (Some o1) s) = OS_ERR_NONE"
    "task_state (tcb_of (snd (snd (os_sem_give (Some o1) s))) h) = OS_TASK_STATE_READY"
    "h \<notin> set (wlist (snd (snd (os_sem_give (Some o1) s))) (SemWaiters (sem_ref o1)))"
    "\<forall>x \<in> set rest. priority (tcb_of s x) \<le> priority (tcb_of s h)"
proof -
  let ?f = "\<lambda>x. x\<lparr>woken_from := Some (SemWaiters (sem_ref o1))\<rparr>"
  have h: "is_slot h" using waiter_is_slot [OF k, of h "SemWaiters (sem_ref o1)"] w by simp
  have e: "snd (snd (os_sem_give (Some o1) s)) = signal_and_ready h ?f s"
    using w c by (simp add: os_sem_give_def os_task_waiters_wake_one_def)
  show "fst (os_sem_give (Some o1) s) = OS_ERR_NONE" using c by (simp add: os_sem_give_def)
  show "task_state (tcb_of (snd (snd (os_sem_give (Some o1) s))) h) = OS_TASK_STATE_READY"
    "h \<notin> set (wlist (snd (snd (os_sem_give (Some o1) s))) (SemWaiters (sem_ref o1)))"
    unfolding e using signal_and_ready_effect(3,5) [OF k h, of ?f] by simp_all
  have "sorted_desc (\<lambda>x. priority (tcb_of s x)) (h # rest)"
    using kwfD(4) [OF k] w by (metis wait_wf_def)
  then show "\<forall>x \<in> set rest. priority (tcb_of s x) \<le> priority (tcb_of s h)"
    by (simp add: sorted_desc_Cons)
qed

lemma os_sem_give_kwf:
  "kwf {} s \<Longrightarrow> kwf {} (snd (snd (os_sem_give sem s)))"
  using os_task_waiters_wake_one_kwf by (simp add: os_sem_give_def split: option.split)

end
