(* ===== verification/Demo.thy ===== *)
theory Demo
  imports Switch Mutex Semaphore
begin

text \<open>
  Concrete kernel states at which the theorems of the development are applied. The scheduler
  invariant speaks of all tasks and all waiter lists; \<open>kwf_by_check\<close> reduces it, for a state whose
  tables are empty outside finite lists, to a check that evaluates.
\<close>

section \<open>Checking the invariant\<close>

definition task_check :: "kstate \<Rightarrow> tref \<Rightarrow> bool" where
  "task_check s t \<longleftrightarrow>
     (let x = tcb_of s t in
      priority x \<le> 31 \<and> base_priority x \<le> 31 \<and>
      (if task_state x = OS_TASK_STATE_RUNNING
       then list_ex (\<lambda>c. current s c = Some t) [0..<core_count s] else True) \<and>
      (case wait_list x of
         None \<Rightarrow> True
       | Some w \<Rightarrow> is_slot t \<and> task_state x = OS_TASK_STATE_BLOCKED \<and> t \<in> set (wlist s w)) \<and>
      (if is_slot t \<and> task_state x = OS_TASK_STATE_READY
       then t \<in> set (ready_list s (priority x)) else True) \<and>
      (if is_slot t \<and> task_state x = OS_TASK_STATE_BLOCKED \<and> delay_ticks x \<noteq> OS_WAIT_FOREVER
       then t \<in> set (delay_list s) else True))"

definition ready_check :: "kstate \<Rightarrow> tref list \<Rightarrow> nat \<Rightarrow> bool" where
  "ready_check s ts p \<longleftrightarrow>
     distinct (ready_list s p) \<and>
     list_all (\<lambda>t. t \<in> set ts \<and> is_slot t \<and> task_state (tcb_of s t) = OS_TASK_STATE_READY \<and>
                    priority (tcb_of s t) = p) (ready_list s p) \<and>
     (bit (ready_bitmap s) p \<longleftrightarrow> ready_list s p \<noteq> [])"

definition delay_check :: "kstate \<Rightarrow> tref list \<Rightarrow> bool" where
  "delay_check s ts \<longleftrightarrow>
     distinct (delay_list s) \<and>
     list_all (\<lambda>t. t \<in> set ts \<and> is_slot t \<and> task_state (tcb_of s t) = OS_TASK_STATE_BLOCKED \<and>
                    delay_ticks (tcb_of s t) \<noteq> OS_WAIT_FOREVER) (delay_list s) \<and>
     delta_total (delay_list s) (\<lambda>x. delay_ticks (tcb_of s x)) < 4294967295"

definition wait_check :: "kstate \<Rightarrow> wref \<Rightarrow> bool" where
  "wait_check s w \<longleftrightarrow>
     distinct (wlist s w) \<and> sorted_desc (\<lambda>x. priority (tcb_of s x)) (wlist s w) \<and>
     list_all (\<lambda>t. wait_list (tcb_of s t) = Some w) (wlist s w)"

definition current_check :: "kstate \<Rightarrow> nat \<Rightarrow> bool" where
  "current_check s c \<longleftrightarrow> (case current s c of None \<Rightarrow> True | Some t \<Rightarrow> is_slot t \<or> t = Idle c)"

lemma kwf_by_check:
  assumes out: "\<And>t. t \<notin> set ts \<Longrightarrow> tcb_of s t = OS_TASK_TCB_EMPTY n"
      "\<And>w. w \<notin> set ws \<Longrightarrow> wlist s w = []" "\<And>p. 32 \<le> p \<Longrightarrow> ready_list s p = []"
      "\<And>c. core_count s \<le> c \<Longrightarrow> current s c = None"
    and tc: "list_all (task_check s) ts" and rc: "list_all (ready_check s ts) [0..<32]"
    and dc: "delay_check s ts" and wc: "list_all (wait_check s) ws"
    and cc: "list_all (current_check s) [0..<core_count s]"
  shows "kwf {} s"
proof (rule kwfI)
  have t: "task_check s t" if "t \<in> set ts" for t using tc that by (simp add: list_all_iff)
  have r: "ready_check s ts p" if "p < 32" for p using rc that by (simp add: list_all_iff)
  have w: "wait_check s w" if "w \<in> set ws" for w using wc that by (simp add: list_all_iff)
  show "prio_wf s"
    unfolding prio_wf_def using out(1) t by (metis OS_TASK_TCB_EMPTY_simps(1,2) task_check_def zero_le)
  show "ready_wf {} s"
    unfolding ready_wf_def
  proof (intro conjI allI impI)
    fix p x
    show "distinct (ready_list s p)" using r [of p] out(3) [of p]
      by (cases "p < 32") (auto simp: ready_check_def)
    show "bit (ready_bitmap s) p \<longleftrightarrow> ready_list s p \<noteq> []" if "p < 32"
      using r [OF that] by (simp add: ready_check_def)
    show "x \<in> set (ready_list s p) \<longleftrightarrow> is_slot x \<and> x \<notin> {} \<and>
        task_state (tcb_of s x) = OS_TASK_STATE_READY \<and> priority (tcb_of s x) = p"
    proof
      assume x: "x \<in> set (ready_list s p)"
      then have "p < 32" using out(3) [of p] by (cases "p < 32") auto
      then show "is_slot x \<and> x \<notin> {} \<and> task_state (tcb_of s x) = OS_TASK_STATE_READY \<and>
          priority (tcb_of s x) = p" using r [of p] x by (simp add: ready_check_def list_all_iff)
    next
      assume x: "is_slot x \<and> x \<notin> {} \<and> task_state (tcb_of s x) = OS_TASK_STATE_READY \<and>
        priority (tcb_of s x) = p"
      then have "x \<in> set ts" using out(1) [of x] by (cases "x \<in> set ts") auto
      then show "x \<in> set (ready_list s p)" using t [of x] x by (auto simp: task_check_def Let_def)
    qed
  qed
  show "delay_wf {} s"
    unfolding delay_wf_def
  proof (intro conjI allI)
    show "distinct (delay_list s)"
      "delta_total (delay_list s) (\<lambda>x. delay_ticks (tcb_of s x)) < 4294967295"
      using dc by (simp_all add: delay_check_def)
    fix x
    show "x \<in> set (delay_list s) \<longleftrightarrow> is_slot x \<and> x \<notin> {} \<and>
        task_state (tcb_of s x) = OS_TASK_STATE_BLOCKED \<and> delay_ticks (tcb_of s x) \<noteq> OS_WAIT_FOREVER"
    proof
      assume "x \<in> set (delay_list s)"
      then show "is_slot x \<and> x \<notin> {} \<and> task_state (tcb_of s x) = OS_TASK_STATE_BLOCKED \<and>
          delay_ticks (tcb_of s x) \<noteq> OS_WAIT_FOREVER" using dc by (simp add: delay_check_def list_all_iff)
    next
      assume x: "is_slot x \<and> x \<notin> {} \<and> task_state (tcb_of s x) = OS_TASK_STATE_BLOCKED \<and>
        delay_ticks (tcb_of s x) \<noteq> OS_WAIT_FOREVER"
      then have "x \<in> set ts" using out(1) [of x] by (cases "x \<in> set ts") auto
      then show "x \<in> set (delay_list s)" using t [of x] x by (auto simp: task_check_def Let_def)
    qed
  qed
  show "wait_wf s"
    unfolding wait_wf_def
  proof (intro conjI allI impI)
    fix v x
    show "distinct (wlist s v)" "sorted_desc (\<lambda>x. priority (tcb_of s x)) (wlist s v)"
      using w [of v] out(2) [of v] by (cases "v \<in> set ws"; simp add: wait_check_def)+
    show "x \<in> set (wlist s v) \<longleftrightarrow> wait_list (tcb_of s x) = Some v"
    proof
      assume x: "x \<in> set (wlist s v)"
      then have "v \<in> set ws" using out(2) [of v] by (cases "v \<in> set ws") auto
      then show "wait_list (tcb_of s x) = Some v" using w [of v] x by (simp add: wait_check_def list_all_iff)
    next
      assume x: "wait_list (tcb_of s x) = Some v"
      then have "x \<in> set ts" using out(1) [of x] by (cases "x \<in> set ts") auto
      then show "x \<in> set (wlist s v)" using t [of x] x by (auto simp: task_check_def Let_def)
    qed
    assume x: "wait_list (tcb_of s x) \<noteq> None"
    then have "x \<in> set ts" using out(1) [of x] by (cases "x \<in> set ts") auto
    then show "is_slot x" "task_state (tcb_of s x) = OS_TASK_STATE_BLOCKED"
      using t [of x] x by (auto simp: task_check_def Let_def)
  qed
  show "run_wf s"
    unfolding run_wf_def
  proof (intro conjI allI impI)
    fix x assume x: "task_state (tcb_of s x) = OS_TASK_STATE_RUNNING"
    then have "x \<in> set ts" using out(1) [of x] by (cases "x \<in> set ts") auto
    then show "\<exists>c < core_count s. current s c = Some x"
      using t [of x] x by (auto simp: task_check_def Let_def list_ex_iff)
  next
    fix c x assume x: "current s c = Some x"
    then have "c < core_count s" using out(4) [of c] by (cases "core_count s \<le> c") auto
    then have "current_check s c" using cc by (simp add: list_all_iff)
    then show "is_slot x \<or> x = Idle c" using x by (simp add: current_check_def)
  qed
qed

section \<open>The states\<close>

text \<open>One core, three slots; \<open>low\<close> (slot 0, priority 5) and \<open>high\<close> (slot 1, priority 20) exist.\<close>

definition blank :: kstate where
  "blank = \<lparr>core_count = 1, table_size = 3, time_slice_ticks = 1, assert_on = True,
     this_core = 0, in_isr = False, kernel_running = True, tick_count = 100,
     tcb_of = (\<lambda>_. OS_TASK_TCB_EMPTY 1), next_generation = (\<lambda>_. 1), current = (\<lambda>_. None),
     ready_list = (\<lambda>_. []), ready_bitmap = 0, delay_list = [], slice_left = (\<lambda>_. 1),
     lock_count = (\<lambda>_. 0), switch_pending = (\<lambda>_. False), wlist = (\<lambda>_. []),
     mutexes = (\<lambda>_. \<lparr>locked = False, owner_id = 0\<rparr>), plan_generation = 0, window_open = False,
     switch_req = (\<lambda>_. False), ipi_req = (\<lambda>_. False), halted = False, diverged = False\<rparr>"

definition idle_tcb :: os_task_tcb_t where
  "idle_tcb = (OS_TASK_TCB_EMPTY 1)\<lparr>stack_base := Some 8192, stack_ptr := Some 8384, stack_bytes := 256,
     core_affinity := 1, task_state := OS_TASK_STATE_READY\<rparr>"

definition low_tcb :: os_task_tcb_t where
  "low_tcb = (OS_TASK_TCB_EMPTY 1)\<lparr>stack_base := Some 1024, stack_ptr := Some 1472, stack_bytes := 512,
     priority := 5, base_priority := 5, task_id := 0x01000001, task_state := OS_TASK_STATE_SUSPENDED\<rparr>"

definition high_tcb :: os_task_tcb_t where
  "high_tcb = (OS_TASK_TCB_EMPTY 1)\<lparr>stack_base := Some 2048, stack_ptr := Some 2496, stack_bytes := 512,
     priority := 20, base_priority := 20, task_id := 0x02000001, task_state := OS_TASK_STATE_SUSPENDED\<rparr>"

definition tasks3 :: "os_task_tcb_t \<Rightarrow> os_task_tcb_t \<Rightarrow> tref \<Rightarrow> os_task_tcb_t" where
  "tasks3 a b t = (if t = Slot 0 then a else if t = Slot 1 then b
                   else if t = Idle 0 then idle_tcb else OS_TASK_TCB_EMPTY 1)"

definition task_refs :: "tref list" where
  "task_refs = [Slot 0, Slot 1, Idle 0]"

definition handle :: "u32 \<Rightarrow> os_task_t" where
  "handle i = \<lparr>ident = i, storage = Some \<lparr>st_name = Some ''task'', st_stack = Some 4096, st_bytes = 512\<rparr>\<rparr>"

text \<open>\<open>low\<close> runs, \<open>high\<close> is suspended.\<close>

definition low_runs :: kstate where
  "low_runs = blank\<lparr>tcb_of := tasks3 (low_tcb\<lparr>task_state := OS_TASK_STATE_RUNNING, running_core := 0\<rparr>) high_tcb,
     current := (\<lambda>_. None)(0 := Some (Slot 0))\<rparr>"

text \<open>\<open>low\<close> holds mutex 0 and is ready; \<open>high\<close> runs.\<close>

definition high_runs :: kstate where
  "high_runs = blank\<lparr>
     tcb_of := tasks3 (low_tcb\<lparr>task_state := OS_TASK_STATE_READY, owned_mutexes := [0]\<rparr>)
       (high_tcb\<lparr>task_state := OS_TASK_STATE_RUNNING, running_core := 0\<rparr>),
     mutexes := (\<lambda>_. \<lparr>locked = False, owner_id = 0\<rparr>)(0 := \<lparr>locked = True, owner_id = 0x01000001\<rparr>),
     ready_list := (\<lambda>_. [])(5 := [Slot 0]), ready_bitmap := 32,
     current := (\<lambda>_. None)(0 := Some (Slot 1))\<rparr>"

text \<open>\<open>high\<close> waits 50 ticks for mutex 0 on its waiter list; \<open>low\<close>, lifted to 20, runs.\<close>

definition low_boosted :: kstate where
  "low_boosted = blank\<lparr>
     tcb_of := tasks3 (low_tcb\<lparr>task_state := OS_TASK_STATE_RUNNING, running_core := 0, priority := 20,
         owned_mutexes := [0]\<rparr>)
       (high_tcb\<lparr>task_state := OS_TASK_STATE_BLOCKED, delay_ticks := 50,
         wait_list := Some (MutexWaiters 0), pi_owner_id := 0x01000001, blocked_on_mutex := Some 0\<rparr>),
     mutexes := (\<lambda>_. \<lparr>locked = False, owner_id = 0\<rparr>)(0 := \<lparr>locked = True, owner_id = 0x01000001\<rparr>),
     delay_list := [Slot 1], wlist := (\<lambda>_. [])(MutexWaiters 0 := [Slot 1]),
     current := (\<lambda>_. None)(0 := Some (Slot 0))\<rparr>"

text \<open>\<open>high\<close> waits without limit for semaphore 3 and sleeps on no queue; \<open>low\<close> runs.\<close>

definition sem_waited :: kstate where
  "sem_waited = blank\<lparr>
     tcb_of := tasks3 (low_tcb\<lparr>task_state := OS_TASK_STATE_RUNNING, running_core := 0\<rparr>)
       (high_tcb\<lparr>task_state := OS_TASK_STATE_BLOCKED, delay_ticks := OS_WAIT_FOREVER,
         wait_list := Some (SemWaiters 3)\<rparr>),
     wlist := (\<lambda>_. [])(SemWaiters 3 := [Slot 1]),
     current := (\<lambda>_. None)(0 := Some (Slot 0))\<rparr>"

lemmas demo_states = low_runs_def high_runs_def low_boosted_def sem_waited_def blank_def

lemmas demo_tcbs = tasks3_def idle_tcb_def low_tcb_def high_tcb_def OS_TASK_TCB_EMPTY_def

lemma tasks3_outside: "t \<notin> set task_refs \<Longrightarrow> tasks3 a b t = OS_TASK_TCB_EMPTY 1"
  by (simp add: tasks3_def task_refs_def)

lemma low_runs_kwf: "kwf {} low_runs"
proof (rule kwf_by_check [where ts = task_refs and ws = "[]" and n = 1])
  show "list_all (task_check low_runs) task_refs" by code_simp
  show "list_all (ready_check low_runs task_refs) [0..<32]"
    by (simp add: ready_check_def demo_states demo_tcbs task_refs_def upt_conv_Cons)
  show "delay_check low_runs task_refs"
    by (simp add: delay_check_def demo_states demo_tcbs task_refs_def OS_WAIT_FOREVER_def)
  show "list_all (wait_check low_runs) []" by simp
  show "list_all (current_check low_runs) [0..<core_count low_runs]" by code_simp
qed (simp_all add: demo_states tasks3_outside)

lemma high_runs_kwf: "kwf {} high_runs"
proof (rule kwf_by_check [where ts = task_refs and ws = "[]" and n = 1])
  show "list_all (task_check high_runs) task_refs" by code_simp
  show "list_all (ready_check high_runs task_refs) [0..<32]"
    by (simp add: ready_check_def demo_states demo_tcbs task_refs_def upt_conv_Cons)
  show "delay_check high_runs task_refs"
    by (simp add: delay_check_def demo_states demo_tcbs task_refs_def OS_WAIT_FOREVER_def)
  show "list_all (wait_check high_runs) []" by simp
  show "list_all (current_check high_runs) [0..<core_count high_runs]" by code_simp
qed (simp_all add: demo_states tasks3_outside)

lemma low_boosted_kwf: "kwf {} low_boosted"
proof (rule kwf_by_check [where ts = task_refs and ws = "[MutexWaiters 0]" and n = 1])
  show "list_all (task_check low_boosted) task_refs" by code_simp
  show "list_all (ready_check low_boosted task_refs) [0..<32]"
    by (simp add: ready_check_def demo_states demo_tcbs task_refs_def upt_conv_Cons)
  show "delay_check low_boosted task_refs"
    by (simp add: delay_check_def demo_states demo_tcbs task_refs_def OS_WAIT_FOREVER_def)
  show "list_all (wait_check low_boosted) [MutexWaiters 0]" by code_simp
  show "list_all (current_check low_boosted) [0..<core_count low_boosted]" by code_simp
qed (simp_all add: demo_states tasks3_outside)

lemma sem_waited_kwf: "kwf {} sem_waited"
proof (rule kwf_by_check [where ts = task_refs and ws = "[SemWaiters 3]" and n = 1])
  show "list_all (task_check sem_waited) task_refs" by code_simp
  show "list_all (ready_check sem_waited task_refs) [0..<32]"
    by (simp add: ready_check_def demo_states demo_tcbs task_refs_def upt_conv_Cons)
  show "delay_check sem_waited task_refs"
    by (simp add: delay_check_def demo_states demo_tcbs task_refs_def OS_WAIT_FOREVER_def)
  show "list_all (wait_check sem_waited) [SemWaiters 3]" by code_simp
  show "list_all (current_check sem_waited) [0..<core_count sem_waited]" by code_simp
qed (simp_all add: demo_states tasks3_outside)

end
