(* ===== verification/OsList.thy ===== *)
theory OsList
  imports Prelude
begin

text \<open>
  The intrusive doubly-linked list of \<^verbatim>\<open>kernel/os_list.c\<close>. The memory that holds list nodes and
  list containers is an explicit store: the \<open>next\<close> and \<open>prev\<close> links of every node and the
  \<open>head\<close> and \<open>tail\<close> of every container. A null pointer is \<open>None\<close>, and every operation takes the
  pointers the C function takes, null included. \<open>list_rep st c\<close> says that the store represents
  the abstract contents \<open>c\<close> (one HOL list of nodes per container, head first), and the lemmas
  show that the operations on the store are the operations on HOL lists that the other
  components of this development use for their lists.
\<close>

section \<open>The store and the operations of os_list.c\<close>

record ('l, 'n) list_store =
  node_next :: "'n \<Rightarrow> 'n option"
  node_prev :: "'n \<Rightarrow> 'n option"
  list_head :: "'l \<Rightarrow> 'n option"
  list_tail :: "'l \<Rightarrow> 'n option"

definition set_next :: "'n \<Rightarrow> 'n option \<Rightarrow> ('l, 'n) list_store \<Rightarrow> ('l, 'n) list_store" where
  "set_next n v st = st\<lparr>node_next := (node_next st)(n := v)\<rparr>"

definition set_prev :: "'n \<Rightarrow> 'n option \<Rightarrow> ('l, 'n) list_store \<Rightarrow> ('l, 'n) list_store" where
  "set_prev n v st = st\<lparr>node_prev := (node_prev st)(n := v)\<rparr>"

definition set_head :: "'l \<Rightarrow> 'n option \<Rightarrow> ('l, 'n) list_store \<Rightarrow> ('l, 'n) list_store" where
  "set_head l v st = st\<lparr>list_head := (list_head st)(l := v)\<rparr>"

definition set_tail :: "'l \<Rightarrow> 'n option \<Rightarrow> ('l, 'n) list_store \<Rightarrow> ('l, 'n) list_store" where
  "set_tail l v st = st\<lparr>list_tail := (list_tail st)(l := v)\<rparr>"

lemmas store_updates = set_next_def set_prev_def set_head_def set_tail_def

definition os_list_init :: "'l option \<Rightarrow> ('l, 'n) list_store \<Rightarrow> ('l, 'n) list_store" where
  "os_list_init list st =
     (case list of None \<Rightarrow> st | Some l \<Rightarrow> set_tail l None (set_head l None st))"

definition os_list_is_empty :: "'l option \<Rightarrow> ('l, 'n) list_store \<Rightarrow> bool" where
  "os_list_is_empty list st =
     (case list of None \<Rightarrow> True | Some l \<Rightarrow> list_head st l = None)"

definition os_list_push_back ::
  "'l option \<Rightarrow> 'n option \<Rightarrow> ('l, 'n) list_store \<Rightarrow> ('l, 'n) list_store" where
  "os_list_push_back list node st =
     (case (list, node) of
        (Some l, Some n) \<Rightarrow>
          let st1 = set_next n None st;
              st2 = set_prev n (list_tail st1 l) st1;
              st3 = (case list_tail st2 l of
                       Some t \<Rightarrow> set_next t (Some n) st2
                     | None \<Rightarrow> set_head l (Some n) st2)
          in set_tail l (Some n) st3
      | _ \<Rightarrow> st)"

definition os_list_pop_front ::
  "'l option \<Rightarrow> ('l, 'n) list_store \<Rightarrow> 'n option \<times> ('l, 'n) list_store" where
  "os_list_pop_front list st =
     (case list of
        None \<Rightarrow> (None, st)
      | Some l \<Rightarrow>
          (case list_head st l of
             None \<Rightarrow> (None, st)
           | Some n \<Rightarrow>
               let st1 = set_head l (node_next st n) st;
                   st2 = (case list_head st1 l of
                            Some h \<Rightarrow> set_prev h None st1
                          | None \<Rightarrow> set_tail l None st1)
               in (Some n, set_prev n None (set_next n None st2))))"

definition os_list_remove ::
  "'l option \<Rightarrow> 'n option \<Rightarrow> ('l, 'n) list_store \<Rightarrow> ('l, 'n) list_store" where
  "os_list_remove list node st =
     (case (list, node) of
        (Some l, Some n) \<Rightarrow>
          if node_prev st n \<noteq> None \<or> node_next st n \<noteq> None \<or> list_head st l = Some n then
            let st1 = (case node_prev st n of
                         Some p \<Rightarrow> set_next p (node_next st n) st
                       | None \<Rightarrow> set_head l (node_next st n) st);
                st2 = (case node_next st1 n of
                         Some q \<Rightarrow> set_prev q (node_prev st1 n) st1
                       | None \<Rightarrow> set_tail l (node_prev st1 n) st1)
            in set_prev n None (set_next n None st2)
          else st
      | _ \<Rightarrow> st)"

definition os_list_insert_before ::
  "'l option \<Rightarrow> 'n option \<Rightarrow> 'n option \<Rightarrow> ('l, 'n) list_store \<Rightarrow> ('l, 'n) list_store" where
  "os_list_insert_before list position node st =
     (case (list, node) of
        (Some l, Some n) \<Rightarrow>
          (case position of
             None \<Rightarrow> os_list_push_back list node st
           | Some p \<Rightarrow>
               let st1 = set_next n (Some p) st;
                   st2 = set_prev n (node_prev st1 p) st1;
                   st3 = (case node_prev st2 p of
                            Some q \<Rightarrow> set_next q (Some n) st2
                          | None \<Rightarrow> set_head l (Some n) st2)
               in set_prev p (Some n) st3)
      | _ \<Rightarrow> st)"

section \<open>Well-formed lists\<close>

text \<open>
  \<open>seg f p xs\<close>: following \<open>f\<close> from the link \<open>p\<close> visits exactly \<open>xs\<close> and then the null link.
  A doubly-linked list is two such segments, one along \<open>next\<close> and one, reversed, along \<open>prev\<close>.
\<close>

fun seg :: "('n \<Rightarrow> 'n option) \<Rightarrow> 'n option \<Rightarrow> 'n list \<Rightarrow> 'n option \<Rightarrow> bool" where
  "seg f p [] e \<longleftrightarrow> p = e"
| "seg f p (x # xs) e \<longleftrightarrow> p = Some x \<and> seg f (f x) xs e"

definition list_ok :: "('l, 'n) list_store \<Rightarrow> 'l \<Rightarrow> 'n list \<Rightarrow> bool" where
  "list_ok st l xs \<longleftrightarrow>
     seg (node_next st) (list_head st l) xs None \<and>
     seg (node_prev st) (list_tail st l) (rev xs) None"

text \<open>
  The whole store: every container is a list, no node is in two lists or twice in one, and a
  node that is in no list has null links, which is what \<^const>\<open>os_list_remove\<close> tests.
\<close>

definition list_rep :: "('l, 'n) list_store \<Rightarrow> ('l \<Rightarrow> 'n list) \<Rightarrow> bool" where
  "list_rep st c \<longleftrightarrow>
     (\<forall>l. list_ok st l (c l) \<and> distinct (c l)) \<and>
     (\<forall>l l'. l \<noteq> l' \<longrightarrow> set (c l) \<inter> set (c l') = {}) \<and>
     (\<forall>n. (\<forall>l. n \<notin> set (c l)) \<longrightarrow> node_next st n = None \<and> node_prev st n = None)"

lemma seg_append: "seg f p (xs @ ys) e \<longleftrightarrow> (\<exists>q. seg f p xs q \<and> seg f q ys e)"
  by (induction xs arbitrary: p) auto

lemma seg_upd [simp]: "x \<notin> set xs \<Longrightarrow> seg (f(x := v)) p xs e = seg f p xs e"
  by (induction xs arbitrary: p) auto

lemma seg_cong: "(\<And>x. x \<in> set xs \<Longrightarrow> f x = g x) \<Longrightarrow> seg f p xs e = seg g p xs e"
  by (induction xs arbitrary: p) auto

lemma seg_start: "seg f p xs None \<Longrightarrow> p = (case xs of [] \<Rightarrow> None | x # _ \<Rightarrow> Some x)"
  by (cases xs) auto

lemma list_rep_ok: "list_rep st c \<Longrightarrow> list_ok st l (c l)"
  by (simp add: list_rep_def)

lemma list_rep_distinct: "list_rep st c \<Longrightarrow> distinct (c l)"
  by (simp add: list_rep_def)

lemma list_rep_detached:
  "list_rep st c \<Longrightarrow> \<forall>l. n \<notin> set (c l) \<Longrightarrow> node_next st n = None \<and> node_prev st n = None"
  by (simp add: list_rep_def)

lemma list_rep_head: "list_rep st c \<Longrightarrow> list_head st l = (case c l of [] \<Rightarrow> None | x # _ \<Rightarrow> Some x)"
  by (drule list_rep_ok [of st c l]) (auto simp: list_ok_def dest: seg_start)

lemma list_rep_tail: "list_rep st c \<Longrightarrow> list_tail st l = (case rev (c l) of [] \<Rightarrow> None | x # _ \<Rightarrow> Some x)"
  by (drule list_rep_ok [of st c l]) (auto simp: list_ok_def dest: seg_start)

text \<open>The links of a node in the middle of a list.\<close>

lemma list_ok_links:
  assumes "list_ok st l (xs @ n # ys)"
  shows "node_next st n = (case ys of [] \<Rightarrow> None | y # _ \<Rightarrow> Some y)"
    and "node_prev st n = (case rev xs of [] \<Rightarrow> None | x # _ \<Rightarrow> Some x)"
  using assms by (auto simp: list_ok_def seg_append dest: seg_start)

text \<open>A list whose own nodes and container are not written is not changed.\<close>

lemma list_ok_frame:
  assumes "list_ok st l xs"
    and "\<And>x. x \<in> set xs \<Longrightarrow> node_next st' x = node_next st x"
    and "\<And>x. x \<in> set xs \<Longrightarrow> node_prev st' x = node_prev st x"
    and "list_head st' l = list_head st l" "list_tail st' l = list_tail st l"
  shows "list_ok st' l xs"
proof -
  have "seg (node_next st') p xs e = seg (node_next st) p xs e" for p e
    by (rule seg_cong) (use assms in auto)
  moreover have "seg (node_prev st') p (rev xs) e = seg (node_prev st) p (rev xs) e" for p e
    by (rule seg_cong) (use assms in auto)
  ultimately show ?thesis using assms by (simp add: list_ok_def)
qed

text \<open>Replacing the contents of one container.\<close>

lemma list_rep_replace:
  assumes rep: "list_rep st c"
    and ok: "list_ok st' l xs" and d: "distinct xs"
    and fresh: "\<And>l'. l' \<noteq> l \<Longrightarrow> set (c l') \<inter> set xs = {}"
    and nodes: "\<And>n. n \<notin> set xs \<Longrightarrow> n \<notin> set (c l) \<Longrightarrow>
                  node_next st' n = node_next st n \<and> node_prev st' n = node_prev st n"
    and gone: "\<And>n. n \<in> set (c l) \<Longrightarrow> n \<notin> set xs \<Longrightarrow> node_next st' n = None \<and> node_prev st' n = None"
    and conts: "\<And>l'. l' \<noteq> l \<Longrightarrow> list_head st' l' = list_head st l' \<and> list_tail st' l' = list_tail st l'"
  shows "list_rep st' (c(l := xs))"
proof -
  have disj: "set (c l') \<inter> set (c l) = {}" if "l' \<noteq> l" for l'
    using rep that by (auto simp: list_rep_def)
  have other: "list_ok st' l' (c l')" if "l' \<noteq> l" for l'
  proof (rule list_ok_frame [OF list_rep_ok [OF rep]])
    fix x assume "x \<in> set (c l')"
    then have "x \<notin> set xs" "x \<notin> set (c l)"
      using fresh [OF that] disj [OF that] by auto
    then show "node_next st' x = node_next st x" "node_prev st' x = node_prev st x"
      using nodes by auto
  qed (use conts that in auto)
  have det: "node_next st' n = None \<and> node_prev st' n = None"
    if "\<forall>l'. n \<notin> set ((c(l := xs)) l')" for n
  proof -
    have out: "n \<notin> set xs" using that [rule_format, of l] by simp
    show ?thesis
    proof (cases "n \<in> set (c l)")
      case True
      then show ?thesis using gone out by blast
    next
      case False
      have "n \<notin> set (c l')" for l'
        using that [rule_format, of l'] False by (cases "l' = l") auto
      then have "node_next st n = None \<and> node_prev st n = None"
        using list_rep_detached [OF rep] by blast
      then show ?thesis using nodes [OF out False] by simp
    qed
  qed
  have disj': "set ((c(l := xs)) a) \<inter> set ((c(l := xs)) b) = {}" if "a \<noteq> b" for a b
  proof -
    have "set (c a) \<inter> set (c b) = {}" using rep that by (simp add: list_rep_def)
    with fresh [of a] fresh [of b] that show ?thesis by (auto simp: Int_commute)
  qed
  have lists: "list_ok st' a ((c(l := xs)) a) \<and> distinct ((c(l := xs)) a)" for a
    using ok d other [of a] list_rep_distinct [OF rep, of a] by simp
  show ?thesis
    unfolding list_rep_def using lists disj' det by blast
qed

section \<open>Each operation is the operation on HOL lists\<close>

lemma os_list_init_rep:
  assumes "list_rep st c" "c l = []"
  shows "list_rep (os_list_init (Some l) st) c"
proof -
  have "list_rep (os_list_init (Some l) st) (c(l := []))"
    by (rule list_rep_replace [OF assms(1)])
      (use assms(2) in \<open>auto simp: os_list_init_def store_updates list_ok_def\<close>)
  then show ?thesis using assms(2) by (metis fun_upd_triv)
qed

lemma os_list_is_empty_rep:
  "list_rep st c \<Longrightarrow> os_list_is_empty (Some l) st \<longleftrightarrow> c l = []"
  by (simp add: os_list_is_empty_def list_rep_head split: list.splits)

lemma os_list_push_back_rep:
  assumes rep: "list_rep st c" and new: "\<forall>l. n \<notin> set (c l)"
  shows "list_rep (os_list_push_back (Some l) (Some n) st) (c(l := c l @ [n]))"
proof (rule list_rep_replace [OF rep])
  let ?st' = "os_list_push_back (Some l) (Some n) st"
  note tail = list_rep_tail [OF rep, of l] and ok = list_rep_ok [OF rep, of l]
  note d = list_rep_distinct [OF rep, of l]
  show "list_ok ?st' l (c l @ [n])"
  proof (cases "c l" rule: rev_cases)
    case Nil
    then show ?thesis using tail
      by (simp add: os_list_push_back_def store_updates list_ok_def)
  next
    case (snoc xs t)
    then have "t \<notin> set xs" "n \<noteq> t" "n \<notin> set xs" using d new [rule_format, of l] by auto
    with ok tail snoc show ?thesis
      by (auto simp: os_list_push_back_def store_updates list_ok_def seg_append)
  qed
  show "distinct (c l @ [n])" using d new by auto
  show "set (c l') \<inter> set (c l @ [n]) = {}" if "l' \<noteq> l" for l'
    using rep new that by (auto simp: list_rep_def)
  show "node_next ?st' m = node_next st m \<and> node_prev ?st' m = node_prev st m"
    if "m \<notin> set (c l @ [n])" "m \<notin> set (c l)" for m
    using that tail
    by (cases "c l" rule: rev_cases) (auto simp: os_list_push_back_def store_updates)
  show "node_next ?st' m = None \<and> node_prev ?st' m = None"
    if "m \<in> set (c l)" "m \<notin> set (c l @ [n])" for m
    using that by simp
  show "list_head ?st' l' = list_head st l' \<and> list_tail ?st' l' = list_tail st l'"
    if "l' \<noteq> l" for l'
    using that by (auto simp: os_list_push_back_def store_updates Let_def split: option.splits)
qed

lemma os_list_remove_rep:
  assumes rep: "list_rep st c" and mem: "n \<in> set (c l)"
  shows "list_rep (os_list_remove (Some l) (Some n) st) (c(l := remove1 n (c l)))"
proof -
  let ?st' = "os_list_remove (Some l) (Some n) st"
  obtain xs ys where split: "c l = xs @ n # ys" using mem by (auto simp: in_set_conv_decomp)
  have d: "distinct (xs @ n # ys)" using list_rep_distinct [OF rep, of l] split by simp
  then have rem: "remove1 n (c l) = xs @ ys" using split by (simp add: remove1_mid)
  have ok: "list_ok st l (xs @ n # ys)" using list_rep_ok [OF rep, of l] split by simp
  note links = list_ok_links [OF ok]
  have head: "list_head st l = (case xs of [] \<Rightarrow> Some n | x # _ \<Rightarrow> Some x)"
    using list_rep_head [OF rep, of l] split by (cases xs) auto
  have guard: "node_prev st n \<noteq> None \<or> node_next st n \<noteq> None \<or> list_head st l = Some n"
    using links head by (cases xs rule: rev_cases) auto
  have prev_none: "node_prev st n = None \<longleftrightarrow> xs = []" using links by (cases xs rule: rev_cases) auto
  show ?thesis
    unfolding rem
  proof (rule list_rep_replace [OF rep])
    show "list_ok ?st' l (xs @ ys)"
    proof (cases xs rule: rev_cases)
      case Nil
      then show ?thesis using ok d links guard
        by (cases ys) (auto simp: os_list_remove_def store_updates list_ok_def seg_append)
    next
      case (snoc as p)
      then show ?thesis using ok d links guard
        by (cases ys) (auto simp: os_list_remove_def store_updates list_ok_def seg_append)
    qed
    show "distinct (xs @ ys)" using d by simp
    show "set (c l') \<inter> set (xs @ ys) = {}" if "l' \<noteq> l" for l'
    proof -
      have "set (c l') \<inter> set (c l) = {}" using rep that by (simp add: list_rep_def)
      then show ?thesis using split by auto
    qed
    show "node_next ?st' m = node_next st m \<and> node_prev ?st' m = node_prev st m"
      if "m \<notin> set (xs @ ys)" "m \<notin> set (c l)" for m
      using that links split
      by (cases xs rule: rev_cases; cases ys) (auto simp: os_list_remove_def store_updates)
    show "node_next ?st' m = None \<and> node_prev ?st' m = None"
      if "m \<in> set (c l)" "m \<notin> set (xs @ ys)" for m
      using that split guard by (auto simp: os_list_remove_def store_updates Let_def)
    show "list_head ?st' l' = list_head st l' \<and> list_tail ?st' l' = list_tail st l'"
      if "l' \<noteq> l" for l'
      using that by (auto simp: os_list_remove_def store_updates Let_def split: option.splits)
  qed
qed

lemma os_list_remove_detached:
  assumes "list_rep st c" "\<forall>l. n \<notin> set (c l)"
  shows "os_list_remove (Some l) (Some n) st = st"
proof -
  have "list_head st l \<noteq> Some n"
    using list_rep_head [OF assms(1), of l] assms(2) [rule_format, of l] by (cases "c l") auto
  then show ?thesis
    using list_rep_detached [OF assms] by (simp add: os_list_remove_def)
qed

lemma os_list_pop_front_rep:
  assumes rep: "list_rep st c"
  shows "os_list_pop_front (Some l) st =
     (case c l of [] \<Rightarrow> (None, st) | n # _ \<Rightarrow> (Some n, os_list_remove (Some l) (Some n) st))"
proof (cases "c l")
  case Nil
  then show ?thesis using list_rep_head [OF rep, of l] by (simp add: os_list_pop_front_def)
next
  case (Cons n ys)
  have "list_ok st l ([] @ n # ys)" using list_rep_ok [OF rep, of l] Cons by simp
  note links = list_ok_links [OF this]
  then show ?thesis using list_rep_head [OF rep, of l] Cons
    by (auto simp: os_list_pop_front_def os_list_remove_def store_updates split: list.splits)
qed

lemma os_list_insert_before_rep:
  assumes rep: "list_rep st c" and new: "\<forall>l. n \<notin> set (c l)" and split: "c l = xs @ p # ys"
  shows "list_rep (os_list_insert_before (Some l) (Some p) (Some n) st) (c(l := xs @ n # p # ys))"
proof (rule list_rep_replace [OF rep])
  let ?st' = "os_list_insert_before (Some l) (Some p) (Some n) st"
  have ok: "list_ok st l (xs @ p # ys)" using list_rep_ok [OF rep, of l] split by simp
  note links = list_ok_links [OF ok]
  have d: "distinct (xs @ p # ys)" using list_rep_distinct [OF rep, of l] split by simp
  have n: "n \<notin> set xs" "n \<noteq> p" "n \<notin> set ys" using new [rule_format, of l] split by auto
  show "list_ok ?st' l (xs @ n # p # ys)"
  proof (cases xs rule: rev_cases)
    case Nil
    then show ?thesis using ok d links n
      by (auto simp: os_list_insert_before_def store_updates list_ok_def seg_append)
  next
    case (snoc as q)
    then show ?thesis using ok d links n
      by (auto simp: os_list_insert_before_def store_updates list_ok_def seg_append)
  qed
  show "distinct (xs @ n # p # ys)" using d n by auto
  show "set (c l') \<inter> set (xs @ n # p # ys) = {}" if "l' \<noteq> l" for l'
  proof -
    have "set (c l') \<inter> set (c l) = {}" using rep that by (simp add: list_rep_def)
    then show ?thesis using split new [rule_format, of l'] by auto
  qed
  show "node_next ?st' m = node_next st m \<and> node_prev ?st' m = node_prev st m"
    if "m \<notin> set (xs @ n # p # ys)" "m \<notin> set (c l)" for m
    using that links
    by (cases xs rule: rev_cases) (auto simp: os_list_insert_before_def store_updates)
  show "node_next ?st' m = None \<and> node_prev ?st' m = None"
    if "m \<in> set (c l)" "m \<notin> set (xs @ n # p # ys)" for m
    using that split by auto
  show "list_head ?st' l' = list_head st l' \<and> list_tail ?st' l' = list_tail st l'"
    if "l' \<noteq> l" for l'
    using that by (auto simp: os_list_insert_before_def store_updates Let_def split: option.splits)
qed

lemma os_list_insert_before_null:
  "os_list_insert_before (Some l) None (Some n) st = os_list_push_back (Some l) (Some n) st"
  by (simp add: os_list_insert_before_def)

section \<open>The interface the kernel uses\<close>

text \<open>
  What a client of the list module relies on: the operations change the abstract contents the
  way the HOL list operations do, as long as a node is pushed only while it is in no list and
  removed only from the list that holds it. The kernel's components keep their lists as HOL
  lists; this contract, which \<^verbatim>\<open>os_list.c\<close> meets below, is what justifies that.
\<close>

locale intrusive_list =
  fixes rep :: "'s \<Rightarrow> ('l \<Rightarrow> 'n list) \<Rightarrow> bool"
    and push_back :: "'l \<Rightarrow> 'n \<Rightarrow> 's \<Rightarrow> 's"
    and pop_front :: "'l \<Rightarrow> 's \<Rightarrow> 'n option \<times> 's"
    and remove :: "'l \<Rightarrow> 'n \<Rightarrow> 's \<Rightarrow> 's"
  assumes rep_distinct: "rep s c \<Longrightarrow> distinct (c l)"
    and rep_disjoint: "rep s c \<Longrightarrow> l \<noteq> l' \<Longrightarrow> n \<in> set (c l) \<Longrightarrow> n \<notin> set (c l')"
    and push_back: "rep s c \<Longrightarrow> \<forall>l. n \<notin> set (c l) \<Longrightarrow> rep (push_back l n s) (c(l := c l @ [n]))"
    and remove: "rep s c \<Longrightarrow> n \<in> set (c l) \<Longrightarrow> rep (remove l n s) (c(l := remove1 n (c l)))"
    and remove_detached: "rep s c \<Longrightarrow> \<forall>l. n \<notin> set (c l) \<Longrightarrow> remove l n s = s"
    and pop_front_empty: "rep s c \<Longrightarrow> c l = [] \<Longrightarrow> pop_front l s = (None, s)"
    and pop_front_head: "rep s c \<Longrightarrow> c l = n # ns \<Longrightarrow> pop_front l s = (Some n, remove l n s)"
begin

lemma remove_idem:
  assumes "rep s c" "n \<in> set (c l)"
  shows "remove l n (remove l n s) = remove l n s"
proof (rule remove_detached [OF remove [OF assms]])
  show "\<forall>l'. n \<notin> set ((c(l := remove1 n (c l))) l')"
    using rep_disjoint [OF assms(1) _ assms(2)] rep_distinct [OF assms(1), of l]
    by (auto simp: set_remove1_eq)
qed

lemma push_all:
  assumes "rep s c" "distinct ns" "\<forall>n \<in> set ns. \<forall>l. n \<notin> set (c l)"
  shows "rep (fold (push_back l) ns s) (c(l := c l @ ns))"
  using assms
proof (induction ns arbitrary: s c)
  case (Cons n ns)
  have "rep (push_back l n s) (c(l := c l @ [n]))"
    using Cons.prems by (intro push_back) auto
  then have "rep (fold (push_back l) ns (push_back l n s))
      ((c(l := c l @ [n]))(l := (c(l := c l @ [n])) l @ ns))"
    by (rule Cons.IH) (use Cons.prems in auto)
  then show ?case by (simp del: fun_upd_apply add: fun_upd_same)
qed simp

fun pop_all :: "nat \<Rightarrow> 'l \<Rightarrow> 's \<Rightarrow> 'n list" where
  "pop_all 0 l s = []"
| "pop_all (Suc k) l s =
     (case pop_front l s of (None, _) \<Rightarrow> [] | (Some n, s') \<Rightarrow> n # pop_all k l s')"

lemma pop_all_rep:
  assumes "rep s c" "length (c l) \<le> k"
  shows "pop_all k l s = c l"
  using assms
proof (induction k arbitrary: s c)
  case (Suc k)
  show ?case
  proof (cases "c l")
    case Nil
    with Suc.prems show ?thesis by (simp add: pop_front_empty)
  next
    case (Cons n ns)
    have "rep (remove l n s) (c(l := remove1 n (c l)))"
      using Suc.prems(1) Cons by (intro remove) auto
    then have "pop_all k l (remove l n s) = (c(l := remove1 n (c l))) l"
      by (rule Suc.IH) (use Suc.prems(2) Cons in simp)
    then have "pop_all k l (remove l n s) = ns" using Cons by simp
    then show ?thesis using pop_front_head [OF Suc.prems(1) Cons] Cons by simp
  qed
qed simp

lemma fifo:
  assumes "rep s c" "c l = []" "distinct ns" "\<forall>n \<in> set ns. \<forall>l. n \<notin> set (c l)"
  shows "pop_all (length ns) l (fold (push_back l) ns s) = ns"
  using pop_all_rep [OF push_all [OF assms(1,3,4), of l], of l "length ns"] assms(2) by simp

end

interpretation kernel_list: intrusive_list
  list_rep
  "\<lambda>l n. os_list_push_back (Some l) (Some n)"
  "\<lambda>l. os_list_pop_front (Some l)"
  "\<lambda>l n. os_list_remove (Some l) (Some n)"
proof
  show "l \<noteq> l' \<Longrightarrow> n \<in> set (c l) \<Longrightarrow> n \<notin> set (c l')" if "list_rep s c" for s c l l' n
    using that by (auto simp: list_rep_def)
qed (auto simp: list_rep_distinct os_list_push_back_rep os_list_remove_rep
    os_list_remove_detached os_list_pop_front_rep)

definition empty_store :: "('l, 'n) list_store" where
  "empty_store = \<lparr>node_next = (\<lambda>_. None), node_prev = (\<lambda>_. None),
                  list_head = (\<lambda>_. None), list_tail = (\<lambda>_. None)\<rparr>"

lemma empty_store_rep: "list_rep empty_store (\<lambda>_. [])"
  by (simp add: list_rep_def list_ok_def empty_store_def)

end
