(* ===== verification/SchedProps.thy ===== *)
theory SchedProps
  imports Demo OsList
begin

text \<open>
  The properties of the task table, the scheduler, the context switch and the tick, each with an
  application at a concrete state of \<^verbatim>\<open>Demo\<close>.
\<close>



text \<open>
  C2. The context switch picks the right task. Unless the scheduler is locked over a running task,
  the core's next task is READY, may run on this core, has the greatest priority of all such tasks,
  and is the first of them in its ready list; the idle task runs only if there is none.
\<close>

theorem context_switch_picks_highest:
  assumes "kwf {} s" "this_core s < core_count s" "lock_count s (this_core s) = 0"
    and "\<not> halted (os_task_stack_save_current mem sp s)"
  shows "let s1 = os_task_stack_save_current mem sp s; s2 = snd (context_switch mem sp s);
             core = this_core s
    in case current s2 core of
      None \<Rightarrow> False
    | Some t \<Rightarrow>
        task_state (tcb_of s2 t) = OS_TASK_STATE_RUNNING \<and>
        (if t = Idle core then \<forall>x. \<not> eligible core s1 x
         else eligible core s1 t \<and>
              (\<forall>x. eligible core s1 x \<longrightarrow> priority (tcb_of s1 x) \<le> priority (tcb_of s1 t)) \<and>
              (\<exists>pre post. ready_list s1 (priority (tcb_of s1 t)) = pre @ t # post \<and>
                 (\<forall>x \<in> set pre. \<not> can_run_here core s1 x)))"
proof -
  let ?s1 = "os_task_stack_save_current mem sp s"
  note v = save_current_kwf(1-5) [OF assms(1), of mem sp]
  have "os_task_stack_select_next ?s1 = select_switch (this_core s) ?s1"
    using v(3,5) assms(3) by (simp add: os_task_stack_select_next_def Let_def split: option.split)
  then have e: "context_switch mem sp s = select_switch (this_core s) ?s1"
    using assms(4) by (simp add: context_switch_def)
  show ?thesis
    unfolding e Let_def using select_switch_choice [OF v(1), of "this_core s"]
    by (auto split: option.splits)
qed

definition guarded :: stack_memory where
  "guarded = (\<lambda>_. 0xA5)"

theorem context_switch_picks_highest_witness:
  "\<exists>t. current (snd (context_switch guarded 2400 high_runs)) 0 = Some t \<and>
     task_state (tcb_of (snd (context_switch guarded 2400 high_runs)) t) = OS_TASK_STATE_RUNNING"
proof -
  have c: "this_core high_runs = 0" "this_core high_runs < core_count high_runs"
    "lock_count high_runs (this_core high_runs) = 0" by (simp_all add: demo_states)
  have "\<not> halted (os_task_stack_save_current guarded 2400 high_runs)" by code_simp
  from context_switch_picks_highest [OF high_runs_kwf c(2,3) this]
  show ?thesis unfolding c(1) Let_def by (auto split: option.splits)
qed



text \<open>
  C4. The tick wakes exactly the sleepers whose time has come. Of the tasks in the delta queue,
  those with a deadline of at most the elapsed ticks become READY; the others stay as they are and
  have exactly the difference left; no task outside the queue changes its state.
\<close>

theorem tick_update_exact:
  assumes "kwf {} s" "e \<noteq> 0"
  shows "task_state (tcb_of (os_task_tick_update e s) x) =
       (case sleepers.deadline s x of
          None \<Rightarrow> task_state (tcb_of s x)
        | Some n \<Rightarrow> if n \<le> unat e then OS_TASK_STATE_READY else task_state (tcb_of s x)) \<and>
    sleepers.deadline (os_task_tick_update e s) x =
       (case sleepers.deadline s x of
          None \<Rightarrow> None | Some n \<Rightarrow> if n \<le> unat e then None else Some (n - unat e))"
  using os_task_tick_update_spec(3,4) [OF assms(1), of e x] assms(2)
  by (simp_all add: unat_gt_0 split: option.splits)

theorem tick_update_exact_witness:
  "task_state (tcb_of (os_task_tick_update 50 low_boosted) (Slot 1)) = OS_TASK_STATE_READY"
  using tick_update_exact [OF low_boosted_kwf, of 50 "Slot 1"]
  by (simp add: sleepers.deadline_def demo_states demo_tcbs)

text \<open>
  C5. A sleeping call stores the caller in the delta queue under exactly the ticks it asked for,
  and neither this nor the removal of any task moves another sleeper's deadline.
\<close>

theorem sleep_deadlines_exact:
  assumes "kwf {} s" "t \<notin> set (delay_list s)" "r \<noteq> OS_WAIT_FOREVER"
  shows "sleepers.deadline (os_task_delay_insert t r s) t = Some (unat r) \<and>
    (\<forall>x. x \<noteq> t \<longrightarrow> sleepers.deadline (os_task_delay_insert t r s) x = sleepers.deadline s x) \<and>
    (\<forall>x y. x \<noteq> y \<longrightarrow> sleepers.deadline (os_task_delay_remove y s) x = sleepers.deadline s x)"
  using sleepers.arm_deadline [OF kwf_queue_ok [OF assms(1)] assms(2)]
    sleepers.disarm_deadline [OF kwf_queue_ok [OF assms(1)]] by simp_all

theorem sleep_deadlines_exact_witness:
  "sleepers.deadline (os_task_delay_insert (Slot 0) 20 low_boosted) (Slot 0) = Some (unat (20 :: u32))"
  using sleep_deadlines_exact [OF low_boosted_kwf, of "Slot 0" 20]
  by (simp add: demo_states OS_WAIT_FOREVER_def)



text \<open>
  A successful creation claims the lowest free slot, leaves the new task SUSPENDED with the
  priority it was given, hands out an id that resolves to exactly this task, advances only this
  slot's generation and changes no other control block.
\<close>

theorem create_claims_first_free_slot:
  assumes "create_claim st c sys sp h s = (OS_ERR_NONE, h', s')" "slots_ok s"
  shows "\<exists>i < table_size s.
    task_state (tcb_of s (Slot i)) = OS_TASK_STATE_INACTIVE \<and>
    (\<forall>j < i. task_state (tcb_of s (Slot j)) \<noteq> OS_TASK_STATE_INACTIVE) \<and>
    os_task_find_by_id (ident h') s' = Some (Slot i) \<and>
    task_state (tcb_of s' (Slot i)) = OS_TASK_STATE_SUSPENDED \<and>
    priority (tcb_of s' (Slot i)) = config_priority c \<and>
    next_generation s' = (next_generation s)(i := next_gen (next_generation s i)) \<and>
    (\<forall>x. x \<noteq> Slot i \<longrightarrow> tcb_of s' x = tcb_of s x)"
  using create_claim_ok [OF assms] by blast

definition demo_storage :: os_task_storage_t where
  "demo_storage = \<lparr>st_name = None, st_stack = Some 4096, st_bytes = 512\<rparr>"

definition demo_config :: os_task_config_t where
  "demo_config = \<lparr>entry_point = Some 7, entry_context = 0, config_priority = 9, config_affinity = 0\<rparr>"

theorem create_claims_first_free_slot_witness:
  "\<exists>i < table_size low_runs. \<exists>(h' :: os_task_t) (s' :: kstate). task_state (tcb_of low_runs (Slot i)) = OS_TASK_STATE_INACTIVE \<and>
     os_task_find_by_id (ident h') s' = Some (Slot i) \<and>
     task_state (tcb_of s' (Slot i)) = OS_TASK_STATE_SUSPENDED"
proof -
  let ?r = "create_claim demo_storage demo_config False 4544 (handle 0) low_runs"
  have "fst ?r = OS_ERR_NONE" by code_simp
  then have "?r = (OS_ERR_NONE, fst (snd ?r), snd (snd ?r))" by (simp add: prod_eq_iff)
  moreover have "slots_ok low_runs" by (simp add: slots_ok_def demo_states)
  ultimately obtain i where "i < table_size low_runs"
    "task_state (tcb_of low_runs (Slot i)) = OS_TASK_STATE_INACTIVE"
    "os_task_find_by_id (ident (fst (snd ?r))) (snd (snd ?r)) = Some (Slot i)"
    "task_state (tcb_of (snd (snd ?r)) (Slot i)) = OS_TASK_STATE_SUSPENDED"
    using create_claims_first_free_slot by meson
  then show ?thesis by blast
qed

text \<open>
  C7. Waking and unlinking recurse through priority inheritance, and the recursion is bounded: a
  nesting depth of two already gives the result of every greater depth.
\<close>

theorem unlink_depth_two_suffices:
  assumes "kwf {} s" "is_slot t"
  shows "unlink_depth (Suc (Suc n)) t s = os_task_unlink t s"
  by (rule unlink_depth_enough [OF assms]) simp_all

theorem unlink_depth_two_suffices_witness:
  "unlink_depth (Suc (Suc 7)) (Slot 1) low_boosted = os_task_unlink (Slot 1) low_boosted"
  by (rule unlink_depth_two_suffices [OF low_boosted_kwf]) simp

text \<open>
  C8. A woken task that outranks some core it may run on gets a switch or an inter-core interrupt
  requested on a core where it outranks, provided it may run on the waking core.
\<close>

theorem preemption_is_requested:
  assumes "core_count s \<le> 1 \<or> affinity_allows (core_affinity (tcb_of s t)) (this_core s)"
    and "c < core_count s" "outranks t c s" "this_core s < core_count s"
    and "affinity_allows (core_affinity (tcb_of s t)) c"
  shows "outranks t (this_core s) s \<and>
       (switch_req (os_task_preempt_request t s) (this_core s) \<or>
        switch_pending (os_task_preempt_request t s) (this_core s)) \<or>
     (\<exists>c' < core_count s. affinity_allows (core_affinity (tcb_of s t)) c' \<and> outranks t c' s \<and>
        ipi_req (os_task_preempt_request t s) c')"
  by (rule preempt_request_reaches [OF assms(1,2,3,4,5)])

theorem preemption_is_requested_witness:
  "\<exists>c. outranks (Slot 1) c low_runs \<and>
     (switch_req (os_task_preempt_request (Slot 1) low_runs) c \<or>
      switch_pending (os_task_preempt_request (Slot 1) low_runs) c \<or>
      ipi_req (os_task_preempt_request (Slot 1) low_runs) c)"
proof -
  have "core_count low_runs = 1" "this_core low_runs = 0" "outranks (Slot 1) 0 low_runs"
    "affinity_allows (core_affinity (tcb_of low_runs (Slot 1))) 0"
    by (simp_all add: demo_states demo_tcbs outranks_def affinity_allows_def OS_TASK_CORE_ANY_def)
  then show ?thesis using preemption_is_requested [of low_runs "Slot 1" 0] by auto
qed





end
