(* ===== verification/SyncProps.thy ===== *)
theory SyncProps
  imports Demo
begin

text \<open>
  The properties of the blocking objects: mutexes with priority inheritance and semaphores, and the
  timeout arithmetic they share.
\<close>

text \<open>
  C11. Mutual exclusion. A lock call that succeeds returns with the mutex locked under the
  caller's id, and it keeps the invariants: a mutex is in a task's list of held mutexes exactly
  when it is locked and its owner id names that task, so two tasks never hold one mutex. This holds
  for every behaviour of the rest of the system that keeps the invariants while the caller waits.
\<close>

theorem mutex_lock_owns:
  assumes "mutex_ready (os_task_current_id_get s) (s, ())" "\<not> in_isr s"
    and "\<And>k x. mutex_sound x \<Longrightarrow> mutex_ready (os_task_current_id_get s) (env k x)"
    and "os_mutex_lock fuel hz env (Some m) timeout_ms s = Some (e, s')"
  shows "e \<in> {OS_ERR_NONE, OS_ERR_BUSY, OS_ERR_TIMEOUT} \<and> kwf {} s' \<and> mutex_wf s' \<and>
    (e = OS_ERR_NONE \<longrightarrow>
       mutexes s' m = \<lparr>locked = True, owner_id = os_task_current_id_get s\<rparr>)"
proof -
  from assms(2,4) obtain u where "wait_loop fuel (mutex_attempt m timeout_ms (os_task_current_id_get s))
      mutex_expired env (os_internal_timeout_to_ticks hz timeout_ms) (os_internal_wait_origin s)
      (os_internal_timeout_to_ticks hz timeout_ms) (s, ()) = Some (e, s', u)"
    by (auto simp: os_mutex_lock_def Let_def)
  from mutex_call.loop_result [OF assms(1,3) this] show ?thesis
    by (auto simp: mutex_sound_def mutex_post_def)
qed

lemma low_runs_ready: "mutex_ready 0x01000001 (low_runs, ())"
proof -
  have find: "os_task_find_by_id 0x01000001 low_runs = Some (Slot 0)"
    "os_task_find_by_id 0x02000001 low_runs = Some (Slot 1)" by code_simp+
  have "names_wf low_runs"
    unfolding names_wf_def
  proof (intro allI impI)
    fix t assume "task_id (tcb_of low_runs t) \<noteq> 0"
    then have "t = Slot 0 \<or> t = Slot 1" by (auto simp: demo_states demo_tcbs split: if_splits)
    then show "os_task_find_by_id (task_id (tcb_of low_runs t)) low_runs = Some t"
      using find by (auto simp: demo_states demo_tcbs)
  qed
  moreover have "mutex_wf low_runs" by (auto simp: mutex_wf_def demo_states demo_tcbs)
  moreover have "dispatched low_runs"
    using low_runs_kwf by (simp add: dispatched_def demo_states demo_tcbs)
  moreover have "os_task_current_id_get low_runs = 0x01000001" by code_simp
  ultimately show ?thesis by (simp add: mutex_ready_def)
qed

theorem mutex_lock_owns_witness:
  "\<exists>s'. os_mutex_lock 1 1000 (\<lambda>k x. (low_runs, ())) (Some 0) 10 low_runs = Some (OS_ERR_NONE, s') \<and>
     mutexes s' 0 = \<lparr>locked = True, owner_id = 0x01000001\<rparr>"
proof -
  have i: "os_task_current_id_get low_runs = 0x01000001" by code_simp
  have r: "mutex_ready (os_task_current_id_get low_runs) (low_runs, ())"
    using low_runs_ready i by simp
  have isr: "\<not> in_isr low_runs" by (simp add: demo_states)
  have "\<not> locked (mutexes low_runs 0)" by (simp add: demo_states)
  then obtain s' where s': "os_mutex_lock 1 1000 (\<lambda>k x. (low_runs, ())) (Some 0) 10 low_runs = Some (OS_ERR_NONE, s')"
    using isr by (simp add: os_mutex_lock_def mutex_attempt_def Let_def)
  show ?thesis using mutex_lock_owns [OF r isr _ s'] r s' i by simp
qed

text \<open>
  Only the owner releases a mutex. An unlock by another task is refused and changes nothing; an
  accepted unlock frees the mutex, keeps the ownership invariant, and when tasks were waiting it
  makes one of them READY and takes it, and no other, off the waiter list.
\<close>

theorem mutex_unlock_releases:
  assumes "kwf {} s" "names_wf s" "mutex_wf s"
  shows "(fst (os_mutex_unlock (Some m) s) \<noteq> OS_ERR_NONE \<longrightarrow> snd (os_mutex_unlock (Some m) s) = s) \<and>
    (\<not> in_isr s \<and> locked (mutexes s m) \<and> owner_id (mutexes s m) \<noteq> 0 \<and>
      os_task_current_id_get s \<noteq> 0 \<and> owner_id (mutexes s m) \<noteq> os_task_current_id_get s \<longrightarrow>
      fst (os_mutex_unlock (Some m) s) = OS_ERR_NOT_OWNER) \<and>
    mutex_wf (snd (os_mutex_unlock (Some m) s)) \<and>
    (fst (os_mutex_unlock (Some m) s) = OS_ERR_NONE \<longrightarrow>
      \<not> locked (mutexes (snd (os_mutex_unlock (Some m) s)) m) \<and>
      (wlist s (MutexWaiters m) \<noteq> [] \<longrightarrow>
       (\<exists>h \<in> set (wlist s (MutexWaiters m)).
          task_state (tcb_of (snd (os_mutex_unlock (Some m) s)) h) = OS_TASK_STATE_READY \<and>
          set (wlist (snd (os_mutex_unlock (Some m) s)) (MutexWaiters m)) =
            set (wlist s (MutexWaiters m)) - {h})))"
proof -
  have "mutex_wf (snd (os_mutex_unlock (Some m) s))"
    using os_mutex_unlock_sound [OF assms, of "Some m"] by (simp add: mutex_sound_def)
  moreover have "\<not> locked (mutexes (snd (os_mutex_unlock (Some m) s)) m)"
    if "fst (os_mutex_unlock (Some m) s) = OS_ERR_NONE"
    using os_mutex_unlock_effect(1) [OF assms(1) that] by simp
  ultimately show ?thesis
    by (simp add: os_mutex_unlock_refused os_mutex_unlock_not_owner os_mutex_unlock_effect(2) [OF assms(1)])
qed

theorem mutex_unlock_releases_witness:
  "mutex_wf (snd (os_mutex_unlock (Some 0) low_runs))"
  using mutex_unlock_releases [OF low_runs_kwf, of 0] low_runs_ready by (simp add: mutex_ready_def)



text \<open>
  C13. The lift is given back exactly. When the owner releases a mutex that had waiters, its
  priority becomes the greatest of its base priority and of every waiter, not just the first, of
  every mutex it still holds.
\<close>

theorem mutex_release_restores_priority:
  assumes "kwf {} s" "os_task_find_by_id i s = Some t" "wlist s (MutexWaiters m) \<noteq> []"
    and "blocked_on_mutex (tcb_of s t) = None" "distinct (owned_mutexes (tcb_of s t))"
  shows "priority (tcb_of (os_task_mutex_owner_unlink_and_reprioritize i m s) t) =
     Max (insert (base_priority (tcb_of s t))
       (\<Union>m' \<in> set (owned_mutexes (tcb_of s t)) - {m}.
          (\<lambda>x. priority (tcb_of s x)) ` set (wlist s (MutexWaiters m'))))"
  by (rule owner_unlink_exact [OF assms])

theorem mutex_release_restores_priority_witness:
  "priority (tcb_of (os_task_mutex_owner_unlink_and_reprioritize 0x01000001 0 low_boosted) (Slot 0)) = 5"
proof -
  have f: "os_task_find_by_id 0x01000001 low_boosted = Some (Slot 0)" by code_simp
  show ?thesis using mutex_release_restores_priority [OF low_boosted_kwf f, of 0]
    by (simp add: demo_states demo_tcbs)
qed

text \<open>
  C14. The deadlock check answers yes exactly when following, from the mutex, owner after owner
  along waits that will never time out leads back to the calling task within eight hops.
\<close>

theorem deadlock_check_is_owner_cycle:
  assumes "current s (this_core s) = Some cur"
  shows "os_task_mutex_deadlock_check m s \<longleftrightarrow> (\<exists>k < 8. owner_after s m k = Some cur)"
  by (rule os_task_mutex_deadlock_check_iff [OF assms])

theorem deadlock_check_is_owner_cycle_witness:
  "os_task_mutex_deadlock_check 0 low_boosted \<longleftrightarrow> (\<exists>k < 8. owner_after low_boosted 0 k = Some (Slot 0))"
  by (rule deadlock_check_is_owner_cycle) (simp add: demo_states)

text \<open>
  C15. A semaphore neither loses nor invents tokens. Over any history of gives and takes, blocked
  and retried takes included, the count plus the successful takes equals the initial count plus the
  successful gives, and the count never exceeds the maximum.
\<close>

theorem semaphore_conserves_tokens:
  assumes "sem_history o0 s o1 gives takes" "sem_count o0 \<le> sem_max o0"
  shows "unat (sem_count o1) + takes = unat (sem_count o0) + gives \<and> sem_count o1 \<le> sem_max o0"
  using sem_history_balance [OF assms(1)] assms(2) by (auto simp: sem_ok_def)

definition demo_sem :: os_sem_t where
  "demo_sem = \<lparr>sem_ref = 3, sem_count = 1, sem_max = 2\<rparr>"

theorem semaphore_conserves_tokens_witness:
  "\<exists>s o1. sem_history demo_sem s o1 1 0 \<and> unat (sem_count o1) + 0 = unat (sem_count demo_sem) + 1"
proof -
  let ?r = "os_sem_give (Some demo_sem) low_runs"
  have "fst ?r = OS_ERR_NONE" by code_simp
  moreover have "fst (snd ?r) \<noteq> None" by code_simp
  ultimately obtain s' o2 where g: "?r = (OS_ERR_NONE, Some o2, s')" by (cases ?r) auto
  have h: "sem_history demo_sem s' o2 (if OS_ERR_NONE = OS_ERR_NONE then Suc 0 else 0) 0"
    by (rule sem_history.give [OF sem_history.start g])
  then have h1: "sem_history demo_sem s' o2 1 0" by simp
  show ?thesis using semaphore_conserves_tokens [OF h1] h1 by (auto simp: demo_sem_def)
qed

text \<open>
  A give with tasks waiting readies the first waiter, whose priority no other waiter exceeds,
  and takes it off the waiter list.
\<close>

theorem semaphore_give_wakes_most_urgent:
  assumes "kwf {} s" "wlist s (SemWaiters (sem_ref o1)) = h # rest" "sem_count o1 < sem_max o1"
  shows "fst (os_sem_give (Some o1) s) = OS_ERR_NONE \<and>
    task_state (tcb_of (snd (snd (os_sem_give (Some o1) s))) h) = OS_TASK_STATE_READY \<and>
    h \<notin> set (wlist (snd (snd (os_sem_give (Some o1) s))) (SemWaiters (sem_ref o1))) \<and>
    (\<forall>x \<in> set rest. priority (tcb_of s x) \<le> priority (tcb_of s h))"
  using os_sem_give_wakes [OF assms] by simp_all

theorem semaphore_give_wakes_most_urgent_witness:
  "task_state (tcb_of (snd (snd (os_sem_give (Some demo_sem) sem_waited))) (Slot 1)) = OS_TASK_STATE_READY"
  using semaphore_give_wakes_most_urgent [OF sem_waited_kwf, of demo_sem "Slot 1" "[]"]
  by (simp add: demo_states demo_sem_def word_less_nat_alt)

text \<open>
  Timeouts. A finite timeout in milliseconds becomes the ceiling of its exact length in ticks,
  capped one below the forever value; and what remains of a budget \<open>n\<close> ticks later is the budget
  less \<open>n\<close>, or zero, also when the 32-bit tick counter wrapped in between.
\<close>

theorem timeout_arithmetic:
  assumes "0 < unat hz" "unat hz \<le> 1000000000" "ms \<noteq> OS_WAIT_FOREVER"
    and "budget \<noteq> OS_WAIT_FOREVER" "tick_count s = start + word_of_nat n" "n < 4294967296"
  shows "unat (os_internal_timeout_to_ticks hz ms) = min ((unat ms * unat hz + 999) div 1000) 4294967294 \<and>
    unat (os_internal_wait_remaining budget start s) = unat budget - n"
  using timeout_to_ticks_value [OF assms(1,2,3)] wait_remaining_exact [OF assms(4,5,6)] by simp_all

theorem timeout_arithmetic_witness:
  "unat (os_internal_wait_remaining 30 0xFFFFFFFF low_runs) = unat (30 :: u32) - 101"
  using timeout_arithmetic [where hz = 100 and ms = 5 and budget = 30 and s = low_runs and
      start = "0xFFFFFFFF" and n = 101]
  by (simp add: demo_states OS_WAIT_FOREVER_def)

text \<open>
  C16. A semaphore take with a finite timeout returns. If time passes while the caller is blocked, at
  least a tick for each time it sleeps, the call comes back with a result after at most as many
  rounds as its budget has ticks, whatever else the system does.
\<close>

theorem semaphore_take_returns:
  assumes "dispatched s" "sem_ok o1" "timeout_ms \<noteq> OS_WAIT_FOREVER"
    and hz: "0 < unat hz" "unat hz \<le> 1000000000"
    and env: "\<And>k s o1. kwf {} s \<and> sem_ok o1 \<and> sem_max o1 = m \<Longrightarrow>
       (case env k (s, o1) of (s', o2) \<Rightarrow> dispatched s' \<and> sem_ok o2 \<and> sem_max o2 = m)"
    and time: "\<And>k x. unat (tick_count (fst x) - tick_count s) < 4294967295 \<Longrightarrow>
       unat (tick_count (fst x) - tick_count s) < unat (tick_count (fst (env k x)) - tick_count s)"
    and "sem_max o1 = m"
  shows "\<exists>e s' o2. os_sem_take (unat (os_internal_timeout_to_ticks hz timeout_ms) + 1) hz env (Some o1)
     timeout_ms s = Some (e, s', Some o2) \<and> e \<in> {OS_ERR_NONE, OS_ERR_EMPTY, OS_ERR_TIMEOUT}"
proof -
  let ?b = "os_internal_timeout_to_ticks hz timeout_ms"
  have fin: "?b \<noteq> OS_WAIT_FOREVER"
    using timeout_to_ticks_value [OF hz assms(3)] by (simp add: word32_not_forever_iff)
  have start: "os_internal_wait_origin s = tick_count s"
    by (simp add: os_internal_wait_origin_def os_tick_get_def)
  have rd: "case (s, o1) of (s, o1) \<Rightarrow> dispatched s \<and> sem_ok o1 \<and> sem_max o1 = m"
    using assms by simp
  have ev: "case env k x of (s, o1) \<Rightarrow> dispatched s \<and> sem_ok o1 \<and> sem_max o1 = m"
    if "case x of (s, o1) \<Rightarrow> kwf {} s \<and> sem_ok o1 \<and> sem_max o1 = m" for k x
    using env [of "fst x" "snd x" k] that by (simp add: split_beta)
  have "\<exists>e st'. wait_loop (unat ?b + 1) (sem_attempt timeout_ms) sem_expired env ?b (tick_count s) ?b (s, o1)
      = Some (e, st')"
  proof (rule sem_call.loop_returns [OF rd ev fin])
    show "tick_count (fst x') = tick_count (fst x)"
      if r: "case x of (s, o1) \<Rightarrow> dispatched s \<and> sem_ok o1 \<and> sem_max o1 = m"
        and a: "sem_attempt timeout_ms r x = (out, x')" for r x x' out
    proof -
      obtain s o1 s' o2 where x: "x = (s, o1)" "x' = (s', o2)" by (cases x, cases x')
      have "dispatched s" using r x by simp
      then have "same_env s s'" using sem_attempt_kwf(2) a x by simp
      then show ?thesis using x by (simp add: same_env_def)
    qed
    show "fst (sem_attempt timeout_ms r x) \<noteq> Halt" for r x
      by (auto simp: sem_attempt_def split: prod.split)
    show "unat (tick_count (fst x) - tick_count s) < unat (tick_count (fst (env k x)) - tick_count s)"
      if "unat (tick_count (fst x) - tick_count s) < unat ?b" for k x
      using time [of x k] that fin by (simp add: word32_not_forever_iff)
    show "?b = os_internal_wait_remaining ?b (tick_count s) (fst (s, o1))"
      using wait_remaining_exact [OF fin, of s "tick_count s" 0] by (simp add: word_unat_eq_iff)
  qed simp_all
  then obtain e st' where w: "wait_loop (unat ?b + 1) (sem_attempt timeout_ms) sem_expired env ?b
      (tick_count s) ?b (s, o1) = Some (e, st')" by blast
  then show ?thesis
    using sem_call.loop_result [OF rd ev w] start
    by (cases st') (auto simp: os_sem_take_def Let_def)
qed

definition ticking :: "nat \<Rightarrow> kstate \<times> os_sem_t \<Rightarrow> kstate \<times> os_sem_t" where
  "ticking k x = (low_runs\<lparr>tick_count := tick_count (fst x) + 1\<rparr>, snd x)"

lemma low_runs_tick_dispatched: "dispatched (low_runs\<lparr>tick_count := n\<rparr>)"
proof -
  have "kwf {} (low_runs\<lparr>tick_count := n\<rparr>) = kwf {} low_runs"
    by (rule same_view_kwf) (simp add: same_view_def)
  then show ?thesis
    using low_runs_kwf by (simp add: dispatched_def demo_states demo_tcbs)
qed

theorem semaphore_take_returns_witness:
  "\<exists>e s' o2. os_sem_take (unat (os_internal_timeout_to_ticks 1000 3) + 1) 1000 ticking
     (Some (demo_sem\<lparr>sem_count := 0\<rparr>)) 3 low_runs = Some (e, s', Some o2) \<and>
     e \<in> {OS_ERR_NONE, OS_ERR_EMPTY, OS_ERR_TIMEOUT}"
proof (rule semaphore_take_returns)
  show "dispatched low_runs" using low_runs_tick_dispatched [of 100] by (simp add: demo_states)
  show "case ticking k (s, o1) of (s', o2) \<Rightarrow> dispatched s' \<and> sem_ok o2 \<and> sem_max o2 = 2"
    if "kwf {} s \<and> sem_ok o1 \<and> sem_max o1 = 2" for k s o1
    using that low_runs_tick_dispatched by (simp add: ticking_def)
  show "unat (tick_count (fst x) - tick_count low_runs)
      < unat (tick_count (fst (ticking k x)) - tick_count low_runs)"
    if "unat (tick_count (fst x) - tick_count low_runs) < 4294967295" for k x
  proof -
    have "unat (tick_count (fst x) - tick_count low_runs + 1) =
        unat (tick_count (fst x) - tick_count low_runs) + unat (1 :: u32)"
      using that by (intro unat_add_lt) simp
    then show ?thesis by (simp add: ticking_def diff_add_eq)
  qed
qed (simp_all add: sem_ok_def demo_sem_def OS_WAIT_FOREVER_def)

end
