(* ===== verification/Event.thy ===== *)
theory Event
  imports Waiting
begin

text \<open>
  Event flags, \<^verbatim>\<open>kernel/os_event.c\<close>. A waiter stores the bits it wants and how it wants them in
  its TCB; a set walks the waiter list once with the flags as they are after the set, wakes every
  waiter that is satisfied with the bits that satisfied it, and clears, at the end of the walk, the
  bits of those that asked for it.
\<close>

record os_event_t =
  event_ref :: nat
  flags :: u32

record os_event_match_context_t =
  flags_snapshot :: u32
  clear_accum :: u32

definition OS_EVENT_WAIT_ALL_FLAG :: u32 where "OS_EVENT_WAIT_ALL_FLAG = 1"
definition OS_EVENT_CLEAR_ON_EXIT_FLAG :: u32 where "OS_EVENT_CLEAR_ON_EXIT_FLAG = 2"

definition os_event_init :: "os_event_t option \<Rightarrow> kstate \<Rightarrow> os_err_t \<times> os_event_t option \<times> kstate" where
  "os_event_init event s =
     (case event of
        None \<Rightarrow> (OS_ERR_INVALID_ARG, None, s)
      | Some ev \<Rightarrow>
          if wlist s (EventWaiters (event_ref ev)) \<noteq> [] then (OS_ERR_BUSY, event, s)
          else (OS_ERR_NONE, Some (ev\<lparr>flags := 0\<rparr>), set_wlist (EventWaiters (event_ref ev)) [] s))"

definition os_event_waiter_match ::
  "u32 \<Rightarrow> u32 \<Rightarrow> os_event_match_context_t \<Rightarrow> u32 option \<times> os_event_match_context_t" where
  "os_event_waiter_match data0 data1 ctx =
     (let matched = flags_snapshot ctx AND data0;
          satisfied = (if data1 AND OS_EVENT_WAIT_ALL_FLAG \<noteq> 0 then matched = data0 else matched \<noteq> 0)
      in if satisfied then
           (Some matched,
            if data1 AND OS_EVENT_CLEAR_ON_EXIT_FLAG \<noteq> 0
            then ctx\<lparr>clear_accum := clear_accum ctx OR data0\<rparr> else ctx)
         else (None, ctx))"

definition os_event_set_bits ::
  "os_event_t option \<Rightarrow> u32 \<Rightarrow> kstate \<Rightarrow> os_err_t \<times> os_event_t option \<times> kstate" where
  "os_event_set_bits event bits s =
     (case event of
        None \<Rightarrow> (OS_ERR_INVALID_ARG, None, s)
      | Some ev \<Rightarrow>
          let fl = flags ev OR bits in
          (case os_task_waiters_wake_match (EventWaiters (event_ref ev)) os_event_waiter_match
                  \<lparr>flags_snapshot = fl, clear_accum = 0\<rparr> s of
             (_, ctx, s1) \<Rightarrow>
               (OS_ERR_NONE, Some (ev\<lparr>flags := fl AND NOT (clear_accum ctx)\<rparr>), s1)))"

definition os_event_clear_bits ::
  "os_event_t option \<Rightarrow> u32 \<Rightarrow> os_err_t \<times> os_event_t option" where
  "os_event_clear_bits event bits =
     (case event of
        None \<Rightarrow> (OS_ERR_INVALID_ARG, None)
      | Some ev \<Rightarrow> (OS_ERR_NONE, Some (ev\<lparr>flags := flags ev AND NOT bits\<rparr>)))"

text \<open>One pass of a wait; the last component is what the caller's \<^verbatim>\<open>matched_bits\<close> points to.\<close>

definition event_attempt ::
  "u32 \<Rightarrow> u32 \<Rightarrow> bool \<Rightarrow> bool \<Rightarrow> u32 \<Rightarrow> kstate \<times> os_event_t \<times> u32 \<Rightarrow>
     outcome \<times> kstate \<times> os_event_t \<times> u32" where
  "event_attempt timeout_ms bits wait_all clear_on_exit remaining =
     (\<lambda>(s, ev, _).
        let current_flags = flags ev AND bits;
            is_match = (if wait_all then current_flags = bits else current_flags \<noteq> 0);
            wait_flags = (if wait_all then OS_EVENT_WAIT_ALL_FLAG else 0) OR
                         (if clear_on_exit then OS_EVENT_CLEAR_ON_EXIT_FLAG else 0)
        in if is_match then
             (Done OS_ERR_NONE, os_task_wait_end_locked s,
              if clear_on_exit then ev\<lparr>flags := flags ev AND NOT bits\<rparr> else ev, current_flags)
           else if timeout_ms = OS_WAIT_NOTHING \<or> \<not> os_internal_can_block s then
             (Done OS_ERR_BUSY, os_task_wait_end_locked s, ev, current_flags)
           else if remaining = 0 then
             (Done OS_ERR_TIMEOUT, os_task_wait_end_locked s, ev, current_flags)
           else
             (Wait, os_task_wait_begin (EventWaiters (event_ref ev)) remaining
                      (os_task_wait_data_set bits wait_flags s), ev, current_flags))"

definition event_resume ::
  "u32 \<Rightarrow> u32 \<Rightarrow> kstate \<times> os_event_t \<times> u32 \<Rightarrow> resumption \<times> kstate \<times> os_event_t \<times> u32" where
  "event_resume budget start =
     (\<lambda>(s, ev, matched).
        if \<not> os_task_wait_signaled s then (Return OS_ERR_TIMEOUT, os_task_wait_end s, ev, matched)
        else
          let delivered = os_task_wait_result_get s in
          if delivered \<noteq> 0 then (Return OS_ERR_NONE, os_task_wait_end s, ev, delivered)
          else (Retry (os_internal_wait_remaining budget start s), s, ev, matched))"

definition os_event_wait_bits ::
  "nat \<Rightarrow> u32 \<Rightarrow> (nat \<Rightarrow> kstate \<times> os_event_t \<times> u32 \<Rightarrow> kstate \<times> os_event_t \<times> u32) \<Rightarrow>
   os_event_t option \<Rightarrow> u32 \<Rightarrow> bool \<Rightarrow> bool \<Rightarrow> u32 option \<Rightarrow> u32 \<Rightarrow> kstate \<Rightarrow>
     (os_err_t \<times> kstate \<times> os_event_t option \<times> u32 option) option" where
  "os_event_wait_bits fuel hz env event bits wait_all clear_on_exit matched_bits timeout_ms s =
     (case (event, matched_bits) of
        (Some ev, Some m0) \<Rightarrow>
          if bits \<noteq> 0 then
            let budget = os_internal_timeout_to_ticks hz timeout_ms;
                start = os_internal_wait_origin s
            in map_option (\<lambda>(e, s', ev', m). (e, s', Some ev', Some m))
                 (resume_loop fuel (event_attempt timeout_ms bits wait_all clear_on_exit)
                    (event_resume budget start) env budget (s, ev, m0))
          else Some (OS_ERR_INVALID_ARG, s, event, matched_bits)
      | _ \<Rightarrow> Some (OS_ERR_INVALID_ARG, s, event, matched_bits))"

section \<open>Setting flags\<close>

text \<open>The callback's decision as a function of the waiter's data, for given flags.\<close>

definition event_satisfied :: "bool \<Rightarrow> u32 \<Rightarrow> u32 \<Rightarrow> bool" where
  "event_satisfied wait_all bits fl \<longleftrightarrow>
     (if wait_all then fl AND bits = bits else fl AND bits \<noteq> 0)"

definition wants_all :: "kstate \<Rightarrow> tref \<Rightarrow> bool" where
  "wants_all s t \<longleftrightarrow> wait_data1 (tcb_of s t) AND OS_EVENT_WAIT_ALL_FLAG \<noteq> 0"

definition wants_clear :: "kstate \<Rightarrow> tref \<Rightarrow> bool" where
  "wants_clear s t \<longleftrightarrow> wait_data1 (tcb_of s t) AND OS_EVENT_CLEAR_ON_EXIT_FLAG \<noteq> 0"

definition served :: "kstate \<Rightarrow> u32 \<Rightarrow> tref \<Rightarrow> bool" where
  "served s fl t \<longleftrightarrow> event_satisfied (wants_all s t) (wait_data0 (tcb_of s t)) fl"

definition match_value :: "u32 \<Rightarrow> u32 \<Rightarrow> u32 \<Rightarrow> u32 option" where
  "match_value fl a b =
     (if event_satisfied (b AND OS_EVENT_WAIT_ALL_FLAG \<noteq> 0) a fl then Some (fl AND a) else None)"

lemma os_event_waiter_match_pure:
  "flags_snapshot c = fl \<Longrightarrow>
     fst (os_event_waiter_match a b c) = match_value fl a b \<and>
     flags_snapshot (snd (os_event_waiter_match a b c)) = fl"
  by (simp add: os_event_waiter_match_def match_value_def event_satisfied_def Let_def)

lemma accepted_match_value:
  "accepted (match_value fl) s t =
     (if served s fl t then Some (fl AND wait_data0 (tcb_of s t)) else None)"
  by (simp add: accepted_def match_value_def served_def wants_all_def)

text \<open>The bits a set clears again: those of every served waiter that asked for it.\<close>

definition cleared :: "kstate \<Rightarrow> u32 \<Rightarrow> tref list \<Rightarrow> u32 \<Rightarrow> u32" where
  "cleared s fl ts a =
     fold (\<lambda>t a. if served s fl t \<and> wants_clear s t then a OR wait_data0 (tcb_of s t) else a) ts a"

lemma cleared_bit:
  "bit (cleared s fl ts a) i \<longleftrightarrow>
     bit a i \<or> (\<exists>t \<in> set ts. served s fl t \<and> wants_clear s t \<and> bit (wait_data0 (tcb_of s t)) i)"
  by (induction ts arbitrary: a) (auto simp: cleared_def bit_or_iff)

lemma event_match_context:
  assumes "flags_snapshot c = fl"
  shows "snd (os_event_waiter_match (wait_data0 (tcb_of s t)) (wait_data1 (tcb_of s t)) c) =
     c\<lparr>clear_accum := (if served s fl t \<and> wants_clear s t
                       then clear_accum c OR wait_data0 (tcb_of s t) else clear_accum c)\<rparr>"
  using assms
  by (simp add: os_event_waiter_match_def Let_def served_def event_satisfied_def wants_all_def wants_clear_def)

lemma event_fold_context:
  "flags_snapshot c = fl \<Longrightarrow>
   fold (\<lambda>t c. snd (os_event_waiter_match (wait_data0 (tcb_of s t)) (wait_data1 (tcb_of s t)) c)) ts c =
     \<lparr>flags_snapshot = fl, clear_accum = cleared s fl ts (clear_accum c)\<rparr>"
proof (induction ts arbitrary: c)
  case (Cons t ts)
  then show ?case by (simp add: event_match_context [OF Cons.prems] cleared_def)
qed (simp add: cleared_def)

lemma os_event_set_bits_result: "\<exists>ev' s'. os_event_set_bits (Some ev) bits s = (OS_ERR_NONE, Some ev', s')"
  by (auto simp: os_event_set_bits_def Let_def split: prod.split)

lemma event_set_effect:
  assumes k: "kwf {} s" and r: "os_event_set_bits (Some ev) bits s = (e, Some ev', s')"
    and w: "w = EventWaiters (event_ref ev)" and fl: "fl = flags ev OR bits"
  shows "e = OS_ERR_NONE" "kwf {} s'" "same_env s s'"
    "flags ev' = fl AND NOT (cleared s fl (wlist s w) 0)" "event_ref ev' = event_ref ev"
    "t \<in> set (wlist s w) \<Longrightarrow> served s fl t \<Longrightarrow>
       task_state (tcb_of s' t) = OS_TASK_STATE_READY \<and> wait_signaled (tcb_of s' t) \<and>
       wait_result (tcb_of s' t) = fl AND wait_data0 (tcb_of s t)"
    "set (wlist s' w) = {t \<in> set (wlist s w). \<not> served s fl t}"
    "\<not> served s fl t \<or> t \<notin> set (wlist s w) \<Longrightarrow> strip_tcb (tcb_of s' t) = strip_tcb (tcb_of s t)"
proof -
  let ?c = "\<lparr>flags_snapshot = fl, clear_accum = 0\<rparr>"
  let ?m = "wake_match os_event_waiter_match w (wlist s w) ?c s"
  have s': "s' = snd (snd ?m)" and ev': "ev' = ev\<lparr>flags := fl AND NOT (clear_accum (fst (snd ?m)))\<rparr>"
    and "e = OS_ERR_NONE"
    using r by (auto simp: os_event_set_bits_def Let_def os_task_waiters_wake_match_def w fl
        split: prod.splits)
  show "e = OS_ERR_NONE" by fact
  have d: "distinct (wlist s w)" using kwfD(4) [OF k] by (simp add: wait_wf_def)
  have sl: "\<forall>t \<in> set (wlist s w). is_slot t" using waiter_is_slot [OF k] by blast
  have pure: "fst (os_event_waiter_match a b c) = match_value fl a b \<and>
      flags_snapshot (snd (os_event_waiter_match a b c)) = fl" if "flags_snapshot c = fl" for a b c
    using os_event_waiter_match_pure that by blast
  note eff = wake_match_effect [where P = "\<lambda>c. flags_snapshot c = fl" and g = "match_value fl",
      OF k d sl _ pure s', simplified]
  show "kwf {} s'" "same_env s s'" unfolding s' by (rule wake_match_kwf [OF k sl])+
  show "flags ev' = fl AND NOT (cleared s fl (wlist s w) 0)" "event_ref ev' = event_ref ev"
    using eff event_fold_context [of ?c fl s "wlist s w"] by (simp_all add: ev')
  show "t \<in> set (wlist s w) \<Longrightarrow> served s fl t \<Longrightarrow>
       task_state (tcb_of s' t) = OS_TASK_STATE_READY \<and> wait_signaled (tcb_of s' t) \<and>
       wait_result (tcb_of s' t) = fl AND wait_data0 (tcb_of s t)"
    using eff by (simp add: accepted_match_value)
  show "\<not> served s fl t \<or> t \<notin> set (wlist s w) \<Longrightarrow> strip_tcb (tcb_of s' t) = strip_tcb (tcb_of s t)"
    using eff by (auto simp: accepted_match_value)
  show "set (wlist s' w) = {t \<in> set (wlist s w). \<not> served s fl t}"
    using eff by (auto simp: accepted_match_value split: if_splits)
qed

section \<open>Waiting for flags\<close>

lemma event_satisfied_and: "event_satisfied a bits (fl AND bits) \<longleftrightarrow> event_satisfied a bits fl"
  by (simp add: event_satisfied_def and.assoc)

text \<open>
  The result that a set delivered to the calling task, if it delivered one, answers the caller's
  question: the waiter's data is what the wait stored, so this is what \<open>event_set_effect\<close> gives.
\<close>

definition answered :: "u32 \<Rightarrow> bool \<Rightarrow> kstate \<Rightarrow> bool" where
  "answered bits wait_all s \<longleftrightarrow>
     os_task_wait_result_get s \<noteq> 0 \<longrightarrow>
     event_satisfied wait_all bits (os_task_wait_result_get s) \<and>
     os_task_wait_result_get s AND NOT bits = 0"

definition event_post :: "u32 \<Rightarrow> bool \<Rightarrow> os_err_t \<Rightarrow> kstate \<times> os_event_t \<times> u32 \<Rightarrow> bool" where
  "event_post bits wait_all e = (\<lambda>(s, ev, m).
     e \<in> {OS_ERR_NONE, OS_ERR_BUSY, OS_ERR_TIMEOUT} \<and>
     (e = OS_ERR_NONE \<longrightarrow> event_satisfied wait_all bits m \<and> m AND NOT bits = 0))"

lemma event_attempt_sound:
  assumes "dispatched s" "event_attempt ms bits a c r (s, ev, m) = (out, s', ev', m')"
  shows "kwf {} s'" "same_env s s'"
  using assms(2) os_task_wait_end_locked_kwf dispatched_kwf [OF assms(1)]
    data_wait_begin_dispatched [OF assms(1)]
  by (auto simp: event_attempt_def Let_def split: if_splits)

lemma and_and_not: "(fl AND bits) AND NOT (bits :: u32) = 0"
  by (auto simp: bit_eq_iff bit_and_iff bit_not_iff)

interpretation event_call: resuming_call
  "event_attempt ms bits a c" "event_resume budget start" "\<lambda>(s, ev, m). dispatched s"
  "\<lambda>(s, ev, m). dispatched s \<and> answered bits a s" "\<lambda>(s, ev, m). kwf {} s" "event_post bits a"
  for ms bits a c budget start
proof
  fix st st' :: "kstate \<times> os_event_t \<times> u32" and r e
  obtain s ev m s' ev' m' where st: "st = (s, ev, m)" "st' = (s', ev', m')" by (cases st, cases st')
  { assume "case st of (s, ev, m) \<Rightarrow> dispatched s" and x: "event_attempt ms bits a c r st = (Done e, st')"
    then have d: "dispatched s" using st by simp
    show "(case st' of (s, ev, m) \<Rightarrow> kwf {} s) \<and> event_post bits a e st'"
      using x event_attempt_sound [OF d] st
      by (auto simp: event_attempt_def event_post_def Let_def event_satisfied_def and.assoc and_and_not
          split: if_splits) }
  { assume "case st of (s, ev, m) \<Rightarrow> dispatched s" and x: "event_attempt ms bits a c r st = (Wait, st')"
    then have d: "dispatched s" using st by simp
    show "(case st' of (s, ev, m) \<Rightarrow> kwf {} s) \<and> r \<noteq> 0"
      using x event_attempt_sound [OF d] st by (auto simp: event_attempt_def Let_def split: if_splits) }
  { assume "case st of (s, ev, m) \<Rightarrow> dispatched s \<and> answered bits a s"
      and x: "event_resume budget start st = (Return e, st')"
    then have d: "dispatched s" "answered bits a s" using st by auto
    show "(case st' of (s, ev, m) \<Rightarrow> kwf {} s) \<and> event_post bits a e st'"
      using x st d os_task_wait_end_kwf(1) [OF dispatched_kwf [OF d(1)]]
      by (auto simp: event_resume_def event_post_def answered_def Let_def split: if_splits) }
  { assume "case st of (s, ev, m) \<Rightarrow> dispatched s \<and> answered bits a s"
      and "event_resume budget start st = (Retry r, st')"
    then show "case st' of (s, ev, m) \<Rightarrow> dispatched s"
      using st by (auto simp: event_resume_def Let_def split: if_splits) }
qed

end
