(* ===== verification/Notify.thy ===== *)
theory Notify
  imports Waiting
begin

text \<open>
  Direct task notifications, \<^verbatim>\<open>kernel/os_notify.c\<close>: a one-value mailbox in every TCB. A give stores
  the value and wakes the task if it sleeps in a wait; a wait consumes the value. Unlike the other
  blocking calls a wait joins no list: it sleeps, and every pass through the loop looks again.
\<close>

definition upd_slot :: "tref \<Rightarrow> (os_notify_slot_t \<Rightarrow> os_notify_slot_t) \<Rightarrow> kstate \<Rightarrow> kstate" where
  "upd_slot t f s = upd_tcb t (\<lambda>x. x\<lparr>notify := f (notify x)\<rparr>) s"

definition notify_target :: "os_task_t option \<Rightarrow> kstate \<Rightarrow> tref option" where
  "notify_target task s =
     (case task of
        Some h \<Rightarrow> if ident h \<noteq> 0 then os_task_tcb_resolve (ident h) s else None
      | None \<Rightarrow> if \<not> in_isr s then os_task_tcb_current s else None)"

definition os_notify_give :: "os_task_t option \<Rightarrow> u32 \<Rightarrow> kstate \<Rightarrow> os_err_t \<times> kstate" where
  "os_notify_give task v s =
     (case notify_target task s of
        None \<Rightarrow> (OS_ERR_INVALID_ARG, s)
      | Some t \<Rightarrow>
          let s1 = upd_slot t (\<lambda>n. n\<lparr>slot_value := v, slot_pending := True\<rparr>) s in
          (OS_ERR_NONE,
           if os_task_tcb_is_blocked t s1 \<and> slot_waiting (os_task_notify_slot t s1)
           then os_task_wake_locked (Some t) (upd_slot t (\<lambda>n. n\<lparr>slot_waiting := False\<rparr>) s1)
           else s1))"

text \<open>One pass of a wait; the second component is what \<^verbatim>\<open>value_out\<close> points to, if anything.\<close>

definition notify_attempt ::
  "u32 \<Rightarrow> u32 \<Rightarrow> kstate \<times> u32 option \<Rightarrow> outcome \<times> kstate \<times> u32 option" where
  "notify_attempt timeout_ms remaining =
     (\<lambda>(s, out).
        case os_task_tcb_current s of
          None \<Rightarrow> (Done OS_ERR_INVALID_ARG, s, out)
        | Some t \<Rightarrow>
            let s1 = upd_slot t (\<lambda>n. n\<lparr>slot_waiting := False\<rparr>) s;
                slot = os_task_notify_slot t s1
            in if slot_pending slot then
                 (Done OS_ERR_NONE, upd_slot t (\<lambda>n. n\<lparr>slot_pending := False, slot_value := 0\<rparr>) s1,
                  map_option (\<lambda>_. slot_value slot) out)
               else if timeout_ms = OS_WAIT_NOTHING \<or> \<not> os_internal_can_block s1 then
                 (Done OS_ERR_EMPTY, s1, out)
               else if remaining = 0 then (Done OS_ERR_TIMEOUT, s1, out)
               else (Wait, os_task_sleep_ticks remaining
                             (upd_slot t (\<lambda>n. n\<lparr>slot_waiting := True\<rparr>) s1), out))"

definition notify_resume ::
  "u32 \<Rightarrow> u32 \<Rightarrow> kstate \<times> u32 option \<Rightarrow> resumption \<times> kstate \<times> u32 option" where
  "notify_resume budget start st = (Retry (os_internal_wait_remaining budget start (fst st)), st)"

definition os_notify_wait ::
  "nat \<Rightarrow> u32 \<Rightarrow> (nat \<Rightarrow> kstate \<times> u32 option \<Rightarrow> kstate \<times> u32 option) \<Rightarrow>
   u32 \<Rightarrow> u32 option \<Rightarrow> kstate \<Rightarrow> (os_err_t \<times> kstate \<times> u32 option) option" where
  "os_notify_wait fuel hz env timeout_ms value_out s =
     (if in_isr s then Some (OS_ERR_ISR, s, value_out)
      else
        let budget = os_internal_timeout_to_ticks hz timeout_ms;
            start = os_internal_wait_origin s
        in resume_loop fuel (notify_attempt timeout_ms) (notify_resume budget start) env budget
             (s, value_out))"

section \<open>Correctness\<close>

lemma upd_slot_kwf [simp]: "kwf D (upd_slot t f s) = kwf D s"
  by (simp add: upd_slot_def kwf_upd_tcb_view)

lemma upd_slot_env [simp]: "same_env s (upd_slot t f s)"
  by (simp add: upd_slot_def)

lemma upd_slot_simps [simp]:
  "notify (tcb_of (upd_slot t f s) t) = f (notify (tcb_of s t))"
  "task_state (tcb_of (upd_slot t f s) x) = task_state (tcb_of s x)"
  "current (upd_slot t f s) = current s" "this_core (upd_slot t f s) = this_core s"
  "in_isr (upd_slot t f s) = in_isr s" "tick_count (upd_slot t f s) = tick_count s"
  "os_internal_can_block (upd_slot t f s) = os_internal_can_block s"
  "os_task_tcb_current (upd_slot t f s) = os_task_tcb_current s"
  by (simp_all add: upd_slot_def upd_tcb_def os_internal_can_block_def os_task_tcb_current_def
      split: option.split)

lemma notify_target_slot:
  "kwf {} s \<Longrightarrow> notify_target task s = Some t \<Longrightarrow> is_slot t"
  using kwfD(5) [of "{}" s]
  by (auto simp: notify_target_def os_task_tcb_resolve_def os_task_tcb_current_def run_wf_def find_by_id_SomeD
      split: option.splits if_splits)

lemma os_notify_give_kwf:
  assumes k: "kwf {} s"
  shows "kwf {} (snd (os_notify_give task v s))" "same_env s (snd (os_notify_give task v s))"
proof -
  have "kwf {} (snd (os_notify_give task v s)) \<and> same_env s (snd (os_notify_give task v s))"
  proof (cases "notify_target task s")
    case (Some t)
    let ?s1 = "upd_slot t (\<lambda>n. n\<lparr>slot_value := v, slot_pending := True\<rparr>) s"
    let ?s2 = "upd_slot t (\<lambda>n. n\<lparr>slot_waiting := False\<rparr>) ?s1"
    have "kwf {} ?s2" using k by simp
    moreover have "same_env s ?s2" by (rule same_env_trans [OF upd_slot_env upd_slot_env])
    moreover have "kwf {} (os_task_wake_locked (Some t) ?s2)"
      "same_env ?s2 (os_task_wake_locked (Some t) ?s2)"
      using os_task_wake_locked_kwf [of ?s2 "Some t"] calculation notify_target_slot [OF k Some] by simp_all
    ultimately show ?thesis
      using Some k same_env_trans by (auto simp: os_notify_give_def Let_def)
  qed (use k in \<open>simp add: os_notify_give_def\<close>)
  then show "kwf {} (snd (os_notify_give task v s))" "same_env s (snd (os_notify_give task v s))" by blast+
qed

text \<open>What a give leaves behind: the value pending, and a sleeping waiter READY.\<close>

lemma os_notify_give_effect:
  assumes k: "kwf {} s" and t: "notify_target task s = Some t"
  shows "fst (os_notify_give task v s) = OS_ERR_NONE"
    "slot_pending (os_task_notify_slot t (snd (os_notify_give task v s)))"
    "slot_value (os_task_notify_slot t (snd (os_notify_give task v s))) = v"
    "task_state (tcb_of s t) = OS_TASK_STATE_BLOCKED \<Longrightarrow> slot_waiting (notify (tcb_of s t)) \<Longrightarrow>
       task_state (tcb_of (snd (os_notify_give task v s)) t) = OS_TASK_STATE_READY"
    "x \<noteq> t \<Longrightarrow> strip_tcb (tcb_of (snd (os_notify_give task v s)) x) = strip_tcb (tcb_of s x)"
proof -
  let ?s1 = "upd_slot t (\<lambda>n. n\<lparr>slot_value := v, slot_pending := True\<rparr>) s"
  let ?s2 = "upd_slot t (\<lambda>n. n\<lparr>slot_waiting := False\<rparr>) ?s1"
  let ?s3 = "signal_and_ready t (\<lambda>x. x) ?s2"
  let ?b = "task_state (tcb_of s t) = OS_TASK_STATE_BLOCKED \<and> slot_waiting (notify (tcb_of s t))"
  have r: "os_notify_give task v s = (OS_ERR_NONE, if ?b then ?s3 else ?s1)"
    using t by (simp add: os_notify_give_def Let_def os_task_tcb_is_blocked_def os_task_notify_slot_def
        os_task_wake_locked_def)
  have sl: "is_slot t" by (rule notify_target_slot [OF k t])
  have k2: "kwf {} ?s2" using k by simp
  note eff = signal_and_ready_effect [OF k2 sl, of "\<lambda>x. x"]
  have n: "notify (tcb_of ?s3 t) = notify (tcb_of ?s2 t)" by (rule eff(7)) simp_all
  show "fst (os_notify_give task v s) = OS_ERR_NONE" using r by simp
  show "slot_pending (os_task_notify_slot t (snd (os_notify_give task v s)))"
    "slot_value (os_task_notify_slot t (snd (os_notify_give task v s))) = v"
    using n by (simp_all add: r os_task_notify_slot_def)
  show "task_state (tcb_of (snd (os_notify_give task v s)) t) = OS_TASK_STATE_READY"
    if "task_state (tcb_of s t) = OS_TASK_STATE_BLOCKED" "slot_waiting (notify (tcb_of s t))"
    using that eff(3) by (simp add: r)
  show "strip_tcb (tcb_of (snd (os_notify_give task v s)) x) = strip_tcb (tcb_of s x)" if "x \<noteq> t"
    using that eff(2) by (simp add: r others_kept_def upd_slot_def upd_tcb_def)
qed

text \<open>A pending value is consumed by the next pass, whole and once.\<close>

lemma notify_attempt_takes:
  assumes "os_task_tcb_current s = Some t" "slot_pending (os_task_notify_slot t s)"
  shows "\<exists>s'. notify_attempt ms r (s, out) =
      (Done OS_ERR_NONE, s', map_option (\<lambda>_. slot_value (os_task_notify_slot t s)) out) \<and>
    \<not> slot_pending (os_task_notify_slot t s') \<and> slot_value (os_task_notify_slot t s') = 0"
  using assms by (simp add: notify_attempt_def Let_def os_task_notify_slot_def)

lemma notify_attempt_empty:
  assumes "os_task_tcb_current s = Some t" "\<not> slot_pending (os_task_notify_slot t s)"
  shows "fst (notify_attempt ms r (s, out)) \<noteq> Done OS_ERR_NONE"
    "snd (snd (notify_attempt ms r (s, out))) = out"
  using assms by (simp_all add: notify_attempt_def Let_def os_task_notify_slot_def)

lemma notify_caller:
  assumes "dispatched s" "os_task_tcb_current s = Some t" "os_internal_can_block s"
  shows "caller s t"
  using dispatched_caller [OF assms(1,3), of t] assms(2)
  by (auto simp: os_task_tcb_current_def split: option.splits if_splits)

lemma caller_upd_slot: "caller s t \<Longrightarrow> caller (upd_slot x f s) t"
  by (simp add: caller_def)

lemma notify_attempt_sound:
  assumes "dispatched s" "notify_attempt ms r (s, out) = (res, s', out')"
  shows "kwf {} s' \<and> same_env s s'"
proof (cases "os_task_tcb_current s")
  case (Some t)
  let ?s1 = "upd_slot t (\<lambda>n. n\<lparr>slot_waiting := False\<rparr>) s"
  let ?s2 = "upd_slot t (\<lambda>n. n\<lparr>slot_waiting := True\<rparr>) ?s1"
  have k: "kwf {} s" by (rule dispatched_kwf [OF assms(1)])
  have e: "same_env s (upd_slot t f ?s1)" for f by (rule same_env_trans [OF upd_slot_env upd_slot_env])
  have "kwf {} (os_task_sleep_ticks r ?s2) \<and> same_env s (os_task_sleep_ticks r ?s2)"
    if "os_internal_can_block s"
  proof -
    have c: "caller ?s2 t" by (intro caller_upd_slot notify_caller [OF assms(1) Some that])
    have "kwf {} ?s2" using k by simp
    from os_task_sleep_ticks_kwf [OF this c] e same_env_trans show ?thesis by blast
  qed
  then show ?thesis using assms(2) Some k e
    by (auto simp: notify_attempt_def Let_def split: if_splits)
qed (use assms dispatched_kwf in \<open>auto simp: notify_attempt_def\<close>)

definition notify_post :: "os_err_t \<Rightarrow> bool" where
  "notify_post e \<longleftrightarrow> e \<in> {OS_ERR_NONE, OS_ERR_INVALID_ARG, OS_ERR_EMPTY, OS_ERR_TIMEOUT}"

interpretation notify_call: resuming_call
  "notify_attempt ms" "notify_resume budget start" "\<lambda>(s, out). dispatched s" "\<lambda>(s, out). dispatched s"
  "\<lambda>(s, out). kwf {} s" "\<lambda>e st. notify_post e"
  for ms budget start
proof
  fix st st' :: "kstate \<times> u32 option" and r e
  assume rd: "case st of (s, out) \<Rightarrow> dispatched s"
  obtain s out s' out' where st: "st = (s, out)" "st' = (s', out')" by (cases st, cases st')
  have d: "dispatched s" using rd st by simp
  { assume "notify_attempt ms r st = (Done e, st')"
    then show "(case st' of (s, out) \<Rightarrow> kwf {} s) \<and> notify_post e"
      using notify_attempt_sound [OF d] st
      by (auto simp: notify_attempt_def notify_post_def Let_def split: if_splits option.splits) }
  { assume "notify_attempt ms r st = (Wait, st')"
    then show "(case st' of (s, out) \<Rightarrow> kwf {} s) \<and> r \<noteq> 0"
      using notify_attempt_sound [OF d] st
      by (auto simp: notify_attempt_def Let_def split: if_splits option.splits) }
  { assume "notify_resume budget start st = (Return e, st')"
    then show "(case st' of (s, out) \<Rightarrow> kwf {} s) \<and> notify_post e" by (simp add: notify_resume_def) }
  { assume "notify_resume budget start st = (Retry r, st')"
    then show "case st' of (s, out) \<Rightarrow> dispatched s" using rd by (simp add: notify_resume_def) }
qed

end
