(* ===== verification/Fifo.thy ===== *)
theory Fifo
  imports Prelude
begin

text \<open>
  Bounded first-in first-out buffers as the queue and the message buffer use them: what storing and
  taking promise, stated once as a locale, and what it gives for any sequence of the two. The
  second part is the copying of bytes into and out of a byte array, with \<^verbatim>\<open>memcpy\<close> as a function.
\<close>

section \<open>The contract\<close>

datatype 'i fifo_op = Put 'i | Get

text \<open>
  A sequence of operations, in the order in which the critical sections let them through. A put that
  does not fit and a get on an empty buffer are refused. The result lists what was accepted and
  what was delivered.
\<close>

fun fifo_run ::
  "('q \<Rightarrow> 'i list) \<Rightarrow> ('q \<Rightarrow> 'i \<Rightarrow> bool) \<Rightarrow> ('i \<Rightarrow> 'q \<Rightarrow> 'q) \<Rightarrow> ('q \<Rightarrow> 'i \<times> 'q) \<Rightarrow>
   'i fifo_op list \<Rightarrow> 'q \<Rightarrow> 'i list \<times> 'i list \<times> 'q" where
  "fifo_run items fits put get [] q = ([], [], q)"
| "fifo_run items fits put get (Put x # ops) q =
     (if fits q x
      then case fifo_run items fits put get ops (put x q) of (a, d, q') \<Rightarrow> (x # a, d, q')
      else fifo_run items fits put get ops q)"
| "fifo_run items fits put get (Get # ops) q =
     (if items q \<noteq> []
      then case get q of (x, q1) \<Rightarrow>
             case fifo_run items fits put get ops q1 of (a, d, q') \<Rightarrow> (a, x # d, q')
      else fifo_run items fits put get ops q)"

locale bounded_fifo =
  fixes items :: "'q \<Rightarrow> 'i list" and ok :: "'q \<Rightarrow> bool" and fits :: "'q \<Rightarrow> 'i \<Rightarrow> bool"
    and put :: "'i \<Rightarrow> 'q \<Rightarrow> 'q" and get :: "'q \<Rightarrow> 'i \<times> 'q"
  assumes put_items: "ok q \<Longrightarrow> fits q x \<Longrightarrow> items (put x q) = items q @ [x]"
    and put_ok: "ok q \<Longrightarrow> fits q x \<Longrightarrow> ok (put x q)"
    and get_items: "ok q \<Longrightarrow> items q = x # xs \<Longrightarrow> fst (get q) = x \<and> items (snd (get q)) = xs"
    and get_ok: "ok q \<Longrightarrow> items q \<noteq> [] \<Longrightarrow> ok (snd (get q))"
begin

text \<open>Nothing is lost, duplicated, altered or reordered.\<close>

lemma run_conserves:
  "ok q \<Longrightarrow> fifo_run items fits put get ops q = (a, d, q') \<Longrightarrow> d @ items q' = items q @ a \<and> ok q'"
proof (induction ops arbitrary: q a d)
  case (Cons op ops)
  show ?case
  proof (cases op)
    case (Put x)
    show ?thesis
    proof (cases "fits q x")
      case True
      obtain a1 where a1: "fifo_run items fits put get ops (put x q) = (a1, d, q')" "a = x # a1"
        using Cons.prems(2) Put True by (auto split: prod.splits)
      then show ?thesis
        using Cons.IH [OF put_ok [OF Cons.prems(1) True] a1(1)] put_items [OF Cons.prems(1) True] by simp
    next
      case False
      then show ?thesis using Cons Put by simp
    qed
  next
    case Get
    show ?thesis
    proof (cases "items q")
      case Nil
      then show ?thesis using Cons Get by simp
    next
      case (Cons y ys)
      obtain q1 where g: "get q = (y, q1)" "items q1 = ys"
        using get_items [OF Cons.prems(1) Cons] by (cases "get q") auto
      obtain d1 where d1: "fifo_run items fits put get ops q1 = (a, d1, q')" "d = y # d1"
        using Cons.prems(2) Get Cons g by (auto split: prod.splits)
      have "ok q1" using get_ok [OF Cons.prems(1)] Cons g by simp
      then show ?thesis using Cons.IH [OF _ d1(1)] Cons g d1(2) by simp
    qed
  qed
qed simp

end

section \<open>Copying bytes\<close>

text \<open>\<open>memcpy\<close> of \<open>n\<close> bytes of \<open>src\<close> to offset \<open>off\<close>; both ranges lie inside their arrays.\<close>

definition copy_in :: "u8 list \<Rightarrow> nat \<Rightarrow> u8 list \<Rightarrow> nat \<Rightarrow> u8 list" where
  "copy_in buf off src n = take off buf @ take n src @ drop (off + n) buf"

definition copy_out :: "u8 list \<Rightarrow> nat \<Rightarrow> nat \<Rightarrow> u8 list" where
  "copy_out buf off n = take n (drop off buf)"

lemma copy_in_length [simp]:
  "off + n \<le> length buf \<Longrightarrow> n \<le> length src \<Longrightarrow> length (copy_in buf off src n) = length buf"
  by (simp add: copy_in_def)

lemma copy_in_nth:
  assumes "off + n \<le> length buf" "n \<le> length src" "i < length buf"
  shows "copy_in buf off src n ! i = (if off \<le> i \<and> i < off + n then src ! (i - off) else buf ! i)"
  using assms by (auto simp: copy_in_def nth_append min_def)

lemma copy_out_length [simp]: "off + n \<le> length buf \<Longrightarrow> length (copy_out buf off n) = n"
  by (simp add: copy_out_def)

lemma copy_out_in_same:
  "off + n \<le> length buf \<Longrightarrow> n \<le> length src \<Longrightarrow> copy_out (copy_in buf off src n) off n = take n src"
  by (simp add: copy_out_def copy_in_def min_def)

lemma copy_out_in_other:
  assumes "off + n \<le> length buf" "n \<le> length src" "i + k \<le> length buf" "i + k \<le> off \<or> off + n \<le> i"
  shows "copy_out (copy_in buf off src n) i k = copy_out buf i k"
proof (rule nth_equalityI)
  show "length (copy_out (copy_in buf off src n) i k) = length (copy_out buf i k)" using assms by simp
  fix j assume "j < length (copy_out (copy_in buf off src n) i k)"
  then have "j < k" using assms by simp
  then show "copy_out (copy_in buf off src n) i k ! j = copy_out buf i k ! j"
    using assms by (auto simp: copy_out_def copy_in_nth)
qed

end
