(* ===== verification/Mem.thy ===== *)
theory Mem
  imports Prelude
begin

text \<open>
  The kernel heap, \<^verbatim>\<open>kernel/os_mem.c\<close>: a first-fit allocator with an address-ordered free list that
  merges neighbours on free. Addresses are natural numbers and 0 is NULL; sizes are 32-bit words
  with the allocated flag in the top bit. \<open>block m a\<close> is what the memory at address \<open>a\<close> holds when
  it is read as a block header; the list head \<^verbatim>\<open>os_mem_start\<close> is the header at \<open>start_addr\<close>,
  outside the heap. The walks over the free list follow whatever the links say and end only if the
  list does: they are partial functions, and that they return is proved.

  The abstract heap is its layout, the list of the blocks from the bottom of the heap to the end
  marker, each with its size and whether it is in use. \<open>heap_ok m L\<close> says that the memory \<open>m\<close> holds
  the layout \<open>L\<close>; allocating and freeing are then operations on layouts.
\<close>

record os_mem_block_t =
  blk_next :: nat
  blk_size :: u32

record mem_t =
  heap_base :: nat
  heap_bytes :: nat
  start_addr :: nat
  block :: "nat \<Rightarrow> os_mem_block_t"
  mem_end :: nat
  free_bytes :: u32
  min_free_bytes :: u32

definition OS_MEM_ALIGN_MSK :: u32 where "OS_MEM_ALIGN_MSK = 7"
definition OS_MEM_ALLOCATED_MSK :: u32 where "OS_MEM_ALLOCATED_MSK = push_bit 31 1"
definition OS_MEM_HEADER_SIZE :: nat where "OS_MEM_HEADER_SIZE = 8"
definition OS_MEM_MIN_BLOCK_SIZE :: nat where "OS_MEM_MIN_BLOCK_SIZE = 16"

definition upd_block :: "nat \<Rightarrow> (os_mem_block_t \<Rightarrow> os_mem_block_t) \<Rightarrow> mem_t \<Rightarrow> mem_t" where
  "upd_block a f m = m\<lparr>block := (block m)(a := f (block m a))\<rparr>"

definition align_down :: "nat \<Rightarrow> nat" where
  "align_down a = a - a mod 8"

definition os_mem_init :: "mem_t \<Rightarrow> mem_t" where
  "os_mem_init m =
     (let heap_start = align_down (heap_base m + 7);
          heap_end = align_down (heap_base m + heap_bytes m - OS_MEM_HEADER_SIZE);
          bytes = word_of_nat (heap_end - heap_start);
          m1 = upd_block heap_end (\<lambda>_. \<lparr>blk_next = 0, blk_size = 0\<rparr>) (m\<lparr>mem_end := heap_end\<rparr>);
          m2 = upd_block heap_start (\<lambda>_. \<lparr>blk_next = heap_end, blk_size = bytes\<rparr>) m1;
          m3 = upd_block (start_addr m) (\<lambda>_. \<lparr>blk_next = heap_start, blk_size = 0\<rparr>) m2
      in m3\<lparr>free_bytes := bytes, min_free_bytes := bytes\<rparr>)"

definition ensure_init :: "mem_t \<Rightarrow> mem_t" where
  "ensure_init m = (if mem_end m = 0 then os_mem_init m else m)"

text \<open>The first-fit walk: the first block that is large enough, or the end marker, and the one before.\<close>

partial_function (option) find_fit :: "mem_t \<Rightarrow> u32 \<Rightarrow> nat \<Rightarrow> nat \<Rightarrow> (nat \<times> nat) option" where
  "find_fit m need prev blk =
     (if blk \<noteq> mem_end m \<and> blk_size (block m blk) < need
      then find_fit m need blk (blk_next (block m blk)) else Some (prev, blk))"

text \<open>The walk of an insertion: the last list element whose successor is not below the block.\<close>

partial_function (option) find_pred :: "mem_t \<Rightarrow> nat \<Rightarrow> nat \<Rightarrow> nat option" where
  "find_pred m b iter =
     (if blk_next (block m iter) < b then find_pred m b (blk_next (block m iter)) else Some iter)"

definition alloc_need :: "u32 \<Rightarrow> u32" where
  "alloc_need bytes = word_of_nat OS_MEM_HEADER_SIZE + ((bytes + OS_MEM_ALIGN_MSK) AND NOT OS_MEM_ALIGN_MSK)"

definition alloc_take :: "u32 \<Rightarrow> nat \<Rightarrow> nat \<Rightarrow> mem_t \<Rightarrow> mem_t" where
  "alloc_take need prev blk m =
     (let next_free = blk_next (block m blk);
          m1 = (if blk_size (block m blk) - need \<ge> word_of_nat OS_MEM_MIN_BLOCK_SIZE then
                  let remainder = blk + unat need in
                  upd_block blk (\<lambda>x. x\<lparr>blk_size := need\<rparr>)
                    (upd_block prev (\<lambda>x. x\<lparr>blk_next := remainder\<rparr>)
                      (upd_block remainder
                        (\<lambda>_. \<lparr>blk_next = next_free, blk_size = blk_size (block m blk) - need\<rparr>) m))
                else upd_block prev (\<lambda>x. x\<lparr>blk_next := next_free\<rparr>) m);
          fb = free_bytes m1 - blk_size (block m1 blk);
          m2 = m1\<lparr>free_bytes := fb,
                  min_free_bytes := (if fb < min_free_bytes m1 then fb else min_free_bytes m1)\<rparr>
      in upd_block blk (\<lambda>x. \<lparr>blk_next = 0, blk_size = blk_size x OR OS_MEM_ALLOCATED_MSK\<rparr>) m2)"

definition os_mem_alloc :: "u32 \<Rightarrow> mem_t \<Rightarrow> (nat \<times> mem_t) option" where
  "os_mem_alloc bytes m =
     (let need = alloc_need bytes in
      if bytes \<noteq> 0 \<and> need \<ge> bytes \<and> need AND OS_MEM_ALLOCATED_MSK = 0 then
        let m1 = ensure_init m in
        case find_fit m1 need (start_addr m1) (blk_next (block m1 (start_addr m1))) of
          None \<Rightarrow> None
        | Some (prev, blk) \<Rightarrow>
            if blk \<noteq> mem_end m1
            then Some (blk + OS_MEM_HEADER_SIZE, alloc_take need prev blk m1)
            else Some (0, m1)
      else Some (0, m))"

definition os_mem_block_plausible :: "nat \<Rightarrow> mem_t \<Rightarrow> bool" where
  "os_mem_block_plausible b m \<longleftrightarrow>
     (let sz = unat (blk_size (block m b) AND NOT OS_MEM_ALLOCATED_MSK) in
      b mod 8 = 0 \<and> sz \<ge> OS_MEM_MIN_BLOCK_SIZE \<and> b \<le> mem_end m \<and> sz \<le> mem_end m - b)"

text \<open>Merging a block with the list element before it, and with the one after it.\<close>

definition join_prev :: "nat \<Rightarrow> nat \<Rightarrow> mem_t \<Rightarrow> nat \<times> mem_t" where
  "join_prev iter b m =
     (if iter + unat (blk_size (block m iter)) = b
      then (iter, upd_block iter (\<lambda>x. x\<lparr>blk_size := blk_size x + blk_size (block m b)\<rparr>) m)
      else (b, m))"

definition join_next :: "nat \<Rightarrow> nat \<Rightarrow> mem_t \<Rightarrow> mem_t" where
  "join_next blk nx m =
     (if blk + unat (blk_size (block m blk)) = nx then
        (if nx \<noteq> mem_end m
         then upd_block blk (\<lambda>x. \<lparr>blk_next = blk_next (block m nx),
                                  blk_size = blk_size x + blk_size (block m nx)\<rparr>) m
         else upd_block blk (\<lambda>x. x\<lparr>blk_next := mem_end m\<rparr>) m)
      else upd_block blk (\<lambda>x. x\<lparr>blk_next := nx\<rparr>) m)"

definition insert_at :: "nat \<Rightarrow> nat \<Rightarrow> mem_t \<Rightarrow> mem_t" where
  "insert_at iter b m =
     (case join_prev iter b m of
        (blk, m1) \<Rightarrow>
          let m2 = join_next blk (blk_next (block m1 iter)) m1 in
          if iter \<noteq> blk then upd_block iter (\<lambda>x. x\<lparr>blk_next := blk\<rparr>) m2 else m2)"

definition os_mem_block_insert :: "nat \<Rightarrow> mem_t \<Rightarrow> mem_t option" where
  "os_mem_block_insert b m = map_option (\<lambda>iter. insert_at iter b m) (find_pred m b (start_addr m))"

definition os_mem_free :: "nat \<Rightarrow> mem_t \<Rightarrow> mem_t option" where
  "os_mem_free memory m =
     (if memory \<noteq> 0 \<and> mem_end m \<noteq> 0 \<and> memory \<ge> heap_base m + OS_MEM_HEADER_SIZE \<and>
         memory < heap_base m + heap_bytes m
      then
        let b = memory - OS_MEM_HEADER_SIZE in
        if blk_size (block m b) AND OS_MEM_ALLOCATED_MSK \<noteq> 0 \<and> blk_next (block m b) = 0 \<and>
           os_mem_block_plausible b m
        then
          let m1 = upd_block b (\<lambda>x. x\<lparr>blk_size := blk_size x AND NOT OS_MEM_ALLOCATED_MSK\<rparr>) m;
              m2 = m1\<lparr>free_bytes := free_bytes m1 + blk_size (block m1 b)\<rparr>
          in os_mem_block_insert b m2
        else Some m
      else Some m)"

definition os_mem_free_get :: "mem_t \<Rightarrow> u32 \<times> mem_t" where
  "os_mem_free_get m = (let m1 = ensure_init m in (free_bytes m1, m1))"

definition os_mem_watermark_get :: "mem_t \<Rightarrow> u32 \<times> mem_t" where
  "os_mem_watermark_get m = (let m1 = ensure_init m in (min_free_bytes m1, m1))"

section \<open>Size words\<close>

lemma allocated_msk: "OS_MEM_ALLOCATED_MSK = 2 ^ 31"
  by (simp add: OS_MEM_ALLOCATED_MSK_def push_bit_eq_mult)

lemma flag_test: "(w AND OS_MEM_ALLOCATED_MSK \<noteq> 0) \<longleftrightarrow> bit w 31"
  unfolding allocated_msk by (rule word_and_shift_iff) simp

lemma flag_clear: "bit (w AND NOT OS_MEM_ALLOCATED_MSK) q \<longleftrightarrow> bit w q \<and> q \<noteq> 31"
  unfolding allocated_msk by (rule bit_clear_bit) simp

lemma flag_set: "bit (w OR OS_MEM_ALLOCATED_MSK) q \<longleftrightarrow> bit w q \<or> q = 31"
  unfolding allocated_msk by (rule bit_set_bit) simp

lemma flag_clear_free: "\<not> bit w 31 \<Longrightarrow> w AND NOT OS_MEM_ALLOCATED_MSK = w"
  by (rule bit_eqI) (auto simp: flag_clear)

lemma flag_clear_set: "(w OR OS_MEM_ALLOCATED_MSK) AND NOT OS_MEM_ALLOCATED_MSK = w AND NOT OS_MEM_ALLOCATED_MSK"
  by (rule bit_eqI) (auto simp: flag_clear flag_set)

lemma flag_clear_idem:
  "(w AND NOT OS_MEM_ALLOCATED_MSK) AND NOT OS_MEM_ALLOCATED_MSK = w AND NOT OS_MEM_ALLOCATED_MSK"
  by (rule bit_eqI) (auto simp: flag_clear)

lemma small_no_flag:
  assumes "unat (w :: u32) < 2147483648"
  shows "\<not> bit w 31"
proof
  assume "bit w 31"
  then have "bit (unat w) 31" by (simp add: bit_unsigned_iff)
  then have "odd (unat w div 2 ^ 31)" by (rule iffD1 [OF bit_iff_odd])
  moreover have "unat w div 2 ^ 31 = 0" using assms by simp
  ultimately show False by (metis even_zero)
qed

lemma no_flag_small:
  assumes "\<not> bit (w :: u32) 31"
  shows "unat w < 2147483648"
proof (rule ccontr)
  assume "\<not> unat w < 2147483648"
  moreover have "unat w < 4294967296" using unsigned_less [of w] by simp
  ultimately have "unat w div 2 ^ 31 = 1" by (simp add: div_nat_eqI)
  then have "odd (unat w div 2 ^ 31)" by (metis odd_one)
  then have "bit (unat w) 31" by (rule iffD2 [OF bit_iff_odd])
  then show False using assms by (metis bit_unsigned_iff)
qed

lemma align_up_unat:
  assumes "unat (w :: u32) + 7 < 4294967296"
  shows "unat ((w + OS_MEM_ALIGN_MSK) AND NOT OS_MEM_ALIGN_MSK) = (unat w + 7) div 8 * 8"
proof -
  have m: "OS_MEM_ALIGN_MSK = mask 3" by (simp add: OS_MEM_ALIGN_MSK_def mask_eq_exp_minus_1)
  have "((w + mask 3) AND NOT (mask 3)) = push_bit 3 (drop_bit 3 (w + mask 3))"
    by (rule bit_eqI) (auto simp: bit_and_iff bit_not_iff bit_mask_iff bit_push_bit_iff bit_drop_bit_eq
        dest: bit_imp_le_length)
  moreover have "unat (w + mask 3) = unat w + 7"
    using assms unat_add_lt [of w 7] by (simp add: mask_eq_exp_minus_1)
  moreover have "unat (push_bit 3 (drop_bit 3 x) :: u32) = unat x div 8 * 8" for x :: u32
  proof -
    have "unat (push_bit 3 (drop_bit 3 x)) = take_bit 32 (push_bit 3 (unat (drop_bit 3 x)))"
      by (simp add: unsigned_push_bit_eq)
    also have "\<dots> = take_bit 32 (unat x div 8 * 8)"
      by (simp add: unsigned_drop_bit_eq push_bit_eq_mult drop_bit_eq_div take_bit_nat_eq_self
          div_le_dividend unat_div)
    also have "\<dots> = unat x div 8 * 8"
    proof -
      have "unat x div 8 * 8 \<le> unat x" by simp
      also have "\<dots> < 2 ^ 32" using unsigned_less [of x] by simp
      finally show ?thesis by (simp add: take_bit_nat_eq_self)
    qed
    finally show ?thesis .
  qed
  ultimately show ?thesis unfolding m by (simp only:)
qed

text \<open>A request that passes the guard: no wrap-around, room for header and payload, aligned.\<close>

lemma alloc_need_value:
  assumes z: "bytes \<noteq> 0" and g: "alloc_need bytes \<ge> bytes" and f: "alloc_need bytes AND OS_MEM_ALLOCATED_MSK = 0"
  shows "unat (alloc_need bytes) = 8 + (unat bytes + 7) div 8 * 8"
    "unat (alloc_need bytes) < 2147483648" "16 \<le> unat (alloc_need bytes)"
    "unat (alloc_need bytes) mod 8 = 0" "unat bytes + 8 \<le> unat (alloc_need bytes)"
proof -
  let ?a = "(bytes + OS_MEM_ALIGN_MSK) AND NOT OS_MEM_ALIGN_MSK"
  have b: "unat bytes < 4294967296" "0 < unat bytes"
    using unsigned_less [of bytes] z by (simp_all add: unat_gt_0)
  have nowrap: "unat bytes + 7 < 4294967296"
  proof (rule ccontr)
    assume "\<not> unat bytes + 7 < 4294967296"
    then have "(unat bytes + 7) mod 4294967296 = unat bytes + 7 - 4294967296"
      using b by (simp add: mod_if)
    then have "unat (bytes + 7) < 7"
      using b by (simp add: unat_word_ariths)
    then have "(bytes + OS_MEM_ALIGN_MSK) < 8" by (simp add: OS_MEM_ALIGN_MSK_def word_less_nat_alt)
    then have "unat (bytes + OS_MEM_ALIGN_MSK) < 8" by (simp add: word_less_nat_alt)
    moreover have "unat ?a \<le> unat (bytes + OS_MEM_ALIGN_MSK)"
      by (simp add: word_le_nat_alt [symmetric] word_and_le2)
    ultimately have "unat ?a < 8" by linarith
    then have "unat (alloc_need bytes) \<le> 15"
      by (simp add: alloc_need_def OS_MEM_HEADER_SIZE_def unat_add_lt)
    then show False using g \<open>\<not> unat bytes + 7 < 4294967296\<close> by (simp add: word_le_nat_alt)
  qed
  have a: "unat ?a = (unat bytes + 7) div 8 * 8" by (rule align_up_unat [OF nowrap])
  have le: "unat bytes \<le> unat ?a" "8 \<le> unat ?a"
    unfolding a using b(2) by presburger+
  have "unat ?a + 8 < 4294967296"
  proof (rule ccontr)
    assume w: "\<not> unat ?a + 8 < 4294967296"
    have "unat ?a < 4294967296" using unsigned_less [of ?a] by simp
    then have "(8 + unat ?a) mod 4294967296 = 8 + unat ?a - 4294967296"
      using w by (simp add: mod_if)
    then have "unat (alloc_need bytes) < 8"
      using w \<open>unat ?a < 4294967296\<close>
      by (simp add: alloc_need_def OS_MEM_HEADER_SIZE_def unat_word_ariths)
    moreover have "4294967288 \<le> unat ?a" using w by simp
    ultimately show False using g a nowrap b by (simp add: word_le_nat_alt)
  qed
  then have v: "unat (alloc_need bytes) = 8 + unat ?a"
    by (simp add: alloc_need_def OS_MEM_HEADER_SIZE_def unat_add_lt)
  then show "unat (alloc_need bytes) = 8 + (unat bytes + 7) div 8 * 8" using a by simp
  show "unat (alloc_need bytes) < 2147483648" using f flag_test no_flag_small by blast
  show "16 \<le> unat (alloc_need bytes)" "unat bytes + 8 \<le> unat (alloc_need bytes)" using v le by simp_all
  show "unat (alloc_need bytes) mod 8 = 0" unfolding v a by simp
qed

section \<open>Layouts\<close>

type_synonym layout = "(nat \<times> bool) list"

definition total :: "layout \<Rightarrow> nat" where
  "total L = sum_list (map fst L)"

definition free_total :: "layout \<Rightarrow> nat" where
  "free_total L = sum_list (map fst (filter (\<lambda>x. \<not> snd x) L))"

fun heads :: "nat \<Rightarrow> layout \<Rightarrow> nat list" where
  "heads a [] = []"
| "heads a ((n, u) # L) = a # heads (a + n) L"

fun free_at :: "nat \<Rightarrow> layout \<Rightarrow> nat list" where
  "free_at a [] = []"
| "free_at a ((n, u) # L) = (if u then free_at (a + n) L else a # free_at (a + n) L)"

definition block_is :: "nat \<Rightarrow> bool \<Rightarrow> os_mem_block_t \<Rightarrow> bool" where
  "block_is n u x \<longleftrightarrow>
     unat (blk_size x AND NOT OS_MEM_ALLOCATED_MSK) = n \<and> bit (blk_size x) 31 = u \<and> (u \<longrightarrow> blk_next x = 0)"

fun laid :: "(nat \<Rightarrow> os_mem_block_t) \<Rightarrow> nat \<Rightarrow> layout \<Rightarrow> bool" where
  "laid B a [] \<longleftrightarrow> True"
| "laid B a ((n, u) # L) \<longleftrightarrow> 16 \<le> n \<and> n mod 8 = 0 \<and> block_is n u (B a) \<and> laid B (a + n) L"

text \<open>No two free blocks touch.\<close>

fun coalesced :: "layout \<Rightarrow> bool" where
  "coalesced ((n, u) # (k, v) # L) \<longleftrightarrow> (u \<or> v) \<and> coalesced ((k, v) # L)"
| "coalesced L \<longleftrightarrow> True"

text \<open>The pointers from \<open>x\<close> lead through exactly the headers \<open>as\<close> and on to \<open>y\<close>.\<close>

fun path :: "(nat \<Rightarrow> os_mem_block_t) \<Rightarrow> nat \<Rightarrow> nat list \<Rightarrow> nat \<Rightarrow> bool" where
  "path B x [] y \<longleftrightarrow> x = y"
| "path B x (a # as) y \<longleftrightarrow> x = a \<and> path B (blk_next (B a)) as y"

definition heap_start :: "mem_t \<Rightarrow> nat" where
  "heap_start m = align_down (heap_base m + 7)"

definition heap_ok :: "mem_t \<Rightarrow> layout \<Rightarrow> bool" where
  "heap_ok m L \<longleftrightarrow>
     laid (block m) (heap_start m) L \<and> mem_end m = heap_start m + total L \<and>
     path (block m) (start_addr m) (start_addr m # free_at (heap_start m) L) (mem_end m) \<and>
     coalesced L \<and> unat (free_bytes m) = free_total L \<and> total L < 2147483648 \<and>
     0 < heap_base m \<and> mem_end m + 8 \<le> heap_base m + heap_bytes m \<and>
     (start_addr m < heap_start m \<or> mem_end m < start_addr m) \<and> blk_size (block m (start_addr m)) = 0 \<and>
     min_free_bytes m \<le> free_bytes m"

lemma total_simps [simp]:
  "total [] = 0" "total (x # L) = fst x + total L" "total (A @ L) = total A + total L"
  "free_total [] = 0" "free_total ((n, u) # L) = (if u then 0 else n) + free_total L"
  "free_total (A @ L) = free_total A + free_total L"
  by (simp_all add: total_def free_total_def)

lemma heads_append [simp]: "heads a (A @ L) = heads a A @ heads (a + total A) L"
  by (induction A arbitrary: a) (auto simp: add.assoc)

lemma free_at_append [simp]: "free_at a (A @ L) = free_at a A @ free_at (a + total A) L"
  by (induction A arbitrary: a) (auto simp: add.assoc)

lemma laid_append [simp]: "laid B a (A @ L) \<longleftrightarrow> laid B a A \<and> laid B (a + total A) L"
  by (induction A arbitrary: a) (auto simp: add.assoc)

lemma path_append: "path B x (as @ bs) y \<longleftrightarrow> (\<exists>z. path B x as z \<and> path B z bs y)"
  by (induction as arbitrary: x) auto

lemma free_at_heads: "x \<in> set (free_at a L) \<Longrightarrow> x \<in> set (heads a L)"
  by (induction L arbitrary: a) (auto split: if_splits)

lemma heads_bounds: "laid B a L \<Longrightarrow> x \<in> set (heads a L) \<Longrightarrow> a \<le> x \<and> x + 16 \<le> a + total L"
  by (induction L arbitrary: a) fastforce+

lemma free_at_bounds: "laid B a L \<Longrightarrow> x \<in> set (free_at a L) \<Longrightarrow> a \<le> x \<and> x + 16 \<le> a + total L"
  using heads_bounds free_at_heads by blast

lemma laid_cong:
  "(\<And>x. x \<in> set (heads a L) \<Longrightarrow> blk_size (B' x) = blk_size (B x) \<and>
      (bit (blk_size (B x)) 31 \<longrightarrow> blk_next (B' x) = blk_next (B x))) \<Longrightarrow> laid B' a L = laid B a L"
  by (induction L arbitrary: a) (auto simp: block_is_def)

lemma path_cong:
  "(\<And>x. x \<in> set as \<Longrightarrow> blk_next (B' x) = blk_next (B x)) \<Longrightarrow> path B' x as y = path B x as y"
  by (induction as arbitrary: x) auto

lemma coalesced_append:
  "coalesced (A @ x # L) \<longleftrightarrow> coalesced (A @ [x]) \<and> coalesced (x # L)"
proof (induction A)
  case (Cons y A)
  then show ?case by (cases y; cases x; cases A; cases "hd A") auto
qed (cases x, simp)

lemma coalesced_used [simp]: "coalesced ((n, True) # L) \<longleftrightarrow> coalesced L"
proof (cases L)
  case (Cons x K)
  then show ?thesis by (cases x) simp
qed simp

lemma coalesced_snoc_used [simp]: "coalesced (A @ [(n, True)]) \<longleftrightarrow> coalesced A"
proof (induction A)
  case (Cons y A)
  then show ?case by (cases y; cases A; cases "hd A") auto
qed simp

lemma coalesced_free_size: "coalesced ((n, False) # L) = coalesced ((k, False) # L)"
  by (cases L) auto

text \<open>A free header splits the layout and the free list at the same place.\<close>

lemma free_at_split:
  "free_at a L = as @ b # bs \<Longrightarrow>
   \<exists>L1 n L2. L = L1 @ (n, False) # L2 \<and> free_at a L1 = as \<and> b = a + total L1 \<and> free_at (b + n) L2 = bs"
proof (induction L arbitrary: a as)
  case (Cons x L)
  obtain n u where x: "x = (n, u)" by (cases x)
  show ?case
  proof (cases "\<not> u \<and> as = []")
    case True
    then have "x # L = [] @ (n, False) # L \<and> free_at a [] = as \<and> b = a + total [] \<and> free_at (b + n) L = bs"
      using Cons.prems x by auto
    then show ?thesis by blast
  next
    case False
    obtain as' where as': "free_at (a + n) L = as' @ b # bs" "as = (if u then as' else a # as')"
    proof (cases u)
      case True
      then have "free_at (a + n) L = as @ b # bs" using Cons.prems unfolding x by simp
      then show ?thesis using that [of as] True by simp
    next
      case nu: False
      then obtain c as' where c: "as = c # as'" using False by (cases as) auto
      then have "c = a" "free_at (a + n) L = as' @ b # bs" using Cons.prems nu unfolding x by auto
      then show ?thesis using that [of as'] nu c by simp
    qed
    from Cons.IH [OF as'(1)] obtain L1 k L2
      where L: "L = L1 @ (k, False) # L2" "free_at (a + n) L1 = as'" "b = a + n + total L1"
        "free_at (b + k) L2 = bs" by blast
    then have "x # L = (x # L1) @ (k, False) # L2 \<and> free_at a (x # L1) = as \<and>
        b = a + total (x # L1) \<and> free_at (b + k) L2 = bs" using x as'(2) by simp
    then show ?thesis by blast
  qed
qed simp

lemma path_last:
  "path B x (ps @ [p]) y \<longleftrightarrow> path B x ps p \<and> blk_next (B p) = y"
  by (auto simp: path_append)

section \<open>The walks\<close>

lemma find_fit_walk:
  "path (block m) x as (mem_end m) \<Longrightarrow> mem_end m \<notin> set as \<Longrightarrow>
   \<exists>as1 b as2. find_fit m need prev x = Some (last (prev # as1), b) \<and>
     (\<forall>a \<in> set as1. blk_size (block m a) < need) \<and>
     (b = mem_end m \<and> as1 = as \<or> as = as1 @ b # as2 \<and> b \<noteq> mem_end m \<and> need \<le> blk_size (block m b))"
proof (induction as arbitrary: x prev)
  case Nil
  then have "find_fit m need prev x = Some (last (prev # []), mem_end m)"
    by (subst find_fit.simps) simp
  then show ?case by (metis empty_iff empty_set)
next
  case (Cons a as)
  then have x: "x = a" "path (block m) (blk_next (block m a)) as (mem_end m)" "a \<noteq> mem_end m"
    "mem_end m \<notin> set as" by auto
  show ?case
  proof (cases "blk_size (block m a) < need")
    case True
    from Cons.IH [OF x(2,4), of a] obtain as1 b as2
      where r: "find_fit m need a (blk_next (block m a)) = Some (last (a # as1), b)"
        "\<forall>a \<in> set as1. blk_size (block m a) < need"
        "b = mem_end m \<and> as1 = as \<or> as = as1 @ b # as2 \<and> b \<noteq> mem_end m \<and> need \<le> blk_size (block m b)"
      by blast
    have "find_fit m need prev x = Some (last (prev # a # as1), b)"
      using r(1) True x by (subst find_fit.simps) simp
    moreover have "\<forall>c \<in> set (a # as1). blk_size (block m c) < need" using r(2) True by simp
    moreover have "b = mem_end m \<and> a # as1 = a # as \<or>
        a # as = (a # as1) @ b # as2 \<and> b \<noteq> mem_end m \<and> need \<le> blk_size (block m b)" using r(3) by auto
    ultimately show ?thesis by blast
  next
    case False
    have "find_fit m need prev x = Some (last (prev # []), a)"
      using False x by (subst find_fit.simps) simp
    moreover have "a # as = [] @ a # as \<and> a \<noteq> mem_end m \<and> need \<le> blk_size (block m a)"
      using False x by (simp add: not_less)
    ultimately show ?thesis by (metis empty_iff empty_set)
  qed
qed

lemma find_pred_walk:
  "path (block m) x (x # as1 @ as2) e \<Longrightarrow> \<forall>a \<in> set as1. a < b \<Longrightarrow> b \<le> hd (as2 @ [e]) \<Longrightarrow>
   find_pred m b x = Some (last (x # as1))"
proof (induction as1 arbitrary: x)
  case Nil
  then have "blk_next (block m x) = hd (as2 @ [e])" by (cases as2) auto
  then show ?case using Nil by (subst find_pred.simps) simp
next
  case (Cons a as1)
  then have "blk_next (block m x) = a" "a < b" by auto
  moreover have "find_pred m b a = Some (last (a # as1))" using Cons by auto
  ultimately show ?case by (subst find_pred.simps) simp
qed

section \<open>Setting up\<close>

definition heap_cfg :: "mem_t \<Rightarrow> bool" where
  "heap_cfg m \<longleftrightarrow> 0 < heap_base m \<and> 64 \<le> heap_bytes m \<and> heap_bytes m < 2147483648 \<and>
     (start_addr m < heap_base m \<or> heap_base m + heap_bytes m \<le> start_addr m)"

definition init_bytes :: "mem_t \<Rightarrow> nat" where
  "init_bytes m = align_down (heap_base m + heap_bytes m - OS_MEM_HEADER_SIZE) - heap_start m"

lemma unat_small_word: "n < 4294967296 \<Longrightarrow> unat (word_of_nat n :: u32) = n"
  by (simp add: unat_of_nat)

lemma block_is_free:
  "n < 2147483648 \<Longrightarrow> block_is n False \<lparr>blk_next = y, blk_size = word_of_nat n\<rparr>"
  using small_no_flag [of "word_of_nat n"]
  by (simp add: block_is_def unat_small_word flag_clear_free)

lemma block_is_free_size: "block_is n False x \<Longrightarrow> unat (blk_size x) = n"
  by (auto simp: block_is_def flag_clear_free)

lemma align_facts:
  assumes "heap_cfg m"
  shows "heap_base m \<le> heap_start m" "heap_start m + init_bytes m + 8 \<le> heap_base m + heap_bytes m"
    "16 \<le> init_bytes m" "init_bytes m mod 8 = 0" "init_bytes m < 2147483648"
    "align_down (heap_base m + heap_bytes m - OS_MEM_HEADER_SIZE) = heap_start m + init_bytes m"
proof -
  let ?b = "heap_base m" and ?e = "heap_base m + heap_bytes m - 8"
  obtain x where s: "heap_start m = ?b + 7 - x" "x < 8"
    using that [of "(?b + 7) mod 8"] by (simp add: heap_start_def align_down_def)
  obtain y where e: "align_down ?e = ?e - y" "y < 8"
    using that [of "?e mod 8"] by (simp add: align_down_def)
  have c: "0 < ?b" "64 \<le> heap_bytes m" "heap_bytes m < 2147483648" using assms by (simp_all add: heap_cfg_def)
  have i: "init_bytes m = align_down ?e - heap_start m"
    by (simp add: init_bytes_def OS_MEM_HEADER_SIZE_def)
  have le: "heap_start m + 16 \<le> align_down ?e" using s e c by linarith
  show "heap_base m \<le> heap_start m" using s by linarith
  show "heap_start m + init_bytes m + 8 \<le> heap_base m + heap_bytes m" using i le e c by linarith
  show "16 \<le> init_bytes m" using i le by linarith
  show "init_bytes m < 2147483648" using i s e c by linarith
  show "align_down (heap_base m + heap_bytes m - OS_MEM_HEADER_SIZE) = heap_start m + init_bytes m"
    using i le by (simp add: OS_MEM_HEADER_SIZE_def)
  have "heap_start m mod 8 = 0" "align_down ?e mod 8 = 0"
    by (simp_all add: heap_start_def align_down_def minus_mod_eq_mult_div)
  then show "init_bytes m mod 8 = 0" unfolding i by (simp add: mod_eq_0_iff_dvd)
qed

lemma os_mem_init_ok:
  assumes c: "heap_cfg m"
  shows "heap_ok (os_mem_init m) [(init_bytes m, False)]"
proof -
  note a = align_facts [OF c]
  let ?s = "heap_start m" and ?e = "heap_start m + init_bytes m"
  have cfg: "0 < heap_base m" "start_addr m < heap_base m \<or> heap_base m + heap_bytes m \<le> start_addr m"
    using c by (simp_all add: heap_cfg_def)
  have d: "start_addr m \<noteq> ?s" "start_addr m \<noteq> ?e" "?s \<noteq> ?e"
    "start_addr m < ?s \<or> ?e < start_addr m" using a cfg by auto
  let ?w = "word_of_nat (init_bytes m) :: u32"
  have i: "os_mem_init m = m\<lparr>mem_end := ?e, free_bytes := ?w, min_free_bytes := ?w,
      block := ((block m)(?e := \<lparr>blk_next = 0, blk_size = 0\<rparr>, ?s := \<lparr>blk_next = ?e, blk_size = ?w\<rparr>,
                 start_addr m := \<lparr>blk_next = ?s, blk_size = 0\<rparr>))\<rparr>"
    using a(6) by (simp add: os_mem_init_def Let_def heap_start_def [symmetric] upd_block_def)
  have hs: "heap_start (os_mem_init m) = ?s" by (simp add: i heap_start_def)
  show ?thesis
    unfolding heap_ok_def hs using a d cfg
    by (simp add: i block_is_free unat_small_word)
qed

section \<open>Replacing the middle of a layout\<close>

lemma free_at_not_flagged: "laid B a L \<Longrightarrow> x \<in> set (free_at a L) \<Longrightarrow> \<not> bit (blk_size (B x)) 31"
  by (induction L arbitrary: a) (auto simp: block_is_def split: if_splits)

lemma free_at_sorted: "laid B a L \<Longrightarrow> sorted_wrt (<) (free_at a L)"
proof (induction L arbitrary: a)
  case (Cons x L)
  obtain n u where x: "x = (n, u)" by (cases x)
  have "\<forall>y \<in> set (free_at (a + n) L). a + n \<le> y"
    using free_at_bounds Cons.prems x by fastforce
  moreover have "16 \<le> n" using Cons.prems x by simp
  ultimately show ?case using Cons x by fastforce
qed simp

lemma chain_distinct:
  assumes "laid B a L" "s < a \<or> a + total L < s"
  shows "distinct (s # free_at a L)"
proof -
  have "distinct (free_at a L)" using free_at_sorted [OF assms(1)] by (simp add: strict_sorted_iff)
  moreover have "s \<notin> set (free_at a L)" using free_at_bounds [OF assms(1), of s] assms(2) by auto
  ultimately show ?thesis by simp
qed

text \<open>
  The middle of a layout, \<open>N\<close> bytes from \<open>q\<close> on, is replaced by \<open>M\<close>: only memory inside it and the
  link of the last free header before it change.
\<close>

lemma relink:
  assumes A: "laid B a A" and C: "laid B (a + total A + N) C"
    and s: "s < a \<or> a + total A + N + total C < s"
    and before: "path B s (s # free_at a A) z" and after: "path B y (free_at (a + total A + N) C) e"
    and p: "p = last (s # free_at a A)"
    and same: "\<And>x. x \<notin> {a + total A ..< a + total A + N} \<Longrightarrow> x \<noteq> p \<Longrightarrow> B' x = B x"
    and psz: "blk_size (B' p) = blk_size (B p)"
    and M: "laid B' (a + total A) M" "total M = N"
    and link: "path B' (blk_next (B' p)) (free_at (a + total A) M) y"
  shows "laid B' a (A @ M @ C) \<and> path B' s (s # free_at a (A @ M @ C)) e"
proof -
  obtain ps where ps: "s # free_at a A = ps @ [p]"
    using p by (metis append_butlast_last_id list.distinct(1))
  have d: "distinct (ps @ [p])"
    unfolding ps [symmetric] by (rule chain_distinct [OF A]) (use s in auto)
  have p_low: "p = s \<or> p \<in> set (free_at a A)" using p by (cases "free_at a A = []") auto
  have s_out: "s \<notin> {a..<a + total A + N}" "s \<notin> {a + total A + N..a + total A + N + total C}" using s by auto
  have lA: "laid B' a A"
  proof -
    have "blk_size (B' x) = blk_size (B x) \<and> (bit (blk_size (B x)) 31 \<longrightarrow> blk_next (B' x) = blk_next (B x))"
      if x: "x \<in> set (heads a A)" for x
    proof (cases "x = p")
      case True
      have "a \<le> x \<and> x + 16 \<le> a + total A" by (rule heads_bounds [OF A x])
      then have "p \<in> set (free_at a A)" using p_low True s_out by auto
      then show ?thesis using free_at_not_flagged [OF A] True psz by blast
    next
      case False
      have "x \<notin> {a + total A ..< a + total A + N}" using heads_bounds [OF A x] by simp
      then show ?thesis using same False by simp
    qed
    then show ?thesis using A laid_cong by metis
  qed
  have top: "B' x = B x" if "x \<in> set (heads (a + total A + N) C)" for x
  proof (rule same)
    note x = heads_bounds [OF C that]
    then show "x \<notin> {a + total A ..< a + total A + N}" by simp
    show "x \<noteq> p" using p_low free_at_bounds [OF A, of p] x s_out by auto
  qed
  then have lC: "laid B' (a + total A + N) C" using C laid_cong by metis
  have pC: "path B' y (free_at (a + total A + N) C) e"
    using after path_cong [of "free_at (a + total A + N) C" B' B] top free_at_heads by metis
  have "path B s ps p" using before unfolding ps path_last by simp
  moreover have "B' x = B x" if x: "x \<in> set ps" for x
  proof (rule same)
    show "x \<noteq> p" using d x by auto
    have "x = s \<or> x \<in> set (free_at a A)" using ps x by (metis Un_iff set_ConsD set_append)
    then show "x \<notin> {a + total A ..< a + total A + N}" using free_at_bounds [OF A, of x] s_out by auto
  qed
  ultimately have "path B' s ps p" using path_cong [of ps B' B] by metis
  then have pA: "path B' s (s # free_at a A) (blk_next (B' p))" unfolding ps path_last by simp
  have "path B' s ((s # free_at a A) @ free_at (a + total A) M @ free_at (a + total A + N) C) e"
    using pA link pC path_append by metis
  then show ?thesis using lA lC M by simp
qed

section \<open>Allocation\<close>

text \<open>What a first fit of \<open>need\<close> bytes does to the free block that it finds.\<close>

definition take_layout :: "nat \<Rightarrow> nat \<Rightarrow> layout" where
  "take_layout need n = (if 16 \<le> n - need then [(need, True), (n - need, False)] else [(n, True)])"

lemma take_layout_total [simp]: "need \<le> n \<Longrightarrow> total (take_layout need n) = n"
  by (simp add: take_layout_def)

lemma word_sub_unat: "(b :: u32) \<le> a \<Longrightarrow> unat (a - b) = unat a - unat b"
  by (rule unat_sub)

lemma block_is_used:
  assumes "unat (w :: u32) = n" "n < 2147483648"
  shows "block_is n True \<lparr>blk_next = 0, blk_size = w OR OS_MEM_ALLOCATED_MSK\<rparr>"
  using assms small_no_flag [of w] by (simp add: block_is_def flag_clear_set flag_clear_free flag_set)

lemma alloc_take_effect:
  assumes ok: "heap_ok m (L1 @ (n, False) # L2)" and b: "b = heap_start m + total L1"
    and p: "p = last (start_addr m # free_at (heap_start m) L1)"
    and need: "16 \<le> unat need" "unat need mod 8 = 0" "need \<le> blk_size (block m b)"
  shows "heap_ok (alloc_take need p b m) (L1 @ take_layout (unat need) n @ L2)"
proof -
  let ?a = "heap_start m" and ?s = "start_addr m" and ?e = "mem_end m" and ?B = "block m"
  let ?m = "alloc_take need p b m" and ?r = "b + unat need" and ?nx = "blk_next (?B b)"
  have lay: "laid ?B ?a L1" "laid ?B (b + n) L2" "block_is n False (?B b)" "16 \<le> n" "n mod 8 = 0"
    and e: "?e = b + n + total L2" and cz: "coalesced (L1 @ (n, False) # L2)"
    and fb: "unat (free_bytes m) = free_total L1 + n + free_total L2"
    and small: "total L1 + n + total L2 < 2147483648"
    and rest: "0 < heap_base m" "?e + 8 \<le> heap_base m + heap_bytes m" "?s < ?a \<or> ?e < ?s"
      "blk_size (?B ?s) = 0" "min_free_bytes m \<le> free_bytes m"
    using ok b by (auto simp: heap_ok_def add.assoc)
  have pth: "path ?B ?s (?s # free_at ?a L1) b" "path ?B ?nx (free_at (b + n) L2) ?e"
    using ok b path_append [of ?B ?s "?s # free_at ?a L1" "b # free_at (b + n) L2" ?e]
    by (auto simp: heap_ok_def add.assoc)
  have sz: "unat (blk_size (?B b)) = n" by (rule block_is_free_size [OF lay(3)])
  have nn: "unat need \<le> n" using need(3) sz by (simp add: word_le_nat_alt)
  have diff: "unat (blk_size (?B b) - need) = n - unat need" using word_sub_unat [OF need(3)] sz by simp
  have pb: "p < b \<or> ?e < p"
    using p rest(3) free_at_bounds [OF lay(1), of p] b e lay(4) by (cases "free_at ?a L1 = []") auto
  have split: "(blk_size (?B b) - need \<ge> word_of_nat OS_MEM_MIN_BLOCK_SIZE) \<longleftrightarrow> 16 \<le> n - unat need"
    by (simp add: word_le_nat_alt diff OS_MEM_MIN_BLOCK_SIZE_def)
  let ?M = "take_layout (unat need) n"
  have ne: "p \<noteq> b" "p \<noteq> ?r" "?r \<noteq> b" using pb nn need(1) e by auto
  have frame: "mem_end ?m = ?e" "start_addr ?m = ?s" "heap_base ?m = heap_base m"
    "heap_bytes ?m = heap_bytes m" "heap_start ?m = ?a"
    by (simp_all add: alloc_take_def Let_def upd_block_def heap_start_def)
  define B' where "B' = block ?m"
  have B': "B' = (if 16 \<le> n - unat need
      then (?B)(?r := \<lparr>blk_next = ?nx, blk_size = blk_size (?B b) - need\<rparr>,
                p := (?B p)\<lparr>blk_next := ?r\<rparr>,
                b := \<lparr>blk_next = 0, blk_size = need OR OS_MEM_ALLOCATED_MSK\<rparr>)
      else (?B)(p := (?B p)\<lparr>blk_next := ?nx\<rparr>,
                b := \<lparr>blk_next = 0, blk_size = blk_size (?B b) OR OS_MEM_ALLOCATED_MSK\<rparr>))"
    using ne by (simp add: B'_def alloc_take_def Let_def upd_block_def split)
  have n_small: "n < 2147483648" using small by simp
  have mid: "laid B' b ?M \<and> path B' (blk_next (B' p)) (free_at b ?M) ?nx"
  proof (cases "16 \<le> n - unat need")
    case True
    have "block_is (n - unat need) False (B' ?r)"
      using True ne n_small diff small_no_flag [of "blk_size (?B b) - need"]
      by (simp add: B' block_is_def flag_clear_free)
    moreover have "block_is (unat need) True (B' b)"
      using True nn n_small block_is_used [of need "unat need"] by (simp add: B')
    moreover have "(n - unat need) mod 8 = 0" using need(2) lay(5) nn by (simp add: mod_eq_0_iff_dvd)
    ultimately show ?thesis using True need ne by (simp add: take_layout_def B')
  next
    case False
    then have "block_is n True (B' b)" using n_small sz block_is_used [of "blk_size (?B b)" n] by (simp add: B')
    then show ?thesis using False lay(4,5) ne by (simp add: take_layout_def B')
  qed
  have "laid B' ?a (L1 @ ?M @ L2) \<and> path B' ?s (?s # free_at ?a (L1 @ ?M @ L2)) ?e"
  proof (rule relink [where B = ?B and N = n and y = ?nx and z = b and p = p])
    show "B' x = ?B x" if "x \<notin> {?a + total L1 ..< ?a + total L1 + n}" "x \<noteq> p" for x
      using that b need(1) nn lay(4) by (auto simp: B')
    show "blk_size (B' p) = blk_size (?B p)" using ne by (simp add: B')
  qed (use lay pth p mid nn rest(3) e b in \<open>simp_all add: add.assoc\<close>)
  moreover have "coalesced (L1 @ ?M @ L2)"
  proof -
    have 1: "coalesced (L1 @ [(n, False)])" "coalesced ((n, False) # L2)"
      using cz coalesced_append by blast+
    have 2: "coalesced L1" using 1(1)
      by (cases L1 rule: rev_cases) (auto simp: coalesced_append [of _ _ "[(n, False)]"])
    have 3: "coalesced L2" using 1(2) by (cases L2) auto
    have 4: "coalesced ((k, False) # L2)" for k using 1(2) coalesced_free_size by blast
    have 5: "coalesced (L1 @ (k, True) # R) \<longleftrightarrow> coalesced L1 \<and> coalesced R" for k R
      by (subst coalesced_append) simp
    show ?thesis using 2 3 4 5 by (simp add: take_layout_def)
  qed
  moreover have "unat (free_bytes ?m) = free_total (L1 @ ?M @ L2) \<and> min_free_bytes ?m \<le> free_bytes ?m"
  proof -
    have fbm: "free_bytes ?m = free_bytes m - (if 16 \<le> n - unat need then need else blk_size (?B b))"
      using ne by (simp add: alloc_take_def Let_def upd_block_def split)
    have "(if 16 \<le> n - unat need then need else blk_size (?B b)) \<le> free_bytes m"
      using fb nn sz by (simp add: word_le_nat_alt)
    then have "unat (free_bytes ?m) = unat (free_bytes m) - (if 16 \<le> n - unat need then unat need else n)"
      unfolding fbm using sz by (simp add: word_sub_unat)
    moreover have "min_free_bytes ?m \<le> free_bytes ?m"
      by (auto simp: alloc_take_def Let_def upd_block_def not_less)
    ultimately show ?thesis using fb nn by (auto simp: take_layout_def)
  qed
  moreover have "blk_size (B' ?s) = 0"
    using rest(3,4) ne b e nn need(1) by (auto simp: B')
  ultimately show ?thesis
    unfolding heap_ok_def frame B'_def [symmetric] using rest small e nn b by simp
qed

text \<open>
  An allocation on a sound heap returns. It either finds no free block that is large enough, and
  leaves the heap alone, or takes the lowest one that is; the address it returns is that of the
  block's payload.
\<close>

lemma heap_end_not_free:
  assumes "heap_ok m L"
  shows "mem_end m \<notin> set (start_addr m # free_at (heap_start m) L)" "mem_end m \<noteq> 0"
proof -
  have l: "laid (block m) (heap_start m) L" "mem_end m = heap_start m + total L"
    "start_addr m < heap_start m \<or> mem_end m < start_addr m" "0 < heap_base m"
    using assms by (auto simp: heap_ok_def)
  show "mem_end m \<notin> set (start_addr m # free_at (heap_start m) L)"
    using l free_at_bounds [OF l(1), of "mem_end m"] by auto
  have "(heap_base m + 7) mod 8 < 8" by simp
  then show "mem_end m \<noteq> 0" using l(2,4) by (simp add: heap_start_def align_down_def)
qed

lemma os_mem_alloc_cases:
  assumes ok: "heap_ok m L"
    and g: "bytes \<noteq> 0" "bytes \<le> alloc_need bytes" "alloc_need bytes AND OS_MEM_ALLOCATED_MSK = 0"
  shows "(os_mem_alloc bytes m = Some (0, m) \<and> (\<forall>n. (n, False) \<in> set L \<longrightarrow> n < unat (alloc_need bytes))) \<or>
    (\<exists>L1 n L2 m'. L = L1 @ (n, False) # L2 \<and> unat (alloc_need bytes) \<le> n \<and>
       (\<forall>k. (k, False) \<in> set L1 \<longrightarrow> k < unat (alloc_need bytes)) \<and>
       os_mem_alloc bytes m = Some (heap_start m + total L1 + 8, m') \<and>
       heap_ok m' (L1 @ take_layout (unat (alloc_need bytes)) n @ L2))"
proof -
  let ?need = "alloc_need bytes" and ?s = "start_addr m" and ?a = "heap_start m"
  note nv = alloc_need_value [OF g(1,2,3)]
  note en = heap_end_not_free [OF ok]
  have lay: "laid (block m) ?a L" and pth: "path (block m) (blk_next (block m ?s)) (free_at ?a L) (mem_end m)"
    using ok by (auto simp: heap_ok_def)
  have small: "k < unat ?need" if "laid (block m) c K" "\<forall>x \<in> set (free_at c K). blk_size (block m x) < ?need"
    "(k, False) \<in> set K" for k c K
    using that
  proof (induction K arbitrary: c)
    case (Cons x K)
    obtain n u where x: "x = (n, u)" by (cases x)
    show ?case
    proof (cases "x = (k, False)")
      case True
      then show ?thesis using Cons.prems block_is_free_size [of k "block m c"]
        by (simp add: word_less_nat_alt)
    next
      case False
      then show ?thesis using Cons.IH [of "c + n"] Cons.prems x by (auto split: if_splits)
    qed
  qed simp
  have init: "ensure_init m = m" using en(2) by (simp add: ensure_init_def)
  obtain as1 b as2 where w: "find_fit m ?need ?s (blk_next (block m ?s)) = Some (last (?s # as1), b)"
    "\<forall>x \<in> set as1. blk_size (block m x) < ?need"
    "b = mem_end m \<and> as1 = free_at ?a L \<or>
     free_at ?a L = as1 @ b # as2 \<and> b \<noteq> mem_end m \<and> ?need \<le> blk_size (block m b)"
    using find_fit_walk [OF pth, of ?need ?s] en(1) by auto
  show ?thesis
  proof (cases "b = mem_end m")
    case True
    then have "as1 = free_at ?a L" using w(3) by auto
    then have "\<forall>n. (n, False) \<in> set L \<longrightarrow> n < unat ?need" using small [OF lay] w(2) by blast
    moreover have "os_mem_alloc bytes m = Some (0, m)"
      using g True w(1) by (simp add: os_mem_alloc_def Let_def init)
    ultimately show ?thesis by blast
  next
    case False
    then have f: "free_at ?a L = as1 @ b # as2" "?need \<le> blk_size (block m b)" using w(3) by auto
    obtain L1 n L2 where L: "L = L1 @ (n, False) # L2" "free_at ?a L1 = as1" "b = ?a + total L1"
      using free_at_split [OF f(1)] by blast
    have sz: "unat (blk_size (block m b)) = n" using lay L block_is_free_size by simp
    have "heap_ok (alloc_take ?need (last (?s # as1)) b m) (L1 @ take_layout (unat ?need) n @ L2)"
      by (rule alloc_take_effect) (use ok L nv f in simp_all)
    moreover have "os_mem_alloc bytes m = Some (b + 8, alloc_take ?need (last (?s # as1)) b m)"
      using g False w(1) by (simp add: os_mem_alloc_def Let_def init OS_MEM_HEADER_SIZE_def)
    moreover have "unat ?need \<le> n" using f(2) sz by (simp add: word_le_nat_alt)
    moreover have "\<forall>k. (k, False) \<in> set L1 \<longrightarrow> k < unat ?need"
      using small [of ?a L1] lay L w(2) by simp
    ultimately show ?thesis using L by blast
  qed
qed

section \<open>Release\<close>

text \<open>A freed block absorbs the free block after it and the one before it, if they are there.\<close>

definition absorb_next :: "layout \<Rightarrow> nat \<times> layout" where
  "absorb_next L = (case L of (k, False) # R \<Rightarrow> (k, R) | _ \<Rightarrow> (0, L))"

definition absorb_prev :: "layout \<Rightarrow> nat \<times> layout" where
  "absorb_prev L = (case rev L of (k, False) # R \<Rightarrow> (k, rev R) | _ \<Rightarrow> (0, L))"

definition free_layout :: "layout \<Rightarrow> nat \<Rightarrow> layout \<Rightarrow> layout" where
  "free_layout L1 n L2 =
     snd (absorb_prev L1) @
       (fst (absorb_prev L1) + n + fst (absorb_next L2), False) # snd (absorb_next L2)"

lemma absorb_prev_cases:
  obtains (merge) A k where "L = A @ [(k, False)]" "absorb_prev L = (k, A)"
  | (first) "L = []" "absorb_prev L = (0, L)"
  | (used) A k where "L = A @ [(k, True)]" "absorb_prev L = (0, L)"
proof (cases L rule: rev_cases)
  case (snoc A x)
  obtain k u where "x = (k, u)" by (cases x)
  then show ?thesis using snoc that by (cases u) (auto simp: absorb_prev_def)
qed (simp add: that absorb_prev_def)

lemma absorb_next_cases:
  obtains (merge) R k where "L = (k, False) # R" "absorb_next L = (k, R)"
  | (end_mark) "L = []" "absorb_next L = (0, L)"
  | (used) R k where "L = (k, True) # R" "absorb_next L = (0, L)"
proof (cases L)
  case (Cons x R)
  obtain k u where "x = (k, u)" by (cases x)
  then show ?thesis using Cons that by (cases u) (auto simp: absorb_next_def)
qed (simp add: that absorb_next_def)

lemma laid_mod: "laid B a L \<Longrightarrow> a mod 8 = 0 \<Longrightarrow> (a + total L) mod 8 = 0"
proof (induction L arbitrary: a)
  case (Cons x L)
  obtain n u where x: "x = (n, u)" by (cases x)
  have "(a + n) mod 8 = 0" using Cons.prems x by (simp add: mod_eq_0_iff_dvd)
  then show ?case using Cons.IH [of "a + n"] Cons.prems x by (simp add: add.assoc)
qed simp

lemma heap_start_mod: "heap_start m mod 8 = 0"
  by (simp add: heap_start_def align_down_def minus_mod_eq_mult_div)

lemma path_head: "path B x as e \<Longrightarrow> x = hd (as @ [e])"
  by (cases as) auto

text \<open>The list element before a block touches it exactly when the layout has a free block there.\<close>

lemma last_free_touches:
  assumes L: "laid B a L" and s: "s \<noteq> a + total L" "blk_size (B s) = 0"
    and p: "p = last (s # free_at a L)"
  shows "p + unat (blk_size (B p)) = a + total L \<longleftrightarrow> (\<exists>A k. L = A @ [(k, False)] \<and> p = a + total A)"
proof (cases L rule: rev_cases)
  case Nil
  then show ?thesis using s p by simp
next
  case (snoc A x)
  obtain k u where x: "x = (k, u)" by (cases x)
  show ?thesis
  proof (cases u)
    case False
    then have "p = a + total A" "block_is k False (B p)" using snoc x p L by simp_all
    then show ?thesis using snoc x False block_is_free_size by auto
  next
    case True
    have "p + unat (blk_size (B p)) < a + total L \<or> p = s"
    proof (cases "free_at a A = []")
      case True
      then show ?thesis using p snoc x \<open>u\<close> by simp
    next
      case ne: False
      then have "free_at a A = butlast (free_at a A) @ p # []" using p snoc x True by simp
      then obtain K1 n K2 where K: "A = K1 @ (n, False) # K2" "p = a + total K1"
        using free_at_split by blast
      then have "block_is n False (B p)" "16 \<le> k" using L snoc x by simp_all
      then show ?thesis using K snoc x block_is_free_size by fastforce
    qed
    then show ?thesis using s snoc x True by auto
  qed
qed

text \<open>The first half of an insertion. \<open>q\<close> is where the block now starts and \<open>k\<close> what it gained.\<close>

lemma join_prev_effect:
  assumes L1: "laid (block m) a L1" and s: "s \<noteq> a + total L1" "blk_size (block m s) = 0"
    and p: "p = last (s # free_at a L1)" and k: "absorb_prev L1 = (k, A)"
    and bsz: "unat (blk_size (block m (a + total L1))) = n" and small: "total L1 + n < 2147483648"
  shows "\<exists>w. join_prev p (a + total L1) m =
           (a + total A, upd_block (a + total A) (\<lambda>x. x\<lparr>blk_size := w\<rparr>) m) \<and> unat w = k + n"
    "total A + k = total L1" "laid (block m) a A" "p = a + total A \<and> k \<noteq> 0 \<or> k = 0 \<and> A = L1 \<and> p \<noteq> a + total A"
proof -
  have bt: "p \<noteq> a + total L1" if "k = 0"
    using p s(1) free_at_bounds [OF L1, of p] by (cases "free_at a L1 = []") auto
  note touch = last_free_touches [OF L1 s p]
  have same: "\<exists>w. m = upd_block (a + total L1) (\<lambda>x. x\<lparr>blk_size := w\<rparr>) m \<and> unat w = n"
    using bsz by (intro exI [of _ "blk_size (block m (a + total L1))"]) (simp add: upd_block_def)
  have "(\<exists>w. join_prev p (a + total L1) m =
           (a + total A, upd_block (a + total A) (\<lambda>x. x\<lparr>blk_size := w\<rparr>) m) \<and> unat w = k + n) \<and>
    total A + k = total L1 \<and> laid (block m) a A \<and> (p = a + total A \<and> k \<noteq> 0 \<or> k = 0 \<and> A = L1 \<and> p \<noteq> a + total A)"
  proof (cases rule: absorb_prev_cases [of L1])
    case (merge A' k')
    then have e: "k' = k" "A' = A" using k by simp_all
    have pa: "p = a + total A" using p merge e by simp
    have pk: "unat (blk_size (block m p)) = k" "16 \<le> k"
      using L1 merge e pa block_is_free_size by simp_all
    have "unat (blk_size (block m p) + blk_size (block m (a + total L1))) = k + n"
      using pk bsz small merge e by (simp add: unat_add_lt)
    moreover have "join_prev p (a + total L1) m = (a + total A, upd_block (a + total A)
        (\<lambda>x. x\<lparr>blk_size := blk_size (block m p) + blk_size (block m (a + total L1))\<rparr>) m)"
      using touch merge e pa by (auto simp: join_prev_def upd_block_def)
    ultimately show ?thesis using merge e pa pk L1 by auto
  next
    case first
    then have "join_prev p (a + total L1) m = (a + total L1, m)" "k = 0" "A = L1"
      using touch k by (auto simp: join_prev_def)
    then show ?thesis using same bt L1 by auto
  next
    case (used A' k')
    then have "join_prev p (a + total L1) m = (a + total L1, m)" "k = 0" "A = L1"
      using touch k by (auto simp: join_prev_def)
    then show ?thesis using same bt L1 by auto
  qed
  then show "\<exists>w. join_prev p (a + total L1) m =
           (a + total A, upd_block (a + total A) (\<lambda>x. x\<lparr>blk_size := w\<rparr>) m) \<and> unat w = k + n"
    "total A + k = total L1" "laid (block m) a A" "p = a + total A \<and> k \<noteq> 0 \<or> k = 0 \<and> A = L1 \<and> p \<noteq> a + total A"
    by blast+
qed

lemma blk_next_update: "x\<lparr>blk_next := y\<rparr> = \<lparr>blk_next = y, blk_size = blk_size x\<rparr>"
  by (cases x) simp

text \<open>The second half: \<open>c\<close> is where the block ends and \<open>k\<close> what it gains there.\<close>

lemma join_next_effect:
  assumes L2: "laid (block m) c L2" and pth: "path (block m) nx (free_at c L2) (mem_end m)"
    and e: "mem_end m = c + total L2" and k: "absorb_next L2 = (k, C)"
    and sz: "q + unat (blk_size (block m q)) = c" "unat (blk_size (block m q)) + total L2 < 2147483648"
  shows "\<exists>w y. join_next q nx m = upd_block q (\<lambda>_. \<lparr>blk_next = y, blk_size = w\<rparr>) m \<and>
      unat w = unat (blk_size (block m q)) + k \<and> path (block m) y (free_at (c + k) C) (mem_end m) \<and>
      k + total C = total L2 \<and> laid (block m) (c + k) C"
proof -
  have nx: "nx = hd (free_at c L2 @ [mem_end m])" by (rule path_head [OF pth])
  show ?thesis
  proof (cases rule: absorb_next_cases [of L2])
    case (merge R k')
    then have r: "k' = k" "R = C" using k by simp_all
    have "nx = c" "nx \<noteq> mem_end m" "unat (blk_size (block m nx)) = k"
      using nx merge r e L2 block_is_free_size by simp_all
    then have "join_next q nx m = upd_block q (\<lambda>_. \<lparr>blk_next = blk_next (block m c),
        blk_size = blk_size (block m q) + blk_size (block m c)\<rparr>) m" "unat (blk_size (block m c)) = k"
      using sz by (simp_all add: join_next_def upd_block_def)
    moreover have "unat (blk_size (block m q) + blk_size (block m c)) = unat (blk_size (block m q)) + k"
      using calculation(2) sz merge r by (simp add: unat_add_lt)
    moreover have "path (block m) (blk_next (block m c)) (free_at (c + k) C) (mem_end m)"
      using pth merge r by simp
    ultimately show ?thesis using merge r L2 by auto
  next
    case end_mark
    then have "join_next q nx m = upd_block q (\<lambda>_. \<lparr>blk_next = mem_end m, blk_size = blk_size (block m q)\<rparr>) m"
      using sz nx e by (simp add: join_next_def upd_block_def blk_next_update)
    then show ?thesis using end_mark k by auto
  next
    case (used R k')
    have "c < hd (free_at c L2 @ [mem_end m])"
    proof (cases "free_at c L2")
      case Nil
      then show ?thesis using used L2 e by simp
    next
      case (Cons x xs)
      then have "x \<in> set (free_at (c + k') R)" "16 \<le> k'" using used L2 by auto
      then have "c < x" using free_at_bounds [of "block m" "c + k'" R x] used L2 by simp
      then show ?thesis using Cons by simp
    qed
    then have "join_next q nx m = upd_block q (\<lambda>_. \<lparr>blk_next = nx, blk_size = blk_size (block m q)\<rparr>) m"
      using sz nx by (simp add: join_next_def upd_block_def blk_next_update)
    then show ?thesis using used k pth L2 by auto
  qed
qed

lemma coalesced_swap: "coalesced (A @ L) \<Longrightarrow> coalesced A \<and> coalesced L"
proof (induction A)
  case (Cons y A)
  then show ?case by (cases y; cases L; cases A; cases "hd A") auto
qed simp

lemma coalesced_join:
  assumes "coalesced A" "coalesced C" "\<And>k A'. A \<noteq> A' @ [(k, False)]" "\<And>k C'. C \<noteq> (k, False) # C'"
  shows "coalesced (A @ (n, False) # C)"
proof -
  have "coalesced ((n, False) # C)"
  proof (cases C)
    case (Cons x C')
    obtain k u where x: "x = (k, u)" by (cases x)
    then have "u" using assms(4) Cons by (cases u) auto
    then show ?thesis using assms(2) Cons x by simp
  qed simp
  moreover have "coalesced (A @ [(n, False)])"
  proof (cases A rule: rev_cases)
    case (snoc A' x)
    obtain k u where x: "x = (k, u)" by (cases x)
    then have "u" using assms(3) snoc by (cases u) auto
    then have "coalesced (A' @ (k, True) # [(n, False)])"
      by (subst coalesced_append) (use assms(1) snoc x in simp)
    then show ?thesis using snoc x \<open>u\<close> by simp
  qed simp
  ultimately show ?thesis using coalesced_append by blast
qed

lemma free_layout_coalesced:
  assumes "coalesced (L1 @ (n, True) # L2)"
  shows "coalesced (free_layout L1 n L2)"
proof -
  have c: "coalesced L1" "coalesced L2" using coalesced_swap [OF assms] by simp_all
  have A: "coalesced (snd (absorb_prev L1))" "snd (absorb_prev L1) \<noteq> A' @ [(k, False)]" for A' k
  proof -
    have "coalesced (snd (absorb_prev L1)) \<and> snd (absorb_prev L1) \<noteq> A' @ [(k, False)]"
    proof (cases rule: absorb_prev_cases [of L1])
      case (merge A j)
      then have "coalesced (A @ [(j, False)])" using c(1) by simp
      then show ?thesis
        using merge coalesced_swap [of A] coalesced_append [of A' "(k, False)" "[(j, False)]"] by auto
    qed (use c in auto)
    then show "coalesced (snd (absorb_prev L1))" "snd (absorb_prev L1) \<noteq> A' @ [(k, False)]" by blast+
  qed
  have C: "coalesced (snd (absorb_next L2))" "snd (absorb_next L2) \<noteq> (k, False) # C'" for C' k
  proof -
    have "coalesced (snd (absorb_next L2)) \<and> snd (absorb_next L2) \<noteq> (k, False) # C'"
    proof (cases rule: absorb_next_cases [of L2])
      case (merge R j)
      then show ?thesis using c(2) by (cases R) auto
    qed (use c in auto)
    then show "coalesced (snd (absorb_next L2))" "snd (absorb_next L2) \<noteq> (k, False) # C'" by blast+
  qed
  show ?thesis unfolding free_layout_def by (rule coalesced_join) (use A C in auto)
qed

lemma free_layout_totals:
  "total (free_layout L1 n L2) = total L1 + n + total L2"
  "free_total (free_layout L1 n L2) = free_total L1 + n + free_total L2"
proof -
  have "total L1 = total (snd (absorb_prev L1)) + fst (absorb_prev L1) \<and>
      free_total L1 = free_total (snd (absorb_prev L1)) + fst (absorb_prev L1)"
    by (cases rule: absorb_prev_cases [of L1]) auto
  moreover have "total L2 = total (snd (absorb_next L2)) + fst (absorb_next L2) \<and>
      free_total L2 = free_total (snd (absorb_next L2)) + fst (absorb_next L2)"
    by (cases rule: absorb_next_cases [of L2]) auto
  ultimately show "total (free_layout L1 n L2) = total L1 + n + total L2"
    "free_total (free_layout L1 n L2) = free_total L1 + n + free_total L2"
    by (simp_all add: free_layout_def)
qed

lemma path_last_next: "path B x (a # as) y \<Longrightarrow> blk_next (B (last (a # as))) = y"
  by (induction as arbitrary: x a) auto

lemma absorb_prev_joins:
  assumes L: "laid B a L" and pth: "path B s (s # free_at a L) nx" and k: "absorb_prev L = (k, A)"
  shows "(k \<noteq> 0 \<and> blk_next (B (last (s # free_at a A))) = a + total A \<or>
          k = 0 \<and> last (s # free_at a L) = last (s # free_at a A)) \<and>
     (\<exists>z. path B s (s # free_at a A) z) \<and> k mod 8 = 0"
proof (cases rule: absorb_prev_cases [of L])
  case (merge A' j)
  then have e: "A' = A" "j = k" using k by simp_all
  then have "path B s ((s # free_at a A) @ [a + total A]) nx" using pth merge by simp
  then have "path B s (s # free_at a A) (a + total A)" unfolding path_append by auto
  moreover from this have "blk_next (B (last (s # free_at a A))) = a + total A"
    by (rule path_last_next)
  ultimately show ?thesis using L merge e by auto
qed (use pth k in auto)

lemma absorb_next_mod: "laid B c L \<Longrightarrow> absorb_next L = (k, C) \<Longrightarrow> k mod 8 = 0"
  by (cases rule: absorb_next_cases [of L]) auto

text \<open>
  An insertion into a sound list: the block at \<open>q\<close>, its flag already cleared, is in the layout where
  it was in use; the invariant's memory \<open>B\<close> is the memory before the flag was cleared.
\<close>

lemma block_insert_effect:
  assumes L: "laid (block m) a L1" "laid (block m) (b + n) L2" and b: "b = a + total L1" "16 \<le> n" "n mod 8 = 0"
    and e: "mem_end m = b + n + total L2" and small: "total L1 + n + total L2 < 2147483648"
    and s: "start_addr m < a \<or> mem_end m < start_addr m" "blk_size (block m (start_addr m)) = 0"
    and pth: "path (block m) (start_addr m) (start_addr m # free_at a L1) nx"
      "path (block m) nx (free_at (b + n) L2) (mem_end m)"
    and bsz: "unat (blk_size (block m b)) = n"
  shows "\<exists>B'. os_mem_block_insert b m = Some (m\<lparr>block := B'\<rparr>) \<and> laid B' a (free_layout L1 n L2) \<and>
     path B' (start_addr m) (start_addr m # free_at a (free_layout L1 n L2)) (mem_end m) \<and>
     blk_size (B' (start_addr m)) = 0 \<and> \<not> bit (blk_size (B' b)) 31"
proof -
  let ?s = "start_addr m" and ?B = "block m"
  obtain k A k2 C where abs: "absorb_prev L1 = (k, A)" "absorb_next L2 = (k2, C)"
    by (cases "absorb_prev L1"; cases "absorb_next L2") auto
  define p where "p = last (?s # free_at a L1)"
  define p' where "p' = last (?s # free_at a A)"
  let ?q = "a + total A"
  have low: "\<forall>x \<in> set (free_at a L1). x < b" using free_at_bounds [OF L(1)] b by fastforce
  have hd_nx: "nx = hd (free_at (b + n) L2 @ [mem_end m])" by (rule path_head [OF pth(2)])
  have high: "b \<le> nx"
    using free_at_bounds [OF L(2), of "hd (free_at (b + n) L2)"] e unfolding hd_nx
    by (cases "free_at (b + n) L2") auto
  have "path ?B ?s (?s # free_at a L1 @ free_at (b + n) L2) (mem_end m)"
    using pth path_append [of ?B ?s "?s # free_at a L1" "free_at (b + n) L2"] by auto
  then have walk: "find_pred m b ?s = Some p"
    unfolding p_def by (rule find_pred_walk) (use low high hd_nx in auto)
  have s_ne: "?s \<noteq> b" "?s \<notin> {a..<b + n + total L2}" using s(1) b e by auto
  note jp = join_prev_effect [OF L(1) s_ne(1) [unfolded b(1)] s(2) p_def abs(1) bsz [unfolded b(1)]]
  obtain w1 where w1: "join_prev p b m = (?q, upd_block ?q (\<lambda>x. x\<lparr>blk_size := w1\<rparr>) m)" "unat w1 = k + n"
    using jp(1) small b(1) by auto
  have kA: "total A + k = total L1" "laid ?B a A" "p = ?q \<and> k \<noteq> 0 \<or> k = 0 \<and> A = L1 \<and> p \<noteq> ?q"
    using jp(2-4) small by simp_all
  let ?m1 = "upd_block ?q (\<lambda>x. x\<lparr>blk_size := w1\<rparr>) m"
  have above: "block ?m1 x = ?B x" if "b + n \<le> x" for x using that kA(1) b by (auto simp: upd_block_def)
  have "blk_next (?B p) = nx" unfolding p_def by (rule path_last_next [OF pth(1)])
  then have nxt: "blk_next (block ?m1 p) = nx" by (auto simp: upd_block_def)
  have l2: "laid (block ?m1) (b + n) L2"
    using L(2) laid_cong [of "b + n" L2 "block ?m1" ?B] above heads_bounds [OF L(2)] by auto
  have p2: "path (block ?m1) nx (free_at (b + n) L2) (mem_end ?m1)"
    using pth(2) path_cong [of "free_at (b + n) L2" "block ?m1" ?B nx] above free_at_bounds [OF L(2)]
    by (auto simp: upd_block_def)
  obtain w y where j: "join_next ?q nx ?m1 = upd_block ?q (\<lambda>_. \<lparr>blk_next = y, blk_size = w\<rparr>) ?m1"
    "unat w = k + n + k2" "path (block ?m1) y (free_at (b + n + k2) C) (mem_end ?m1)"
    "k2 + total C = total L2" "laid (block ?m1) (b + n + k2) C"
    using join_next_effect [OF l2 p2 _ abs(2), of ?q] e kA(1) b(1) w1(2) small
    by (auto simp: upd_block_def)
  let ?m2 = "upd_block ?q (\<lambda>_. \<lparr>blk_next = y, blk_size = w\<rparr>) ?m1"
  have iv: "insert_at p b m = (if p \<noteq> ?q then upd_block p (\<lambda>x. x\<lparr>blk_next := ?q\<rparr>) ?m2 else ?m2)"
    by (simp only: insert_at_def w1(1) prod.case nxt j(1) Let_def)
  define B' where "B' = block (insert_at p b m)"
  have ins: "insert_at p b m = m\<lparr>block := B'\<rparr>"
    unfolding B'_def iv by (simp add: upd_block_def)
  have qb: "?q + k = b" using kA(1) b(1) by simp
  have N: "?q + (k + n + k2) = b + n + k2" using qb by simp
  have p'_ne: "p' \<noteq> ?q"
    using s_ne free_at_bounds [OF kA(2), of p'] qb b by (cases "free_at a A = []") (auto simp: p'_def)
  have pcase: "p = ?q \<and> blk_next (?B p') = ?q \<or> p = p'"
    and before: "\<exists>z. path ?B ?s (?s # free_at a A) z" and k8: "k mod 8 = 0"
    using absorb_prev_joins [OF L(1) pth(1) abs(1)] kA(3) unfolding p_def p'_def by auto
  have B'v: "B' ?q = \<lparr>blk_next = y, blk_size = w\<rparr>"
    "\<And>x. x \<noteq> ?q \<Longrightarrow> x \<noteq> p' \<Longrightarrow> B' x = ?B x"
    "blk_next (B' p') = ?q" "blk_size (B' p') = blk_size (?B p')"
    using pcase p'_ne unfolding B'_def iv by (auto simp: upd_block_def)
  have "k2 mod 8 = 0" using absorb_next_mod [OF L(2) abs(2)] .
  then have n8: "(k + n + k2) mod 8 = 0" using k8 b(3) by (simp add: mod_eq_0_iff_dvd)
  have "block_is (k + n + k2) False (B' ?q)"
    using j(2,4) small kA(1) B'v(1) small_no_flag [of w] by (simp add: block_is_def flag_clear_free)
  then have mid: "laid B' ?q [(k + n + k2, False)]" using b(2) n8 by simp
  have top: "block ?m1 x = ?B x" if "b + n + k2 \<le> x" for x using above that by simp
  have lC: "laid ?B (b + n + k2) C"
    using j(5) laid_cong [of "b + n + k2" C "block ?m1" ?B] top heads_bounds [OF j(5)] by auto
  have pC: "path ?B y (free_at (b + n + k2) C) (mem_end m)"
    using j(3) path_cong [of "free_at (b + n + k2) C" "block ?m1" ?B y] top free_at_bounds [OF j(5)]
    by (auto simp: upd_block_def)
  obtain z where z: "path ?B ?s (?s # free_at a A) z" using before by blast
  have "laid B' a (A @ [(k + n + k2, False)] @ C) \<and>
      path B' ?s (?s # free_at a (A @ [(k + n + k2, False)] @ C)) (mem_end m)"
  proof (rule relink [where B = ?B and N = "k + n + k2" and y = y and z = z and p = p'])
    show "?s < a \<or> a + total A + (k + n + k2) + total C < ?s" using s(1) e N j(4) by auto
    show "B' x = ?B x" if "x \<notin> {?q ..< ?q + (k + n + k2)}" "x \<noteq> p'" for x
      using that b(2) by (intro B'v(2)) auto
    show "path B' (blk_next (B' p')) (free_at ?q [(k + n + k2, False)]) y" using B'v(1,3) by simp
    show "laid ?B (?q + (k + n + k2)) C" unfolding N by (rule lC)
    show "path ?B y (free_at (?q + (k + n + k2)) C) (mem_end m)" unfolding N by (rule pC)
    show "path ?B ?s (?s # free_at a A) z" by (rule z)
    show "p' = last (?s # free_at a A)" by (rule p'_def)
    show "laid B' ?q [(k + n + k2, False)]" by (rule mid)
  qed (use kA(2) B'v in simp_all)
  moreover have "blk_size (B' ?s) = 0"
    using s(2) B'v(2,4) s_ne qb b kA(1) by (cases "?s = p'") auto
  moreover have "\<not> bit (blk_size (B' b)) 31"
  proof (cases "b = ?q")
    case True
    then show ?thesis using mid by (simp add: block_is_def)
  next
    case False
    have "b \<noteq> p'" using s_ne free_at_bounds [OF kA(2), of p'] kA(1) b(1) by (cases "free_at a A = []") (auto simp: p'_def)
    then have "B' b = ?B b" using B'v(2) False by blast
    then show ?thesis using small_no_flag [of "blk_size (?B b)"] bsz small by simp
  qed
  moreover have "os_mem_block_insert b m = Some (m\<lparr>block := B'\<rparr>)"
    by (simp add: os_mem_block_insert_def walk ins)
  ultimately show ?thesis by (auto simp: free_layout_def abs)
qed

lemma os_mem_free_effect:
  assumes ok: "heap_ok m (L1 @ (n, True) # L2)" and b: "b = heap_start m + total L1"
  shows "\<exists>m'. os_mem_free (b + 8) m = Some m' \<and> heap_ok m' (free_layout L1 n L2) \<and>
     \<not> bit (blk_size (block m' b)) 31"
proof -
  let ?a = "heap_start m" and ?s = "start_addr m" and ?e = "mem_end m" and ?B = "block m"
  let ?w = "blk_size (?B b) AND NOT OS_MEM_ALLOCATED_MSK"
  let ?m2 = "upd_block b (\<lambda>x. x\<lparr>blk_size := blk_size x AND NOT OS_MEM_ALLOCATED_MSK\<rparr>) m
    \<lparr>free_bytes := free_bytes m + ?w\<rparr>"
  have lay: "laid ?B ?a L1" "laid ?B (b + n) L2" "block_is n True (?B b)" "16 \<le> n" "n mod 8 = 0"
    and e: "?e = b + n + total L2" and cz: "coalesced (L1 @ (n, True) # L2)"
    and fb: "unat (free_bytes m) = free_total L1 + free_total L2"
    and small: "total L1 + n + total L2 < 2147483648"
    and rest: "0 < heap_base m" "?e + 8 \<le> heap_base m + heap_bytes m" "?s < ?a \<or> ?e < ?s"
      "blk_size (?B ?s) = 0" "min_free_bytes m \<le> free_bytes m"
    using ok b by (auto simp: heap_ok_def add.assoc)
  have pth: "path ?B ?s ((?s # free_at ?a L1) @ free_at (b + n) L2) ?e"
    using ok b by (auto simp: heap_ok_def add.assoc)
  obtain nx where nx: "path ?B ?s (?s # free_at ?a L1) nx" "path ?B nx (free_at (b + n) L2) ?e"
    using pth path_append by blast
  have hdr: "bit (blk_size (?B b)) 31" "blk_next (?B b) = 0" "unat ?w = n"
    using lay(3) by (simp_all add: block_is_def)
  have base: "heap_base m \<le> ?a"
    using mod_less_divisor [of 8 "heap_base m + 7"] by (simp add: heap_start_def align_down_def)
  have "os_mem_block_plausible b m"
    using hdr(3) lay(4) e laid_mod [OF lay(1) heap_start_mod] b
    by (simp add: os_mem_block_plausible_def OS_MEM_MIN_BLOCK_SIZE_def)
  then have f: "os_mem_free (b + 8) m = os_mem_block_insert b ?m2"
    using hdr flag_test [of "blk_size (?B b)"] base b e rest lay(4)
    by (simp add: os_mem_free_def OS_MEM_HEADER_SIZE_def upd_block_def Let_def)
  have out: "block ?m2 x = ?B x" if "x \<noteq> b" for x using that by (simp add: upd_block_def)
  have s_ne: "?s \<noteq> b" using rest(3) b e lay(4) by auto
  have low: "x \<noteq> b" if "x \<in> set (heads ?a L1) \<or> x \<in> set (heads (b + n) L2)" for x
    using that heads_bounds [OF lay(1)] heads_bounds [OF lay(2)] b lay(4) by fastforce
  have "\<exists>B'. os_mem_block_insert b ?m2 = Some (?m2\<lparr>block := B'\<rparr>) \<and> laid B' ?a (free_layout L1 n L2) \<and>
     path B' (start_addr ?m2) (start_addr ?m2 # free_at ?a (free_layout L1 n L2)) (mem_end ?m2) \<and>
     blk_size (B' (start_addr ?m2)) = 0 \<and> \<not> bit (blk_size (B' b)) 31"
  proof (rule block_insert_effect [OF _ _ b lay(4,5)])
    show "laid (block ?m2) ?a L1" "laid (block ?m2) (b + n) L2"
      using lay(1,2) laid_cong [of ?a L1 "block ?m2" ?B] laid_cong [of "b + n" L2 "block ?m2" ?B] out low
      by simp_all
    show "path (block ?m2) (start_addr ?m2) (start_addr ?m2 # free_at ?a L1) nx"
      using nx(1) path_cong [of "?s # free_at ?a L1" "block ?m2" ?B ?s nx] out low s_ne free_at_heads
      by (simp add: upd_block_def)
    show "path (block ?m2) nx (free_at (b + n) L2) (mem_end ?m2)"
      using nx(2) path_cong [of "free_at (b + n) L2" "block ?m2" ?B nx] out low free_at_heads
      by (simp add: upd_block_def)
  qed (use e small rest s_ne hdr in \<open>simp_all add: upd_block_def\<close>)
  then obtain B' where B': "os_mem_block_insert b ?m2 = Some (?m2\<lparr>block := B'\<rparr>)"
    "laid B' ?a (free_layout L1 n L2)" "path B' ?s (?s # free_at ?a (free_layout L1 n L2)) ?e"
    "blk_size (B' ?s) = 0" "\<not> bit (blk_size (B' b)) 31" by (auto simp: upd_block_def)
  have frees: "free_total L \<le> total L" for L by (induction L) auto
  have "unat (free_bytes m + ?w) = free_total (free_layout L1 n L2)"
    using fb hdr(3) small frees [of L1] frees [of L2] by (simp add: free_layout_totals unat_add_lt)
  moreover have "min_free_bytes m \<le> free_bytes m + ?w"
    using rest(5) fb hdr(3) calculation by (simp add: word_le_nat_alt free_layout_totals)
  ultimately have "heap_ok (?m2\<lparr>block := B'\<rparr>) (free_layout L1 n L2)"
    using B' rest small e b free_layout_coalesced [OF cz]
    by (simp add: heap_ok_def heap_start_def upd_block_def free_layout_totals)
  then show ?thesis using f B'(1,5) by auto
qed

section \<open>The heap as its clients see it\<close>

text \<open>The live allocations of a layout: header address and block size.\<close>

fun used_at :: "nat \<Rightarrow> layout \<Rightarrow> (nat \<times> nat) list" where
  "used_at a [] = []"
| "used_at a ((n, u) # L) = (if u then (a, n) # used_at (a + n) L else used_at (a + n) L)"

lemma used_at_append [simp]: "used_at a (A @ L) = used_at a A @ used_at (a + total A) L"
  by (induction A arbitrary: a) (auto simp: add.assoc)

lemma used_at_bounds: "(b, n) \<in> set (used_at a L) \<Longrightarrow> a \<le> b \<and> b + n \<le> a + total L"
  by (induction L arbitrary: a) (fastforce split: if_splits)+

lemma used_at_split:
  "(b, n) \<in> set (used_at a L) \<Longrightarrow> \<exists>L1 L2. L = L1 @ (n, True) # L2 \<and> b = a + total L1"
proof (induction L arbitrary: a)
  case (Cons x L)
  obtain k u where x: "x = (k, u)" by (cases x)
  show ?case
  proof (cases "u \<and> b = a \<and> n = k")
    case True
    then have "x # L = [] @ (n, True) # L \<and> b = a + total []" using x by simp
    then show ?thesis by blast
  next
    case False
    then have "(b, n) \<in> set (used_at (a + k) L)" using Cons.prems x by (auto split: if_splits)
    then obtain L1 L2 where "L = L1 @ (n, True) # L2" "b = a + k + total L1" using Cons.IH by blast
    then have "x # L = (x # L1) @ (n, True) # L2 \<and> b = a + total (x # L1)" using x by simp
    then show ?thesis by blast
  qed
qed simp

lemma take_layout_used: "used_at a (take_layout need n) = [(a, if 16 \<le> n - need then need else n)]"
  by (simp add: take_layout_def)

lemma free_layout_used:
  "set (used_at a (free_layout L1 n L2)) = set (used_at a L1) \<union> set (used_at (a + total L1 + n) L2)"
proof -
  have 1: "used_at a L1 = used_at a (snd (absorb_prev L1))"
    "total L1 = total (snd (absorb_prev L1)) + fst (absorb_prev L1)"
    by (cases rule: absorb_prev_cases [of L1], auto)+
  have 2: "used_at c L2 = used_at (c + fst (absorb_next L2)) (snd (absorb_next L2))" for c
    by (cases rule: absorb_next_cases [of L2]) auto
  show ?thesis unfolding free_layout_def 1 2 [of "a + _ + n"] by (simp add: add.assoc add.left_commute)
qed

text \<open>Taking a block out of a coalesced heap and putting it back gives the same layout.\<close>

lemma take_free_layout:
  assumes c: "coalesced (L1 @ (n, False) # L2)" and k: "k \<le> n"
    and t: "take_layout k n = (j, True) # R"
  shows "free_layout L1 j (R @ L2) = L1 @ (n, False) # L2"
proof -
  have c2: "coalesced (L1 @ [(n, False)])" "coalesced ((n, False) # L2)"
    using c coalesced_append by blast+
  have p: "absorb_prev L1 = (0, L1)"
  proof (cases rule: absorb_prev_cases [of L1])
    case (merge A i)
    then show ?thesis using c2(1) coalesced_append [of A "(i, False)" "[(n, False)]"] by simp
  qed simp_all
  have q: "absorb_next L2 = (0, L2)"
  proof (cases rule: absorb_next_cases [of L2])
    case (merge A i)
    then show ?thesis using c2(2) by simp
  qed simp_all
  show ?thesis
  proof (cases "16 \<le> n - k")
    case True
    then have "j = k" "R = [(n - k, False)]" using t by (auto simp: take_layout_def)
    then show ?thesis using p k by (simp add: free_layout_def absorb_next_def)
  next
    case False
    then have "j = n" "R = []" using t by (auto simp: take_layout_def)
    then show ?thesis using p q by (simp add: free_layout_def)
  qed
qed

lemma heap_base_le_start: "heap_base m \<le> heap_start m"
  using mod_less_divisor [of 8 "heap_base m + 7"] by (simp add: heap_start_def align_down_def)

lemma os_mem_alloc_success:
  assumes ok: "heap_ok m L" and r: "os_mem_alloc bytes m = Some (q, m')" "q \<noteq> 0"
  shows "\<exists>L1 n L2 k. L = L1 @ (n, False) # L2 \<and> q = heap_start m + total L1 + 8 \<and>
    k = unat (alloc_need bytes) \<and> k \<le> n \<and> unat bytes + 8 \<le> k \<and>
    heap_ok m' (L1 @ take_layout k n @ L2)"
proof -
  have g: "bytes \<noteq> 0" "bytes \<le> alloc_need bytes" "alloc_need bytes AND OS_MEM_ALLOCATED_MSK = 0"
    using r by (auto simp: os_mem_alloc_def Let_def split: if_splits)
  show ?thesis using os_mem_alloc_cases [OF ok g] alloc_need_value(5) [OF g] r by auto
qed

lemma used_at_apart:
  "laid B a L \<Longrightarrow> (b, n) \<in> set (used_at a L) \<Longrightarrow> (c, k) \<in> set (used_at a L) \<Longrightarrow>
   (b, n) = (c, k) \<or> b + n \<le> c \<or> c + k \<le> b"
proof (induction L arbitrary: a)
  case (Cons y L)
  obtain j u where y: "y = (j, u)" by (cases y)
  have l: "laid B (a + j) L" using Cons.prems y by simp
  have up: "a + j \<le> b'" if "(b', n') \<in> set (used_at (a + j) L)" for b' n'
    using used_at_bounds that by blast
  show ?case
    using Cons.prems(2,3) Cons.IH [OF l] up unfolding y by (auto split: if_splits)
qed simp

lemma heads_apart:
  "laid B a L \<Longrightarrow> x \<in> set (heads a L) \<Longrightarrow> (b, n) \<in> set (used_at a L) \<Longrightarrow> \<not> (b < x \<and> x < b + n)"
proof (induction L arbitrary: a)
  case (Cons y L)
  obtain k u where y: "y = (k, u)" by (cases y)
  have l: "laid B (a + k) L" using Cons.prems y by simp
  show ?case
  proof (cases "x = a \<or> b = a \<and> n = k \<and> u")
    case True
    then show ?thesis
      using Cons.prems y heads_bounds [OF l, of x] used_at_bounds [of b n "a + k" L]
      by (auto split: if_splits)
  next
    case False
    then show ?thesis using Cons.IH [OF l] Cons.prems y by (auto split: if_splits)
  qed
qed simp

lemma used_at_mod: "laid B a L \<Longrightarrow> a mod 8 = 0 \<Longrightarrow> (b, n) \<in> set (used_at a L) \<Longrightarrow> b mod 8 = 0"
  using used_at_split [of b n a L] laid_mod by fastforce

text \<open>
  Writing memory that is not a header leaves the heap sound. The owner of a payload writes bytes; the
  memory, read as headers, changes at every address whose eight bytes overlap the payload.
\<close>

lemma payload_write_ok:
  assumes ok: "heap_ok m L"
    and d: "\<And>x. B' x \<noteq> block m x \<Longrightarrow> \<exists>(b, n) \<in> set (used_at (heap_start m) L). b < x \<and> x < b + n"
  shows "heap_ok (m\<lparr>block := B'\<rparr>) L"
proof -
  have l: "laid (block m) (heap_start m) L" "mem_end m = heap_start m + total L"
    "start_addr m < heap_start m \<or> mem_end m < start_addr m" using ok by (auto simp: heap_ok_def)
  have hd: "B' x = block m x" if "x \<in> set (heads (heap_start m) L)" for x
    using d [of x] heads_apart [OF l(1) that] by fastforce
  have st: "B' (start_addr m) = block m (start_addr m)"
    using d [of "start_addr m"] used_at_bounds l(2,3) by fastforce
  have "laid B' (heap_start m) L" using l(1) laid_cong [of "heap_start m" L B' "block m"] hd by auto
  moreover have "path B' x (start_addr m # free_at (heap_start m) L) y =
      path (block m) x (start_addr m # free_at (heap_start m) L) y" for x y
    by (rule path_cong) (use hd st free_at_heads in auto)
  moreover have "heap_start (m\<lparr>block := B'\<rparr>) = heap_start m" by (simp add: heap_start_def)
  ultimately show ?thesis using ok st unfolding heap_ok_def by (auto simp del: path.simps)
qed

text \<open>
  The heap over time, as its clients see it: the set of live allocations, each the address that
  was returned and the bytes that were asked for. Clients allocate, release what is live, and
  write whatever they like into what they own.
\<close>

inductive mem_run :: "mem_t \<Rightarrow> mem_t \<Rightarrow> (nat \<times> nat) set \<Rightarrow> bool" for m0 where
  boot: "mem_run m0 m0 {}"
| alloc: "mem_run m0 m U \<Longrightarrow> os_mem_alloc bytes m = Some (q, m') \<Longrightarrow>
    mem_run m0 m' (if q = 0 then U else insert (q, unat bytes) U)"
| free: "mem_run m0 m U \<Longrightarrow> (q, w) \<in> U \<Longrightarrow> os_mem_free q m = Some m' \<Longrightarrow> mem_run m0 m' (U - {(q, w)})"
| owner: "mem_run m0 m U \<Longrightarrow>
    (\<And>x. B' x \<noteq> block m x \<Longrightarrow> \<exists>(q, w) \<in> U. q < x + 8 \<and> x < q + w) \<Longrightarrow>
    mem_run m0 (m\<lparr>block := B'\<rparr>) U"

definition owns :: "mem_t \<Rightarrow> layout \<Rightarrow> (nat \<times> nat) set \<Rightarrow> bool" where
  "owns m L U \<longleftrightarrow> heap_ok m L \<and> inj_on fst U \<and>
     (\<forall>(q, w) \<in> U. \<exists>b n. q = b + 8 \<and> (b, n) \<in> set (used_at (heap_start m) L) \<and> w + 8 \<le> n)"

lemma alloc_inits:
  assumes "heap_cfg m" "mem_end m = 0"
  shows "os_mem_alloc bytes m = os_mem_alloc bytes (os_mem_init m) \<or>
    os_mem_alloc bytes m = Some (0, m)"
proof -
  have "mem_end (os_mem_init m) \<noteq> 0" using heap_end_not_free [OF os_mem_init_ok [OF assms(1)]] by simp
  then have "ensure_init (os_mem_init m) = ensure_init m" using assms(2) by (simp add: ensure_init_def)
  then show ?thesis by (simp add: os_mem_alloc_def Let_def)
qed

lemma upd_block_frame [simp]: "heap_base (upd_block x f k) = heap_base k"
  by (simp add: upd_block_def)

lemma alloc_take_frame: "heap_base (alloc_take need p b m) = heap_base m"
  by (simp add: alloc_take_def Let_def)

lemma ensure_init_frame: "heap_base (ensure_init m) = heap_base m"
  by (simp add: ensure_init_def os_mem_init_def Let_def)

lemma os_mem_alloc_frame: "os_mem_alloc bytes m = Some (q, m') \<Longrightarrow> heap_base m' = heap_base m"
  by (auto simp: os_mem_alloc_def Let_def alloc_take_frame ensure_init_frame split: option.splits if_splits)

lemma alloc_owns:
  assumes o: "owns m L U" and r: "os_mem_alloc bytes m = Some (q, m')"
  shows "\<exists>L'. owns m' L' (if q = 0 then U else insert (q, unat bytes) U)"
proof -
  have ok: "heap_ok m L" using o by (simp add: owns_def)
  show ?thesis
  proof (cases "q = 0")
    case True
    have "m' = m"
    proof (cases "bytes \<noteq> 0 \<and> bytes \<le> alloc_need bytes \<and> alloc_need bytes AND OS_MEM_ALLOCATED_MSK = 0")
      case True
      then show ?thesis using os_mem_alloc_cases [OF ok, of bytes] r \<open>q = 0\<close> by auto
    next
      case False
      then show ?thesis using r by (auto simp: os_mem_alloc_def Let_def)
    qed
    then show ?thesis using o True by auto
  next
    case False
    from os_mem_alloc_success [OF ok r False] obtain L1 n L2 k
      where L: "L = L1 @ (n, False) # L2" "q = heap_start m + total L1 + 8" "k \<le> n"
        "unat bytes + 8 \<le> k" "heap_ok m' (L1 @ take_layout k n @ L2)" by blast
    let ?L' = "L1 @ take_layout k n @ L2"
    have hs: "heap_start m' = heap_start m" using os_mem_alloc_frame [OF r] by (simp add: heap_start_def)
    obtain j where j: "used_at (heap_start m + total L1) (take_layout k n) = [(heap_start m + total L1, j)]"
      "unat bytes + 8 \<le> j" using take_layout_used L(3,4) by auto
    have used: "set (used_at (heap_start m) ?L') = insert (heap_start m + total L1, j) (set (used_at (heap_start m) L))"
      using j L by auto
    have "q \<notin> fst ` U"
    proof
      assume "q \<in> fst ` U"
      then obtain n' where n': "(heap_start m + total L1, n') \<in> set (used_at (heap_start m) L)" "8 \<le> n'"
        using o L(2) by (auto simp: owns_def)
      have l: "laid (block m) (heap_start m) L" using ok by (simp add: heap_ok_def)
      have "16 \<le> n" using l L(1) by simp
      then show False
        using n' L(1) used_at_bounds [of "heap_start m + total L1" n' "heap_start m" L1]
          used_at_bounds [of "heap_start m + total L1" n' "heap_start m + total L1 + n" L2] by auto
    qed
    moreover have "\<exists>b n. x = b + 8 \<and> (b, n) \<in> set (used_at (heap_start m) ?L') \<and> w + 8 \<le> n"
      if "(x, w) \<in> insert (q, unat bytes) U" for x w
    proof (cases "(x, w) = (q, unat bytes)")
      case True
      then show ?thesis using used L(2) j(2) by auto
    next
      case False
      then have "(x, w) \<in> U" using that by blast
      then obtain b n where "x = b + 8" "(b, n) \<in> set (used_at (heap_start m) L)" "w + 8 \<le> n"
        using o unfolding owns_def by blast
      then show ?thesis using used by auto
    qed
    moreover have "inj_on fst U" using o by (simp add: owns_def)
    ultimately have "owns m' ?L' (insert (q, unat bytes) U)"
      using L(5) unfolding owns_def hs by (auto simp: inj_on_insert)
    then show ?thesis using False by auto
  qed
qed

lemma insert_at_frame: "heap_base (insert_at iter b m) = heap_base m"
proof -
  have p: "heap_base (snd (join_prev iter b m)) = heap_base m" by (simp add: join_prev_def upd_block_def)
  have n: "heap_base (join_next x y k) = heap_base k" for x y k by (simp add: join_next_def upd_block_def)
  show ?thesis using p by (auto simp: insert_at_def n Let_def split: prod.split)
qed

lemma os_mem_free_frame:
  assumes "os_mem_free q m = Some m'"
  shows "heap_base m' = heap_base m"
proof -
  have i: "heap_base m' = heap_base k" if "os_mem_block_insert b k = Some m'" for b k
    using that by (auto simp: os_mem_block_insert_def insert_at_frame)
  show ?thesis using assms by (auto simp: os_mem_free_def Let_def dest!: i split: if_splits)
qed

lemma free_owns:
  assumes o: "owns m L U" and q: "(q, w) \<in> U" and r: "os_mem_free q m = Some m'"
  shows "\<exists>L'. owns m' L' (U - {(q, w)})"
proof -
  have ok: "heap_ok m L" using o by (simp add: owns_def)
  obtain b n where b: "q = b + 8" "(b, n) \<in> set (used_at (heap_start m) L)" using o q by (auto simp: owns_def)
  obtain L1 L2 where L: "L = L1 @ (n, True) # L2" "b = heap_start m + total L1" using used_at_split [OF b(2)] by blast
  have ok': "heap_ok m' (free_layout L1 n L2)"
    using os_mem_free_effect [of m L1 n L2 b] ok L b r by auto
  have hs: "heap_start m' = heap_start m"
    using os_mem_free_frame [OF r] by (simp add: heap_start_def)
  have live: "\<exists>n'. (b', n') \<in> set (used_at (heap_start m) (free_layout L1 n L2)) \<and> w' + 8 \<le> n'"
    if x: "(b' + 8, w') \<in> U - {(q, w)}" for b' w'
  proof -
    have "(b' + 8, w') \<in> U" using x by blast
    then obtain n' where n': "(b', n') \<in> set (used_at (heap_start m) L)" "w' + 8 \<le> n'"
      using o by (auto simp: owns_def)
    have "inj_on fst U" using o by (simp add: owns_def)
    then have "b' \<noteq> b" using q x b(1) inj_onD [of fst U "(b' + 8, w')" "(q, w)"] by auto
    then show ?thesis using n' L by (auto simp: free_layout_used)
  qed
  have "\<exists>c k. x = c + 8 \<and> (c, k) \<in> set (used_at (heap_start m) (free_layout L1 n L2)) \<and> w' + 8 \<le> k"
    if u: "(x, w') \<in> U - {(q, w)}" for x w'
  proof -
    obtain b' where "x = b' + 8" using o u by (auto simp: owns_def)
    moreover from this obtain n' where "(b', n') \<in> set (used_at (heap_start m) (free_layout L1 n L2))"
      "w' + 8 \<le> n'" using live u by blast
    ultimately show ?thesis by (intro exI [of _ b'] exI [of _ n']) simp
  qed
  moreover have "inj_on fst (U - {(q, w)})" using o by (simp add: owns_def inj_on_diff)
  ultimately have "owns m' (free_layout L1 n L2) (U - {(q, w)})"
    using ok' unfolding owns_def hs by blast
  then show ?thesis by blast
qed

lemma owner_owns:
  assumes o: "owns m L U" and d: "\<And>x. B' x \<noteq> block m x \<Longrightarrow> \<exists>(q, w) \<in> U. q < x + 8 \<and> x < q + w"
  shows "owns (m\<lparr>block := B'\<rparr>) L U"
proof -
  have "\<exists>(b, n) \<in> set (used_at (heap_start m) L). b < x \<and> x < b + n" if x: "B' x \<noteq> block m x" for x
  proof -
    obtain q w where q: "(q, w) \<in> U" "q < x + 8" "x < q + w" using d [OF x] by auto
    then obtain b n where "q = b + 8" "(b, n) \<in> set (used_at (heap_start m) L)" "w + 8 \<le> n"
      using o by (auto simp: owns_def)
    then show ?thesis using q by (intro bexI [of _ "(b, n)"]) auto
  qed
  then have "heap_ok (m\<lparr>block := B'\<rparr>) L" using payload_write_ok o by (simp add: owns_def)
  then show ?thesis using o by (simp add: owns_def heap_start_def)
qed

lemma mem_run_owns:
  assumes "mem_run m0 m U" "heap_cfg m0" "mem_end m0 = 0"
  shows "m = m0 \<and> U = {} \<or> (\<exists>L. owns m L U)"
  using assms(1)
proof (induction rule: mem_run.induct)
  case (alloc m U bytes q m')
  show ?case
  proof (cases "m = m0 \<and> U = {}")
    case True
    have "owns (os_mem_init m0) [(init_bytes m0, False)] {}"
      using os_mem_init_ok [OF assms(2)] by (simp add: owns_def)
    moreover have "os_mem_alloc bytes m0 = Some (q, m')" using alloc.hyps True by simp
    ultimately show ?thesis using alloc_owns alloc_inits [OF assms(2,3), of bytes] True
      by (metis Pair_inject option.inject)
  next
    case False
    then show ?thesis using alloc alloc_owns by blast
  qed
next
  case (free m U q w m')
  then show ?case using free_owns by blast
next
  case (owner m U B')
  show ?case
  proof (cases "m = m0 \<and> U = {}")
    case True
    then have "B' = block m" using owner.hyps(2) by auto
    then show ?thesis using True by simp
  next
    case False
    then show ?thesis using owner owner_owns by blast
  qed
qed simp

text \<open>What the clients of one heap hold: aligned, inside the arena, and apart by at least a header.\<close>

lemma owns_apart:
  assumes o: "owns m L U" and u: "(q, w) \<in> U" "(r, v) \<in> U"
  shows "q mod 8 = 0 \<and> heap_base m + 8 \<le> q \<and> q + w \<le> heap_base m + heap_bytes m \<and>
    ((q, w) = (r, v) \<or> q + w + 8 \<le> r \<or> r + v + 8 \<le> q)"
proof -
  have ok: "laid (block m) (heap_start m) L" "mem_end m = heap_start m + total L"
    "mem_end m + 8 \<le> heap_base m + heap_bytes m" and i: "inj_on fst U"
    using o by (auto simp: owns_def heap_ok_def)
  obtain b n where b: "q = b + 8" "(b, n) \<in> set (used_at (heap_start m) L)" "w + 8 \<le> n"
    using o u(1) by (auto simp: owns_def)
  obtain c k where c: "r = c + 8" "(c, k) \<in> set (used_at (heap_start m) L)" "v + 8 \<le> k"
    using o u(2) by (auto simp: owns_def)
  have "b mod 8 = 0" by (rule used_at_mod [OF ok(1) heap_start_mod b(2)])
  moreover have "heap_start m \<le> b \<and> b + n \<le> mem_end m" using used_at_bounds [OF b(2)] ok(2) by simp
  moreover have "(q, w) = (r, v) \<or> q + w + 8 \<le> r \<or> r + v + 8 \<le> q"
    using used_at_apart [OF ok(1) b(2) c(2)] b c inj_onD [OF i _ u] by auto
  ultimately show ?thesis using b ok(3) heap_base_le_start [of m] by auto
qed

lemma upd_block_bytes [simp]: "heap_bytes (upd_block x f k) = heap_bytes k"
  by (simp add: upd_block_def)

lemma os_mem_alloc_bytes: "os_mem_alloc bytes m = Some (q, m') \<Longrightarrow> heap_bytes m' = heap_bytes m"
  by (auto simp: os_mem_alloc_def Let_def alloc_take_def ensure_init_def os_mem_init_def
      split: option.splits if_splits)

lemma insert_at_bytes: "heap_bytes (insert_at iter b m) = heap_bytes m"
proof -
  have p: "heap_bytes (snd (join_prev iter b m)) = heap_bytes m" by (simp add: join_prev_def)
  have n: "heap_bytes (join_next x y k) = heap_bytes k" for x y k by (simp add: join_next_def)
  show ?thesis using p by (auto simp: insert_at_def n Let_def split: prod.split)
qed

lemma os_mem_free_bytes:
  assumes "os_mem_free q m = Some m'"
  shows "heap_bytes m' = heap_bytes m"
proof -
  have i: "heap_bytes m' = heap_bytes k" if "os_mem_block_insert b k = Some m'" for b k
    using that by (auto simp: os_mem_block_insert_def insert_at_bytes)
  show ?thesis using assms by (auto simp: os_mem_free_def Let_def dest!: i split: if_splits)
qed

lemma mem_run_frame:
  "mem_run m0 m U \<Longrightarrow> heap_base m = heap_base m0 \<and> heap_bytes m = heap_bytes m0"
  by (induction rule: mem_run.induct)
    (auto dest: os_mem_alloc_frame os_mem_alloc_bytes os_mem_free_frame os_mem_free_bytes)

text \<open>A request up to the largest block size passes the guard of \<open>os_mem_alloc\<close>.\<close>

lemma alloc_need_guard:
  assumes "bytes \<noteq> 0" "unat bytes \<le> 2147483632"
  shows "bytes \<le> alloc_need bytes" "alloc_need bytes AND OS_MEM_ALLOCATED_MSK = 0"
proof -
  have a: "unat ((bytes + OS_MEM_ALIGN_MSK) AND NOT OS_MEM_ALIGN_MSK) = (unat bytes + 7) div 8 * 8"
    using align_up_unat assms(2) by simp
  have le: "(unat bytes + 7) div 8 * 8 \<le> 2147483632" using assms(2) by presburger
  have v: "unat (alloc_need bytes) = 8 + (unat bytes + 7) div 8 * 8"
    using a le by (simp add: alloc_need_def OS_MEM_HEADER_SIZE_def unat_add_lt)
  show "bytes \<le> alloc_need bytes" unfolding word_le_nat_alt v by presburger
  have "unat (alloc_need bytes) < 2147483648" using v le by linarith
  then show "alloc_need bytes AND OS_MEM_ALLOCATED_MSK = 0" using small_no_flag flag_test by blast
qed

text \<open>Whether a request succeeds depends on the free blocks alone, and a refusal changes nothing.\<close>

lemma os_mem_alloc_fits:
  assumes ok: "heap_ok m L" and b: "bytes \<noteq> 0" "unat bytes \<le> 2147483632"
  shows "\<exists>q m'. os_mem_alloc bytes m = Some (q, m') \<and>
    (q = 0 \<longrightarrow> m' = m) \<and> (q = 0 \<longleftrightarrow> (\<forall>n. (n, False) \<in> set L \<longrightarrow> n < unat (alloc_need bytes)))"
  using os_mem_alloc_cases [OF ok b(1) alloc_need_guard [OF b]] by (fastforce simp: not_less)

text \<open>Releasing what was just allocated leaves the heap with the layout it had.\<close>

lemma os_mem_alloc_free:
  assumes ok: "heap_ok m L" and r: "os_mem_alloc bytes m = Some (q, m')" "q \<noteq> 0"
  shows "\<exists>m''. os_mem_free q m' = Some m'' \<and> heap_ok m'' L"
proof -
  obtain L1 n L2 k where L: "L = L1 @ (n, False) # L2" "q = heap_start m + total L1 + 8" "k \<le> n"
    and ok': "heap_ok m' (L1 @ take_layout k n @ L2)" using os_mem_alloc_success [OF ok r] by blast
  obtain j R where t: "take_layout k n = (j, True) # R"
    by (cases "16 \<le> n - k") (simp_all add: take_layout_def)
  have hs: "heap_start m' = heap_start m" using os_mem_alloc_frame [OF r(1)] by (simp add: heap_start_def)
  have "coalesced (L1 @ (n, False) # L2)" using ok L(1) by (simp add: heap_ok_def)
  then have "free_layout L1 j (R @ L2) = L" using take_free_layout [OF _ L(3) t] L(1) by simp
  then show ?thesis using os_mem_free_effect [of m' L1 j "R @ L2"] ok' t L(2) hs by auto
qed

text \<open>The second release of the same address finds the allocated flag clear.\<close>

lemma os_mem_free_twice:
  assumes "heap_ok m (L1 @ (n, True) # L2)" "q = heap_start m + total L1 + 8" "os_mem_free q m = Some m'"
  shows "os_mem_free q m' = Some m'"
proof -
  have "\<not> bit (blk_size (block m' (heap_start m + total L1))) 31"
    using os_mem_free_effect [OF assms(1) refl] assms(2,3) by auto
  then show ?thesis using flag_test by (simp add: os_mem_free_def Let_def assms(2) OS_MEM_HEADER_SIZE_def)
qed

end
