(* ===== verification/Queue.thy ===== *)
theory Queue
  imports Waiting Fifo Mem
begin

text \<open>
  Fixed-size item queues, \<^verbatim>\<open>kernel/os_queue.c\<close>: a ring of item slots in a byte array, with one
  waiter list for senders and one for receivers, an overwrite mode that drops the oldest item
  rather than refuse the new one, and buffers that may come from the kernel heap. The buffer is
  its address, which only the heap looks at (0 is NULL), and its bytes. Offsets and sizes are
  naturals: the heap guard and the compile-time initialiser keep their products below the
  width of \<^verbatim>\<open>size_t\<close>.
\<close>

datatype os_queue_mode_t = OS_QUEUE_MODE_NORMAL | OS_QUEUE_MODE_OVERWRITE

record os_queue_t =
  queue_ref :: nat
  q_addr :: nat
  q_buffer :: "u8 list"
  q_item_size :: nat
  q_capacity :: nat
  q_head :: nat
  q_tail :: nat
  q_count :: nat
  q_owned :: bool
  q_mode :: os_queue_mode_t

definition SIZE_MAX :: nat where "SIZE_MAX = 4294967295"

section \<open>The ring\<close>

definition queue_put :: "u8 list \<Rightarrow> os_queue_t \<Rightarrow> os_queue_t" where
  "queue_put item q =
     q\<lparr>q_buffer := copy_in (q_buffer q) (q_tail q * q_item_size q) item (q_item_size q),
       q_tail := (q_tail q + 1) mod q_capacity q, q_count := q_count q + 1\<rparr>"

definition queue_overwrite :: "u8 list \<Rightarrow> os_queue_t \<Rightarrow> os_queue_t" where
  "queue_overwrite item q =
     q\<lparr>q_head := (q_head q + 1) mod q_capacity q,
       q_buffer := copy_in (q_buffer q) (q_tail q * q_item_size q) item (q_item_size q),
       q_tail := (q_tail q + 1) mod q_capacity q\<rparr>"

definition queue_get :: "os_queue_t \<Rightarrow> u8 list \<times> os_queue_t" where
  "queue_get q =
     (copy_out (q_buffer q) (q_head q * q_item_size q) (q_item_size q),
      q\<lparr>q_head := (q_head q + 1) mod q_capacity q, q_count := q_count q - 1\<rparr>)"

section \<open>Sending\<close>

definition queue_send_attempt ::
  "u8 list \<Rightarrow> u32 \<Rightarrow> u32 \<Rightarrow> kstate \<times> os_queue_t \<Rightarrow> outcome \<times> kstate \<times> os_queue_t" where
  "queue_send_attempt item timeout_ms remaining =
     (\<lambda>(s, q).
        let woken = os_task_wait_end_locked
                      (snd (os_task_waiters_wake_one (QueueReceiveWaiters (queue_ref q)) s)) in
        if q_count q < q_capacity q then (Done OS_ERR_NONE, woken, queue_put item q)
        else if q_mode q = OS_QUEUE_MODE_OVERWRITE \<and> q_capacity q \<noteq> 0 \<and>
                (timeout_ms = OS_WAIT_NOTHING \<or> \<not> os_internal_can_block s \<or> remaining = 0)
        then (Done OS_ERR_NONE, woken, queue_overwrite item q)
        else if timeout_ms = OS_WAIT_NOTHING \<or> \<not> os_internal_can_block s
        then (Done OS_ERR_FULL, os_task_wait_end_locked s, q)
        else if remaining = 0 then (Done OS_ERR_TIMEOUT, os_task_wait_end_locked s, q)
        else (Wait, os_task_wait_begin (QueueSendWaiters (queue_ref q)) remaining s, q))"

text \<open>A send whose wait timed out goes round once more with nothing left of its budget.\<close>

definition queue_send_resume ::
  "u32 \<Rightarrow> u32 \<Rightarrow> kstate \<times> os_queue_t \<Rightarrow> resumption \<times> kstate \<times> os_queue_t" where
  "queue_send_resume budget start =
     (\<lambda>(s, q). if os_task_wait_signaled s
               then (Retry (os_internal_wait_remaining budget start s), s, q)
               else (Retry 0, os_task_wait_end s, q))"

definition os_queue_send ::
  "nat \<Rightarrow> u32 \<Rightarrow> (nat \<Rightarrow> kstate \<times> os_queue_t \<Rightarrow> kstate \<times> os_queue_t) \<Rightarrow>
   os_queue_t option \<Rightarrow> u8 list option \<Rightarrow> u32 \<Rightarrow> kstate \<Rightarrow>
     (os_err_t \<times> kstate \<times> os_queue_t option) option" where
  "os_queue_send fuel hz env queue item timeout_ms s =
     (case (queue, item) of
        (Some q, Some it) \<Rightarrow>
          let budget = os_internal_timeout_to_ticks hz timeout_ms;
              start = os_internal_wait_origin s
          in map_option (\<lambda>(e, s', q'). (e, s', Some q'))
               (resume_loop fuel (queue_send_attempt it timeout_ms) (queue_send_resume budget start)
                  env budget (s, q))
      | _ \<Rightarrow> Some (OS_ERR_INVALID_ARG, s, queue))"

section \<open>Receiving\<close>

text \<open>The last component is the item copied to the caller.\<close>

definition queue_receive_attempt ::
  "u32 \<Rightarrow> u32 \<Rightarrow> kstate \<times> os_queue_t \<times> u8 list \<Rightarrow> outcome \<times> kstate \<times> os_queue_t \<times> u8 list" where
  "queue_receive_attempt timeout_ms remaining =
     (\<lambda>(s, q, out).
        if q_count q > 0 then
          (case queue_get q of
             (item, q') \<Rightarrow>
               (Done OS_ERR_NONE,
                os_task_wait_end_locked
                  (snd (os_task_waiters_wake_one (QueueSendWaiters (queue_ref q)) s)), q', item))
        else if timeout_ms = OS_WAIT_NOTHING \<or> \<not> os_internal_can_block s
        then (Done OS_ERR_EMPTY, os_task_wait_end_locked s, q, out)
        else if remaining = 0 then (Done OS_ERR_TIMEOUT, os_task_wait_end_locked s, q, out)
        else (Wait, os_task_wait_begin (QueueReceiveWaiters (queue_ref q)) remaining s, q, out))"

definition queue_receive_expired ::
  "kstate \<times> os_queue_t \<times> u8 list \<Rightarrow> os_err_t \<times> kstate \<times> os_queue_t \<times> u8 list" where
  "queue_receive_expired = (\<lambda>(s, q, out). (OS_ERR_TIMEOUT, os_task_wait_end s, q, out))"

definition os_queue_receive ::
  "nat \<Rightarrow> u32 \<Rightarrow> (nat \<Rightarrow> kstate \<times> os_queue_t \<times> u8 list \<Rightarrow> kstate \<times> os_queue_t \<times> u8 list) \<Rightarrow>
   os_queue_t option \<Rightarrow> u8 list option \<Rightarrow> u32 \<Rightarrow> kstate \<Rightarrow>
     (os_err_t \<times> kstate \<times> os_queue_t option \<times> u8 list option) option" where
  "os_queue_receive fuel hz env queue item_out timeout_ms s =
     (case (queue, item_out) of
        (Some q, Some out) \<Rightarrow>
          let budget = os_internal_timeout_to_ticks hz timeout_ms in
          map_option (\<lambda>(e, s', q', out'). (e, s', Some q', Some out'))
            (wait_loop fuel (queue_receive_attempt timeout_ms) queue_receive_expired env budget
               (os_internal_wait_origin s) budget (s, q, out))
      | _ \<Rightarrow> Some (OS_ERR_INVALID_ARG, s, queue, item_out))"

section \<open>The other calls\<close>

text \<open>The mode is an integer in C; any other value than the two modes is refused.\<close>

definition os_queue_mode_set ::
  "os_queue_t option \<Rightarrow> os_queue_mode_t option \<Rightarrow> os_err_t \<times> os_queue_t option" where
  "os_queue_mode_set queue mode =
     (case (queue, mode) of
        (Some q, Some md) \<Rightarrow> (OS_ERR_NONE, Some (q\<lparr>q_mode := md\<rparr>))
      | _ \<Rightarrow> (OS_ERR_INVALID_ARG, queue))"

definition os_queue_count_get :: "os_queue_t option \<Rightarrow> kstate \<Rightarrow> nat \<times> kstate" where
  "os_queue_count_get queue s =
     (case queue of
        None \<Rightarrow> (0, if assert_on s then s\<lparr>halted := True\<rparr> else s)
      | Some q \<Rightarrow> (q_count q, s))"

definition os_queue_free_get :: "os_queue_t option \<Rightarrow> kstate \<Rightarrow> nat \<times> kstate" where
  "os_queue_free_get queue s =
     (case queue of
        None \<Rightarrow> (0, if assert_on s then s\<lparr>halted := True\<rparr> else s)
      | Some q \<Rightarrow> (q_capacity q - q_count q, s))"

definition queue_has_waiters :: "os_queue_t \<Rightarrow> kstate \<Rightarrow> bool" where
  "queue_has_waiters q s \<longleftrightarrow>
     wlist s (QueueSendWaiters (queue_ref q)) \<noteq> [] \<or> wlist s (QueueReceiveWaiters (queue_ref q)) \<noteq> []"

definition queue_lists_init :: "os_queue_t \<Rightarrow> kstate \<Rightarrow> kstate" where
  "queue_lists_init q s =
     set_wlist (QueueReceiveWaiters (queue_ref q)) [] (set_wlist (QueueSendWaiters (queue_ref q)) [] s)"

text \<open>\<open>bytes\<close> is what the memory at an address holds: a buffer starts out with what was there.\<close>

definition os_queue_bind_buffer ::
  "(nat \<Rightarrow> u8) \<Rightarrow> os_queue_t option \<Rightarrow> nat \<Rightarrow> nat \<Rightarrow> nat \<Rightarrow> kstate \<Rightarrow>
     os_err_t \<times> os_queue_t option \<times> kstate" where
  "os_queue_bind_buffer bytes queue addr item_size capacity s =
     (case queue of
        None \<Rightarrow> (OS_ERR_INVALID_ARG, None, s)
      | Some q \<Rightarrow>
          if addr \<noteq> 0 \<and> item_size \<noteq> 0 \<and> capacity \<noteq> 0 then
            if queue_has_waiters q s then (OS_ERR_BUSY, queue, s)
            else (OS_ERR_NONE,
                  Some (q\<lparr>q_addr := addr, q_buffer := map bytes [addr ..< addr + item_size * capacity],
                          q_item_size := item_size, q_capacity := capacity,
                          q_head := 0, q_tail := 0, q_count := 0, q_owned := False\<rparr>),
                  queue_lists_init q s)
          else (OS_ERR_INVALID_ARG, queue, s))"

definition os_queue_init_dynamic ::
  "(nat \<Rightarrow> u8) \<Rightarrow> os_queue_t option \<Rightarrow> nat \<Rightarrow> nat \<Rightarrow> kstate \<Rightarrow> mem_t \<Rightarrow>
     (os_err_t \<times> os_queue_t option \<times> kstate \<times> mem_t) option" where
  "os_queue_init_dynamic bytes queue item_size capacity s m =
     (case queue of
        None \<Rightarrow> Some (OS_ERR_INVALID_ARG, None, s, m)
      | Some q \<Rightarrow>
          if item_size \<noteq> 0 \<and> capacity \<noteq> 0 \<and> capacity \<le> SIZE_MAX div item_size then
            (case os_mem_alloc (word_of_nat (item_size * capacity)) m of
               None \<Rightarrow> None
             | Some (addr, m1) \<Rightarrow>
                 if addr = 0 then Some (OS_ERR_NO_MEMORY, queue, s, m1)
                 else
                   (case os_queue_bind_buffer bytes queue addr item_size capacity s of
                      (status, queue1, s1) \<Rightarrow>
                        if status = OS_ERR_NONE
                        then Some (status, map_option (\<lambda>q. q\<lparr>q_owned := True\<rparr>) queue1, s1, m1)
                        else map_option (\<lambda>m2. (status, queue1, s1, m2)) (os_mem_free addr m1)))
          else Some (OS_ERR_INVALID_ARG, queue, s, m))"

definition os_queue_cleanup ::
  "os_queue_t option \<Rightarrow> kstate \<Rightarrow> mem_t \<Rightarrow> (os_err_t \<times> os_queue_t option \<times> kstate \<times> mem_t) option" where
  "os_queue_cleanup queue s m =
     (case queue of
        None \<Rightarrow> Some (OS_ERR_INVALID_ARG, None, s, m)
      | Some q \<Rightarrow>
          if queue_has_waiters q s
          then map_option (\<lambda>m1. (OS_ERR_BUSY, queue, s, m1)) (os_mem_free 0 m)
          else
            let q1 = q\<lparr>q_head := 0, q_tail := 0, q_count := 0\<rparr>;
                s1 = queue_lists_init q s;
                to_free = (if q_owned q then q_addr q else 0);
                q2 = (if q_owned q
                      then q1\<lparr>q_addr := 0, q_buffer := [], q_item_size := 0, q_capacity := 0,
                              q_owned := False\<rparr>
                      else q1)
            in map_option (\<lambda>m1. (OS_ERR_NONE, Some q2, s1, m1)) (os_mem_free to_free m))"

section \<open>The ring refines a bounded list\<close>

definition queue_slot :: "os_queue_t \<Rightarrow> nat \<Rightarrow> u8 list" where
  "queue_slot q i = copy_out (q_buffer q) (i * q_item_size q) (q_item_size q)"

definition queue_items :: "os_queue_t \<Rightarrow> u8 list list" where
  "queue_items q = map (\<lambda>i. queue_slot q ((q_head q + i) mod q_capacity q)) [0..<q_count q]"

definition queue_ok :: "os_queue_t \<Rightarrow> bool" where
  "queue_ok q \<longleftrightarrow> 0 < q_item_size q \<and> 0 < q_capacity q \<and>
     length (q_buffer q) = q_item_size q * q_capacity q \<and>
     q_head q < q_capacity q \<and> q_count q \<le> q_capacity q \<and>
     q_tail q = (q_head q + q_count q) mod q_capacity q"

definition queue_fits :: "os_queue_t \<Rightarrow> u8 list \<Rightarrow> bool" where
  "queue_fits q item \<longleftrightarrow> q_count q < q_capacity q \<and> length item = q_item_size q"

lemma slot_bound: "i < c \<Longrightarrow> i * n + n \<le> n * (c :: nat)"
  by (metis Suc_leI add.commute mult.commute mult_Suc mult_le_mono2)

lemma slots_apart: "i \<noteq> j \<Longrightarrow> i * n + n \<le> j * n \<or> j * n + n \<le> i * (n :: nat)"
  by (metis Suc_leI add.commute linorder_neqE_nat mult_Suc mult_le_mono1)

text \<open>Writing one slot changes that slot only.\<close>

lemma slot_write:
  assumes "length buf = n * c" "i < c" "j < c" "n \<le> length item"
  shows "copy_out (copy_in buf (i * n) item n) (j * n) n =
    (if j = i then take n item else copy_out buf (j * n) n)"
  using assms slot_bound [of i c n] slot_bound [of j c n] slots_apart [of j i n]
  by (auto simp: copy_out_in_same copy_out_in_other)

lemma ring_index_inj:
  "h < c \<Longrightarrow> (i :: nat) < c \<Longrightarrow> j < c \<Longrightarrow> (h + i) mod c = (h + j) mod c \<Longrightarrow> i = j"
  by (auto simp: mod_if split: if_splits)

lemma queue_put_items:
  assumes ok: "queue_ok q" and f: "queue_fits q x"
  shows "queue_items (queue_put x q) = queue_items q @ [x]"
proof -
  let ?c = "q_capacity q" and ?h = "q_head q" and ?n = "q_item_size q" and ?k = "q_count q"
  have w: "copy_out (copy_in (q_buffer q) (q_tail q * ?n) x ?n) ((?h + i) mod ?c * ?n) ?n =
      (if i = ?k then x else queue_slot q ((?h + i) mod ?c))" if "i \<le> ?k" for i
    using ok f that ring_index_inj [of ?h ?c i ?k]
    by (subst slot_write [where c = ?c]) (auto simp: queue_ok_def queue_fits_def queue_slot_def)
  have "queue_items (queue_put x q) =
      map (\<lambda>i. if i = ?k then x else queue_slot q ((?h + i) mod ?c)) [0..<Suc ?k]"
    unfolding queue_items_def by (rule map_cong) (auto simp: queue_put_def queue_slot_def w)
  also have "\<dots> = queue_items q @ [x]" unfolding queue_items_def by (simp cong: map_cong)
  finally show ?thesis .
qed

lemma queue_put_ok: "queue_ok q \<Longrightarrow> queue_fits q x \<Longrightarrow> queue_ok (queue_put x q)"
  using slot_bound [of "q_tail q" "q_capacity q" "q_item_size q"]
  by (auto simp: queue_ok_def queue_fits_def queue_put_def mod_Suc_eq)

lemma queue_items_Cons:
  assumes "queue_ok q" "0 < q_count q"
  shows "queue_items q = fst (queue_get q) # queue_items (snd (queue_get q))"
proof -
  have "queue_items q = map (\<lambda>i. queue_slot q ((q_head q + i) mod q_capacity q)) (0 # map Suc [0..<q_count q - 1])"
    unfolding queue_items_def using assms(2) by (simp add: map_Suc_upt upt_conv_Cons)
  then show ?thesis
    using assms by (simp add: queue_get_def queue_items_def queue_slot_def queue_ok_def o_def mod_simps)
qed

lemma queue_get_ok: "queue_ok q \<Longrightarrow> 0 < q_count q \<Longrightarrow> queue_ok (snd (queue_get q))"
  by (cases "q_count q") (auto simp: queue_ok_def queue_get_def mod_simps)

lemma queue_items_length: "length (queue_items q) = q_count q"
  by (simp add: queue_items_def)

lemma queue_overwrite_items:
  assumes ok: "queue_ok q" and full: "q_count q = q_capacity q" and x: "length x = q_item_size q"
  shows "queue_items (queue_overwrite x q) = tl (queue_items q) @ [x]"
    "queue_ok (queue_overwrite x q)"
proof -
  let ?q1 = "snd (queue_get q)"
  have c: "0 < q_count q" using ok full by (simp add: queue_ok_def)
  have "queue_overwrite x q = queue_put x ?q1"
    using c full by (simp add: queue_overwrite_def queue_put_def queue_get_def)
  moreover have "queue_ok ?q1" by (rule queue_get_ok [OF ok c])
  moreover have "queue_fits ?q1 x" using x c full by (simp add: queue_fits_def queue_get_def)
  ultimately show "queue_items (queue_overwrite x q) = tl (queue_items q) @ [x]"
    "queue_ok (queue_overwrite x q)"
    using queue_put_items [of ?q1 x] queue_put_ok [of ?q1 x] queue_items_Cons [OF ok c] by simp_all
qed

interpretation qf: bounded_fifo queue_items queue_ok queue_fits queue_put queue_get
proof
  fix q x xs
  assume ok: "queue_ok q"
  { assume "queue_fits q x"
    then show "queue_items (queue_put x q) = queue_items q @ [x]" "queue_ok (queue_put x q)"
      using queue_put_items queue_put_ok ok by blast+ }
  { assume e: "queue_items q = x # xs"
    then have "0 < q_count q" using queue_items_length [of q] by simp
    then show "fst (queue_get q) = x \<and> queue_items (snd (queue_get q)) = xs"
      using queue_items_Cons [OF ok] e by simp }
  { assume "queue_items q \<noteq> []"
    then have "0 < q_count q" using queue_items_length [of q] by (cases "q_count q") auto
    then show "queue_ok (snd (queue_get q))" by (rule queue_get_ok [OF ok]) }
qed

section \<open>The blocking calls\<close>

lemma wake_end_kwf:
  assumes "kwf {} s"
  shows "kwf {} (os_task_wait_end_locked (snd (os_task_waiters_wake_one w s)))"
    "same_env s (os_task_wait_end_locked (snd (os_task_waiters_wake_one w s)))"
  using os_task_waiters_wake_one_kwf [OF assms, of w] os_task_wait_end_locked_kwf same_env_trans by blast+

lemma queue_send_attempt_sound:
  assumes d: "dispatched s" and ok: "queue_ok q" "length item = q_item_size q"
    and a: "queue_send_attempt item ms r (s, q) = (out, s', q')"
  shows "kwf {} s' \<and> same_env s s' \<and> queue_ok q' \<and> q_item_size q' = q_item_size q"
proof -
  note k = dispatched_kwf [OF d]
  have o: "queue_ok (queue_put item q)" if "q_count q < q_capacity q"
    using queue_put_ok ok that by (simp add: queue_fits_def)
  have w: "queue_ok (queue_overwrite item q)" if "\<not> q_count q < q_capacity q"
    using queue_overwrite_items(2) [OF ok(1) _ ok(2)] that ok(1) by (simp add: queue_ok_def)
  show ?thesis
    using a o w k ok wake_end_kwf [OF k] os_task_wait_end_locked_kwf wait_begin_dispatched [OF d]
    by (auto simp: queue_send_attempt_def Let_def queue_put_def queue_overwrite_def split: if_splits)
qed

lemma dispatched_wait_end: "dispatched s \<Longrightarrow> dispatched (os_task_wait_end s)"
  using os_task_wait_end_kwf(1) [of "{}" s] dispatched_kwf [of s]
  by (auto simp: dispatched_def os_task_wait_end_def os_task_wait_end_locked_def os_internal_can_block_def
      upd_tcb_def split: option.splits)

lemma queue_send_attempt_none:
  assumes "queue_ok q" "length item = q_item_size q"
    "queue_send_attempt item ms r (s, q) = (Done OS_ERR_NONE, s', q')"
  shows "queue_items q' =
     (if q_count q < q_capacity q then queue_items q else tl (queue_items q)) @ [item]"
proof (cases "q_count q < q_capacity q")
  case True
  then have "q' = queue_put item q" using assms(3) by (simp add: queue_send_attempt_def)
  then show ?thesis using queue_put_items [OF assms(1)] assms(2) True by (simp add: queue_fits_def)
next
  case False
  then have "q' = queue_overwrite item q" using assms(3)
    by (auto simp: queue_send_attempt_def Let_def split: if_splits)
  moreover have "q_count q = q_capacity q" using False assms(1) by (simp add: queue_ok_def)
  ultimately show ?thesis using queue_overwrite_items(1) [OF assms(1) _ assms(2)] by simp
qed

interpretation queue_send: resuming_call
  "queue_send_attempt item ms" "queue_send_resume budget start"
  "\<lambda>(s, q). dispatched s \<and> queue_ok q \<and> length item = q_item_size q"
  "\<lambda>(s, q). dispatched s \<and> queue_ok q \<and> length item = q_item_size q"
  "\<lambda>(s, q). kwf {} s \<and> queue_ok q \<and> length item = q_item_size q"
  "\<lambda>e (s, q). e \<in> {OS_ERR_NONE, OS_ERR_FULL, OS_ERR_TIMEOUT} \<and>
     (e = OS_ERR_NONE \<longrightarrow> queue_items q \<noteq> [] \<and> last (queue_items q) = item)"
  for item ms budget start
proof
  fix st st' :: "kstate \<times> os_queue_t" and r e
  assume rd: "case st of (s, q) \<Rightarrow> dispatched s \<and> queue_ok q \<and> length item = q_item_size q"
  obtain s q s' q' where st: "st = (s, q)" "st' = (s', q')" by (cases st, cases st')
  then have d: "dispatched s" "queue_ok q" "length item = q_item_size q" using rd by auto
  note sound = queue_send_attempt_sound [OF d]
  { assume a: "queue_send_attempt item ms r st = (Done e, st')"
    then have "e = OS_ERR_NONE \<Longrightarrow> queue_items q' \<noteq> [] \<and> last (queue_items q') = item"
      using queue_send_attempt_none [OF d(2,3), of ms r s s' q'] st by simp
    then show "(case st' of (s, q) \<Rightarrow> kwf {} s \<and> queue_ok q \<and> length item = q_item_size q) \<and>
        (case st' of (s, q) \<Rightarrow> e \<in> {OS_ERR_NONE, OS_ERR_FULL, OS_ERR_TIMEOUT} \<and>
           (e = OS_ERR_NONE \<longrightarrow> queue_items q \<noteq> [] \<and> last (queue_items q) = item))"
      using sound a st d by (auto simp: queue_send_attempt_def Let_def split: if_splits) }
  { assume a: "queue_send_attempt item ms r st = (Wait, st')"
    then show "(case st' of (s, q) \<Rightarrow> kwf {} s \<and> queue_ok q \<and> length item = q_item_size q) \<and> r \<noteq> 0"
      using sound a st d by (auto simp: queue_send_attempt_def Let_def split: if_splits) }
  { assume "queue_send_resume budget start st = (Return e, st')"
    then show "(case st' of (s, q) \<Rightarrow> kwf {} s \<and> queue_ok q \<and> length item = q_item_size q) \<and>
        (case st' of (s, q) \<Rightarrow> e \<in> {OS_ERR_NONE, OS_ERR_FULL, OS_ERR_TIMEOUT} \<and>
           (e = OS_ERR_NONE \<longrightarrow> queue_items q \<noteq> [] \<and> last (queue_items q) = item))"
      using st by (auto simp: queue_send_resume_def split: if_splits) }
  { assume "queue_send_resume budget start st = (Retry r, st')"
    then show "case st' of (s, q) \<Rightarrow> dispatched s \<and> queue_ok q \<and> length item = q_item_size q"
      using st d dispatched_wait_end by (auto simp: queue_send_resume_def split: if_splits) }
qed

lemma queue_receive_attempt_sound:
  assumes d: "dispatched s" and ok: "queue_ok q"
    and a: "queue_receive_attempt ms r (s, q, out) = (res, s', q', out')"
  shows "kwf {} s' \<and> same_env s s' \<and> queue_ok q' \<and>
    (res = Done OS_ERR_NONE \<longrightarrow> queue_items q = out' # queue_items q') \<and>
    (res \<noteq> Done OS_ERR_NONE \<longrightarrow> q' = q \<and> out' = out)"
proof -
  note k = dispatched_kwf [OF d]
  show ?thesis
    using a k ok wake_end_kwf [OF k] os_task_wait_end_locked_kwf wait_begin_dispatched [OF d]
      queue_get_ok [OF ok] queue_items_Cons [OF ok]
    by (auto simp: queue_receive_attempt_def split: if_splits prod.splits)
qed

interpretation queue_receive: blocking_call
  "queue_receive_attempt ms" queue_receive_expired
  "\<lambda>(s, q, out). dispatched s \<and> queue_ok q" "\<lambda>(s, q, out). kwf {} s \<and> queue_ok q"
  "\<lambda>e (s, q, out). e \<in> {OS_ERR_NONE, OS_ERR_EMPTY, OS_ERR_TIMEOUT} \<and>
     (e = OS_ERR_NONE \<longrightarrow> q_count q < q_capacity q)"
  for ms
proof
  fix st st' :: "kstate \<times> os_queue_t \<times> u8 list" and r e
  assume rd: "case st of (s, q, out) \<Rightarrow> dispatched s \<and> queue_ok q"
  obtain s q out s' q' out' where st: "st = (s, q, out)" "st' = (s', q', out')" by (cases st, cases st')
  then have d: "dispatched s" "queue_ok q" using rd by auto
  have sound: "kwf {} s' \<and> queue_ok q'" if "queue_receive_attempt ms r st = (res, st')" for res
    using queue_receive_attempt_sound [OF d] that st by blast
  { assume a: "queue_receive_attempt ms r st = (Done e, st')"
    then have "q_count q' < q_capacity q'" if "e = OS_ERR_NONE"
      using that st d(2) by (auto simp: queue_receive_attempt_def queue_get_def queue_ok_def split: if_splits)
    then show "(case st' of (s, q, out) \<Rightarrow> kwf {} s \<and> queue_ok q) \<and>
        (case st' of (s, q, out) \<Rightarrow> e \<in> {OS_ERR_NONE, OS_ERR_EMPTY, OS_ERR_TIMEOUT} \<and>
           (e = OS_ERR_NONE \<longrightarrow> q_count q < q_capacity q))"
      using sound [OF a] a unfolding st
      by (auto simp: queue_receive_attempt_def queue_get_def split: if_splits) }
  { assume a: "queue_receive_attempt ms r st = (Wait, st')"
    then show "(case st' of (s, q, out) \<Rightarrow> kwf {} s \<and> queue_ok q) \<and> r \<noteq> 0"
      using sound [OF a] unfolding st
      by (auto simp: queue_receive_attempt_def queue_get_def split: if_splits) }
  { assume "queue_receive_expired st = (e, st')"
    then show "(case st' of (s, q, out) \<Rightarrow> kwf {} s \<and> queue_ok q) \<and>
        (case st' of (s, q, out) \<Rightarrow> e \<in> {OS_ERR_NONE, OS_ERR_EMPTY, OS_ERR_TIMEOUT} \<and>
           (e = OS_ERR_NONE \<longrightarrow> q_count q < q_capacity q))"
      using st d(2) os_task_wait_end_kwf(1) [OF dispatched_kwf [OF d(1)]]
      by (auto simp: queue_receive_expired_def) }
qed

section \<open>Buffers from the heap\<close>

lemma map_upt_length: "length (map f [a..<a + n]) = n" by simp

lemma bind_buffer_ok:
  assumes "os_queue_bind_buffer bytes queue addr isz cap s = (OS_ERR_NONE, queue', s')"
  shows "\<exists>q. queue' = Some q \<and> queue_ok q \<and> queue_items q = [] \<and> q_item_size q = isz \<and>
    q_capacity q = cap \<and> q_addr q = addr \<and> length (q_buffer q) = isz * cap"
  using assms
  by (auto simp: os_queue_bind_buffer_def queue_ok_def queue_items_def split: option.splits if_splits)

lemma queue_init_dynamic_ok:
  assumes "os_queue_init_dynamic bytes (Some q0) isz cap s m = Some (OS_ERR_NONE, queue', s', m')"
  shows "\<exists>q. queue' = Some q \<and> queue_ok q \<and> queue_items q = [] \<and> q_owned q \<and>
    q_item_size q = isz \<and> q_capacity q = cap \<and>
    os_mem_alloc (word_of_nat (isz * cap)) m = Some (q_addr q, m') \<and> q_addr q \<noteq> 0 \<and>
    unat (word_of_nat (isz * cap) :: u32) = isz * cap"
proof -
  have g: "isz \<noteq> 0" "cap \<noteq> 0" "cap \<le> SIZE_MAX div isz"
    using assms by (auto simp: os_queue_init_dynamic_def split: if_splits)
  have "isz * cap \<le> SIZE_MAX" using g by (simp add: less_eq_div_iff_mult_less_eq mult.commute)
  then have u: "unat (word_of_nat (isz * cap) :: u32) = isz * cap"
    by (intro unat_small_word) (simp add: SIZE_MAX_def)
  obtain addr m1 where a: "os_mem_alloc (word_of_nat (isz * cap)) m = Some (addr, m1)" "addr \<noteq> 0"
    using assms g by (auto simp: os_queue_init_dynamic_def split: option.splits if_splits)
  obtain st queue1 s1 where b: "os_queue_bind_buffer bytes (Some q0) addr isz cap s = (st, queue1, s1)"
    by (cases "os_queue_bind_buffer bytes (Some q0) addr isz cap s") auto
  have "st = OS_ERR_NONE" using assms g a b
    by (auto simp: os_queue_init_dynamic_def split: if_splits)
  with bind_buffer_ok b obtain q where q: "queue1 = Some q" "queue_ok q" "queue_items q = []"
    "q_item_size q = isz" "q_capacity q = cap" "q_addr q = addr" by metis
  have "queue' = Some (q\<lparr>q_owned := True\<rparr>)" "m' = m1"
    using assms g a b q \<open>st = OS_ERR_NONE\<close> by (simp_all add: os_queue_init_dynamic_def)
  then show ?thesis using q a u by (auto simp: queue_ok_def queue_items_def queue_slot_def)
qed

end
