(* ===== verification/Msg.thy ===== *)
theory Msg
  imports Waiting Fifo Mem
begin

text \<open>
  Message buffers, \<^verbatim>\<open>kernel/os_msg.c\<close>: a ring of bytes that carries whole messages of any length,
  each behind a two-byte length header. A header or a body may wrap around the end of the array.
  Offsets and lengths are naturals below the capacity, which is a \<^verbatim>\<open>size_t\<close>.
\<close>

record os_msg_t =
  msg_ref :: nat
  m_addr :: nat
  m_buffer :: "u8 list"
  m_capacity :: nat
  m_head :: nat
  m_tail :: nat
  m_used :: nat
  m_count :: nat
  m_owned :: bool

definition OS_MSG_HEADER_BYTES :: nat where "OS_MSG_HEADER_BYTES = 2"
definition OS_MSG_LENGTH_MAX :: nat where "OS_MSG_LENGTH_MAX = 0xFFFF"
definition OS_MSG_SPACE :: "nat \<Rightarrow> nat" where "OS_MSG_SPACE n = n + OS_MSG_HEADER_BYTES"

section \<open>The byte ring\<close>

definition os_msg_ring_write :: "u8 list \<Rightarrow> nat \<Rightarrow> os_msg_t \<Rightarrow> os_msg_t" where
  "os_msg_ring_write source n b =
     (let first = (if m_capacity b - m_tail b > n then n else m_capacity b - m_tail b);
          buf1 = copy_in (m_buffer b) (m_tail b) source first;
          buf2 = (if n > first then copy_in buf1 0 (drop first source) (n - first) else buf1)
      in b\<lparr>m_buffer := buf2, m_tail := (m_tail b + n) mod m_capacity b\<rparr>)"

text \<open>The bytes read, and the buffer with its head moved on.\<close>

definition os_msg_ring_read :: "nat \<Rightarrow> os_msg_t \<Rightarrow> u8 list \<times> os_msg_t" where
  "os_msg_ring_read n b =
     (let first = (if m_capacity b - m_head b > n then n else m_capacity b - m_head b);
          d1 = copy_out (m_buffer b) (m_head b) first;
          d2 = (if n > first then d1 @ copy_out (m_buffer b) 0 (n - first) else d1)
      in (d2, b\<lparr>m_head := (m_head b + n) mod m_capacity b\<rparr>))"

definition header_bytes :: "nat \<Rightarrow> u8 list" where
  "header_bytes n = map (\<lambda>i. word_of_nat (n div 2 ^ (8 * i) mod 256)) [0..<OS_MSG_HEADER_BYTES]"

definition os_msg_length_write :: "nat \<Rightarrow> os_msg_t \<Rightarrow> os_msg_t" where
  "os_msg_length_write n b = os_msg_ring_write (header_bytes n) OS_MSG_HEADER_BYTES b"

definition os_msg_length_peek :: "os_msg_t \<Rightarrow> nat" where
  "os_msg_length_peek b =
     snd (fold (\<lambda>byte (index, len).
                  ((index + 1) mod m_capacity b, len OR push_bit (8 * byte) (unat (m_buffer b ! index))))
            [0..<OS_MSG_HEADER_BYTES] (m_head b, 0))"

definition os_msg_sender_match :: "os_msg_t \<Rightarrow> u32 \<Rightarrow> u32 \<Rightarrow> unit \<Rightarrow> u32 option \<times> unit" where
  "os_msg_sender_match b needed unused ctx =
     (if unat needed \<le> m_capacity b - m_used b then Some 0 else None, ctx)"

section \<open>Sending and receiving\<close>

definition msg_put :: "u8 list \<Rightarrow> nat \<Rightarrow> os_msg_t \<Rightarrow> os_msg_t" where
  "msg_put data n b =
     (let b1 = os_msg_ring_write data n (os_msg_length_write n b) in
      b1\<lparr>m_used := m_used b1 + (n + OS_MSG_HEADER_BYTES), m_count := m_count b1 + 1\<rparr>)"

definition msg_take :: "nat \<Rightarrow> os_msg_t \<Rightarrow> u8 list \<times> os_msg_t" where
  "msg_take n b =
     (case os_msg_ring_read n (b\<lparr>m_head := (m_head b + OS_MSG_HEADER_BYTES) mod m_capacity b\<rparr>) of
        (d, b1) \<Rightarrow>
          (d, b1\<lparr>m_used := m_used b1 - (n + OS_MSG_HEADER_BYTES), m_count := m_count b1 - 1\<rparr>))"

definition msg_send_attempt ::
  "u8 list \<Rightarrow> nat \<Rightarrow> u32 \<Rightarrow> u32 \<Rightarrow> kstate \<times> os_msg_t \<Rightarrow> outcome \<times> kstate \<times> os_msg_t" where
  "msg_send_attempt data n timeout_ms remaining =
     (\<lambda>(s, b).
        let needed = n + OS_MSG_HEADER_BYTES in
        if needed > m_capacity b then (Done OS_ERR_INVALID_ARG, os_task_wait_end_locked s, b)
        else if m_capacity b - m_used b \<ge> needed then
          (Done OS_ERR_NONE,
           os_task_wait_end_locked (snd (os_task_waiters_wake_one (MsgReceiveWaiters (msg_ref b)) s)),
           msg_put data n b)
        else if timeout_ms = OS_WAIT_NOTHING \<or> \<not> os_internal_can_block s
        then (Done OS_ERR_FULL, os_task_wait_end_locked s, b)
        else if remaining = 0 then (Done OS_ERR_TIMEOUT, os_task_wait_end_locked s, b)
        else (Wait, os_task_wait_begin (MsgSendWaiters (msg_ref b)) remaining
                      (os_task_wait_data_set (word_of_nat needed) 0 s), b))"

definition msg_send_expired :: "kstate \<times> os_msg_t \<Rightarrow> os_err_t \<times> kstate \<times> os_msg_t" where
  "msg_send_expired = (\<lambda>(s, b). (OS_ERR_TIMEOUT, os_task_wait_end s, b))"

definition os_msg_send ::
  "nat \<Rightarrow> u32 \<Rightarrow> (nat \<Rightarrow> kstate \<times> os_msg_t \<Rightarrow> kstate \<times> os_msg_t) \<Rightarrow>
   os_msg_t option \<Rightarrow> u8 list option \<Rightarrow> nat \<Rightarrow> u32 \<Rightarrow> kstate \<Rightarrow>
     (os_err_t \<times> kstate \<times> os_msg_t option) option" where
  "os_msg_send fuel hz env msg data n timeout_ms s =
     (case (msg, data) of
        (Some b, Some d) \<Rightarrow>
          if n \<noteq> 0 \<and> n \<le> OS_MSG_LENGTH_MAX then
            let budget = os_internal_timeout_to_ticks hz timeout_ms in
            map_option (\<lambda>(e, s', b'). (e, s', Some b'))
              (wait_loop fuel (msg_send_attempt d n timeout_ms) msg_send_expired env budget
                 (os_internal_wait_origin s) budget (s, b))
          else Some (OS_ERR_INVALID_ARG, s, msg)
      | _ \<Rightarrow> Some (OS_ERR_INVALID_ARG, s, msg))"

text \<open>
  The receiver's data buffer and the length it is told are the last two components. A message that
  does not fit the receiver's buffer stays where it is, and its length is reported.
\<close>

definition msg_receive_attempt ::
  "nat \<Rightarrow> u32 \<Rightarrow> u32 \<Rightarrow> kstate \<times> os_msg_t \<times> u8 list \<times> nat \<Rightarrow>
     outcome \<times> kstate \<times> os_msg_t \<times> u8 list \<times> nat" where
  "msg_receive_attempt data_size timeout_ms remaining =
     (\<lambda>(s, b, data, len).
        if m_count b > 0 then
          let n = os_msg_length_peek b;
              (e, s1, b1, data1) =
                (if n > data_size then (OS_ERR_INVALID_ARG, s, b, data)
                 else case msg_take n b of
                        (d, b1) \<Rightarrow>
                          (OS_ERR_NONE,
                           snd (snd (os_task_waiters_wake_match (MsgSendWaiters (msg_ref b))
                                       (os_msg_sender_match b1) () s)),
                           b1, copy_in data 0 d n));
              s2 = (if m_count b1 > 0
                    then snd (os_task_waiters_wake_one (MsgReceiveWaiters (msg_ref b)) s1) else s1)
          in (Done e, os_task_wait_end_locked s2, b1, data1, n)
        else if timeout_ms = OS_WAIT_NOTHING \<or> \<not> os_internal_can_block s
        then (Done OS_ERR_EMPTY, os_task_wait_end_locked s, b, data, len)
        else if remaining = 0 then (Done OS_ERR_TIMEOUT, os_task_wait_end_locked s, b, data, len)
        else (Wait, os_task_wait_begin (MsgReceiveWaiters (msg_ref b)) remaining s, b, data, len))"

definition msg_receive_expired ::
  "kstate \<times> os_msg_t \<times> u8 list \<times> nat \<Rightarrow> os_err_t \<times> kstate \<times> os_msg_t \<times> u8 list \<times> nat" where
  "msg_receive_expired = (\<lambda>(s, b, data, len). (OS_ERR_TIMEOUT, os_task_wait_end s, b, data, len))"

definition os_msg_receive ::
  "nat \<Rightarrow> u32 \<Rightarrow>
   (nat \<Rightarrow> kstate \<times> os_msg_t \<times> u8 list \<times> nat \<Rightarrow> kstate \<times> os_msg_t \<times> u8 list \<times> nat) \<Rightarrow>
   os_msg_t option \<Rightarrow> u8 list option \<Rightarrow> nat \<Rightarrow> nat option \<Rightarrow> u32 \<Rightarrow> kstate \<Rightarrow>
     (os_err_t \<times> kstate \<times> os_msg_t option \<times> u8 list option \<times> nat option) option" where
  "os_msg_receive fuel hz env msg data data_size length_out timeout_ms s =
     (case (msg, data, length_out) of
        (Some b, Some d, Some l) \<Rightarrow>
          let budget = os_internal_timeout_to_ticks hz timeout_ms in
          map_option (\<lambda>(e, s', b', d', l'). (e, s', Some b', Some d', Some l'))
            (wait_loop fuel (msg_receive_attempt data_size timeout_ms) msg_receive_expired env budget
               (os_internal_wait_origin s) budget (s, b, d, l))
      | _ \<Rightarrow> Some (OS_ERR_INVALID_ARG, s, msg, data, length_out))"

section \<open>The other calls\<close>

definition os_msg_count_get :: "os_msg_t option \<Rightarrow> kstate \<Rightarrow> nat \<times> kstate" where
  "os_msg_count_get msg s =
     (case msg of
        None \<Rightarrow> (0, if assert_on s then s\<lparr>halted := True\<rparr> else s)
      | Some b \<Rightarrow> (m_count b, s))"

definition os_msg_free_get :: "os_msg_t option \<Rightarrow> kstate \<Rightarrow> nat \<times> kstate" where
  "os_msg_free_get msg s =
     (case msg of
        None \<Rightarrow> (0, if assert_on s then s\<lparr>halted := True\<rparr> else s)
      | Some b \<Rightarrow> (m_capacity b - m_used b, s))"

definition os_msg_peek_size :: "os_msg_t option \<Rightarrow> kstate \<Rightarrow> nat \<times> kstate" where
  "os_msg_peek_size msg s =
     (case msg of
        None \<Rightarrow> (0, if assert_on s then s\<lparr>halted := True\<rparr> else s)
      | Some b \<Rightarrow> (if m_count b > 0 then os_msg_length_peek b else 0, s))"

definition msg_has_waiters :: "os_msg_t \<Rightarrow> kstate \<Rightarrow> bool" where
  "msg_has_waiters b s \<longleftrightarrow>
     wlist s (MsgSendWaiters (msg_ref b)) \<noteq> [] \<or> wlist s (MsgReceiveWaiters (msg_ref b)) \<noteq> []"

definition msg_lists_init :: "os_msg_t \<Rightarrow> kstate \<Rightarrow> kstate" where
  "msg_lists_init b s =
     set_wlist (MsgReceiveWaiters (msg_ref b)) [] (set_wlist (MsgSendWaiters (msg_ref b)) [] s)"

definition os_msg_init_dynamic ::
  "(nat \<Rightarrow> u8) \<Rightarrow> os_msg_t option \<Rightarrow> u32 \<Rightarrow> kstate \<Rightarrow> mem_t \<Rightarrow>
     (os_err_t \<times> os_msg_t option \<times> kstate \<times> mem_t) option" where
  "os_msg_init_dynamic bytes msg byte_size s m =
     (case msg of
        None \<Rightarrow> Some (OS_ERR_INVALID_ARG, None, s, m)
      | Some b \<Rightarrow>
          if unat byte_size \<ge> OS_MSG_SPACE 1 then
            (case os_mem_alloc byte_size m of
               None \<Rightarrow> None
             | Some (addr, m1) \<Rightarrow>
                 if addr = 0 then Some (OS_ERR_NO_MEMORY, msg, s, m1)
                 else if msg_has_waiters b s
                 then map_option (\<lambda>m2. (OS_ERR_BUSY, msg, s, m2)) (os_mem_free addr m1)
                 else Some (OS_ERR_NONE,
                        Some (b\<lparr>m_addr := addr, m_buffer := map bytes [addr ..< addr + unat byte_size],
                                m_capacity := unat byte_size, m_head := 0, m_tail := 0, m_used := 0,
                                m_count := 0, m_owned := True\<rparr>),
                        msg_lists_init b s, m1))
          else Some (OS_ERR_INVALID_ARG, msg, s, m))"

definition os_msg_cleanup ::
  "os_msg_t option \<Rightarrow> kstate \<Rightarrow> mem_t \<Rightarrow> (os_err_t \<times> os_msg_t option \<times> kstate \<times> mem_t) option" where
  "os_msg_cleanup msg s m =
     (case msg of
        None \<Rightarrow> Some (OS_ERR_INVALID_ARG, None, s, m)
      | Some b \<Rightarrow>
          if msg_has_waiters b s
          then map_option (\<lambda>m1. (OS_ERR_BUSY, msg, s, m1)) (os_mem_free 0 m)
          else
            let b1 = b\<lparr>m_head := 0, m_tail := 0, m_used := 0, m_count := 0\<rparr>;
                s1 = msg_lists_init b s;
                to_free = (if m_owned b then m_addr b else 0);
                b2 = (if m_owned b
                      then b1\<lparr>m_addr := 0, m_buffer := [], m_capacity := 0, m_owned := False\<rparr> else b1)
            in map_option (\<lambda>m1. (OS_ERR_NONE, Some b2, s1, m1)) (os_mem_free to_free m))"

section \<open>The ring refines a list of messages\<close>

text \<open>\<open>n\<close> bytes of the ring from \<open>start\<close> on, in ring order.\<close>

definition ring_at :: "u8 list \<Rightarrow> nat \<Rightarrow> nat \<Rightarrow> nat \<Rightarrow> u8 list" where
  "ring_at buf c start n = map (\<lambda>i. buf ! ((start + i) mod c)) [0..<n]"

lemma ring_at_length [simp]: "length (ring_at buf c start n) = n"
  by (simp add: ring_at_def)

lemma ring_at_mod [simp]: "ring_at buf c (start mod c) n = ring_at buf c start n"
  by (simp add: ring_at_def mod_simps)

lemma ring_at_add: "ring_at buf c start (a + k) = ring_at buf c start a @ ring_at buf c (start + a) k"
  by (rule nth_equalityI) (auto simp: ring_at_def nth_append add.assoc)

lemma ring_at_take: "k \<le> n \<Longrightarrow> take k (ring_at buf c start n) = ring_at buf c start k"
  using ring_at_add [of buf c start k "n - k"] by simp

lemma ring_at_drop: "k \<le> n \<Longrightarrow> drop k (ring_at buf c start n) = ring_at buf c (start + k) (n - k)"
  using ring_at_add [of buf c start k "n - k"] by simp

definition ring_ok :: "os_msg_t \<Rightarrow> bool" where
  "ring_ok b \<longleftrightarrow> length (m_buffer b) = m_capacity b \<and> m_head b < m_capacity b \<and> m_tail b < m_capacity b"

lemma ring_write_frame:
  assumes "ring_ok b" "n \<le> m_capacity b" "n \<le> length src"
  shows "ring_ok (os_msg_ring_write src n b)"
    "m_tail (os_msg_ring_write src n b) = (m_tail b + n) mod m_capacity b"
    "m_head (os_msg_ring_write src n b) = m_head b" "m_capacity (os_msg_ring_write src n b) = m_capacity b"
    "m_used (os_msg_ring_write src n b) = m_used b" "m_count (os_msg_ring_write src n b) = m_count b"
    "msg_ref (os_msg_ring_write src n b) = msg_ref b"
  using assms by (auto simp: ring_ok_def os_msg_ring_write_def Let_def)

text \<open>What a write does, in ring coordinates from the tail.\<close>

lemma ring_write_nth:
  assumes "ring_ok b" "n \<le> m_capacity b" "n \<le> length src" "k < m_capacity b"
  shows "m_buffer (os_msg_ring_write src n b) ! ((m_tail b + k) mod m_capacity b) =
    (if k < n then src ! k else m_buffer b ! ((m_tail b + k) mod m_capacity b))"
proof -
  let ?c = "m_capacity b" and ?t = "m_tail b"
  have t: "?t < ?c" "length (m_buffer b) = ?c" using assms(1) by (simp_all add: ring_ok_def)
  have m: "(?t + k) mod ?c = (if ?t + k < ?c then ?t + k else ?t + k - ?c)"
    using t assms(4) by (simp add: mod_if)
  show ?thesis
  proof (cases "?c - ?t < n")
    case True
    then show ?thesis
      using assms t unfolding m by (auto simp: os_msg_ring_write_def Let_def copy_in_nth)
  next
    case False
    then have "os_msg_ring_write src n b =
        b\<lparr>m_buffer := copy_in (m_buffer b) ?t src n, m_tail := (?t + n) mod ?c\<rparr>"
      using t by (auto simp: os_msg_ring_write_def Let_def)
    then show ?thesis using assms t False unfolding m by (auto simp: copy_in_nth)
  qed
qed

lemma ring_write_content:
  assumes ok: "ring_ok b" and n: "u + n \<le> m_capacity b" "n \<le> length src"
    and t: "m_tail b = (m_head b + u) mod m_capacity b"
  shows "ring_at (m_buffer (os_msg_ring_write src n b)) (m_capacity b) (m_head b) (u + n) =
    ring_at (m_buffer b) (m_capacity b) (m_head b) u @ take n src"
proof -
  let ?c = "m_capacity b" and ?h = "m_head b" and ?b' = "m_buffer (os_msg_ring_write src n b)"
  have nc: "n \<le> ?c" using n by simp
  have w: "?b' ! ((?h + u + k) mod ?c) = (if k < n then src ! k else m_buffer b ! ((?h + u + k) mod ?c))"
    if "k < ?c" for k
    using ring_write_nth [OF ok nc n(2) that] unfolding t by (simp add: mod_simps)
  have "ring_at ?b' ?c (?h + u) n = take n src"
    by (rule nth_equalityI) (use w n in \<open>auto simp: ring_at_def\<close>)
  moreover have "ring_at ?b' ?c ?h u = ring_at (m_buffer b) ?c ?h u"
    unfolding ring_at_def
  proof (rule map_cong [OF refl])
    fix i assume "i \<in> set [0..<u]"
    then have i: "i < u" by simp
    have "?h + u + (?c - u + i) = ?h + i + ?c" using i n by simp
    then have "(?h + u + (?c - u + i)) mod ?c = (?h + i) mod ?c" by (metis mod_add_self2)
    moreover have "?c - u + i < ?c" "\<not> ?c - u + i < n" using i n by auto
    ultimately have "(?h + u + (?c - u + i)) mod ?c = (?h + i) mod ?c" "?c - u + i < ?c" "\<not> ?c - u + i < n"
      by blast+
    then show "?b' ! ((?h + i) mod ?c) = m_buffer b ! ((?h + i) mod ?c)" using w [of "?c - u + i"] by simp
  qed
  ultimately show ?thesis unfolding ring_at_add by simp
qed

lemma ring_read_content:
  assumes "ring_ok b" "n \<le> m_capacity b"
  shows "os_msg_ring_read n b =
    (ring_at (m_buffer b) (m_capacity b) (m_head b) n, b\<lparr>m_head := (m_head b + n) mod m_capacity b\<rparr>)"
proof -
  let ?c = "m_capacity b" and ?h = "m_head b"
  have h: "?h < ?c" "length (m_buffer b) = ?c" using assms(1) by (simp_all add: ring_ok_def)
  have "fst (os_msg_ring_read n b) = ring_at (m_buffer b) ?c ?h n"
    by (rule nth_equalityI)
       (use h assms(2) in \<open>auto simp: os_msg_ring_read_def Let_def ring_at_def copy_out_def nth_append mod_if add.commute\<close>)
  then show ?thesis by (simp add: os_msg_ring_read_def Let_def)
qed

subsection \<open>Length headers\<close>

lemma header_bytes_eq: "header_bytes n = [word_of_nat (n mod 256), word_of_nat (n div 256 mod 256)]"
  by (simp add: header_bytes_def OS_MSG_HEADER_BYTES_def upt_rec)

lemma or_shifted: "(a :: nat) < 256 \<Longrightarrow> a OR push_bit 8 b = a + 256 * b"
proof -
  assume "a < 256"
  then have "a = take_bit 8 a" by (simp add: take_bit_nat_eq_self)
  then have "a AND push_bit 8 b = 0"
    by (metis (no_types, opaque_lifting) bit_and_iff bit_push_bit_iff bit_take_bit_iff bit_0_eq
        bit_eqI bot_apply bot_bool_def linorder_not_le)
  then show "a OR push_bit 8 b = a + 256 * b"
    using disjunctive_add_eq_or [of a "push_bit 8 b"] by (simp add: push_bit_eq_mult mult.commute)
qed

lemma length_peek_eq:
  assumes "ring_ok b"
  shows "os_msg_length_peek b =
    unat (m_buffer b ! m_head b) + 256 * unat (m_buffer b ! ((m_head b + 1) mod m_capacity b))"
proof -
  have "unat (w :: u8) < 256" for w using unsigned_less [of w] by simp
  then show ?thesis
    by (simp add: os_msg_length_peek_def OS_MSG_HEADER_BYTES_def upt_conv_Cons numeral_2_eq_2 or_shifted)
qed

subsection \<open>Messages\<close>

definition encode :: "u8 list \<Rightarrow> u8 list" where
  "encode d = header_bytes (length d) @ d"

fun parse :: "nat \<Rightarrow> u8 list \<Rightarrow> u8 list list" where
  "parse 0 bs = []"
| "parse (Suc n) bs =
     (let k = unat (bs ! 0) + 256 * unat (bs ! 1)
      in take k (drop 2 bs) # parse n (drop (2 + k) bs))"

definition storable :: "u8 list \<Rightarrow> bool" where
  "storable d \<longleftrightarrow> d \<noteq> [] \<and> length d \<le> OS_MSG_LENGTH_MAX"

definition msg_content :: "os_msg_t \<Rightarrow> u8 list" where
  "msg_content b = ring_at (m_buffer b) (m_capacity b) (m_head b) (m_used b)"

definition msg_items :: "os_msg_t \<Rightarrow> u8 list list" where
  "msg_items b = parse (m_count b) (msg_content b)"

definition msg_ok :: "os_msg_t \<Rightarrow> bool" where
  "msg_ok b \<longleftrightarrow> ring_ok b \<and> m_used b \<le> m_capacity b \<and>
     m_tail b = (m_head b + m_used b) mod m_capacity b \<and>
     msg_content b = concat (map encode (msg_items b)) \<and> list_all storable (msg_items b)"

definition msg_fits :: "os_msg_t \<Rightarrow> u8 list \<Rightarrow> bool" where
  "msg_fits b d \<longleftrightarrow> storable d \<and> length d + OS_MSG_HEADER_BYTES \<le> m_capacity b - m_used b"

lemma unat_byte: "n < 256 \<Longrightarrow> unat (word_of_nat n :: u8) = n"
  by (simp add: unat_of_nat)

lemma header_value:
  assumes "storable d"
  shows "unat (encode d ! 0) + 256 * unat (encode d ! 1) = length d"
proof -
  have "length d div 256 < 256" using assms by (auto simp: storable_def OS_MSG_LENGTH_MAX_def)
  then have "length d div 256 mod 256 = length d div 256" by simp
  then show ?thesis by (simp add: encode_def header_bytes_eq unat_byte)
qed

lemma encode_length [simp]: "length (encode d) = length d + 2"
  by (simp add: encode_def header_bytes_eq)

lemma parse_encode: "list_all storable ms \<Longrightarrow> parse (length ms) (concat (map encode ms) @ rest) = ms"
proof (induction ms)
  case (Cons d ms)
  let ?bs = "encode d @ concat (map encode ms) @ rest"
  have "unat (?bs ! 0) + 256 * unat (?bs ! 1) = length d"
    using header_value [of d] Cons.prems by (simp add: nth_append)
  moreover have "take (length d) (drop 2 ?bs) = d" "drop (2 + length d) ?bs = concat (map encode ms) @ rest"
    by (simp_all add: encode_def header_bytes_eq)
  ultimately show ?case using Cons by (simp add: Let_def)
qed simp

lemma msg_items_length: "length (parse n bs) = n"
  by (induction n bs rule: parse.induct) (auto simp: Let_def)

lemma msg_put_effect:
  assumes ok: "msg_ok b" and f: "msg_fits b d"
  shows "msg_items (msg_put d (length d) b) = msg_items b @ [d]" "msg_ok (msg_put d (length d) b)"
    "m_capacity (msg_put d (length d) b) = m_capacity b" "msg_ref (msg_put d (length d) b) = msg_ref b"
proof -
  let ?n = "length d" and ?h = "header_bytes (length d)" and ?c = "m_capacity b" and ?u = "m_used b"
  have o: "ring_ok b" "?u \<le> ?c" "m_tail b = (m_head b + ?u) mod ?c"
    "msg_content b = concat (map encode (msg_items b))" "list_all storable (msg_items b)"
    using ok by (simp_all add: msg_ok_def)
  have st: "storable d" and room: "?u + 2 + ?n \<le> ?c"
    using f o(2) by (auto simp: msg_fits_def OS_MSG_HEADER_BYTES_def)
  have hl: "length ?h = 2" by (simp add: header_bytes_eq)
  let ?b1 = "os_msg_ring_write ?h 2 b"
  note f1 = ring_write_frame [OF o(1), of 2 ?h]
  have c1: "ring_at (m_buffer ?b1) ?c (m_head b) (?u + 2) = msg_content b @ ?h"
    using ring_write_content [OF o(1), of ?u 2 ?h] room o(3) hl by (simp add: msg_content_def)
  have t1: "m_tail ?b1 = (m_head ?b1 + (?u + 2)) mod m_capacity ?b1"
    using f1 room hl o(3) by (simp add: mod_simps)
  let ?b2 = "os_msg_ring_write d ?n ?b1"
  have r1: "ring_ok ?b1" using f1 room hl by simp
  note f2 = ring_write_frame [OF r1, of ?n d]
  have c2: "ring_at (m_buffer ?b2) ?c (m_head b) (?u + 2 + ?n) = msg_content b @ ?h @ d"
    using ring_write_content [OF r1, of "?u + 2" ?n d] f1 room hl t1 c1 by simp
  let ?b' = "msg_put d ?n b"
  have b': "?b' = ?b2\<lparr>m_used := ?u + (?n + 2), m_count := m_count b + 1\<rparr>"
    using f1 f2 room hl by (simp add: msg_put_def os_msg_length_write_def OS_MSG_HEADER_BYTES_def)
  have cont: "msg_content ?b' = concat (map encode (msg_items b @ [d]))"
    using c2 o(4) f1 f2 room hl unfolding b' by (simp add: msg_content_def encode_def add_ac)
  have cnt: "m_count ?b' = length (msg_items b @ [d])"
    unfolding b' by (simp add: msg_items_def msg_items_length)
  have "msg_items ?b' = parse (length (msg_items b @ [d])) (concat (map encode (msg_items b @ [d])) @ [])"
    unfolding msg_items_def [of ?b'] cnt cont by (simp only: append_Nil2)
  then have "msg_items ?b' = msg_items b @ [d]"
    using parse_encode [of "msg_items b @ [d]" "[]"] o(5) st by (simp only: list_all_append list.pred_inject)
  moreover have "ring_ok ?b'" using f2(1) f1 room hl unfolding b' by (simp add: ring_ok_def)
  moreover have "m_tail ?b' = (m_head ?b' + m_used ?b') mod m_capacity ?b'"
    using f1 f2 room hl o(3) unfolding b' by (simp add: mod_simps add_ac)
  moreover show "m_capacity ?b' = ?c" "msg_ref ?b' = msg_ref b" using f1 f2 room hl unfolding b' by simp_all
  moreover have "m_used ?b' = ?u + (?n + 2)" unfolding b' by simp
  ultimately show "msg_items ?b' = msg_items b @ [d]" "msg_ok ?b'"
    using cont o(5) st room by (simp_all add: msg_ok_def)
qed

lemma msg_peek_first:
  assumes ok: "msg_ok b" and i: "msg_items b = d # ds"
  shows "os_msg_length_peek b = length d" "storable d" "length d + 2 \<le> m_used b"
    "take (length d + 2) (msg_content b) = encode d"
    "drop (length d + 2) (msg_content b) = concat (map encode ds)"
proof -
  have o: "ring_ok b" "msg_content b = encode d @ concat (map encode ds)" "storable d"
    using ok i by (simp_all add: msg_ok_def)
  show "storable d" by fact
  have l: "length (msg_content b) = m_used b" by (simp add: msg_content_def)
  show u: "length d + 2 \<le> m_used b" unfolding l [symmetric] o(2) by simp
  show "take (length d + 2) (msg_content b) = encode d"
    "drop (length d + 2) (msg_content b) = concat (map encode ds)" unfolding o(2) by simp_all
  have "msg_content b ! 0 = m_buffer b ! m_head b"
    "msg_content b ! 1 = m_buffer b ! ((m_head b + 1) mod m_capacity b)"
    using u o(1) by (simp_all add: msg_content_def ring_at_def ring_ok_def)
  moreover have "msg_content b ! 0 = encode d ! 0" "msg_content b ! 1 = encode d ! 1"
    unfolding o(2) by (simp_all add: nth_append)
  ultimately show "os_msg_length_peek b = length d"
    using header_value [OF o(3)] length_peek_eq [OF o(1)] by simp
qed

lemma msg_take_effect:
  assumes ok: "msg_ok b" and i: "msg_items b = d # ds"
  shows "fst (msg_take (length d) b) = d" "msg_items (snd (msg_take (length d) b)) = ds"
    "msg_ok (snd (msg_take (length d) b))"
    "m_capacity (snd (msg_take (length d) b)) = m_capacity b" "msg_ref (snd (msg_take (length d) b)) = msg_ref b"
proof -
  let ?n = "length d" and ?c = "m_capacity b" and ?u = "m_used b" and ?B = "m_buffer b" and ?h = "m_head b"
  have o: "ring_ok b" "?u \<le> ?c" "m_tail b = (?h + ?u) mod ?c" "list_all storable (d # ds)"
    using ok i by (simp_all add: msg_ok_def)
  note p = msg_peek_first [OF ok i]
  have cnt: "m_count b = Suc (length ds)"
    using i msg_items_length [of "m_count b" "msg_content b"] by (simp add: msg_items_def)
  let ?b1 = "b\<lparr>m_head := (?h + 2) mod ?c\<rparr>"
  have r1: "ring_ok ?b1" using o(1) by (auto simp: ring_ok_def)
  have rd: "os_msg_ring_read ?n ?b1 = (ring_at ?B ?c (?h + 2) ?n, ?b1\<lparr>m_head := (?h + 2 + ?n) mod ?c\<rparr>)"
    using ring_read_content [OF r1, of ?n] p(3) o(2) by (simp add: mod_simps)
  let ?b' = "snd (msg_take ?n b)"
  have b': "msg_take ?n b = (ring_at ?B ?c (?h + 2) ?n,
      b\<lparr>m_head := (?h + 2 + ?n) mod ?c, m_used := ?u - (?n + 2), m_count := m_count b - 1\<rparr>)"
    unfolding msg_take_def OS_MSG_HEADER_BYTES_def rd prod.case by simp
  have "drop 2 (take (?n + 2) (msg_content b)) = d" using p(4) by (simp add: encode_def header_bytes_eq)
  moreover have "drop 2 (take (?n + 2) (msg_content b)) = ring_at ?B ?c (?h + 2) ?n"
    using p(3) by (simp add: msg_content_def ring_at_take ring_at_drop)
  ultimately show "fst (msg_take ?n b) = d" by (simp add: b')
  have cont: "msg_content ?b' = concat (map encode ds)"
  proof -
    have "msg_content ?b' = ring_at ?B ?c (?h + (?n + 2)) (?u - (?n + 2))"
      by (simp add: b' msg_content_def add_ac)
    also have "\<dots> = drop (?n + 2) (msg_content b)" using p(3) by (simp add: msg_content_def ring_at_drop)
    finally show ?thesis using p(5) by simp
  qed
  have "msg_items ?b' = parse (length ds) (concat (map encode ds) @ [])"
    using cont cnt by (simp add: msg_items_def b')
  then show items: "msg_items ?b' = ds" using parse_encode [of ds "[]"] o(4) by simp
  have "?h + 2 + ?n + (?u - (?n + 2)) = ?h + ?u" using p(3) by simp
  then have "((?h + 2 + ?n) mod ?c + (?u - (?n + 2))) mod ?c = (?h + ?u) mod ?c"
    by (metis mod_add_left_eq)
  then have "m_tail ?b' = (m_head ?b' + m_used ?b') mod m_capacity ?b'" using o(3) unfolding b' by simp
  moreover have "ring_ok ?b'" using o(1) by (auto simp: b' ring_ok_def)
  ultimately show "msg_ok ?b'" using items cont o(2,4) by (simp add: msg_ok_def b')
  show "m_capacity ?b' = m_capacity b" "msg_ref ?b' = msg_ref b" by (simp_all add: b')
qed

definition msg_put_all :: "u8 list \<Rightarrow> os_msg_t \<Rightarrow> os_msg_t" where
  "msg_put_all d b = msg_put d (length d) b"

definition msg_take_next :: "os_msg_t \<Rightarrow> u8 list \<times> os_msg_t" where
  "msg_take_next b = msg_take (os_msg_length_peek b) b"

interpretation mf: bounded_fifo msg_items msg_ok msg_fits msg_put_all msg_take_next
proof
  fix b d ds
  assume ok: "msg_ok b"
  { assume "msg_fits b d"
    then show "msg_items (msg_put_all d b) = msg_items b @ [d]" "msg_ok (msg_put_all d b)"
      using msg_put_effect ok by (simp_all add: msg_put_all_def) }
  { assume "msg_items b = d # ds"
    then show "fst (msg_take_next b) = d \<and> msg_items (snd (msg_take_next b)) = ds"
      using msg_take_effect [OF ok] msg_peek_first [OF ok] by (simp add: msg_take_next_def) }
  { assume "msg_items b \<noteq> []"
    then obtain x xs where "msg_items b = x # xs" by (cases "msg_items b") auto
    then show "msg_ok (snd (msg_take_next b))"
      using msg_take_effect [OF ok] msg_peek_first [OF ok] by (simp add: msg_take_next_def) }
qed

section \<open>The blocking calls\<close>

lemma wait_end_after:
  assumes "kwf {} s1" "same_env s s1"
  shows "kwf {} (os_task_wait_end_locked s1)" "same_env s (os_task_wait_end_locked s1)"
  using assms os_task_wait_end_locked_kwf same_env_trans by blast+

lemma msg_send_attempt_sound:
  assumes d: "dispatched s" and ok: "msg_ok b" "storable x"
    and a: "msg_send_attempt x (length x) ms r (s, b) = (out, s', b')"
  shows "kwf {} s' \<and> same_env s s' \<and> msg_ok b' \<and>
    (out = Done OS_ERR_NONE \<longrightarrow> msg_items b' = msg_items b @ [x]) \<and> (out \<noteq> Done OS_ERR_NONE \<longrightarrow> b' = b)"
proof -
  note k = dispatched_kwf [OF d]
  have f: "msg_fits b x" if "\<not> length x + OS_MSG_HEADER_BYTES > m_capacity b"
    "m_capacity b - m_used b \<ge> length x + OS_MSG_HEADER_BYTES"
    using that ok by (simp add: msg_fits_def)
  show ?thesis
    using a k ok f msg_put_effect [OF ok(1)] data_wait_begin_dispatched [OF d]
      wait_end_after [OF k same_env_refl] wait_end_after [OF os_task_waiters_wake_one_kwf [OF k]]
    by (auto simp: msg_send_attempt_def Let_def split: if_splits)
qed

interpretation msg_send: blocking_call
  "msg_send_attempt x (length x) ms" msg_send_expired
  "\<lambda>(s, b). dispatched s \<and> msg_ok b \<and> storable x" "\<lambda>(s, b). kwf {} s \<and> msg_ok b"
  "\<lambda>e (s, b). e \<in> {OS_ERR_NONE, OS_ERR_INVALID_ARG, OS_ERR_FULL, OS_ERR_TIMEOUT} \<and>
     (e = OS_ERR_NONE \<longrightarrow> msg_items b \<noteq> [] \<and> last (msg_items b) = x)"
  for x ms
proof
  fix st st' :: "kstate \<times> os_msg_t" and r e
  assume rd: "case st of (s, b) \<Rightarrow> dispatched s \<and> msg_ok b \<and> storable x"
  obtain s b s' b' where st: "st = (s, b)" "st' = (s', b')" by (cases st, cases st')
  then have d: "dispatched s" "msg_ok b" "storable x" using rd by auto
  { assume a: "msg_send_attempt x (length x) ms r st = (Done e, st')"
    then have "e \<in> {OS_ERR_NONE, OS_ERR_INVALID_ARG, OS_ERR_FULL, OS_ERR_TIMEOUT}"
      using st by (auto simp: msg_send_attempt_def Let_def split: if_splits)
    then show "(case st' of (s, b) \<Rightarrow> kwf {} s \<and> msg_ok b) \<and>
        (case st' of (s, b) \<Rightarrow> e \<in> {OS_ERR_NONE, OS_ERR_INVALID_ARG, OS_ERR_FULL, OS_ERR_TIMEOUT} \<and>
           (e = OS_ERR_NONE \<longrightarrow> msg_items b \<noteq> [] \<and> last (msg_items b) = x))"
      using msg_send_attempt_sound [OF d, of ms r "Done e" s' b'] a st by auto }
  { assume a: "msg_send_attempt x (length x) ms r st = (Wait, st')"
    then have "r \<noteq> 0" using st by (auto simp: msg_send_attempt_def Let_def split: if_splits)
    then show "(case st' of (s, b) \<Rightarrow> kwf {} s \<and> msg_ok b) \<and> r \<noteq> 0"
      using msg_send_attempt_sound [OF d, of ms r Wait s' b'] a st by auto }
  { assume "msg_send_expired st = (e, st')"
    then show "(case st' of (s, b) \<Rightarrow> kwf {} s \<and> msg_ok b) \<and>
        (case st' of (s, b) \<Rightarrow> e \<in> {OS_ERR_NONE, OS_ERR_INVALID_ARG, OS_ERR_FULL, OS_ERR_TIMEOUT} \<and>
           (e = OS_ERR_NONE \<longrightarrow> msg_items b \<noteq> [] \<and> last (msg_items b) = x))"
      using st d os_task_wait_end_kwf(1) [OF dispatched_kwf [OF d(1)]] by (auto simp: msg_send_expired_def) }
qed

text \<open>
  A pass of a receive that finds messages: it delivers the oldest one whole, or, when the caller's
  buffer is too small, leaves it and reports its length.
\<close>

lemma msg_receive_delivers:
  assumes ok: "msg_ok b" and i: "msg_items b = x # xs" and l: "length x \<le> data_size" "data_size \<le> length data"
  shows "\<exists>s' b'. msg_receive_attempt data_size ms r (s, b, data, len) =
      (Done OS_ERR_NONE, s', b', x @ drop (length x) data, length x) \<and>
    msg_items b' = xs \<and> msg_ok b' \<and> s' = os_task_wait_end_locked
      (if xs \<noteq> [] then snd (os_task_waiters_wake_one (MsgReceiveWaiters (msg_ref b))
                        (snd (snd (os_task_waiters_wake_match (MsgSendWaiters (msg_ref b))
                                     (os_msg_sender_match b') () s))))
       else snd (snd (os_task_waiters_wake_match (MsgSendWaiters (msg_ref b)) (os_msg_sender_match b') () s)))"
proof -
  note t = msg_take_effect [OF ok i]
  have c: "m_count b = Suc (length xs)"
    using i msg_items_length [of "m_count b" "msg_content b"] by (simp add: msg_items_def)
  obtain b' where b': "msg_take (length x) b = (x, b')" using t(1) by (cases "msg_take (length x) b") auto
  have "m_count b' = length xs"
    using t(2) msg_items_length [of "m_count b'" "msg_content b'"] b' by (simp add: msg_items_def)
  moreover have "copy_in data 0 x (length x) = x @ drop (length x) data" by (simp add: copy_in_def)
  ultimately show ?thesis
    using t(2,3) b' c msg_peek_first(1) [OF ok i] l
    by (simp add: msg_receive_attempt_def Let_def)
qed

lemma msg_receive_too_long:
  assumes ok: "msg_ok b" and i: "msg_items b = x # xs" and l: "data_size < length x"
  shows "msg_receive_attempt data_size ms r (s, b, data, len) =
      (Done OS_ERR_INVALID_ARG,
       os_task_wait_end_locked (snd (os_task_waiters_wake_one (MsgReceiveWaiters (msg_ref b)) s)),
       b, data, length x)"
proof -
  have "m_count b = Suc (length xs)"
    using i msg_items_length [of "m_count b" "msg_content b"] by (simp add: msg_items_def)
  then show ?thesis using msg_peek_first(1) [OF ok i] l by (simp add: msg_receive_attempt_def)
qed

lemma msg_receive_attempt_sound:
  assumes d: "dispatched s" and ok: "msg_ok b" and sz: "data_size \<le> length data"
    and a: "msg_receive_attempt data_size ms r (s, b, data, len) = (out, s', b', data', len')"
  shows "kwf {} s' \<and> same_env s s' \<and> msg_ok b' \<and> length data' = length data"
proof -
  note k = dispatched_kwf [OF d]
  show ?thesis
  proof (cases "msg_items b")
    case Nil
    then have "m_count b = 0" using msg_items_length [of "m_count b" "msg_content b"] by (simp add: msg_items_def)
    then show ?thesis
      using a ok wait_end_after [OF k same_env_refl] wait_begin_dispatched [OF d]
      by (auto simp: msg_receive_attempt_def split: if_splits)
  next
    case (Cons x xs)
    show ?thesis
    proof (cases "length x \<le> data_size")
      case True
      have m: "kwf {} (snd (snd (os_task_waiters_wake_match w f c s)))"
        "same_env s (snd (snd (os_task_waiters_wake_match w f c s)))" for w and f :: "u32 \<Rightarrow> u32 \<Rightarrow> unit \<Rightarrow> _" and c
        by (rule os_task_waiters_wake_match_kwf [OF k])+
      have w: "kwf {} (snd (os_task_waiters_wake_one v (snd (snd (os_task_waiters_wake_match w f c s)))))"
        "same_env s (snd (os_task_waiters_wake_one v (snd (snd (os_task_waiters_wake_match w f c s)))))"
        for v w and f :: "u32 \<Rightarrow> u32 \<Rightarrow> unit \<Rightarrow> _" and c
        by (rule os_task_waiters_wake_one_kwf [OF m(1)],
            rule same_env_trans [OF m(2) os_task_waiters_wake_one_kwf(2) [OF m(1)]])
      from msg_receive_delivers [OF ok Cons True sz, of ms r s len] a
      show ?thesis using wait_end_after [OF m] wait_end_after [OF w] True sz by (auto split: if_splits)
    next
      case False
      then show ?thesis
        using a msg_receive_too_long [OF ok Cons, of data_size ms r s data len] ok
          wait_end_after [OF os_task_waiters_wake_one_kwf [OF k]] by auto
    qed
  qed
qed

interpretation msg_receive: blocking_call
  "msg_receive_attempt data_size ms" msg_receive_expired
  "\<lambda>(s, b, data, len). dispatched s \<and> msg_ok b \<and> data_size \<le> length data"
  "\<lambda>(s, b, data, len). kwf {} s \<and> msg_ok b \<and> data_size \<le> length data"
  "\<lambda>e (s, b, data, len). e \<in> {OS_ERR_NONE, OS_ERR_INVALID_ARG, OS_ERR_EMPTY, OS_ERR_TIMEOUT} \<and>
     (e = OS_ERR_NONE \<longrightarrow> len \<le> data_size)"
  for data_size ms
proof
  fix st st' :: "kstate \<times> os_msg_t \<times> u8 list \<times> nat" and r e
  assume rd: "case st of (s, b, data, len) \<Rightarrow> dispatched s \<and> msg_ok b \<and> data_size \<le> length data"
  obtain s b data len where st: "st = (s, b, data, len)" by (cases st) auto
  obtain s' b' data' len' where st': "st' = (s', b', data', len')" by (cases st') auto
  have d: "dispatched s" "msg_ok b" "data_size \<le> length data" using rd st by auto
  { assume a: "msg_receive_attempt data_size ms r st = (Done e, st')"
    then have "e \<in> {OS_ERR_NONE, OS_ERR_INVALID_ARG, OS_ERR_EMPTY, OS_ERR_TIMEOUT} \<and>
        (e = OS_ERR_NONE \<longrightarrow> len' \<le> data_size)"
      using st st' by (auto simp: msg_receive_attempt_def Let_def split: if_splits prod.splits)
    then show "(case st' of (s, b, data, len) \<Rightarrow> kwf {} s \<and> msg_ok b \<and> data_size \<le> length data) \<and>
        (case st' of (s, b, data, len) \<Rightarrow>
           e \<in> {OS_ERR_NONE, OS_ERR_INVALID_ARG, OS_ERR_EMPTY, OS_ERR_TIMEOUT} \<and>
           (e = OS_ERR_NONE \<longrightarrow> len \<le> data_size))"
      using msg_receive_attempt_sound [OF d, of ms r len "Done e" s' b' data' len'] a st st' d(3) by auto }
  { assume a: "msg_receive_attempt data_size ms r st = (Wait, st')"
    then have "r \<noteq> 0" using st by (auto simp: msg_receive_attempt_def Let_def split: if_splits prod.splits)
    then show "(case st' of (s, b, data, len) \<Rightarrow> kwf {} s \<and> msg_ok b \<and> data_size \<le> length data) \<and> r \<noteq> 0"
      using msg_receive_attempt_sound [OF d, of ms r len Wait s' b' data' len'] a st st' d(3) by auto }
  { assume "msg_receive_expired st = (e, st')"
    then show "(case st' of (s, b, data, len) \<Rightarrow> kwf {} s \<and> msg_ok b \<and> data_size \<le> length data) \<and>
        (case st' of (s, b, data, len) \<Rightarrow>
           e \<in> {OS_ERR_NONE, OS_ERR_INVALID_ARG, OS_ERR_EMPTY, OS_ERR_TIMEOUT} \<and>
           (e = OS_ERR_NONE \<longrightarrow> len \<le> data_size))"
      using st d os_task_wait_end_kwf(1) [OF dispatched_kwf [OF d(1)]] by (auto simp: msg_receive_expired_def) }
qed

end
