(* ===== verification/DataProps.thy ===== *)
theory DataProps
  imports Demo Event Notify Queue Msg
begin

text \<open>
  The properties of the objects that carry data between tasks, event flags, notifications, queues
  and message buffers, and of the kernel heap that their buffers may come from.
\<close>

section \<open>Event flags\<close>

text \<open>
  C17. Setting event flags serves exactly the waiters whose condition holds for the flags as they
  are after the set: each is READY with the bits that satisfied it, the others stay on the list,
  and afterwards the flags are those of the set less the bits of every served waiter that asked
  for them to be cleared.
\<close>

theorem event_set_serves_exactly:
  assumes "kwf {} s" "os_event_set_bits (Some ev) bits s = (e, Some ev', s')"
  shows "set (wlist s' (EventWaiters (event_ref ev))) =
      {t \<in> set (wlist s (EventWaiters (event_ref ev))). \<not> served s (flags ev OR bits) t} \<and>
    (\<forall>t \<in> set (wlist s (EventWaiters (event_ref ev))). served s (flags ev OR bits) t \<longrightarrow>
       task_state (tcb_of s' t) = OS_TASK_STATE_READY \<and>
       wait_result (tcb_of s' t) = (flags ev OR bits) AND wait_data0 (tcb_of s t)) \<and>
    (\<forall>i. bit (flags ev') i \<longleftrightarrow> bit (flags ev OR bits) i \<and>
       \<not> (\<exists>t \<in> set (wlist s (EventWaiters (event_ref ev))).
            served s (flags ev OR bits) t \<and> wants_clear s t \<and> bit (wait_data0 (tcb_of s t)) i))"
proof -
  note eff = event_set_effect [OF assms refl refl]
  have "bit (flags ev') i \<longleftrightarrow> bit (flags ev OR bits) i \<and>
       \<not> (\<exists>t \<in> set (wlist s (EventWaiters (event_ref ev))).
            served s (flags ev OR bits) t \<and> wants_clear s t \<and> bit (wait_data0 (tcb_of s t)) i)" for i
    unfolding eff(4) by (auto simp: bit_and_iff bit_not_iff cleared_bit dest: bit_imp_le_length)
  then show ?thesis using eff(6,7) by blast
qed

text \<open>\<open>high\<close> waits without limit for both bits 1 and 2 of event 3, to be cleared on exit.\<close>

definition event_waited :: kstate where
  "event_waited = blank\<lparr>
     tcb_of := tasks3 (low_tcb\<lparr>task_state := OS_TASK_STATE_RUNNING, running_core := 0\<rparr>)
       (high_tcb\<lparr>task_state := OS_TASK_STATE_BLOCKED, delay_ticks := OS_WAIT_FOREVER,
         wait_list := Some (EventWaiters 3), wait_data0 := 6, wait_data1 := 3\<rparr>),
     wlist := (\<lambda>_. [])(EventWaiters 3 := [Slot 1]),
     current := (\<lambda>_. None)(0 := Some (Slot 0))\<rparr>"

lemma event_waited_kwf: "kwf {} event_waited"
proof (rule kwf_by_check [where ts = task_refs and ws = "[EventWaiters 3]" and n = 1])
  show "list_all (task_check event_waited) task_refs" by code_simp
  show "list_all (ready_check event_waited task_refs) [0..<32]"
    by (simp add: ready_check_def event_waited_def demo_states demo_tcbs task_refs_def upt_conv_Cons)
  show "delay_check event_waited task_refs"
    by (simp add: delay_check_def event_waited_def demo_states demo_tcbs task_refs_def OS_WAIT_FOREVER_def)
  show "list_all (wait_check event_waited) [EventWaiters 3]" by code_simp
  show "list_all (current_check event_waited) [0..<core_count event_waited]" by code_simp
qed (simp_all add: event_waited_def demo_states tasks3_outside)

theorem event_set_serves_exactly_witness:
  "\<exists>ev' s'. os_event_set_bits (Some \<lparr>event_ref = 3, flags = 2\<rparr>) 12 event_waited = (OS_ERR_NONE, Some ev', s') \<and>
     wlist s' (EventWaiters 3) = [] \<and> task_state (tcb_of s' (Slot 1)) = OS_TASK_STATE_READY \<and>
     wait_result (tcb_of s' (Slot 1)) = 6 \<and> \<not> bit (flags ev') 1 \<and> bit (flags ev') 3"
proof -
  let ?ev = "\<lparr>event_ref = 3, flags = 2\<rparr>"
  obtain ev' s' where r: "os_event_set_bits (Some ?ev) 12 event_waited = (OS_ERR_NONE, Some ev', s')"
    using os_event_set_bits_result by blast
  have w: "wlist event_waited (EventWaiters 3) = [Slot 1]" "wait_data0 (tcb_of event_waited (Slot 1)) = 6"
    "wait_data1 (tcb_of event_waited (Slot 1)) = 3"
    by (simp_all add: event_waited_def demo_states demo_tcbs)
  have sv: "served event_waited (2 OR 12) (Slot 1)" "wants_clear event_waited (Slot 1)"
    by (simp_all add: served_def wants_all_def wants_clear_def event_satisfied_def w
        OS_EVENT_WAIT_ALL_FLAG_def OS_EVENT_CLEAR_ON_EXIT_FLAG_def del: One_nat_def)
  have bits: "bit (2 OR 12 :: u32) 1" "bit (2 OR 12 :: u32) 3" "bit (6 :: u32) 1" "\<not> bit (6 :: u32) 3"
    "(2 OR 12) AND 6 = (6 :: u32)" by (simp_all add: bit_numeral_rec)
  have "set (wlist s' (EventWaiters 3)) = {} \<and> task_state (tcb_of s' (Slot 1)) = OS_TASK_STATE_READY \<and>
      wait_result (tcb_of s' (Slot 1)) = 6 \<and> \<not> bit (flags ev') 1 \<and> bit (flags ev') 3"
    using event_set_serves_exactly [OF event_waited_kwf r] w sv bits by auto
  then show ?thesis using r by auto
qed

text \<open>
  A wait for event flags that succeeds reports bits that answer the question it was asked, all
  of the wanted bits or at least one of them, and no other bits. The premise on the rest of the
  system is what C21 gives for the caller's own stored question: a result delivered to a waiter
  answers it.
\<close>

theorem event_wait_answers:
  assumes "dispatched s"
    and "\<And>k s' ev' m'. kwf {} s' \<Longrightarrow>
      case env k (s', ev', m') of (s2, ev2, m2) \<Rightarrow> dispatched s2 \<and> answered bits wait_all s2"
    and "os_event_wait_bits fuel hz env (Some ev) bits wait_all clear (Some m0) timeout_ms s =
      Some (OS_ERR_NONE, s1, ev1, Some m)"
  shows "event_satisfied wait_all bits m \<and> m AND NOT bits = 0 \<and> kwf {} s1"
proof -
  have b: "bits \<noteq> 0" using assms(3) by (auto simp: os_event_wait_bits_def split: if_splits)
  obtain ev2 where r: "resume_loop fuel (event_attempt timeout_ms bits wait_all clear)
      (event_resume (os_internal_timeout_to_ticks hz timeout_ms) (os_internal_wait_origin s)) env
      (os_internal_timeout_to_ticks hz timeout_ms) (s, ev, m0) = Some (OS_ERR_NONE, s1, ev2, m)"
    using assms(3) b by (auto simp: os_event_wait_bits_def Let_def)
  have env: "case env k x of (s, ev, m) \<Rightarrow> dispatched s \<and> answered bits wait_all s"
    if "case x of (s, ev, m) \<Rightarrow> kwf {} s" for k x
    using assms(2) that by (cases x) auto
  have "(case (s1, ev2, m) of (s, ev, m) \<Rightarrow> kwf {} s) \<and> event_post bits wait_all OS_ERR_NONE (s1, ev2, m)"
    by (rule event_call.resume_result [OF _ env r]) (use assms(1) in auto)
  then show ?thesis by (simp add: event_post_def)
qed

theorem event_wait_answers_witness:
  "\<exists>s1 ev1. os_event_wait_bits 1 1000 (\<lambda>k x. (low_runs, \<lparr>event_ref = 3, flags = 0\<rparr>, 0))
     (Some \<lparr>event_ref = 3, flags = 5\<rparr>) 4 True False (Some 0) 0 low_runs = Some (OS_ERR_NONE, s1, ev1, Some 4) \<and>
     event_satisfied True 4 4 \<and> kwf {} s1"
proof -
  let ?env = "\<lambda>(k :: nat) (x :: kstate \<times> os_event_t \<times> u32). (low_runs, \<lparr>event_ref = 3, flags = 0\<rparr>, 0 :: u32)"
  have d: "dispatched low_runs" using low_runs_kwf by (simp add: dispatched_def demo_states demo_tcbs)
  have a: "answered 4 True low_runs"
    by (simp add: answered_def os_task_wait_result_get_def demo_states demo_tcbs)
  obtain s1 ev1 where r: "os_event_wait_bits 1 1000 ?env (Some \<lparr>event_ref = 3, flags = 5\<rparr>) 4 True False
      (Some 0) 0 low_runs = Some (OS_ERR_NONE, s1, ev1, Some 4)"
    by (simp add: os_event_wait_bits_def event_attempt_def Let_def)
  show ?thesis using event_wait_answers [OF d _ r] d a r by auto
qed

section \<open>Notifications\<close>

text \<open>
  C18. A notification is delivered. After a give, whatever happens in between that leaves the
  target's mailbox alone, the target's next pass through a wait returns the value given and
  empties the mailbox; and a target that was asleep in a wait is READY at once.
\<close>

theorem notification_is_delivered:
  assumes "kwf {} s" "notify_target task s = Some t"
    and "os_task_tcb_current s2 = Some t"
    and "os_task_notify_slot t s2 = os_task_notify_slot t (snd (os_notify_give task v s))"
  shows "\<exists>s3. notify_attempt timeout_ms r (s2, Some out) = (Done OS_ERR_NONE, s3, Some v) \<and>
    \<not> slot_pending (os_task_notify_slot t s3) \<and>
    (task_state (tcb_of s t) = OS_TASK_STATE_BLOCKED \<and> slot_waiting (notify (tcb_of s t)) \<longrightarrow>
       task_state (tcb_of (snd (os_notify_give task v s)) t) = OS_TASK_STATE_READY)"
  using notify_attempt_takes [OF assms(3), of timeout_ms r "Some out"] assms(4)
    os_notify_give_effect [OF assms(1,2), where v = v] by auto

theorem notification_is_delivered_witness:
  "\<exists>s3. notify_attempt 0 0 (snd (os_notify_give None 77 low_runs), Some 0) = (Done OS_ERR_NONE, s3, Some 77)"
proof -
  have t: "notify_target None low_runs = Some (Slot 0)"
    by (simp add: notify_target_def os_task_tcb_current_def demo_states)
  have c: "os_task_tcb_current (snd (os_notify_give None 77 low_runs)) = Some (Slot 0)"
    using os_notify_give_kwf(2) [OF low_runs_kwf, of None 77]
    by (simp add: same_env_def os_task_tcb_current_def demo_states)
  show ?thesis using notification_is_delivered [OF low_runs_kwf t c refl, of 0 0 0] by blast
qed
section \<open>Queues\<close>

text \<open>
  C19. A queue in normal mode is first-in first-out. Over any sequence of stores and removals, in the
  order in which the critical sections let them through, what was removed followed by what is still
  there is what was there followed by what was accepted: nothing is lost, duplicated, altered or
  reordered, for every item size, capacity and position of the ring.
\<close>

theorem queue_is_fifo:
  assumes "queue_ok q" "fifo_run queue_items queue_fits queue_put queue_get ops q = (stored, taken, q')"
  shows "taken @ queue_items q' = queue_items q @ stored \<and> queue_ok q'"
  by (rule qf.run_conserves [OF assms])

text \<open>A ring of two one-byte items whose head has already moved once.\<close>

definition small_queue :: os_queue_t where
  "small_queue = \<lparr>queue_ref = 5, q_addr = 4096, q_buffer = [9, 8], q_item_size = 1, q_capacity = 2,
     q_head = 1, q_tail = 1, q_count = 0, q_owned = False, q_mode = OS_QUEUE_MODE_NORMAL\<rparr>"

lemma small_queue_ok: "queue_ok small_queue" "queue_items small_queue = []"
  by (simp_all add: queue_ok_def small_queue_def queue_items_def)

theorem queue_is_fifo_witness:
  "\<exists>q'. fifo_run queue_items queue_fits queue_put queue_get
     [Put [1], Put [2], Put [3], Get, Put [4], Get] small_queue = ([[1], [2], [4]], [[1], [2]], q') \<and>
   queue_items q' = [[4]]"
proof -
  let ?run = "fifo_run queue_items queue_fits queue_put queue_get
     [Put [1], Put [2], Put [3], Get, Put [4], Get] small_queue"
  obtain q' where r: "?run = ([[1], [2], [4]], [[1], [2]], q')"
    by (simp add: queue_fits_def queue_items_def queue_put_def queue_get_def queue_slot_def
        small_queue_def copy_in_def copy_out_def)
  show ?thesis using queue_is_fifo [OF small_queue_ok(1) r] small_queue_ok(2) r by simp
qed

text \<open>
  A send in overwrite mode is never refused for lack of room: a pass that may not wait stores the
  item, and when the queue was full it is the oldest item, and no other, that is dropped.
\<close>

theorem overwrite_drops_oldest:
  assumes "queue_ok q" "length item = q_item_size q" "q_mode q = OS_QUEUE_MODE_OVERWRITE"
  shows "\<exists>s' q'. queue_send_attempt item OS_WAIT_NOTHING r (s, q) = (Done OS_ERR_NONE, s', q') \<and>
    queue_ok q' \<and>
    queue_items q' = (if q_count q < q_capacity q then queue_items q else tl (queue_items q)) @ [item]"
proof -
  define q' where "q' = (if q_count q < q_capacity q then queue_put item q else queue_overwrite item q)"
  have "q_capacity q \<noteq> 0" using assms(1) by (auto simp: queue_ok_def)
  then obtain s' where a: "queue_send_attempt item OS_WAIT_NOTHING r (s, q) = (Done OS_ERR_NONE, s', q')"
    using assms(3) unfolding queue_send_attempt_def q'_def Let_def
    by (cases "q_count q < q_capacity q") simp_all
  have "queue_ok q'"
  proof (cases "q_count q < q_capacity q")
    case True
    then show ?thesis using queue_put_ok [OF assms(1)] assms(2) by (simp add: q'_def queue_fits_def)
  next
    case False
    then have "q_count q = q_capacity q" using assms(1) by (simp add: queue_ok_def)
    then show ?thesis using queue_overwrite_items(2) [OF assms(1) _ assms(2)] by (simp add: q'_def)
  qed
  then show ?thesis using a queue_send_attempt_none [OF assms(1,2) a] by blast
qed

theorem overwrite_drops_oldest_witness:
  "\<exists>s' q'. queue_send_attempt [7] 0 0 (low_runs,
      small_queue\<lparr>q_buffer := [1, 2], q_count := 2, q_mode := OS_QUEUE_MODE_OVERWRITE\<rparr>) =
      (Done OS_ERR_NONE, s', q') \<and> queue_items q' = [[1], [7]]"
proof -
  let ?q = "small_queue\<lparr>q_buffer := [1, 2], q_count := 2, q_mode := OS_QUEUE_MODE_OVERWRITE\<rparr>"
  have ok: "queue_ok ?q" by (simp add: queue_ok_def small_queue_def)
  have l: "length [7 :: u8] = q_item_size ?q" "q_mode ?q = OS_QUEUE_MODE_OVERWRITE"
    "\<not> q_count ?q < q_capacity ?q" "tl (queue_items ?q) = [[1]]"
    by (simp_all add: small_queue_def queue_items_def queue_slot_def copy_out_def numeral_2_eq_2)
  show ?thesis using overwrite_drops_oldest [OF ok l(1,2), of 0 low_runs] l(3,4)
    by (auto simp: OS_WAIT_NOTHING_def)
qed

text \<open>
  A send with a finite timeout returns. A send is the one call that goes round its loop again
  after a timeout; with time passing while the sender is blocked it still ends, within as many
  rounds as the budget has ticks, and then the queue is sound and, on success, ends in the item.
\<close>

theorem queue_send_returns:
  assumes "dispatched s" "queue_ok q" "length item = q_item_size q"
    and "\<And>k s' q'. kwf {} s' \<Longrightarrow> queue_ok q' \<Longrightarrow> length item = q_item_size q' \<Longrightarrow>
      case env k (s', q') of (s2, q2) \<Rightarrow> dispatched s2 \<and> queue_ok q2 \<and> length item = q_item_size q2"
    and "\<And>k s' q' s1 q1 r. queue_send_attempt item timeout_ms r (s', q') = (Wait, s1, q1) \<Longrightarrow>
      unat (os_internal_wait_remaining (os_internal_timeout_to_ticks hz timeout_ms) (tick_count s)
        (fst (env k (s1, q1)))) < unat r"
    and "unat (os_internal_timeout_to_ticks hz timeout_ms) < fuel"
  shows "\<exists>e s' q'. os_queue_send fuel hz env (Some q) (Some item) timeout_ms s = Some (e, s', Some q') \<and>
    kwf {} s' \<and> queue_ok q' \<and> (e = OS_ERR_NONE \<longrightarrow> queue_items q' \<noteq> [] \<and> last (queue_items q') = item)"
proof -
  let ?b = "os_internal_timeout_to_ticks hz timeout_ms" and ?st = "os_internal_wait_origin s"
  let ?loop = "resume_loop fuel (queue_send_attempt item timeout_ms) (queue_send_resume ?b ?st) env ?b (s, q)"
  have rd: "case (s, q) of (s, q) \<Rightarrow> dispatched s \<and> queue_ok q \<and> length item = q_item_size q"
    using assms(1-3) by simp
  have env: "case env k x of (s, q) \<Rightarrow> dispatched s \<and> queue_ok q \<and> length item = q_item_size q"
    if "case x of (s, q) \<Rightarrow> kwf {} s \<and> queue_ok q \<and> length item = q_item_size q" for k x
    using assms(4) that by (cases x) auto
  have less: "unat r' < unat r"
    if "case x of (s, q) \<Rightarrow> dispatched s \<and> queue_ok q \<and> length item = q_item_size q"
      "queue_send_attempt item timeout_ms r x = (Wait, x1)"
      "queue_send_resume ?b ?st (env k x1) = (Retry r', x2)" for k r r' x x1 x2
  proof -
    have "unat r \<noteq> 0" using that(2)
      by (cases x) (auto simp: queue_send_attempt_def Let_def unat_eq_0 split: if_splits)
    moreover have "unat (os_internal_wait_remaining ?b (tick_count s) (fst (env k x1))) < unat r"
      using assms(5) that(2) by (cases x; cases x1) auto
    ultimately show ?thesis using that(3)
      by (cases "env k x1")
        (auto simp: queue_send_resume_def os_internal_wait_origin_def os_tick_get_def split: if_splits)
  qed
  have halt: "fst (queue_send_attempt item timeout_ms r x) \<noteq> Halt" for r x
    by (cases x) (simp add: queue_send_attempt_def Let_def)
  have "\<exists>e st'. ?loop = Some (e, st')"
    by (rule queue_send.resume_returns [OF rd env less halt assms(6)])
  then obtain e st' where l: "?loop = Some (e, st')" by blast
  obtain s' q' where st': "st' = (s', q')" by (cases st')
  have "(case st' of (s, q) \<Rightarrow> kwf {} s \<and> queue_ok q \<and> length item = q_item_size q) \<and>
      (case st' of (s, q) \<Rightarrow> e \<in> {OS_ERR_NONE, OS_ERR_FULL, OS_ERR_TIMEOUT} \<and>
         (e = OS_ERR_NONE \<longrightarrow> queue_items q \<noteq> [] \<and> last (queue_items q) = item))"
    by (rule queue_send.resume_result [OF rd env l])
  then show ?thesis using l st' by (simp add: os_queue_send_def Let_def)
qed

text \<open>In the witness the sender never has to wait, and the premise on time holds since its queue has room.\<close>

theorem queue_send_returns_witness:
  "\<exists>e s' q'. os_queue_send 1 1000 (\<lambda>k x. (low_runs, small_queue)) (Some small_queue) (Some [5]) 0 low_runs =
     Some (e, s', Some q') \<and> queue_ok q'"
proof -
  have d: "dispatched low_runs" using low_runs_kwf by (simp add: dispatched_def demo_states demo_tcbs)
  have l: "length [5 :: u8] = q_item_size small_queue" by (simp add: small_queue_def)
  have b: "os_internal_timeout_to_ticks 1000 0 = 0"
    by (simp add: os_internal_timeout_to_ticks_def OS_WAIT_FOREVER_def)
  have w: "False" if "queue_send_attempt [5] 0 r (s', q') = (Wait, s1, q1)" for r s' q' s1 q1
    using that by (auto simp: queue_send_attempt_def Let_def OS_WAIT_NOTHING_def split: if_splits)
  show ?thesis
    using queue_send_returns [OF d small_queue_ok(1) l, of "\<lambda>k x. (low_runs, small_queue)" 0 1000 1]
      d small_queue_ok(1) l b w by force
qed

section \<open>Message buffers\<close>

text \<open>
  C20. Messages of any lengths come out whole and in the order in which they went in. Over any sequence
  of sends and receives on a ring of any capacity, headers and bodies wrapping around its end as they
  may, what was received followed by what is still stored is what was stored followed by what was
  accepted; a message is accepted when its bytes and its header fit in what is free.
\<close>

theorem messages_arrive_whole_in_order:
  assumes "msg_ok b" "fifo_run msg_items msg_fits msg_put_all msg_take_next ops b = (sent, received, b')"
  shows "received @ msg_items b' = msg_items b @ sent \<and> msg_ok b'"
  by (rule mf.run_conserves [OF assms])

text \<open>Eight bytes, with head and tail at offset 6, so that the first message wraps.\<close>

definition small_msg :: os_msg_t where
  "small_msg = \<lparr>msg_ref = 6, m_addr = 4096, m_buffer = [0, 0, 0, 0, 0, 0, 0, 0], m_capacity = 8,
     m_head = 6, m_tail = 6, m_used = 0, m_count = 0, m_owned = False\<rparr>"

lemma small_msg_ok: "msg_ok small_msg" "msg_items small_msg = []"
  by (simp_all add: msg_ok_def ring_ok_def small_msg_def msg_content_def msg_items_def ring_at_def)

theorem messages_arrive_whole_in_order_witness:
  "\<exists>b'. fifo_run msg_items msg_fits msg_put_all msg_take_next [Put [1, 2, 3], Put [4, 5, 6], Get] small_msg =
     ([[1, 2, 3]], [[1, 2, 3]], b') \<and> msg_items b' = []"
proof -
  let ?b1 = "msg_put_all [1, 2, 3] small_msg"
  have f1: "msg_fits small_msg [1, 2, 3]"
    by (simp add: msg_fits_def storable_def OS_MSG_LENGTH_MAX_def OS_MSG_HEADER_BYTES_def small_msg_def)
  have i1: "msg_items ?b1 = [[1, 2, 3]]" "msg_ok ?b1"
    using mf.put_items [OF small_msg_ok(1) f1] mf.put_ok [OF small_msg_ok(1) f1] small_msg_ok(2) by simp_all
  have "m_used ?b1 = 5 \<and> m_capacity ?b1 = 8"
    by (simp add: msg_put_all_def msg_put_def os_msg_length_write_def os_msg_ring_write_def Let_def
        OS_MSG_HEADER_BYTES_def small_msg_def)
  then have f2: "\<not> msg_fits ?b1 [4, 5, 6]" by (simp add: msg_fits_def OS_MSG_HEADER_BYTES_def)
  obtain b' where g: "msg_take_next ?b1 = ([1, 2, 3], b')"
    using mf.get_items [OF i1(2) i1(1)] by (cases "msg_take_next ?b1") auto
  have r: "fifo_run msg_items msg_fits msg_put_all msg_take_next [Put [1, 2, 3], Put [4, 5, 6], Get] small_msg =
     ([[1, 2, 3]], [[1, 2, 3]], b')" using f1 f2 i1 g by simp
  show ?thesis using messages_arrive_whole_in_order [OF small_msg_ok(1) r] small_msg_ok(2) r by simp
qed

text \<open>
  A message that is too long for the receiver's buffer is not lost and not cut: the receive is
  refused, the caller learns the length, and the message buffer and the caller's data are unchanged.
\<close>

theorem too_long_message_stays:
  assumes "msg_ok b" "msg_items b = x # xs" "data_size < length x"
  shows "\<exists>s'. msg_receive_attempt data_size timeout_ms r (s, b, data, len) =
      (Done OS_ERR_INVALID_ARG, s', b, data, length x)"
  using msg_receive_too_long [OF assms] by blast

theorem too_long_message_stays_witness:
  "\<exists>s'. msg_receive_attempt 2 0 0 (low_runs, msg_put_all [1, 2, 3] small_msg, [0, 0], 0) =
     (Done OS_ERR_INVALID_ARG, s', msg_put_all [1, 2, 3] small_msg, [0, 0], 3)"
proof -
  have f: "msg_fits small_msg [1, 2, 3]"
    by (simp add: msg_fits_def storable_def OS_MSG_LENGTH_MAX_def OS_MSG_HEADER_BYTES_def small_msg_def)
  have i: "msg_items (msg_put_all [1, 2, 3] small_msg) = [1, 2, 3] # []"
    using mf.put_items [OF small_msg_ok(1) f] small_msg_ok(2) by simp
  show ?thesis using too_long_message_stays [OF mf.put_ok [OF small_msg_ok(1) f] i, of 2]
    by (simp add: eval_nat_numeral)
qed

end
