(* ===== verification/HeapProps.thy ===== *)
theory HeapProps
  imports Mem
begin

text \<open>
  The properties of the kernel heap, for every arena, every layout and every order of allocations and
  releases.
\<close>

text \<open>
  C21. Live allocations never overlap. However allocations and releases follow each other, and whatever
  the owners write into what they own, every live allocation is 8-byte aligned and lies inside the
  arena with its header, and two live allocations are apart by at least the header of the upper
  one, so no owner can damage a header or another owner's data.
\<close>

theorem heap_allocations_disjoint:
  assumes "heap_cfg m0" "mem_end m0 = 0" "mem_run m0 m U" "(q, w) \<in> U" "(r, v) \<in> U"
  shows "q mod 8 = 0 \<and> heap_base m0 + 8 \<le> q \<and> q + w \<le> heap_base m0 + heap_bytes m0 \<and>
    ((q, w) = (r, v) \<or> q + w + 8 \<le> r \<or> r + v + 8 \<le> q)"
proof -
  obtain L where "owns m L U" using mem_run_owns [OF assms(3,1,2)] assms(4) by blast
  then show ?thesis using owns_apart [OF _ assms(4,5)] mem_run_frame [OF assms(3)] by metis
qed

text \<open>An arena of 128 bytes at address 64, not yet set up.\<close>

definition arena :: mem_t where
  "arena = \<lparr>heap_base = 64, heap_bytes = 128, start_addr = 8,
     block = (\<lambda>_. \<lparr>blk_next = 0, blk_size = 0\<rparr>), mem_end = 0, free_bytes = 0, min_free_bytes = 0\<rparr>"

definition heap0 :: mem_t where "heap0 = os_mem_init arena"

lemma arena_cfg: "heap_cfg arena" by (simp add: heap_cfg_def arena_def)

lemma heap0_ok: "heap_ok heap0 [(120, False)]" "heap_start heap0 = 64"
proof -
  have "init_bytes arena = 120"
    by (simp add: init_bytes_def arena_def align_down_def OS_MEM_HEADER_SIZE_def heap_start_def)
  then show "heap_ok heap0 [(120, False)]" using os_mem_init_ok [OF arena_cfg] by (simp add: heap0_def)
  show "heap_start heap0 = 64"
    by (simp add: heap0_def os_mem_init_def Let_def heap_start_def upd_block_def arena_def align_down_def)
qed

lemma need_10: "alloc_need 10 = 24" "unat (24 :: u32) = 24"
  by (simp_all add: alloc_need_def OS_MEM_HEADER_SIZE_def OS_MEM_ALIGN_MSK_def)

lemma heap0_alloc: "\<exists>m. os_mem_alloc 10 heap0 = Some (72, m) \<and> heap_ok m [(24, True), (96, False)]"
proof -
  have "\<exists>m. os_mem_alloc 10 heap0 = Some (72, m) \<and> heap_ok m (take_layout 24 120)"
    using os_mem_alloc_cases [OF heap0_ok(1), of 10] alloc_need_guard [of 10] heap0_ok(2)
    by (auto simp: need_10 Cons_eq_append_conv)
  then show ?thesis by (simp add: take_layout_def)
qed

theorem heap_allocations_disjoint_witness:
  "\<exists>m U. mem_run arena m U \<and> U \<noteq> {} \<and> (\<exists>q w. (q, w) \<in> U \<and> q mod 8 = 0 \<and> q + w \<le> 192)"
proof -
  obtain m where m: "os_mem_alloc 10 heap0 = Some (72, m)" using heap0_alloc by blast
  have "mem_end heap0 \<noteq> 0" using heap0_ok by (simp add: heap_ok_def)
  then have "ensure_init heap0 = ensure_init arena"
    by (simp add: ensure_init_def heap0_def arena_def)
  then have a: "os_mem_alloc 10 arena = Some (72, m)"
    using m alloc_need_guard [of 10] by (simp add: os_mem_alloc_def Let_def need_10)
  have r: "mem_run arena m {(72, 10)}" using mem_run.alloc [OF mem_run.boot a] by simp
  have i: "(72, 10) \<in> {(72 :: nat, 10 :: nat)}" by simp
  have "72 mod 8 = (0 :: nat) \<and> 72 + 10 \<le> (192 :: nat)"
    using heap_allocations_disjoint [OF arena_cfg _ r i i] by (simp add: arena_def)
  then show ?thesis using r
    by (intro exI [of _ m] exI [of _ "{(72, 10)}"] conjI exI [of _ 72] exI [of _ 10]) simp_all
qed

text \<open>
  C22. Allocating and releasing is a round trip: releasing what an allocation returned leaves the heap
  with the blocks, the free list and the count of free bytes it had before, whatever was split.
\<close>

theorem heap_free_restores:
  assumes "heap_ok m L" "os_mem_alloc bytes m = Some (q, m')" "q \<noteq> 0"
  shows "\<exists>m''. os_mem_free q m' = Some m'' \<and> heap_ok m'' L \<and> free_bytes m'' = free_bytes m"
proof -
  obtain m'' where f: "os_mem_free q m' = Some m''" "heap_ok m'' L" using os_mem_alloc_free [OF assms] by blast
  have "unat (free_bytes m'') = unat (free_bytes m)" using f(2) assms(1) by (simp add: heap_ok_def)
  then show ?thesis using f by (auto simp: word_unat_eq_iff)
qed

theorem heap_free_restores_witness:
  "\<exists>m m''. os_mem_alloc 10 heap0 = Some (72, m) \<and> os_mem_free 72 m = Some m'' \<and> heap_ok m'' [(120, False)]"
proof -
  obtain m where m: "os_mem_alloc 10 heap0 = Some (72, m)" using heap0_alloc by blast
  show ?thesis using heap_free_restores [OF heap0_ok(1) m] m by auto
qed

text \<open>
  C23. An allocation of up to 2 GiB returns, and it returns NULL exactly when no free block is as large
  as the rounded request and its header; a refused request changes nothing.
\<close>

theorem heap_alloc_null_iff_no_room:
  assumes "heap_ok m L" "bytes \<noteq> 0" "unat bytes \<le> 2147483632"
  shows "\<exists>q m'. os_mem_alloc bytes m = Some (q, m') \<and> (q = 0 \<longrightarrow> m' = m) \<and>
    (q = 0 \<longleftrightarrow> (\<forall>n. (n, False) \<in> set L \<longrightarrow> n < 8 + (unat bytes + 7) div 8 * 8))"
  using os_mem_alloc_fits [OF assms]
  unfolding alloc_need_value(1) [OF assms(2) alloc_need_guard [OF assms(2,3)]] .

theorem heap_alloc_null_iff_no_room_witness:
  "os_mem_alloc 113 heap0 = Some (0, heap0) \<and> (\<exists>q m. os_mem_alloc 112 heap0 = Some (q, m) \<and> q \<noteq> 0)"
  using heap_alloc_null_iff_no_room [OF heap0_ok(1), of 113] heap_alloc_null_iff_no_room [OF heap0_ok(1), of 112]
  by auto

text \<open>
  Releasing the same allocation twice does no harm: the second release is recognised by the cleared
  flag in the header and ignored.
\<close>

theorem double_free_ignored:
  assumes "heap_ok m (L1 @ (n, True) # L2)" "q = heap_start m + total L1 + 8"
  shows "\<exists>m'. os_mem_free q m = Some m' \<and> heap_ok m' (free_layout L1 n L2) \<and> os_mem_free q m' = Some m'"
  using os_mem_free_effect [OF assms(1) refl] os_mem_free_twice [OF assms] assms(2) by blast

theorem double_free_ignored_witness:
  "\<exists>m m'. os_mem_alloc 10 heap0 = Some (72, m) \<and> os_mem_free 72 m = Some m' \<and> os_mem_free 72 m' = Some m'"
proof -
  obtain m where m: "os_mem_alloc 10 heap0 = Some (72, m)" "heap_ok m ([] @ (24, True) # [(96, False)])"
    using heap0_alloc by auto
  have "heap_start m = 64"
    using os_mem_alloc_frame [OF m(1)] heap0_ok(2) by (simp add: heap_start_def)
  then show ?thesis using double_free_ignored [OF m(2), of 72] m(1) by auto
qed

end
