(* ===== verification/Timer.thy ===== *)
theory Timer
  imports Waiting
begin

text \<open>
  Software timers, \<^verbatim>\<open>kernel/os_timer.c\<close>: one-shot and periodic timers, and pools of deferred calls.
  A timer is named by its address; 0 is NULL. The running list is the second delta-encoded deadline
  queue of the kernel (see \<^verbatim>\<open>DeltaList\<close>), the ready list holds the timers whose callback the
  timer task has still to make. The two intrusive nodes of a timer, \<^verbatim>\<open>running_node\<close> and
  \<^verbatim>\<open>ready_node\<close>, are its places in those lists; a pool entry that is free uses its \<^verbatim>\<open>ready_node\<close>
  for the pool's free list. Callbacks are addresses: the timer task calls them, the model reports
  which call is made with what. A timer service \<open>ts\<close> is beside the task state \<open>s\<close>, which it uses
  to wake the timer task and to tell the tickless planner about a new deadline.
\<close>

datatype os_timer_mode_t = OS_TIMER_MODE_ONE_SHOT | OS_TIMER_MODE_PERIODIC | OS_TIMER_MODE_SUBMIT

record os_timer_t =
  tm_self :: nat
  tm_period_ticks :: u32
  tm_remaining_ticks :: u32
  tm_mode :: os_timer_mode_t
  tm_active :: bool
  tm_paused :: bool
  tm_queued :: bool
  tm_callback :: nat
  tm_context :: nat
  tm_value :: u32

text \<open>\<open>pl_entries\<close> are the timers inside the pool's entry array, in order; \<open>None\<close> is NULL.\<close>

record os_timer_pool_t =
  pl_self :: nat
  pl_entries :: "nat list option"
  pl_count :: nat
  pl_delay_ticks :: u32
  pl_callback :: nat
  pl_free_list :: "nat list"
  pl_ready :: bool

record timers =
  timer_of :: "nat \<Rightarrow> os_timer_t"
  pool_of :: "nat \<Rightarrow> os_timer_pool_t"
  entry_pool :: "nat \<Rightarrow> nat"
  os_timer_running_list :: "nat list"
  os_timer_ready_list :: "nat list"
  os_timer_task_tcb :: "tref option"

definition upd_timer :: "nat \<Rightarrow> (os_timer_t \<Rightarrow> os_timer_t) \<Rightarrow> timers \<Rightarrow> timers" where
  "upd_timer t f ts = ts\<lparr>timer_of := (timer_of ts)(t := f (timer_of ts t))\<rparr>"

definition upd_pool :: "nat \<Rightarrow> (os_timer_pool_t \<Rightarrow> os_timer_pool_t) \<Rightarrow> timers \<Rightarrow> timers" where
  "upd_pool p f ts = ts\<lparr>pool_of := (pool_of ts)(p := f (pool_of ts p))\<rparr>"

definition remaining :: "timers \<Rightarrow> nat \<Rightarrow> u32" where
  "remaining ts t = tm_remaining_ticks (timer_of ts t)"

definition set_remaining :: "(nat \<Rightarrow> u32) \<Rightarrow> timers \<Rightarrow> timers" where
  "set_remaining d ts = ts\<lparr>timer_of := (\<lambda>t. (timer_of ts t)\<lparr>tm_remaining_ticks := d t\<rparr>)\<rparr>"

definition OS_TIMER_VALID :: "nat \<Rightarrow> timers \<Rightarrow> bool" where
  "OS_TIMER_VALID t ts \<longleftrightarrow>
     t \<noteq> 0 \<and> tm_self (timer_of ts t) = t \<and> tm_mode (timer_of ts t) \<noteq> OS_TIMER_MODE_SUBMIT"

definition OS_TIMER_POOL_VALID :: "nat \<Rightarrow> timers \<Rightarrow> bool" where
  "OS_TIMER_POOL_VALID p ts \<longleftrightarrow>
     p \<noteq> 0 \<and> pl_self (pool_of ts p) = p \<and> pl_entries (pool_of ts p) \<noteq> None \<and>
     pl_count (pool_of ts p) \<noteq> 0 \<and> pl_callback (pool_of ts p) \<noteq> 0 \<and>
     pl_delay_ticks (pool_of ts p) \<noteq> OS_WAIT_FOREVER"

text \<open>\<^verbatim>\<open>OS_TICKS_FROM_MS\<close>, the saturating conversion, with the tick rate as an argument.\<close>

definition OS_TICKS_FROM_MS :: "u32 \<Rightarrow> u32 \<Rightarrow> u32" where
  "OS_TICKS_FROM_MS hz ms =
     (let ticks = ((ucast ms :: 64 word) * ucast hz + 999) div 1000 in
      if ticks \<ge> ucast OS_WAIT_FOREVER then OS_WAIT_FOREVER - 1 else ucast ticks)"

section \<open>The running list\<close>

definition os_timer_running_insert :: "nat \<Rightarrow> timers \<Rightarrow> timers" where
  "os_timer_running_insert t ts =
     (case delta_insert t (remaining ts t) (os_timer_running_list ts) (remaining ts) of
        (l, d) \<Rightarrow> set_remaining d ts\<lparr>os_timer_running_list := l\<rparr>)"

text \<open>Removal gives the timer's delta to its successor, unlinks it, and leaves in it the time it had left.\<close>

fun absolute_sum :: "nat \<Rightarrow> u32 \<Rightarrow> nat list \<Rightarrow> (nat \<Rightarrow> u32) \<Rightarrow> u32" where
  "absolute_sum t absolute [] d = absolute"
| "absolute_sum t absolute (e # es) d =
     (if e = t then absolute + d e else absolute_sum t (absolute + d e) es d)"

definition running_unlink :: "nat \<Rightarrow> timers \<Rightarrow> timers" where
  "running_unlink t ts =
     (case delta_remove t (os_timer_running_list ts) (remaining ts) of
        (l, d) \<Rightarrow> set_remaining d ts\<lparr>os_timer_running_list := l\<rparr>)"

definition os_timer_running_remove :: "nat \<Rightarrow> timers \<Rightarrow> u32 \<times> timers" where
  "os_timer_running_remove t ts =
     (let absolute = absolute_sum t 0 (os_timer_running_list ts) (remaining ts) in
      if t \<in> set (os_timer_running_list ts)
      then (absolute, upd_timer t (\<lambda>x. x\<lparr>tm_remaining_ticks := absolute\<rparr>) (running_unlink t ts))
      else (0, ts))"

definition os_timer_is_running_linked :: "nat \<Rightarrow> timers \<Rightarrow> bool" where
  "os_timer_is_running_linked t ts \<longleftrightarrow> t \<in> set (os_timer_running_list ts)"

definition ready_push :: "nat \<Rightarrow> timers \<Rightarrow> timers" where
  "ready_push t ts = ts\<lparr>os_timer_ready_list := os_timer_ready_list ts @ [t]\<rparr>"

definition os_timer_unlink_locked :: "nat \<Rightarrow> timers \<Rightarrow> bool \<times> timers" where
  "os_timer_unlink_locked t ts =
     (t \<in> set (os_timer_ready_list ts),
      ts\<lparr>os_timer_ready_list := remove1 t (os_timer_ready_list ts)\<rparr>)"

definition os_timer_detach_locked :: "nat \<Rightarrow> timers \<Rightarrow> timers" where
  "os_timer_detach_locked t ts =
     upd_timer t (\<lambda>x. x\<lparr>tm_queued := False\<rparr>)
       (snd (os_timer_unlink_locked t (snd (os_timer_running_remove t ts))))"

section \<open>The calls\<close>

text \<open>
  Arming. A running timer is taken out first. A restart, or a start that does not resume a paused
  timer, begins a full period and cancels a call that is still waiting to be made; a resume keeps
  the time that was left and the call.
\<close>

definition arm_prepare :: "nat \<Rightarrow> bool \<Rightarrow> nat \<Rightarrow> u32 \<Rightarrow> timers \<Rightarrow> timers" where
  "arm_prepare t reload ctx v ts =
     (let ts1 = upd_timer t (\<lambda>x. x\<lparr>tm_context := ctx, tm_value := v\<rparr>) (snd (os_timer_running_remove t ts)) in
      if reload \<or> \<not> tm_paused (timer_of ts1 t) then
        let tr = upd_timer t (\<lambda>x. x\<lparr>tm_remaining_ticks := tm_period_ticks x\<rparr>) ts1 in
        if tm_queued (timer_of tr t)
        then upd_timer t (\<lambda>x. x\<lparr>tm_queued := False\<rparr>) (snd (os_timer_unlink_locked t tr))
        else tr
      else ts1)"

definition os_timer_arm :: "nat \<Rightarrow> bool \<Rightarrow> nat \<Rightarrow> u32 \<Rightarrow> timers \<times> kstate \<Rightarrow> os_err_t \<times> timers \<times> kstate" where
  "os_timer_arm t reload ctx v = (\<lambda>(ts, s).
     if OS_TIMER_VALID t ts \<and> tm_callback (timer_of ts t) \<noteq> 0 \<and> tm_period_ticks (timer_of ts t) \<noteq> 0
     then (OS_ERR_NONE,
           upd_timer t (\<lambda>x. x\<lparr>tm_paused := False, tm_active := True\<rparr>)
             (os_timer_running_insert t (arm_prepare t reload ctx v ts)),
           os_tickless_deadline_armed s)
     else (OS_ERR_INVALID_ARG, ts, s))"

definition os_timer_start :: "nat \<Rightarrow> nat \<Rightarrow> u32 \<Rightarrow> timers \<times> kstate \<Rightarrow> os_err_t \<times> timers \<times> kstate" where
  "os_timer_start t ctx v = os_timer_arm t False ctx v"

definition os_timer_restart :: "nat \<Rightarrow> nat \<Rightarrow> u32 \<Rightarrow> timers \<times> kstate \<Rightarrow> os_err_t \<times> timers \<times> kstate" where
  "os_timer_restart t ctx v = os_timer_arm t True ctx v"

definition os_timer_pause :: "nat \<Rightarrow> timers \<Rightarrow> os_err_t \<times> timers" where
  "os_timer_pause t ts =
     (if OS_TIMER_VALID t ts then
        if tm_active (timer_of ts t)
        then (OS_ERR_NONE, snd (os_timer_running_remove t
                (upd_timer t (\<lambda>x. x\<lparr>tm_active := False, tm_paused := True\<rparr>) ts)))
        else (if tm_paused (timer_of ts t) then OS_ERR_NONE else OS_ERR_ERROR, ts)
      else (OS_ERR_INVALID_ARG, ts))"

definition os_timer_stop :: "nat \<Rightarrow> timers \<Rightarrow> os_err_t \<times> timers" where
  "os_timer_stop t ts =
     (if OS_TIMER_VALID t ts
      then (OS_ERR_NONE, os_timer_detach_locked t
              (upd_timer t (\<lambda>x. x\<lparr>tm_active := False, tm_paused := False\<rparr>) ts))
      else (OS_ERR_INVALID_ARG, ts))"

definition os_timer_period_set :: "u32 \<Rightarrow> nat \<Rightarrow> u32 \<Rightarrow> timers \<Rightarrow> os_err_t \<times> timers" where
  "os_timer_period_set hz t period_ms ts =
     (if OS_TIMER_VALID t ts \<and> period_ms \<noteq> 0 \<and> period_ms \<noteq> OS_WAIT_FOREVER
      then (OS_ERR_NONE, upd_timer t (\<lambda>x. x\<lparr>tm_period_ticks := OS_TICKS_FROM_MS hz period_ms\<rparr>) ts)
      else (OS_ERR_INVALID_ARG, ts))"

definition os_timer_callback_set :: "nat \<Rightarrow> nat \<Rightarrow> timers \<Rightarrow> os_err_t \<times> timers" where
  "os_timer_callback_set t cb ts =
     (if OS_TIMER_VALID t ts \<and> cb \<noteq> 0
      then (OS_ERR_NONE, upd_timer t (\<lambda>x. x\<lparr>tm_callback := cb\<rparr>) ts)
      else (OS_ERR_INVALID_ARG, ts))"

definition os_timer_value_set :: "nat \<Rightarrow> u32 \<Rightarrow> timers \<Rightarrow> os_err_t \<times> timers" where
  "os_timer_value_set t v ts =
     (if OS_TIMER_VALID t ts
      then (OS_ERR_NONE, upd_timer t (\<lambda>x. x\<lparr>tm_value := v\<rparr>) ts)
      else (OS_ERR_INVALID_ARG, ts))"

section \<open>Pools of deferred calls\<close>

definition entry_prepare :: "nat \<Rightarrow> nat \<Rightarrow> timers \<Rightarrow> timers" where
  "entry_prepare p t ts =
     (let pool = pool_of ts p;
          ts1 = upd_timer t (\<lambda>x. x\<lparr>tm_self := t, tm_mode := OS_TIMER_MODE_SUBMIT,
                  tm_callback := pl_callback pool, tm_active := False, tm_paused := False, tm_queued := False,
                  tm_period_ticks := (if pl_delay_ticks pool = 0 then 1 else pl_delay_ticks pool)\<rparr>)
                  (ts\<lparr>entry_pool := (entry_pool ts)(t := p)\<rparr>)
      in upd_pool p (\<lambda>x. x\<lparr>pl_free_list := pl_free_list x @ [t]\<rparr>) ts1)"

definition os_timer_pool_prepare_locked :: "nat \<Rightarrow> timers \<Rightarrow> timers" where
  "os_timer_pool_prepare_locked p ts =
     (if \<not> pl_ready (pool_of ts p) then
        upd_pool p (\<lambda>x. x\<lparr>pl_ready := True\<rparr>)
          (fold (entry_prepare p)
             (take (pl_count (pool_of ts p)) (the (pl_entries (pool_of ts p))))
             (upd_pool p (\<lambda>x. x\<lparr>pl_free_list := []\<rparr>) ts))
      else ts)"

text \<open>The two assertions on the entry taken are stops of the kernel when assertions are built in.\<close>

definition os_timer_submit :: "nat \<Rightarrow> nat \<Rightarrow> u32 \<Rightarrow> timers \<times> kstate \<Rightarrow> os_err_t \<times> timers \<times> kstate" where
  "os_timer_submit p ctx v = (\<lambda>(ts, s).
     if OS_TIMER_POOL_VALID p ts then
       let ts0 = os_timer_pool_prepare_locked p ts in
       case pl_free_list (pool_of ts0 p) of
         [] \<Rightarrow> (OS_ERR_FULL, ts0, s)
       | t # rest \<Rightarrow>
           let ts1 = upd_pool p (\<lambda>x. x\<lparr>pl_free_list := rest\<rparr>) ts0;
               s1 = (if assert_on s \<and> (tm_queued (timer_of ts1 t) \<or> os_timer_is_running_linked t ts1)
                     then s\<lparr>halted := True\<rparr> else s);
               ts2 = upd_timer t (\<lambda>x. x\<lparr>tm_context := ctx, tm_value := v\<rparr>) ts1
           in if pl_delay_ticks (pool_of ts2 p) = 0 then
                (OS_ERR_NONE,
                 ready_push t (upd_timer t (\<lambda>x. x\<lparr>tm_active := False, tm_paused := False,
                                   tm_remaining_ticks := 0, tm_queued := True\<rparr>) ts2),
                 os_task_wake_locked (os_timer_task_tcb ts2) s1)
              else
                (OS_ERR_NONE,
                 os_timer_running_insert t
                   (upd_timer t (\<lambda>x. x\<lparr>tm_remaining_ticks := pl_delay_ticks (pool_of ts2 p),
                      tm_paused := False, tm_active := True\<rparr>) ts2),
                 os_tickless_deadline_armed s1)
     else (OS_ERR_INVALID_ARG, ts, s))"

text \<open>Set-up: empty lists, then the timer task is created as a system task and started.\<close>

definition os_timer_system_init ::
  "task_port \<Rightarrow> os_task_config_t \<Rightarrow> os_task_t \<Rightarrow> stack_memory \<Rightarrow> timers \<times> kstate \<Rightarrow>
     os_err_t \<times> os_task_t option \<times> stack_memory \<times> timers \<times> kstate" where
  "os_timer_system_init port config tsk_timer mem = (\<lambda>(ts, s).
     let ts1 = ts\<lparr>os_timer_ready_list := [], os_timer_running_list := []\<rparr> in
     case os_task_create_system port (\<lambda>s. s) (Some tsk_timer) (Some config) mem s of
       (status, task, mem1, s1) \<Rightarrow>
         (case (if status = OS_ERR_NONE then os_task_start task s1 else (status, s1)) of
            (status', s2) \<Rightarrow>
              (status', task, mem1,
               if status' = OS_ERR_NONE
               then ts1\<lparr>os_timer_task_tcb := os_task_tcb_resolve (ident (the task)) s2\<rparr> else ts1, s2)))"

section \<open>The tick\<close>

text \<open>Detaching the due prefix: the timers taken, in order, and the ticks that are left of the step.\<close>

fun take_due :: "u32 \<Rightarrow> nat list \<Rightarrow> (nat \<Rightarrow> u32) \<Rightarrow> nat list \<times> nat list \<times> (nat \<Rightarrow> u32)" where
  "take_due elapsed [] d = ([], [], d)"
| "take_due elapsed (t # l) d =
     (if d t > elapsed then ([], t # l, d(t := d t - elapsed))
      else case take_due (elapsed - d t) l d of (due_list, l', d') \<Rightarrow> (t # due_list, l', d'))"

definition expire :: "nat \<Rightarrow> timers \<times> bool \<Rightarrow> timers \<times> bool" where
  "expire t = (\<lambda>(ts, wake_needed).
     let ts1 = (if tm_mode (timer_of ts t) = OS_TIMER_MODE_PERIODIC
                then os_timer_running_insert t
                       (upd_timer t (\<lambda>x. x\<lparr>tm_remaining_ticks := tm_period_ticks x\<rparr>) ts)
                else upd_timer t (\<lambda>x. x\<lparr>tm_remaining_ticks := 0, tm_active := False\<rparr>) ts)
     in if \<not> tm_queued (timer_of ts1 t)
        then (ready_push t (upd_timer t (\<lambda>x. x\<lparr>tm_queued := True\<rparr>) ts1), True)
        else (ts1, wake_needed))"

definition os_timer_tick_process :: "u32 \<Rightarrow> timers \<times> kstate \<Rightarrow> timers \<times> kstate" where
  "os_timer_tick_process elapsed = (\<lambda>(ts, s).
     if elapsed > 0 then
       case take_due elapsed (os_timer_running_list ts) (remaining ts) of
         (due_list, l, d) \<Rightarrow>
           (case fold expire due_list (set_remaining d ts\<lparr>os_timer_running_list := l\<rparr>, False) of
              (ts', wake_needed) \<Rightarrow>
                (ts', if wake_needed then os_task_wake_locked (os_timer_task_tcb ts') s else s))
     else (ts, s))"

definition os_timer_next_expiry_ticks_get :: "timers \<Rightarrow> u32" where
  "os_timer_next_expiry_ticks_get ts =
     (if os_timer_ready_list ts \<noteq> [] then 0
      else case os_timer_running_list ts of [] \<Rightarrow> 0xFFFFFFFF | t # _ \<Rightarrow> remaining ts t)"

section \<open>The timer task\<close>

text \<open>One fetch: the call to make, callback, context and value, if any timer is ready.\<close>

definition os_timer_expired_fetch ::
  "timers \<times> kstate \<Rightarrow> (nat \<times> nat \<times> u32) option \<times> timers \<times> kstate" where
  "os_timer_expired_fetch = (\<lambda>(ts, s).
     case os_timer_ready_list ts of
       [] \<Rightarrow> (None, ts, s)
     | t # rest \<Rightarrow>
         let s1 = (if assert_on s \<and> \<not> tm_queued (timer_of ts t) then s\<lparr>halted := True\<rparr> else s);
             ts1 = upd_timer t (\<lambda>x. x\<lparr>tm_queued := False\<rparr>) (ts\<lparr>os_timer_ready_list := rest\<rparr>);
             x = timer_of ts1 t;
             ts2 = (if \<not> tm_active x \<and> \<not> tm_paused x then
                      let tr = snd (os_timer_running_remove t ts1) in
                      if tm_mode x = OS_TIMER_MODE_SUBMIT then
                        upd_pool (entry_pool tr t) (\<lambda>p. p\<lparr>pl_free_list := pl_free_list p @ [t]\<rparr>)
                          (upd_timer t (\<lambda>y. y\<lparr>tm_context := 0, tm_value := 0\<rparr>) tr)
                      else tr
                    else ts1)
         in (Some (tm_callback x, tm_context x, tm_value x), ts2, s1))"

text \<open>One round of the task's endless loop: it makes a call, or it goes to sleep until it is woken.\<close>

definition os_timer_task_entry ::
  "timers \<times> kstate \<Rightarrow> (nat \<times> nat \<times> u32) option \<times> timers \<times> kstate" where
  "os_timer_task_entry st =
     (case os_timer_expired_fetch st of
        (Some call, st') \<Rightarrow> (Some call, st')
      | (None, ts, s) \<Rightarrow>
          (None, ts, if os_timer_ready_list ts = [] then os_task_sleep_ticks OS_WAIT_FOREVER s else s))"


section \<open>The running list is a delta queue\<close>

lemma upd_timer_simps [simp]:
  "timer_of (upd_timer t f ts) x = (if x = t then f (timer_of ts t) else timer_of ts x)"
  "os_timer_running_list (upd_timer t f ts) = os_timer_running_list ts"
  "os_timer_ready_list (upd_timer t f ts) = os_timer_ready_list ts"
  "pool_of (upd_timer t f ts) = pool_of ts" "entry_pool (upd_timer t f ts) = entry_pool ts"
  "os_timer_task_tcb (upd_timer t f ts) = os_timer_task_tcb ts"
  by (simp_all add: upd_timer_def)

lemma upd_pool_simps [simp]:
  "timer_of (upd_pool p g ts) = timer_of ts"
  "os_timer_running_list (upd_pool p g ts) = os_timer_running_list ts"
  "os_timer_ready_list (upd_pool p g ts) = os_timer_ready_list ts"
  "pool_of (upd_pool p g ts) x = (if x = p then g (pool_of ts p) else pool_of ts x)"
  "entry_pool (upd_pool p g ts) = entry_pool ts" "remaining (upd_pool p g ts) = remaining ts"
  "os_timer_task_tcb (upd_pool p g ts) = os_timer_task_tcb ts"
  by (simp_all add: upd_pool_def remaining_def fun_eq_iff)

lemma set_remaining_simps [simp]:
  "timer_of (set_remaining d ts) x = (timer_of ts x)\<lparr>tm_remaining_ticks := d x\<rparr>"
  "remaining (set_remaining d ts) = d"
  "os_timer_running_list (set_remaining d ts) = os_timer_running_list ts"
  "os_timer_ready_list (set_remaining d ts) = os_timer_ready_list ts"
  "pool_of (set_remaining d ts) = pool_of ts" "entry_pool (set_remaining d ts) = entry_pool ts"
  "os_timer_task_tcb (set_remaining d ts) = os_timer_task_tcb ts"
  by (simp_all add: set_remaining_def remaining_def fun_eq_iff)

lemma remaining_lists [simp]:
  "remaining (ts\<lparr>os_timer_running_list := l\<rparr>) = remaining ts"
  "remaining (ts\<lparr>os_timer_ready_list := l\<rparr>) = remaining ts"
  "remaining (ts\<lparr>entry_pool := ep\<rparr>) = remaining ts"
  by (simp_all add: remaining_def fun_eq_iff)

lemma remaining_upd_timer:
  "remaining (upd_timer t f ts) = (remaining ts)(t := tm_remaining_ticks (f (timer_of ts t)))"
  by (simp add: remaining_def fun_eq_iff)

text \<open>What inserting and unlinking leave alone: everything but the list and the stored deltas.\<close>

lemma running_insert_timer:
  "timer_of (os_timer_running_insert t ts) x =
     (timer_of ts x)\<lparr>tm_remaining_ticks := remaining (os_timer_running_insert t ts) x\<rparr>"
  by (simp add: os_timer_running_insert_def split_beta)

lemma running_insert_simps [simp]:
  "os_timer_ready_list (os_timer_running_insert t ts) = os_timer_ready_list ts"
  "pool_of (os_timer_running_insert t ts) = pool_of ts"
  "entry_pool (os_timer_running_insert t ts) = entry_pool ts"
  "os_timer_task_tcb (os_timer_running_insert t ts) = os_timer_task_tcb ts"
  by (simp_all add: os_timer_running_insert_def split_beta)

lemma running_unlink_timer:
  "timer_of (running_unlink t ts) x =
     (timer_of ts x)\<lparr>tm_remaining_ticks := remaining (running_unlink t ts) x\<rparr>"
  by (simp add: running_unlink_def split_beta)

lemma running_unlink_simps [simp]:
  "os_timer_ready_list (running_unlink t ts) = os_timer_ready_list ts"
  "pool_of (running_unlink t ts) = pool_of ts" "entry_pool (running_unlink t ts) = entry_pool ts"
  "os_timer_task_tcb (running_unlink t ts) = os_timer_task_tcb ts"
  by (simp_all add: running_unlink_def split_beta)

lemma running_remove_timer:
  "timer_of (snd (os_timer_running_remove t ts)) x =
     (timer_of ts x)\<lparr>tm_remaining_ticks := remaining (snd (os_timer_running_remove t ts)) x\<rparr>"
proof (cases "t \<in> set (os_timer_running_list ts)")
  case True
  then show ?thesis using running_unlink_timer [of t ts x]
    by (auto simp: os_timer_running_remove_def Let_def remaining_upd_timer)
qed (simp add: os_timer_running_remove_def remaining_def)

lemma running_remove_simps [simp]:
  "os_timer_ready_list (snd (os_timer_running_remove t ts)) = os_timer_ready_list ts"
  "pool_of (snd (os_timer_running_remove t ts)) = pool_of ts"
  "entry_pool (snd (os_timer_running_remove t ts)) = entry_pool ts"
  "os_timer_task_tcb (snd (os_timer_running_remove t ts)) = os_timer_task_tcb ts"
  by (simp_all add: os_timer_running_remove_def Let_def)

definition arm_for :: "nat \<Rightarrow> u32 \<Rightarrow> timers \<Rightarrow> timers" where
  "arm_for t r ts = os_timer_running_insert t (upd_timer t (\<lambda>x. x\<lparr>tm_remaining_ticks := r\<rparr>) ts)"

lemma arm_for_walk:
  assumes "t \<notin> set (os_timer_running_list ts)"
  shows "(os_timer_running_list (arm_for t r ts), remaining (arm_for t r ts)) =
    delta_insert t r (os_timer_running_list ts) (remaining ts)"
proof -
  obtain l d where "delta_insert t r (os_timer_running_list ts) (remaining ts) = (l, d)"
    by (cases "delta_insert t r (os_timer_running_list ts) (remaining ts)")
  then show ?thesis using delta_insert_self [OF assms, of r "remaining ts" r]
    by (simp add: arm_for_def os_timer_running_insert_def remaining_upd_timer)
qed

lemma running_unlink_walk:
  "(os_timer_running_list (running_unlink t ts), remaining (running_unlink t ts)) =
   delta_remove t (os_timer_running_list ts) (remaining ts)"
  by (cases "delta_remove t (os_timer_running_list ts) (remaining ts)") (simp add: running_unlink_def)

interpretation armed: delta_queue
  "os_timer_running_list :: timers \<Rightarrow> nat list" remaining arm_for running_unlink
  by (unfold_locales, erule arm_for_walk, rule running_unlink_walk)

lemma running_insert_arm: "os_timer_running_insert t ts = arm_for t (remaining ts t) ts"
proof -
  have "upd_timer t (\<lambda>x. x\<lparr>tm_remaining_ticks := remaining ts t\<rparr>) ts = ts"
    by (simp add: upd_timer_def remaining_def)
  then show ?thesis by (simp add: arm_for_def)
qed

text \<open>The deadline of a timer that is not on the list does not matter.\<close>

lemma deadline_cong:
  assumes "os_timer_running_list ts = os_timer_running_list ts'"
    "\<And>x. x \<in> set (os_timer_running_list ts') \<Longrightarrow> remaining ts x = remaining ts' x"
  shows "armed.deadline ts x = armed.deadline ts' x" "armed.queue_ok ts = armed.queue_ok ts'"
  using due_cong [of "os_timer_running_list ts'" "remaining ts" "remaining ts'" x]
    delta_total_cong [of "os_timer_running_list ts'" "remaining ts" "remaining ts'"] assms
  by (simp_all add: armed.deadline_def armed.queue_ok_def)

lemma absolute_sum_due:
  "due l d t = Some n \<Longrightarrow> unat a + n < 4294967296 \<Longrightarrow> unat (absolute_sum t a l d) = unat a + n"
proof (induction t a l d arbitrary: n rule: absolute_sum.induct)
  case (2 t a e es d)
  then show ?case
  proof (cases "e = t")
    case True
    then show ?thesis using 2 unat_add_lt [of a "d e"] by simp
  next
    case False
    then obtain k where k: "due es d t = Some k" "n = unat (d e) + k" using 2(2) by auto
    then have "unat (a + d e) = unat a + unat (d e)" using 2(3) unat_add_lt [of a "d e"] by simp
    then show ?thesis using 2(1) [OF False k(1)] k(2) 2(3) False by simp
  qed
qed simp

text \<open>Taking a timer out: it keeps the time it had left, and no other deadline moves.\<close>

lemma running_remove_effect:
  assumes "armed.queue_ok ts"
  shows "os_timer_running_list (snd (os_timer_running_remove t ts)) = remove1 t (os_timer_running_list ts)"
    and "armed.queue_ok (snd (os_timer_running_remove t ts))"
    and "armed.deadline (snd (os_timer_running_remove t ts)) x =
           (if x = t then None else armed.deadline ts x)"
    and "armed.deadline ts t = Some n \<Longrightarrow> unat (remaining (snd (os_timer_running_remove t ts)) t) = n"
    and "armed.deadline ts t = None \<Longrightarrow> snd (os_timer_running_remove t ts) = ts"
    and "x \<notin> set (os_timer_running_list ts) \<Longrightarrow> remaining (snd (os_timer_running_remove t ts)) x = remaining ts x"
proof -
  let ?r = "snd (os_timer_running_remove t ts)"
  have d: "distinct (os_timer_running_list ts)" using assms by (simp add: armed.queue_ok_def)
  show l: "os_timer_running_list ?r = remove1 t (os_timer_running_list ts)"
    by (simp add: os_timer_running_remove_def Let_def armed.disarm_keys remove1_idem)
  have e: "armed.deadline ?r y = armed.deadline (running_unlink t ts) y \<and>
      armed.queue_ok ?r = armed.queue_ok (running_unlink t ts)" if "t \<in> set (os_timer_running_list ts)" for y
    using that d l
    by (intro conjI deadline_cong)
      (auto simp: os_timer_running_remove_def Let_def armed.disarm_keys remaining_upd_timer)
  show "armed.queue_ok ?r"
  proof (cases "t \<in> set (os_timer_running_list ts)")
    case True
    then show ?thesis using e armed.disarm_ok [OF assms] by blast
  qed (use assms in \<open>simp add: os_timer_running_remove_def\<close>)
  show "armed.deadline ?r x = (if x = t then None else armed.deadline ts x)"
  proof (cases "x = t")
    case True
    then show ?thesis using d l by (simp add: armed.deadline_def due_None_iff)
  next
    case False
    then show ?thesis using e armed.disarm_deadline [OF assms False]
      by (cases "t \<in> set (os_timer_running_list ts)") (simp_all add: os_timer_running_remove_def)
  qed
  show "unat (remaining ?r t) = n" if n: "armed.deadline ts t = Some n"
  proof -
    have "t \<in> set (os_timer_running_list ts)"
      using n due_None_iff [of "os_timer_running_list ts" "remaining ts" t] by (auto simp: armed.deadline_def)
    moreover have "n < 4294967296"
      using n due_le_total assms by (fastforce simp: armed.deadline_def armed.queue_ok_def)
    ultimately show ?thesis using n absolute_sum_due [of _ _ t n 0]
      by (simp add: os_timer_running_remove_def Let_def remaining_upd_timer armed.deadline_def)
  qed
  show "?r = ts" if "armed.deadline ts t = None"
    using that by (simp add: os_timer_running_remove_def armed.deadline_def due_None_iff)
  show "remaining ?r x = remaining ts x" if "x \<notin> set (os_timer_running_list ts)"
    using that armed.disarm_delta [of t ts]
    by (auto simp: os_timer_running_remove_def Let_def remaining_upd_timer DeltaList.delta_remove_other)
qed


section \<open>The invariant of the timer service\<close>

definition run_ok :: "timers \<Rightarrow> bool" where
  "run_ok ts \<longleftrightarrow> armed.queue_ok ts \<and> (\<forall>t. remaining ts t \<noteq> OS_WAIT_FOREVER)"

definition timer_flags_ok :: "nat \<Rightarrow> timers \<Rightarrow> bool" where
  "timer_flags_ok t ts \<longleftrightarrow>
     (t \<in> set (os_timer_running_list ts) \<longleftrightarrow> tm_active (timer_of ts t)) \<and>
     (t \<in> set (os_timer_ready_list ts) \<longleftrightarrow> tm_queued (timer_of ts t)) \<and>
     \<not> (tm_active (timer_of ts t) \<and> tm_paused (timer_of ts t)) \<and>
     tm_period_ticks (timer_of ts t) \<noteq> OS_WAIT_FOREVER"

definition timers_ok :: "timers \<Rightarrow> bool" where
  "timers_ok ts \<longleftrightarrow> run_ok ts \<and> distinct (os_timer_ready_list ts) \<and> (\<forall>t. timer_flags_ok t ts)"

lemma timers_okD:
  assumes "timers_ok ts"
  shows "run_ok ts" "armed.queue_ok ts" "distinct (os_timer_running_list ts)" "distinct (os_timer_ready_list ts)"
  using assms by (auto simp: timers_ok_def run_ok_def armed.queue_ok_def)

lemma timer_okD:
  assumes "timers_ok ts"
  shows "t \<in> set (os_timer_running_list ts) \<longleftrightarrow> tm_active (timer_of ts t)"
    "t \<in> set (os_timer_ready_list ts) \<longleftrightarrow> tm_queued (timer_of ts t)"
    "tm_active (timer_of ts t) \<Longrightarrow> \<not> tm_paused (timer_of ts t)"
    "tm_period_ticks (timer_of ts t) \<noteq> OS_WAIT_FOREVER" "remaining ts t \<noteq> OS_WAIT_FOREVER"
  using assms by (auto simp: timers_ok_def timer_flags_ok_def run_ok_def armed.queue_ok_def)

lemma armed_not_forever:
  assumes "armed.queue_ok ts" "x \<in> set (os_timer_running_list ts)"
  shows "remaining ts x \<noteq> OS_WAIT_FOREVER"
proof -
  obtain n where n: "due (os_timer_running_list ts) (remaining ts) x = Some n"
    using assms(2) due_None_iff by fastforce
  have "unat (remaining ts x) < 4294967295"
    using delta_le_due [OF n] due_le_total [OF n] assms(1) by (simp add: armed.queue_ok_def)
  then show ?thesis by (simp add: word32_not_forever_iff)
qed

lemma deadline_active: "armed.deadline ts t = None \<longleftrightarrow> t \<notin> set (os_timer_running_list ts)"
  by (simp add: armed.deadline_def due_None_iff)

lemma run_ok_lists [simp]:
  "run_ok (ts\<lparr>os_timer_ready_list := l\<rparr>) = run_ok ts" "run_ok (upd_pool p g ts) = run_ok ts"
  "run_ok (ready_push t ts) = run_ok ts" "run_ok (ts\<lparr>entry_pool := ep\<rparr>) = run_ok ts"
  by (simp_all add: run_ok_def armed.queue_ok_def ready_push_def)

lemma run_ok_upd_flags:
  "(\<And>x. tm_remaining_ticks (f x) = tm_remaining_ticks x) \<Longrightarrow> run_ok (upd_timer t f ts) = run_ok ts"
  by (simp add: run_ok_def armed.queue_ok_def remaining_upd_timer remaining_def fun_upd_idem)

lemma run_ok_set:
  assumes "run_ok ts" "t \<notin> set (os_timer_running_list ts)" "tm_remaining_ticks (f (timer_of ts t)) \<noteq> OS_WAIT_FOREVER"
  shows "run_ok (upd_timer t f ts)"
    "armed.deadline (upd_timer t f ts) x = armed.deadline ts x"
proof -
  have c: "remaining (upd_timer t f ts) x = remaining ts x" if "x \<in> set (os_timer_running_list ts)" for x
    using that assms(2) by (auto simp: remaining_upd_timer)
  note cong = deadline_cong [of "upd_timer t f ts" ts, OF upd_timer_simps(2) c]
  show "armed.deadline (upd_timer t f ts) x = armed.deadline ts x" by (rule cong)
  show "run_ok (upd_timer t f ts)" using assms cong(2) by (simp add: run_ok_def remaining_upd_timer)
qed

lemma deadline_upd_flags:
  "(\<And>x. tm_remaining_ticks (f x) = tm_remaining_ticks x) \<Longrightarrow>
   armed.deadline (upd_timer t f ts) x = armed.deadline ts x"
  by (simp add: armed.deadline_def remaining_upd_timer remaining_def fun_upd_idem)

lemma deadline_lists [simp]:
  "armed.deadline (ts\<lparr>os_timer_ready_list := l\<rparr>) x = armed.deadline ts x"
  "armed.deadline (upd_pool p g ts) x = armed.deadline ts x"
  "armed.deadline (ready_push t ts) x = armed.deadline ts x"
  "armed.deadline (ts\<lparr>entry_pool := ep\<rparr>) x = armed.deadline ts x"
  by (simp_all add: armed.deadline_def ready_push_def)

lemma run_ok_insert:
  assumes "run_ok ts" "t \<notin> set (os_timer_running_list ts)"
  shows "run_ok (os_timer_running_insert t ts)"
    "set (os_timer_running_list (os_timer_running_insert t ts)) = insert t (set (os_timer_running_list ts))"
    "armed.deadline (os_timer_running_insert t ts) x =
       (if x = t then Some (unat (remaining ts t)) else armed.deadline ts x)"
    "x \<noteq> t \<Longrightarrow> x \<notin> set (os_timer_running_list ts) \<Longrightarrow>
       remaining (os_timer_running_insert t ts) x = remaining ts x"
proof -
  show "x \<noteq> t \<Longrightarrow> x \<notin> set (os_timer_running_list ts) \<Longrightarrow>
       remaining (os_timer_running_insert t ts) x = remaining ts x"
    using armed.arm_delta [OF assms(2), of "remaining ts t"]
      DeltaList.delta_insert_other [of x "os_timer_running_list ts" t]
    by (simp add: running_insert_arm)
  have r: "armed.queue_ok ts" "remaining ts t \<noteq> OS_WAIT_FOREVER" using assms(1) by (simp_all add: run_ok_def)
  note ok = armed.arm_ok [OF r(1) assms(2) r(2), folded running_insert_arm]
  show s: "set (os_timer_running_list (os_timer_running_insert t ts)) = insert t (set (os_timer_running_list ts))"
    using armed.arm_set [OF assms(2), of "remaining ts t"] by (simp add: running_insert_arm)
  have "remaining (os_timer_running_insert t ts) y \<noteq> OS_WAIT_FOREVER" for y
  proof (cases "y \<in> insert t (set (os_timer_running_list ts))")
    case True
    then show ?thesis using armed_not_forever [OF ok] s by blast
  next
    case False
    then show ?thesis using assms(1) armed.arm_delta [OF assms(2), of "remaining ts t"]
        DeltaList.delta_insert_other [of y "os_timer_running_list ts" t]
      by (simp add: running_insert_arm run_ok_def)
  qed
  then show "run_ok (os_timer_running_insert t ts)" using ok by (simp add: run_ok_def)
  show "armed.deadline (os_timer_running_insert t ts) x =
       (if x = t then Some (unat (remaining ts t)) else armed.deadline ts x)"
    using armed.arm_deadline [OF r(1) assms(2)] by (simp add: running_insert_arm)
qed

lemma run_ok_remove:
  assumes "run_ok ts"
  shows "run_ok (snd (os_timer_running_remove t ts))"
    "set (os_timer_running_list (snd (os_timer_running_remove t ts))) = set (os_timer_running_list ts) - {t}"
proof -
  have q: "armed.queue_ok ts" using assms by (simp add: run_ok_def)
  note eff = running_remove_effect [OF q, of t]
  have d: "distinct (os_timer_running_list ts)" using q by (simp add: armed.queue_ok_def)
  then show s: "set (os_timer_running_list (snd (os_timer_running_remove t ts))) = set (os_timer_running_list ts) - {t}"
    by (simp add: eff(1))
  have "remaining (snd (os_timer_running_remove t ts)) y \<noteq> OS_WAIT_FOREVER" for y
  proof (cases "y = t")
    case True
    show ?thesis
    proof (cases "armed.deadline ts t")
      case None
      then show ?thesis using eff(5) assms by (simp add: run_ok_def)
    next
      case (Some n)
      have "n < 4294967295" using Some due_le_total q by (fastforce simp: armed.deadline_def armed.queue_ok_def)
      then show ?thesis using eff(4) [OF Some] True by (auto simp: word32_not_forever_iff)
    qed
  next
    case False
    then show ?thesis using armed_not_forever [OF eff(2), of y] s running_remove_effect(6) [OF q, where x = y and t = t] assms
      by (cases "y \<in> set (os_timer_running_list ts)") (auto simp: run_ok_def)
  qed
  then show "run_ok (snd (os_timer_running_remove t ts))" using eff(2) by (simp add: run_ok_def)
qed

section \<open>What each call does\<close>

definition rearm :: "bool \<Rightarrow> nat \<Rightarrow> u32 \<Rightarrow> os_timer_t \<Rightarrow> os_timer_t" where
  "rearm re ctx v x = x\<lparr>tm_context := ctx, tm_value := v,
     tm_remaining_ticks := (if re then tm_period_ticks x else tm_remaining_ticks x),
     tm_queued := (tm_queued x \<and> \<not> re)\<rparr>"

lemma arm_prepare_eq:
  defines "re \<equiv> \<lambda>ts t reload. reload \<or> \<not> tm_paused (timer_of ts t)"
  shows "arm_prepare t reload ctx v ts =
    upd_timer t (rearm (re ts t reload) ctx v) (snd (os_timer_running_remove t ts))
      \<lparr>os_timer_ready_list := (if re ts t reload \<and> tm_queued (timer_of ts t)
         then remove1 t (os_timer_ready_list ts) else os_timer_ready_list ts)\<rparr>"
proof (cases "re ts t reload")
  case True
  then show ?thesis
    by (cases "tm_queued (timer_of ts t)")
      (auto intro!: timers.equality simp: arm_prepare_def Let_def re_def rearm_def fun_eq_iff
        os_timer_unlink_locked_def running_remove_timer)
next
  case False
  then show ?thesis
    by (auto intro!: timers.equality simp: arm_prepare_def Let_def re_def rearm_def fun_eq_iff
        running_remove_timer)
qed

lemma arm_effect:
  assumes ok: "timers_ok ts"
    and v: "OS_TIMER_VALID t ts" "tm_callback (timer_of ts t) \<noteq> 0" "tm_period_ticks (timer_of ts t) \<noteq> 0"
    and r: "os_timer_arm t reload ctx v (ts, s) = (e, ts', s')"
  shows "timers_ok ts'" "e = OS_ERR_NONE" "s' = os_tickless_deadline_armed s"
    and "armed.deadline ts' x = (if x = t then Some (unat
           (if reload \<or> \<not> tm_paused (timer_of ts t) then tm_period_ticks (timer_of ts t) else remaining ts t))
         else armed.deadline ts x)"
    and "x \<noteq> t \<Longrightarrow> (timer_of ts' x)\<lparr>tm_remaining_ticks := 0\<rparr> = (timer_of ts x)\<lparr>tm_remaining_ticks := 0\<rparr>"
    and "pool_of ts' = pool_of ts" "entry_pool ts' = entry_pool ts"
    and "tm_mode (timer_of ts' t) = tm_mode (timer_of ts t)" "tm_self (timer_of ts' t) = tm_self (timer_of ts t)"
    and "os_timer_ready_list ts' = (if (reload \<or> \<not> tm_paused (timer_of ts t)) \<and> tm_queued (timer_of ts t)
           then remove1 t (os_timer_ready_list ts) else os_timer_ready_list ts)"
    and "tm_context (timer_of ts' t) = ctx \<and> tm_value (timer_of ts' t) = v"
proof -
  let ?re = "reload \<or> \<not> tm_paused (timer_of ts t)"
  let ?tr = "snd (os_timer_running_remove t ts)"
  let ?f = "rearm ?re ctx v"
  define tm where "tm = arm_prepare t reload ctx v ts"
  note d = timers_okD [OF ok] timer_okD [OF ok, of t]
  have tm: "tm = upd_timer t ?f ?tr\<lparr>os_timer_ready_list := (if ?re \<and> tm_queued (timer_of ts t)
      then remove1 t (os_timer_ready_list ts) else os_timer_ready_list ts)\<rparr>"
    by (simp add: tm_def arm_prepare_eq)
  have e: "e = OS_ERR_NONE" "s' = os_tickless_deadline_armed s"
    "ts' = upd_timer t (\<lambda>x. x\<lparr>tm_paused := False, tm_active := True\<rparr>) (os_timer_running_insert t tm)"
    using r v by (simp_all add: os_timer_arm_def tm_def)
  have nr: "t \<notin> set (os_timer_running_list ?tr)" using run_ok_remove(2) [OF d(1)] by simp
  have keep: "?tr = ts" if "\<not> ?re"
    using that d running_remove_effect(5) [OF d(2), of t] deadline_active [of ts t] by auto
  have ft: "tm_remaining_ticks (?f (timer_of ?tr t)) =
      (if ?re then tm_period_ticks (timer_of ts t) else remaining ts t)"
  proof (cases ?re)
    case True
    then show ?thesis by (simp add: rearm_def running_remove_timer)
  next
    case False
    then show ?thesis using keep by (simp add: rearm_def remaining_def)
  qed
  then have "tm_remaining_ticks (?f (timer_of ?tr t)) \<noteq> OS_WAIT_FOREVER" using d by simp
  note ok1 = run_ok_set [where f = ?f, OF run_ok_remove(1) [OF d(1)] nr this]
  have rt: "run_ok tm" "t \<notin> set (os_timer_running_list tm)" "os_timer_running_list tm = os_timer_running_list ?tr"
    "remaining tm t = (if ?re then tm_period_ticks (timer_of ts t) else remaining ts t)"
    "armed.deadline tm x = armed.deadline ?tr x" for x
    using ok1 nr ft by (simp_all add: tm remaining_upd_timer)
  note ins = run_ok_insert [OF rt(1,2)]
  show "e = OS_ERR_NONE" "s' = os_tickless_deadline_armed s" by (rule e)+
  have run': "run_ok ts'" unfolding e(3) using ins(1) by (simp add: run_ok_upd_flags)
  have set': "set (os_timer_running_list ts') = insert t (set (os_timer_running_list ts))"
    using ins(2) rt(3) run_ok_remove(2) [OF d(1), of t] by (auto simp: e(3))
  show "armed.deadline ts' x = (if x = t then Some (unat
           (if ?re then tm_period_ticks (timer_of ts t) else remaining ts t))
         else armed.deadline ts x)" for x
    using ins(3) [of x] rt(4,5) running_remove_effect(3) [OF d(2), of t x]
    by (simp add: e(3) deadline_upd_flags)
  have other: "(timer_of ts' x)\<lparr>tm_remaining_ticks := 0\<rparr> = (timer_of ts x)\<lparr>tm_remaining_ticks := 0\<rparr>"
    if "x \<noteq> t" for x
    using that by (simp add: e(3) tm running_insert_timer running_remove_timer)
  then show "x \<noteq> t \<Longrightarrow> (timer_of ts' x)\<lparr>tm_remaining_ticks := 0\<rparr> = (timer_of ts x)\<lparr>tm_remaining_ticks := 0\<rparr>" for x .
  show "pool_of ts' = pool_of ts" "entry_pool ts' = entry_pool ts" by (simp_all add: e(3) tm)
  have self: "tm_mode (timer_of ts' t) = tm_mode (timer_of ts t)" "tm_self (timer_of ts' t) = tm_self (timer_of ts t)"
    "tm_context (timer_of ts' t) = ctx \<and> tm_value (timer_of ts' t) = v"
    "tm_queued (timer_of ts' t) \<longleftrightarrow> tm_queued (timer_of ts t) \<and> \<not> ?re"
    "tm_active (timer_of ts' t)" "\<not> tm_paused (timer_of ts' t)"
    "tm_period_ticks (timer_of ts' t) = tm_period_ticks (timer_of ts t)"
    by (simp_all add: e(3) tm rearm_def running_insert_timer running_remove_timer)
  then show "tm_mode (timer_of ts' t) = tm_mode (timer_of ts t)" "tm_self (timer_of ts' t) = tm_self (timer_of ts t)"
    "tm_context (timer_of ts' t) = ctx \<and> tm_value (timer_of ts' t) = v" by blast+
  show rl': "os_timer_ready_list ts' = (if ?re \<and> tm_queued (timer_of ts t)
           then remove1 t (os_timer_ready_list ts) else os_timer_ready_list ts)"
    by (simp add: e(3) tm)
  have "timer_flags_ok x ts'" for x
  proof (cases "x = t")
    case True
    then show ?thesis using self set' rl' d by (auto simp: timer_flags_ok_def)
  next
    case False
    have fl: "timer_flags_ok x ts" using ok by (simp add: timers_ok_def)
    have "tm_active (timer_of ts' x) = tm_active (timer_of ts x)" "tm_queued (timer_of ts' x) = tm_queued (timer_of ts x)"
      "tm_paused (timer_of ts' x) = tm_paused (timer_of ts x)"
      "tm_period_ticks (timer_of ts' x) = tm_period_ticks (timer_of ts x)"
      using False by (simp_all add: e(3) tm running_insert_timer running_remove_timer)
    then show ?thesis using fl set' rl' False d(4) by (auto simp: timer_flags_ok_def)
  qed
  moreover have "distinct (os_timer_ready_list ts')" using rl' d(4) by simp
  ultimately show "timers_ok ts'" using run' by (simp add: timers_ok_def)
qed


text \<open>A step that touches the flags of one timer only.\<close>

definition strip :: "os_timer_t \<Rightarrow> os_timer_t" where
  "strip x = x\<lparr>tm_remaining_ticks := 0\<rparr>"

lemma strip_fields:
  assumes "strip x = strip y"
  shows "tm_self x = tm_self y" "tm_period_ticks x = tm_period_ticks y" "tm_mode x = tm_mode y"
    "tm_active x = tm_active y" "tm_paused x = tm_paused y" "tm_queued x = tm_queued y"
    "tm_callback x = tm_callback y" "tm_context x = tm_context y" "tm_value x = tm_value y"
  using assms by (cases x; cases y; simp add: strip_def)+

definition one_timer_step :: "nat \<Rightarrow> timers \<Rightarrow> timers \<Rightarrow> bool" where
  "one_timer_step t ts ts' \<longleftrightarrow>
     pool_of ts' = pool_of ts \<and> entry_pool ts' = entry_pool ts \<and>
     os_timer_task_tcb ts' = os_timer_task_tcb ts \<and>
     (\<forall>x. x \<noteq> t \<longrightarrow> strip (timer_of ts' x) = strip (timer_of ts x)) \<and>
     tm_mode (timer_of ts' t) = tm_mode (timer_of ts t) \<and> tm_self (timer_of ts' t) = tm_self (timer_of ts t)"

lemma timers_ok_one:
  assumes "timers_ok ts" "one_timer_step t ts ts'" "run_ok ts'" "timer_flags_ok t ts'"
    "set (os_timer_running_list ts') - {t} = set (os_timer_running_list ts) - {t}"
    "set (os_timer_ready_list ts') - {t} = set (os_timer_ready_list ts) - {t}"
    "distinct (os_timer_ready_list ts')"
  shows "timers_ok ts'"
proof -
  have "timer_flags_ok x ts'" if "x \<noteq> t" for x
  proof -
    have s: "strip (timer_of ts' x) = strip (timer_of ts x)" using assms(2) that by (simp add: one_timer_step_def)
    have "timer_flags_ok x ts" using assms(1) by (simp add: timers_ok_def)
    then show ?thesis using assms(5,6) that strip_fields [OF s] by (auto simp: timer_flags_ok_def)
  qed
  then have "timer_flags_ok x ts'" for x using assms(4) by (cases "x = t") blast+
  then show ?thesis using assms(3,7) by (simp add: timers_ok_def)
qed

lemma pause_effect:
  assumes ok: "timers_ok ts" and v: "OS_TIMER_VALID t ts" "tm_active (timer_of ts t)"
    and r: "os_timer_pause t ts = (e, ts')"
  shows "timers_ok ts'" "e = OS_ERR_NONE" "one_timer_step t ts ts'"
    "armed.deadline ts' x = (if x = t then None else armed.deadline ts x)"
    "armed.deadline ts t = Some (unat (remaining ts' t))" "tm_paused (timer_of ts' t)"
    "tm_callback (timer_of ts' t) = tm_callback (timer_of ts t)"
    "tm_period_ticks (timer_of ts' t) = tm_period_ticks (timer_of ts t)"
proof -
  define ts1 where "ts1 = upd_timer t (\<lambda>x. x\<lparr>tm_active := False, tm_paused := True\<rparr>) ts"
  note d = timers_okD [OF ok] timer_okD [OF ok, of t]
  have e: "e = OS_ERR_NONE" "ts' = snd (os_timer_running_remove t ts1)"
    using r v by (simp_all add: os_timer_pause_def ts1_def)
  have ok1: "run_ok ts1" using d(1) by (simp add: ts1_def run_ok_upd_flags)
  then have q1: "armed.queue_ok ts1" by (simp add: run_ok_def)
  have dl: "armed.deadline ts1 y = armed.deadline ts y" for y by (simp add: ts1_def deadline_upd_flags)
  show "e = OS_ERR_NONE" by (rule e)
  show os: "one_timer_step t ts ts'"
    by (simp add: one_timer_step_def e strip_def running_remove_timer ts1_def)
  show "armed.deadline ts' x = (if x = t then None else armed.deadline ts x)" for x
    using running_remove_effect(3) [OF q1] dl by (simp add: e)
  obtain n where "armed.deadline ts t = Some n" using deadline_active [of ts t] d(5) v by auto
  then show "armed.deadline ts t = Some (unat (remaining ts' t))"
    using running_remove_effect(4) [OF q1] dl by (simp add: e)
  show p: "tm_paused (timer_of ts' t)" "tm_callback (timer_of ts' t) = tm_callback (timer_of ts t)"
    "tm_period_ticks (timer_of ts' t) = tm_period_ticks (timer_of ts t)"
    by (simp_all add: e running_remove_timer ts1_def)
  show "timers_ok ts'"
  proof (rule timers_ok_one [OF ok os])
    show "run_ok ts'" using run_ok_remove(1) [OF ok1] by (simp add: e)
    show "timer_flags_ok t ts'" using run_ok_remove(2) [OF ok1, of t] d
      by (auto simp: timer_flags_ok_def e running_remove_timer ts1_def)
    show "set (os_timer_running_list ts') - {t} = set (os_timer_running_list ts) - {t}"
      using run_ok_remove(2) [OF ok1, of t] by (auto simp: e ts1_def)
  qed (use d in \<open>simp_all add: e ts1_def\<close>)
qed

lemma stop_effect:
  assumes ok: "timers_ok ts" and v: "OS_TIMER_VALID t ts" and r: "os_timer_stop t ts = (e, ts')"
  shows "timers_ok ts'" "e = OS_ERR_NONE" "one_timer_step t ts ts'"
    "armed.deadline ts' x = (if x = t then None else armed.deadline ts x)"
    "os_timer_ready_list ts' = remove1 t (os_timer_ready_list ts)"
    "\<not> tm_paused (timer_of ts' t)" "\<not> tm_active (timer_of ts' t)"
proof -
  define ts1 where "ts1 = upd_timer t (\<lambda>x. x\<lparr>tm_active := False, tm_paused := False\<rparr>) ts"
  note d = timers_okD [OF ok] timer_okD [OF ok, of t]
  have e: "e = OS_ERR_NONE" "ts' = os_timer_detach_locked t ts1"
    using r v by (simp_all add: os_timer_stop_def ts1_def)
  have ok1: "run_ok ts1" using d(1) by (simp add: ts1_def run_ok_upd_flags)
  then have q1: "armed.queue_ok ts1" by (simp add: run_ok_def)
  have dl: "armed.deadline ts1 y = armed.deadline ts y" for y by (simp add: ts1_def deadline_upd_flags)
  note det = os_timer_detach_locked_def os_timer_unlink_locked_def
  show "e = OS_ERR_NONE" by (rule e)
  show os: "one_timer_step t ts ts'"
    by (simp add: one_timer_step_def e det strip_def running_remove_timer ts1_def)
  show "armed.deadline ts' x = (if x = t then None else armed.deadline ts x)" for x
    using running_remove_effect(3) [OF q1] dl by (simp add: e det deadline_upd_flags)
  show rl: "os_timer_ready_list ts' = remove1 t (os_timer_ready_list ts)" by (simp add: e det ts1_def)
  show p: "\<not> tm_paused (timer_of ts' t)" "\<not> tm_active (timer_of ts' t)"
    by (simp_all add: e det running_remove_timer ts1_def)
  show "timers_ok ts'"
  proof (rule timers_ok_one [OF ok os])
    show "run_ok ts'" using run_ok_remove(1) [OF ok1] by (simp add: e det run_ok_upd_flags)
    show "timer_flags_ok t ts'" using run_ok_remove(2) [OF ok1, of t] d
      by (auto simp: timer_flags_ok_def e det running_remove_timer ts1_def)
    show "set (os_timer_running_list ts') - {t} = set (os_timer_running_list ts) - {t}"
      using run_ok_remove(2) [OF ok1, of t] by (auto simp: e det ts1_def)
  qed (use d(4) in \<open>auto simp: rl\<close>)
qed

section \<open>What a tick does\<close>

lemma take_due_spec:
  assumes "distinct l" "take_due e l d = (D, l', d')"
  shows "l = D @ l' \<and> (\<forall>t \<in> set D. \<exists>n. due l d t = Some n \<and> n \<le> unat e) \<and>
    (\<forall>t \<in> set l'. \<exists>n. due l d t = Some n \<and> unat e < n \<and> due l' d' t = Some (n - unat e)) \<and>
    (\<forall>x. x \<notin> set l' \<longrightarrow> d' x = d x) \<and> delta_total l' d' \<le> delta_total l d"
  using assms
proof (induction e l d arbitrary: D l' d' rule: take_due.induct)
  case (2 e t l d)
  show ?case
  proof (cases "d t > e")
    case True
    then have r: "D = []" "l' = t # l" "d' = d(t := d t - e)" using "2.prems" by auto
    have lt: "unat (d t - e) = unat (d t) - unat e" "unat e < unat (d t)"
      using True by (simp_all add: unat_sub_le word_less_nat_alt word_le_nat_alt)
    have "\<exists>n. due (t # l) d x = Some n \<and> unat e < n \<and> due l' d' x = Some (n - unat e)" if x: "x \<in> set (t # l)" for x
    proof (cases "x = t")
      case True
      then show ?thesis using lt r by simp
    next
      case False
      then obtain n where n: "due l d x = Some n" using x due_None_iff [of l d x] by auto
      have "due l d' x = Some n" using n "2.prems"(1) by (simp add: r)
      then show ?thesis using n lt r False by simp
    qed
    then have "\<forall>x \<in> set l'. \<exists>n. due (t # l) d x = Some n \<and> unat e < n \<and> due l' d' x = Some (n - unat e)"
      unfolding r by blast
    moreover have "delta_total l' d' \<le> delta_total (t # l) d" using r lt "2.prems"(1) by simp
    moreover have "t # l = D @ l'" "\<forall>x \<in> set D. \<exists>n. due (t # l) d x = Some n \<and> n \<le> unat e"
      "\<forall>x. x \<notin> set l' \<longrightarrow> d' x = d x" by (auto simp: r)
    ultimately show ?thesis by blast
  next
    case False
    then obtain D0 where r: "take_due (e - d t) l d = (D0, l', d')" "D = t # D0"
      using "2.prems" by (auto split: prod.splits)
    have sub: "unat (e - d t) = unat e - unat (d t)" "unat (d t) \<le> unat e"
      using False by (simp_all add: unat_sub_le word_less_nat_alt word_le_nat_alt)
    note ih = "2.IH" [OF False _ r(1)]
    have i: "l = D0 @ l'" "\<And>x. x \<in> set D0 \<Longrightarrow> \<exists>n. due l d x = Some n \<and> n \<le> unat (e - d t)"
      "\<And>x. x \<in> set l' \<Longrightarrow> \<exists>n. due l d x = Some n \<and> unat (e - d t) < n \<and> due l' d' x = Some (n - unat (e - d t))"
      "\<And>x. x \<notin> set l' \<Longrightarrow> d' x = d x" "delta_total l' d' \<le> delta_total l d"
      using ih "2.prems"(1) by auto
    have ne: "t \<notin> set D0" "t \<notin> set l'" using i(1) "2.prems"(1) by auto
    have "\<exists>n. due (t # l) d x = Some n \<and> n \<le> unat e" if "x \<in> set D" for x
      using i(2) [of x] that r(2) sub by (cases "x = t") auto
    moreover have "\<exists>n. due (t # l) d x = Some n \<and> unat e < n \<and> due l' d' x = Some (n - unat e)" if "x \<in> set l'" for x
      using i(3) [OF that] that ne sub by fastforce
    ultimately show ?thesis using r(2) i(1,4,5) by auto
  qed
qed simp


definition periodic :: "timers \<Rightarrow> nat \<Rightarrow> bool" where
  "periodic ts t \<longleftrightarrow> tm_mode (timer_of ts t) = OS_TIMER_MODE_PERIODIC"

definition expired :: "os_timer_t \<Rightarrow> os_timer_t" where
  "expired x = x\<lparr>tm_active := (tm_active x \<and> tm_mode x = OS_TIMER_MODE_PERIODIC), tm_queued := True\<rparr>"

lemma expire_step:
  assumes ok: "run_ok ts" "t \<notin> set (os_timer_running_list ts)" "tm_period_ticks (timer_of ts t) \<noteq> OS_WAIT_FOREVER"
    and r: "expire t (ts, w) = (ts', w')"
  shows "run_ok ts'"
    "set (os_timer_running_list ts') = set (os_timer_running_list ts) \<union> {x \<in> {t}. periodic ts x}"
    "armed.deadline ts' x = (if x = t \<and> periodic ts t then Some (unat (tm_period_ticks (timer_of ts t)))
       else armed.deadline ts x)"
    "os_timer_ready_list ts' = os_timer_ready_list ts @ filter (\<lambda>x. \<not> tm_queued (timer_of ts x)) [t]"
    "w' \<longleftrightarrow> w \<or> \<not> tm_queued (timer_of ts t)"
    "strip (timer_of ts' x) = (if x = t then strip (expired (timer_of ts t)) else strip (timer_of ts x))"
    "pool_of ts' = pool_of ts" "entry_pool ts' = entry_pool ts" "os_timer_task_tcb ts' = os_timer_task_tcb ts"
    "x \<noteq> t \<Longrightarrow> x \<notin> set (os_timer_running_list ts) \<Longrightarrow> remaining ts' x = remaining ts x"
proof -
  define f where "f = (\<lambda>x :: os_timer_t. if periodic ts t then x\<lparr>tm_remaining_ticks := tm_period_ticks x\<rparr>
     else x\<lparr>tm_remaining_ticks := 0, tm_active := False\<rparr>)"
  define tr where "tr = upd_timer t f ts"
  define ts1 where "ts1 = (if periodic ts t then os_timer_running_insert t tr else tr)"
  have q: "tm_queued (timer_of ts1 t) = tm_queued (timer_of ts t)"
    by (simp add: ts1_def tr_def f_def running_insert_timer)
  have e: "(ts', w') = (if \<not> tm_queued (timer_of ts t)
        then (ready_push t (upd_timer t (\<lambda>x. x\<lparr>tm_queued := True\<rparr>) ts1), True) else (ts1, w))"
    using r q by (auto simp: expire_def Let_def ts1_def tr_def f_def periodic_def split: if_splits)
  have nf: "tm_remaining_ticks (f (timer_of ts t)) \<noteq> OS_WAIT_FOREVER"
    using ok(3) by (simp add: f_def OS_WAIT_FOREVER_def)
  note set1 = run_ok_set [where f = f, OF ok(1,2) nf]
  have nt: "t \<notin> set (os_timer_running_list tr)" using ok(2) by (simp add: tr_def)
  note ins = run_ok_insert [OF set1(1) nt [unfolded tr_def], folded tr_def]
  have k: "run_ok ts1" "set (os_timer_running_list ts1) = set (os_timer_running_list ts) \<union> {x \<in> {t}. periodic ts x}"
    using ins(1,2) set1(1) by (auto simp: ts1_def tr_def)
  have d: "armed.deadline ts1 x = (if x = t \<and> periodic ts t then Some (unat (tm_period_ticks (timer_of ts t)))
       else armed.deadline ts x)" for x
    using ins(3) [of x] set1(2) [of x]
    by (auto simp: ts1_def tr_def f_def remaining_upd_timer)
  have rest: "pool_of ts1 = pool_of ts" "entry_pool ts1 = entry_pool ts" "os_timer_task_tcb ts1 = os_timer_task_tcb ts"
    "os_timer_ready_list ts1 = os_timer_ready_list ts"
    by (simp_all add: ts1_def tr_def)
  have tm: "strip ((timer_of ts1 x)\<lparr>tm_queued := tm_queued (timer_of ts x) \<or> x = t\<rparr>) =
      (if x = t then strip (expired (timer_of ts t)) else strip (timer_of ts x))" for x
    by (auto simp: ts1_def tr_def f_def running_insert_timer strip_def expired_def periodic_def)
  show "run_ok ts'" using e k(1) by (auto simp: run_ok_upd_flags split: if_splits)
  show "set (os_timer_running_list ts') = set (os_timer_running_list ts) \<union> {x \<in> {t}. periodic ts x}"
    using e k(2) by (auto simp: ready_push_def split: if_splits)
  show "armed.deadline ts' x = (if x = t \<and> periodic ts t then Some (unat (tm_period_ticks (timer_of ts t)))
       else armed.deadline ts x)" for x
    using e d [of x] by (auto simp: deadline_upd_flags split: if_splits)
  show "os_timer_ready_list ts' = os_timer_ready_list ts @ filter (\<lambda>x. \<not> tm_queued (timer_of ts x)) [t]"
    "w' \<longleftrightarrow> w \<or> \<not> tm_queued (timer_of ts t)"
    "pool_of ts' = pool_of ts" "entry_pool ts' = entry_pool ts" "os_timer_task_tcb ts' = os_timer_task_tcb ts"
    using e rest by (auto simp: ready_push_def split: if_splits)
  have re: "remaining ts' x = remaining ts1 x" for x
    using e by (auto simp: ready_push_def remaining_def split: if_splits)
  show "x \<noteq> t \<Longrightarrow> x \<notin> set (os_timer_running_list ts) \<Longrightarrow> remaining ts' x = remaining ts x" for x
    unfolding re using ins(4) [of x] by (auto simp: ts1_def tr_def remaining_upd_timer)
  have same: "tm_queued (timer_of ts1 x) = tm_queued (timer_of ts x)" for x
    by (simp add: ts1_def tr_def f_def running_insert_timer)
  have "timer_of ts' x = (timer_of ts1 x)\<lparr>tm_queued := tm_queued (timer_of ts x) \<or> x = t\<rparr>" for x
    using e same [of x] by (cases "timer_of ts1 x") (auto simp: ready_push_def split: if_splits)
  then show "strip (timer_of ts' x) = (if x = t then strip (expired (timer_of ts t)) else strip (timer_of ts x))" for x
    using tm by simp
qed

lemma expire_fold:
  assumes "run_ok ts" "distinct D" "set D \<inter> set (os_timer_running_list ts) = {}"
    "\<forall>t \<in> set D. tm_period_ticks (timer_of ts t) \<noteq> OS_WAIT_FOREVER" "fold expire D (ts, w) = (ts', w')"
  shows "run_ok ts' \<and>
    set (os_timer_running_list ts') = set (os_timer_running_list ts) \<union> {x \<in> set D. periodic ts x} \<and>
    (\<forall>x. armed.deadline ts' x = (if x \<in> set D \<and> periodic ts x then Some (unat (tm_period_ticks (timer_of ts x)))
       else armed.deadline ts x)) \<and>
    os_timer_ready_list ts' = os_timer_ready_list ts @ filter (\<lambda>x. \<not> tm_queued (timer_of ts x)) D \<and>
    (w' \<longleftrightarrow> w \<or> (\<exists>x \<in> set D. \<not> tm_queued (timer_of ts x))) \<and>
    (\<forall>x. strip (timer_of ts' x) = (if x \<in> set D then strip (expired (timer_of ts x)) else strip (timer_of ts x))) \<and>
    pool_of ts' = pool_of ts \<and> entry_pool ts' = entry_pool ts \<and> os_timer_task_tcb ts' = os_timer_task_tcb ts \<and>
    (\<forall>x. x \<notin> set D \<longrightarrow> x \<notin> set (os_timer_running_list ts) \<longrightarrow> remaining ts' x = remaining ts x)"
  using assms
proof (induction D arbitrary: ts w)
  case (Cons t D)
  obtain ts1 w1 where s: "expire t (ts, w) = (ts1, w1)" by (cases "expire t (ts, w)")
  have nt: "t \<notin> set (os_timer_running_list ts)" "tm_period_ticks (timer_of ts t) \<noteq> OS_WAIT_FOREVER" "t \<notin> set D"
    "distinct D" using Cons.prems by auto
  note st = expire_step [OF Cons.prems(1) nt(1,2) s]
  have keep: "periodic ts1 x = periodic ts x" "tm_queued (timer_of ts1 x) = tm_queued (timer_of ts x)"
    "tm_period_ticks (timer_of ts1 x) = tm_period_ticks (timer_of ts x)"
    "strip (timer_of ts1 x) = strip (timer_of ts x)" "strip (expired (timer_of ts1 x)) = strip (expired (timer_of ts x))"
    if "x \<in> set D" for x
  proof -
    have sx: "strip (timer_of ts1 x) = strip (timer_of ts x)" using st(6) [of x] that nt(3) by auto
    then show "strip (timer_of ts1 x) = strip (timer_of ts x)" .
    show "periodic ts1 x = periodic ts x" "tm_queued (timer_of ts1 x) = tm_queued (timer_of ts x)"
      "tm_period_ticks (timer_of ts1 x) = tm_period_ticks (timer_of ts x)"
      using strip_fields [OF sx] by (simp_all add: periodic_def)
    show "strip (expired (timer_of ts1 x)) = strip (expired (timer_of ts x))"
      using sx by (cases "timer_of ts1 x"; cases "timer_of ts x") (simp add: strip_def expired_def)
  qed
  have dis: "set D \<inter> set (os_timer_running_list ts1) = {}" using Cons.prems(3) st(2) nt(3) by auto
  have pf: "\<forall>x \<in> set D. tm_period_ticks (timer_of ts1 x) \<noteq> OS_WAIT_FOREVER" using Cons.prems(4) keep by simp
  have fo: "fold expire D (ts1, w1) = (ts', w')" using Cons.prems(5) s by simp
  note ih = Cons.IH [OF st(1) nt(4) dis pf fo]
  have fl: "filter (\<lambda>x. \<not> tm_queued (timer_of ts1 x)) D = filter (\<lambda>x. \<not> tm_queued (timer_of ts x)) D"
    using keep by (intro filter_cong) auto
  have "set (os_timer_running_list ts') = set (os_timer_running_list ts) \<union> {x \<in> set (t # D). periodic ts x}"
    using ih st(2) keep by auto
  moreover have "armed.deadline ts' x = (if x \<in> set (t # D) \<and> periodic ts x
      then Some (unat (tm_period_ticks (timer_of ts x))) else armed.deadline ts x)" for x
    using ih st(3) [of x] keep [of x] nt(3) by (cases "x \<in> set D") auto
  moreover have "os_timer_ready_list ts' =
      os_timer_ready_list ts @ filter (\<lambda>x. \<not> tm_queued (timer_of ts x)) (t # D)"
    using ih st(4) fl by simp
  moreover have "w' \<longleftrightarrow> w \<or> (\<exists>x \<in> set (t # D). \<not> tm_queued (timer_of ts x))" using ih st(5) keep by auto
  moreover have "strip (timer_of ts' x) =
      (if x \<in> set (t # D) then strip (expired (timer_of ts x)) else strip (timer_of ts x))" for x
    using ih st(6) [of x] keep [of x] nt(3) by (cases "x \<in> set D") auto
  moreover have "remaining ts' x = remaining ts x"
    if "x \<notin> set (t # D)" "x \<notin> set (os_timer_running_list ts)" for x
    using ih st(10) [of x] that st(2) by auto
  ultimately show ?case using ih st(7-9) by auto
qed auto


definition due_within :: "u32 \<Rightarrow> timers \<Rightarrow> nat \<Rightarrow> bool" where
  "due_within e ts t \<longleftrightarrow> (case armed.deadline ts t of None \<Rightarrow> False | Some n \<Rightarrow> n \<le> unat e)"

lemma tick_effect:
  assumes ok: "timers_ok ts" and e: "0 < e" and r: "os_timer_tick_process e (ts, s) = (ts', s')"
  shows "timers_ok ts'"
    and "armed.deadline ts' x = (case armed.deadline ts x of None \<Rightarrow> None
         | Some n \<Rightarrow> if unat e < n then Some (n - unat e)
                    else if periodic ts x then Some (unat (tm_period_ticks (timer_of ts x))) else None)"
    and "os_timer_ready_list ts' = os_timer_ready_list ts @
         filter (\<lambda>t. due_within e ts t \<and> \<not> tm_queued (timer_of ts t)) (os_timer_running_list ts)"
    and "strip (timer_of ts' x) = (if due_within e ts x then strip (expired (timer_of ts x)) else strip (timer_of ts x))"
    and "pool_of ts' = pool_of ts" "entry_pool ts' = entry_pool ts" "os_timer_task_tcb ts' = os_timer_task_tcb ts"
    and "s' = (if \<exists>t. due_within e ts t \<and> \<not> tm_queued (timer_of ts t)
               then os_task_wake_locked (os_timer_task_tcb ts) s else s)"
    and "x \<notin> set (os_timer_running_list ts) \<Longrightarrow> remaining ts' x = remaining ts x"
proof -
  let ?l = "os_timer_running_list ts" and ?d = "remaining ts"
  obtain D l' d' where t: "take_due e ?l ?d = (D, l', d')" by (cases "take_due e ?l ?d")
  define ts1 where "ts1 = set_remaining d' ts\<lparr>os_timer_running_list := l'\<rparr>"
  have t1: "os_timer_running_list ts1 = l'" "os_timer_ready_list ts1 = os_timer_ready_list ts" "remaining ts1 = d'"
    "pool_of ts1 = pool_of ts" "entry_pool ts1 = entry_pool ts" "os_timer_task_tcb ts1 = os_timer_task_tcb ts"
    by (simp_all add: ts1_def)
  obtain ts2 w where f: "fold expire D (ts1, False) = (ts2, w)" by (cases "fold expire D (ts1, False)")
  have res: "ts' = ts2" "s' = (if w then os_task_wake_locked (os_timer_task_tcb ts2) s else s)"
    using r e t f by (auto simp: os_timer_tick_process_def ts1_def split: if_splits)
  note d = timers_okD [OF ok]
  note sp = take_due_spec [OF d(3) t]
  have split: "?l = D @ l'" "distinct D" "distinct l'" "set D \<inter> set l' = {}" using sp d(3) by auto
  have dl: "armed.deadline ts y = due ?l ?d y" "armed.deadline ts1 y = due l' d' y" for y
    by (simp_all add: armed.deadline_def t1)
  have dw: "due_within e ts y \<longleftrightarrow> y \<in> set D" for y
  proof (cases "y \<in> set ?l")
    case True
    then show ?thesis using sp split by (fastforce simp: due_within_def dl)
  next
    case False
    then have "due ?l ?d y = None" by (simp add: due_None_iff)
    then show ?thesis using False split(1) by (simp add: due_within_def dl)
  qed
  have tot: "delta_total l' d' < 4294967295"
    using sp d(2) le_less_trans by (fastforce simp: armed.queue_ok_def)
  then have q1: "armed.queue_ok ts1" using split(3) by (simp add: armed.queue_ok_def t1)
  have "d' y \<noteq> OS_WAIT_FOREVER" for y
    using armed_not_forever [OF q1, of y] sp timer_okD(5) [OF ok, of y] by (cases "y \<in> set l'") (auto simp: t1)
  then have ro: "run_ok ts1" using q1 by (simp add: run_ok_def t1)
  have same: "periodic ts1 y = periodic ts y" "strip (timer_of ts1 y) = strip (timer_of ts y)"
    "strip (expired (timer_of ts1 y)) = strip (expired (timer_of ts y))"
    "tm_queued (timer_of ts1 y) = tm_queued (timer_of ts y)"
    "tm_period_ticks (timer_of ts1 y) = tm_period_ticks (timer_of ts y)" for y
    by (simp_all add: ts1_def periodic_def strip_def expired_def)
  have pf: "\<forall>y \<in> set D. tm_period_ticks (timer_of ts1 y) \<noteq> OS_WAIT_FOREVER"
    using timer_okD(4) [OF ok] by (simp add: same)
  have dj: "set D \<inter> set (os_timer_running_list ts1) = {}" using split(4) by (simp add: t1)
  note ex = expire_fold [OF ro split(2) dj pf f]
  have run: "set (os_timer_running_list ts') = set l' \<union> {y \<in> set D. periodic ts y}"
    using ex by (simp add: res(1) same t1)
  have rest: "filter (\<lambda>y. due_within e ts y \<and> \<not> tm_queued (timer_of ts y)) ?l = filter (\<lambda>y. \<not> tm_queued (timer_of ts y)) D"
  proof -
    have "filter (\<lambda>y. due_within e ts y \<and> \<not> tm_queued (timer_of ts y)) l' = []"
      using split(4) dw by (auto simp: filter_empty_conv)
    moreover have "filter (\<lambda>y. due_within e ts y \<and> \<not> tm_queued (timer_of ts y)) D = filter (\<lambda>y. \<not> tm_queued (timer_of ts y)) D"
      using dw by (intro filter_cong) auto
    ultimately show ?thesis by (simp add: split(1))
  qed
  show "remaining ts' x = remaining ts x" if "x \<notin> set ?l" for x
    using ex sp split(1) that by (simp add: res(1) t1)
  show rl: "os_timer_ready_list ts' = os_timer_ready_list ts @
         filter (\<lambda>t. due_within e ts t \<and> \<not> tm_queued (timer_of ts t)) ?l"
    using ex rest by (simp add: res(1) t1 same)
  show st: "strip (timer_of ts' x) = (if due_within e ts x then strip (expired (timer_of ts x)) else strip (timer_of ts x))" for x
    using ex by (simp add: res(1) same dw)
  show "pool_of ts' = pool_of ts" "entry_pool ts' = entry_pool ts" "os_timer_task_tcb ts' = os_timer_task_tcb ts"
    using ex by (simp_all add: res(1) t1)
  show "s' = (if \<exists>t. due_within e ts t \<and> \<not> tm_queued (timer_of ts t)
               then os_task_wake_locked (os_timer_task_tcb ts) s else s)"
    using ex by (auto simp: res dw t1 same)
  show "armed.deadline ts' x = (case armed.deadline ts x of None \<Rightarrow> None
         | Some n \<Rightarrow> if unat e < n then Some (n - unat e)
                    else if periodic ts x then Some (unat (tm_period_ticks (timer_of ts x))) else None)" for x
  proof (cases "x \<in> set D")
    case True
    then have "due l' d' x = None" using split(4) by (auto simp: due_None_iff)
    then show ?thesis using ex True sp by (auto simp: res(1) same dl)
  next
    case False
    have dx: "armed.deadline ts' x = due l' d' x" using ex False by (simp add: res(1) dl)
    show ?thesis
    proof (cases "x \<in> set l'")
      case True
      then show ?thesis using sp by (auto simp: dx dl)
    next
      case F2: False
      then have "due l' d' x = None" "due ?l ?d x = None" using False split(1) by (simp_all add: due_None_iff)
      then show ?thesis by (simp add: dx dl)
    qed
  qed
  have "timer_flags_ok y ts'" for y
  proof -
    have fl: "timer_flags_ok y ts" using ok by (simp add: timers_ok_def)
    show ?thesis
    proof (cases "y \<in> set D")
      case True
      then have "strip (timer_of ts' y) = strip (expired (timer_of ts y))" using st dw by simp
      note sf = strip_fields [OF this]
      have "tm_active (timer_of ts y)" using fl True split(1) by (auto simp: timer_flags_ok_def)
      then show ?thesis using fl sf run rl dw True split(1,4)
        by (auto simp: timer_flags_ok_def expired_def periodic_def)
    next
      case False
      then have "strip (timer_of ts' y) = strip (timer_of ts y)" using st dw by simp
      note sf = strip_fields [OF this]
      show ?thesis using fl sf run rl dw False split(1) by (auto simp: timer_flags_ok_def)
    qed
  qed
  moreover have "distinct (os_timer_ready_list ts')"
    using d(3,4) timer_okD(2) [OF ok] by (auto simp: rl)
  moreover have "run_ok ts'" using ex by (simp add: res(1))
  ultimately show "timers_ok ts'" by (simp add: timers_ok_def)
qed

end
