(* ===== verification/TimerPool.thy ===== *)
theory TimerPool
  imports Timer "HOL-Library.Multiset"
begin

text \<open>
  Pools of deferred calls, \<^verbatim>\<open>os_timer_submit\<close> and the timer task's fetch. The invariant \<open>pools_ok\<close> says
  where every entry of every pool is: on the pool's free list, counting down on the running list, or
  waiting on the ready list for its call, and in exactly one of the three. \<open>service_ok\<close> is the whole
  invariant of the timer service, and every call and every tick keeps it.
\<close>

definition pool_entries :: "nat \<Rightarrow> timers \<Rightarrow> nat list" where
  "pool_entries p ts = take (pl_count (pool_of ts p)) (the (pl_entries (pool_of ts p)))"

definition in_flight :: "nat \<Rightarrow> timers \<Rightarrow> bool" where
  "in_flight t ts \<longleftrightarrow> tm_active (timer_of ts t) \<or> tm_queued (timer_of ts t)"

definition idle_entry_ok :: "nat \<Rightarrow> timers \<Rightarrow> bool" where
  "idle_entry_ok t ts \<longleftrightarrow>
     tm_self (timer_of ts t) = 0 \<and> \<not> in_flight t ts \<and> \<not> tm_paused (timer_of ts t)"

definition entry_ok :: "nat \<Rightarrow> nat \<Rightarrow> timers \<Rightarrow> bool" where
  "entry_ok p t ts \<longleftrightarrow>
     entry_pool ts t = p \<and> tm_mode (timer_of ts t) = OS_TIMER_MODE_SUBMIT \<and> \<not> tm_paused (timer_of ts t) \<and>
     \<not> (tm_active (timer_of ts t) \<and> tm_queued (timer_of ts t)) \<and>
     tm_callback (timer_of ts t) = pl_callback (pool_of ts p) \<and>
     (t \<in> set (pl_free_list (pool_of ts p)) \<longleftrightarrow> \<not> in_flight t ts)"

definition pool_ok :: "nat \<Rightarrow> timers \<Rightarrow> bool" where
  "pool_ok p ts \<longleftrightarrow>
     distinct (pool_entries p ts) \<and> pool_entries p ts \<noteq> [] \<and> 0 \<notin> set (pool_entries p ts) \<and>
     (if pl_ready (pool_of ts p)
      then distinct (pl_free_list (pool_of ts p)) \<and>
        set (pl_free_list (pool_of ts p)) \<subseteq> set (pool_entries p ts) \<and>
        (\<forall>t \<in> set (pool_entries p ts). entry_ok p t ts)
      else \<forall>t \<in> set (pool_entries p ts). idle_entry_ok t ts)"

definition pools_ok :: "timers \<Rightarrow> bool" where
  "pools_ok ts \<longleftrightarrow>
     (\<forall>p. OS_TIMER_POOL_VALID p ts \<longrightarrow> pool_ok p ts) \<and>
     (\<forall>p q. OS_TIMER_POOL_VALID p ts \<longrightarrow> OS_TIMER_POOL_VALID q ts \<longrightarrow> p \<noteq> q \<longrightarrow>
        set (pool_entries p ts) \<inter> set (pool_entries q ts) = {}) \<and>
     (\<forall>t. tm_mode (timer_of ts t) = OS_TIMER_MODE_SUBMIT \<longrightarrow>
        OS_TIMER_POOL_VALID (entry_pool ts t) ts \<and> pl_ready (pool_of ts (entry_pool ts t)) \<and>
        t \<in> set (pool_entries (entry_pool ts t) ts))"

definition service_ok :: "timers \<Rightarrow> bool" where
  "service_ok ts \<longleftrightarrow> timers_ok ts \<and> pools_ok ts"

section \<open>Calls on the user's own timers\<close>

lemma pool_valid_cong:
  "pool_of ts = pool_of ts' \<Longrightarrow> OS_TIMER_POOL_VALID p ts = OS_TIMER_POOL_VALID p ts'"
  "pool_of ts = pool_of ts' \<Longrightarrow> pool_entries p ts = pool_entries p ts'"
  by (simp_all add: OS_TIMER_POOL_VALID_def pool_entries_def)

text \<open>A user timer is no entry of a pool.\<close>

lemma user_timer_no_entry:
  assumes "pools_ok ts" "OS_TIMER_VALID t ts" "OS_TIMER_POOL_VALID p ts"
  shows "t \<notin> set (pool_entries p ts)"
  using assms by (auto simp: pools_ok_def pool_ok_def entry_ok_def idle_entry_ok_def OS_TIMER_VALID_def split: if_splits)

text \<open>The calls of a pool that have been submitted and not yet made: callback, context and value.\<close>

definition call_of :: "os_timer_t \<Rightarrow> nat \<times> nat \<times> u32" where
  "call_of x = (tm_callback x, tm_context x, tm_value x)"

definition pending :: "nat \<Rightarrow> timers \<Rightarrow> (nat \<times> nat \<times> u32) multiset" where
  "pending p ts = image_mset (\<lambda>t. call_of (timer_of ts t)) (mset_set {t \<in> set (pool_entries p ts). in_flight t ts})"

text \<open>Steps that leave the pools, and every pool entry's place and call, as they are.\<close>

definition entry_same :: "nat \<Rightarrow> timers \<Rightarrow> timers \<Rightarrow> bool" where
  "entry_same t ts ts' \<longleftrightarrow>
     tm_paused (timer_of ts' t) = tm_paused (timer_of ts t) \<and> in_flight t ts' = in_flight t ts \<and>
     call_of (timer_of ts' t) = call_of (timer_of ts t) \<and>
     (tm_active (timer_of ts' t) \<and> tm_queued (timer_of ts' t) \<longrightarrow>
      tm_active (timer_of ts t) \<and> tm_queued (timer_of ts t))"

definition places_kept :: "timers \<Rightarrow> timers \<Rightarrow> bool" where
  "places_kept ts ts' \<longleftrightarrow>
     pool_of ts' = pool_of ts \<and> entry_pool ts' = entry_pool ts \<and>
     (\<forall>t. tm_mode (timer_of ts' t) = tm_mode (timer_of ts t) \<and> tm_self (timer_of ts' t) = tm_self (timer_of ts t)) \<and>
     (\<forall>p t. OS_TIMER_POOL_VALID p ts \<longrightarrow> t \<in> set (pool_entries p ts) \<longrightarrow> entry_same t ts ts')"

lemma places_kept_ok:
  assumes ok: "pools_ok ts" and k: "places_kept ts ts'"
  shows "pools_ok ts'" "OS_TIMER_POOL_VALID p ts \<Longrightarrow> pending p ts' = pending p ts"
    "OS_TIMER_POOL_VALID p ts' = OS_TIMER_POOL_VALID p ts" "pool_entries p ts' = pool_entries p ts"
proof -
  have p: "pool_of ts' = pool_of ts" "entry_pool ts' = entry_pool ts" using k by (simp_all add: places_kept_def)
  have m: "tm_mode (timer_of ts' t) = tm_mode (timer_of ts t) \<and> tm_self (timer_of ts' t) = tm_self (timer_of ts t)" for t
    using k by (simp add: places_kept_def)
  note v = pool_valid_cong [OF p(1)]
  have e: "entry_same t ts ts'" if "OS_TIMER_POOL_VALID q ts" "t \<in> set (pool_entries q ts)" for q t
    using k that by (simp add: places_kept_def)
  have "pool_ok q ts'" if q: "OS_TIMER_POOL_VALID q ts" for q
  proof -
    have k: "pool_ok q ts" using ok q by (simp add: pools_ok_def)
    have "(entry_ok q t ts \<longrightarrow> entry_ok q t ts') \<and> (idle_entry_ok t ts \<longrightarrow> idle_entry_ok t ts')"
      if "t \<in> set (pool_entries q ts)" for t
      using e [OF q that] m [of t] p(1,2) unfolding entry_ok_def idle_entry_ok_def entry_same_def call_of_def by auto
    then show ?thesis using k unfolding pool_ok_def v(2) p(1) by simp
  qed
  then show "pools_ok ts'" using ok p(1,2) m unfolding pools_ok_def v by simp
  show "pending p ts' = pending p ts" if q: "OS_TIMER_POOL_VALID p ts"
  proof -
    have s: "{t \<in> set (pool_entries p ts). in_flight t ts'} = {t \<in> set (pool_entries p ts). in_flight t ts}"
      using e [OF q] by (auto simp: entry_same_def)
    show ?thesis unfolding pending_def v s
      by (rule image_mset_cong) (use e [OF q] in \<open>auto simp: entry_same_def\<close>)
  qed
  show "OS_TIMER_POOL_VALID p ts' = OS_TIMER_POOL_VALID p ts" "pool_entries p ts' = pool_entries p ts"
    by (simp_all add: v)
qed

lemma entry_same_strip: "strip (timer_of ts' x) = strip (timer_of ts x) \<Longrightarrow> entry_same x ts ts'"
  using strip_fields [of "timer_of ts' x" "timer_of ts x"] by (simp add: entry_same_def in_flight_def call_of_def)

lemma one_timer_places:
  assumes "service_ok ts" "OS_TIMER_VALID t ts" "one_timer_step t ts ts'"
  shows "places_kept ts ts'"
proof -
  have s: "strip (timer_of ts' x) = strip (timer_of ts x)" if "x \<noteq> t" for x
    using assms(3) that by (simp add: one_timer_step_def)
  have "tm_mode (timer_of ts' x) = tm_mode (timer_of ts x) \<and> tm_self (timer_of ts' x) = tm_self (timer_of ts x)" for x
    using assms(3) strip_fields [OF s, of x] by (cases "x = t") (simp_all add: one_timer_step_def)
  moreover have "entry_same x ts ts'" if "OS_TIMER_POOL_VALID p ts" "x \<in> set (pool_entries p ts)" for p x
    using user_timer_no_entry [OF _ assms(2) that(1)] that(2) assms(1) entry_same_strip [OF s, of x]
    by (auto simp: service_ok_def)
  ultimately show ?thesis using assms(3) by (auto simp: places_kept_def one_timer_step_def)
qed

lemma places_kept_refl: "places_kept ts ts"
  by (simp add: places_kept_def entry_same_def)

text \<open>What a call or a tick that submits and fetches nothing does to the service.\<close>

definition quiet_step :: "timers \<Rightarrow> timers \<Rightarrow> bool" where
  "quiet_step ts ts' \<longleftrightarrow> service_ok ts' \<and> places_kept ts ts'"

lemma one_timer_quiet:
  "service_ok ts \<Longrightarrow> OS_TIMER_VALID t ts \<Longrightarrow> one_timer_step t ts ts' \<Longrightarrow> timers_ok ts' \<Longrightarrow> quiet_step ts ts'"
  using one_timer_places places_kept_ok(1) by (fastforce simp: quiet_step_def service_ok_def)

lemma quiet_refl: "service_ok ts \<Longrightarrow> quiet_step ts ts"
  by (simp add: quiet_step_def places_kept_refl)

lemma arm_service:
  assumes "service_ok ts" "os_timer_arm t reload ctx v (ts, s) = (e, ts', s')"
  shows "quiet_step ts ts'"
proof (cases "OS_TIMER_VALID t ts \<and> tm_callback (timer_of ts t) \<noteq> 0 \<and> tm_period_ticks (timer_of ts t) \<noteq> 0")
  case True
  have ok: "timers_ok ts" using assms(1) by (simp add: service_ok_def)
  note eff = arm_effect [OF ok _ _ _ assms(2)]
  have "os_timer_task_tcb ts' = os_timer_task_tcb ts"
    using assms(2) True by (auto simp: os_timer_arm_def arm_prepare_eq)
  then have "one_timer_step t ts ts'" using eff(5-9) True by (simp add: one_timer_step_def strip_def)
  then show ?thesis using one_timer_quiet [OF assms(1)] eff(1) True by blast
next
  case False
  then have "ts' = ts" using assms(2) by (auto simp: os_timer_arm_def)
  then show ?thesis using assms(1) by (simp add: quiet_refl)
qed

lemma pause_service: "service_ok ts \<Longrightarrow> os_timer_pause t ts = (e, ts') \<Longrightarrow> quiet_step ts ts'"
proof (cases "OS_TIMER_VALID t ts \<and> tm_active (timer_of ts t)")
  case True
  assume s: "service_ok ts" and r: "os_timer_pause t ts = (e, ts')"
  have ok: "timers_ok ts" using s by (simp add: service_ok_def)
  show ?thesis using one_timer_quiet [OF s _ pause_effect(3) [OF ok _ _ r] pause_effect(1) [OF ok _ _ r]] True by simp
qed (auto simp: os_timer_pause_def quiet_refl split: if_splits)

lemma stop_service: "service_ok ts \<Longrightarrow> os_timer_stop t ts = (e, ts') \<Longrightarrow> quiet_step ts ts'"
proof (cases "OS_TIMER_VALID t ts")
  case True
  assume s: "service_ok ts" and r: "os_timer_stop t ts = (e, ts')"
  have ok: "timers_ok ts" using s by (simp add: service_ok_def)
  show ?thesis using one_timer_quiet [OF s True stop_effect(3) [OF ok True r] stop_effect(1) [OF ok True r]] .
qed (auto simp: os_timer_stop_def quiet_refl split: if_splits)

lemma set_field_service:
  assumes s: "service_ok ts" and v: "OS_TIMER_VALID t ts"
    and f: "\<And>x. tm_remaining_ticks (f x) = tm_remaining_ticks x \<and> tm_active (f x) = tm_active x \<and>
      tm_paused (f x) = tm_paused x \<and> tm_queued (f x) = tm_queued x \<and> tm_mode (f x) = tm_mode x \<and>
      tm_self (f x) = tm_self x"
    and p: "tm_period_ticks (f (timer_of ts t)) \<noteq> OS_WAIT_FOREVER"
  shows "quiet_step ts (upd_timer t f ts)"
proof (rule one_timer_quiet [OF s v])
  have ok: "timers_ok ts" using s by (simp add: service_ok_def)
  show os: "one_timer_step t ts (upd_timer t f ts)" using f by (simp add: one_timer_step_def)
  have fl: "timer_flags_ok t ts" using ok by (simp add: timers_ok_def)
  show "timers_ok (upd_timer t f ts)"
    using timers_okD [OF ok] fl f p
    by (intro timers_ok_one [OF ok os]) (auto simp: run_ok_upd_flags timer_flags_ok_def)
qed

lemma OS_TICKS_FROM_MS_bound: "OS_TICKS_FROM_MS hz ms \<noteq> OS_WAIT_FOREVER"
proof -
  let ?n = "((ucast ms :: 64 word) * ucast hz + 999) div 1000"
  have "ucast ?n \<noteq> OS_WAIT_FOREVER" if "\<not> ?n \<ge> ucast OS_WAIT_FOREVER"
  proof -
    have "unat ?n < 4294967295" using that by (simp add: word_le_nat_alt OS_WAIT_FOREVER_def)
    then have "unat (ucast ?n :: u32) < 4294967295"
      by (simp add: unsigned_ucast_eq take_bit_nat_eq_self)
    then show ?thesis by (simp add: word32_not_forever_iff)
  qed
  then show ?thesis by (auto simp: OS_TICKS_FROM_MS_def Let_def OS_WAIT_FOREVER_def)
qed

lemma field_sets_service:
  assumes "service_ok ts"
  shows "quiet_step ts (snd (os_timer_period_set hz t ms ts))" "quiet_step ts (snd (os_timer_callback_set t cb ts))"
    "quiet_step ts (snd (os_timer_value_set t v ts))"
proof -
  have p: "tm_period_ticks (timer_of ts t) \<noteq> OS_WAIT_FOREVER"
    using assms timer_okD(4) by (simp add: service_ok_def)
  show "quiet_step ts (snd (os_timer_period_set hz t ms ts))"
    using assms set_field_service [OF assms, of t] OS_TICKS_FROM_MS_bound by (simp add: os_timer_period_set_def quiet_refl)
  show "quiet_step ts (snd (os_timer_callback_set t cb ts))"
    using assms set_field_service [OF assms, of t] p by (simp add: os_timer_callback_set_def quiet_refl)
  show "quiet_step ts (snd (os_timer_value_set t v ts))"
    using assms set_field_service [OF assms, of t] p by (simp add: os_timer_value_set_def quiet_refl)
qed

section \<open>A tick\<close>

lemma tick_service:
  assumes s: "service_ok ts" and r: "os_timer_tick_process e (ts, st) = (ts', st')"
  shows "quiet_step ts ts'"
proof (cases "0 < e")
  case True
  have ok: "timers_ok ts" using s by (simp add: service_ok_def)
  note eff = tick_effect [OF ok True r]
  have act: "tm_active (timer_of ts t)" if "due_within e ts t" for t
    using that timer_okD(1) [OF ok, of t] deadline_active [of ts t] by (auto simp: due_within_def split: option.splits)
  have "tm_mode (timer_of ts' x) = tm_mode (timer_of ts x) \<and> tm_self (timer_of ts' x) = tm_self (timer_of ts x)" for x
    using strip_fields [OF eff(4) [of x, unfolded if_distrib [of strip, symmetric]]] by (simp add: expired_def)
  moreover have "entry_same t ts ts'" if "OS_TIMER_POOL_VALID p ts" "t \<in> set (pool_entries p ts)" for p t
  proof -
    have "entry_ok p t ts \<or> idle_entry_ok t ts"
      using s that by (auto simp: service_ok_def pools_ok_def pool_ok_def split: if_splits)
    then show ?thesis
      using strip_fields [OF eff(4) [of t, unfolded if_distrib [of strip, symmetric]]] act [of t]
      by (auto simp: expired_def in_flight_def entry_ok_def idle_entry_ok_def entry_same_def call_of_def)
  qed
  ultimately have k: "places_kept ts ts'" using eff(5,6) by (auto simp: places_kept_def)
  have "pools_ok ts" using s by (simp add: service_ok_def)
  then show ?thesis using places_kept_ok(1) [OF _ k] k eff(1) by (simp add: quiet_step_def service_ok_def)
next
  case False
  then have "ts' = ts" using r by (simp add: os_timer_tick_process_def)
  then show ?thesis using s by (simp add: quiet_refl)
qed


section \<open>Preparing a pool\<close>

definition prepared :: "os_timer_pool_t \<Rightarrow> nat \<Rightarrow> os_timer_t \<Rightarrow> os_timer_t" where
  "prepared pool t x = x\<lparr>tm_self := t, tm_mode := OS_TIMER_MODE_SUBMIT, tm_callback := pl_callback pool,
     tm_active := False, tm_paused := False, tm_queued := False,
     tm_period_ticks := (if pl_delay_ticks pool = 0 then 1 else pl_delay_ticks pool)\<rparr>"

lemma entry_prepare_fold:
  assumes "distinct es"
  shows "timer_of (fold (entry_prepare p) es ts) x =
      (if x \<in> set es then prepared (pool_of ts p) x (timer_of ts x) else timer_of ts x) \<and>
    entry_pool (fold (entry_prepare p) es ts) x = (if x \<in> set es then p else entry_pool ts x) \<and>
    pool_of (fold (entry_prepare p) es ts) =
      (pool_of ts)(p := (pool_of ts p)\<lparr>pl_free_list := pl_free_list (pool_of ts p) @ es\<rparr>) \<and>
    os_timer_running_list (fold (entry_prepare p) es ts) = os_timer_running_list ts \<and>
    os_timer_ready_list (fold (entry_prepare p) es ts) = os_timer_ready_list ts \<and>
    remaining (fold (entry_prepare p) es ts) = remaining ts"
  using assms
proof (induction es arbitrary: ts)
  case (Cons t es)
  let ?ts1 = "entry_prepare p t ts"
  have s: "timer_of ?ts1 y = (if y = t then prepared (pool_of ts p) t (timer_of ts t) else timer_of ts y)"
    "entry_pool ?ts1 y = (if y = t then p else entry_pool ts y)"
    "pool_of ?ts1 y = ((pool_of ts)(p := (pool_of ts p)\<lparr>pl_free_list := pl_free_list (pool_of ts p) @ [t]\<rparr>)) y"
    "os_timer_running_list ?ts1 = os_timer_running_list ts" "os_timer_ready_list ?ts1 = os_timer_ready_list ts"
    "remaining ?ts1 = remaining ts" for y
    by (simp_all add: entry_prepare_def Let_def prepared_def remaining_upd_timer remaining_def fun_upd_idem fun_eq_iff)
  have pq: "prepared (pool_of ?ts1 p) y z = prepared (pool_of ts p) y z" for y z by (simp add: s(3) prepared_def)
  show ?case using Cons.IH [of ?ts1] Cons.prems s pq by (auto simp: fun_eq_iff)
qed simp

lemma prepare_service:
  assumes s: "service_ok ts" and v: "OS_TIMER_POOL_VALID p ts"
  defines "ts' \<equiv> os_timer_pool_prepare_locked p ts"
  shows "service_ok ts'" "pl_ready (pool_of ts' p)"
    "OS_TIMER_POOL_VALID q ts' = OS_TIMER_POOL_VALID q ts" "pool_entries q ts' = pool_entries q ts"
    "OS_TIMER_POOL_VALID q ts \<Longrightarrow> pending q ts' = pending q ts"
    "(pool_of ts' q)\<lparr>pl_free_list := l, pl_ready := b\<rparr> = (pool_of ts q)\<lparr>pl_free_list := l, pl_ready := b\<rparr>"
    "os_timer_ready_list ts' = os_timer_ready_list ts" "armed.deadline ts' x = armed.deadline ts x"
proof -
  have "service_ok ts' \<and> pl_ready (pool_of ts' p) \<and>
    (\<forall>q. OS_TIMER_POOL_VALID q ts' = OS_TIMER_POOL_VALID q ts \<and> pool_entries q ts' = pool_entries q ts \<and>
      (OS_TIMER_POOL_VALID q ts \<longrightarrow> pending q ts' = pending q ts) \<and>
      (pool_of ts' q)\<lparr>pl_free_list := l, pl_ready := b\<rparr> = (pool_of ts q)\<lparr>pl_free_list := l, pl_ready := b\<rparr>) \<and>
    os_timer_ready_list ts' = os_timer_ready_list ts \<and> armed.deadline ts' x = armed.deadline ts x"
  proof (cases "pl_ready (pool_of ts p)")
    case True
    then show ?thesis using s by (simp add: ts'_def os_timer_pool_prepare_locked_def)
  next
    case False
    let ?es = "pool_entries p ts"
    have ok: "timers_ok ts" "pools_ok ts" using s by (simp_all add: service_ok_def)
    have po: "pool_ok p ts" using ok(2) v by (simp add: pools_ok_def)
    have es: "distinct ?es" "?es \<noteq> []" "0 \<notin> set ?es" "\<forall>t \<in> set ?es. idle_entry_ok t ts"
      using po False by (simp_all add: pool_ok_def)
    define ts0 where "ts0 = upd_pool p (\<lambda>x. x\<lparr>pl_free_list := []\<rparr>) ts"
    have ts': "ts' = upd_pool p (\<lambda>x. x\<lparr>pl_ready := True\<rparr>) (fold (entry_prepare p) ?es ts0)"
      using False by (simp add: ts'_def os_timer_pool_prepare_locked_def ts0_def pool_entries_def)
    note fo = entry_prepare_fold [OF es(1), of p ts0]
    have pr: "prepared (pool_of ts0 p) t y = prepared (pool_of ts p) t y" for t y by (simp add: ts0_def prepared_def)
    have tm: "timer_of ts' y = (if y \<in> set ?es then prepared (pool_of ts p) y (timer_of ts y) else timer_of ts y)" for y
      using fo [of y] pr by (simp add: ts' ts0_def)
    have ep: "entry_pool ts' y = (if y \<in> set ?es then p else entry_pool ts y)" for y
      using fo [of y] by (simp add: ts' ts0_def)
    have pl: "pool_of ts' q = (if q = p then (pool_of ts p)\<lparr>pl_free_list := ?es, pl_ready := True\<rparr> else pool_of ts q)" for q
      using fo by (simp add: ts' ts0_def)
    have li: "os_timer_running_list ts' = os_timer_running_list ts" "os_timer_ready_list ts' = os_timer_ready_list ts"
      "remaining ts' = remaining ts"
      using fo by (simp_all add: ts' ts0_def)
    have dl: "armed.deadline ts' x = armed.deadline ts x" by (simp add: armed.deadline_def li)
    have vq: "OS_TIMER_POOL_VALID q ts' = OS_TIMER_POOL_VALID q ts" "pool_entries q ts' = pool_entries q ts" for q
      by (simp_all add: OS_TIMER_POOL_VALID_def pool_entries_def pl)
    have nf: "\<not> in_flight t ts" "\<not> in_flight t ts'" if "t \<in> set ?es" for t
      using es(4) that by (simp_all add: idle_entry_ok_def in_flight_def tm prepared_def)
    have fl: "in_flight t ts' = in_flight t ts" for t
      using nf by (cases "t \<in> set ?es") (simp_all add: in_flight_def tm)
    have dis: "set ?es \<inter> set (pool_entries q ts) = {}" if "OS_TIMER_POOL_VALID q ts" "q \<noteq> p" for q
      using ok(2) v that by (simp add: pools_ok_def)
    have qo: "pool_ok q ts'" if q: "OS_TIMER_POOL_VALID q ts" for q
    proof (cases "q = p")
      case True
      have "entry_ok p t ts'" if "t \<in> set ?es" for t
        using that nf [OF that] by (simp add: entry_ok_def ep tm prepared_def pl)
      then show ?thesis using es by (simp add: pool_ok_def vq True pl)
    next
      case F: False
      have "pool_ok q ts" using ok(2) q by (simp add: pools_ok_def)
      moreover have "(entry_ok q t ts' = entry_ok q t ts) \<and> (idle_entry_ok t ts' = idle_entry_ok t ts)"
        if "t \<in> set (pool_entries q ts)" for t
      proof -
        have "t \<notin> set ?es" using dis [OF q F] that by auto
        then show ?thesis using F by (simp add: entry_ok_def idle_entry_ok_def ep tm pl in_flight_def)
      qed
      ultimately show ?thesis using F by (simp add: pool_ok_def vq pl)
    qed
    have "timer_flags_ok t ts'" for t
    proof -
      have f: "timer_flags_ok t ts" using ok(1) by (simp add: timers_ok_def)
      have dn: "pl_delay_ticks (pool_of ts p) \<noteq> OS_WAIT_FOREVER" using v by (simp add: OS_TIMER_POOL_VALID_def)
      show ?thesis
      proof (cases "t \<in> set ?es")
        case True
        then show ?thesis using f nf(1) [OF True] dn
          by (auto simp: timer_flags_ok_def tm prepared_def li in_flight_def OS_WAIT_FOREVER_def)
      next
        case False
        then show ?thesis using f by (simp add: timer_flags_ok_def tm li)
      qed
    qed
    moreover have "run_ok ts'" using ok(1) by (simp add: timers_ok_def run_ok_def armed.queue_ok_def li)
    ultimately have "timers_ok ts'" using ok(1) by (simp add: timers_ok_def li)
    moreover have "pools_ok ts'"
    proof -
      have "OS_TIMER_POOL_VALID (entry_pool ts' t) ts' \<and> pl_ready (pool_of ts' (entry_pool ts' t)) \<and>
        t \<in> set (pool_entries (entry_pool ts' t) ts')" if "tm_mode (timer_of ts' t) = OS_TIMER_MODE_SUBMIT" for t
      proof (cases "t \<in> set ?es")
        case True
        then show ?thesis using v by (simp add: vq ep pl)
      next
        case F: False
        then have "OS_TIMER_POOL_VALID (entry_pool ts t) ts \<and> pl_ready (pool_of ts (entry_pool ts t)) \<and>
          t \<in> set (pool_entries (entry_pool ts t) ts)" using ok(2) that by (simp add: pools_ok_def tm)
        then show ?thesis using F by (simp add: vq ep pl)
      qed
      then show ?thesis using qo ok(2) by (simp add: pools_ok_def vq)
    qed
    moreover have "pending q ts' = pending q ts" if q: "OS_TIMER_POOL_VALID q ts" for q
    proof -
      have "call_of (timer_of ts' t) = call_of (timer_of ts t)" if t: "in_flight t ts" for t
        using nf(1) [of t] t by (auto simp: tm)
      then show ?thesis unfolding pending_def vq fl by (intro image_mset_cong) auto
    qed
    ultimately show ?thesis using li dl vq by (auto simp: service_ok_def pl)
  qed
  then show "service_ok ts'" "pl_ready (pool_of ts' p)"
    "OS_TIMER_POOL_VALID q ts' = OS_TIMER_POOL_VALID q ts" "pool_entries q ts' = pool_entries q ts"
    "OS_TIMER_POOL_VALID q ts \<Longrightarrow> pending q ts' = pending q ts"
    "(pool_of ts' q)\<lparr>pl_free_list := l, pl_ready := b\<rparr> = (pool_of ts q)\<lparr>pl_free_list := l, pl_ready := b\<rparr>"
    "os_timer_ready_list ts' = os_timer_ready_list ts" "armed.deadline ts' x = armed.deadline ts x"
    by blast+
qed


section \<open>Submitting and fetching\<close>

text \<open>A step of one entry of one pool.\<close>

lemma entry_step:
  assumes ok: "pools_ok ts" and v: "OS_TIMER_POOL_VALID p ts" and rd: "pl_ready (pool_of ts p)"
    and t: "t \<in> set (pool_entries p ts)"
    and pool: "pool_of ts' = (pool_of ts)(p := (pool_of ts p)\<lparr>pl_free_list := fl\<rparr>)"
    and ep: "entry_pool ts' = entry_pool ts"
    and fl: "distinct fl" "set fl \<subseteq> set (pool_entries p ts)" "set fl - {t} = set (pl_free_list (pool_of ts p)) - {t}"
    and others: "\<forall>x. x \<noteq> t \<longrightarrow> strip (timer_of ts' x) = strip (timer_of ts x)"
    and eo: "entry_ok p t ts'" "tm_self (timer_of ts' t) = tm_self (timer_of ts t)"
  shows "pools_ok ts'" "OS_TIMER_POOL_VALID q ts' = OS_TIMER_POOL_VALID q ts" "pool_entries q ts' = pool_entries q ts"
    and "OS_TIMER_POOL_VALID q ts \<Longrightarrow> q \<noteq> p \<Longrightarrow> pending q ts' = pending q ts"
    and "in_flight t ts' \<Longrightarrow> \<not> in_flight t ts \<Longrightarrow>
      pending p ts' = add_mset (call_of (timer_of ts' t)) (pending p ts)"
    and "\<not> in_flight t ts' \<Longrightarrow> in_flight t ts \<Longrightarrow>
      pending p ts = add_mset (call_of (timer_of ts t)) (pending p ts')"
proof -
  note oth = others [rule_format]
  have vq: "OS_TIMER_POOL_VALID q ts' = OS_TIMER_POOL_VALID q ts" "pool_entries q ts' = pool_entries q ts" for q
    by (simp_all add: OS_TIMER_POOL_VALID_def pool_entries_def pool)
  then show "OS_TIMER_POOL_VALID q ts' = OS_TIMER_POOL_VALID q ts" "pool_entries q ts' = pool_entries q ts" by blast+
  have same: "in_flight x ts' = in_flight x ts" "call_of (timer_of ts' x) = call_of (timer_of ts x)" if "x \<noteq> t" for x
    using strip_fields [OF oth [OF that]] by (simp_all add: in_flight_def call_of_def)
  have dis: "t \<notin> set (pool_entries q ts)" if "OS_TIMER_POOL_VALID q ts" "q \<noteq> p" for q
    using ok v t that by (auto simp: pools_ok_def)
  have po: "pool_ok q ts" if "OS_TIMER_POOL_VALID q ts" for q using ok that by (simp add: pools_ok_def)
  have "pool_ok q ts'" if q: "OS_TIMER_POOL_VALID q ts" for q
  proof (cases "q = p")
    case True
    have "entry_ok p x ts'" if x: "x \<in> set (pool_entries p ts)" for x
    proof (cases "x = t")
      case F: False
      have "entry_ok p x ts" using po [OF v] rd x by (simp add: pool_ok_def)
      then show ?thesis using strip_fields [OF oth [OF F]] same [OF F] fl(3) F
        by (auto simp: entry_ok_def ep pool)
    qed (use eo(1) in simp)
    then show ?thesis using po [OF v] rd fl by (simp add: pool_ok_def True vq pool)
  next
    case F: False
    have "(entry_ok q x ts' = entry_ok q x ts) \<and> (idle_entry_ok x ts' = idle_entry_ok x ts)"
      if "x \<in> set (pool_entries q ts)" for x
    proof -
      have "x \<noteq> t" using dis [OF q F] that by auto
      then show ?thesis using strip_fields [OF oth] same F by (simp add: entry_ok_def idle_entry_ok_def ep pool)
    qed
    then show ?thesis using po [OF q] F by (simp add: pool_ok_def vq pool)
  qed
  moreover have "OS_TIMER_POOL_VALID (entry_pool ts' x) ts' \<and> pl_ready (pool_of ts' (entry_pool ts' x)) \<and>
      x \<in> set (pool_entries (entry_pool ts' x) ts')" if "tm_mode (timer_of ts' x) = OS_TIMER_MODE_SUBMIT" for x
  proof (cases "x = t")
    case True
    then show ?thesis using eo(1) v rd t by (simp add: entry_ok_def vq pool)
  next
    case F: False
    then have "tm_mode (timer_of ts x) = OS_TIMER_MODE_SUBMIT" using that strip_fields(3) [OF oth [OF F]] by simp
    then have "OS_TIMER_POOL_VALID (entry_pool ts x) ts \<and> pl_ready (pool_of ts (entry_pool ts x)) \<and>
      x \<in> set (pool_entries (entry_pool ts x) ts)" using ok by (simp add: pools_ok_def)
    then show ?thesis using rd by (simp add: vq ep pool)
  qed
  ultimately show "pools_ok ts'" using ok by (simp add: pools_ok_def vq)
  show "pending q ts' = pending q ts" if q: "OS_TIMER_POOL_VALID q ts" "q \<noteq> p"
  proof -
    have ne: "x \<noteq> t" if "x \<in> set (pool_entries q ts)" for x using dis [OF q] that by auto
    have s: "{x \<in> set (pool_entries q ts). in_flight x ts'} = {x \<in> set (pool_entries q ts). in_flight x ts}"
      using same(1) ne by auto
    show ?thesis unfolding pending_def vq s by (rule image_mset_cong) (use same(2) ne in auto)
  qed
  let ?E = "{x \<in> set (pool_entries p ts). x \<noteq> t \<and> in_flight x ts}"
  have img: "image_mset (\<lambda>x. call_of (timer_of ts' x)) (mset_set ?E) = image_mset (\<lambda>x. call_of (timer_of ts x)) (mset_set ?E)"
    by (rule image_mset_cong) (use same(2) in auto)
  have ins: "mset_set (insert t ?E) = add_mset t (mset_set ?E)" by simp
  show "pending p ts' = add_mset (call_of (timer_of ts' t)) (pending p ts)" if f: "in_flight t ts'" "\<not> in_flight t ts"
  proof -
    have c: "in_flight x ts' \<longleftrightarrow> x = t \<or> in_flight x ts" for x using f same(1) [of x] by (cases "x = t") auto
    have s: "{x \<in> set (pool_entries p ts). in_flight x ts'} = insert t ?E"
      "{x \<in> set (pool_entries p ts). in_flight x ts} = ?E" using f t by (auto simp: c)
    show ?thesis unfolding pending_def vq s ins by (simp add: img)
  qed
  show "pending p ts = add_mset (call_of (timer_of ts t)) (pending p ts')" if f: "\<not> in_flight t ts'" "in_flight t ts"
  proof -
    have c: "in_flight x ts' \<longleftrightarrow> x \<noteq> t \<and> in_flight x ts" for x using f same(1) [of x] by (cases "x = t") auto
    have s: "{x \<in> set (pool_entries p ts). in_flight x ts} = insert t ?E"
      "{x \<in> set (pool_entries p ts). in_flight x ts'} = ?E" using f t by (auto simp: c)
    show ?thesis unfolding pending_def vq s ins by (simp add: img)
  qed
qed

lemma fetch_effect:
  assumes s: "service_ok ts" and r: "os_timer_expired_fetch (ts, st) = (c, ts', st')"
    and l: "os_timer_ready_list ts = t # rest"
  shows "c = Some (call_of (timer_of ts t)) \<and> st' = st \<and> service_ok ts' \<and> os_timer_ready_list ts' = rest \<and>
    armed.deadline ts' x = armed.deadline ts x \<and>
    (\<forall>q. OS_TIMER_POOL_VALID q ts' = OS_TIMER_POOL_VALID q ts \<and> pool_entries q ts' = pool_entries q ts \<and>
      (OS_TIMER_POOL_VALID q ts \<longrightarrow> pending q ts =
        (if t \<in> set (pool_entries q ts) then add_mset (call_of (timer_of ts t)) (pending q ts') else pending q ts')))"
proof -
  have ok: "timers_ok ts" "pools_ok ts" using s by (simp_all add: service_ok_def)
  note d = timers_okD [OF ok(1)] timer_okD [OF ok(1), of t]
  have tq: "tm_queued (timer_of ts t)" using d(6) l by simp
  define ts1 where "ts1 = upd_timer t (\<lambda>x. x\<lparr>tm_queued := False\<rparr>) (ts\<lparr>os_timer_ready_list := rest\<rparr>)"
  have t1: "timer_of ts1 y = (if y = t then (timer_of ts t)\<lparr>tm_queued := False\<rparr> else timer_of ts y)"
    "os_timer_ready_list ts1 = rest" "os_timer_running_list ts1 = os_timer_running_list ts"
    "pool_of ts1 = pool_of ts" "entry_pool ts1 = entry_pool ts" "remaining ts1 = remaining ts" for y
    by (simp_all add: ts1_def remaining_upd_timer remaining_def fun_upd_idem fun_eq_iff)
  have dl1: "armed.deadline ts1 x = armed.deadline ts x" for x by (simp add: armed.deadline_def t1)
  have run1: "run_ok ts1" using d(1) by (simp add: run_ok_def armed.queue_ok_def t1)
  have fl1: "timer_flags_ok y ts1" for y
  proof -
    have "timer_flags_ok y ts" using ok(1) by (simp add: timers_ok_def)
    then show ?thesis using d(4) l by (auto simp: timer_flags_ok_def t1)
  qed
  have ok1: "timers_ok ts1" using run1 fl1 d(4) l by (simp add: timers_ok_def t1)
  have idle_rm: "snd (os_timer_running_remove t ts1) = ts1" if "\<not> tm_active (timer_of ts t)"
    using that d(5) by (simp add: os_timer_running_remove_def t1)
  let ?sub = "tm_mode (timer_of ts t) = OS_TIMER_MODE_SUBMIT"
  show ?thesis
  proof (cases ?sub)
    case True
    define p where "p = entry_pool ts t"
    have p: "OS_TIMER_POOL_VALID p ts" "pl_ready (pool_of ts p)" "t \<in> set (pool_entries p ts)"
      using ok(2) True by (simp_all add: pools_ok_def p_def)
    have po: "pool_ok p ts" using ok(2) p(1) by (simp add: pools_ok_def)
    have en: "entry_ok p t ts" using po p(2,3) by (simp add: pool_ok_def)
    have na: "\<not> tm_active (timer_of ts t)" "\<not> tm_paused (timer_of ts t)" "in_flight t ts"
      using en tq by (auto simp: entry_ok_def in_flight_def)
    define fl where "fl = pl_free_list (pool_of ts p) @ [t]"
    define ts2 where "ts2 = upd_pool p (\<lambda>y. y\<lparr>pl_free_list := fl\<rparr>)
        (upd_timer t (\<lambda>y. y\<lparr>tm_context := 0, tm_value := 0\<rparr>) ts1)"
    have e: "c = Some (call_of (timer_of ts t))" "st' = st" "ts' = ts2"
      using r l tq na True idle_rm [OF na(1)]
      by (auto simp: os_timer_expired_fetch_def Let_def ts1_def [symmetric] t1 call_of_def ts2_def p_def
          upd_pool_def fl_def)
    have t2: "timer_of ts2 y = (if y = t then (timer_of ts t)\<lparr>tm_queued := False, tm_context := 0, tm_value := 0\<rparr>
        else timer_of ts y)" "pool_of ts2 = (pool_of ts)(p := (pool_of ts p)\<lparr>pl_free_list := fl\<rparr>)"
      "entry_pool ts2 = entry_pool ts" "os_timer_ready_list ts2 = rest"
      "os_timer_running_list ts2 = os_timer_running_list ts" "remaining ts2 = remaining ts" for y
      by (auto simp: ts2_def t1 remaining_upd_timer remaining_def fun_eq_iff)
    have nf: "t \<notin> set (pl_free_list (pool_of ts p))" using en na(3) by (simp add: entry_ok_def)
    have f: "distinct fl" "set fl \<subseteq> set (pool_entries p ts)" "set fl - {t} = set (pl_free_list (pool_of ts p)) - {t}"
      using po p(2,3) nf by (auto simp: fl_def pool_ok_def)
    have fin: "\<not> in_flight t ts2" using na by (simp add: in_flight_def t2)
    have eo: "entry_ok p t ts2" using en fin by (simp add: entry_ok_def t2 fl_def)
    have st: "\<forall>x. x \<noteq> t \<longrightarrow> strip (timer_of ts2 x) = strip (timer_of ts x)"
      "tm_self (timer_of ts2 t) = tm_self (timer_of ts t)" by (simp_all add: t2)
    note es = entry_step [OF ok(2) p t2(2,3) f st(1) eo st(2)]
    have ps: "pools_ok ts2" "\<forall>q. OS_TIMER_POOL_VALID q ts2 = OS_TIMER_POOL_VALID q ts \<and> pool_entries q ts2 = pool_entries q ts"
      using es by auto
    have "timer_flags_ok y ts2" for y using fl1 [of y] by (cases "y = t") (simp_all add: timer_flags_ok_def t1 t2)
    then have ok2: "timers_ok ts2" using run1 d(4) l by (simp add: timers_ok_def run_ok_def armed.queue_ok_def t1 t2)
    have "pending q ts = (if t \<in> set (pool_entries q ts)
        then add_mset (call_of (timer_of ts t)) (pending q ts2) else pending q ts2)" if q: "OS_TIMER_POOL_VALID q ts" for q
    proof (cases "q = p")
      case True
      then show ?thesis using es(6) fin na(3) p(3) by simp
    next
      case False
      then have "t \<notin> set (pool_entries q ts)" using ok(2) q p by (auto simp: pools_ok_def)
      then show ?thesis using es(4) [OF q False] by simp
    qed
    moreover have "armed.deadline ts2 x = armed.deadline ts x" for x by (simp add: armed.deadline_def t2)
    ultimately show ?thesis using e ok2 ps by (simp add: service_ok_def t2)
  next
    case False
    have e: "c = Some (call_of (timer_of ts t))" "st' = st" "ts' = ts1"
      using r l tq False idle_rm
      by (auto simp: os_timer_expired_fetch_def Let_def ts1_def [symmetric] t1 call_of_def split: if_splits)
    have nt: "t \<notin> set (pool_entries q ts)" if "OS_TIMER_POOL_VALID q ts" for q
      using ok(2) that False tq
      by (auto simp: pools_ok_def pool_ok_def entry_ok_def idle_entry_ok_def in_flight_def split: if_splits)
    have k: "places_kept ts ts1"
      unfolding places_kept_def using nt by (auto simp: t1 entry_same_def in_flight_def)
    show ?thesis using places_kept_ok [OF ok(2) k] ok1 e nt by (simp add: service_ok_def t1 dl1)
  qed
qed


lemma submit_effect:
  assumes s: "service_ok ts" and v: "OS_TIMER_POOL_VALID p ts"
    and r: "os_timer_submit p ctx w (ts, st) = (e, ts', st')"
  shows "service_ok ts' \<and>
    (\<forall>q. OS_TIMER_POOL_VALID q ts' = OS_TIMER_POOL_VALID q ts \<and> pool_entries q ts' = pool_entries q ts \<and>
      (OS_TIMER_POOL_VALID q ts \<longrightarrow> q \<noteq> p \<longrightarrow> pending q ts' = pending q ts)) \<and>
    (e = OS_ERR_FULL \<and> st' = st \<and> (\<forall>t \<in> set (pool_entries p ts). in_flight t ts') \<and> pending p ts' = pending p ts \<or>
     e = OS_ERR_NONE \<and> pending p ts' = add_mset (pl_callback (pool_of ts p), ctx, w) (pending p ts) \<and>
     (\<exists>t \<in> set (pool_entries p ts). call_of (timer_of ts' t) = (pl_callback (pool_of ts p), ctx, w) \<and>
       (if pl_delay_ticks (pool_of ts p) = 0
        then os_timer_ready_list ts' = os_timer_ready_list ts @ [t] \<and>
          st' = os_task_wake_locked (os_timer_task_tcb ts') st
        else armed.deadline ts' t = Some (unat (pl_delay_ticks (pool_of ts p))) \<and>
          st' = os_tickless_deadline_armed st)))"
proof -
  define ts0 where "ts0 = os_timer_pool_prepare_locked p ts"
  note pr = prepare_service [OF s v, folded ts0_def]
  have ok: "timers_ok ts0" "pools_ok ts0" using pr(1) by (simp_all add: service_ok_def)
  have v0: "OS_TIMER_POOL_VALID p ts0" using pr(3) v by simp
  have po: "pool_ok p ts0" using ok(2) v0 by (simp add: pools_ok_def)
  have st: "pl_delay_ticks (pool_of ts0 p) = pl_delay_ticks (pool_of ts p)"
    "pl_callback (pool_of ts0 p) = pl_callback (pool_of ts p)"
    using pr(6) [where q = p and l = "[]" and b = False] by (cases "pool_of ts0 p"; cases "pool_of ts p"; simp)+
  show ?thesis
  proof (cases "pl_free_list (pool_of ts0 p)")
    case Nil
    then have e: "e = OS_ERR_FULL" "ts' = ts0" "st' = st"
      using r v by (simp_all add: os_timer_submit_def Let_def ts0_def)
    have "in_flight t ts0" if "t \<in> set (pool_entries p ts)" for t
      using po pr(2,4) that Nil by (simp add: pool_ok_def entry_ok_def)
    then show ?thesis using e pr v by simp
  next
    case (Cons t rest)
    have t: "t \<in> set (pool_entries p ts0)" using po pr(2) Cons by (simp add: pool_ok_def)
    have en: "entry_ok p t ts0" using po pr(2) t by (simp add: pool_ok_def)
    then have nf: "\<not> tm_active (timer_of ts0 t)" "\<not> tm_queued (timer_of ts0 t)" "\<not> in_flight t ts0"
      using Cons by (auto simp: entry_ok_def in_flight_def)
    note d = timers_okD [OF ok(1)] timer_okD [OF ok(1), of t]
    let ?z = "pl_delay_ticks (pool_of ts0 p) = 0"
    define f where "f = (\<lambda>x :: os_timer_t. x\<lparr>tm_context := ctx, tm_value := w, tm_active := \<not> ?z,
      tm_paused := False, tm_remaining_ticks := pl_delay_ticks (pool_of ts0 p),
      tm_queued := (if ?z then True else tm_queued x)\<rparr>)"
    define tu where "tu = upd_timer t f (upd_pool p (\<lambda>x. x\<lparr>pl_free_list := rest\<rparr>) ts0)"
    have nr: "t \<notin> set (os_timer_running_list ts0)" using d(5) nf(1) by simp
    have z: "tu = upd_timer t (\<lambda>x. x\<lparr>tm_active := False, tm_paused := False, tm_remaining_ticks := 0, tm_queued := True\<rparr>)
        (upd_timer t (\<lambda>x. x\<lparr>tm_context := ctx, tm_value := w\<rparr>) (upd_pool p (\<lambda>x. x\<lparr>pl_free_list := rest\<rparr>) ts0))" if ?z
      using that by (auto intro!: timers.equality simp: tu_def f_def fun_eq_iff)
    have nz: "tu = upd_timer t (\<lambda>x. x\<lparr>tm_remaining_ticks := pl_delay_ticks (pool_of ts0 p), tm_paused := False, tm_active := True\<rparr>)
        (upd_timer t (\<lambda>x. x\<lparr>tm_context := ctx, tm_value := w\<rparr>) (upd_pool p (\<lambda>x. x\<lparr>pl_free_list := rest\<rparr>) ts0))" if "\<not> ?z"
      using that by (auto intro!: timers.equality simp: tu_def f_def fun_eq_iff)
    have e: "e = OS_ERR_NONE" "ts' = (if ?z then ready_push t tu else os_timer_running_insert t tu)"
      "st' = (if ?z then os_task_wake_locked (os_timer_task_tcb ts0) st else os_tickless_deadline_armed st)"
      using r v nf nr Cons z nz
      by (cases ?z; simp add: os_timer_submit_def Let_def ts0_def [symmetric] os_timer_is_running_linked_def)+
    have dn: "pl_delay_ticks (pool_of ts0 p) \<noteq> OS_WAIT_FOREVER" using v0 by (simp add: OS_TIMER_POOL_VALID_def)
    have tu: "timer_of tu x = (if x = t then f (timer_of ts0 t) else timer_of ts0 x)"
      "os_timer_running_list tu = os_timer_running_list ts0" "os_timer_ready_list tu = os_timer_ready_list ts0"
      "remaining tu = (remaining ts0)(t := pl_delay_ticks (pool_of ts0 p))" "entry_pool tu = entry_pool ts0"
      "pool_of tu = (pool_of ts0)(p := (pool_of ts0 p)\<lparr>pl_free_list := rest\<rparr>)" for x
      by (auto simp: tu_def remaining_upd_timer f_def remaining_def fun_eq_iff)
    have rtu: "run_ok tu" unfolding tu_def
      by (rule run_ok_set) (use d(1) nr dn in \<open>simp_all add: f_def\<close>)
    have ntu: "t \<notin> set (os_timer_running_list tu)" using nr by (simp add: tu)
    note ins = run_ok_insert [OF rtu ntu]
    have tm: "timer_of ts' x = (if x = t then (f (timer_of ts0 t))\<lparr>tm_remaining_ticks := remaining ts' t\<rparr>
        else (timer_of ts0 x)\<lparr>tm_remaining_ticks := remaining ts' x\<rparr>)" for x
    proof (cases ?z)
      case True
      then show ?thesis by (simp add: e tu ready_push_def remaining_def f_def)
    next
      case False
      then show ?thesis using running_insert_timer [of t tu x] by (simp add: e tu)
    qed
    have rl: "os_timer_ready_list ts' = (if ?z then os_timer_ready_list ts0 @ [t] else os_timer_ready_list ts0)"
      "set (os_timer_running_list ts') = (if ?z then {} else {t}) \<union> set (os_timer_running_list ts0)"
      "entry_pool ts' = entry_pool ts0" "pool_of ts' = (pool_of ts0)(p := (pool_of ts0 p)\<lparr>pl_free_list := rest\<rparr>)"
      "run_ok ts'"
      using ins(1,2) rtu by (auto simp: e tu ready_push_def)
    have fin: "in_flight t ts'" by (simp add: in_flight_def tm f_def)
    have self: "tm_self (timer_of ts' t) = tm_self (timer_of ts0 t)" by (simp add: tm f_def)
    have oth: "\<forall>x. x \<noteq> t \<longrightarrow> strip (timer_of ts' x) = strip (timer_of ts0 x)"
      by (simp add: tm strip_def)
    have dr: "distinct (t # rest)" using po pr(2) Cons by (simp add: pool_ok_def)
    have fl: "distinct rest" "set rest \<subseteq> set (pool_entries p ts0)"
      "set rest - {t} = set (pl_free_list (pool_of ts0 p)) - {t}"
      using po pr(2) Cons dr by (auto simp: pool_ok_def)
    have eo: "entry_ok p t ts'" using en fin dr nf
      by (auto simp: entry_ok_def rl tm f_def)
    note es = entry_step [OF ok(2) v0 pr(2) t rl(4,3) fl oth eo self]
    have "timer_flags_ok x ts'" for x
    proof -
      have "timer_flags_ok x ts0" using ok(1) by (simp add: timers_ok_def)
      then show ?thesis using nf by (cases "x = t") (auto simp: timer_flags_ok_def rl tm f_def)
    qed
    moreover have "distinct (os_timer_ready_list ts')" using d(4,6) nf(2) by (simp add: rl)
    ultimately have okp: "timers_ok ts'" using rl(5) by (simp add: timers_ok_def)
    have call: "call_of (timer_of ts' t) = (pl_callback (pool_of ts p), ctx, w)"
      using en st by (simp add: call_of_def tm f_def entry_ok_def)
    have tt: "os_timer_task_tcb ts' = os_timer_task_tcb ts0" by (simp add: e ready_push_def tu_def)
    have "if pl_delay_ticks (pool_of ts p) = 0
        then os_timer_ready_list ts' = os_timer_ready_list ts @ [t] \<and> st' = os_task_wake_locked (os_timer_task_tcb ts') st
        else armed.deadline ts' t = Some (unat (pl_delay_ticks (pool_of ts p))) \<and> st' = os_tickless_deadline_armed st"
      using st rl(1) pr(7) ins(3) [of t] by (simp add: e(3) tt) (simp add: e(2) tu)
    moreover have "pending p ts' = add_mset (pl_callback (pool_of ts p), ctx, w) (pending p ts)"
      using es(5) [OF fin nf(3)] call pr(5) [OF v] by simp
    moreover have "pending q ts' = pending q ts" if "OS_TIMER_POOL_VALID q ts" "q \<noteq> p" for q
      using es(4) [of q] pr(3,5) that by simp
    ultimately show ?thesis using okp es(1,2,3) call e(1) t pr(3,4) by (auto simp: service_ok_def)
  qed
qed


section \<open>The service over time\<close>

text \<open>
  Everything that can happen to the timer service, in any order and with the rest of the kernel in
  any state: calls on timers, ticks, submissions and fetches. Two histories are kept for one pool
  \<open>p\<close>: the calls that were submitted to it and accepted, and the calls of it that were made.
\<close>

inductive timer_run ::
  "nat \<Rightarrow> timers \<Rightarrow> timers \<Rightarrow> (nat \<times> nat \<times> u32) multiset \<Rightarrow> (nat \<times> nat \<times> u32) multiset \<Rightarrow> bool"
  for p ts0 where
  boot: "timer_run p ts0 ts0 {#} {#}"
| arm: "timer_run p ts0 ts S M \<Longrightarrow> os_timer_arm t reload ctx w (ts, s) = (e, ts', s') \<Longrightarrow> timer_run p ts0 ts' S M"
| pause: "timer_run p ts0 ts S M \<Longrightarrow> os_timer_pause t ts = (e, ts') \<Longrightarrow> timer_run p ts0 ts' S M"
| stop: "timer_run p ts0 ts S M \<Longrightarrow> os_timer_stop t ts = (e, ts') \<Longrightarrow> timer_run p ts0 ts' S M"
| period: "timer_run p ts0 ts S M \<Longrightarrow> timer_run p ts0 (snd (os_timer_period_set hz t ms ts)) S M"
| callback: "timer_run p ts0 ts S M \<Longrightarrow> timer_run p ts0 (snd (os_timer_callback_set t cb ts)) S M"
| val: "timer_run p ts0 ts S M \<Longrightarrow> timer_run p ts0 (snd (os_timer_value_set t w ts)) S M"
| tick: "timer_run p ts0 ts S M \<Longrightarrow> os_timer_tick_process n (ts, s) = (ts', s') \<Longrightarrow> timer_run p ts0 ts' S M"
| submit: "timer_run p ts0 ts S M \<Longrightarrow> os_timer_submit q ctx w (ts, s) = (e, ts', s') \<Longrightarrow>
    timer_run p ts0 ts'
      (if q = p \<and> e = OS_ERR_NONE then add_mset (pl_callback (pool_of ts p), ctx, w) S else S) M"
| fetch: "timer_run p ts0 ts S M \<Longrightarrow> os_timer_expired_fetch (ts, s) = (c, ts', s') \<Longrightarrow>
    timer_run p ts0 ts' S
      (case (c, os_timer_ready_list ts) of
         (Some call, t # _) \<Rightarrow> if t \<in> set (pool_entries p ts) then add_mset call M else M
       | _ \<Rightarrow> M)"

definition pool_account ::
  "nat \<Rightarrow> timers \<Rightarrow> timers \<Rightarrow> (nat \<times> nat \<times> u32) multiset \<Rightarrow> (nat \<times> nat \<times> u32) multiset \<Rightarrow> bool" where
  "pool_account p ts0 ts S M \<longleftrightarrow>
     service_ok ts \<and> OS_TIMER_POOL_VALID p ts \<and> pool_entries p ts = pool_entries p ts0 \<and>
     pending p ts0 + S = M + pending p ts"

lemma quiet_account:
  assumes "pool_account p ts0 ts S M" "quiet_step ts ts'"
  shows "pool_account p ts0 ts' S M"
proof -
  have ok: "pools_ok ts" and k: "places_kept ts ts'" "service_ok ts'"
    using assms by (simp_all add: pool_account_def service_ok_def quiet_step_def)
  note pk = places_kept_ok [OF ok k(1)]
  show ?thesis using assms(1) pk k(2) by (simp add: pool_account_def)
qed

lemma submit_account:
  assumes a: "pool_account p ts0 ts S M" and r: "os_timer_submit q ctx w (ts, s) = (e, ts', s')"
  shows "pool_account p ts0 ts'
    (if q = p \<and> e = OS_ERR_NONE then add_mset (pl_callback (pool_of ts p), ctx, w) S else S) M"
proof (cases "OS_TIMER_POOL_VALID q ts")
  case True
  have "service_ok ts" using a by (simp add: pool_account_def)
  note eff = submit_effect [OF this True r]
  show ?thesis using a eff by (cases "q = p") (auto simp: pool_account_def)
next
  case False
  then have "ts' = ts" "q \<noteq> p" using r a by (auto simp: os_timer_submit_def pool_account_def)
  then show ?thesis using a by simp
qed

lemma fetch_account:
  assumes a: "pool_account p ts0 ts S M" and r: "os_timer_expired_fetch (ts, s) = (c, ts', s')"
  shows "pool_account p ts0 ts' S
      (case (c, os_timer_ready_list ts) of
         (Some call, t # _) \<Rightarrow> if t \<in> set (pool_entries p ts) then add_mset call M else M
       | _ \<Rightarrow> M)"
proof (cases "os_timer_ready_list ts")
  case Nil
  then have "ts' = ts" "c = None" using r by (simp_all add: os_timer_expired_fetch_def)
  then show ?thesis using a by simp
next
  case (Cons t rest)
  have "service_ok ts" using a by (simp add: pool_account_def)
  note eff = fetch_effect [OF this r Cons]
  show ?thesis using a eff Cons by (auto simp: pool_account_def split: if_splits)
qed

lemma timer_run_account:
  assumes "timer_run p ts0 ts S M" "service_ok ts0" "OS_TIMER_POOL_VALID p ts0"
  shows "pool_account p ts0 ts S M"
  using assms(1)
proof (induction rule: timer_run.induct)
  case boot
  then show ?case using assms(2,3) by (simp add: pool_account_def)
next
  case (arm ts S M t reload ctx w s e ts' s')
  have "service_ok ts" using arm.IH by (simp add: pool_account_def)
  then show ?case by (rule quiet_account [OF arm.IH arm_service [OF _ arm.hyps(2)]])
next
  case (pause ts S M t e ts')
  have "service_ok ts" using pause.IH by (simp add: pool_account_def)
  then show ?case by (rule quiet_account [OF pause.IH pause_service [OF _ pause.hyps(2)]])
next
  case (stop ts S M t e ts')
  have "service_ok ts" using stop.IH by (simp add: pool_account_def)
  then show ?case by (rule quiet_account [OF stop.IH stop_service [OF _ stop.hyps(2)]])
next
  case (period ts S M hz t ms)
  have "service_ok ts" using period.IH by (simp add: pool_account_def)
  then show ?case by (rule quiet_account [OF period.IH field_sets_service(1)])
next
  case (callback ts S M t cb)
  have "service_ok ts" using callback.IH by (simp add: pool_account_def)
  then show ?case by (rule quiet_account [OF callback.IH field_sets_service(2)])
next
  case (val ts S M t w)
  have "service_ok ts" using val.IH by (simp add: pool_account_def)
  then show ?case by (rule quiet_account [OF val.IH field_sets_service(3)])
next
  case (tick ts S M n s ts' s')
  have "service_ok ts" using tick.IH by (simp add: pool_account_def)
  then show ?case by (rule quiet_account [OF tick.IH tick_service [OF _ tick.hyps(2)]])
next
  case (submit ts S M q ctx w s e ts' s')
  show ?case by (rule submit_account [OF submit.IH submit.hyps(2)])
next
  case (fetch ts S M s c ts' s')
  show ?case by (rule fetch_account [OF fetch.IH fetch.hyps(2)])
qed

lemma pending_bound: "size (pending p ts) \<le> pl_count (pool_of ts p)"
proof -
  have "card {t \<in> set (pool_entries p ts). in_flight t ts} \<le> card (set (pool_entries p ts))"
    by (intro card_mono) auto
  also have "\<dots> \<le> length (pool_entries p ts)" by (rule card_length)
  also have "\<dots> \<le> pl_count (pool_of ts p)" by (simp add: pool_entries_def)
  finally show ?thesis by (simp add: pending_def)
qed

end
