(* ===== verification/TimerProps.thy ===== *)
theory TimerProps
  imports TimerPool Demo
begin

text \<open>
  The properties of the software timers and of the pools of deferred calls.
\<close>

text \<open>A periodic timer of ten ticks at address 16, a pool of two entries at address 64 that no call used yet.\<close>

definition blank_timer :: os_timer_t where
  "blank_timer = \<lparr>tm_self = 0, tm_period_ticks = 0, tm_remaining_ticks = 0, tm_mode = OS_TIMER_MODE_ONE_SHOT,
     tm_active = False, tm_paused = False, tm_queued = False, tm_callback = 0, tm_context = 0, tm_value = 0\<rparr>"

definition blank_pool :: os_timer_pool_t where
  "blank_pool = \<lparr>pl_self = 0, pl_entries = None, pl_count = 0, pl_delay_ticks = 0, pl_callback = 0,
     pl_free_list = [], pl_ready = False\<rparr>"

definition ticker :: os_timer_t where
  "ticker = blank_timer\<lparr>tm_self := 16, tm_period_ticks := 10, tm_mode := OS_TIMER_MODE_PERIODIC, tm_callback := 500\<rparr>"

definition two_calls :: os_timer_pool_t where
  "two_calls = blank_pool\<lparr>pl_self := 64, pl_entries := Some [80, 96], pl_count := 2, pl_callback := 600\<rparr>"

definition svc0 :: timers where
  "svc0 = \<lparr>timer_of = (\<lambda>_. blank_timer)(16 := ticker), pool_of = (\<lambda>_. blank_pool)(64 := two_calls),
     entry_pool = (\<lambda>_. 0), os_timer_running_list = [], os_timer_ready_list = [], os_timer_task_tcb = None\<rparr>"

lemmas svc0_defs = svc0_def ticker_def two_calls_def blank_timer_def blank_pool_def

lemma svc0_timers_ok: "timers_ok svc0"
  by (simp add: timers_ok_def run_ok_def armed.queue_ok_def timer_flags_ok_def svc0_defs remaining_def
      OS_WAIT_FOREVER_def)

lemma svc0_pool: "OS_TIMER_POOL_VALID p svc0 \<longleftrightarrow> p = 64" "pool_entries 64 svc0 = [80, 96]"
  by (auto simp: OS_TIMER_POOL_VALID_def pool_entries_def svc0_defs OS_WAIT_FOREVER_def)

lemma svc0_ok: "service_ok svc0"
proof -
  have "pool_ok 64 svc0"
    unfolding pool_ok_def svc0_pool by (simp add: idle_entry_ok_def in_flight_def svc0_defs)
  then show ?thesis using svc0_timers_ok
    by (auto simp: service_ok_def pools_ok_def svc0_pool) (auto simp: svc0_defs split: if_splits)
qed

lemma svc0_ticker: "OS_TIMER_VALID 16 svc0" "tm_callback (timer_of svc0 16) \<noteq> 0"
  "tm_period_ticks (timer_of svc0 16) = 10" "tm_mode (timer_of svc0 16) = OS_TIMER_MODE_PERIODIC"
  "\<not> tm_paused (timer_of svc0 16)" "\<not> tm_queued (timer_of svc0 16)" "os_timer_ready_list svc0 = []"
  by (simp_all add: OS_TIMER_VALID_def svc0_defs)

text \<open>
  C24. A tick, or a tickless step of many ticks, is exact for every timer: one whose deadline lies
  further away has just that much less to wait, one that is due and one-shot leaves the list, one
  that is due and periodic is armed for a full period again, and the calls of the due timers are
  queued in the order of their deadlines, each once even if the step covers several periods.
\<close>

theorem timer_tick_exact:
  assumes "timers_ok ts" "0 < e" "os_timer_tick_process e (ts, s) = (ts', s')"
  shows "(\<forall>x. armed.deadline ts' x = (case armed.deadline ts x of None \<Rightarrow> None
         | Some n \<Rightarrow> if unat e < n then Some (n - unat e)
                    else if periodic ts x then Some (unat (tm_period_ticks (timer_of ts x))) else None)) \<and>
    os_timer_ready_list ts' = os_timer_ready_list ts @
       filter (\<lambda>t. due_within e ts t \<and> \<not> tm_queued (timer_of ts t)) (os_timer_running_list ts)"
  using tick_effect(2,3) [OF assms] by blast

lemma ticker_armed:
  obtains ts where "os_timer_start 16 7 9 (svc0, low_runs) = (OS_ERR_NONE, ts, os_tickless_deadline_armed low_runs)"
    "timers_ok ts" "armed.deadline ts 16 = Some 10" "periodic ts 16" "os_timer_running_list ts = [16]"
    "os_timer_ready_list ts = []" "\<not> tm_queued (timer_of ts 16)" "tm_period_ticks (timer_of ts 16) = 10"
proof -
  obtain e ts s where r: "os_timer_arm 16 False 7 9 (svc0, low_runs) = (e, ts, s)"
    by (cases "os_timer_arm 16 False 7 9 (svc0, low_runs)")
  have p: "tm_period_ticks (timer_of svc0 16) \<noteq> 0" by (simp add: svc0_ticker)
  note eff = arm_effect [OF svc0_timers_ok svc0_ticker(1,2) p r]
  have ts: "ts = upd_timer 16 (\<lambda>x. x\<lparr>tm_paused := False, tm_active := True\<rparr>)
      (os_timer_running_insert 16 (arm_prepare 16 False 7 9 svc0))"
    using r svc0_ticker p by (simp add: os_timer_arm_def)
  have l: "os_timer_running_list ts = [16]" "tm_period_ticks (timer_of ts 16) = 10"
    by (simp_all add: ts arm_prepare_eq os_timer_running_insert_def os_timer_running_remove_def rearm_def svc0_defs)
  have d: "armed.deadline ts 16 = Some 10" using eff(4) [of 16] svc0_ticker by simp
  have q: "os_timer_ready_list ts = []" using eff(10) svc0_ticker by simp
  then have "\<not> tm_queued (timer_of ts 16)" using timer_okD(2) [OF eff(1), of 16] by simp
  moreover have "periodic ts 16" using eff(8) svc0_ticker by (simp add: periodic_def)
  ultimately show ?thesis using that [of ts] r eff(1-3) l d q by (simp add: os_timer_start_def)
qed

theorem timer_tick_exact_witness:
  "\<exists>ts ts' s'. os_timer_tick_process 25 (ts, low_runs) = (ts', s') \<and> armed.deadline ts 16 = Some 10 \<and>
     armed.deadline ts' 16 = Some 10 \<and> os_timer_ready_list ts' = [16]"
proof -
  obtain ts where t: "timers_ok ts" "armed.deadline ts 16 = Some 10" "periodic ts 16" "os_timer_running_list ts = [16]"
    "os_timer_ready_list ts = []" "\<not> tm_queued (timer_of ts 16)" "tm_period_ticks (timer_of ts 16) = 10"
    using ticker_armed by metis
  obtain ts' s' where r: "os_timer_tick_process 25 (ts, low_runs) = (ts', s')" by fastforce
  have "due_within 25 ts 16" by (simp add: due_within_def t)
  then have "armed.deadline ts' 16 = Some 10 \<and> os_timer_ready_list ts' = [16]"
    using timer_tick_exact [OF t(1) _ r] t by simp
  then show ?thesis using r t(2) by blast
qed

text \<open>
  Pausing and starting again is a round trip in time: a paused timer does not run, whatever time
  passes, and when it is started it has exactly the time to wait that it had when it was paused,
  while every other timer has moved on by the time that passed.
\<close>

theorem pause_keeps_remaining:
  assumes "timers_ok ts" "OS_TIMER_VALID t ts" "tm_callback (timer_of ts t) \<noteq> 0" "tm_period_ticks (timer_of ts t) \<noteq> 0"
    and "armed.deadline ts t = Some n" "0 < e"
    and "os_timer_pause t ts = (e1, ts1)" "os_timer_tick_process e (ts1, s1) = (ts2, s2)"
    and "os_timer_start t ctx w (ts2, s2) = (e3, ts3, s3)"
  shows "e1 = OS_ERR_NONE \<and> armed.deadline ts1 t = None \<and> armed.deadline ts2 t = None \<and>
    e3 = OS_ERR_NONE \<and> armed.deadline ts3 t = Some n \<and>
    (\<forall>x m. x \<noteq> t \<longrightarrow> armed.deadline ts x = Some m \<longrightarrow> unat e < m \<longrightarrow> armed.deadline ts3 x = Some (m - unat e))"
proof -
  have "tm_active (timer_of ts t)" using assms(5) timer_okD(1) [OF assms(1)] deadline_active [of ts t] by auto
  note p = pause_effect [OF assms(1,2) this assms(7)]
  note k = tick_effect [OF p(1) assms(6,8)]
  have n1: "armed.deadline ts1 t = None" using p(4) [of t] by simp
  have nl: "t \<notin> set (os_timer_running_list ts1)" using n1 deadline_active by simp
  have "\<not> due_within e ts1 t" using n1 by (simp add: due_within_def)
  then have s2: "strip (timer_of ts2 t) = strip (timer_of ts1 t)" using k(4) by simp
  note f2 = strip_fields [OF s2]
  have v: "OS_TIMER_VALID t ts2" "tm_callback (timer_of ts2 t) \<noteq> 0" "tm_period_ticks (timer_of ts2 t) \<noteq> 0"
    "tm_paused (timer_of ts2 t)" "remaining ts2 t = remaining ts1 t"
    using p(3,6-8) f2 assms(2-4) k(9) [OF nl] by (simp_all add: OS_TIMER_VALID_def one_timer_step_def)
  note a = arm_effect [OF k(1) v(1-3) assms(9) [unfolded os_timer_start_def]]
  have o: "armed.deadline ts3 x = Some (m - unat e)" if "x \<noteq> t" "armed.deadline ts x = Some m" "unat e < m" for x m
    using that a(4) [of x] k(2) [of x] p(4) [of x] by simp
  show ?thesis using p(2) n1 k(2) [of t] a(2) a(4) [of t] v(4,5) p(5) assms(5) o by auto
qed

theorem pause_keeps_remaining_witness:
  "\<exists>ts ts1 ts2 s2 ts3 s3. armed.deadline ts 16 = Some 10 \<and> os_timer_pause 16 ts = (OS_ERR_NONE, ts1) \<and>
     os_timer_tick_process 25 (ts1, low_runs) = (ts2, s2) \<and>
     os_timer_start 16 7 9 (ts2, s2) = (OS_ERR_NONE, ts3, s3) \<and> armed.deadline ts3 16 = Some 10"
proof -
  obtain ts where r: "os_timer_start 16 7 9 (svc0, low_runs) = (OS_ERR_NONE, ts, os_tickless_deadline_armed low_runs)"
    and t: "timers_ok ts" "armed.deadline ts 16 = Some 10" "tm_period_ticks (timer_of ts 16) = 10"
    using ticker_armed by metis
  have p: "tm_period_ticks (timer_of svc0 16) \<noteq> 0" by (simp add: svc0_ticker)
  note a = arm_effect [OF svc0_timers_ok svc0_ticker(1,2) p r [unfolded os_timer_start_def]]
  have v: "OS_TIMER_VALID 16 ts" using a(8,9) svc0_ticker(1) by (simp add: OS_TIMER_VALID_def)
  have c: "tm_callback (timer_of ts 16) \<noteq> 0"
    using r svc0_ticker by (auto simp: os_timer_start_def os_timer_arm_def arm_prepare_eq running_insert_timer
        rearm_def running_remove_timer split: if_splits)
  obtain e1 ts1 where r1: "os_timer_pause 16 ts = (e1, ts1)" by fastforce
  obtain ts2 s2 where r2: "os_timer_tick_process 25 (ts1, low_runs) = (ts2, s2)" by fastforce
  obtain e3 ts3 s3 where r3: "os_timer_start 16 7 9 (ts2, s2) = (e3, ts3, s3)" by (metis prod_cases3)
  have "tm_period_ticks (timer_of ts 16) \<noteq> 0" using t(3) by simp
  then show ?thesis using pause_keeps_remaining [OF t(1) v c _ t(2) _ r1 r2 r3] t(2) r1 r2 r3 by fastforce
qed

text \<open>
  C25. The invariant of the timer service holds for ever, whatever calls, ticks, submissions and fetches
  follow each other: the lists hold each timer at most once and agree with its flags, a paused timer
  is on neither countdown, and every entry of every pool is in exactly one place, free, counting
  down or waiting for its call.
\<close>

theorem timer_service_invariant:
  assumes "service_ok ts0" "OS_TIMER_POOL_VALID p ts0" "timer_run p ts0 ts S M"
  shows "service_ok ts"
  using timer_run_account [OF assms(3,1,2)] by (simp add: pool_account_def)

lemma svc0_submits:
  obtains ts s' where "os_timer_submit 64 7 9 (svc0, low_runs) = (OS_ERR_NONE, ts, s')"
    "os_timer_ready_list ts \<noteq> []"
proof -
  obtain e ts s' where r: "os_timer_submit 64 7 9 (svc0, low_runs) = (e, ts, s')" by (metis prod_cases3)
  have v: "OS_TIMER_POOL_VALID 64 svc0" by (simp add: svc0_pool)
  have z: "pl_delay_ticks (pool_of svc0 64) = 0" by (simp add: svc0_defs)
  have "e \<noteq> OS_ERR_FULL"
    using r v by (simp add: os_timer_submit_def os_timer_pool_prepare_locked_def entry_prepare_def Let_def svc0_defs
        upd_pool_def upd_timer_def ready_push_def)
  then show ?thesis using submit_effect [OF svc0_ok v r] z r that by fastforce
qed

theorem timer_service_invariant_witness:
  "\<exists>ts s'. os_timer_submit 64 7 9 (svc0, low_runs) = (OS_ERR_NONE, ts, s') \<and> service_ok ts"
proof -
  obtain ts s' where r: "os_timer_submit 64 7 9 (svc0, low_runs) = (OS_ERR_NONE, ts, s')" by (rule svc0_submits)
  have v: "OS_TIMER_POOL_VALID 64 svc0" by (simp add: svc0_pool)
  show ?thesis using timer_service_invariant [OF svc0_ok v timer_run.submit [OF timer_run.boot r]] r by blast
qed

text \<open>
  C26. No deferred call is lost, made twice or altered. At every moment the calls that were submitted to
  a pool and accepted are the calls that were made and the calls that are still pending, as
  multisets of callback, context and value, and no more are pending than the pool has entries.
\<close>

theorem deferred_calls_conserved:
  assumes "service_ok ts0" "OS_TIMER_POOL_VALID p ts0" "pending p ts0 = {#}" "timer_run p ts0 ts submitted made"
  shows "submitted = made + pending p ts \<and> size (pending p ts) \<le> pl_count (pool_of ts p)"
  using timer_run_account [OF assms(4,1,2)] assms(3) pending_bound by (simp add: pool_account_def)

theorem deferred_calls_conserved_witness:
  "\<exists>ts s' ts' s2. os_timer_submit 64 7 9 (svc0, low_runs) = (OS_ERR_NONE, ts, s') \<and>
     os_timer_expired_fetch (ts, s') = (Some (600, 7, 9), ts', s2) \<and> pending 64 ts' = {#}"
proof -
  obtain ts s' where r: "os_timer_submit 64 7 9 (svc0, low_runs) = (OS_ERR_NONE, ts, s')"
    and n: "os_timer_ready_list ts \<noteq> []" by (rule svc0_submits)
  have v: "OS_TIMER_POOL_VALID 64 svc0" by (simp add: svc0_pool)
  have p0: "pending 64 svc0 = {#}" by (simp add: pending_def svc0_pool in_flight_def) (simp add: svc0_defs)
  have sd: "pl_delay_ticks (pool_of svc0 64) = 0" "pl_callback (pool_of svc0 64) = 600" "os_timer_ready_list svc0 = []"
    by (simp_all add: svc0_defs)
  obtain t where t: "os_timer_ready_list ts = [t]" "t \<in> set (pool_entries 64 svc0)" "service_ok ts"
    "call_of (timer_of ts t) = (600, 7, 9)" "pool_entries 64 ts = pool_entries 64 svc0"
    using submit_effect [OF svc0_ok v r] sd by auto
  obtain c ts' s2 where f: "os_timer_expired_fetch (ts, s') = (c, ts', s2)" by (metis prod_cases3)
  have c: "c = Some (600, 7, 9)" using fetch_effect [OF t(3) f t(1)] t(4) by simp
  have run: "timer_run 64 svc0 ts' {#(600, 7, 9)#} {#(600, 7, 9)#}"
    using timer_run.fetch [OF timer_run.submit [OF timer_run.boot [of 64 svc0] r] f] sd t c by simp
  show ?thesis using deferred_calls_conserved [OF svc0_ok v p0 run] r f c by auto
qed

end
