(* ===== verification/Window.thy ===== *)
theory Window
  imports Prelude
begin

text \<open>
  The port's half of tickless idle: \<^verbatim>\<open>arch/common/os_arch_tickless.c\<close>, which opens and closes a
  window in which no tick is taken, \<^verbatim>\<open>arch/arm/common/os_arch_tick_math.h\<close>, the SysTick side of
  \<^verbatim>\<open>arch/arm/common/os_arch_tickless.c\<close> and the ARMv8-M window of
  \<^verbatim>\<open>arch/arm/common/os_arch_port_v8m.c\<close>, which stretches SysTick itself. The registers are words
  of the state; what the hardware does while the core sleeps (the counter's value, the pending bit,
  the answers of the SoC package's callbacks) is a value the close reads.
\<close>

section \<open>State\<close>

text \<open>SysTick: control, reload, current value, and the pending bit of its exception.\<close>

record systick =
  SYST_CSR :: u32
  SYST_RVR :: u32
  SYST_CVR :: u32
  PENDSTSET :: bool

definition OS_ARCH_SYST_CSR_ENABLE_MSK :: u32 where "OS_ARCH_SYST_CSR_ENABLE_MSK = 1"
definition OS_ARCH_SYST_CSR_TICKINT_MSK :: u32 where "OS_ARCH_SYST_CSR_TICKINT_MSK = 2"
definition OS_ARCH_SYST_CSR_CLKSOURCE_MSK :: u32 where "OS_ARCH_SYST_CSR_CLKSOURCE_MSK = 4"
definition OS_ARCH_SYST_CSR_COUNTFLAG_MSK :: u32 where "OS_ARCH_SYST_CSR_COUNTFLAG_MSK = 0x10000"
definition OS_ARCH_SYST_RVR_RELOAD_MSK :: u32 where "OS_ARCH_SYST_RVR_RELOAD_MSK = 0x00FFFFFF"

definition SYST_CSR_RUN :: u32 where
  "SYST_CSR_RUN = OS_ARCH_SYST_CSR_CLKSOURCE_MSK OR OS_ARCH_SYST_CSR_TICKINT_MSK OR OS_ARCH_SYST_CSR_ENABLE_MSK"

text \<open>The interrupt masks of one core: PRIMASK and the BASEPRI register.\<close>

record irq_mask =
  PRIMASK :: bool
  BASEPRI :: u32

text \<open>
  The configured ceiling \<open>OS_CONFIG_MAX_SYSCALL_IRQ_PRIORITY\<close> is the argument \<open>ceil\<close>; zero selects
  PRIMASK. A write to BASEPRI_MAX takes effect only where it raises the mask.
\<close>

definition os_arch_primask_get :: "irq_mask \<Rightarrow> u32" where
  "os_arch_primask_get m = (if PRIMASK m then 1 else 0)"

definition os_arch_kernel_mask_save :: "u32 \<Rightarrow> irq_mask \<Rightarrow> u32 \<times> irq_mask" where
  "os_arch_kernel_mask_save ceil m =
     (if ceil \<noteq> 0
      then (BASEPRI m, if BASEPRI m = 0 \<or> ceil < BASEPRI m then m\<lparr>BASEPRI := ceil\<rparr> else m)
      else (os_arch_primask_get m, m\<lparr>PRIMASK := True\<rparr>))"

definition os_arch_kernel_mask_restore :: "u32 \<Rightarrow> u32 \<Rightarrow> irq_mask \<Rightarrow> irq_mask" where
  "os_arch_kernel_mask_restore ceil saved_state m =
     (if ceil \<noteq> 0 then m\<lparr>BASEPRI := saved_state\<rparr>
      else if saved_state = 0 then m\<lparr>PRIMASK := False\<rparr> else m)"

definition os_arch_sleep_mask_enter :: "u32 \<Rightarrow> irq_mask \<Rightarrow> u32 \<times> irq_mask" where
  "os_arch_sleep_mask_enter ceil m =
     (if ceil \<noteq> 0
      then (push_bit 8 (os_arch_primask_get m) OR (BASEPRI m AND 0xFF), \<lparr>PRIMASK = True, BASEPRI = 0\<rparr>)
      else (0, m))"

definition os_arch_sleep_mask_exit :: "u32 \<Rightarrow> u32 \<Rightarrow> irq_mask \<Rightarrow> irq_mask" where
  "os_arch_sleep_mask_exit ceil state m =
     (if ceil \<noteq> 0
      then let m1 = m\<lparr>BASEPRI := state AND 0xFF\<rparr>
           in if state AND 0x100 = 0 then m1\<lparr>PRIMASK := False\<rparr> else m1
      else m)"

text \<open>
  The port's variables. \<open>cycle_*\<close> are the sleeping core's entries of the cycle counter that
  \<^verbatim>\<open>os_arch_cycle_systick.c\<close> derives from SysTick.
\<close>

record window =
  irq_ceil :: u32
  stk :: systick
  irq :: irq_mask
  tick_reload_cycles :: u32
  dwt_available :: bool
  tickless_planned :: u32
  tickless_soc_window :: bool
  tickless_saved_csr :: u32
  suppressed_reload_cycles :: u32
  suppressed_head_cycles :: u32
  sleep_mask_state :: u32
  sleep_mask_held :: bool
  cycle_periods :: u32
  cycle_fallback :: u32
  cycle_window_mark :: u32

text \<open>What a SoC package's wake source answers. A package that overrides nothing is \<open>soc_default\<close>.\<close>

record soc_source =
  tick_suppress_max_cb :: u32
  tick_suppress_min_cb :: u32
  tick_resume_cb :: u32

definition soc_default :: soc_source where
  "soc_default = \<lparr>tick_suppress_max_cb = 0, tick_suppress_min_cb = 0, tick_resume_cb = 0\<rparr>"

section \<open>The arithmetic of SysTick (os_arch_tick_math.h)\<close>

definition os_arch_tick_wraps :: "64 word \<Rightarrow> u32 \<Rightarrow> u32 \<Rightarrow> u32 \<Rightarrow> u32" where
  "os_arch_tick_wraps reference_cycles start_cvr end_cvr period =
     (let s = (if start_cvr = 0 then period else start_cvr);
          e = (if end_cvr = 0 then period else end_cvr);
          whole = reference_cycles + ucast e - ucast s
      in if sint whole \<le> 0 then 0
         else ucast ((whole + ucast (period div 2)) div ucast period))"

definition os_arch_tick_remaining :: "u32 \<Rightarrow> u32 \<Rightarrow> u32 \<Rightarrow> u32" where
  "os_arch_tick_remaining elapsed_cycles head_cycles period =
     (if elapsed_cycles < head_cycles then head_cycles - elapsed_cycles
      else period - ((elapsed_cycles - head_cycles) mod period))"

section \<open>Silencing SysTick for a window that the SoC ends (arch/arm/common/os_arch_tickless.c)\<close>

definition os_arch_tickless_tick_silence :: "window \<Rightarrow> window" where
  "os_arch_tickless_tick_silence w =
     w\<lparr>tickless_saved_csr := SYST_CSR (stk w),
       stk := (stk w)\<lparr>SYST_CSR := SYST_CSR (stk w) AND NOT OS_ARCH_SYST_CSR_TICKINT_MSK\<rparr>\<rparr>"

definition os_arch_tickless_tick_restore :: "window \<Rightarrow> window" where
  "os_arch_tickless_tick_restore w = w\<lparr>stk := (stk w)\<lparr>SYST_CSR := tickless_saved_csr w\<rparr>\<rparr>"

text \<open>
  With a reference clock the count of the close comes from that clock: \<open>start\<close> and \<open>now\<close> are the
  two readings, \<open>hz\<close> its frequency, \<open>clock_hz\<close> SysTick's.
\<close>

record reference_sample =
  rs_reference :: "64 word"
  rs_cvr :: u32
  rs_pending :: bool

definition os_arch_tickless_elapsed_adjust ::
  "u32 \<Rightarrow> u32 \<Rightarrow> reference_sample \<Rightarrow> reference_sample \<Rightarrow> window \<Rightarrow> u32 \<Rightarrow> u32" where
  "os_arch_tickless_elapsed_adjust hz clock_hz start now w elapsed =
     (if hz \<noteq> 0 then
        let cycles = ((rs_reference now - rs_reference start) * ucast clock_hz) div ucast hz;
            period = (SYST_RVR (stk w) AND OS_ARCH_SYST_RVR_RELOAD_MSK) + 1;
            n = os_arch_tick_wraps cycles (rs_cvr start) (rs_cvr now) period
        in if \<not> rs_pending start \<and> rs_pending now \<and> n \<noteq> 0 then n - 1 else n
      else elapsed)"

section \<open>The synthesised cycle counter across a window (os_arch_cycle_systick.c)\<close>

definition os_arch_cycle_raw_get :: "window \<Rightarrow> u32" where
  "os_arch_cycle_raw_get w =
     (let reload = SYST_RVR (stk w) AND OS_ARCH_SYST_RVR_RELOAD_MSK;
          cvr = SYST_CVR (stk w) AND OS_ARCH_SYST_RVR_RELOAD_MSK
      in cycle_fallback w + (cycle_periods w * (reload + 1)) + (reload - cvr))"

definition os_arch_cycle_window_open :: "window \<Rightarrow> window" where
  "os_arch_cycle_window_open w = w\<lparr>cycle_window_mark := os_arch_cycle_raw_get w\<rparr>"

definition os_arch_cycle_window_close :: "u32 \<Rightarrow> window \<Rightarrow> window" where
  "os_arch_cycle_window_close elapsed w =
     (let reload = SYST_RVR (stk w) AND OS_ARCH_SYST_RVR_RELOAD_MSK;
          drifted = os_arch_cycle_raw_get w - cycle_window_mark w;
          wanted = elapsed * (reload + 1)
      in w\<lparr>cycle_fallback := cycle_fallback w + (wanted - drifted)\<rparr>)"

definition os_arch_cycle_tick :: "window \<Rightarrow> window" where
  "os_arch_cycle_tick w = w\<lparr>cycle_periods := cycle_periods w + 1\<rparr>"

section \<open>The window of the ARMv8-M port: SysTick stretched over many ticks\<close>

definition os_arch_max_window_ticks_get :: "window \<Rightarrow> 64 word" where
  "os_arch_max_window_ticks_get w =
     (if tick_reload_cycles w \<noteq> 0
      then ucast (OS_ARCH_SYST_RVR_RELOAD_MSK + 1) div ucast (tick_reload_cycles w) else 0)"

definition os_arch_tickless_self_available :: "window \<Rightarrow> bool" where
  "os_arch_tickless_self_available w = dwt_available w"

definition os_arch_tickless_self_max_ticks :: "window \<Rightarrow> u32" where
  "os_arch_tickless_self_max_ticks w = ucast (os_arch_max_window_ticks_get w)"

text \<open>The counter is stopped, read, and started again on a reload of the whole window.\<close>

definition os_arch_tickless_self_open :: "u32 \<Rightarrow> window \<Rightarrow> u32 \<times> window" where
  "os_arch_tickless_self_open planned_ticks w =
     (let max_window = os_arch_max_window_ticks_get w in
      if tick_reload_cycles w \<noteq> 0 \<and> max_window > 1 then
        let (mask_state, m) = os_arch_kernel_mask_save (irq_ceil w) (irq w);
            saved_csr = SYST_CSR (stk w);
            w1 = w\<lparr>sleep_mask_state := mask_state, irq := m, stk := (stk w)\<lparr>SYST_CSR := 0\<rparr>\<rparr>;
            left = SYST_CVR (stk w1) AND OS_ARCH_SYST_RVR_RELOAD_MSK
        in if PENDSTSET (stk w1)
           then (0, w1\<lparr>stk := (stk w1)\<lparr>SYST_CSR := saved_csr\<rparr>,
                       irq := os_arch_kernel_mask_restore (irq_ceil w1) (sleep_mask_state w1) (irq w1)\<rparr>)
           else
             let planned = (if (ucast planned_ticks :: 64 word) > max_window then ucast max_window else planned_ticks);
                 left' = (if left = 0 then tick_reload_cycles w1 else left);
                 suppressed = (ucast left' :: 64 word) + ucast (planned - 1) * ucast (tick_reload_cycles w1);
                 reload = (ucast suppressed :: u32)
             in (planned,
                 w1\<lparr>sleep_mask_held := True, suppressed_reload_cycles := reload, suppressed_head_cycles := left',
                    stk := (stk w1)\<lparr>SYST_RVR := reload - 1, SYST_CVR := 0, SYST_CSR := SYST_CSR_RUN\<rparr>\<rparr>)
      else (0, w))"

text \<open>The count of a close and the cycles to the next tick, from the registers as the stop left them.\<close>

definition self_close_count :: "u32 \<Rightarrow> window \<Rightarrow> u32 \<times> u32" where
  "self_close_count planned_ticks w =
     (let cvr = SYST_CVR (stk w) AND OS_ARCH_SYST_RVR_RELOAD_MSK;
          elapsed_cycles = (if cvr = 0 then 0 else (suppressed_reload_cycles w - 1) - cvr)
      in if SYST_CSR (stk w) AND OS_ARCH_SYST_CSR_COUNTFLAG_MSK \<noteq> 0 \<or> PENDSTSET (stk w)
         then let late = (if cvr = 0 then 0 else elapsed_cycles)
              in (planned_ticks - 1, tick_reload_cycles w - (late mod tick_reload_cycles w))
         else (if elapsed_cycles \<ge> suppressed_head_cycles w
               then 1 + ((elapsed_cycles - suppressed_head_cycles w) div tick_reload_cycles w) else 0,
               os_arch_tick_remaining elapsed_cycles (suppressed_head_cycles w) (tick_reload_cycles w)))"

text \<open>
  The first interval after the window is programmed as the reload, and loaded by the write to the
  current value; the regular reload then replaces it for the intervals that follow.
\<close>

definition os_arch_tickless_self_close :: "u32 \<Rightarrow> window \<Rightarrow> u32 \<times> window" where
  "os_arch_tickless_self_close planned_ticks w =
     (case self_close_count planned_ticks w of (elapsed_ticks, left) \<Rightarrow>
        let left' = (if left < 2 then 2 else left);
            first = (stk w)\<lparr>SYST_RVR := left' - 1, SYST_CVR := 0, SYST_CSR := SYST_CSR_RUN\<rparr>
        in (elapsed_ticks, w\<lparr>stk := first\<lparr>SYST_RVR := tick_reload_cycles w - 1\<rparr>\<rparr>))"

definition os_arch_tickless_self_finish :: "window \<Rightarrow> window" where
  "os_arch_tickless_self_finish w =
     (if sleep_mask_held w
      then w\<lparr>sleep_mask_held := False, irq := os_arch_kernel_mask_restore (irq_ceil w) (sleep_mask_state w) (irq w)\<rparr>
      else w)"

section \<open>Opening and closing a window (arch/common/os_arch_tickless.c)\<close>

definition os_arch_max_suppressed_ticks_get :: "soc_source \<Rightarrow> window \<Rightarrow> u32" where
  "os_arch_max_suppressed_ticks_get soc w =
     (let suppressible = tick_suppress_max_cb soc
      in if suppressible = 0 \<and> os_arch_tickless_self_available w
         then os_arch_tickless_self_max_ticks w else suppressible)"

definition os_arch_min_suppressed_ticks_get :: "soc_source \<Rightarrow> u32" where
  "os_arch_min_suppressed_ticks_get soc = tick_suppress_min_cb soc"

definition os_arch_sleep_prepare :: "soc_source \<Rightarrow> u32 \<Rightarrow> window \<Rightarrow> window" where
  "os_arch_sleep_prepare soc planned_ticks w =
     (let w0 = w\<lparr>tickless_planned := 0, tickless_soc_window := False\<rparr> in
      if planned_ticks \<ge> 2 \<and> tick_suppress_max_cb soc \<noteq> 0
      then (os_arch_cycle_window_open (os_arch_tickless_tick_silence w0))
             \<lparr>tickless_planned := planned_ticks, tickless_soc_window := True\<rparr>
      else if planned_ticks \<ge> 2 \<and> os_arch_tickless_self_available w0
      then (case os_arch_tickless_self_open planned_ticks w0 of (armed, w1) \<Rightarrow> w1\<lparr>tickless_planned := armed\<rparr>)
      else w0)"

text \<open>\<open>adjust\<close> is \<open>OS_ARCH_TICKLESS_ELAPSED_ADJUST\<close>: the identity unless the SoC has a reference clock.\<close>

definition os_arch_elapsed_ticks_get ::
  "(window \<Rightarrow> u32 \<Rightarrow> u32) \<Rightarrow> soc_source \<Rightarrow> window \<Rightarrow> u32 \<times> window" where
  "os_arch_elapsed_ticks_get adjust soc w =
     (if tickless_planned w \<noteq> 0 then
        let (elapsed, w1) =
          (if tickless_soc_window w then
             let e = (if tick_resume_cb soc > tickless_planned w then tickless_planned w else tick_resume_cb soc);
                 w1 = os_arch_tickless_tick_restore w;
                 e1 = adjust w1 e
             in (e1, os_arch_cycle_window_close e1 w1)
           else os_arch_tickless_self_close (tickless_planned w) w)
        in (elapsed, w1\<lparr>tickless_soc_window := False, tickless_planned := 0\<rparr>)
      else (0, w))"

definition os_arch_sleep_finish :: "window \<Rightarrow> window" where
  "os_arch_sleep_finish = os_arch_tickless_self_finish"

text \<open>
  \<open>OS_ARCH_SLEEP\<close>: the window is prepared, the masks are swapped for the sleep instruction, the
  hardware runs (\<open>hw\<close>: what SysTick holds when the core wakes, from what it held), the masks are
  put back.
\<close>

definition OS_ARCH_SLEEP :: "soc_source \<Rightarrow> (systick \<Rightarrow> systick) \<Rightarrow> u32 \<Rightarrow> window \<Rightarrow> window" where
  "OS_ARCH_SLEEP soc hw ticks w =
     (let w1 = os_arch_sleep_prepare soc ticks w;
          (state, m) = os_arch_sleep_mask_enter (irq_ceil w1) (irq w1);
          w2 = w1\<lparr>irq := m, stk := hw (stk w1)\<rparr>
      in w2\<lparr>irq := os_arch_sleep_mask_exit (irq_ceil w2) state (irq w2)\<rparr>)"

section \<open>Counting ticks against a reference clock\<close>

lemma sint_of_int64:
  "- 9223372036854775808 \<le> k \<Longrightarrow> k < 9223372036854775808 \<Longrightarrow> sint (word_of_int k :: 64 word) = k"
  by (simp add: int_word_sint)

lemma uint_of_int64: "0 \<le> k \<Longrightarrow> k < 18446744073709551616 \<Longrightarrow> uint (word_of_int k :: 64 word) = k"
  by (simp add: uint_word_of_int)

lemma whole_int:
  fixes R :: "64 word" and e s :: u32
  assumes "uint R < 2 ^ 62"
  shows "sint (R + ucast e - ucast s) = uint R + uint e - uint s"
    and "0 \<le> uint R + uint e - uint s \<Longrightarrow> uint (R + ucast e - ucast s) = uint R + uint e - uint s"
proof -
  let ?k = "uint R + uint e - uint s"
  have b: "uint e < 4294967296" "uint s < 4294967296" "uint R < 4611686018427387904"
    using uint_bounded [of e] uint_bounded [of s] assms by simp_all
  have z: "0 \<le> uint e" "0 \<le> uint s" "0 \<le> uint R" by (rule uint_nonnegative)+
  have w: "R + ucast e - ucast s = (word_of_int ?k :: 64 word)"
    by (simp add: word_of_int_uint)
  have "- 9223372036854775808 \<le> ?k" "?k < 9223372036854775808" using b z by linarith+
  then have "sint (word_of_int ?k :: 64 word) = ?k" by (rule sint_of_int64)
  then show "sint (R + ucast e - ucast s) = ?k" by (simp only: w)
  show "uint (R + ucast e - ucast s) = ?k" if "0 \<le> ?k"
  proof -
    have "?k < 18446744073709551616" using b z by linarith
    then have "uint (word_of_int ?k :: 64 word) = ?k" using that by (rule uint_of_int64 [rotated])
    then show ?thesis by (simp only: w)
  qed
qed


text \<open>
  The rounding is right as long as the reference and SysTick disagree by less than half a period:
  if SysTick, counting down from \<open>s\<close> to \<open>e\<close>, wrapped \<open>n\<close> times, and the reference's count is off by
  \<open>d\<close>, the answer is \<open>n\<close>.
\<close>

lemma os_arch_tick_wraps_exact:
  assumes p: "0 < uint period" and R: "uint R < 2 ^ 62" and n: "0 \<le> n" "n < 2 ^ 32"
    and t: "uint R = n * uint period + (uint (if s = 0 then period else s) - uint (if e = 0 then period else e)) + d"
    and d: "- (uint period div 2) \<le> d" "d < uint period - uint period div 2"
  shows "uint (os_arch_tick_wraps R s e period) = n"
proof -
  let ?s = "if s = 0 then period else s" and ?e = "if e = 0 then period else e"
  let ?p = "uint period" and ?w = "R + ucast ?e - ucast ?s :: 64 word"
  have k: "uint R + uint ?e - uint ?s = n * ?p + d" using t by simp
  have si: "sint ?w = n * ?p + d" using whole_int(1) [OF R, of ?e ?s] unfolding k .
  have h: "0 \<le> d + ?p div 2" "d + ?p div 2 < ?p" using d by linarith+
  have q: "(n * ?p + d + ?p div 2) div ?p = n"
    using h by (simp add: add.assoc div_add1_eq [of "n * ?p"] div_pos_pos_trivial mod_pos_pos_trivial)
  show ?thesis
  proof (cases "n * ?p + d \<le> 0")
    case True
    have "n = 0"
    proof (rule ccontr)
      assume "n \<noteq> 0"
      then have "?p * 1 \<le> ?p * n" using n(1) p by (intro mult_left_mono) auto
      then have "?p \<le> n * ?p" by (simp add: mult.commute)
      moreover have "- ?p < d" using d(1) p by linarith
      ultimately show False using True by linarith
    qed
    then show ?thesis using True si by (simp add: os_arch_tick_wraps_def Let_def)
  next
    case False
    then have u: "uint ?w = n * ?p + d" using whole_int(2) [OF R, of ?e ?s] unfolding k by simp
    have pb: "?p < 4294967296" using uint_bounded [of period] by simp
    have kb: "n * ?p + d < 4611686018427387904 + 4294967296"
    proof -
      have "uint R < 4611686018427387904" "uint ?e < 4294967296" using R uint_bounded [of ?e] by simp_all
      moreover have "0 \<le> uint ?s" by (rule uint_nonnegative)
      ultimately show ?thesis using k by linarith
    qed
    have half: "uint (ucast (period div 2) :: 64 word) = ?p div 2"
      by (simp add: uint_div uint_up_ucast is_up)
    have sum: "uint (?w + ucast (period div 2)) = n * ?p + d + ?p div 2"
    proof -
      have "n * ?p + d + ?p div 2 < 18446744073709551616" using kb pb by linarith
      then show ?thesis using u half False p by (subst uint_plus_if') simp
    qed
    have "uint ((?w + ucast (period div 2)) div ucast period) = n"
      using sum q by (simp add: uint_div uint_up_ucast is_up)
    then have "uint (ucast ((?w + ucast (period div 2)) div ucast period) :: u32) = n"
      using n by (simp add: unsigned_ucast_eq take_bit_int_eq_self)
    then show ?thesis using False si by (simp add: os_arch_tick_wraps_def Let_def)
  qed
qed

section \<open>The stretched SysTick counts ticks exactly\<close>

text \<open>A window is armed: \<open>n\<close> ticks, the first of them already running and \<open>head\<close> cycles long.\<close>

definition self_armed :: "u32 \<Rightarrow> window \<Rightarrow> bool" where
  "self_armed n w \<longleftrightarrow>
     2 \<le> unat n \<and> 1 \<le> unat (suppressed_head_cycles w) \<and>
     unat (suppressed_head_cycles w) \<le> unat (tick_reload_cycles w) \<and>
     unat (suppressed_reload_cycles w) =
       unat (suppressed_head_cycles w) + (unat n - 1) * unat (tick_reload_cycles w) \<and>
     unat (suppressed_reload_cycles w) \<le> 16777216"

lemma unat_wide [simp]: "unat (ucast (x :: u32) :: 64 word) = unat x"
proof -
  have "unat x < 2 ^ LENGTH(32)" by (rule unsigned_less)
  then have "unat x < 18446744073709551616" by simp
  then show ?thesis by (simp add: unsigned_ucast_eq take_bit_nat_eq_self)
qed

lemma unat_narrow: "unat (x :: 64 word) < 4294967296 \<Longrightarrow> unat (ucast x :: u32) = unat x"
  by (simp add: unsigned_ucast_eq take_bit_nat_eq_self)

lemma max_window_unat:
  "tick_reload_cycles w \<noteq> 0 \<Longrightarrow>
   unat (os_arch_max_window_ticks_get w) = 16777216 div unat (tick_reload_cycles w)"
  by (simp add: os_arch_max_window_ticks_get_def OS_ARCH_SYST_RVR_RELOAD_MSK_def unat_div)

lemma window_cycles_fit:
  assumes "h \<le> r" "n \<le> 16777216 div r" "1 \<le> n"
  shows "h + (n - 1) * r \<le> (16777216::nat)"
proof -
  have "h + (n - 1) * r \<le> n * r" using assms(1,3) by (cases n) simp_all
  also have "\<dots> \<le> 16777216 div r * r" using assms(2) by (rule mult_right_mono) simp
  also have "\<dots> \<le> 16777216" by simp
  finally show ?thesis .
qed

lemma self_open_effect:
  assumes o: "os_arch_tickless_self_open p w = (n, w')" and n: "n \<noteq> 0" and p: "2 \<le> unat p"
    and c: "unat (SYST_CVR (stk w) AND OS_ARCH_SYST_RVR_RELOAD_MSK) < unat (tick_reload_cycles w)"
  shows "self_armed n w'" "unat n \<le> unat p" "SYST_RVR (stk w') = suppressed_reload_cycles w' - 1"
    "tick_reload_cycles w' = tick_reload_cycles w"
proof -
  let ?r = "tick_reload_cycles w" and ?mw = "os_arch_max_window_ticks_get w"
  let ?c = "SYST_CVR (stk w) AND OS_ARCH_SYST_RVR_RELOAD_MSK"
  let ?h = "if ?c = 0 then ?r else ?c"
  let ?n = "if ucast p > ?mw then ucast ?mw else p"
  let ?s = "ucast ?h + ucast (?n - 1) * ucast ?r :: 64 word"
  have g: "?r \<noteq> 0" "?mw > 1" using o n by (auto simp: os_arch_tickless_self_open_def Let_def split: if_splits)
  have mw: "unat ?mw = 16777216 div unat ?r" using g(1) by (rule max_window_unat)
  have mb: "1 < unat ?mw" "unat ?mw \<le> 16777216" using g(2) mw by (simp_all add: word_less_nat_alt)
  have e: "n = ?n" "suppressed_head_cycles w' = ?h" "suppressed_reload_cycles w' = ucast ?s"
    "SYST_RVR (stk w') = suppressed_reload_cycles w' - 1" "tick_reload_cycles w' = ?r"
    using o n g by (auto simp: os_arch_tickless_self_open_def Let_def split_beta split: if_splits)
  show "tick_reload_cycles w' = ?r" "SYST_RVR (stk w') = suppressed_reload_cycles w' - 1" by (rule e)+
  have um: "unat (ucast ?mw :: u32) = unat ?mw"
    using mb by (simp add: unat_narrow)
  show np: "unat n \<le> unat p"
    using um by (auto simp: e(1) word_less_nat_alt)
  have nm: "2 \<le> unat n" "unat n \<le> 16777216 div unat ?r"
    using um mw mb p by (auto simp: e(1) word_less_nat_alt not_less)
  have h: "1 \<le> unat ?h" "unat ?h \<le> unat ?r"
    using c g(1) by (auto simp: unat_gt_0 Suc_le_eq)
  have fit: "unat ?h + (unat n - 1) * unat ?r \<le> 16777216"
    using window_cycles_fit [OF h(2) nm(2)] nm(1) by simp
  have n1: "unat (n - 1) = unat n - 1" using nm(1) by (subst unat_sub) (simp_all add: word_le_nat_alt)
  have "unat ?s = unat ?h + (unat n - 1) * unat ?r"
    unfolding e(1) [symmetric] using fit n1
    by (simp add: unat_word_ariths del: unat_1)
  then have "unat (ucast ?s :: u32) = unat ?h + (unat n - 1) * unat ?r"
    using fit by (simp add: unat_narrow)
  then show "self_armed n w'" using nm h fit by (simp add: self_armed_def e)
qed

text \<open>
  An early wake: the ticks counted and the cycles left are what the elapsed cycles amount to, so the
  next tick falls where it would have fallen had nothing been suppressed.
\<close>

definition elapsed_in :: "window \<Rightarrow> u32" where
  "elapsed_in w =
     (let cvr = SYST_CVR (stk w) AND OS_ARCH_SYST_RVR_RELOAD_MSK
      in if cvr = 0 then 0 else (suppressed_reload_cycles w - 1) - cvr)"

definition window_ended :: "window \<Rightarrow> bool" where
  "window_ended w \<longleftrightarrow> SYST_CSR (stk w) AND OS_ARCH_SYST_CSR_COUNTFLAG_MSK \<noteq> 0 \<or> PENDSTSET (stk w)"

text \<open>The counter never holds more than the reload it was started on.\<close>

definition counter_ok :: "window \<Rightarrow> bool" where
  "counter_ok w \<longleftrightarrow>
     unat (SYST_CVR (stk w) AND OS_ARCH_SYST_RVR_RELOAD_MSK) < unat (suppressed_reload_cycles w)"

lemma word_pred_unat: "x \<noteq> (0 :: u32) \<Longrightarrow> unat (x - 1) = unat x - 1"
  using unat_gt_0 [of x] by (subst unat_sub) (simp_all add: word_le_nat_alt Suc_le_eq)

lemma word_suc_nonzero: "(n :: u32) \<noteq> 0xFFFFFFFF \<Longrightarrow> n + 1 \<noteq> 0"
proof
  assume n: "n \<noteq> 0xFFFFFFFF" and z: "n + 1 = 0"
  from z have "n = - 1" by (simp add: eq_neg_iff_add_eq_0)
  then show False using n by simp
qed

lemma elapsed_in_less:
  assumes "self_armed n w" "counter_ok w"
  shows "unat (elapsed_in w) < unat (suppressed_reload_cycles w)"
proof -
  let ?S = "suppressed_reload_cycles w" and ?c = "SYST_CVR (stk w) AND OS_ARCH_SYST_RVR_RELOAD_MSK"
  have S: "0 < unat ?S" using assms(2) by (simp add: counter_ok_def)
  then have "?S \<noteq> 0" by auto
  then have S1: "unat (?S - 1) = unat ?S - 1" by (rule word_pred_unat)
  have "unat ((?S - 1) - ?c) = unat ?S - 1 - unat ?c"
    using assms(2) S1 by (subst unat_sub) (simp_all add: word_le_nat_alt counter_ok_def)
  then show ?thesis using S by (simp add: elapsed_in_def Let_def)
qed

lemma self_close_exact:
  assumes a: "self_armed n w" and c: "counter_ok w" and e: "\<not> window_ended w"
    and r: "self_close_count n w = (k, left)"
  shows "unat (elapsed_in w) + unat left =
           unat (suppressed_head_cycles w) + unat k * unat (tick_reload_cycles w)"
    and "unat k < unat n" "1 \<le> unat left" "unat left \<le> unat (tick_reload_cycles w)"
proof -
  let ?e = "elapsed_in w" and ?h = "suppressed_head_cycles w" and ?r = "tick_reload_cycles w"
  note less = elapsed_in_less [OF a c]
  have n2: "2 \<le> unat n" and h: "1 \<le> unat ?h" "unat ?h \<le> unat ?r"
    and S: "unat (suppressed_reload_cycles w) = unat ?h + (unat n - 1) * unat ?r"
    using a by (simp_all add: self_armed_def)
  have r0: "0 < unat ?r" using h by linarith
  have kl: "k = (if ?e \<ge> ?h then 1 + ((?e - ?h) div ?r) else 0)" "left = os_arch_tick_remaining ?e ?h ?r"
    using r e by (auto simp: self_close_count_def window_ended_def elapsed_in_def Let_def)
  have "unat ?e + unat left = unat ?h + unat k * unat ?r \<and> unat k < unat n \<and> 1 \<le> unat left \<and> unat left \<le> unat ?r"
  proof (cases "?e < ?h")
    case True
    then have "unat left = unat ?h - unat ?e" "k = 0" "unat ?e < unat ?h"
      using unat_sub_le [of ?e ?h] by (auto simp: kl os_arch_tick_remaining_def word_less_nat_alt word_le_nat_alt)
    then show ?thesis using h n2 by (simp add: Suc_le_eq)
  next
    case False
    define d where "d = unat ?e - unat ?h"
    have d: "unat (?e - ?h) = d" "unat ?e = unat ?h + d"
      using False by (simp_all add: d_def unat_sub_le word_le_nat_alt not_less)
    have "d < (unat n - 1) * unat ?r" using less S d by simp
    then have q: "d div unat ?r < unat n - 1" by (simp add: div_less_iff_less_mult r0)
    have nb: "unat n < 4294967296" using unsigned_less [of n, where 'a = nat] by simp
    have "unat (1 + (?e - ?h) div ?r) = 1 + d div unat ?r"
      using q nb d by (simp add: unat_word_ariths unat_div)
    then have k: "unat k = 1 + d div unat ?r" using False by (simp add: kl not_less)
    have m: "d mod unat ?r < unat ?r" using r0 by simp
    have "unat left = unat ?r - d mod unat ?r"
      using False m d(1) by (simp add: kl os_arch_tick_remaining_def) (subst unat_sub, simp_all add: word_le_nat_alt unat_mod)
    moreover have "d = d div unat ?r * unat ?r + d mod unat ?r" by simp
    ultimately have "unat ?e + unat left = unat ?h + (d div unat ?r * unat ?r + unat ?r)" "1 \<le> unat left"
      "unat left \<le> unat ?r"
      using m d(2) by linarith+
    then show ?thesis using k q by simp
  qed
  then show "unat ?e + unat left = unat ?h + unat k * unat ?r" "unat k < unat n" "1 \<le> unat left" "unat left \<le> unat ?r"
    by blast+
qed

lemma self_close_ended:
  assumes a: "self_armed n w" and e: "window_ended w" and r: "self_close_count n w = (k, left)"
  shows "unat k = unat n - 1"
    and "unat (tick_reload_cycles w) dvd unat left +
           unat (if SYST_CVR (stk w) AND OS_ARCH_SYST_RVR_RELOAD_MSK = 0 then 0 else elapsed_in w)"
proof -
  let ?r = "tick_reload_cycles w"
  let ?l = "if SYST_CVR (stk w) AND OS_ARCH_SYST_RVR_RELOAD_MSK = 0 then 0 else elapsed_in w"
  have kl: "k = n - 1" "left = ?r - (?l mod ?r)"
    using r e by (auto simp: self_close_count_def window_ended_def elapsed_in_def Let_def)
  have n: "n \<noteq> 0" and r0: "0 < unat ?r" using a by (auto simp: self_armed_def)
  show "unat k = unat n - 1" using word_pred_unat [OF n] by (simp add: kl)
  have m: "unat (?l mod ?r) = unat ?l mod unat ?r" by (rule unat_mod)
  have "unat left = unat ?r - unat ?l mod unat ?r"
    unfolding kl using r0 m by (subst unat_sub) (simp_all add: word_le_nat_alt less_imp_le)
  moreover have "unat ?l mod unat ?r < unat ?r" using r0 by simp
  ultimately have "unat left + unat ?l = unat ?r + unat ?l div unat ?r * unat ?r"
    using div_mult_mod_eq [of "unat ?l" "unat ?r"] by linarith
  then show "unat ?r dvd unat left + unat ?l" by simp
qed

lemma self_close_bound:
  assumes "self_armed n w" "counter_ok w"
  shows "unat (fst (os_arch_tickless_self_close n w)) < unat n"
proof -
  obtain k left where r: "self_close_count n w = (k, left)" by fastforce
  have "unat k < unat n"
  proof (cases "window_ended w")
    case True
    have "2 \<le> unat n" using assms(1) by (simp add: self_armed_def)
    then show ?thesis using self_close_ended(1) [OF assms(1) True r] by linarith
  next
    case False
    then show ?thesis by (rule self_close_exact(2) [OF assms _ r])
  qed
  then show ?thesis by (simp add: os_arch_tickless_self_close_def r Let_def)
qed

section \<open>A whole sleep\<close>

text \<open>The hardware while the core sleeps: a counter started at zero reloads, and never exceeds its reload.\<close>

definition systick_counts_down :: "(systick \<Rightarrow> systick) \<Rightarrow> bool" where
  "systick_counts_down hw \<longleftrightarrow>
     (\<forall>st. SYST_CVR st = 0 \<longrightarrow>
        unat (SYST_CVR (hw st) AND OS_ARCH_SYST_RVR_RELOAD_MSK) \<le> unat (SYST_RVR st))"

definition tick_running :: "window \<Rightarrow> bool" where
  "tick_running w \<longleftrightarrow>
     (dwt_available w \<longrightarrow>
        unat (SYST_CVR (stk w) AND OS_ARCH_SYST_RVR_RELOAD_MSK) < unat (tick_reload_cycles w))"

lemma sleep_window:
  "tickless_planned (OS_ARCH_SLEEP soc hw p w) = tickless_planned (os_arch_sleep_prepare soc p w)"
  "tickless_soc_window (OS_ARCH_SLEEP soc hw p w) = tickless_soc_window (os_arch_sleep_prepare soc p w)"
  "suppressed_reload_cycles (OS_ARCH_SLEEP soc hw p w) = suppressed_reload_cycles (os_arch_sleep_prepare soc p w)"
  "suppressed_head_cycles (OS_ARCH_SLEEP soc hw p w) = suppressed_head_cycles (os_arch_sleep_prepare soc p w)"
  "tick_reload_cycles (OS_ARCH_SLEEP soc hw p w) = tick_reload_cycles (os_arch_sleep_prepare soc p w)"
  "stk (OS_ARCH_SLEEP soc hw p w) = hw (stk (os_arch_sleep_prepare soc p w))"
  by (simp_all add: OS_ARCH_SLEEP_def Let_def split_beta)

lemma self_open_cvr: "os_arch_tickless_self_open p w = (n, w') \<Longrightarrow> n \<noteq> 0 \<Longrightarrow> SYST_CVR (stk w') = 0"
  by (auto simp: os_arch_tickless_self_open_def Let_def split_beta split: if_splits)

lemma soc_sleep_window:
  "2 \<le> p \<Longrightarrow> tick_suppress_max_cb soc \<noteq> 0 \<Longrightarrow> tickless_soc_window (os_arch_sleep_prepare soc p w)"
  by (simp add: os_arch_sleep_prepare_def)

lemma sleep_never_overruns:
  assumes t: "tick_running w" and hw: "systick_counts_down hw"
  shows "unat (fst (os_arch_elapsed_ticks_get (\<lambda>_ e. e) soc (OS_ARCH_SLEEP soc hw p w))) \<le> unat p"
proof (cases "tickless_planned (OS_ARCH_SLEEP soc hw p w) = 0")
  case True
  then show ?thesis by (simp add: os_arch_elapsed_ticks_get_def)
next
  case armed: False
  let ?w = "OS_ARCH_SLEEP soc hw p w" and ?base = "w\<lparr>tickless_planned := 0, tickless_soc_window := False\<rparr>"
  show ?thesis
  proof (cases "tickless_soc_window ?w")
    case True
    then have "tickless_planned ?w = p"
      by (auto simp: sleep_window os_arch_sleep_prepare_def Let_def os_arch_tickless_self_open_def split_beta
          split: if_splits)
    then show ?thesis using True armed
      by (simp add: os_arch_elapsed_ticks_get_def Let_def word_le_nat_alt [symmetric] not_less)
  next
    case False
    obtain n w1 where o: "os_arch_tickless_self_open p ?base = (n, w1)" by fastforce
    have ns: "\<not> (p \<ge> 2 \<and> tick_suppress_max_cb soc \<noteq> 0)"
    proof
      assume "p \<ge> 2 \<and> tick_suppress_max_cb soc \<noteq> 0"
      then have "tickless_soc_window (os_arch_sleep_prepare soc p w)" by (intro soc_sleep_window) simp_all
      then have "tickless_soc_window ?w" by (simp only: sleep_window)
      then show False using False by blast
    qed
    then have pr: "os_arch_sleep_prepare soc p w =
        (if p \<ge> 2 \<and> dwt_available w then w1\<lparr>tickless_planned := n\<rparr> else ?base)"
      using o by (auto simp: os_arch_sleep_prepare_def Let_def os_arch_tickless_self_available_def)
    have b: "2 \<le> unat p" "dwt_available w" "os_arch_sleep_prepare soc p w = w1\<lparr>tickless_planned := n\<rparr>"
      using armed pr by (auto simp: sleep_window word_le_nat_alt split: if_splits)
    have n0: "n \<noteq> 0" using armed b(3) by (simp add: sleep_window)
    have c: "unat (SYST_CVR (stk ?base) AND OS_ARCH_SYST_RVR_RELOAD_MSK) < unat (tick_reload_cycles ?base)"
      using t b(2) by (simp add: tick_running_def)
    note eff = self_open_effect [OF o n0 b(1) c]
    have a: "self_armed n ?w" using eff(1) by (simp add: self_armed_def sleep_window b(3))
    have S: "0 < unat (suppressed_reload_cycles w1)" using eff(1) by (simp add: self_armed_def)
    then have "suppressed_reload_cycles w1 \<noteq> 0" by auto
    then have "unat (SYST_RVR (stk w1)) = unat (suppressed_reload_cycles w1) - 1"
      unfolding eff(3) by (rule word_pred_unat)
    moreover have "unat (SYST_CVR (hw (stk w1)) AND OS_ARCH_SYST_RVR_RELOAD_MSK) \<le> unat (SYST_RVR (stk w1))"
      using hw self_open_cvr [OF o n0] by (simp add: systick_counts_down_def)
    ultimately have "counter_ok ?w" using S by (simp add: counter_ok_def sleep_window b(3))
    with a have "unat (fst (os_arch_tickless_self_close n ?w)) < unat n" by (rule self_close_bound)
    then show ?thesis using eff(2) False n0
      by (simp add: os_arch_elapsed_ticks_get_def Let_def split_beta sleep_window b(3))
  qed
qed

text \<open>What the query promises is what the open arms: the kernel never plans a window the port shortens.\<close>

lemma ceiling_is_honoured:
  assumes s: "tick_suppress_max_cb soc = 0" and d: "dwt_available w" and p: "2 \<le> p"
    "p \<le> os_arch_max_suppressed_ticks_get soc w" and n: "\<not> PENDSTSET (stk w)"
  shows "tickless_planned (os_arch_sleep_prepare soc p w) = p"
proof -
  let ?mw = "os_arch_max_window_ticks_get w" and ?base = "w\<lparr>tickless_planned := 0, tickless_soc_window := False\<rparr>"
  have m: "os_arch_max_suppressed_ticks_get soc w = ucast ?mw"
    using s d by (simp add: os_arch_max_suppressed_ticks_get_def os_arch_tickless_self_available_def
        os_arch_tickless_self_max_ticks_def Let_def)
  have mw: "os_arch_max_window_ticks_get ?base = ?mw" by (simp add: os_arch_max_window_ticks_get_def)
  have r0: "tick_reload_cycles w \<noteq> 0"
  proof
    assume "tick_reload_cycles w = 0"
    then have "p \<le> 0" using p(2) m by (simp add: os_arch_max_window_ticks_get_def)
    then show False using p(1) by simp
  qed
  have "16777216 div unat (tick_reload_cycles w) \<le> 16777216" by (rule div_le_dividend)
  then have "unat ?mw < 4294967296" using max_window_unat [OF r0] by linarith
  then have "unat (ucast ?mw :: u32) = unat ?mw" by (rule unat_narrow)
  then have b: "unat p \<le> unat ?mw" "2 \<le> unat p" using p m by (simp_all add: word_le_nat_alt)
  then have c: "\<not> (ucast p :: 64 word) > ?mw" "?mw > 1" by (simp_all add: word_less_nat_alt)
  have "fst (os_arch_tickless_self_open p ?base) = p"
    using r0 c n by (simp add: os_arch_tickless_self_open_def Let_def split_beta mw)
  then show ?thesis
    using s d p(1) by (simp add: os_arch_sleep_prepare_def os_arch_tickless_self_available_def split_beta)
qed

section \<open>The masks are put back\<close>

lemma kernel_mask_round_trip:
  "os_arch_kernel_mask_restore ceil (fst (os_arch_kernel_mask_save ceil m)) (snd (os_arch_kernel_mask_save ceil m)) = m"
  by (simp add: os_arch_kernel_mask_restore_def os_arch_kernel_mask_save_def os_arch_primask_get_def)

lemma byte_below_bit8: "(b :: u32) < 256 \<Longrightarrow> b AND 0x100 = 0 \<and> b AND 0xFF = b"
proof -
  assume "b < 256"
  then have t: "take_bit 8 b = b" 
    by (simp add: word_unat_eq_iff unsigned_take_bit_eq take_bit_nat_eq_self word_less_nat_alt)
  have "(0xFF :: u32) = mask 8" by (simp add: mask_eq_exp_minus_1)
  then have "b AND 0xFF = b" using t by (simp add: take_bit_eq_mask)
  moreover have "take_bit 8 b AND 0x100 = 0"
  proof (rule bit_word_eqI)
    fix n
    show "bit (take_bit 8 b AND 0x100) n = bit (0 :: u32) n"
      using bit_exp_iff [where ?'a = "32 word", of 8 n] by (cases "n < 8") (auto simp: bit_and_iff bit_take_bit_iff)
  qed
  ultimately show ?thesis using t by simp
qed


lemma sleep_mask_round_trip:
  assumes "BASEPRI m < 256"
  shows "os_arch_sleep_mask_exit ceil (fst (os_arch_sleep_mask_enter ceil m)) (snd (os_arch_sleep_mask_enter ceil m)) = m"
proof -
  note b = byte_below_bit8 [OF assms]
  have p: "(0x100 OR BASEPRI m) AND 0xFF = BASEPRI m" "(0x100 OR BASEPRI m) AND 0x100 \<noteq> 0"
    using b by (simp_all add: bit.conj_disj_distrib2)
  show ?thesis
    using b p by (auto simp: os_arch_sleep_mask_exit_def os_arch_sleep_mask_enter_def os_arch_primask_get_def Let_def
        bit.conj_disj_distrib2)
qed

text \<open>A window of the port holds the kernel mask from the open to \<open>os_arch_sleep_finish\<close>, which puts back what it found.\<close>

lemma window_mask_round_trip:
  assumes h: "\<not> sleep_mask_held w" and b: "BASEPRI (snd (os_arch_kernel_mask_save (irq_ceil w) (irq w))) < 256"
    "BASEPRI (irq w) < 256"
  shows "irq (os_arch_sleep_finish (snd (os_arch_elapsed_ticks_get adjust soc (OS_ARCH_SLEEP soc hw p w)))) = irq w"
proof -
  let ?p = "os_arch_sleep_prepare soc p w" and ?s = "OS_ARCH_SLEEP soc hw p w"
  have i: "irq ?s = irq ?p" if "BASEPRI (irq ?p) < 256"
    using sleep_mask_round_trip [OF that] by (simp add: OS_ARCH_SLEEP_def Let_def split_beta)
  have f: "sleep_mask_held ?s = sleep_mask_held ?p" "sleep_mask_state ?s = sleep_mask_state ?p" "irq_ceil ?s = irq_ceil ?p"
    by (simp_all add: OS_ARCH_SLEEP_def Let_def split_beta)
  have e: "irq (snd (os_arch_elapsed_ticks_get adjust soc v)) = irq v"
    "sleep_mask_held (snd (os_arch_elapsed_ticks_get adjust soc v)) = sleep_mask_held v"
    "sleep_mask_state (snd (os_arch_elapsed_ticks_get adjust soc v)) = sleep_mask_state v"
    "irq_ceil (snd (os_arch_elapsed_ticks_get adjust soc v)) = irq_ceil v" for v
    by (simp_all add: os_arch_elapsed_ticks_get_def os_arch_tickless_self_close_def os_arch_cycle_window_close_def
        os_arch_tickless_tick_restore_def Let_def split_beta)
  have "irq_ceil ?p = irq_ceil w \<and>
    (if sleep_mask_held ?p
     then (sleep_mask_state ?p, irq ?p) = os_arch_kernel_mask_save (irq_ceil w) (irq w)
     else irq ?p = irq w)"
    using h kernel_mask_round_trip [of "irq_ceil w" "irq w"]
    by (simp add: os_arch_sleep_prepare_def os_arch_tickless_self_open_def os_arch_cycle_window_open_def
        os_arch_tickless_tick_silence_def Let_def split_beta)
  then show ?thesis
    using b i kernel_mask_round_trip [of "irq_ceil w" "irq w"]
    by (cases "sleep_mask_held ?p")
       (simp_all add: os_arch_sleep_finish_def os_arch_tickless_self_finish_def e f, metis fst_conv snd_conv)
qed

section \<open>A reference clock overrides the clamp\<close>

text \<open>
  The clamp to the planned ticks comes before the adjustment, which then replaces the clamped count.
  With a reference clock a window that was opened for ten ticks can report twelve.
\<close>

definition overrun_window :: window where
  "overrun_window = \<lparr>irq_ceil = 0, stk = \<lparr>SYST_CSR = 7, SYST_RVR = 999, SYST_CVR = 500, PENDSTSET = False\<rparr>,
     irq = \<lparr>PRIMASK = True, BASEPRI = 0\<rparr>, tick_reload_cycles = 1000, dwt_available = False, tickless_planned = 0,
     tickless_soc_window = False, tickless_saved_csr = 0, suppressed_reload_cycles = 0, suppressed_head_cycles = 0,
     sleep_mask_state = 0, sleep_mask_held = False, cycle_periods = 0, cycle_fallback = 0, cycle_window_mark = 0\<rparr>"

lemma reference_clock_overruns_plan:
  "fst (os_arch_elapsed_ticks_get
     (os_arch_tickless_elapsed_adjust 1000000 1000000
        \<lparr>rs_reference = 0, rs_cvr = 500, rs_pending = False\<rparr> \<lparr>rs_reference = 12000, rs_cvr = 500, rs_pending = False\<rparr>)
     \<lparr>tick_suppress_max_cb = 1000, tick_suppress_min_cb = 0, tick_resume_cb = 12\<rparr>
     (OS_ARCH_SLEEP \<lparr>tick_suppress_max_cb = 1000, tick_suppress_min_cb = 0, tick_resume_cb = 12\<rparr>
        (\<lambda>st. st) 10 overrun_window)) = 12"
  by code_simp

end
