(* ===== verification/Tick.thy ===== *)
theory Tick
  imports Window TimerPool Switch
begin

text \<open>
  The time base of \<^verbatim>\<open>kernel/os_tick.c\<close>: the tick interrupt, the announcement of a slept-through
  span, the processor-usage counters and the tickless idle pass. The state joins the kernel's, the
  timer service's and the port's. \<open>os_critical_enter\<close>/\<open>exit\<close> pairs around a few statements have no
  effect of their own here; \<^verbatim>\<open>Critical\<close> models them. The configuration enables timers, tickless idle
  and usage counting.
\<close>

section \<open>State\<close>

record tick_sys =
  ks :: kstate
  tms :: timers
  win :: window
  usage_total_ticks :: u32
  usage_idle_ticks :: u32
  last_plan_tick :: u32
  last_plan_generation :: u32

text \<open>What the port and the application answer in one idle pass.\<close>

record tick_port =
  tp_soc :: soc_source
  tp_sleep_prepare :: bool
  tp_adjust :: "window \<Rightarrow> u32 \<Rightarrow> u32"
  tp_hardware :: "systick \<Rightarrow> systick"

definition set_tick_count :: "u32 \<Rightarrow> tick_sys \<Rightarrow> tick_sys" where
  "set_tick_count n y = y\<lparr>ks := (ks y)\<lparr>tick_count := n\<rparr>\<rparr>"

definition kernel_masked :: "(tick_sys \<Rightarrow> tick_sys) \<Rightarrow> tick_sys \<Rightarrow> tick_sys" where
  "kernel_masked f y =
     (let (mask_state, m) = os_arch_kernel_mask_save (irq_ceil (win y)) (irq (win y));
          y1 = f (y\<lparr>win := (win y)\<lparr>irq := m\<rparr>\<rparr>)
      in y1\<lparr>win := (win y1)\<lparr>irq := os_arch_kernel_mask_restore (irq_ceil (win y1)) mask_state (irq (win y1))\<rparr>\<rparr>)"

section \<open>The tick\<close>

definition os_tick_init :: "(window \<Rightarrow> window) \<Rightarrow> tick_sys \<Rightarrow> tick_sys" where
  "os_tick_init os_arch_tick_init y = (set_tick_count 0 y)\<lparr>win := os_arch_tick_init (win y)\<rparr>"

definition owns_time_base :: "kstate \<Rightarrow> bool" where
  "owns_time_base s \<longleftrightarrow> (if 1 < core_count s then this_core s = 0 else True)"

text \<open>Timers first, then the sleepers.\<close>

definition time_pass :: "u32 \<Rightarrow> tick_sys \<Rightarrow> tick_sys" where
  "time_pass e y =
     (case os_timer_tick_process e (tms y, ks y) of
        (ts, s) \<Rightarrow> y\<lparr>tms := ts, ks := os_task_tick_update e s\<rparr>)"

definition switch_if_possible :: "kstate \<Rightarrow> kstate" where
  "switch_if_possible s =
     (if kernel_running s \<and> os_task_reschedule_possible s then os_arch_context_switch_request s else s)"

definition os_tick_handler :: "tick_sys \<Rightarrow> tick_sys" where
  "os_tick_handler y =
     (let y1 = (if owns_time_base (ks y) then
                  let ya = set_tick_count (tick_count (ks y) + 1) y;
                      yb = ya\<lparr>usage_total_ticks := usage_total_ticks ya + 1,
                              usage_idle_ticks := (if os_task_current_is_idle (ks ya)
                                then usage_idle_ticks ya + 1 else usage_idle_ticks ya)\<rparr>
                  in time_pass 1 yb
                else y)
      in y1\<lparr>ks := switch_if_possible (os_task_slice_tick 1 (ks y1)), win := os_arch_cycle_tick (win y1)\<rparr>)"

definition announce_ticks :: "u32 \<Rightarrow> tick_sys \<Rightarrow> tick_sys" where
  "announce_ticks elapsed_ticks y =
     (let ya = set_tick_count (tick_count (ks y) + elapsed_ticks) y;
          yb = ya\<lparr>usage_total_ticks := usage_total_ticks ya + elapsed_ticks,
                  usage_idle_ticks := usage_idle_ticks ya + elapsed_ticks\<rparr>;
          yc = time_pass elapsed_ticks yb
      in yc\<lparr>ks := os_task_slice_tick elapsed_ticks (ks yc)\<rparr>)"

definition os_tick_announce :: "u32 \<Rightarrow> tick_sys \<Rightarrow> tick_sys" where
  "os_tick_announce elapsed_ticks y =
     (let y1 = kernel_masked (announce_ticks elapsed_ticks) y
      in y1\<lparr>ks := switch_if_possible (ks y1)\<rparr>)"

definition os_cpu_usage_get :: "tick_sys \<Rightarrow> u32 \<times> tick_sys" where
  "os_cpu_usage_get y =
     (let total = usage_total_ticks y; idle = usage_idle_ticks y;
          y1 = y\<lparr>usage_total_ticks := 0, usage_idle_ticks := 0\<rparr>
      in (if total \<noteq> 0 then
            let idle' = (if idle > total then total else idle)
            in ucast ((((ucast total :: 64 word) - ucast idle') * 100) div ucast total)
          else 0, y1))"

section \<open>Tickless idle\<close>

definition os_tickless_expected_idle_ticks_get :: "timers \<Rightarrow> kstate \<Rightarrow> u32" where
  "os_tickless_expected_idle_ticks_get ts s =
     (let candidate = os_timer_next_expiry_ticks_get ts;
          idle = (if candidate < 0xFFFFFFFF then candidate else 0xFFFFFFFF);
          candidate' = os_task_next_delay_ticks_get s
      in if candidate' < idle then candidate' else idle)"

definition os_tickless_max_suppressed_ticks_get :: "soc_source \<Rightarrow> window \<Rightarrow> u32" where
  "os_tickless_max_suppressed_ticks_get = os_arch_max_suppressed_ticks_get"

text \<open>The floor of the configuration, \<open>ms\<close> milliseconds at \<open>hz\<close> ticks a second, in 32-bit arithmetic.\<close>

definition OS_TICKLESS_MIN_IDLE_TICKS :: "u32 \<Rightarrow> u32 \<Rightarrow> u32" where
  "OS_TICKLESS_MIN_IDLE_TICKS ms hz =
     (let n = (ms * hz + 999) div 1000 in if n < 2 then 2 else n)"

definition OS_TICKLESS_MAX_IDLE_TICKS :: u32 where
  "OS_TICKLESS_MAX_IDLE_TICKS = 0xFFFFFFFF div 2"

definition tickless_plan :: "u32 \<Rightarrow> timers \<Rightarrow> kstate \<Rightarrow> u32" where
  "tickless_plan suppress_ceiling ts s =
     (let n = os_tickless_expected_idle_ticks_get ts s;
          n1 = (if suppress_ceiling \<noteq> 0 \<and> n > suppress_ceiling then suppress_ceiling else n)
      in if n1 > OS_TICKLESS_MAX_IDLE_TICKS then OS_TICKLESS_MAX_IDLE_TICKS else n1)"

definition tickless_floor :: "u32 \<Rightarrow> soc_source \<Rightarrow> u32" where
  "tickless_floor min_idle soc =
     (let n = os_arch_min_suppressed_ticks_get soc in if n < min_idle then min_idle else n)"

definition tickless_sleep :: "tick_port \<Rightarrow> u32 \<Rightarrow> tick_sys \<Rightarrow> tick_sys" where
  "tickless_sleep port planned y =
     (let w = OS_ARCH_SLEEP (tp_soc port) (tp_hardware port) planned (win y)
      in case os_arch_elapsed_ticks_get (tp_adjust port) (tp_soc port) w of
           (elapsed_ticks, w1) \<Rightarrow>
             let y1 = os_tick_announce elapsed_ticks (y\<lparr>win := w1\<rparr>)
             in y1\<lparr>win := os_arch_sleep_finish (win y1)\<rparr>)"

definition set_window_open :: "bool \<Rightarrow> tick_sys \<Rightarrow> tick_sys" where
  "set_window_open b y =
     (if 1 < core_count (ks y) then y\<lparr>ks := (ks y)\<lparr>window_open := b\<rparr>\<rparr> else y)"

definition os_tickless_idle_process :: "u32 \<Rightarrow> tick_port \<Rightarrow> tick_sys \<Rightarrow> tick_sys" where
  "os_tickless_idle_process min_idle port =
     kernel_masked (\<lambda>y.
       let owner = owns_time_base (ks y);
           fresh = (tick_count (ks y) \<noteq> last_plan_tick y \<or> plan_generation (ks y) \<noteq> last_plan_generation y);
           y1 = (if owner then y\<lparr>last_plan_tick := tick_count (ks y),
                                 last_plan_generation := plan_generation (ks y)\<rparr> else y)
       in if owner \<and> fresh \<and> tp_sleep_prepare port then
            let y2 = set_window_open True y1;
                suppress_ceiling = os_arch_max_suppressed_ticks_get (tp_soc port) (win y2);
                planned = tickless_plan suppress_ceiling (tms y2) (ks y2);
                y3 = (if suppress_ceiling \<noteq> 0 \<and> planned \<ge> tickless_floor min_idle (tp_soc port)
                      then tickless_sleep port planned y2 else y2)
            in set_window_open False y3
          else y1)"

section \<open>What a span of time does\<close>

text \<open>Waking a task leaves every other sleeper's deadline as it was.\<close>

lemma wake_deadline:
  assumes k: "kwf {} s" and t: "is_slot t"
  shows "sleepers.deadline (os_task_wake_locked (Some t) s) x =
    (if x = t \<and> task_state (tcb_of s t) = OS_TASK_STATE_BLOCKED then None else sleepers.deadline s x)"
proof (cases "task_state (tcb_of s t) = OS_TASK_STATE_BLOCKED")
  case b: True
  let ?s' = "signal_and_ready t (\<lambda>x. x) s"
  have w: "os_task_wake_locked (Some t) s = ?s'" using b by (simp add: os_task_wake_locked_def)
  have k': "kwf {} ?s'" by (rule signal_and_ready_kwf [OF k t]) simp
  have "task_state (tcb_of ?s' t) = OS_TASK_STATE_READY"
    using signal_and_ready_effect(3) [OF k t, of "\<lambda>x. x" t] by simp
  then have "t \<notin> set (delay_list ?s')" using kwf_delay_iff [OF k', of t] by simp
  then have none: "sleepers.deadline ?s' t = None" by (simp add: sleepers.deadline_def due_None_iff)
  note q = os_task_unlink_queue [OF k t _ detached_ok_empty b]
  have "delay_list ?s' = delay_list (unlink_state t s)"
    "delay_ticks (tcb_of ?s' y) = delay_ticks (tcb_of (unlink_state t s) y)" for y
    using q by (simp_all add: signal_and_ready_def Let_def make_ready_tcb)
  then have ul: "sleepers.deadline ?s' x = sleepers.deadline (unlink_state t s) x"
    by (simp add: sleepers.deadline_def)
  have "sleepers.deadline (unlink_state t s) x = sleepers.deadline s x" if "x \<noteq> t"
    using b that sleepers.disarm_deadline [OF kwf_queue_ok [OF k] that] by (simp add: unlink_state_def)
  then show ?thesis using w b none ul by (cases "x = t") simp_all
next
  case False
  then show ?thesis by (simp add: os_task_wake_locked_def)
qed

definition timer_task_ok :: "timers \<Rightarrow> bool" where
  "timer_task_ok ts \<longleftrightarrow> (case os_timer_task_tcb ts of None \<Rightarrow> True | Some t \<Rightarrow> is_slot t)"

lemma timer_tick_kernel:
  assumes k: "kwf {} s" and ok: "timers_ok ts" "timer_task_ok ts" and r: "os_timer_tick_process e (ts, s) = (ts', s')"
  shows "kwf {} s'" "same_env s s'" "timer_task_ok ts'"
    "Some x \<noteq> os_timer_task_tcb ts \<Longrightarrow> sleepers.deadline s' x = sleepers.deadline s x"
    "Some x \<noteq> os_timer_task_tcb ts \<Longrightarrow> task_state (tcb_of s' x) = task_state (tcb_of s x)"
proof -
  have slot: "is_slot t" if "os_timer_task_tcb ts = Some t" for t
    using ok(2) that by (simp add: timer_task_ok_def)
  have s': "s' = s \<or> s' = os_task_wake_locked (os_timer_task_tcb ts) s" and ts': "os_timer_task_tcb ts' = os_timer_task_tcb ts"
    using tick_effect(7,8) [OF ok(1) _ r] r
    by (cases "0 < e"; simp add: os_timer_tick_process_def)+
  show "timer_task_ok ts'" using ok(2) ts' by (simp add: timer_task_ok_def)
  show "kwf {} s'" "same_env s s'" using s' os_task_wake_locked_kwf [OF k slot] k by auto
  show "Some x \<noteq> os_timer_task_tcb ts \<Longrightarrow> sleepers.deadline s' x = sleepers.deadline s x"
    using s' wake_deadline [OF k slot, of _ x]
    by (cases "os_timer_task_tcb ts") (auto simp: os_task_wake_locked_def)
  show "Some x \<noteq> os_timer_task_tcb ts \<Longrightarrow> task_state (tcb_of s' x) = task_state (tcb_of s x)"
    using s' signal_and_ready_effect(3) [OF k slot, of _ "\<lambda>x. x" x]
    by (cases "os_timer_task_tcb ts") (auto simp: os_task_wake_locked_def)
qed

definition time_ok :: "tick_sys \<Rightarrow> bool" where
  "time_ok y \<longleftrightarrow> kwf {} (ks y) \<and> service_ok (tms y) \<and> timer_task_ok (tms y)"

lemma time_pass_effect:
  assumes ok: "time_ok y" and e: "0 < e"
  shows "time_ok (time_pass e y)"
    and "same_env (ks y) (ks (time_pass e y))"
    and "Some x \<noteq> os_timer_task_tcb (tms y) \<Longrightarrow> sleepers.deadline (ks (time_pass e y)) x =
       (case sleepers.deadline (ks y) x of None \<Rightarrow> None
        | Some n \<Rightarrow> if n \<le> unat e then None else Some (n - unat e))"
    and "Some x \<noteq> os_timer_task_tcb (tms y) \<Longrightarrow> task_state (tcb_of (ks (time_pass e y)) x) =
       (case sleepers.deadline (ks y) x of None \<Rightarrow> task_state (tcb_of (ks y) x)
        | Some n \<Rightarrow> if n \<le> unat e then OS_TASK_STATE_READY else task_state (tcb_of (ks y) x))"
    and "armed.deadline (tms (time_pass e y)) t = (case armed.deadline (tms y) t of None \<Rightarrow> None
       | Some n \<Rightarrow> if unat e < n then Some (n - unat e)
                  else if periodic (tms y) t then Some (unat (tm_period_ticks (timer_of (tms y) t))) else None)"
proof -
  obtain ts s where r: "os_timer_tick_process e (tms y, ks y) = (ts, s)" by fastforce
  have p: "time_pass e y = y\<lparr>tms := ts, ks := os_task_tick_update e s\<rparr>" by (simp add: time_pass_def r)
  have k: "kwf {} (ks y)" "service_ok (tms y)" "timers_ok (tms y)" "timer_task_ok (tms y)"
    using ok by (simp_all add: time_ok_def service_ok_def)
  note tk = timer_tick_kernel [OF k(1,3,4) r]
  note up = os_task_tick_update_spec [OF tk(1), of e]
  have u: "0 < unat e" using e by (simp add: word_less_nat_alt)
  show "time_ok (time_pass e y)"
    using up(1) tk(3) tick_service [OF k(2) r] by (simp add: p time_ok_def quiet_step_def)
  show "same_env (ks y) (ks (time_pass e y))" using same_env_trans [OF tk(2) up(2)] by (simp add: p)
  show "Some x \<noteq> os_timer_task_tcb (tms y) \<Longrightarrow> sleepers.deadline (ks (time_pass e y)) x =
       (case sleepers.deadline (ks y) x of None \<Rightarrow> None
        | Some n \<Rightarrow> if n \<le> unat e then None else Some (n - unat e))"
    using up(4) [of x] tk(4) [of x] u by (simp add: p split: option.split)
  show "Some x \<noteq> os_timer_task_tcb (tms y) \<Longrightarrow> task_state (tcb_of (ks (time_pass e y)) x) =
       (case sleepers.deadline (ks y) x of None \<Rightarrow> task_state (tcb_of (ks y) x)
        | Some n \<Rightarrow> if n \<le> unat e then OS_TASK_STATE_READY else task_state (tcb_of (ks y) x))"
    using up(3) [of x] tk(4,5) [of x] u by (simp add: p split: option.split)
  show "armed.deadline (tms (time_pass e y)) t = (case armed.deadline (tms y) t of None \<Rightarrow> None
       | Some n \<Rightarrow> if unat e < n then Some (n - unat e)
                  else if periodic (tms y) t then Some (unat (tm_period_ticks (timer_of (tms y) t))) else None)"
    using tick_effect(2) [OF k(3) e r, of t] by (simp add: p)
qed

section \<open>The tick and the announcement\<close>

text \<open>
  The specification of a span of \<open>e\<close> ticks: the clock moves by \<open>e\<close>; every sleeper but the timer task,
  which the timers themselves wake, is \<open>e\<close> ticks nearer its deadline, or ready if that lies within
  the span; so is every timer, and a periodic one that expired is armed for a full period.
\<close>

definition sleeper_moved :: "nat \<Rightarrow> kstate \<Rightarrow> kstate \<Rightarrow> tref \<Rightarrow> bool" where
  "sleeper_moved e s s' x \<longleftrightarrow>
     (case sleepers.deadline s x of
        None \<Rightarrow> sleepers.deadline s' x = None \<and> task_state (tcb_of s' x) = task_state (tcb_of s x)
      | Some n \<Rightarrow> if n \<le> e then sleepers.deadline s' x = None \<and> task_state (tcb_of s' x) = OS_TASK_STATE_READY
                  else sleepers.deadline s' x = Some (n - e) \<and> task_state (tcb_of s' x) = task_state (tcb_of s x))"

definition timer_moved :: "nat \<Rightarrow> timers \<Rightarrow> timers \<Rightarrow> nat \<Rightarrow> bool" where
  "timer_moved e ts ts' t \<longleftrightarrow>
     armed.deadline ts' t = (case armed.deadline ts t of
        None \<Rightarrow> None
      | Some n \<Rightarrow> if e < n then Some (n - e)
                  else if periodic ts t then Some (unat (tm_period_ticks (timer_of ts t))) else None)"

definition time_moved :: "u32 \<Rightarrow> tick_sys \<Rightarrow> tick_sys \<Rightarrow> bool" where
  "time_moved e y y' \<longleftrightarrow>
     tick_count (ks y') = tick_count (ks y) + e \<and>
     (\<forall>x. Some x \<noteq> os_timer_task_tcb (tms y) \<longrightarrow> sleeper_moved (unat e) (ks y) (ks y') x) \<and>
     (\<forall>t. timer_moved (unat e) (tms y) (tms y') t)"

lemma same_view_time:
  assumes "same_view s s'"
  shows "kwf D s' = kwf D s" "sleepers.deadline s' x = sleepers.deadline s x"
    "task_state (tcb_of s' x) = task_state (tcb_of s x)"
  using assms by (simp_all add: same_view_kwf sleepers.deadline_def same_view_def)

lemma same_view_clock:
  "same_view s (s\<lparr>tick_count := n\<rparr>)" "same_view s (os_task_slice_tick e s)" "same_view s (switch_if_possible s)"
  "same_view s (s\<lparr>window_open := b\<rparr>)"
  by (simp_all add: same_view_def os_task_slice_tick_def switch_if_possible_def os_arch_context_switch_request_def Let_def)

lemma sleeper_moved_view:
  assumes "same_view s s1" "same_view s2 s'"
  shows "sleeper_moved e s s' x = sleeper_moved e s1 s2 x"
  using same_view_time [OF assms(1)] same_view_time [OF assms(2)] by (simp add: sleeper_moved_def split: option.split)

text \<open>Both ticks prepare the counters, let the time pass, and request a switch if one is due.\<close>

lemma span_effect:
  assumes ok: "time_ok y" and e: "0 < e"
    and b: "tms yb = tms y" "ks yb = (ks y)\<lparr>tick_count := tick_count (ks y) + e\<rparr>"
    and y': "tms y' = tms (time_pass e yb)" "same_view (ks (time_pass e yb)) (ks y')"
      "tick_count (ks y') = tick_count (ks (time_pass e yb))"
  shows "time_ok y'" "time_moved e y y'"
proof -
  have v: "same_view (ks y) (ks yb)" unfolding b by (rule same_view_clock)
  have okb: "time_ok yb" using ok same_view_time(1) [OF v] b by (simp add: time_ok_def)
  note tp = time_pass_effect [OF okb e]
  show "time_ok y'" using tp(1) same_view_time(1) [OF y'(2)] y'(1) by (simp add: time_ok_def)
  have "tick_count (ks y') = tick_count (ks y) + e" using tp(2) y'(3) b by (simp add: same_env_def)
  moreover have "sleeper_moved (unat e) (ks y) (ks y') x" if "Some x \<noteq> os_timer_task_tcb (tms y)" for x
    unfolding sleeper_moved_view [OF v y'(2)] using tp(3,4) [of x] that b(1)
    by (simp add: sleeper_moved_def split: option.split)
  moreover have "timer_moved (unat e) (tms y) (tms y') t" for t
    using tp(5) [of t, unfolded b(1)] by (simp add: timer_moved_def y'(1))
  ultimately show "time_moved e y y'" by (simp add: time_moved_def)
qed

lemma announce_zero: "time_pass 0 y = y"
  by (simp add: time_pass_def os_timer_tick_process_def os_task_tick_update_def)

lemma same_view_trans: "same_view s s' \<Longrightarrow> same_view s' s'' \<Longrightarrow> same_view s s''"
  by (simp add: same_view_def)

lemma announce_effect:
  assumes ok: "time_ok y" and e: "0 < e"
  shows "time_ok (os_tick_announce e y)" "time_moved e y (os_tick_announce e y)"
proof -
  define m where "m = os_arch_kernel_mask_save (irq_ceil (win y)) (irq (win y))"
  define yb where "yb = y\<lparr>win := (win y)\<lparr>irq := snd m\<rparr>, ks := (ks y)\<lparr>tick_count := tick_count (ks y) + e\<rparr>,
    usage_total_ticks := usage_total_ticks y + e, usage_idle_ticks := usage_idle_ticks y + e\<rparr>"
  have b: "tms yb = tms y" "ks yb = (ks y)\<lparr>tick_count := tick_count (ks y) + e\<rparr>" by (simp_all add: yb_def)
  have t: "tms (os_tick_announce e y) = tms (time_pass e yb)"
    "ks (os_tick_announce e y) = switch_if_possible (os_task_slice_tick e (ks (time_pass e yb)))"
    by (simp_all add: os_tick_announce_def kernel_masked_def announce_ticks_def set_tick_count_def split_beta Let_def
        m_def yb_def)
  have v: "same_view (ks (time_pass e yb)) (ks (os_tick_announce e y))"
    unfolding t by (rule same_view_trans [OF same_view_clock(2) same_view_clock(3)])
  have c: "tick_count (ks (os_tick_announce e y)) = tick_count (ks (time_pass e yb))"
    unfolding t by (simp add: switch_if_possible_def os_task_slice_tick_def os_arch_context_switch_request_def Let_def)
  show "time_ok (os_tick_announce e y)" "time_moved e y (os_tick_announce e y)"
    by (rule span_effect [OF ok e b t(1) v c])+
qed

lemma handler_effect:
  assumes ok: "time_ok y" and o: "owns_time_base (ks y)"
  shows "time_ok (os_tick_handler y)" "time_moved 1 y (os_tick_handler y)"
proof -
  define yb where "yb = (set_tick_count (tick_count (ks y) + 1) y)\<lparr>usage_total_ticks := usage_total_ticks y + 1,
    usage_idle_ticks := (if os_task_current_is_idle ((ks y)\<lparr>tick_count := tick_count (ks y) + 1\<rparr>)
       then usage_idle_ticks y + 1 else usage_idle_ticks y)\<rparr>"
  have b: "tms yb = tms y" "ks yb = (ks y)\<lparr>tick_count := tick_count (ks y) + 1\<rparr>" by (simp_all add: yb_def set_tick_count_def)
  have t: "tms (os_tick_handler y) = tms (time_pass 1 yb)"
    "ks (os_tick_handler y) = switch_if_possible (os_task_slice_tick 1 (ks (time_pass 1 yb)))"
    using o by (simp_all add: os_tick_handler_def yb_def set_tick_count_def Let_def)
  have v: "same_view (ks (time_pass 1 yb)) (ks (os_tick_handler y))"
    unfolding t by (rule same_view_trans [OF same_view_clock(2) same_view_clock(3)])
  have c: "tick_count (ks (os_tick_handler y)) = tick_count (ks (time_pass 1 yb))"
    unfolding t by (simp add: switch_if_possible_def os_task_slice_tick_def os_arch_context_switch_request_def Let_def)
  show "time_ok (os_tick_handler y)" "time_moved 1 y (os_tick_handler y)"
    by (rule span_effect [OF ok _ b t(1) v c]; simp)+
qed

lemma handler_elsewhere:
  assumes "\<not> owns_time_base (ks y)"
  shows "tms (os_tick_handler y) = tms y" "same_view (ks y) (ks (os_tick_handler y))"
    "tick_count (ks (os_tick_handler y)) = tick_count (ks y)"
proof -
  let ?s = "os_task_slice_tick 1 (ks y)"
  have e: "ks (os_tick_handler y) = switch_if_possible ?s" using assms by (simp add: os_tick_handler_def)
  show "tms (os_tick_handler y) = tms y" using assms by (simp add: os_tick_handler_def)
  show "same_view (ks y) (ks (os_tick_handler y))"
    unfolding e by (rule same_view_trans [OF same_view_clock(2) same_view_clock(3)])
  show "tick_count (ks (os_tick_handler y)) = tick_count (ks y)"
    unfolding e by (simp add: switch_if_possible_def os_task_slice_tick_def os_arch_context_switch_request_def Let_def)
qed

section \<open>Processor usage\<close>

lemma times_100: "unat (d :: 64 word) < 4294967296 \<Longrightarrow> unat (d * 100) = unat d * 100"
  by (simp add: unat_word_ariths)

lemma os_cpu_usage_get_range:
  "unat (fst (os_cpu_usage_get y)) \<le> 100"
proof -
  let ?t = "usage_total_ticks y" and ?i = "usage_idle_ticks y"
  let ?j = "if ?i > ?t then ?t else ?i"
  let ?p = "(((ucast ?t :: 64 word) - ucast ?j) * 100) div ucast ?t"
  have t: "unat ?t < 4294967296" using unsigned_less [of ?t, where 'a = nat] by simp
  have j: "unat ?j \<le> unat ?t" by (auto simp: word_le_nat_alt word_less_nat_alt)
  have sub: "unat ((ucast ?t :: 64 word) - ucast ?j) = unat ?t - unat ?j"
    using j by (subst unat_sub) (simp_all add: word_le_nat_alt)
  have "unat (((ucast ?t :: 64 word) - ucast ?j) * 100) = (unat ?t - unat ?j) * 100"
    using times_100 [of "ucast ?t - ucast ?j"] sub t by simp
  then have p: "unat ?p = (unat ?t - unat ?j) * 100 div unat ?t" by (simp add: unat_div)
  have "(unat ?t - unat ?j) * 100 \<le> 100 * unat ?t" by simp
  then have "(unat ?t - unat ?j) * 100 div unat ?t \<le> 100"
    using div_le_mono [of "(unat ?t - unat ?j) * 100" "100 * unat ?t" "unat ?t"] by (cases "unat ?t = 0") simp_all
  then have "unat ?p \<le> 100" using p by simp
  moreover from this have "unat (ucast ?p :: u32) = unat ?p" by (intro unat_narrow) simp
  ultimately show ?thesis by (simp add: os_cpu_usage_get_def Let_def)
qed

section \<open>The plan of an idle pass\<close>

lemma head_le_due: "due (h # hs) d k = Some n \<Longrightarrow> unat (d h) \<le> n"
  by (auto split: if_splits)

lemma next_delay_bound: "sleepers.deadline s x = Some n \<Longrightarrow> unat (os_task_next_delay_ticks_get s) \<le> n"
  by (cases "delay_list s")
     (auto simp: sleepers.deadline_def os_task_next_delay_ticks_get_def simp del: due.simps(2) dest: head_le_due)

lemma next_expiry_bound: "armed.deadline ts t = Some n \<Longrightarrow> unat (os_timer_next_expiry_ticks_get ts) \<le> n"
  by (cases "os_timer_running_list ts")
     (auto simp: armed.deadline_def os_timer_next_expiry_ticks_get_def simp del: due.simps(2) dest: head_le_due)

lemma plan_le_expected: "tickless_plan c ts s \<le> os_tickless_expected_idle_ticks_get ts s"
  by (auto simp: tickless_plan_def Let_def not_less)

lemma expected_le:
  "os_tickless_expected_idle_ticks_get ts s \<le> os_timer_next_expiry_ticks_get ts"
  "os_tickless_expected_idle_ticks_get ts s \<le> os_task_next_delay_ticks_get s"
  by (auto simp: os_tickless_expected_idle_ticks_get_def Let_def not_less intro: order_trans less_imp_le)

lemma plan_bounds:
  shows "sleepers.deadline s x = Some n \<Longrightarrow> unat (tickless_plan c ts s) \<le> n"
    and "armed.deadline ts t = Some k \<Longrightarrow> unat (tickless_plan c ts s) \<le> k"
    and "os_timer_ready_list ts \<noteq> [] \<Longrightarrow> tickless_plan c ts s = 0"
    and "unat (tickless_plan c ts s) \<le> 2147483647"
    and "c \<noteq> 0 \<Longrightarrow> tickless_plan c ts s \<le> c"
proof -
  have p: "unat (tickless_plan c ts s) \<le> unat (os_timer_next_expiry_ticks_get ts)"
    "unat (tickless_plan c ts s) \<le> unat (os_task_next_delay_ticks_get s)"
    using order_trans [OF plan_le_expected expected_le(1)] order_trans [OF plan_le_expected expected_le(2)]
    by (simp_all add: word_le_nat_alt)
  show "sleepers.deadline s x = Some n \<Longrightarrow> unat (tickless_plan c ts s) \<le> n"
    "armed.deadline ts t = Some k \<Longrightarrow> unat (tickless_plan c ts s) \<le> k"
    using p next_delay_bound next_expiry_bound order_trans by blast+
  show "os_timer_ready_list ts \<noteq> [] \<Longrightarrow> tickless_plan c ts s = 0"
    using p(1) by (simp add: os_timer_next_expiry_ticks_get_def unat_eq_0)
  have "tickless_plan c ts s \<le> OS_TICKLESS_MAX_IDLE_TICKS" by (auto simp: tickless_plan_def Let_def not_less)
  then show "unat (tickless_plan c ts s) \<le> 2147483647"
    by (simp add: OS_TICKLESS_MAX_IDLE_TICKS_def word_le_nat_alt unat_div)
  show "c \<noteq> 0 \<Longrightarrow> tickless_plan c ts s \<le> c"
    by (auto simp: tickless_plan_def Let_def not_less)
qed

section \<open>An idle pass\<close>

text \<open>What a pass may do: nothing, or let a span pass as the ticks in it would have.\<close>

definition span_passed :: "u32 \<Rightarrow> tick_sys \<Rightarrow> tick_sys \<Rightarrow> bool" where
  "span_passed e y y' \<longleftrightarrow>
     (if e = 0 then tms y' = tms y \<and> same_view (ks y) (ks y') \<and> tick_count (ks y') = tick_count (ks y)
      else time_moved e y y')"

lemma announce_span:
  assumes "time_ok y"
  shows "time_ok (os_tick_announce e y)" "span_passed e y (os_tick_announce e y)"
proof -
  have "time_ok (os_tick_announce e y) \<and> span_passed e y (os_tick_announce e y)"
  proof (cases "e = 0")
    case True
    let ?s = "os_task_slice_tick 0 (ks y)" and ?y = "os_tick_announce 0 y"
    have e: "ks ?y = switch_if_possible ?s" "tms ?y = tms y"
      by (simp_all add: os_tick_announce_def kernel_masked_def announce_ticks_def set_tick_count_def announce_zero
          split_beta Let_def)
    have v: "same_view (ks y) (ks ?y)" unfolding e by (rule same_view_trans [OF same_view_clock(2) same_view_clock(3)])
    have "tick_count (ks ?y) = tick_count (ks y)"
      unfolding e by (simp add: switch_if_possible_def os_task_slice_tick_def os_arch_context_switch_request_def Let_def)
    then show ?thesis using v e(2) assms same_view_time(1) [OF v] True
      by (simp add: span_passed_def time_ok_def)
  next
    case False
    then have "0 < e" by (simp add: word_gt_0)
    then show ?thesis using announce_effect [OF assms] False by (simp add: span_passed_def)
  qed
  then show "time_ok (os_tick_announce e y)" "span_passed e y (os_tick_announce e y)" by simp_all
qed

lemma span_view:
  assumes a: "same_view (ks y) (ks ya)" "tick_count (ks ya) = tick_count (ks y)" "tms ya = tms y"
    and b: "same_view (ks yb) (ks y')" "tick_count (ks y') = tick_count (ks yb)" "tms y' = tms yb"
    and s: "span_passed e ya yb"
  shows "span_passed e y y'"
  using s a(2,3) b(2,3) same_view_trans [OF same_view_trans [OF a(1)] b(1)] sleeper_moved_view [OF a(1) b(1)]
  by (auto simp: span_passed_def time_moved_def split: if_splits)

definition slept :: "tick_port \<Rightarrow> u32 \<Rightarrow> window \<Rightarrow> u32" where
  "slept port planned w =
     fst (os_arch_elapsed_ticks_get (tp_adjust port) (tp_soc port)
            (OS_ARCH_SLEEP (tp_soc port) (tp_hardware port) planned w))"

lemma tickless_sleep_effect:
  assumes ok: "time_ok y" and w: "tick_running (win y)" and h: "systick_counts_down (tp_hardware port)"
    and a: "tp_adjust port = (\<lambda>_ e. e)"
  shows "unat (slept port planned (win y)) \<le> unat planned" "time_ok (tickless_sleep port planned y)"
    "span_passed (slept port planned (win y)) y (tickless_sleep port planned y)"
proof -
  obtain e w1 where r: "os_arch_elapsed_ticks_get (tp_adjust port) (tp_soc port)
      (OS_ARCH_SLEEP (tp_soc port) (tp_hardware port) planned (win y)) = (e, w1)" by fastforce
  have e: "slept port planned (win y) = e" by (simp add: slept_def r)
  show "unat (slept port planned (win y)) \<le> unat planned"
    using sleep_never_overruns [OF w h, of "tp_soc port" planned] unfolding slept_def a .
  have f: "ks (tickless_sleep port planned y) = ks (os_tick_announce e (y\<lparr>win := w1\<rparr>))"
    "tms (tickless_sleep port planned y) = tms (os_tick_announce e (y\<lparr>win := w1\<rparr>))"
    by (simp_all add: tickless_sleep_def r Let_def)
  have "time_ok (y\<lparr>win := w1\<rparr>)" using ok by (simp add: time_ok_def)
  from announce_span [OF this, of e]
  show "time_ok (tickless_sleep port planned y)" "span_passed (slept port planned (win y)) y (tickless_sleep port planned y)"
    unfolding e by (cases "e = 0"; simp add: time_ok_def span_passed_def time_moved_def f)+
qed

text \<open>The ticks an idle pass lets pass, by the code's conditions.\<close>

definition masked_win :: "window \<Rightarrow> window" where
  "masked_win w = w\<lparr>irq := snd (os_arch_kernel_mask_save (irq_ceil w) (irq w))\<rparr>"

definition idle_plan :: "tick_port \<Rightarrow> tick_sys \<Rightarrow> u32" where
  "idle_plan port y =
     tickless_plan (os_arch_max_suppressed_ticks_get (tp_soc port) (masked_win (win y))) (tms y) (ks y)"

definition idle_sleeps :: "u32 \<Rightarrow> tick_port \<Rightarrow> tick_sys \<Rightarrow> bool" where
  "idle_sleeps min_idle port y \<longleftrightarrow>
     owns_time_base (ks y) \<and>
     (tick_count (ks y) \<noteq> last_plan_tick y \<or> plan_generation (ks y) \<noteq> last_plan_generation y) \<and>
     tp_sleep_prepare port \<and>
     os_arch_max_suppressed_ticks_get (tp_soc port) (masked_win (win y)) \<noteq> 0 \<and>
     idle_plan port y \<ge> tickless_floor min_idle (tp_soc port)"

definition idle_span :: "u32 \<Rightarrow> tick_port \<Rightarrow> tick_sys \<Rightarrow> u32" where
  "idle_span min_idle port y =
     (if idle_sleeps min_idle port y then slept port (idle_plan port y) (masked_win (win y)) else 0)"

lemma masked_frame:
  "ks (kernel_masked f y) = ks (f (y\<lparr>win := masked_win (win y)\<rparr>))"
  "tms (kernel_masked f y) = tms (f (y\<lparr>win := masked_win (win y)\<rparr>))"
  by (simp_all add: kernel_masked_def masked_win_def split_beta Let_def)

lemma set_window_frame:
  "tms (set_window_open b y) = tms y" "win (set_window_open b y) = win y"
  "same_view (ks y) (ks (set_window_open b y))" "tick_count (ks (set_window_open b y)) = tick_count (ks y)"
  by (simp_all add: set_window_open_def same_view_def)

lemma idle_process_effect:
  assumes ok: "time_ok y" and w: "tick_running (win y)" and h: "systick_counts_down (tp_hardware port)"
    and a: "tp_adjust port = (\<lambda>_ e. e)"
  shows "unat (idle_span min_idle port y) \<le> unat (idle_plan port y)"
    "time_ok (os_tickless_idle_process min_idle port y)"
    "span_passed (idle_span min_idle port y) y (os_tickless_idle_process min_idle port y)"
proof -
  define y0 where "y0 = y\<lparr>win := masked_win (win y)\<rparr>"
  define y1 where "y1 = (if owns_time_base (ks y) then y0\<lparr>last_plan_tick := tick_count (ks y),
      last_plan_generation := plan_generation (ks y)\<rparr> else y0)"
  define y2 where "y2 = set_window_open True y1"
  define c where "c = os_arch_max_suppressed_ticks_get (tp_soc port) (win y2)"
  define planned where "planned = tickless_plan c (tms y2) (ks y2)"
  define go where "go \<longleftrightarrow> c \<noteq> 0 \<and> planned \<ge> tickless_floor min_idle (tp_soc port)"
  define y3 where "y3 = (if go then tickless_sleep port planned y2 else y2)"
  let ?y' = "os_tickless_idle_process min_idle port y"
  have f0: "ks y0 = ks y" "tms y0 = tms y" by (simp_all add: y0_def)
  have f1: "ks y1 = ks y" "tms y1 = tms y" "win y1 = masked_win (win y)" by (simp_all add: y1_def y0_def)
  have v2: "same_view (ks y) (ks y2)" "tick_count (ks y2) = tick_count (ks y)" "tms y2 = tms y" "win y2 = masked_win (win y)"
    using set_window_frame [where b = True and y = y1] f1 by (simp_all add: y2_def)
  have w2: "tick_running (win y2)" using w v2(4) by (simp add: tick_running_def masked_win_def)
  have ok2: "time_ok y2" using ok v2 same_view_time(1) [OF v2(1)] by (simp add: time_ok_def)
  have pl: "planned = idle_plan port y"
    using v2 unfolding planned_def c_def idle_plan_def
    by (simp add: tickless_plan_def os_tickless_expected_idle_ticks_get_def os_task_next_delay_ticks_get_def same_view_def
        split: list.split)
  have none: "span_passed 0 v v" for v by (simp add: span_passed_def same_view_def)
  define active where "active \<longleftrightarrow> owns_time_base (ks y) \<and>
    (tick_count (ks y) \<noteq> last_plan_tick y \<or> plan_generation (ks y) \<noteq> last_plan_generation y) \<and> tp_sleep_prepare port"
  have sl: "idle_sleeps min_idle port y \<longleftrightarrow> active \<and> go"
    by (auto simp: idle_sleeps_def active_def go_def c_def v2(4) pl)
  define y4 where "y4 = (if active then set_window_open False y3 else y1)"
  have lp: "last_plan_tick y0 = last_plan_tick y" "last_plan_generation y0 = last_plan_generation y" by (simp_all add: y0_def)
  have r: "ks ?y' = ks y4" "tms ?y' = tms y4"
    unfolding os_tickless_idle_process_def masked_frame y0_def [symmetric] Let_def f0 lp
      y1_def [symmetric] y2_def [symmetric] c_def [symmetric] planned_def [symmetric] go_def [symmetric] y3_def [symmetric]
    by (simp_all add: y4_def active_def)
  note sleep = tickless_sleep_effect [OF ok2 w2 h a, of planned]
  have e: "time_ok y3" "span_passed (if go then slept port planned (win y2) else 0) y2 y3"
    using sleep(2,3) none [of y2] ok2 by (simp_all add: y3_def)
  show "unat (idle_span min_idle port y) \<le> unat (idle_plan port y)"
    using sleep(1) by (simp add: idle_span_def pl v2(4))
  have "time_ok ?y' \<and> span_passed (idle_span min_idle port y) y ?y'"
  proof (cases active)
    case True
    note b = set_window_frame [where b = False and y = y3]
    have y4: "same_view (ks y3) (ks ?y')" "tick_count (ks ?y') = tick_count (ks y3)" "tms ?y' = tms y3"
      using b True r by (simp_all add: y4_def)
    have "time_ok ?y'" using e(1) y4 same_view_time(1) [OF y4(1)] by (simp add: time_ok_def)
    moreover have "idle_span min_idle port y = (if go then slept port planned (win y2) else 0)"
      using True by (simp add: idle_span_def sl pl v2(4))
    ultimately show ?thesis using span_view [OF v2(1-3) y4 e(2)] by simp
  next
    case False
    then have "ks ?y' = ks y" "tms ?y' = tms y" using r f1 by (simp_all add: y4_def)
    then show ?thesis using False ok by (simp add: time_ok_def span_passed_def same_view_def idle_span_def sl)
  qed
  then show "time_ok ?y'" "span_passed (idle_span min_idle port y) y ?y'" by simp_all
qed

end
