(* ===== verification/Delay.thy ===== *)
theory Delay
  imports Waiting Window
begin

text \<open>
  Delays, \<^verbatim>\<open>kernel/os_delay.c\<close>. What happens while the caller does not run is an argument: \<open>es\<close> lists
  what each sleep meets, the ticks that pass and the change of the kernel's state until the caller
  runs again, and \<open>rs\<close> lists the values the free-running cycle counter has really reached at each
  of its readings (the code sees them modulo \<open>2 ^ 32\<close>). A delay that does not return within them is
  \<open>None\<close>, and so is one that ends in the configuration trap. A delay that returns hands back what it
  did not use.
\<close>

section \<open>The operations\<close>

type_synonym sleeps = "(nat \<times> (kstate \<Rightarrow> kstate)) list"

definition OS_DELAY_MAX_CYCLE_CHUNK :: "64 word" where
  "OS_DELAY_MAX_CYCLE_CHUNK = 0x40000000"

fun counter_spin :: "u32 \<Rightarrow> u32 \<Rightarrow> nat list \<Rightarrow> (nat \<times> nat list) option" where
  "counter_spin start chunk [] = None"
| "counter_spin start chunk (r # rs) =
     (if word_of_nat r - start < chunk then counter_spin start chunk rs else Some (r, rs))"

text \<open>\<open>last\<close> is the last value read so far.\<close>

definition cycle_chunk :: "64 word \<Rightarrow> u32" where
  "cycle_chunk cycle_count =
     (if cycle_count > OS_DELAY_MAX_CYCLE_CHUNK then ucast OS_DELAY_MAX_CYCLE_CHUNK else ucast cycle_count)"

lemma cycle_chunk_range:
  assumes "0 < cycle_count"
  shows "0 < unat (cycle_chunk cycle_count)" "unat (cycle_chunk cycle_count) \<le> unat cycle_count"
    "unat (cycle_count - ucast (cycle_chunk cycle_count)) = unat cycle_count - unat (cycle_chunk cycle_count)"
proof -
  have c: "unat (cycle_chunk cycle_count) = min (unat cycle_count) 1073741824"
  proof (cases "cycle_count > OS_DELAY_MAX_CYCLE_CHUNK")
    case True
    then show ?thesis by (simp add: cycle_chunk_def OS_DELAY_MAX_CYCLE_CHUNK_def word_less_nat_alt)
  next
    case False
    then have "unat cycle_count \<le> 1073741824"
      by (simp add: OS_DELAY_MAX_CYCLE_CHUNK_def word_less_nat_alt)
    then show ?thesis using False unat_narrow [of cycle_count] by (simp add: cycle_chunk_def)
  qed
  show "0 < unat (cycle_chunk cycle_count)" "unat (cycle_chunk cycle_count) \<le> unat cycle_count"
    using c assms by (simp_all add: word_less_nat_alt)
  show "unat (cycle_count - ucast (cycle_chunk cycle_count)) = unat cycle_count - unat (cycle_chunk cycle_count)"
    using c by (subst unat_sub) (simp_all add: word_le_nat_alt)
qed

function os_delay_cycle_wait :: "64 word \<Rightarrow> nat list \<Rightarrow> nat list option" where
  "os_delay_cycle_wait cycle_count rs =
     (if cycle_count > 0 then
        (case rs of
           [] \<Rightarrow> None
         | r # rs1 \<Rightarrow>
             (case counter_spin (word_of_nat r) (cycle_chunk cycle_count) rs1 of
                None \<Rightarrow> None
              | Some (_, rs2) \<Rightarrow> os_delay_cycle_wait (cycle_count - ucast (cycle_chunk cycle_count)) rs2))
      else Some rs)"
  by pat_completeness auto

termination
proof (relation "measure (\<lambda>(n, _). unat n)")
  fix n :: "64 word" and x :: "nat list"
  assume "0 < n"
  then show "((n - ucast (cycle_chunk n), x), n, rs) \<in> measure (\<lambda>(n, _). unat n)" for rs :: "nat list"
    using cycle_chunk_range [of n] by simp
qed simp_all

definition os_delay_us :: "u32 \<Rightarrow> u32 \<Rightarrow> nat list \<Rightarrow> nat list option" where
  "os_delay_us clock_hz microseconds rs =
     (if microseconds \<noteq> 0 \<and> clock_hz = 0 then None
      else if microseconds \<noteq> 0 \<and> clock_hz \<noteq> 0
      then os_delay_cycle_wait (((ucast microseconds * ucast clock_hz) + (1000000 - 1)) div 1000000) rs
      else Some rs)"

fun delay_loop :: "u32 \<Rightarrow> u32 \<Rightarrow> u32 \<Rightarrow> sleeps \<Rightarrow> kstate \<Rightarrow> (sleeps \<times> kstate) option" where
  "delay_loop wait_ticks start_tick elapsed [] s = (if elapsed < wait_ticks then None else Some ([], s))"
| "delay_loop wait_ticks start_tick elapsed ((n, e) # es) s =
     (if elapsed < wait_ticks then
        let s1 = e (os_task_sleep_ticks (wait_ticks - elapsed) s)
        in delay_loop wait_ticks start_tick (os_tick_get s1 - start_tick) es s1
      else Some ((n, e) # es, s))"

definition os_delay_ticks ::
  "u32 \<Rightarrow> u32 \<Rightarrow> u32 \<Rightarrow> sleeps \<Rightarrow> nat list \<Rightarrow> kstate \<Rightarrow> (sleeps \<times> nat list \<times> kstate) option" where
  "os_delay_ticks tick_hz clock_hz ticks es rs s =
     (if ticks \<noteq> 0 then
        let wait_ticks = (if ticks = OS_WAIT_FOREVER then ticks - 1 else ticks) in
        if os_internal_can_block s then
          (case delay_loop wait_ticks (os_internal_wait_origin s) 0 es s of
             None \<Rightarrow> None | Some (es', s') \<Rightarrow> Some (es', rs, s'))
        else if clock_hz = 0 then None
        else (case os_delay_cycle_wait ((ucast wait_ticks * ucast clock_hz) div ucast tick_hz) rs of
                None \<Rightarrow> None | Some rs' \<Rightarrow> Some (es, rs', s))
      else Some (es, rs, s))"

text \<open>Parking forever: an assertion first; where assertions are off the loop ends once the caller may not block.\<close>

fun forever_loop :: "sleeps \<Rightarrow> kstate \<Rightarrow> (sleeps \<times> kstate) option" where
  "forever_loop [] s = (if os_internal_can_block s then None else Some ([], s))"
| "forever_loop ((n, e) # es) s =
     (if os_internal_can_block s then forever_loop es (e (os_task_sleep_ticks OS_WAIT_FOREVER s))
      else Some ((n, e) # es, s))"

definition os_delay_forever :: "sleeps \<Rightarrow> kstate \<Rightarrow> (sleeps \<times> kstate) option" where
  "os_delay_forever es s =
     (if assert_on s \<and> \<not> os_internal_can_block s then None else forever_loop es s)"

definition delay_ticks_of_ms :: "u32 \<Rightarrow> u32 \<Rightarrow> u32" where
  "delay_ticks_of_ms tick_hz milliseconds =
     (let t = ((ucast milliseconds * ucast tick_hz) + (1000 - 1)) div (1000 :: 64 word)
      in ucast (if t > 0xFFFFFFFF then 0xFFFFFFFF else t))"

definition os_delay_ms ::
  "u32 \<Rightarrow> u32 \<Rightarrow> u32 \<Rightarrow> sleeps \<Rightarrow> nat list \<Rightarrow> kstate \<Rightarrow> (sleeps \<times> nat list \<times> kstate) option" where
  "os_delay_ms tick_hz clock_hz milliseconds es rs s =
     (if milliseconds = OS_WAIT_FOREVER
      then (case os_delay_forever es s of None \<Rightarrow> None | Some (es', s') \<Rightarrow> Some (es', rs, s'))
      else os_delay_ticks tick_hz clock_hz (delay_ticks_of_ms tick_hz milliseconds) es rs s)"

section \<open>Busy waiting\<close>

declare os_delay_cycle_wait.simps [simp del]

lemma u32_diff_nat: "f \<le> r \<Longrightarrow> unat ((word_of_nat r :: u32) - word_of_nat f) = (r - f) mod 4294967296"
proof -
  assume "f \<le> r"
  then have "(word_of_nat r :: u32) - word_of_nat f = word_of_nat (r - f)" by (simp add: of_nat_diff)
  then show ?thesis by (simp add: unat_of_nat)
qed

lemma counter_spin_waits:
  assumes "counter_spin (word_of_nat f) chunk rs = Some (r, rest)" "\<forall>x \<in> set rs. f \<le> x"
  shows "f + unat chunk \<le> r \<and> (\<exists>skipped. rs = skipped @ r # rest)"
  using assms
proof (induction "word_of_nat f :: u32" chunk rs rule: counter_spin.induct)
  case (1 chunk)
  then show ?case by simp
next
  case (2 chunk x xs)
  show ?case
  proof (cases "word_of_nat x - word_of_nat f < chunk")
    case True
    then show ?thesis using 2 by (fastforce intro: exI [of _ "x # ys" for ys])
  next
    case False
    then have "unat chunk \<le> (x - f) mod 4294967296" "x = r" "xs = rest"
      using 2 u32_diff_nat [of f x] by (simp_all add: word_less_nat_alt not_less)
    moreover have "(x - f) mod 4294967296 \<le> x - f" by simp
    ultimately have "unat chunk \<le> r - f" "f \<le> r" using 2 by (simp_all del: mod_less_eq_dividend)
    then have "f + unat chunk \<le> r" by simp
    then show ?thesis using \<open>x = r\<close> \<open>xs = rest\<close> by simp
  qed
qed

text \<open>The time a busy wait takes, by the readings it used: from the first to the last of them.\<close>

definition time_used :: "nat list \<Rightarrow> nat list \<Rightarrow> nat \<Rightarrow> bool" where
  "time_used rs rest n \<longleftrightarrow>
     (\<exists>used. rs = used @ rest \<and> (n = 0 \<or> (used \<noteq> [] \<and> hd used + n \<le> last used)))"

lemma cycle_wait_waits:
  assumes "os_delay_cycle_wait n rs = Some rest" "sorted rs"
  shows "time_used rs rest (unat n)"
  using assms
proof (induction n rs rule: os_delay_cycle_wait.induct)
  case (1 n rs)
  show ?case
  proof (cases "0 < n")
    case False
    then show ?thesis using "1.prems" by (simp add: time_used_def os_delay_cycle_wait.simps [of n rs] word_less_nat_alt)
  next
    case True
    let ?k = "cycle_chunk n"
    obtain f rs1 where rs: "rs = f # rs1" using "1.prems" True
      by (cases rs) (simp_all add: os_delay_cycle_wait.simps [of n "[]"])
    obtain r rs2 where sp: "counter_spin (word_of_nat f) ?k rs1 = Some (r, rs2)"
      and w: "os_delay_cycle_wait (n - ucast ?k) rs2 = Some rest"
      using "1.prems"(1) True rs by (auto simp: os_delay_cycle_wait.simps [of n "f # rs1"] split: option.splits)
    obtain skipped where e: "f + unat ?k \<le> r" "rs1 = skipped @ r # rs2"
      using counter_spin_waits [OF sp] "1.prems"(2) rs by auto
    have srt: "sorted rs2" "\<forall>x \<in> set rs2. r \<le> x" using "1.prems"(2) rs e by (simp_all add: sorted_append)
    have ih: "time_used rs2 rest (unat (n - ucast ?k))"
      using "1.IH" [OF True rs sp _ w srt(1)] by simp
    then obtain used where u: "rs2 = used @ rest"
      "unat (n - ucast ?k) = 0 \<or> (used \<noteq> [] \<and> hd used + unat (n - ucast ?k) \<le> last used)"
      by (auto simp: time_used_def)
    have l: "rs = (f # skipped @ r # used) @ rest" using rs e u by simp
    have "f + unat n \<le> last (f # skipped @ r # used)"
    proof (cases "used = []")
      case True
      then show ?thesis using u(2) e(1) cycle_chunk_range [OF \<open>0 < n\<close>] by simp
    next
      case False
      then have "r \<le> hd used" "r \<le> last used" using srt u(1) by simp_all
      then have "r + unat (n - ucast ?k) \<le> last used" using u(2) by linarith
      then show ?thesis using e(1) cycle_chunk_range [OF \<open>0 < n\<close>] False by simp
    qed
    then show ?thesis unfolding time_used_def using l by (intro exI [of _ "f # skipped @ r # used"]) simp
  qed
qed

lemma times_u32: "unat ((ucast (a :: u32) :: 64 word) * ucast (b :: u32)) = unat a * unat b"
proof -
  have "unat a \<le> 4294967295" "unat b \<le> 4294967295"
    using unsigned_less [of a, where 'a = nat] unsigned_less [of b, where 'a = nat] by simp_all
  then have "unat a * unat b \<le> 4294967295 * 4294967295" by (rule mult_le_mono)
  then show ?thesis by (simp add: unat_word_ariths)
qed

lemma us_cycles:
  "unat us * unat hz \<le> unat ((((ucast (us :: u32) :: 64 word) * ucast (hz :: u32)) + (1000000 - 1)) div 1000000) * 1000000"
proof -
  have b: "unat us \<le> 4294967295" "unat hz \<le> 4294967295"
    using unsigned_less [of us, where 'a = nat] unsigned_less [of hz, where 'a = nat] by simp_all
  then have m: "unat us * unat hz \<le> 4294967295 * 4294967295" by (rule mult_le_mono)
  note p = times_u32 [of us hz]
  have "unat (((ucast us :: 64 word) * ucast hz) + 999999) = unat us * unat hz + 999999"
    using p m by (simp add: unat_word_ariths)
  then have "unat ((((ucast us :: 64 word) * ucast hz) + (1000000 - 1)) div 1000000) = (unat us * unat hz + 999999) div 1000000"
    by (simp add: unat_div)
  then show ?thesis by simp
qed

section \<open>Blocking\<close>

text \<open>Each entry of the list moves the tick counter by the ticks that it says pass.\<close>

definition sleeps_ok :: "sleeps \<Rightarrow> bool" where
  "sleeps_ok es \<longleftrightarrow> (\<forall>(n, e) \<in> set es. \<forall>s. tick_count (e s) = tick_count s + word_of_nat n)"

definition ticks_in :: "sleeps \<Rightarrow> nat" where
  "ticks_in es = sum_list (map fst es)"

lemma sleep_ticks_clock [simp]: "tick_count (os_task_sleep_ticks t s) = tick_count s"
  by (simp add: os_task_sleep_ticks_def os_tickless_deadline_armed_def os_arch_core_ipi_request_def
      os_task_switch_request_def os_arch_context_switch_request_def os_task_delay_insert_def Let_def split_beta
      split: option.split)

lemma delay_loop_waits:
  assumes "delay_loop w start elapsed es s = Some (es', s')" "sleeps_ok es"
    "elapsed = word_of_nat p" "tick_count s = start + word_of_nat p"
  shows "\<exists>used. es = used @ es' \<and> unat w \<le> p + ticks_in used"
  using assms
proof (induction w start elapsed es s arbitrary: p rule: delay_loop.induct)
  case (1 w start elapsed s)
  then have "w \<le> word_of_nat p" by (simp add: not_less split: if_splits)
  then have "unat w \<le> unat (word_of_nat p :: u32)" by (simp add: word_le_nat_alt)
  also have "\<dots> \<le> p" by (simp add: unat_of_nat)
  finally show ?case using "1.prems"(1) by (simp add: ticks_in_def split: if_splits)
next
  case (2 w start elapsed n e es s)
  show ?case
  proof (cases "elapsed < w")
    case True
    let ?s1 = "e (os_task_sleep_ticks (w - elapsed) s)"
    have t: "tick_count ?s1 = start + word_of_nat (p + n)" "sleeps_ok es"
      using "2.prems" by (simp_all add: sleeps_ok_def)
    have "delay_loop w start (os_tick_get ?s1 - start) es ?s1 = Some (es', s')"
      using "2.prems"(1) True by (simp add: Let_def)
    then obtain used where "es = used @ es'" "unat w \<le> (p + n) + ticks_in used"
      using "2.IH" [OF True refl _ t(2) _ t(1)] t(1) by (auto simp: os_tick_get_def)
    then show ?thesis by (intro exI [of _ "(n, e) # used"]) (simp add: ticks_in_def)
  next
    case False
    then have "unat w \<le> unat (word_of_nat p :: u32)" using "2.prems"(3) by (simp add: word_le_nat_alt not_less)
    also have "\<dots> \<le> p" by (simp add: unat_of_nat)
    finally show ?thesis using "2.prems"(1) False by (simp add: ticks_in_def)
  qed
qed

lemma delay_loop_returns:
  assumes "sleeps_ok es" "elapsed = word_of_nat p" "tick_count s = start + word_of_nat p"
    "unat w \<le> p + ticks_in es" "p + ticks_in es < 4294967296"
  shows "\<exists>r. delay_loop w start elapsed es s = Some r"
  using assms
proof (induction w start elapsed es s arbitrary: p rule: delay_loop.induct)
  case (1 w start elapsed s)
  then have "unat w \<le> unat (word_of_nat p :: u32)" by (simp add: ticks_in_def unat_of_nat)
  then show ?case using "1.prems"(2) by (simp add: word_less_nat_alt)
next
  case (2 w start elapsed n e es s)
  show ?case
  proof (cases "elapsed < w")
    case True
    let ?s1 = "e (os_task_sleep_ticks (w - elapsed) s)"
    have t: "tick_count ?s1 = start + word_of_nat (p + n)" "sleeps_ok es"
      using "2.prems" by (simp_all add: sleeps_ok_def)
    have "\<exists>r. delay_loop w start (os_tick_get ?s1 - start) es ?s1 = Some r"
      using "2.IH" [OF True refl t(2) _ t(1)] t(1) "2.prems"(4,5) by (simp add: os_tick_get_def ticks_in_def add.assoc)
    then show ?thesis using True by (simp add: Let_def)
  next
    case False
    then show ?thesis by simp
  qed
qed

section \<open>Milliseconds\<close>

lemma delay_ticks_of_ms_unat:
  assumes "unat ms * unat hz \<le> 4294967294000"
  shows "unat (delay_ticks_of_ms hz ms) = (unat ms * unat hz + 999) div 1000"
    and "delay_ticks_of_ms hz ms \<noteq> OS_WAIT_FOREVER"
proof -
  let ?p = "(ucast ms :: 64 word) * ucast hz"
  have p: "unat ?p = unat ms * unat hz" using assms by (simp add: unat_word_ariths)
  have "unat (?p + 999) = unat ms * unat hz + 999" using p assms by (simp add: unat_word_ariths)
  then have t: "unat ((?p + (1000 - 1)) div 1000) = (unat ms * unat hz + 999) div 1000" by (simp add: unat_div)
  moreover have "(unat ms * unat hz + 999) div 1000 \<le> 4294967294" using assms by simp
  ultimately have "unat ((?p + (1000 - 1)) div 1000) \<le> 4294967294" by simp
  then show d: "unat (delay_ticks_of_ms hz ms) = (unat ms * unat hz + 999) div 1000"
    using t unat_narrow [of "(?p + (1000 - 1)) div 1000"] by (simp add: delay_ticks_of_ms_def Let_def word_less_nat_alt)
  show "delay_ticks_of_ms hz ms \<noteq> OS_WAIT_FOREVER"
    using d \<open>(unat ms * unat hz + 999) div 1000 \<le> 4294967294\<close> by (auto simp: OS_WAIT_FOREVER_def)
qed

end
