(* ===== verification/TickProps.thy ===== *)
theory TickProps
  imports Tick TimerProps Delay
begin

text \<open>
  The properties of the time base and of tickless idle.
\<close>

text \<open>
  \<open>high\<close> sleeps 50 ticks, no timer runs; SysTick has 500 cycles of a 1000-cycle tick left. The
  hardware wakes the core when the counter has reached 28999, if it was loaded with as much.
\<close>

definition resting :: tick_sys where
  "resting = \<lparr>ks = low_boosted, tms = svc0, win = overrun_window\<lparr>dwt_available := True\<rparr>,
     usage_total_ticks = 0, usage_idle_ticks = 0, last_plan_tick = 7, last_plan_generation = 0\<rparr>"

definition early_wake :: "systick \<Rightarrow> systick" where
  "early_wake st = st\<lparr>SYST_CVR := (if SYST_RVR st \<ge> 28999 then 28999 else 0)\<rparr>"

definition own_tick_port :: tick_port where
  "own_tick_port = \<lparr>tp_soc = soc_default, tp_sleep_prepare = True, tp_adjust = (\<lambda>_ e. e), tp_hardware = early_wake\<rparr>"

lemma resting_ok: "time_ok resting"
  by (simp add: time_ok_def resting_def low_boosted_kwf svc0_ok timer_task_ok_def) (simp add: svc0_def)

lemma early_wake_ok: "systick_counts_down early_wake"
proof -
  have "(28999 :: u32) AND OS_ARCH_SYST_RVR_RELOAD_MSK = 28999" by (simp add: OS_ARCH_SYST_RVR_RELOAD_MSK_def)
  then show ?thesis by (simp add: systick_counts_down_def early_wake_def word_le_nat_alt)
qed

lemma resting_window: "tick_running (win resting)"
  by (simp add: tick_running_def resting_def overrun_window_def OS_ARCH_SYST_RVR_RELOAD_MSK_def)

lemma resting_deadline: "sleepers.deadline (ks resting) (Slot 1) = Some 50"
  by (simp add: sleepers.deadline_def resting_def demo_states demo_tcbs)

lemma moved_sleeper:
  assumes "time_moved e y y'" "Some x \<noteq> os_timer_task_tcb (tms y)" "sleepers.deadline (ks y) x = Some n"
  shows "sleepers.deadline (ks y') x = (if n \<le> unat e then None else Some (n - unat e))"
    and "n \<le> unat e \<Longrightarrow> task_state (tcb_of (ks y') x) = OS_TASK_STATE_READY"
  using assms by (auto simp: time_moved_def sleeper_moved_def)



text \<open>
  C28. Tickless idle never sleeps through a deadline. Whatever the port's wake source answers and
  whenever the core wakes, the span an idle pass lets pass is at most half the range of the tick
  counter, at most what every sleeper and every timer still has to wait, and zero while an expired
  timer waits for its call; and the pass ends with the system exactly as that many ticks leave it.
  (The port counts by its own timer, with no reference clock correcting it.)
\<close>

theorem tickless_meets_deadlines:
  assumes "time_ok y" "tick_running (win y)" "systick_counts_down (tp_hardware port)" "tp_adjust port = (\<lambda>_ e. e)"
  shows "time_ok (os_tickless_idle_process min_idle port y) \<and>
    span_passed (idle_span min_idle port y) y (os_tickless_idle_process min_idle port y) \<and>
    unat (idle_span min_idle port y) \<le> 2147483647 \<and>
    (\<forall>x n. sleepers.deadline (ks y) x = Some n \<longrightarrow> unat (idle_span min_idle port y) \<le> n) \<and>
    (\<forall>t n. armed.deadline (tms y) t = Some n \<longrightarrow> unat (idle_span min_idle port y) \<le> n) \<and>
    (os_timer_ready_list (tms y) \<noteq> [] \<longrightarrow> idle_span min_idle port y = 0)"
proof -
  note p = idle_process_effect [OF assms, of min_idle] and b = plan_bounds
  have "unat (idle_span min_idle port y) \<le> 2147483647" using p(1) b(4) unfolding idle_plan_def by (rule order_trans)
  moreover have "unat (idle_span min_idle port y) \<le> n" if "sleepers.deadline (ks y) x = Some n" for x n
    using p(1) b(1) [OF that] unfolding idle_plan_def by (rule order_trans)
  moreover have "unat (idle_span min_idle port y) \<le> n" if "armed.deadline (tms y) t = Some n" for t n
    using p(1) b(2) [OF that] unfolding idle_plan_def by (rule order_trans)
  moreover have "idle_span min_idle port y = 0" if "os_timer_ready_list (tms y) \<noteq> []"
    using p(1) b(3) [OF that] unfolding idle_plan_def by (simp add: unat_eq_0)
  ultimately show ?thesis using p(2,3) by blast
qed

theorem tickless_meets_deadlines_witness:
  "idle_span 2 own_tick_port resting = 21 \<and>
   sleepers.deadline (ks (os_tickless_idle_process 2 own_tick_port resting)) (Slot 1) = Some 29 \<and>
   tick_count (ks (os_tickless_idle_process 2 own_tick_port resting)) = 121"
proof -
  have "systick_counts_down (tp_hardware own_tick_port)" "tp_adjust own_tick_port = (\<lambda>_ e. e)"
    by (simp_all add: own_tick_port_def early_wake_ok)
  note t = tickless_meets_deadlines [OF resting_ok resting_window this, of 2]
  have s: "idle_span 2 own_tick_port resting = 21" by code_simp
  have c: "tick_count (ks resting) = 100" "Some (Slot 1) \<noteq> os_timer_task_tcb (tms resting)"
    by (simp_all add: resting_def demo_states svc0_def)
  have m: "time_moved 21 resting (os_tickless_idle_process 2 own_tick_port resting)"
    using t s by (simp add: span_passed_def)
  show ?thesis using s moved_sleeper(1) [OF m c(2) resting_deadline] m c(1) by (simp add: time_moved_def)
qed

lemma delay_ms_waits:
  assumes "ms \<noteq> OS_WAIT_FOREVER" "unat ms * unat hz \<le> 4294967294000" "sleeps_ok es" "sorted rs"
    and r: "os_delay_ms hz clk ms es rs s = Some (es', rs', s')"
  shows "if os_internal_can_block s then \<exists>used. es = used @ es' \<and> unat ms * unat hz \<le> 1000 * ticks_in used
    else time_used rs rs' ((unat ms * unat hz + 999) div 1000 * unat clk div unat hz)"
proof -
  let ?t = "delay_ticks_of_ms hz ms" and ?n = "(unat ms * unat hz + 999) div 1000"
  note t = delay_ticks_of_ms_unat [OF assms(2)]
  have d: "os_delay_ms hz clk ms es rs s = os_delay_ticks hz clk ?t es rs s"
    using assms(1) by (simp add: os_delay_ms_def)
  have up: "unat ms * unat hz \<le> 1000 * ?n" by simp
  show ?thesis
  proof (cases "?t = 0")
    case True
    then have "?n = 0" "es' = es" "rs' = rs" using t(1) r d by (simp_all add: os_delay_ticks_def)
    then show ?thesis using up by (auto simp: time_used_def intro: exI [of _ "[]"])
  next
    case False
    show ?thesis
    proof (cases "os_internal_can_block s")
      case True
      then have "delay_loop ?t (os_internal_wait_origin s) 0 es s = Some (es', s')"
        using r d False t(2) by (auto simp: os_delay_ticks_def split: option.splits)
      then obtain used where "es = used @ es'" "unat ?t \<le> 0 + ticks_in used"
        using delay_loop_waits [where p = 0] assms(3) by (fastforce simp: os_internal_wait_origin_def os_tick_get_def)
      then show ?thesis using True up t(1) by auto
    next
      case no: False
      have w: "os_delay_cycle_wait ((ucast ?t * ucast clk) div ucast hz) rs = Some rs'"
        using r d False t(2) no by (auto simp: os_delay_ticks_def split: option.splits if_splits)
      have "unat ((ucast ?t :: 64 word) * ucast clk) = unat ?t * unat clk" by (rule times_u32)
      then show ?thesis using cycle_wait_waits [OF w assms(4)] no t(1) by (simp add: unat_div)
    qed
  qed
qed

lemma delay_ms_returns:
  assumes "ms \<noteq> OS_WAIT_FOREVER" "unat ms * unat hz \<le> 4294967294000" "sleeps_ok es"
    and r: "os_internal_can_block s" "unat ms * unat hz \<le> 1000 * ticks_in es" "ticks_in es < 4294967296"
  shows "\<exists>r. os_delay_ms hz clk ms es rs s = Some r"
proof -
  let ?t = "delay_ticks_of_ms hz ms"
  note t = delay_ticks_of_ms_unat [OF assms(2)]
  have "(x + 999) div 1000 \<le> k" if "x \<le> 1000 * k" for x k :: nat using that by linarith
  then have "unat ?t \<le> 0 + ticks_in es" using r t(1) by simp
  then have "\<exists>r. delay_loop ?t (os_internal_wait_origin s) 0 es s = Some r"
    using r assms(3) by (intro delay_loop_returns [where p = 0]) (simp_all add: os_internal_wait_origin_def os_tick_get_def)
  then show ?thesis using r t(2) assms(1) by (auto simp: os_delay_ms_def os_delay_ticks_def)
qed

lemma delay_us_waits:
  assumes "sorted rs" "os_delay_us clk us rs = Some rs'"
  shows "\<exists>n. unat us * unat clk \<le> n * 1000000 \<and> time_used rs rs' n"
proof (cases "us = 0")
  case True
  then show ?thesis using assms(2) by (intro exI [of _ 0]) (simp add: os_delay_us_def time_used_def)
next
  case False
  then have "os_delay_cycle_wait (((ucast us * ucast clk) + (1000000 - 1)) div 1000000) rs = Some rs'"
    using assms(2) by (simp add: os_delay_us_def split: if_splits)
  then show ?thesis using cycle_wait_waits assms(1) us_cycles [of us clk] by blast
qed

text \<open>
  C29. A delay is never short, and it ends. A caller that may block and asks for \<open>ms\<close> milliseconds
  goes on only after ticks that amount to at least that long, however often and for whatever reason
  it is woken before, and it does go on once that many ticks have passed; a caller that may not
  block, and one that asks for microseconds, watches the cycle counter go by at least the cycles of
  the request, through every wrap of the 32-bit counter. (The request fits the tick counter.)
\<close>

theorem delay_never_short:
  assumes "ms \<noteq> OS_WAIT_FOREVER" "unat ms * unat hz \<le> 4294967294000" "0 < hz" "sleeps_ok es" "sorted rs"
  shows "(\<forall>es' rs' s'. os_delay_ms hz clk ms es rs s = Some (es', rs', s') \<longrightarrow>
      (if os_internal_can_block s then \<exists>used. es = used @ es' \<and> unat ms * unat hz \<le> 1000 * ticks_in used
       else time_used rs rs' ((unat ms * unat hz + 999) div 1000 * unat clk div unat hz))) \<and>
    (os_internal_can_block s \<and> unat ms * unat hz \<le> 1000 * ticks_in es \<and> ticks_in es < 4294967296 \<longrightarrow>
       (\<exists>r. os_delay_ms hz clk ms es rs s = Some r)) \<and>
    (\<forall>rs'. os_delay_us clk us rs = Some rs' \<longrightarrow>
       (\<exists>n. unat us * unat clk \<le> n * 1000000 \<and> time_used rs rs' n))"
  using delay_ms_waits [OF assms(1,2,4,5)] delay_ms_returns [OF assms(1,2,4)] delay_us_waits [OF assms(5)] by blast

theorem delay_never_short_witness:
  "\<exists>r. os_delay_ms 1000 8000000 5 [(5, \<lambda>s. s\<lparr>tick_count := tick_count s + 5\<rparr>)] [] low_runs = Some r"
proof -
  have "sleeps_ok [(5, \<lambda>s. s\<lparr>tick_count := tick_count s + 5\<rparr>)]" by (simp add: sleeps_ok_def)
  moreover have "os_internal_can_block low_runs" by (simp add: os_internal_can_block_def demo_states)
  ultimately show ?thesis
    using delay_never_short [of 5 1000 "[(5, \<lambda>s. s\<lparr>tick_count := tick_count s + 5\<rparr>)]" "[]" 8000000 low_runs 0]
    by (simp add: OS_WAIT_FOREVER_def ticks_in_def)
qed

end
