(* ===== verification/Critical.thy ===== *)
theory Critical
  imports Window
begin

text \<open>
  The kernel's critical section, \<^verbatim>\<open>kernel/os_critical.c\<close>: one inter-core spinlock, a nesting count
  and a saved interrupt mask per core. The cores interleave, so each operation is cut at the points
  where another core may move: masking, taking the spinlock, and the look at the tickless window
  that may send a core back to take it again. The spinlock is the port's atomic test-and-set; on a
  single-core build it compiles to nothing, and the model with one core never finds it taken.
\<close>

section \<open>State\<close>

text \<open>
  Where a core is: outside any of these operations (\<open>Running\<close>, inside a critical section or not), in
  \<open>os_critical_enter\<close>, or in the pair that the context switch uses.
\<close>

datatype place = Running | Acquiring | Checking | SwAcquiring | SwChecking | SwHolding

text \<open>\<open>entry_mask\<close> is no variable of the code: the mask of a core when its outermost section was entered.\<close>

record crit =
  os_critical_kernel_lock :: "nat option"
  os_critical_nesting_count :: "nat \<Rightarrow> u32"
  os_critical_saved_mask :: "nat \<Rightarrow> u32"
  os_tickless_window_open :: bool
  core_mask :: "nat \<Rightarrow> irq_mask"
  mask_state :: "nat \<Rightarrow> u32"
  place_of :: "nat \<Rightarrow> place"
  core0_ipi :: bool
  entry_mask :: "nat \<Rightarrow> irq_mask"

definition move_to :: "nat \<Rightarrow> place \<Rightarrow> crit \<Rightarrow> crit" where
  "move_to c p s = s\<lparr>place_of := (place_of s)(c := p)\<rparr>"

definition count_up :: "nat \<Rightarrow> crit \<Rightarrow> crit" where
  "count_up c s = s\<lparr>os_critical_nesting_count :=
     (os_critical_nesting_count s)(c := os_critical_nesting_count s c + 1)\<rparr>"

section \<open>The operations, cut into their atomic steps\<close>

definition os_arch_spinlock_acquire :: "nat \<Rightarrow> crit \<Rightarrow> crit option" where
  "os_arch_spinlock_acquire c s =
     (if os_critical_kernel_lock s = None then Some (s\<lparr>os_critical_kernel_lock := Some c\<rparr>) else None)"

definition os_arch_spinlock_release :: "crit \<Rightarrow> crit" where
  "os_arch_spinlock_release s = s\<lparr>os_critical_kernel_lock := None\<rparr>"

definition os_tickless_remote_window_wait :: "nat \<Rightarrow> crit \<Rightarrow> bool \<times> crit" where
  "os_tickless_remote_window_wait core s =
     (if os_tickless_window_open s \<and> core \<noteq> 0 then (True, s\<lparr>core0_ipi := True\<rparr>) else (False, s))"

text \<open>\<open>os_critical_enter\<close> up to the spinlock, and from the spinlock on.\<close>

definition enter_begin :: "u32 \<Rightarrow> nat \<Rightarrow> crit \<Rightarrow> crit" where
  "enter_begin ceil c s =
     (case os_arch_kernel_mask_save ceil (core_mask s c) of
        (ms, m) \<Rightarrow>
          let s1 = s\<lparr>core_mask := (core_mask s)(c := m), mask_state := (mask_state s)(c := ms)\<rparr>
          in if os_critical_nesting_count s1 c = 0
             then move_to c Acquiring (s1\<lparr>entry_mask := (entry_mask s1)(c := core_mask s c)\<rparr>)
             else count_up c s1)"

definition enter_check :: "nat \<Rightarrow> crit \<Rightarrow> crit" where
  "enter_check c s =
     (case os_tickless_remote_window_wait c s of
        (True, s1) \<Rightarrow> move_to c Acquiring (os_arch_spinlock_release s1)
      | (False, s1) \<Rightarrow>
          count_up c (move_to c Running
            (s1\<lparr>os_critical_saved_mask := (os_critical_saved_mask s1)(c := mask_state s1 c)\<rparr>)))"

definition os_critical_exit :: "u32 \<Rightarrow> nat \<Rightarrow> crit \<Rightarrow> crit" where
  "os_critical_exit ceil c s =
     (if os_critical_nesting_count s c \<noteq> 0 then
        let n = os_critical_nesting_count s c - 1;
            s1 = s\<lparr>os_critical_nesting_count := (os_critical_nesting_count s)(c := n)\<rparr>
        in if n = 0
           then let s2 = os_arch_spinlock_release s1
                in s2\<lparr>core_mask := (core_mask s2)(c :=
                        os_arch_kernel_mask_restore ceil (os_critical_saved_mask s2 c) (core_mask s2 c))\<rparr>
           else s1
      else s)"

text \<open>\<open>os_critical_multicore_lock\<close> after the spinlock, and its counterpart.\<close>

definition multicore_check :: "nat \<Rightarrow> crit \<Rightarrow> crit" where
  "multicore_check c s =
     (case os_tickless_remote_window_wait c s of
        (True, s1) \<Rightarrow> move_to c SwAcquiring (os_arch_spinlock_release s1)
      | (False, s1) \<Rightarrow> move_to c SwHolding s1)"

definition os_critical_multicore_unlock :: "nat \<Rightarrow> crit \<Rightarrow> crit" where
  "os_critical_multicore_unlock c s = move_to c Running (os_arch_spinlock_release s)"

text \<open>
  One step of one core. The time base's owner, core 0, opens and closes the window inside a critical
  section (\<^verbatim>\<open>os_tickless_idle_process\<close>); a core outside all sections may change its own mask; a
  context switch takes the lock outside all sections. A nesting of \<open>2 ^ 32 - 1\<close> is out of reach.
\<close>

inductive crit_step :: "u32 \<Rightarrow> crit \<Rightarrow> crit \<Rightarrow> bool" for ceil :: u32 where
  enter: "place_of s c = Running \<Longrightarrow> os_critical_nesting_count s c \<noteq> 0xFFFFFFFF \<Longrightarrow>
    crit_step ceil s (enter_begin ceil c s)"
| spin: "place_of s c = Acquiring \<Longrightarrow> os_arch_spinlock_acquire c s = Some s' \<Longrightarrow>
    crit_step ceil s (move_to c Checking s')"
| check: "place_of s c = Checking \<Longrightarrow> crit_step ceil s (enter_check c s)"
| leave: "place_of s c = Running \<Longrightarrow> crit_step ceil s (os_critical_exit ceil c s)"
| window: "place_of s 0 = Running \<Longrightarrow> os_critical_nesting_count s 0 \<noteq> 0 \<Longrightarrow>
    crit_step ceil s (s\<lparr>os_tickless_window_open := b\<rparr>)"
| mask: "place_of s c = Running \<Longrightarrow> os_critical_nesting_count s c = 0 \<Longrightarrow>
    crit_step ceil s (s\<lparr>core_mask := (core_mask s)(c := m)\<rparr>)"
| switch: "place_of s c = Running \<Longrightarrow> os_critical_nesting_count s c = 0 \<Longrightarrow>
    crit_step ceil s (move_to c SwAcquiring s)"
| switch_spin: "place_of s c = SwAcquiring \<Longrightarrow> os_arch_spinlock_acquire c s = Some s' \<Longrightarrow>
    crit_step ceil s (move_to c SwChecking s')"
| switch_check: "place_of s c = SwChecking \<Longrightarrow> crit_step ceil s (multicore_check c s)"
| switch_done: "place_of s c = SwHolding \<Longrightarrow> crit_step ceil s (os_critical_multicore_unlock c s)"

definition crit_boot :: crit where
  "crit_boot = \<lparr>os_critical_kernel_lock = None, os_critical_nesting_count = (\<lambda>_. 0), os_critical_saved_mask = (\<lambda>_. 0),
     os_tickless_window_open = False, core_mask = (\<lambda>_. \<lparr>PRIMASK = False, BASEPRI = 0\<rparr>), mask_state = (\<lambda>_. 0),
     place_of = (\<lambda>_. Running), core0_ipi = False, entry_mask = (\<lambda>_. \<lparr>PRIMASK = False, BASEPRI = 0\<rparr>)\<rparr>"

inductive crit_run :: "u32 \<Rightarrow> crit \<Rightarrow> bool" for ceil :: u32 where
  boot: "crit_run ceil crit_boot"
| step: "crit_run ceil s \<Longrightarrow> crit_step ceil s s' \<Longrightarrow> crit_run ceil s'"

section \<open>The invariant\<close>

definition holds_lock :: "nat \<Rightarrow> crit \<Rightarrow> bool" where
  "holds_lock c s \<longleftrightarrow>
     os_critical_nesting_count s c \<noteq> 0 \<or> place_of s c \<in> {Checking, SwChecking, SwHolding}"

text \<open>A core that works on kernel data: in a critical section, or choosing the next task.\<close>

definition in_kernel :: "nat \<Rightarrow> crit \<Rightarrow> bool" where
  "in_kernel c s \<longleftrightarrow> os_critical_nesting_count s c \<noteq> 0 \<or> place_of s c = SwHolding"

definition masked_since_entry :: "u32 \<Rightarrow> nat \<Rightarrow> crit \<Rightarrow> bool" where
  "masked_since_entry ceil c s \<longleftrightarrow>
     (if place_of s c \<in> {Acquiring, Checking}
      then (mask_state s c, core_mask s c) = os_arch_kernel_mask_save ceil (entry_mask s c)
      else if os_critical_nesting_count s c \<noteq> 0
      then (os_critical_saved_mask s c, core_mask s c) = os_arch_kernel_mask_save ceil (entry_mask s c)
      else True)"

definition crit_ok :: "u32 \<Rightarrow> crit \<Rightarrow> bool" where
  "crit_ok ceil s \<longleftrightarrow>
     (\<forall>c. holds_lock c s \<longleftrightarrow> os_critical_kernel_lock s = Some c) \<and>
     (\<forall>c. place_of s c \<noteq> Running \<longrightarrow> os_critical_nesting_count s c = 0) \<and>
     (os_tickless_window_open s \<longrightarrow> (\<forall>c. c \<noteq> 0 \<longrightarrow> \<not> in_kernel c s)) \<and>
     (\<forall>c. masked_since_entry ceil c s)"

lemma crit_okD:
  assumes "crit_ok ceil s"
  shows "holds_lock c s \<longleftrightarrow> os_critical_kernel_lock s = Some c"
    "place_of s c \<noteq> Running \<Longrightarrow> os_critical_nesting_count s c = 0"
    "os_tickless_window_open s \<Longrightarrow> c \<noteq> 0 \<Longrightarrow> \<not> in_kernel c s"
    "masked_since_entry ceil c s"
  using assms by (simp_all add: crit_ok_def)

lemma crit_okI:
  assumes "\<And>c. holds_lock c s \<longleftrightarrow> os_critical_kernel_lock s = Some c"
    "\<And>c. place_of s c \<noteq> Running \<Longrightarrow> os_critical_nesting_count s c = 0"
    "\<And>c. os_tickless_window_open s \<Longrightarrow> c \<noteq> 0 \<Longrightarrow> \<not> in_kernel c s"
    "\<And>c. masked_since_entry ceil c s"
  shows "crit_ok ceil s"
  using assms by (simp add: crit_ok_def)

lemma mask_save_twice: "os_arch_kernel_mask_save ceil m = (v, m') \<Longrightarrow> snd (os_arch_kernel_mask_save ceil m') = m'"
  by (auto simp: os_arch_kernel_mask_save_def split: if_splits)

lemmas crit_steps = enter_begin_def enter_check_def multicore_check_def os_critical_exit_def
  os_critical_multicore_unlock_def os_tickless_remote_window_wait_def os_arch_spinlock_release_def
  os_arch_spinlock_acquire_def move_to_def count_up_def Let_def split_beta

lemmas crit_views = holds_lock_def in_kernel_def masked_since_entry_def

text \<open>A step of core \<open>c\<close> leaves what belongs to the other cores alone, so only \<open>c\<close> has to be looked at.\<close>

definition others_same :: "nat \<Rightarrow> crit \<Rightarrow> crit \<Rightarrow> bool" where
  "others_same c s s' \<longleftrightarrow>
     os_tickless_window_open s' = os_tickless_window_open s \<and>
     (\<forall>x. x \<noteq> c \<longrightarrow> place_of s' x = place_of s x \<and>
        os_critical_nesting_count s' x = os_critical_nesting_count s x \<and>
        os_critical_saved_mask s' x = os_critical_saved_mask s x \<and> mask_state s' x = mask_state s x \<and>
        core_mask s' x = core_mask s x \<and> entry_mask s' x = entry_mask s x \<and>
        (os_critical_kernel_lock s' = Some x \<longleftrightarrow> os_critical_kernel_lock s = Some x))"

lemma crit_ok_one:
  assumes k: "crit_ok ceil s" and o: "others_same c s s'"
    and h: "holds_lock c s' \<longleftrightarrow> os_critical_kernel_lock s' = Some c"
    and n: "place_of s' c \<noteq> Running \<longrightarrow> os_critical_nesting_count s' c = 0"
    and w: "os_tickless_window_open s' \<longrightarrow> c \<noteq> 0 \<longrightarrow> \<not> in_kernel c s'"
    and m: "masked_since_entry ceil c s'"
  shows "crit_ok ceil s'"
proof (rule crit_okI)
  fix x
  note d = crit_okD [OF k, of x]
  have e: "holds_lock x s' = holds_lock x s" "in_kernel x s' = in_kernel x s"
    "masked_since_entry ceil x s' = masked_since_entry ceil x s" if "x \<noteq> c"
    using o that by (simp_all add: others_same_def crit_views)
  show "holds_lock x s' \<longleftrightarrow> os_critical_kernel_lock s' = Some x"
    using h d(1) e(1) o by (cases "x = c") (simp_all add: others_same_def)
  show "os_critical_nesting_count s' x = 0" if "place_of s' x \<noteq> Running"
    using that n d(2) o by (cases "x = c") (simp_all add: others_same_def)
  show "\<not> in_kernel x s'" if "os_tickless_window_open s'" "x \<noteq> 0"
    using that w d(3) e(2) o by (cases "x = c") (simp_all add: others_same_def)
  show "masked_since_entry ceil x s'" using m d(4) e(3) by (cases "x = c") simp_all
qed

lemma enter_ok:
  assumes k: "crit_ok ceil s" and r: "place_of s c = Running" and n: "os_critical_nesting_count s c \<noteq> 0xFFFFFFFF"
  shows "crit_ok ceil (enter_begin ceil c s)"
proof -
  obtain v m where sv: "os_arch_kernel_mask_save ceil (core_mask s c) = (v, m)" by fastforce
  note d = crit_okD [OF k, of c]
  show ?thesis
  proof (cases "os_critical_nesting_count s c = 0")
    case True
    then have "enter_begin ceil c s = s\<lparr>core_mask := (core_mask s)(c := m), mask_state := (mask_state s)(c := v),
        entry_mask := (entry_mask s)(c := core_mask s c), place_of := (place_of s)(c := Acquiring)\<rparr>"
      by (simp add: enter_begin_def sv move_to_def)
    then show ?thesis using True r sv d
      by (intro crit_ok_one [OF k, of c]) (simp_all add: others_same_def crit_views)
  next
    case False
    have o: "(os_critical_saved_mask s c, core_mask s c) = os_arch_kernel_mask_save ceil (entry_mask s c)"
      using d(4) r False by (simp add: masked_since_entry_def)
    then have m: "m = core_mask s c" using mask_save_twice [of ceil "entry_mask s c"] sv by (metis snd_conv)
    have "enter_begin ceil c s = s\<lparr>core_mask := (core_mask s)(c := m), mask_state := (mask_state s)(c := v),
        os_critical_nesting_count := (os_critical_nesting_count s)(c := os_critical_nesting_count s c + 1)\<rparr>"
      using False by (simp add: enter_begin_def sv count_up_def)
    then show ?thesis using False r o m d word_suc_nonzero [OF n]
      by (intro crit_ok_one [OF k, of c]) (auto simp: others_same_def crit_views)
  qed
qed

lemma spin_ok:
  assumes k: "crit_ok ceil s" and a: "os_arch_spinlock_acquire c s = Some s'"
  shows "place_of s c = Acquiring \<Longrightarrow> crit_ok ceil (move_to c Checking s')"
    and "place_of s c = SwAcquiring \<Longrightarrow> crit_ok ceil (move_to c SwChecking s')"
proof -
  note d = crit_okD [OF k, of c]
  have s': "s' = s\<lparr>os_critical_kernel_lock := Some c\<rparr>" "os_critical_kernel_lock s = None"
    using a by (simp_all add: os_arch_spinlock_acquire_def split: if_splits)
  show "crit_ok ceil (move_to c Checking s')" if "place_of s c = Acquiring"
    using that s' d by (intro crit_ok_one [OF k, of c]) (auto simp: others_same_def move_to_def crit_views)
  show "crit_ok ceil (move_to c SwChecking s')" if "place_of s c = SwAcquiring"
    using that s' d by (intro crit_ok_one [OF k, of c]) (auto simp: others_same_def move_to_def crit_views)
qed

lemma check_ok:
  assumes k: "crit_ok ceil s"
  shows "place_of s c = Checking \<Longrightarrow> crit_ok ceil (enter_check c s)"
    and "place_of s c = SwChecking \<Longrightarrow> crit_ok ceil (multicore_check c s)"
proof -
  note d = crit_okD [OF k, of c]
  have h: "os_critical_kernel_lock s = Some c" "os_critical_nesting_count s c = 0"
    if "place_of s c = Checking \<or> place_of s c = SwChecking"
    using d(1,2) that by (auto simp: holds_lock_def)
  show "crit_ok ceil (enter_check c s)" if p: "place_of s c = Checking"
    using h p d by (intro crit_ok_one [OF k, of c]) (auto simp: others_same_def crit_steps crit_views)
  show "crit_ok ceil (multicore_check c s)" if p: "place_of s c = SwChecking"
    using h p d by (intro crit_ok_one [OF k, of c]) (auto simp: others_same_def crit_steps crit_views)
qed

lemma leave_ok:
  assumes k: "crit_ok ceil s" and p: "place_of s c = Running"
  shows "crit_ok ceil (os_critical_exit ceil c s)"
proof (cases "os_critical_nesting_count s c = 0")
  case True
  then show ?thesis using k by (simp add: os_critical_exit_def)
next
  case False
  note d = crit_okD [OF k, of c]
  have h: "os_critical_kernel_lock s = Some c" using d(1) False by (auto simp: holds_lock_def)
  show ?thesis using p h d False
    by (intro crit_ok_one [OF k, of c]) (auto simp: others_same_def crit_steps crit_views)
qed

lemma other_steps_ok:
  assumes k: "crit_ok ceil s"
  shows "place_of s c = Running \<Longrightarrow> os_critical_nesting_count s c = 0 \<Longrightarrow>
      crit_ok ceil (s\<lparr>core_mask := (core_mask s)(c := m)\<rparr>)"
    and "place_of s c = Running \<Longrightarrow> os_critical_nesting_count s c = 0 \<Longrightarrow> crit_ok ceil (move_to c SwAcquiring s)"
    and "place_of s c = SwHolding \<Longrightarrow> crit_ok ceil (os_critical_multicore_unlock c s)"
proof -
  note d = crit_okD [OF k, of c]
  show "crit_ok ceil (s\<lparr>core_mask := (core_mask s)(c := m)\<rparr>)"
    if "place_of s c = Running" "os_critical_nesting_count s c = 0"
    using that d by (intro crit_ok_one [OF k, of c]) (auto simp: others_same_def crit_views)
  show "crit_ok ceil (move_to c SwAcquiring s)"
    if "place_of s c = Running" "os_critical_nesting_count s c = 0"
    using that d by (intro crit_ok_one [OF k, of c]) (auto simp: others_same_def move_to_def crit_views)
  show "crit_ok ceil (os_critical_multicore_unlock c s)" if "place_of s c = SwHolding"
  proof -
    have "os_critical_nesting_count s c = 0" "os_critical_kernel_lock s = Some c"
      using d(1,2) that by (auto simp: holds_lock_def)
    then show ?thesis using that d
      by (intro crit_ok_one [OF k, of c]) (auto simp: others_same_def crit_steps crit_views)
  qed
qed

lemma window_ok:
  assumes k: "crit_ok ceil s" and n: "os_critical_nesting_count s 0 \<noteq> 0"
  shows "crit_ok ceil (s\<lparr>os_tickless_window_open := b\<rparr>)"
proof -
  note d = crit_okD [OF k]
  have "os_critical_kernel_lock s = Some 0" using d(1) [of 0] n by (simp add: holds_lock_def)
  then have "\<not> in_kernel x s" if "x \<noteq> 0" for x
    using d(1) [of x] that by (auto simp: holds_lock_def in_kernel_def)
  then show ?thesis using d by (intro crit_okI) (simp_all add: crit_views)
qed

lemma crit_step_ok: "crit_step ceil s s' \<Longrightarrow> crit_ok ceil s \<Longrightarrow> crit_ok ceil s'"
proof (induction rule: crit_step.induct)
qed (blast intro: enter_ok spin_ok check_ok leave_ok other_steps_ok window_ok)+

lemma crit_run_ok: "crit_run ceil s \<Longrightarrow> crit_ok ceil s"
proof (induction rule: crit_run.induct)
  case boot
  show ?case by (rule crit_okI) (simp_all add: crit_boot_def crit_views)
next
  case (step s s')
  then show ?case using crit_step_ok by blast
qed

section \<open>What it gives\<close>

lemma one_core_in_kernel:
  assumes "crit_run ceil s" "in_kernel c s" "in_kernel d s"
  shows "c = d"
proof -
  have "os_critical_kernel_lock s = Some x" if "in_kernel x s" for x
    using crit_okD(1) [OF crit_run_ok [OF assms(1)], of x] that by (auto simp: in_kernel_def holds_lock_def)
  from this [OF assms(2)] this [OF assms(3)] show ?thesis by simp
qed

definition kernel_mask_set :: "u32 \<Rightarrow> irq_mask \<Rightarrow> bool" where
  "kernel_mask_set ceil m \<longleftrightarrow> (if ceil \<noteq> 0 then BASEPRI m \<noteq> 0 \<and> BASEPRI m \<le> ceil else PRIMASK m)"

lemma masked_in_section:
  assumes "crit_run ceil s" "os_critical_nesting_count s c \<noteq> 0"
  shows "kernel_mask_set ceil (core_mask s c)"
proof -
  have "place_of s c = Running" using crit_okD(2) [OF crit_run_ok [OF assms(1)], of c] assms(2) by auto
  then have "core_mask s c = snd (os_arch_kernel_mask_save ceil (entry_mask s c))"
    using crit_okD(4) [OF crit_run_ok [OF assms(1)], of c] assms(2) by (simp add: masked_since_entry_def) (metis snd_conv)
  then show ?thesis by (auto simp: kernel_mask_set_def os_arch_kernel_mask_save_def)
qed

lemma exit_restores_mask:
  assumes "crit_run ceil s" "os_critical_nesting_count s c = 1"
  shows "core_mask (os_critical_exit ceil c s) c = entry_mask s c"
    "os_critical_kernel_lock (os_critical_exit ceil c s) = None"
proof -
  have "place_of s c = Running" using crit_okD(2) [OF crit_run_ok [OF assms(1)], of c] assms(2) by auto
  then have "(os_critical_saved_mask s c, core_mask s c) = os_arch_kernel_mask_save ceil (entry_mask s c)"
    using crit_okD(4) [OF crit_run_ok [OF assms(1)], of c] assms(2) by (simp add: masked_since_entry_def)
  then have "os_arch_kernel_mask_restore ceil (os_critical_saved_mask s c) (core_mask s c) = entry_mask s c"
    using kernel_mask_round_trip [of ceil "entry_mask s c"] by (metis fst_conv snd_conv)
  then show "core_mask (os_critical_exit ceil c s) c = entry_mask s c"
    "os_critical_kernel_lock (os_critical_exit ceil c s) = None"
    using assms(2) by (simp_all add: crit_steps)
qed

end
