(* ===== verification/CriticalProps.thy ===== *)
theory CriticalProps
  imports Critical
begin

text \<open>
  The property of the critical section.
\<close>

text \<open>Core 0 is inside a critical section, reached from the boot state.\<close>

definition one_inside :: crit where
  "one_inside = enter_check 0 (move_to 0 Checking ((enter_begin 0 0 crit_boot)\<lparr>os_critical_kernel_lock := Some 0\<rparr>))"

lemma one_inside_run: "crit_run 0 one_inside" "place_of one_inside 0 = Running" "os_critical_nesting_count one_inside 0 = 1"
proof -
  let ?a = "enter_begin 0 0 crit_boot" and ?b = "(enter_begin 0 0 crit_boot)\<lparr>os_critical_kernel_lock := Some 0\<rparr>"
  have "crit_run 0 ?a"
    by (rule crit_run.step [OF crit_run.boot]) (rule crit_step.enter, simp_all add: crit_boot_def)
  moreover have "crit_step 0 ?a (move_to 0 Checking ?b)"
    by (rule crit_step.spin)
       (simp_all add: enter_begin_def crit_boot_def os_arch_kernel_mask_save_def move_to_def os_arch_spinlock_acquire_def)
  ultimately have "crit_run 0 (move_to 0 Checking ?b)" by (rule crit_run.step)
  moreover have "crit_step 0 (move_to 0 Checking ?b) one_inside"
    unfolding one_inside_def by (rule crit_step.check) (simp add: move_to_def)
  ultimately show "crit_run 0 one_inside" by (rule crit_run.step)
  show "place_of one_inside 0 = Running" "os_critical_nesting_count one_inside 0 = 1"
    by (simp_all add: one_inside_def crit_steps crit_boot_def os_arch_kernel_mask_save_def)
qed

text \<open>
  C30. Critical sections exclude, across cores and interrupts. However the steps of the cores
  interleave, at most one core works on kernel data; while the tickless window is open it is core 0;
  a core inside a section has the kernel's interrupts masked, however deeply the sections nest; and
  leaving the outermost one frees the spinlock and puts back exactly the mask the core had when it
  entered.
\<close>

theorem critical_sections_exclude:
  assumes "crit_run ceil s"
  shows "(in_kernel c s \<longrightarrow> in_kernel d s \<longrightarrow> c = d) \<and>
    (os_tickless_window_open s \<longrightarrow> in_kernel c s \<longrightarrow> c = 0) \<and>
    (os_critical_nesting_count s c \<noteq> 0 \<longrightarrow> kernel_mask_set ceil (core_mask s c)) \<and>
    (os_critical_nesting_count s c = 1 \<longrightarrow>
       core_mask (os_critical_exit ceil c s) c = entry_mask s c \<and>
       os_critical_kernel_lock (os_critical_exit ceil c s) = None)"
  using one_core_in_kernel [OF assms] crit_okD(3) [OF crit_run_ok [OF assms], of c] masked_in_section [OF assms]
    exit_restores_mask [OF assms] by blast

theorem critical_sections_exclude_witness:
  "crit_run 0 one_inside \<and> PRIMASK (core_mask one_inside 0) \<and>
   \<not> PRIMASK (core_mask (os_critical_exit 0 0 one_inside) 0) \<and>
   os_critical_kernel_lock (os_critical_exit 0 0 one_inside) = None"
proof -
  have "entry_mask one_inside 0 = \<lparr>PRIMASK = False, BASEPRI = 0\<rparr>"
    by (simp add: one_inside_def crit_steps crit_boot_def os_arch_kernel_mask_save_def)
  then show ?thesis
    using critical_sections_exclude [OF one_inside_run(1), of 0 0] one_inside_run
    by (simp add: kernel_mask_set_def)
qed

end
