(* ===== verification/Log.thy ===== *)
theory Log
  imports Msg TaskApi
begin

text \<open>
  The log, \<^verbatim>\<open>kernel/os_log.c\<close>: lines formatted by their producers, a byte ring that queues whole
  lines or drops and counts them, and the log task that drains it. Text is a list of bytes. What
  \<^verbatim>\<open>vsnprintf\<close> makes of a format and its arguments is an argument (\<open>None\<close> is its error).
\<close>

section \<open>State\<close>

text \<open>\<open>os_log_buffer\<close> has \<open>OS_CONFIG_LOG_BUFFER_SIZE\<close> bytes, one of which always stays unused.\<close>

record os_log =
  os_log_buffer :: "u8 list"
  os_log_head :: nat
  os_log_tail :: nat
  os_log_dropped :: u32
  os_log_dropped_pending :: u32
  os_log_task_tcb :: "tref option"

definition OS_CONFIG_LOG_BUFFER_SIZE :: "os_log \<Rightarrow> nat" where
  "OS_CONFIG_LOG_BUFFER_SIZE lg = length (os_log_buffer lg)"

definition OS_LOG_CAPACITY :: "os_log \<Rightarrow> nat" where
  "OS_LOG_CAPACITY lg = OS_CONFIG_LOG_BUFFER_SIZE lg - 1"

definition text_bytes :: "string \<Rightarrow> u8 list" where
  "text_bytes s = map of_char s"

section \<open>The ring\<close>

definition os_log_free_space :: "os_log \<Rightarrow> nat" where
  "os_log_free_space lg =
     (let used = (if os_log_head lg \<ge> os_log_tail lg then os_log_head lg - os_log_tail lg
                  else OS_CONFIG_LOG_BUFFER_SIZE lg - (os_log_tail lg - os_log_head lg))
      in OS_LOG_CAPACITY lg - used)"

definition os_log_put :: "u8 list \<Rightarrow> os_log \<Rightarrow> os_log" where
  "os_log_put data lg =
     (let len = length data;
          room = OS_CONFIG_LOG_BUFFER_SIZE lg - os_log_head lg;
          first = (if room > len then len else room);
          buf1 = copy_in (os_log_buffer lg) (os_log_head lg) data first;
          buf2 = (if len > first then copy_in buf1 0 (drop first data) (len - first) else buf1)
      in lg\<lparr>os_log_buffer := buf2, os_log_head := (os_log_head lg + len) mod OS_CONFIG_LOG_BUFFER_SIZE lg\<rparr>)"

definition os_log_queue :: "u8 list \<Rightarrow> os_log \<times> kstate \<Rightarrow> os_log \<times> kstate" where
  "os_log_queue data = (\<lambda>(lg, s).
     if os_log_free_space lg < length data
     then (lg\<lparr>os_log_dropped := os_log_dropped lg + 1, os_log_dropped_pending := os_log_dropped_pending lg + 1\<rparr>, s)
     else let lg1 = os_log_put data lg in (lg1, os_task_wake_locked (os_log_task_tcb lg1) s))"

section \<open>Formatting\<close>

text \<open>The digits of a number, the last one first, as the loop that extracts them fills its array.\<close>

function u32_digits :: "u32 \<Rightarrow> u8 list" where
  "u32_digits v =
     (let d = 48 + ucast (v mod 10); v' = v div 10
      in if v' \<noteq> 0 then d # u32_digits v' else [d])"
  by pat_completeness auto

termination
proof (relation "measure unat")
  fix v x xa :: "u32" and y :: u8
  assume "xa = v div 10" "xa \<noteq> 0"
  then have "v \<noteq> 0" "unat xa = unat v div 10" by (auto simp: unat_div)
  then show "(xa, v) \<in> measure unat" using unat_gt_0 [of v] by simp
qed simp

declare u32_digits.simps [simp del]

definition os_log_append_text :: "u8 list \<Rightarrow> string \<Rightarrow> u8 list" where
  "os_log_append_text dst text = dst @ text_bytes text"

definition os_log_append_u32 :: "u8 list \<Rightarrow> u32 \<Rightarrow> nat \<Rightarrow> u8 list" where
  "os_log_append_u32 dst v width =
     (let digits = u32_digits v in dst @ replicate (width - length digits) 32 @ rev digits)"

text \<open>The line that reports dropped lines; \<open>os_log_emit_dropped\<close> writes it into an array of 64 bytes.\<close>

definition os_log_emit_dropped :: "u32 \<Rightarrow> u32 \<Rightarrow> u8 list" where
  "os_log_emit_dropped tick dropped =
     os_log_append_text
       (os_log_append_u32
          (os_log_append_text (os_log_append_u32 (os_log_append_text [] ''['') tick 8) ''] W *** '')
          dropped 0)
       ('' log lines dropped ***'' @ [CHR 0x0D, CHR 0x0A])"

datatype os_log_level_t =
    OS_LOG_LEVEL_NONE | OS_LOG_LEVEL_ERROR | OS_LOG_LEVEL_WARN | OS_LOG_LEVEL_INFO | OS_LOG_LEVEL_DEBUG

definition severity :: "os_log_level_t \<Rightarrow> string" where
  "severity level = (case level of OS_LOG_LEVEL_ERROR \<Rightarrow> ''E'' | OS_LOG_LEVEL_WARN \<Rightarrow> ''W''
     | OS_LOG_LEVEL_DEBUG \<Rightarrow> ''D'' | _ \<Rightarrow> ''I'')"

definition log_prefix :: "os_log_level_t \<Rightarrow> u32 \<Rightarrow> u8 list" where
  "log_prefix level tick =
     os_log_append_text (os_log_append_u32 (text_bytes ''['') tick 8) (''] '' @ severity level @ '' '')"

text \<open>
  The line in an array of \<open>OS_CONFIG_LOG_LINE_MAX\<close> bytes: the formatted text is cut to leave three of
  them, two of which the line end takes. \<open>None\<close>: no line is made.
\<close>

definition log_line :: "nat \<Rightarrow> os_log_level_t \<Rightarrow> u32 \<Rightarrow> u8 list option \<Rightarrow> u8 list option" where
  "log_line line_max level tick body =
     (if length (log_prefix level tick) < line_max then
        (case body of
           None \<Rightarrow> None
         | Some b \<Rightarrow>
             let total = length (log_prefix level tick) + length b;
                 t1 = (if total > line_max - 1 then line_max - 1 else total);
                 t2 = (if t1 > line_max - 3 then line_max - 3 else t1)
             in Some (take t2 (log_prefix level tick @ b) @ [13, 10]))
      else None)"

definition os_log_write ::
  "nat \<Rightarrow> os_log_level_t \<Rightarrow> u8 list option option \<Rightarrow> os_log \<times> kstate \<Rightarrow> os_log \<times> kstate" where
  "os_log_write line_max level fmt = (\<lambda>(lg, s).
     case fmt of
       None \<Rightarrow> (lg, s)
     | Some body \<Rightarrow>
         (case log_line line_max level (tick_count s) body of
            None \<Rightarrow> (lg, s)
          | Some line \<Rightarrow> os_log_queue line (lg, s)))"

definition os_log_dropped_get :: "os_log \<Rightarrow> u32" where
  "os_log_dropped_get lg = os_log_dropped lg"

section \<open>The log task\<close>

definition os_log_system_init ::
  "task_port \<Rightarrow> os_task_config_t \<Rightarrow> os_task_t \<Rightarrow> stack_memory \<Rightarrow> os_log \<times> kstate \<Rightarrow>
     os_err_t \<times> os_task_t option \<times> stack_memory \<times> os_log \<times> kstate" where
  "os_log_system_init port config tsk_log mem = (\<lambda>(lg, s).
     let lg1 = lg\<lparr>os_log_head := 0, os_log_tail := 0, os_log_dropped := 0, os_log_dropped_pending := 0\<rparr> in
     case os_task_create_system port (\<lambda>s. s) (Some tsk_log) (Some config) mem s of
       (status, task, mem1, s1) \<Rightarrow>
         (case (if status = OS_ERR_NONE then os_task_start task s1 else (status, s1)) of
            (status', s2) \<Rightarrow>
              (status', task, mem1,
               if status' = OS_ERR_NONE
               then lg1\<lparr>os_log_task_tcb := os_task_tcb_resolve (ident (the task)) s2\<rparr> else lg1, s2)))"

text \<open>
  One round of the task: the contiguous bytes to output, if any, are found in one critical section,
  output outside of it and released in a second; the report of dropped lines, and the sleep, each
  have their own. Between them producers may queue more.
\<close>

definition log_chunk :: "os_log \<Rightarrow> nat \<times> nat" where
  "log_chunk lg =
     (if os_log_head lg \<noteq> os_log_tail lg
      then let stop = (if os_log_head lg > os_log_tail lg then os_log_head lg else OS_CONFIG_LOG_BUFFER_SIZE lg)
           in (os_log_tail lg, stop - os_log_tail lg)
      else (0, 0))"

definition log_release :: "nat \<Rightarrow> os_log \<Rightarrow> os_log" where
  "log_release len lg = lg\<lparr>os_log_tail := (os_log_tail lg + len) mod OS_CONFIG_LOG_BUFFER_SIZE lg\<rparr>"

definition log_take_dropped :: "os_log \<Rightarrow> u32 \<times> os_log" where
  "log_take_dropped lg = (os_log_dropped_pending lg, lg\<lparr>os_log_dropped_pending := 0\<rparr>)"

definition log_sleep :: "os_log \<Rightarrow> kstate \<Rightarrow> kstate" where
  "log_sleep lg s = (if os_log_head lg = os_log_tail lg then os_task_sleep_ticks OS_WAIT_FOREVER s else s)"

section \<open>The ring holds the queued bytes in order\<close>

definition log_used :: "os_log \<Rightarrow> nat" where
  "log_used lg = (os_log_head lg + (OS_CONFIG_LOG_BUFFER_SIZE lg - os_log_tail lg)) mod OS_CONFIG_LOG_BUFFER_SIZE lg"

definition log_content :: "os_log \<Rightarrow> u8 list" where
  "log_content lg = ring_at (os_log_buffer lg) (OS_CONFIG_LOG_BUFFER_SIZE lg) (os_log_tail lg) (log_used lg)"

definition log_ok :: "os_log \<Rightarrow> bool" where
  "log_ok lg \<longleftrightarrow> os_log_head lg < OS_CONFIG_LOG_BUFFER_SIZE lg \<and> os_log_tail lg < OS_CONFIG_LOG_BUFFER_SIZE lg"

definition as_ring :: "os_log \<Rightarrow> os_msg_t" where
  "as_ring lg = \<lparr>msg_ref = 0, m_addr = 0, m_buffer = os_log_buffer lg, m_capacity = OS_CONFIG_LOG_BUFFER_SIZE lg,
     m_head = os_log_tail lg, m_tail = os_log_head lg, m_used = 0, m_count = 0, m_owned = False\<rparr>"

lemma log_used_cases:
  "log_ok lg \<Longrightarrow> log_used lg = (if os_log_head lg \<ge> os_log_tail lg then os_log_head lg - os_log_tail lg
     else OS_CONFIG_LOG_BUFFER_SIZE lg - (os_log_tail lg - os_log_head lg))"
  by (auto simp: log_used_def log_ok_def mod_if)

lemma log_free_used:
  assumes "log_ok lg"
  shows "os_log_free_space lg = OS_CONFIG_LOG_BUFFER_SIZE lg - 1 - log_used lg" "log_used lg < OS_CONFIG_LOG_BUFFER_SIZE lg"
    "os_log_head lg = (os_log_tail lg + log_used lg) mod OS_CONFIG_LOG_BUFFER_SIZE lg"
  using assms log_used_cases [OF assms] by (auto simp: os_log_free_space_def OS_LOG_CAPACITY_def Let_def log_ok_def)

lemma log_put_ring:
  assumes "log_ok lg" "length data \<le> OS_CONFIG_LOG_BUFFER_SIZE lg"
  shows "os_log_buffer (os_log_put data lg) = m_buffer (os_msg_ring_write data (length data) (as_ring lg))"
    "os_log_head (os_log_put data lg) = (os_log_head lg + length data) mod OS_CONFIG_LOG_BUFFER_SIZE lg"
    "os_log_tail (os_log_put data lg) = os_log_tail lg"
    "OS_CONFIG_LOG_BUFFER_SIZE (os_log_put data lg) = OS_CONFIG_LOG_BUFFER_SIZE lg"
proof -
  have r: "ring_ok (as_ring lg)" using assms(1) by (simp add: ring_ok_def as_ring_def log_ok_def OS_CONFIG_LOG_BUFFER_SIZE_def)
  show b: "os_log_buffer (os_log_put data lg) = m_buffer (os_msg_ring_write data (length data) (as_ring lg))"
    by (simp add: os_log_put_def os_msg_ring_write_def as_ring_def Let_def)
  have "ring_ok (os_msg_ring_write data (length data) (as_ring lg))"
    "m_capacity (os_msg_ring_write data (length data) (as_ring lg)) = OS_CONFIG_LOG_BUFFER_SIZE lg"
    using ring_write_frame [OF r, of "length data" data] assms(2) by (simp_all add: as_ring_def)
  then show "OS_CONFIG_LOG_BUFFER_SIZE (os_log_put data lg) = OS_CONFIG_LOG_BUFFER_SIZE lg"
    by (simp add: OS_CONFIG_LOG_BUFFER_SIZE_def [of "os_log_put data lg"] b ring_ok_def)
  show "os_log_head (os_log_put data lg) = (os_log_head lg + length data) mod OS_CONFIG_LOG_BUFFER_SIZE lg"
    "os_log_tail (os_log_put data lg) = os_log_tail lg"
    by (simp_all add: os_log_put_def Let_def)
qed

lemma log_put_content:
  assumes ok: "log_ok lg" and f: "length data \<le> os_log_free_space lg"
  shows "log_ok (os_log_put data lg)" "log_content (os_log_put data lg) = log_content lg @ data"
    "log_used (os_log_put data lg) = log_used lg + length data"
proof -
  let ?n = "OS_CONFIG_LOG_BUFFER_SIZE lg" and ?l = "os_log_put data lg"
  note u = log_free_used [OF ok]
  have fit: "log_used lg + length data < ?n" using u f by simp
  then have le: "length data \<le> ?n" by simp
  note p = log_put_ring [OF ok le]
  have t: "os_log_tail lg < ?n" using ok by (simp add: log_ok_def)
  then show "log_ok ?l" using p fit by (simp add: log_ok_def)
  have "(os_log_head lg + length data) mod ?n = (os_log_tail lg + (log_used lg + length data)) mod ?n"
    by (subst u(3)) (simp add: mod_simps add.assoc)
  then have "log_used ?l = (os_log_tail lg + (log_used lg + length data) + (?n - os_log_tail lg)) mod ?n"
    by (simp add: log_used_def [of ?l] p mod_simps)
  also have "\<dots> = ((log_used lg + length data) + ?n) mod ?n" using t by (simp add: ac_simps)
  finally show lu: "log_used ?l = log_used lg + length data" using fit by simp
  have r: "ring_ok (as_ring lg)" using ok by (simp add: ring_ok_def as_ring_def log_ok_def OS_CONFIG_LOG_BUFFER_SIZE_def)
  have "ring_at (m_buffer (os_msg_ring_write data (length data) (as_ring lg))) ?n (os_log_tail lg) (log_used lg + length data) =
      ring_at (os_log_buffer lg) ?n (os_log_tail lg) (log_used lg) @ data"
    using ring_write_content [OF r, of "log_used lg" "length data" data] fit u(3) by (simp add: as_ring_def)
  then show "log_content ?l = log_content lg @ data" by (simp add: log_content_def lu p)
qed

section \<open>The log task empties it in order\<close>

text \<open>A chunk that the task is putting out lies at the front of the queued bytes.\<close>

definition chunk_ok :: "os_log \<Rightarrow> (nat \<times> nat) option \<Rightarrow> bool" where
  "chunk_ok lg c \<longleftrightarrow>
     (case c of None \<Rightarrow> True
      | Some (off, len) \<Rightarrow> off = os_log_tail lg \<and> len \<le> log_used lg \<and> off + len \<le> OS_CONFIG_LOG_BUFFER_SIZE lg)"

lemma log_chunk_ok:
  assumes "log_ok lg" "log_chunk lg = (off, len)" "len \<noteq> 0"
  shows "chunk_ok lg (Some (off, len))"
  using assms log_used_cases [OF assms(1)]
  by (auto simp: chunk_ok_def log_chunk_def log_ok_def Let_def split: if_splits)

lemma chunk_out:
  assumes ok: "log_ok lg" and c: "chunk_ok lg (Some (off, len))"
  shows "log_ok (log_release len lg)"
    "log_content lg = copy_out (os_log_buffer lg) off len @ log_content (log_release len lg)"
proof -
  let ?n = "OS_CONFIG_LOG_BUFFER_SIZE lg" and ?t = "os_log_tail lg" and ?r = "log_release len lg"
  have f: "os_log_buffer ?r = os_log_buffer lg" "os_log_head ?r = os_log_head lg" "os_log_tail ?r = (?t + len) mod ?n"
    "OS_CONFIG_LOG_BUFFER_SIZE ?r = ?n" by (simp_all add: log_release_def OS_CONFIG_LOG_BUFFER_SIZE_def)
  have o: "off = ?t" "len \<le> log_used lg" "?t + len \<le> ?n" using c by (simp_all add: chunk_ok_def)
  have n: "0 < ?n" "?t < ?n" using ok by (auto simp: log_ok_def)
  show ok': "log_ok ?r" using ok n by (simp add: log_ok_def f)
  have "log_used ?r = log_used lg - len"
    using log_used_cases [OF ok'] log_used_cases [OF ok] o n ok unfolding f
    by (auto simp: log_ok_def mod_if split: if_splits)
  then have r: "log_content ?r = ring_at (os_log_buffer lg) ?n (?t + len) (log_used lg - len)"
    by (simp add: log_content_def f)
  have "copy_out (os_log_buffer lg) ?t len = ring_at (os_log_buffer lg) ?n ?t len"
    by (rule nth_equalityI) (use o n in \<open>auto simp: copy_out_def ring_at_def OS_CONFIG_LOG_BUFFER_SIZE_def\<close>)
  then show "log_content lg = copy_out (os_log_buffer lg) off len @ log_content ?r"
    using ring_at_add [of "os_log_buffer lg" ?n ?t len "log_used lg - len"] o unfolding r by (simp add: log_content_def)
qed

text \<open>
  A run of the log from \<open>lg0\<close>: producers queue lines at any moment, also while the task is putting
  bytes out. \<open>acc\<close> lists the lines that fitted, \<open>out\<close> the bytes put out, \<open>d\<close> counts the lines that
  did not fit, \<open>c\<close> is the chunk being put out.
\<close>

inductive log_run ::
  "os_log \<Rightarrow> os_log \<Rightarrow> (nat \<times> nat) option \<Rightarrow> u8 list list \<Rightarrow> u8 list \<Rightarrow> nat \<Rightarrow> bool" for lg0 where
  boot: "log_run lg0 lg0 None [] [] 0"
| queue: "log_run lg0 lg c acc out d \<Longrightarrow> os_log_queue data (lg, s) = (lg', s') \<Longrightarrow>
    log_run lg0 lg' c (if os_log_free_space lg < length data then acc else acc @ [data]) out
      (if os_log_free_space lg < length data then d + 1 else d)"
| fetch: "log_run lg0 lg None acc out d \<Longrightarrow> log_chunk lg = (off, len) \<Longrightarrow> len \<noteq> 0 \<Longrightarrow>
    log_run lg0 lg (Some (off, len)) acc out d"
| put_out: "log_run lg0 lg (Some (off, len)) acc out d \<Longrightarrow>
    log_run lg0 (log_release len lg) None acc (out @ copy_out (os_log_buffer lg) off len) d"
| report: "log_run lg0 lg None acc out d \<Longrightarrow> log_run lg0 (snd (log_take_dropped lg)) None acc out d"

lemma log_counters [simp]:
  "OS_CONFIG_LOG_BUFFER_SIZE (lg\<lparr>os_log_dropped := a\<rparr>) = OS_CONFIG_LOG_BUFFER_SIZE lg"
  "OS_CONFIG_LOG_BUFFER_SIZE (lg\<lparr>os_log_dropped_pending := a\<rparr>) = OS_CONFIG_LOG_BUFFER_SIZE lg"
  "log_used (lg\<lparr>os_log_dropped := a\<rparr>) = log_used lg" "log_used (lg\<lparr>os_log_dropped_pending := a\<rparr>) = log_used lg"
  "log_content (lg\<lparr>os_log_dropped := a\<rparr>) = log_content lg" "log_content (lg\<lparr>os_log_dropped_pending := a\<rparr>) = log_content lg"
  "log_ok (lg\<lparr>os_log_dropped := a\<rparr>) = log_ok lg" "log_ok (lg\<lparr>os_log_dropped_pending := a\<rparr>) = log_ok lg"
  "chunk_ok (lg\<lparr>os_log_dropped := a\<rparr>) c = chunk_ok lg c" "chunk_ok (lg\<lparr>os_log_dropped_pending := a\<rparr>) c = chunk_ok lg c"
proof -
  show n: "OS_CONFIG_LOG_BUFFER_SIZE (lg\<lparr>os_log_dropped := a\<rparr>) = OS_CONFIG_LOG_BUFFER_SIZE lg"
    "OS_CONFIG_LOG_BUFFER_SIZE (lg\<lparr>os_log_dropped_pending := a\<rparr>) = OS_CONFIG_LOG_BUFFER_SIZE lg"
    by (simp_all add: OS_CONFIG_LOG_BUFFER_SIZE_def)
  show u: "log_used (lg\<lparr>os_log_dropped := a\<rparr>) = log_used lg" "log_used (lg\<lparr>os_log_dropped_pending := a\<rparr>) = log_used lg"
    by (simp_all add: log_used_def n)
  show "log_content (lg\<lparr>os_log_dropped := a\<rparr>) = log_content lg" "log_content (lg\<lparr>os_log_dropped_pending := a\<rparr>) = log_content lg"
    by (simp_all add: log_content_def n u)
  show "log_ok (lg\<lparr>os_log_dropped := a\<rparr>) = log_ok lg" "log_ok (lg\<lparr>os_log_dropped_pending := a\<rparr>) = log_ok lg"
    by (simp_all add: log_ok_def n)
  show "chunk_ok (lg\<lparr>os_log_dropped := a\<rparr>) c = chunk_ok lg c" "chunk_ok (lg\<lparr>os_log_dropped_pending := a\<rparr>) c = chunk_ok lg c"
    by (cases c; auto simp: chunk_ok_def n u)+
qed

lemma log_queue_effect:
  assumes ok: "log_ok lg" and c: "chunk_ok lg c" and r: "os_log_queue data (lg, s) = (lg', s')"
  shows "log_ok lg'" "chunk_ok lg' c"
    "log_content lg' = log_content lg @ (if os_log_free_space lg < length data then [] else data)"
    "os_log_dropped lg' = os_log_dropped lg + (if os_log_free_space lg < length data then 1 else 0)"
proof -
  have "log_ok lg' \<and> chunk_ok lg' c \<and>
    log_content lg' = log_content lg @ (if os_log_free_space lg < length data then [] else data) \<and>
    os_log_dropped lg' = os_log_dropped lg + (if os_log_free_space lg < length data then 1 else 0)"
  proof (cases "os_log_free_space lg < length data")
    case True
    then have l: "lg' = lg\<lparr>os_log_dropped := os_log_dropped lg + 1, os_log_dropped_pending := os_log_dropped_pending lg + 1\<rparr>"
      using r by (simp add: os_log_queue_def)
    show ?thesis using ok c True by (simp add: l)
  next
    case False
    then have l: "lg' = os_log_put data lg" and f: "length data \<le> os_log_free_space lg"
      using r by (simp_all add: os_log_queue_def Let_def)
    note p = log_put_content [OF ok f]
    have "length data \<le> OS_CONFIG_LOG_BUFFER_SIZE lg" using f log_free_used(1) [OF ok] by simp
    note q = log_put_ring [OF ok this]
    have "os_log_dropped (os_log_put data lg) = os_log_dropped lg" by (simp add: os_log_put_def Let_def)
    then show ?thesis using False p q c by (cases c) (auto simp: l chunk_ok_def)
  qed
  then show "log_ok lg'" "chunk_ok lg' c"
    "log_content lg' = log_content lg @ (if os_log_free_space lg < length data then [] else data)"
    "os_log_dropped lg' = os_log_dropped lg + (if os_log_free_space lg < length data then 1 else 0)" by simp_all
qed

lemma log_run_account:
  assumes "log_run lg0 lg c acc out d" "log_ok lg0"
  shows "log_ok lg \<and> chunk_ok lg c \<and> out @ log_content lg = log_content lg0 @ concat acc \<and>
    os_log_dropped lg = os_log_dropped lg0 + word_of_nat d"
  using assms(1)
proof (induction rule: log_run.induct)
  case boot
  then show ?case using assms(2) by (simp add: chunk_ok_def)
next
  case (queue lg c acc out d data s lg' s')
  note e = log_queue_effect [of lg c data s lg' s']
  show ?case using queue e by (cases "os_log_free_space lg < length data") simp_all
next
  case (fetch lg acc out d off len)
  then show ?case using log_chunk_ok by blast
next
  case (put_out lg off len acc out d)
  then show ?case using chunk_out [of lg off len] by (simp add: chunk_ok_def log_release_def)
next
  case (report lg acc out d)
  then show ?case
    by (simp add: log_take_dropped_def)
qed

section \<open>No array overflows\<close>

lemma u32_digits_length: "unat v < 10 ^ Suc k \<Longrightarrow> length (u32_digits v) \<le> Suc k"
proof (induction v arbitrary: k rule: u32_digits.induct)
  case (1 v)
  show ?case
  proof (cases "v div 10 = 0")
    case True
    then show ?thesis by (simp add: u32_digits.simps [of v])
  next
    case False
    have q: "unat (v div 10) = unat v div 10" by (simp add: unat_div)
    have "unat v div 10 \<noteq> 0" using False q unat_eq_0 [of "v div 10"] by simp
    then obtain j where k: "k = Suc j" using "1.prems" by (cases k) auto
    have "unat (v div 10) < 10 ^ Suc j" using "1.prems" unfolding q k by (simp add: div_less_iff_less_mult)
    then have "length (u32_digits (v div 10)) \<le> Suc j" using "1.IH" [OF refl refl] False by blast
    then show ?thesis using False k by (simp add: u32_digits.simps [of v] Let_def)
  qed
qed

lemma u32_digits_array: "length (u32_digits v) \<le> 10"
proof -
  have "unat v < 10 ^ Suc 9" using unsigned_less [of v, where 'a = nat] by simp
  then show ?thesis using u32_digits_length by fastforce
qed

lemma dropped_line_array: "length (os_log_emit_dropped tick n) \<le> 64"
  using u32_digits_array [of tick] u32_digits_array [of n]
  by (simp add: os_log_emit_dropped_def os_log_append_text_def os_log_append_u32_def text_bytes_def Let_def)

lemma log_line_array:
  assumes "32 \<le> line_max" "body \<noteq> None"
  obtains line where "log_line line_max level tick body = Some line" "length line < line_max"
    "drop (length line - 2) line = [13, 10]"
proof -
  obtain b where b: "body = Some b" using assms(2) by auto
  have "8 - n + n \<le> 10" if "n \<le> 10" for n :: nat using that by simp
  from this [OF u32_digits_array, of tick] have "length (log_prefix level tick) \<le> 16"
    by (simp add: log_prefix_def os_log_append_text_def os_log_append_u32_def text_bytes_def severity_def Let_def
        split: os_log_level_t.split)
  then have p: "length (log_prefix level tick) < line_max" using assms(1) by linarith
  define total where "total = length (log_prefix level tick) + length b"
  define n where "n = (if (if total > line_max - 1 then line_max - 1 else total) > line_max - 3 then line_max - 3
    else (if total > line_max - 1 then line_max - 1 else total))"
  define line where "line = take n (log_prefix level tick @ b) @ [13, 10]"
  have "log_line line_max level tick body = Some line"
    using p by (simp only: log_line_def b Let_def line_def n_def total_def option.case if_True)
  moreover have n: "n \<le> total" "n + 2 < line_max" using assms(1) by (auto simp: n_def)
  then have l: "length line = n + 2" by (simp add: line_def total_def)
  moreover have "drop n line = [13, 10]" using n(1) by (simp add: line_def total_def)
  ultimately show thesis using that n(2) by simp
qed

end
