(* ===== verification/Kernel.thy ===== *)
theory Kernel
  imports Tick Log
begin

text \<open>
  Bringing the kernel up and locking its scheduler, \<^verbatim>\<open>kernel/os_kernel.c\<close>. Initialisation runs the
  initialisers of all components in their order; a requirement that fails never returns, which is
  \<open>None\<close>. The SoC callbacks and the port's own initialisation touch hardware only; what they do to
  the tick timer is an argument.
\<close>

section \<open>The scheduler lock\<close>

definition os_kernel_is_running :: "kstate \<Rightarrow> bool" where
  "os_kernel_is_running s = kernel_running s"

definition os_kernel_lock :: "kstate \<Rightarrow> kstate" where
  "os_kernel_lock s =
     (if \<not> in_isr s
      then s\<lparr>lock_count := (lock_count s)(this_core s := lock_count s (this_core s) + 1)\<rparr> else s)"

definition os_kernel_unlock :: "kstate \<Rightarrow> kstate" where
  "os_kernel_unlock s =
     (if in_isr s then s
      else
        let core = this_core s in
        if lock_count s core = 0 then (if assert_on s then s\<lparr>halted := True\<rparr> else s)
        else
          let n = lock_count s core - 1;
              switch_due = (n = 0 \<and> switch_pending s core);
              s1 = s\<lparr>lock_count := (lock_count s)(core := n)\<rparr>;
              s2 = (if n = 0 then s1\<lparr>switch_pending := (switch_pending s1)(core := False)\<rparr> else s1)
          in if switch_due \<and> os_kernel_is_running s2 then os_arch_context_switch_request s2 else s2)"

definition os_kernel_is_locked :: "kstate \<Rightarrow> bool" where
  "os_kernel_is_locked s \<longleftrightarrow> lock_count s (this_core s) \<noteq> 0"

text \<open>A switch that becomes due while the scheduler is locked is taken at the outermost unlock, not before.\<close>

lemma unlock_takes_pended_switch:
  assumes "\<not> in_isr s" "kernel_running s" "lock_count s (this_core s) = 0" "switch_req s (this_core s) = False"
  shows "\<not> switch_req (os_task_switch_request (os_kernel_lock s)) (this_core s)"
    "switch_req (os_kernel_unlock (os_task_switch_request (os_kernel_lock s))) (this_core s)"
    "\<not> os_kernel_is_locked (os_kernel_unlock (os_task_switch_request (os_kernel_lock s)))"
  using assms
  by (simp_all add: os_kernel_lock_def os_kernel_unlock_def os_task_switch_request_def os_kernel_is_locked_def
      os_arch_context_switch_request_def os_kernel_is_running_def Let_def)

lemma lock_nests:
  assumes "\<not> in_isr s" "lock_count s (this_core s) \<noteq> 0" "lock_count s (this_core s) \<noteq> 0xFFFFFFFF"
  shows "os_kernel_unlock (os_kernel_lock s) = s"
proof -
  let ?n = "lock_count s (this_core s)"
  have "?n + 1 \<noteq> 0" by (rule word_suc_nonzero [OF assms(3)])
  then show ?thesis using assms by (simp add: os_kernel_lock_def os_kernel_unlock_def Let_def)
qed

lemma kwf_kernel_lock: "kwf {} (os_kernel_lock s) = kwf {} s" "kwf {} (os_kernel_unlock s) = kwf {} s"
  by (rule same_view_kwf, simp add: same_view_def os_kernel_lock_def os_kernel_unlock_def Let_def
      os_arch_context_switch_request_def)+

section \<open>Start-up\<close>

record kernel_sys =
  k_sys :: tick_sys
  k_log :: os_log
  k_stacks :: stack_memory
  os_kernel_initialized :: bool

text \<open>The static tasks of the kernel and their configurations.\<close>

record boot_tasks =
  tsk_timer :: os_task_t
  timer_config :: os_task_config_t
  tsk_log :: os_task_t
  log_config :: os_task_config_t
  tsk_main :: os_task_t
  main_config :: os_task_config_t

definition os_kernel_init_require :: "bool \<Rightarrow> 'a \<Rightarrow> 'a option" where
  "os_kernel_init_require valid k = (if valid then Some k else None)"

definition os_main_system_init ::
  "task_port \<Rightarrow> boot_tasks \<Rightarrow> stack_memory \<Rightarrow> kstate \<Rightarrow> os_err_t \<times> stack_memory \<times> kstate" where
  "os_main_system_init port boot mem s =
     (case os_task_create port (\<lambda>s. s) (Some (tsk_main boot)) (Some (main_config boot)) mem s of
        (status, task, mem1, s1) \<Rightarrow>
          (case (if status = OS_ERR_NONE then os_task_start task s1 else (status, s1)) of
             (status', s2) \<Rightarrow> (status', mem1, s2)))"

definition init_tasks :: "task_port \<Rightarrow> kernel_sys \<Rightarrow> kernel_sys option" where
  "init_tasks port k =
     (case os_task_idle_create port (k_stacks k) (os_task_system_init (ks (k_sys k))) of
        (e, m, s) \<Rightarrow>
          os_kernel_init_require (e = OS_ERR_NONE) (k\<lparr>k_sys := (k_sys k)\<lparr>ks := s\<rparr>, k_stacks := m\<rparr>))"

definition init_timers :: "task_port \<Rightarrow> boot_tasks \<Rightarrow> kernel_sys \<Rightarrow> kernel_sys option" where
  "init_timers port boot k =
     (case os_timer_system_init port (timer_config boot) (tsk_timer boot) (k_stacks k) (tms (k_sys k), ks (k_sys k)) of
        (e, _, m, ts, s) \<Rightarrow>
          os_kernel_init_require (e = OS_ERR_NONE)
            (k\<lparr>k_sys := (k_sys k)\<lparr>ks := s, tms := ts\<rparr>, k_stacks := m\<rparr>))"

definition init_log :: "task_port \<Rightarrow> boot_tasks \<Rightarrow> kernel_sys \<Rightarrow> kernel_sys option" where
  "init_log port boot k =
     (case os_log_system_init port (log_config boot) (tsk_log boot) (k_stacks k) (k_log k, ks (k_sys k)) of
        (e, _, m, lg, s) \<Rightarrow>
          os_kernel_init_require (e = OS_ERR_NONE)
            (k\<lparr>k_sys := (k_sys k)\<lparr>ks := s\<rparr>, k_log := lg, k_stacks := m\<rparr>))"

definition init_main :: "task_port \<Rightarrow> boot_tasks \<Rightarrow> kernel_sys \<Rightarrow> kernel_sys option" where
  "init_main port boot k =
     (case os_main_system_init port boot (k_stacks k) (ks (k_sys k)) of
        (e, m, s) \<Rightarrow>
          os_kernel_init_require (e = OS_ERR_NONE) (k\<lparr>k_sys := (k_sys k)\<lparr>ks := s\<rparr>, k_stacks := m\<rparr>))"

definition os_init ::
  "task_port \<Rightarrow> (window \<Rightarrow> window) \<Rightarrow> (window \<Rightarrow> window) \<Rightarrow> boot_tasks \<Rightarrow> kernel_sys \<Rightarrow> kernel_sys option" where
  "os_init port os_arch_init os_arch_tick_init boot k =
     Option.bind (os_kernel_init_require (\<not> os_kernel_initialized k \<and> \<not> kernel_running (ks (k_sys k)))
        (k\<lparr>k_sys := (k_sys k)\<lparr>win := os_arch_init (win (k_sys k))\<rparr>\<rparr>)) (\<lambda>k0.
     Option.bind (init_tasks port k0) (\<lambda>k1.
     Option.bind (init_timers port boot k1) (\<lambda>k2.
     Option.bind (init_log port boot k2) (\<lambda>k3.
     Option.bind (init_main port boot k3) (\<lambda>k4.
     Some (k4\<lparr>k_sys := os_tick_init os_arch_tick_init (k_sys k4), os_kernel_initialized := True\<rparr>))))))"

text \<open>Up to the point where the port starts the first task, which does not come back.\<close>

definition os_start :: "kernel_sys \<Rightarrow> kernel_sys option" where
  "os_start k =
     os_kernel_init_require
       (os_kernel_initialized k \<and> \<not> kernel_running (ks (k_sys k)) \<and> os_task_idle_is_created (ks (k_sys k)))
       (k\<lparr>k_sys := (k_sys k)\<lparr>ks := (ks (k_sys k))\<lparr>kernel_running := True\<rparr>\<rparr>\<rparr>)"

definition os_core_start :: "(window \<Rightarrow> window) \<Rightarrow> (window \<Rightarrow> window) \<Rightarrow> kernel_sys \<Rightarrow> kernel_sys option" where
  "os_core_start os_arch_init os_arch_tick_init k =
     os_kernel_init_require
       (os_kernel_initialized k \<and> kernel_running (ks (k_sys k)) \<and> os_task_idle_is_created (ks (k_sys k)))
       (k\<lparr>k_sys := (k_sys k)\<lparr>win := os_arch_tick_init (os_arch_init (win (k_sys k)))\<rparr>\<rparr>)"

section \<open>What start-up establishes\<close>

text \<open>Memory as the loader leaves it: zeroed tables, empty lists, a consistent set of static timers and pools.\<close>

definition loaded :: "kernel_sys \<Rightarrow> bool" where
  "loaded k \<longleftrightarrow>
     (let s = ks (k_sys k); ts = tms (k_sys k) in
      (\<forall>w. wlist s w = []) \<and>
      (\<forall>i. table_size s \<le> i \<longrightarrow> tcb_of s (Slot i) = OS_TASK_TCB_EMPTY (core_count s)) \<and>
      (\<forall>c. core_count s \<le> c \<longrightarrow> tcb_of s (Idle c) = OS_TASK_TCB_EMPTY (core_count s)) \<and>
      (\<forall>c. core_count s \<le> c \<longrightarrow> current s c = None) \<and> (\<forall>p. 31 < p \<longrightarrow> ready_list s p = []) \<and>
      service_ok (ts\<lparr>os_timer_ready_list := [], os_timer_running_list := []\<rparr>) \<and> os_timer_task_tcb ts = None \<and>
      0 < OS_CONFIG_LOG_BUFFER_SIZE (k_log k))"

lemma require_SomeD: "os_kernel_init_require b x = Some y \<Longrightarrow> b \<and> y = x"
  by (simp add: os_kernel_init_require_def split: if_splits)

text \<open>Creating a task and starting it leaves the idle tasks alone.\<close>

definition idles_kept :: "kstate \<Rightarrow> kstate \<Rightarrow> bool" where
  "idles_kept s s' \<longleftrightarrow>
     core_count s' = core_count s \<and> kernel_running s' = kernel_running s \<and>
     (\<forall>c. task_state (tcb_of s' (Idle c)) = task_state (tcb_of s (Idle c)) \<and>
          stack_ptr (tcb_of s' (Idle c)) = stack_ptr (tcb_of s (Idle c)))"

lemma idles_kept_trans: "idles_kept s s' \<Longrightarrow> idles_kept s' s'' \<Longrightarrow> idles_kept s s''"
  by (simp add: idles_kept_def)

lemma idles_kept_created: "idles_kept s s' \<Longrightarrow> os_task_idle_is_created s' = os_task_idle_is_created s"
  by (simp add: idles_kept_def os_task_idle_is_created_def)

lemma idles_kept_env_others:
  assumes "same_env s s'" "others_kept (Slot i) s s'"
  shows "idles_kept s s'"
  using same_envD [OF assms(1)] strip_tcb_fields [OF others_keptD [OF assms(2)]] by (simp add: idles_kept_def)

lemma idles_kept_create: "idles_kept s (snd (snd (snd (os_task_create_any port (\<lambda>s. s) h c sys mem s))))"
  by (auto simp: idles_kept_def os_task_create_any_def create_claim_def Let_def split: option.split prod.split)

lemma make_ready_counts:
  "core_count (os_task_make_ready t s) = core_count s" "kernel_running (os_task_make_ready t s) = kernel_running s"
  by (simp_all add: os_task_make_ready_def Let_def)

lemma idles_kept_start:
  assumes k: "kwf {} s"
  shows "idles_kept s (snd (os_task_start task s))"
proof -
  have main: "idles_kept s (snd (os_task_start (Some h) s))"
    if f: "os_task_find_by_id (ident h) s = Some t" "ident h \<noteq> 0" for h t
  proof -
    obtain i where t: "t = Slot i" using find_by_id_SomeD(1) [OF f(1)] by (cases t) auto
    have u: "same_env s (os_task_unlink t s)" "others_kept (Slot i) s (os_task_unlink t s)"
      using os_task_unlink_kwf(2) [OF k find_by_id_SomeD(1) [OF f(1)]] by (simp_all add: unlinked_def t)
    show ?thesis using idles_kept_env_others [OF u] f t
      by (simp add: os_task_start_def Let_def idles_kept_def make_ready_tcb make_ready_counts)
  qed
  show ?thesis
  proof (cases task)
    case (Some h)
    then show ?thesis using main [of h]
      by (cases "ident h = 0"; cases "os_task_find_by_id (ident h) s") (auto simp: os_task_start_def idles_kept_def)
  qed (simp add: os_task_start_def idles_kept_def)
qed

lemma create_start_kwf:
  assumes "kwf {} s"
    and r: "snd (snd (snd (os_task_create_any port (\<lambda>s. s) h c sys mem s))) = s1"
      "(if st = OS_ERR_NONE then os_task_start task s1 else (st, s1)) = (st', s2)"
  shows "kwf {} s2" "idles_kept s s2"
proof -
  have k: "kwf {} s1" "idles_kept s s1"
    using os_task_create_any_kwf [OF assms(1), of "\<lambda>s. s"] idles_kept_create r(1) by auto
  have "s2 = s1 \<or> s2 = snd (os_task_start task s1)" using r(2) by (auto split: if_splits)
  then show "kwf {} s2" "idles_kept s s2"
    using k os_task_start_kwf [OF k(1)] idles_kept_trans [OF k(2) idles_kept_start [OF k(1)]] by auto
qed

lemma init_tasks_ok:
  assumes "loaded k" "init_tasks port k = Some k1"
  shows "kwf {} (ks (k_sys k1))" "tms (k_sys k1) = tms (k_sys k)" "k_log k1 = k_log k"
    "os_task_idle_is_created (ks (k_sys k1))"
proof -
  let ?s = "os_task_system_init (ks (k_sys k))"
  obtain e m s where r: "os_task_idle_create port (k_stacks k) ?s = (e, m, s)" by (metis prod_cases3)
  have k0: "kwf {} ?s" using assms(1) by (intro os_task_system_init_kwf) (simp_all add: loaded_def Let_def)
  have s: "kwf {} s" using idle_create_from_kwf [OF k0] r unfolding os_task_idle_create_def by (metis snd_conv)
  have "os_kernel_init_require (e = OS_ERR_NONE) (k\<lparr>k_sys := (k_sys k)\<lparr>ks := s\<rparr>, k_stacks := m\<rparr>) = Some k1"
    using assms(2) by (simp add: init_tasks_def r)
  note k1 = require_SomeD [OF this]
  show "kwf {} (ks (k_sys k1))" "tms (k_sys k1) = tms (k_sys k)" "k_log k1 = k_log k" using s k1 by simp_all
  have "task_state (tcb_of ?s (Idle c)) = OS_TASK_STATE_INACTIVE" for c
    using assms(1) by (subst os_task_system_init_result(1)) (simp_all add: loaded_def Let_def)
  then show "os_task_idle_is_created (ks (k_sys k1))"
    using os_task_idle_create_done [of port "k_stacks k" ?s] r k1 by auto
qed

lemma fold_clear_running: "kernel_running (fold (\<lambda>i. os_task_tcb_clear (f i)) is s) = kernel_running s"
  by (induction "is" arbitrary: s) (simp_all add: os_task_tcb_clear_def Let_def)

lemma system_init_running: "kernel_running (os_task_system_init s) = kernel_running s"
  by (simp add: os_task_system_init_def fold_clear_running Let_def)

lemma idle_create_from_running:
  "kernel_running (snd (snd (idle_create_from port cs mem s))) = kernel_running s"
proof (induction port cs mem s rule: idle_create_from.induct)
  case (2 port core cores mem s)
  then show ?case by (simp add: Let_def split: prod.split option.split)
qed simp

lemma init_tasks_running:
  assumes "init_tasks port k = Some k1"
  shows "kernel_running (ks (k_sys k1)) = kernel_running (ks (k_sys k))"
proof -
  let ?s = "os_task_system_init (ks (k_sys k))"
  obtain e m s where r: "os_task_idle_create port (k_stacks k) ?s = (e, m, s)" by (metis prod_cases3)
  have "os_kernel_init_require (e = OS_ERR_NONE) (k\<lparr>k_sys := (k_sys k)\<lparr>ks := s\<rparr>, k_stacks := m\<rparr>) = Some k1"
    using assms by (simp add: init_tasks_def r)
  note k1 = require_SomeD [OF this]
  have "kernel_running s = kernel_running ?s"
    using idle_create_from_running [of port "[0..<core_count ?s]" "k_stacks k" ?s] r by (simp add: os_task_idle_create_def)
  moreover have "kernel_running ?s = kernel_running (ks (k_sys k))" by (rule system_init_running)
  ultimately show ?thesis using k1 by simp
qed

lemma service_task_field: "service_ok (ts\<lparr>os_timer_task_tcb := x\<rparr>) = service_ok ts"
proof -
  have "remaining (ts\<lparr>os_timer_task_tcb := x\<rparr>) = remaining ts" by (simp add: fun_eq_iff remaining_def)
  then show ?thesis
  by (simp add: service_ok_def timers_ok_def run_ok_def armed.queue_ok_def timer_flags_ok_def
      pools_ok_def pool_ok_def entry_ok_def idle_entry_ok_def in_flight_def pool_entries_def OS_TIMER_POOL_VALID_def)
qed

lemma resolve_is_slot: "timer_task_ok (ts\<lparr>os_timer_task_tcb := os_task_tcb_resolve i s\<rparr>)"
  using find_by_id_SomeD(1) by (auto simp: timer_task_ok_def os_task_tcb_resolve_def split: option.split)

lemma timer_init_ok:
  assumes "kwf {} s" "service_ok (ts\<lparr>os_timer_ready_list := [], os_timer_running_list := []\<rparr>)" "os_timer_task_tcb ts = None"
    and r: "os_timer_system_init port c tk mem (ts, s) = (e, tk', mem', ts', s')"
  shows "kwf {} s'" "idles_kept s s'" "service_ok ts'" "timer_task_ok ts'"
proof -
  let ?ts1 = "ts\<lparr>os_timer_ready_list := [], os_timer_running_list := []\<rparr>"
  obtain st task m1 s1 where c: "os_task_create_system port (\<lambda>s. s) (Some tk) (Some c) mem s = (st, task, m1, s1)"
    by (metis prod_cases4)
  obtain st' s2 where d: "(if st = OS_ERR_NONE then os_task_start task s1 else (st, s1)) = (st', s2)" by fastforce
  have res: "s2 = s'" "ts' = (if st' = OS_ERR_NONE then ?ts1\<lparr>os_timer_task_tcb := os_task_tcb_resolve (ident (the task)) s2\<rparr> else ?ts1)"
    using r by (auto simp: os_timer_system_init_def c d Let_def)
  have "snd (snd (snd (os_task_create_any port (\<lambda>s. s) (Some tk) (Some c) True mem s))) = s1"
    using c by (simp add: os_task_create_system_def)
  note cs = create_start_kwf [OF assms(1) this d]
  show "kwf {} s'" "idles_kept s s'" using cs res(1) by simp_all
  show "service_ok ts'"
  proof (cases "st' = OS_ERR_NONE")
    case True
    show ?thesis unfolding res(2) if_P [OF True] service_task_field by (rule assms(2))
  next
    case False
    show ?thesis unfolding res(2) if_not_P [OF False] by (rule assms(2))
  qed
  show "timer_task_ok ts'" using assms(3) res(2) resolve_is_slot by (auto simp: timer_task_ok_def)
qed

lemma log_init_ok:
  assumes "kwf {} s" "0 < OS_CONFIG_LOG_BUFFER_SIZE lg"
    and r: "os_log_system_init port c tk mem (lg, s) = (e, tk', mem', lg', s')"
  shows "kwf {} s'" "idles_kept s s'" "log_ok lg'" "log_content lg' = []" "os_log_dropped_get lg' = 0"
proof -
  let ?lg1 = "lg\<lparr>os_log_head := 0, os_log_tail := 0, os_log_dropped := 0, os_log_dropped_pending := 0\<rparr>"
  obtain st task m1 s1 where c: "os_task_create_system port (\<lambda>s. s) (Some tk) (Some c) mem s = (st, task, m1, s1)"
    by (metis prod_cases4)
  obtain st' s2 where d: "(if st = OS_ERR_NONE then os_task_start task s1 else (st, s1)) = (st', s2)" by fastforce
  have res: "s2 = s'" "\<exists>x. lg' = ?lg1\<lparr>os_log_task_tcb := x\<rparr> \<or> lg' = ?lg1"
    using r by (auto simp: os_log_system_init_def c d Let_def)
  have "snd (snd (snd (os_task_create_any port (\<lambda>s. s) (Some tk) (Some c) True mem s))) = s1"
    using c by (simp add: os_task_create_system_def)
  note cs = create_start_kwf [OF assms(1) this d]
  show "kwf {} s'" "idles_kept s s'" using cs res(1) by simp_all
  show "log_ok lg'" "log_content lg' = []" "os_log_dropped_get lg' = 0"
    using res(2) assms(2)
    by (auto simp: os_log_dropped_get_def log_ok_def log_content_def log_used_def OS_CONFIG_LOG_BUFFER_SIZE_def ring_at_def)
qed

lemma init_timers_ok:
  assumes k: "kwf {} (ks (k_sys k))" and l: "service_ok ((tms (k_sys k))\<lparr>os_timer_ready_list := [], os_timer_running_list := []\<rparr>)"
      "os_timer_task_tcb (tms (k_sys k)) = None"
    and r: "init_timers port boot k = Some k1"
  shows "time_ok (k_sys k1)" "idles_kept (ks (k_sys k)) (ks (k_sys k1))" "k_log k1 = k_log k"
proof -
  obtain e tk m ts s where c: "os_timer_system_init port (timer_config boot) (tsk_timer boot) (k_stacks k)
      (tms (k_sys k), ks (k_sys k)) = (e, tk, m, ts, s)" by (metis prod_cases5)
  have "os_kernel_init_require (e = OS_ERR_NONE)
      (k\<lparr>k_sys := (k_sys k)\<lparr>ks := s, tms := ts\<rparr>, k_stacks := m\<rparr>) = Some k1"
    using r by (simp add: init_timers_def c)
  note k1 = require_SomeD [OF this]
  show "time_ok (k_sys k1)" "idles_kept (ks (k_sys k)) (ks (k_sys k1))" "k_log k1 = k_log k"
    using timer_init_ok [OF k l c] k1 by (simp_all add: time_ok_def)
qed

lemma init_log_ok:
  assumes k: "time_ok (k_sys k)" and l: "0 < OS_CONFIG_LOG_BUFFER_SIZE (k_log k)" and r: "init_log port boot k = Some k1"
  shows "time_ok (k_sys k1)" "idles_kept (ks (k_sys k)) (ks (k_sys k1))"
    "log_ok (k_log k1)" "log_content (k_log k1) = []" "os_log_dropped_get (k_log k1) = 0"
proof -
  obtain e tk m lg s where c: "os_log_system_init port (log_config boot) (tsk_log boot) (k_stacks k)
      (k_log k, ks (k_sys k)) = (e, tk, m, lg, s)" by (metis prod_cases5)
  have "os_kernel_init_require (e = OS_ERR_NONE)
      (k\<lparr>k_sys := (k_sys k)\<lparr>ks := s\<rparr>, k_log := lg, k_stacks := m\<rparr>) = Some k1"
    using r by (simp add: init_log_def c)
  note k1 = require_SomeD [OF this]
  have kk: "kwf {} (ks (k_sys k))" using k by (simp add: time_ok_def)
  show "time_ok (k_sys k1)" "idles_kept (ks (k_sys k)) (ks (k_sys k1))"
    "log_ok (k_log k1)" "log_content (k_log k1) = []" "os_log_dropped_get (k_log k1) = 0"
    using log_init_ok [OF kk l c] k1 k by (simp_all add: time_ok_def)
qed

lemma init_main_ok:
  assumes k: "time_ok (k_sys k)" and r: "init_main port boot k = Some k1"
  shows "time_ok (k_sys k1)" "idles_kept (ks (k_sys k)) (ks (k_sys k1))" "k_log k1 = k_log k"
proof -
  obtain st task m1 s1 where c: "os_task_create port (\<lambda>s. s) (Some (tsk_main boot)) (Some (main_config boot))
      (k_stacks k) (ks (k_sys k)) = (st, task, m1, s1)" by (metis prod_cases4)
  obtain st' s2 where d: "(if st = OS_ERR_NONE then os_task_start task s1 else (st, s1)) = (st', s2)" by fastforce
  have "os_kernel_init_require (st' = OS_ERR_NONE) (k\<lparr>k_sys := (k_sys k)\<lparr>ks := s2\<rparr>, k_stacks := m1\<rparr>) = Some k1"
    using r by (simp add: init_main_def os_main_system_init_def c d)
  note k1 = require_SomeD [OF this]
  have kk: "kwf {} (ks (k_sys k))" using k by (simp add: time_ok_def)
  have "s1 = ks (k_sys k) \<or> s1 = snd (snd (snd (os_task_create_any port (\<lambda>s. s) (Some (tsk_main boot)) (Some (main_config boot)) False
      (k_stacks k) (ks (k_sys k)))))" using c by (auto simp: os_task_create_def split: if_splits option.splits)
  then have kb: "kwf {} s1" "idles_kept (ks (k_sys k)) s1"
    using os_task_create_any_kwf [OF kk, of "\<lambda>s. s"] idles_kept_create kk by (auto simp: idles_kept_def)
  have "s2 = s1 \<or> s2 = snd (os_task_start task s1)" using d by (auto split: if_splits)
  then have "kwf {} s2" "idles_kept (ks (k_sys k)) s2"
    using kb os_task_start_kwf [OF kb(1)] idles_kept_trans [OF kb(2) idles_kept_start [OF kb(1)]] by auto
  then show "time_ok (k_sys k1)" "idles_kept (ks (k_sys k)) (ks (k_sys k1))" "k_log k1 = k_log k"
    using k1 k by (simp_all add: time_ok_def)
qed

lemma os_init_steps:
  assumes "os_init port arch_init arch_tick boot k = Some k'"
  obtains k1 k2 k3 k4 where "\<not> os_kernel_initialized k" "\<not> kernel_running (ks (k_sys k))"
    "init_tasks port (k\<lparr>k_sys := (k_sys k)\<lparr>win := arch_init (win (k_sys k))\<rparr>\<rparr>) = Some k1"
    "init_timers port boot k1 = Some k2" "init_log port boot k2 = Some k3" "init_main port boot k3 = Some k4"
    "k' = k4\<lparr>k_sys := os_tick_init arch_tick (k_sys k4), os_kernel_initialized := True\<rparr>"
  using assms by (auto simp: os_init_def os_kernel_init_require_def bind_eq_Some_conv split: if_splits)

text \<open>The tick counter and the window are outside what the invariant reads.\<close>

lemma tick_init_kept:
  "time_ok (os_tick_init f y) = time_ok y" "idles_kept (ks y) (ks (os_tick_init f y))"
  using same_view_kwf [OF same_view_clock(1)]
  by (simp_all add: os_tick_init_def set_tick_count_def time_ok_def idles_kept_def)

text \<open>The kernel after a start-up that came back.\<close>

lemma os_init_establishes:
  assumes l: "loaded k" and r: "os_init port arch_init arch_tick boot k = Some k'"
  shows "time_ok (k_sys k')" "log_ok (k_log k')" "log_content (k_log k') = []" "os_log_dropped_get (k_log k') = 0"
    "os_kernel_initialized k'" "\<not> kernel_running (ks (k_sys k'))" "os_task_idle_is_created (ks (k_sys k'))"
proof -
  obtain k1 k2 k3 k4 where st: "\<not> kernel_running (ks (k_sys k))"
    "init_tasks port (k\<lparr>k_sys := (k_sys k)\<lparr>win := arch_init (win (k_sys k))\<rparr>\<rparr>) = Some k1"
    "init_timers port boot k1 = Some k2" "init_log port boot k2 = Some k3" "init_main port boot k3 = Some k4"
    and k': "k' = k4\<lparr>k_sys := os_tick_init arch_tick (k_sys k4), os_kernel_initialized := True\<rparr>"
    using os_init_steps [OF r] by metis
  have l0: "loaded (k\<lparr>k_sys := (k_sys k)\<lparr>win := arch_init (win (k_sys k))\<rparr>\<rparr>)"
    using l by (simp add: loaded_def)
  note t = init_tasks_ok [OF l0 st(2)]
  have lk: "service_ok ((tms (k_sys k1))\<lparr>os_timer_ready_list := [], os_timer_running_list := []\<rparr>)"
    "os_timer_task_tcb (tms (k_sys k1)) = None" "0 < OS_CONFIG_LOG_BUFFER_SIZE (k_log k1)"
    using l t(2,3) by (simp_all add: loaded_def Let_def)
  note m = init_timers_ok [OF t(1) lk(1,2) st(3)]
  note g = init_log_ok [OF m(1) _ st(4)]
  have g': "time_ok (k_sys k3)" "idles_kept (ks (k_sys k2)) (ks (k_sys k3))" "log_ok (k_log k3)"
    "log_content (k_log k3) = []" "os_log_dropped_get (k_log k3) = 0" using g m(3) lk(3) by simp_all
  note n = init_main_ok [OF g'(1) st(5)]
  have kept: "idles_kept (ks (k_sys k1)) (ks (k_sys k'))"
    using idles_kept_trans [OF m(2) idles_kept_trans [OF g'(2) idles_kept_trans [OF n(2) tick_init_kept(2)]]]
    by (simp add: k')
  show "time_ok (k_sys k')" using n(1) by (simp add: k' tick_init_kept(1))
  show "log_ok (k_log k')" "log_content (k_log k') = []" "os_log_dropped_get (k_log k') = 0"
    using g'(3,4,5) n(3) by (simp_all add: k')
  show "os_kernel_initialized k'" by (simp add: k')
  show "os_task_idle_is_created (ks (k_sys k'))" using idles_kept_created [OF kept] t(4) by simp
  show "\<not> kernel_running (ks (k_sys k'))"
    using kept init_tasks_running [OF st(2)] st(1) by (simp add: idles_kept_def)
qed

lemma time_ok_running: "time_ok (y\<lparr>ks := (ks y)\<lparr>kernel_running := b\<rparr>\<rparr>) = time_ok y"
proof -
  have "same_view (ks y) ((ks y)\<lparr>kernel_running := b\<rparr>)" by (simp add: same_view_def)
  then show ?thesis using same_view_kwf by (simp add: time_ok_def)
qed

end
