(* ===== verification/KernelProps.thy ===== *)
theory KernelProps
  imports Kernel TimerProps
begin

text \<open>
  The properties of the log and of start-up.
\<close>

section \<open>The log\<close>

text \<open>A ring of four bytes, which holds three.\<close>

definition small_log :: os_log where
  "small_log = \<lparr>os_log_buffer = [0, 0, 0, 0], os_log_head = 2, os_log_tail = 2, os_log_dropped = 0,
     os_log_dropped_pending = 0, os_log_task_tcb = None\<rparr>"



section \<open>Start-up\<close>

text \<open>A port with a first frame of four bytes, and three static tasks of eight bytes.\<close>

definition demo_port :: task_port where
  "demo_port = \<lparr>stack_initialize = (\<lambda>base n _ _ m. (Some (base + n - 4), m)), min_stack = 8, stack_align = 4,
     idle_stack = (\<lambda>c. 8), idle_entry = 3\<rparr>"

definition demo_task :: "nat \<Rightarrow> os_task_t" where
  "demo_task base = \<lparr>ident = 0, storage = Some \<lparr>st_name = None, st_stack = Some base, st_bytes = 8\<rparr>\<rparr>"

definition task_config :: "nat \<Rightarrow> nat \<Rightarrow> os_task_config_t" where
  "task_config entry prio = \<lparr>entry_point = Some entry, entry_context = 0, config_priority = prio, config_affinity = 0\<rparr>"

definition demo_boot :: boot_tasks where
  "demo_boot = \<lparr>tsk_timer = demo_task 16, timer_config = task_config 7 30, tsk_log = demo_task 24,
     log_config = task_config 11 1, tsk_main = demo_task 32, main_config = task_config 13 16\<rparr>"

definition demo_loaded :: kernel_sys where
  "demo_loaded = \<lparr>k_sys = \<lparr>ks = blank\<lparr>kernel_running := False\<rparr>, tms = svc0, win = overrun_window, usage_total_ticks = 0,
       usage_idle_ticks = 0, last_plan_tick = 0, last_plan_generation = 0\<rparr>,
     k_log = small_log, k_stacks = (\<lambda>_. 0), os_kernel_initialized = False\<rparr>"

text \<open>
  C32. Start-up leaves a sound kernel. When \<^verbatim>\<open>os_init\<close> comes back from memory as the loader leaves it, the
  invariants of the scheduler and of the timer service hold, the log is empty with nothing counted as
  dropped, no second \<^verbatim>\<open>os_init\<close> comes back, and \<^verbatim>\<open>os_start\<close> finds everything it requires.
\<close>

theorem boot_establishes_invariants:
  assumes "loaded k" "os_init port arch_init arch_tick boot k = Some k'"
  shows "time_ok (k_sys k') \<and> log_ok (k_log k') \<and> log_content (k_log k') = [] \<and> os_log_dropped_get (k_log k') = 0 \<and>
    os_init port2 arch_init2 arch_tick2 boot2 k' = None \<and>
    (\<exists>k''. os_start k' = Some k'' \<and> kernel_running (ks (k_sys k'')) \<and> time_ok (k_sys k''))"
  using os_init_establishes [OF assms]
  by (simp add: os_init_def os_start_def os_kernel_init_require_def time_ok_running)

lemma demo_loaded_ok: "loaded demo_loaded"
  using svc0_ok
  by (simp add: loaded_def demo_loaded_def blank_def svc0_def small_log_def OS_CONFIG_LOG_BUFFER_SIZE_def)

theorem boot_establishes_invariants_witness:
  "\<exists>k'. os_init demo_port (\<lambda>w. w) (\<lambda>w. w) demo_boot demo_loaded = Some k' \<and> time_ok (k_sys k')"
proof -
  have "\<not> Option.is_none (os_init demo_port (\<lambda>w. w) (\<lambda>w. w) demo_boot demo_loaded)" by code_simp
  then obtain k' where "os_init demo_port (\<lambda>w. w) (\<lambda>w. w) demo_boot demo_loaded = Some k'"
    by (auto simp: Option.is_none_def)
  with boot_establishes_invariants [OF demo_loaded_ok this] show ?thesis by blast
qed

end
