(* ===== verification/Atomic.thy ===== *)
theory Atomic
  imports Prelude
begin

text \<open>
  Atomic operations on a word: the three implementations a build may have, retry loops over exclusive
  accesses (\<^verbatim>\<open>arch/arm/common/os_arch_atomic.c\<close>), single AMO instructions with two reservation loops
  (\<^verbatim>\<open>arch/riscv/common/os_arch_atomic.c\<close>) and plain accesses in a critical section (both files), as programs
  of a small machine; and the kernel's calls over them (\<^verbatim>\<open>kernel/os_atomic.c\<close>). Contexts, which are the
  cores and on each core its tasks and interrupts, interleave instruction by instruction. What is asked of an
  implementation is the locale \<open>atomic_port\<close>; that every run of a build whose routines meet it is a sequence
  of indivisible operations is proved inside it, once for the three.
\<close>

section \<open>What a routine does to the word\<close>

datatype atomic_call =
    Exchange u32 | FetchAdd u32 | FetchSub u32 | FetchOr u32 | FetchAnd u32 | FetchXor u32 | FetchNand u32
  | Cas u32 u32

text \<open>The new value, or \<open>None\<close> when the call leaves the word alone; and the answer.\<close>

fun effect :: "atomic_call \<Rightarrow> u32 \<Rightarrow> u32 option" where
  "effect (Exchange v) w = Some v"
| "effect (FetchAdd v) w = Some (w + v)"
| "effect (FetchSub v) w = Some (w - v)"
| "effect (FetchOr v) w = Some (w OR v)"
| "effect (FetchAnd v) w = Some (w AND v)"
| "effect (FetchXor v) w = Some (w XOR v)"
| "effect (FetchNand v) w = Some (NOT (w AND v))"
| "effect (Cas e d) w = (if w = e then Some d else None)"

fun answer :: "atomic_call \<Rightarrow> u32 \<Rightarrow> u32" where
  "answer (Cas e d) w = (if w = e then 1 else 0)"
| "answer _ w = w"

section \<open>The machine\<close>

text \<open>
  Registers are named by the C variables they hold. \<open>LDREX\<close> and \<open>STREX\<close> stand for RISC-V's \<open>lr.w\<close> and
  \<open>sc.w\<close> too; \<open>ENTER\<close> and \<open>EXIT\<close> are the critical section, \<open>LOADW\<close> and \<open>STOREW\<close> plain accesses to the word.
\<close>

datatype reg = Current | Updated | Failed | Value | Expected | Desired

datatype alu_op = ADD | SUB | ORR | ANDR | EOR

datatype instr =
    LDREX reg | STREX reg reg | CLREX
  | ALU alu_op reg reg reg | MVN reg reg | NEG reg reg | SET reg u32
  | CMP reg reg | CMP0 reg | BNE nat | B nat | BNEZ reg nat | BNER reg reg nat
  | AMOSWAP reg reg | AMO alu_op reg reg
  | ENTER | LOADW reg | STOREW reg | EXIT

record thread =
  call :: atomic_call
  pc :: nat
  rf :: "reg \<Rightarrow> u32"
  zf :: bool

record shared =
  word :: u32
  reserved :: "nat \<Rightarrow> bool"
  holder :: "nat option"

text \<open>What an observer sees of the word: calls, reads, writes and answers, each with its context.\<close>

datatype event = Begin atomic_call | Read u32 | Write u32 u32 | Return u32

fun alu :: "alu_op \<Rightarrow> u32 \<Rightarrow> u32 \<Rightarrow> u32" where
  "alu ADD a b = a + b"
| "alu SUB a b = a - b"
| "alu ORR a b = a OR b"
| "alu ANDR a b = a AND b"
| "alu EOR a b = a XOR b"

definition put :: "reg \<Rightarrow> u32 \<Rightarrow> thread \<Rightarrow> thread" where
  "put r v th = th\<lparr>pc := pc th + 1, rf := (rf th)(r := v)\<rparr>"

definition jump :: "bool \<Rightarrow> nat \<Rightarrow> thread \<Rightarrow> thread" where
  "jump b l th = th\<lparr>pc := (if b then l else pc th + 1)\<rparr>"

definition store :: "u32 \<Rightarrow> shared \<Rightarrow> shared" where
  "store v sh = sh\<lparr>word := v, reserved := (\<lambda>_. False)\<rparr>"

text \<open>One instruction of context \<open>c\<close>; \<open>None\<close> is an instruction that cannot proceed.\<close>

fun exec :: "nat \<Rightarrow> instr \<Rightarrow> thread \<Rightarrow> shared \<Rightarrow> (thread \<times> shared \<times> event list) option" where
  "exec c (LDREX r) th sh =
     Some (put r (word sh) th, sh\<lparr>reserved := (reserved sh)(c := True)\<rparr>, [Read (word sh)])"
| "exec c (STREX f r) th sh =
     (if reserved sh c then Some (put f 0 th, store (rf th r) sh, [Write (word sh) (rf th r)])
      else Some (put f 1 th, sh, []))"
| "exec c CLREX th sh = Some (jump False 0 th, sh\<lparr>reserved := (reserved sh)(c := False)\<rparr>, [])"
| "exec c (ALU a d n m) th sh = Some (put d (alu a (rf th n) (rf th m)) th, sh, [])"
| "exec c (MVN d n) th sh = Some (put d (NOT (rf th n)) th, sh, [])"
| "exec c (NEG d n) th sh = Some (put d (0 - rf th n) th, sh, [])"
| "exec c (SET d v) th sh = Some (put d v th, sh, [])"
| "exec c (CMP n m) th sh = Some (jump False 0 (th\<lparr>zf := (rf th n = rf th m)\<rparr>), sh, [])"
| "exec c (CMP0 n) th sh = Some (jump False 0 (th\<lparr>zf := (rf th n = 0)\<rparr>), sh, [])"
| "exec c (BNE l) th sh = Some (jump (\<not> zf th) l th, sh, [])"
| "exec c (B l) th sh = Some (jump True l th, sh, [])"
| "exec c (BNEZ n l) th sh = Some (jump (rf th n \<noteq> 0) l th, sh, [])"
| "exec c (BNER n m l) th sh = Some (jump (rf th n \<noteq> rf th m) l th, sh, [])"
| "exec c (AMOSWAP d s) th sh =
     Some (put d (word sh) th, store (rf th s) sh, [Write (word sh) (rf th s)])"
| "exec c (AMO a d s) th sh =
     Some (put d (word sh) th, store (alu a (word sh) (rf th s)) sh, [Write (word sh) (alu a (word sh) (rf th s))])"
| "exec c ENTER th sh = (if holder sh = None then Some (jump False 0 th, sh\<lparr>holder := Some c\<rparr>, []) else None)"
| "exec c (LOADW r) th sh = Some (put r (word sh) th, sh, [Read (word sh)])"
| "exec c (STOREW r) th sh = Some (jump False 0 th, store (rf th r) sh, [Write (word sh) (rf th r)])"
| "exec c EXIT th sh = Some (jump False 0 th, sh\<lparr>holder := None\<rparr>, [])"

text \<open>The registers a routine starts with: its arguments, and anything in the others.\<close>

fun args_ok :: "atomic_call \<Rightarrow> (reg \<Rightarrow> u32) \<Rightarrow> bool" where
  "args_ok (Cas e d) r \<longleftrightarrow> r Expected = e \<and> r Desired = d"
| "args_ok (Exchange v) r \<longleftrightarrow> r Value = v"
| "args_ok (FetchAdd v) r \<longleftrightarrow> r Value = v"
| "args_ok (FetchSub v) r \<longleftrightarrow> r Value = v"
| "args_ok (FetchOr v) r \<longleftrightarrow> r Value = v"
| "args_ok (FetchAnd v) r \<longleftrightarrow> r Value = v"
| "args_ok (FetchXor v) r \<longleftrightarrow> r Value = v"
| "args_ok (FetchNand v) r \<longleftrightarrow> r Value = v"

text \<open>What a routine hands back at its end.\<close>

fun result :: "atomic_call \<Rightarrow> (reg \<Rightarrow> u32) \<Rightarrow> u32" where
  "result (Cas e d) r = (if r Failed = 0 then 1 else 0)"
| "result _ r = r Current"

section \<open>Any number of contexts on one word\<close>

record machine =
  mem :: shared
  threads :: "nat \<Rightarrow> thread option"

text \<open>A build gives each call its routine. \<open>lose\<close> is an exception or another core taking a reservation away.\<close>

inductive atomic_step :: "(atomic_call \<Rightarrow> instr list) \<Rightarrow> machine \<Rightarrow> (nat \<times> event) list \<Rightarrow> machine \<Rightarrow> bool" for routine where
  begin_call: "threads s c = None \<Longrightarrow> args_ok a r \<Longrightarrow>
    atomic_step routine s [(c, Begin a)]
      (s\<lparr>threads := (threads s)(c := Some \<lparr>call = a, pc = 0, rf = r, zf = z\<rparr>)\<rparr>)"
| run: "threads s c = Some th \<Longrightarrow> pc th < length (routine (call th)) \<Longrightarrow>
    exec c (routine (call th) ! pc th) th (mem s) = Some (th', sh', evs) \<Longrightarrow>
    atomic_step routine s (map (Pair c) evs) (s\<lparr>mem := sh', threads := (threads s)(c := Some th')\<rparr>)"
| return: "threads s c = Some th \<Longrightarrow> length (routine (call th)) \<le> pc th \<Longrightarrow>
    atomic_step routine s [(c, Return (result (call th) (rf th)))] (s\<lparr>threads := (threads s)(c := None)\<rparr>)"
| lose: "atomic_step routine s [] (s\<lparr>mem := (mem s)\<lparr>reserved := (reserved (mem s))(c := False)\<rparr>\<rparr>)"

inductive atomic_run :: "(atomic_call \<Rightarrow> instr list) \<Rightarrow> machine \<Rightarrow> (nat \<times> event) list \<Rightarrow> machine \<Rightarrow> bool" for routine s0 where
  start: "atomic_run routine s0 [] s0"
| step: "atomic_run routine s0 tr s \<Longrightarrow> atomic_step routine s evs s' \<Longrightarrow> atomic_run routine s0 (tr @ evs) s'"

section \<open>The routines, instruction by instruction\<close>

text \<open>ARM with exclusive accesses. Labels are instruction indexes.\<close>

definition arm_atomic_exchange :: "instr list" where
  "arm_atomic_exchange = [LDREX Current, STREX Failed Value, CMP0 Failed, BNE 0]"

definition arm_atomic_add :: "instr list" where
  "arm_atomic_add = [LDREX Current, ALU ADD Updated Current Value, STREX Failed Updated, CMP0 Failed, BNE 0]"

definition arm_atomic_sub :: "instr list" where
  "arm_atomic_sub = [LDREX Current, ALU SUB Updated Current Value, STREX Failed Updated, CMP0 Failed, BNE 0]"

definition arm_atomic_or :: "instr list" where
  "arm_atomic_or = [LDREX Current, ALU ORR Updated Current Value, STREX Failed Updated, CMP0 Failed, BNE 0]"

definition arm_atomic_and :: "instr list" where
  "arm_atomic_and = [LDREX Current, ALU ANDR Updated Current Value, STREX Failed Updated, CMP0 Failed, BNE 0]"

definition arm_atomic_xor :: "instr list" where
  "arm_atomic_xor = [LDREX Current, ALU EOR Updated Current Value, STREX Failed Updated, CMP0 Failed, BNE 0]"

definition arm_atomic_nand :: "instr list" where
  "arm_atomic_nand =
     [LDREX Current, ALU ANDR Updated Current Value, MVN Updated Updated, STREX Failed Updated, CMP0 Failed, BNE 0]"

definition arm_atomic_cas :: "instr list" where
  "arm_atomic_cas =
     [LDREX Current, CMP Current Expected, BNE 7, STREX Failed Desired, CMP0 Failed, BNE 0, B 9, CLREX, SET Failed 1]"

fun arm_routine :: "atomic_call \<Rightarrow> instr list" where
  "arm_routine (Exchange _) = arm_atomic_exchange"
| "arm_routine (FetchAdd _) = arm_atomic_add"
| "arm_routine (FetchSub _) = arm_atomic_sub"
| "arm_routine (FetchOr _) = arm_atomic_or"
| "arm_routine (FetchAnd _) = arm_atomic_and"
| "arm_routine (FetchXor _) = arm_atomic_xor"
| "arm_routine (FetchNand _) = arm_atomic_nand"
| "arm_routine (Cas _ _) = arm_atomic_cas"

text \<open>RISC-V with the A extension.\<close>

definition rv_atomic_exchange :: "instr list" where
  "rv_atomic_exchange = [AMOSWAP Current Value]"

definition rv_atomic_add :: "instr list" where
  "rv_atomic_add = [AMO ADD Current Value]"

definition rv_atomic_sub :: "instr list" where
  "rv_atomic_sub = [NEG Updated Value, AMO ADD Current Updated]"

definition rv_atomic_or :: "instr list" where
  "rv_atomic_or = [AMO ORR Current Value]"

definition rv_atomic_and :: "instr list" where
  "rv_atomic_and = [AMO ANDR Current Value]"

definition rv_atomic_xor :: "instr list" where
  "rv_atomic_xor = [AMO EOR Current Value]"

definition rv_atomic_nand :: "instr list" where
  "rv_atomic_nand =
     [LDREX Current, ALU ANDR Updated Current Value, MVN Updated Updated, STREX Failed Updated, BNEZ Failed 0]"

definition rv_atomic_cas :: "instr list" where
  "rv_atomic_cas =
     [LDREX Current, BNER Current Expected 5, STREX Failed Desired, BNEZ Failed 0, B 6, SET Failed 1]"

fun rv_routine :: "atomic_call \<Rightarrow> instr list" where
  "rv_routine (Exchange _) = rv_atomic_exchange"
| "rv_routine (FetchAdd _) = rv_atomic_add"
| "rv_routine (FetchSub _) = rv_atomic_sub"
| "rv_routine (FetchOr _) = rv_atomic_or"
| "rv_routine (FetchAnd _) = rv_atomic_and"
| "rv_routine (FetchXor _) = rv_atomic_xor"
| "rv_routine (FetchNand _) = rv_atomic_nand"
| "rv_routine (Cas _ _) = rv_atomic_cas"

text \<open>
  The fallback of both families, in C: plain accesses inside a critical section. \<open>Failed\<close> is the negation
  of \<^verbatim>\<open>swapped\<close>.
\<close>

definition masked_atomic_exchange :: "instr list" where
  "masked_atomic_exchange = [ENTER, LOADW Current, STOREW Value, EXIT]"

definition masked_atomic_add :: "instr list" where
  "masked_atomic_add = [ENTER, LOADW Current, ALU ADD Updated Current Value, STOREW Updated, EXIT]"

definition masked_atomic_sub :: "instr list" where
  "masked_atomic_sub = [ENTER, LOADW Current, ALU SUB Updated Current Value, STOREW Updated, EXIT]"

definition masked_atomic_or :: "instr list" where
  "masked_atomic_or = [ENTER, LOADW Current, ALU ORR Updated Current Value, STOREW Updated, EXIT]"

definition masked_atomic_and :: "instr list" where
  "masked_atomic_and = [ENTER, LOADW Current, ALU ANDR Updated Current Value, STOREW Updated, EXIT]"

definition masked_atomic_xor :: "instr list" where
  "masked_atomic_xor = [ENTER, LOADW Current, ALU EOR Updated Current Value, STOREW Updated, EXIT]"

definition masked_atomic_nand :: "instr list" where
  "masked_atomic_nand =
     [ENTER, LOADW Current, ALU ANDR Updated Current Value, MVN Updated Updated, STOREW Updated, EXIT]"

definition masked_atomic_cas :: "instr list" where
  "masked_atomic_cas =
     [SET Failed 1, ENTER, LOADW Current, BNER Current Expected 6, STOREW Desired, SET Failed 0, EXIT]"

fun masked_routine :: "atomic_call \<Rightarrow> instr list" where
  "masked_routine (Exchange _) = masked_atomic_exchange"
| "masked_routine (FetchAdd _) = masked_atomic_add"
| "masked_routine (FetchSub _) = masked_atomic_sub"
| "masked_routine (FetchOr _) = masked_atomic_or"
| "masked_routine (FetchAnd _) = masked_atomic_and"
| "masked_routine (FetchXor _) = masked_atomic_xor"
| "masked_routine (FetchNand _) = masked_atomic_nand"
| "masked_routine (Cas _ _) = masked_atomic_cas"

section \<open>What it means that the calls are indivisible\<close>

text \<open>
  One context's events: a call takes effect at one event between its begin and its answer. If the call
  writes, that is its only write, its new value is the effect on the old one and the answer is that of the
  old one; if it does not, it is its last read, whose value it would not have changed.
\<close>

datatype progress = Out | In atomic_call "u32 option" | Done atomic_call u32

fun track :: "progress \<Rightarrow> event \<Rightarrow> progress option" where
  "track Out (Begin a) = Some (In a None)"
| "track (In a _) (Read w) = Some (In a (Some w))"
| "track (In a _) (Write old new) = (if effect a old = Some new then Some (Done a old) else None)"
| "track (In a (Some w)) (Return v) = (if effect a w = None \<and> v = answer a w then Some Out else None)"
| "track (Done a old) (Return v) = (if v = answer a old then Some Out else None)"
| "track _ _ = None"

fun track_all :: "progress \<Rightarrow> event list \<Rightarrow> progress option" where
  "track_all p [] = Some p"
| "track_all p (e # es) = (case track p e of None \<Rightarrow> None | Some q \<Rightarrow> track_all q es)"

definition events_of :: "nat \<Rightarrow> (nat \<times> event) list \<Rightarrow> event list" where
  "events_of c tr = map snd (filter (\<lambda>x. fst x = c) tr)"

text \<open>The word as the events tell it: each read and each write finds what the last write left.\<close>

fun replay :: "u32 \<Rightarrow> (nat \<times> event) list \<Rightarrow> u32 option" where
  "replay w [] = Some w"
| "replay w ((_, Read v) # es) = (if v = w then replay w es else None)"
| "replay w ((_, Write old new) # es) = (if old = w then replay new es else None)"
| "replay w (_ # es) = replay w es"

lemma track_all_append:
  "track_all p (xs @ ys) = (case track_all p xs of None \<Rightarrow> None | Some q \<Rightarrow> track_all q ys)"
  by (induction xs arbitrary: p) (auto split: option.split)

lemma replay_append: "replay w (xs @ ys) = (case replay w xs of None \<Rightarrow> None | Some v \<Rightarrow> replay v ys)"
  by (induction w xs rule: replay.induct) auto

lemma events_of_append [simp]: "events_of c (xs @ ys) = events_of c xs @ events_of c ys"
  by (simp add: events_of_def)

lemma events_of_own [simp]: "events_of c (map (Pair c) es) = es" "d \<noteq> c \<Longrightarrow> events_of d (map (Pair c) es) = []"
  by (induction es) (simp_all add: events_of_def)

lemma events_of_one [simp]: "events_of c [(c, e)] = [e]" "d \<noteq> c \<Longrightarrow> events_of d [(c, e)] = []" "events_of c [] = []"
  by (simp_all add: events_of_def)

section \<open>The contract of an implementation, and what it gives\<close>

text \<open>
  \<open>I a i r z w m h p\<close>: a context in call \<open>a\<close> at instruction \<open>i\<close>, with its registers and flag, the word \<open>w\<close>, its
  reservation \<open>m\<close>, \<open>h\<close> whether it holds the critical section, has made the progress \<open>p\<close>. An implementation
  makes each instruction keep it, and other contexts' writes leave it true.
\<close>

definition writes :: "instr \<Rightarrow> bool \<Rightarrow> bool" where
  "writes i m \<longleftrightarrow> (case i of STREX _ _ \<Rightarrow> m | AMOSWAP _ _ \<Rightarrow> True | AMO _ _ _ \<Rightarrow> True | STOREW _ \<Rightarrow> True | _ \<Rightarrow> False)"

lemma exec_call: "exec c i th sh = Some (th', sh', evs) \<Longrightarrow> call th' = call th"
  by (cases i) (auto simp: put_def jump_def split: if_splits)

text \<open>What any instruction does to the rest of the machine.\<close>

lemma exec_shared:
  assumes "exec c i th sh = Some (th', sh', evs)"
  shows "replay (word sh) (map (Pair c) evs) = Some (word sh')"
    "\<not> writes i (reserved sh c) \<Longrightarrow> word sh' = word sh \<and> (\<forall>d. d \<noteq> c \<longrightarrow> reserved sh' d = reserved sh d)"
    "writes i (reserved sh c) \<Longrightarrow> reserved sh' = (\<lambda>_. False)"
    "i \<noteq> EXIT \<or> holder sh = Some c \<Longrightarrow> d \<noteq> c \<Longrightarrow> (holder sh' = Some d) = (holder sh = Some d)"
  using assms by (cases i; auto simp: writes_def store_def split: if_splits)+

locale atomic_port =
  fixes masked :: bool
    and routine :: "atomic_call \<Rightarrow> instr list"
    and I :: "atomic_call \<Rightarrow> nat \<Rightarrow> (reg \<Rightarrow> u32) \<Rightarrow> bool \<Rightarrow> u32 \<Rightarrow> bool \<Rightarrow> bool \<Rightarrow> progress \<Rightarrow> bool"
  assumes begins: "args_ok a r \<Longrightarrow> I a 0 r z w m False (In a None)"
    and steps: "\<lbrakk> I (call th) (pc th) (rf th) (zf th) (word sh) (reserved sh c) (holder sh = Some c) p;
        pc th < length (routine (call th)); exec c (routine (call th) ! pc th) th sh = Some (th', sh', evs) \<rbrakk> \<Longrightarrow>
      \<exists>q. track_all p evs = Some q \<and>
        I (call th) (pc th') (rf th') (zf th') (word sh') (reserved sh' c) (holder sh' = Some c) q"
    and guards: "\<lbrakk> I a i r z w m h p; i < length (routine a) \<rbrakk> \<Longrightarrow>
      (routine a ! i = EXIT \<longrightarrow> h) \<and> (masked \<and> writes (routine a ! i) m \<longrightarrow> h)"
    and stable: "I a i r z w m h p \<Longrightarrow> w' = w \<or> \<not> (masked \<and> h) \<Longrightarrow> I a i r z w' False h p"
    and ends: "I a i r z w m h p \<Longrightarrow> length (routine a) \<le> i \<Longrightarrow> \<not> h \<and> track p (Return (result a r)) = Some Out"
begin

definition holds :: "nat \<Rightarrow> thread option \<Rightarrow> shared \<Rightarrow> progress \<Rightarrow> bool" where
  "holds c t sh p \<longleftrightarrow>
     (case t of None \<Rightarrow> p = Out \<and> holder sh \<noteq> Some c
      | Some th \<Rightarrow> I (call th) (pc th) (rf th) (zf th) (word sh) (reserved sh c) (holder sh = Some c) p)"

lemma others_hold:
  assumes "holds d t sh p" "d \<noteq> c" and e: "exec c i th sh = Some (th', sh', evs)"
    and g: "i = EXIT \<Longrightarrow> holder sh = Some c" "masked \<Longrightarrow> writes i (reserved sh c) \<Longrightarrow> holder sh = Some c"
  shows "holds d t sh' p"
proof (cases t)
  case None
  then show ?thesis using assms(1,2) exec_shared(4) [OF e, of d] g(1) by (auto simp: holds_def)
next
  case (Some x)
  have h: "(holder sh' = Some d) = (holder sh = Some d)" using exec_shared(4) [OF e _ assms(2)] g(1) by blast
  show ?thesis
  proof (cases "writes i (reserved sh c)")
    case True
    then have "word sh' = word sh \<or> \<not> (masked \<and> holder sh = Some d)" using g(2) assms(2) by auto
    then show ?thesis using assms(1) Some h exec_shared(3) [OF e True] stable by (simp add: holds_def)
  next
    case False
    then show ?thesis using assms(1,2) Some h exec_shared(2) [OF e] by (simp add: holds_def)
  qed
qed

lemma step_holds:
  assumes "atomic_step routine s evs s'"
    and inv: "\<And>c. \<exists>p. track_all Out (events_of c tr) = Some p \<and> holds c (threads s c) (mem s) p"
  shows "(\<exists>p. track_all Out (events_of d (tr @ evs)) = Some p \<and> holds d (threads s' d) (mem s') p) \<and>
    replay (word (mem s)) evs = Some (word (mem s'))"
  using assms(1)
proof cases
  case (begin_call c a r z)
  then show ?thesis using inv [of d] inv [of c] begins
    by (cases "d = c") (auto simp: track_all_append holds_def)
next
  case (run c th th' sh' es)
  obtain p where p: "track_all Out (events_of c tr) = Some p" "holds c (threads s c) (mem s) p" using inv by blast
  have i: "I (call th) (pc th) (rf th) (zf th) (word (mem s)) (reserved (mem s) c) (holder (mem s) = Some c) p"
    using p(2) run(3) by (simp add: holds_def)
  note st = steps [OF i run(4,5)] and g = guards [OF i run(4)]
  have "\<exists>p. track_all Out (events_of d (tr @ evs)) = Some p \<and> holds d (threads s' d) (mem s') p"
  proof (cases "d = c")
    case True
    then show ?thesis using st p(1) run(1,2) exec_call [OF run(5)] by (auto simp: track_all_append holds_def)
  next
    case False
    obtain q where "track_all Out (events_of d tr) = Some q" "holds d (threads s d) (mem s) q" using inv by blast
    then show ?thesis using others_hold [OF _ False run(5)] g run(1,2) False by auto
  qed
  then show ?thesis using exec_shared(1) [OF run(5)] run(1,2) by simp
next
  case (return c th)
  obtain p where p: "track_all Out (events_of c tr) = Some p" "holds c (threads s c) (mem s) p" using inv by blast
  have "I (call th) (pc th) (rf th) (zf th) (word (mem s)) (reserved (mem s) c) (holder (mem s) = Some c) p"
    using p(2) return(3) by (simp add: holds_def)
  note e = ends [OF this return(4)]
  show ?thesis using inv [of d] e p(1) return(1,2)
    by (cases "d = c") (auto simp: track_all_append holds_def)
next
  case (lose c)
  then show ?thesis using inv [of d] stable
    by (cases "d = c") (auto simp: holds_def split: option.splits)
qed

lemma linearizable:
  assumes "atomic_run routine s0 tr s" "threads s0 = (\<lambda>_. None)" "holder (mem s0) = None"
  shows "replay (word (mem s0)) tr = Some (word (mem s)) \<and> track_all Out (events_of c tr) \<noteq> None"
proof -
  have "replay (word (mem s0)) tr = Some (word (mem s)) \<and>
    (\<forall>c. \<exists>p. track_all Out (events_of c tr) = Some p \<and> holds c (threads s c) (mem s) p)"
    using assms(1)
  proof (induction rule: atomic_run.induct)
    case start
    then show ?case using assms(2,3) by (simp add: holds_def)
  next
    case (step tr s evs s')
    then show ?case using step_holds [OF step(2), of tr] by (simp add: replay_append)
  qed
  then show ?thesis by auto
qed

end

section \<open>The three implementations meet it\<close>

text \<open>The computation between the read and the write, the register that is stored, and what is left of it.\<close>

fun body :: "atomic_call \<Rightarrow> instr list" where
  "body (FetchAdd _) = [ALU ADD Updated Current Value]"
| "body (FetchSub _) = [ALU SUB Updated Current Value]"
| "body (FetchOr _) = [ALU ORR Updated Current Value]"
| "body (FetchAnd _) = [ALU ANDR Updated Current Value]"
| "body (FetchXor _) = [ALU EOR Updated Current Value]"
| "body (FetchNand _) = [ALU ANDR Updated Current Value, MVN Updated Updated]"
| "body _ = []"

fun src :: "atomic_call \<Rightarrow> reg" where
  "src (Exchange _) = Value"
| "src (Cas _ _) = Desired"
| "src _ = Updated"

fun is_cas :: "atomic_call \<Rightarrow> bool" where
  "is_cas (Cas _ _) = True"
| "is_cas _ = False"

fun compute :: "instr list \<Rightarrow> (reg \<Rightarrow> u32) \<Rightarrow> (reg \<Rightarrow> u32)" where
  "compute (ALU a d n m # is) r = compute is (r(d := alu a (r n) (r m)))"
| "compute (MVN d n # is) r = compute is (r(d := NOT (r n)))"
| "compute _ r = r"

lemma body_step:
  assumes "i < length (body a)"
  obtains v where "exec c (body a ! i) th sh = Some (put Updated v th, sh, [])"
    "compute (drop i (body a)) (rf th) = compute (drop (Suc i) (body a)) ((rf th)(Updated := v))"
    "\<not> writes (body a ! i) m" "body a ! i \<noteq> EXIT"
  using assms that by (cases a) (auto simp: less_Suc_eq writes_def split: instr.splits)

lemma body_plain: "i < length (body a) \<Longrightarrow> \<not> writes (body a ! i) m \<and> body a ! i \<noteq> EXIT"
  by (cases a) (auto simp: less_Suc_eq writes_def)

lemma compute_effect: "args_ok a r \<Longrightarrow> \<not> is_cas a \<Longrightarrow> effect a (r Current) = Some (compute (body a) r (src a))"
  by (cases a) simp_all

lemma args_ok_upd [simp]:
  "args_ok a (r(Updated := v)) = args_ok a r" "args_ok a (r(Current := v)) = args_ok a r"
  "args_ok a (r(Failed := v)) = args_ok a r"
  by (cases a; simp)+

lemma src_not_failed [simp]: "src a \<noteq> Failed" "src a \<noteq> Current"
  by (cases a; simp)+

lemma answer_fetch: "\<not> is_cas a \<Longrightarrow> answer a w = w \<and> result a r = r Current"
  by (cases a) simp_all

text \<open>After a conditional store: it took effect, or the loop starts again.\<close>

definition tried :: "atomic_call \<Rightarrow> (reg \<Rightarrow> u32) \<Rightarrow> progress \<Rightarrow> bool" where
  "tried a r p \<longleftrightarrow> (if r Failed = 0 then p = Done a (r Current) else \<exists>ro. p = In a ro)"

text \<open>The two reservation loops; \<open>k\<close> is the length of the tail that tests the store.\<close>

definition fetch_inv :: "nat \<Rightarrow> atomic_call \<Rightarrow> nat \<Rightarrow> (reg \<Rightarrow> u32) \<Rightarrow> bool \<Rightarrow> u32 \<Rightarrow> bool \<Rightarrow> progress \<Rightarrow> bool" where
  "fetch_inv k a i r z w m p \<longleftrightarrow>
     (let n = length (body a) in
      i = 0 \<and> (\<exists>ro. p = In a ro) \<or>
      0 < i \<and> i \<le> n + 1 \<and> p = In a (Some (r Current)) \<and> (m \<longrightarrow> w = r Current) \<and>
        effect a (r Current) = Some (compute (drop (i - 1) (body a)) r (src a)) \<or>
      i = n + 2 \<and> tried a r p \<or>
      i = n + 3 \<and> k = 2 \<and> tried a r p \<and> z = (r Failed = 0) \<or>
      i = n + 2 + k \<and> p = Done a (r Current))"

definition loop_of :: "nat \<Rightarrow> atomic_call \<Rightarrow> instr list" where
  "loop_of k a = LDREX Current # body a @ STREX Failed (src a) # (if k = 2 then [CMP0 Failed, BNE 0] else [BNEZ Failed 0])"

lemma loop_of_nth:
  "loop_of k a ! 0 = LDREX Current"
  "0 < i \<Longrightarrow> i \<le> length (body a) \<Longrightarrow> loop_of k a ! i = body a ! (i - 1)"
  "loop_of k a ! (length (body a) + 1) = STREX Failed (src a)"
  "loop_of 2 a ! (length (body a) + 2) = CMP0 Failed" "loop_of 2 a ! (length (body a) + 3) = BNE 0"
  "loop_of 1 a ! (length (body a) + 2) = BNEZ Failed 0"
  "k = 1 \<or> k = 2 \<Longrightarrow> length (loop_of k a) = length (body a) + 2 + k"
  by (auto simp: loop_of_def nth_Cons' nth_append)

lemma fetch_inv_step:
  assumes inv: "fetch_inv k a (pc th) (rf th) (zf th) (word sh) (reserved sh c) p" and k: "k = 1 \<or> k = 2"
    and a: "args_ok a (rf th)" "\<not> is_cas a" and l: "pc th < length (loop_of k a)"
    and e: "exec c (loop_of k a ! pc th) th sh = Some (th', sh', evs)"
  shows "\<exists>q. track_all p evs = Some q \<and> fetch_inv k a (pc th') (rf th') (zf th') (word sh') (reserved sh' c) q \<and>
    args_ok a (rf th') \<and> holder sh' = holder sh"
proof -
  let ?n = "length (body a)"
  consider (load) "pc th = 0" "\<exists>ro. p = In a ro"
    | (mid) "0 < pc th" "pc th \<le> ?n" "p = In a (Some (rf th Current))" "reserved sh c \<longrightarrow> word sh = rf th Current"
        "effect a (rf th Current) = Some (compute (drop (pc th - 1) (body a)) (rf th) (src a))"
    | (attempt) "pc th = ?n + 1" "p = In a (Some (rf th Current))" "reserved sh c \<longrightarrow> word sh = rf th Current"
        "effect a (rf th Current) = Some (rf th (src a))"
    | (test) "pc th = ?n + 2" "tried a (rf th) p"
    | (branch) "pc th = ?n + 3" "k = 2" "tried a (rf th) p" "zf th = (rf th Failed = 0)"
    using inv l k loop_of_nth(7) [of k a] by (force simp: fetch_inv_def Let_def le_Suc_eq)
  then show ?thesis
  proof cases
    case load
    then show ?thesis using e a compute_effect [of a "(rf th)(Current := word sh)"]
      by (auto simp: loop_of_nth put_def fetch_inv_def Let_def)
  next
    case mid
    have b: "pc th - 1 < ?n" using mid by linarith
    obtain v where v: "exec c (body a ! (pc th - 1)) th sh = Some (put Updated v th, sh, [])"
      "compute (drop (pc th - 1) (body a)) (rf th) = compute (drop (Suc (pc th - 1)) (body a)) ((rf th)(Updated := v))"
      using body_step [OF b] by metis
    then show ?thesis using mid e a by (auto simp: loop_of_nth put_def fetch_inv_def Let_def)
  next
    case attempt
    then show ?thesis using e a
      by (auto simp: loop_of_nth [simplified] put_def store_def fetch_inv_def tried_def Let_def split: if_splits)
  next
    case test
    then show ?thesis using e a k
      by (auto simp: loop_of_nth [simplified] put_def jump_def fetch_inv_def tried_def Let_def split: if_splits)
  next
    case branch
    then show ?thesis using e a
      by (auto simp: loop_of_nth [simplified] put_def jump_def fetch_inv_def tried_def Let_def split: if_splits)
  qed
qed

text \<open>The exclusive-access build of ARM.\<close>

definition arm_cas_inv :: "atomic_call \<Rightarrow> nat \<Rightarrow> (reg \<Rightarrow> u32) \<Rightarrow> bool \<Rightarrow> u32 \<Rightarrow> bool \<Rightarrow> progress \<Rightarrow> bool" where
  "arm_cas_inv a i r z w m p \<longleftrightarrow>
     (let seen = (p = In a (Some (r Current))); same = (r Current = r Expected) in
      (i = 0 \<and> (\<exists>ro. p = In a ro)) \<or>
      (i = 1 \<and> seen \<and> (m \<longrightarrow> w = r Current)) \<or>
      (i = 2 \<and> seen \<and> (m \<longrightarrow> w = r Current) \<and> z = same) \<or>
      (i = 3 \<and> seen \<and> (m \<longrightarrow> w = r Current) \<and> same) \<or>
      (i = 4 \<and> tried a r p \<and> same) \<or>
      (i = 5 \<and> tried a r p \<and> same \<and> z = (r Failed = 0)) \<or>
      (i = 6 \<and> p = Done a (r Current) \<and> r Failed = 0 \<and> same) \<or>
      ((i = 7 \<or> i = 8) \<and> seen \<and> \<not> same) \<or>
      (i = 9 \<and> (if r Failed = 0 then p = Done a (r Current) \<and> same else seen \<and> \<not> same)))"

definition arm_inv ::
  "atomic_call \<Rightarrow> nat \<Rightarrow> (reg \<Rightarrow> u32) \<Rightarrow> bool \<Rightarrow> u32 \<Rightarrow> bool \<Rightarrow> bool \<Rightarrow> progress \<Rightarrow> bool" where
  "arm_inv a i r z w m h p \<longleftrightarrow> \<not> h \<and> args_ok a r \<and>
     (if is_cas a then arm_cas_inv a i r z w m p else fetch_inv 2 a i r z w m p)"

lemma arm_loop: "\<not> is_cas a \<Longrightarrow> arm_routine a = loop_of 2 a"
  by (cases a) (simp_all add: loop_of_def arm_atomic_exchange_def arm_atomic_add_def arm_atomic_sub_def
      arm_atomic_or_def arm_atomic_and_def arm_atomic_xor_def arm_atomic_nand_def)

lemma fetch_inv_stable: "fetch_inv k a i r z w m p \<Longrightarrow> fetch_inv k a i r z w' False p"
  by (auto simp: fetch_inv_def Let_def)

lemma fetch_inv_end:
  "fetch_inv k a i r z w m p \<Longrightarrow> k = 1 \<or> k = 2 \<Longrightarrow> length (loop_of k a) \<le> i \<Longrightarrow> \<not> is_cas a \<Longrightarrow>
    track p (Return (result a r)) = Some Out"
  using loop_of_nth(7) [of k a] answer_fetch [of a] by (auto simp: fetch_inv_def Let_def)

lemma loop_plain:
  "i < length (loop_of k a) \<Longrightarrow> loop_of k a ! i \<noteq> EXIT"
  using body_plain [of "i - 1" a] 
  by (auto simp: loop_of_def nth_Cons' nth_append split: if_splits)

lemma arm_cas_nth:
  "arm_atomic_cas ! 0 = LDREX Current" "arm_atomic_cas ! 1 = CMP Current Expected" "arm_atomic_cas ! 2 = BNE 7"
  "arm_atomic_cas ! 3 = STREX Failed Desired" "arm_atomic_cas ! 4 = CMP0 Failed" "arm_atomic_cas ! 5 = BNE 0"
  "arm_atomic_cas ! 6 = B 9" "arm_atomic_cas ! 7 = CLREX" "arm_atomic_cas ! 8 = SET Failed 1"
  "length arm_atomic_cas = 9"
  by (simp_all add: arm_atomic_cas_def)

lemma arm_cas_step:
  assumes "arm_cas_inv (Cas e d) (pc th) (rf th) (zf th) (word sh) (reserved sh c) p" "args_ok (Cas e d) (rf th)"
    and "pc th < length arm_atomic_cas" "exec c (arm_atomic_cas ! pc th) th sh = Some (th', sh', evs)"
  shows "\<exists>q. track_all p evs = Some q \<and> arm_cas_inv (Cas e d) (pc th') (rf th') (zf th') (word sh') (reserved sh' c) q \<and>
    args_ok (Cas e d) (rf th') \<and> holder sh' = holder sh"
proof -
  have "pc th < 9" using assms(3) by (simp add: arm_cas_nth)
  then consider "pc th = 0" | "pc th = 1" | "pc th = 2" | "pc th = 3" | "pc th = 4" | "pc th = 5" | "pc th = 6" | "pc th = 7" | "pc th = 8"
    by linarith
  then show ?thesis
  proof cases
    case 1
    then show ?thesis using assms(1,2,4)
      by (clarsimp simp: arm_cas_nth [simplified] arm_cas_inv_def put_def Let_def)
  next
    case 2
    then show ?thesis using assms(1,2,4)
      by (clarsimp simp: arm_cas_nth [simplified] arm_cas_inv_def jump_def Let_def)
  next
    case 3
    then show ?thesis using assms(1,2,4)
      by (clarsimp simp: arm_cas_nth [simplified] arm_cas_inv_def jump_def Let_def)
  next
    case 4
    then show ?thesis using assms(1,2,4)
      by (cases "reserved sh c"; clarsimp simp: arm_cas_nth [simplified] arm_cas_inv_def tried_def put_def store_def Let_def)
  next
    case 5
    then show ?thesis using assms(1,2,4)
      by (cases "rf th Failed = 0"; clarsimp simp: arm_cas_nth [simplified] arm_cas_inv_def tried_def jump_def Let_def)
  next
    case 6
    then show ?thesis using assms(1,2,4)
      by (cases "rf th Failed = 0"; clarsimp simp: arm_cas_nth [simplified] arm_cas_inv_def tried_def jump_def Let_def)
  next
    case 7
    then show ?thesis using assms(1,2,4)
      by (clarsimp simp: arm_cas_nth [simplified] arm_cas_inv_def jump_def Let_def)
  next
    case 8
    then show ?thesis using assms(1,2,4)
      by (clarsimp simp: arm_cas_nth [simplified] arm_cas_inv_def jump_def Let_def)
  next
    case 9
    then show ?thesis using assms(1,2,4)
      by (clarsimp simp: arm_cas_nth [simplified] arm_cas_inv_def put_def Let_def)
  qed
qed

lemma arm_cas_end:
  assumes "arm_cas_inv (Cas e d) i r z w m p" "args_ok (Cas e d) r" "9 \<le> i"
  shows "track p (Return (result (Cas e d) r)) = Some Out"
proof -
  have "i = 9" using assms(1,3) unfolding arm_cas_inv_def Let_def by (elim disjE conjE; simp)
  then show ?thesis using assms(1,2) by (cases "r Failed = 0"; clarsimp simp: arm_cas_inv_def)
qed

lemma arm_cas_stable: "arm_cas_inv a i r z w m p \<Longrightarrow> arm_cas_inv a i r z w' False p"
  unfolding arm_cas_inv_def Let_def by (elim disjE conjE; simp)

interpretation arm: atomic_port False arm_routine arm_inv
proof
  fix a r z w m
  assume "args_ok a r"
  then show "arm_inv a 0 r z w m False (In a None)" by (simp add: arm_inv_def arm_cas_inv_def fetch_inv_def)
next
  fix th sh c p th' sh' evs
  assume a: "arm_inv (call th) (pc th) (rf th) (zf th) (word sh) (reserved sh c) (holder sh = Some c) p"
    "pc th < length (arm_routine (call th))" "exec c (arm_routine (call th) ! pc th) th sh = Some (th', sh', evs)"
  show "\<exists>q. track_all p evs = Some q \<and>
      arm_inv (call th) (pc th') (rf th') (zf th') (word sh') (reserved sh' c) (holder sh' = Some c) q"
  proof (cases "is_cas (call th)")
    case True
    then obtain e d where "call th = Cas e d" by (cases "call th") simp_all
    then show ?thesis using a arm_cas_step [of e d th sh c p th' sh' evs] by (auto simp: arm_inv_def)
  next
    case False
    then show ?thesis using a fetch_inv_step [of 2 "call th" th sh c p th' sh' evs] by (auto simp: arm_inv_def arm_loop)
  qed
next
  fix a i r z w m h p
  assume l: "i < length (arm_routine a)"
  show "(arm_routine a ! i = EXIT \<longrightarrow> h) \<and> (False \<and> writes (arm_routine a ! i) m \<longrightarrow> h)"
  proof (cases "is_cas a")
    case True
    then have "arm_routine a = arm_atomic_cas" by (cases a) simp_all
    moreover have "EXIT \<notin> set arm_atomic_cas" by (simp add: arm_atomic_cas_def)
    ultimately show ?thesis using l nth_mem by metis
  next
    case False
    then show ?thesis using loop_plain [of i 2 a] l by (simp add: arm_loop)
  qed
next
  fix a i r z w m h p w'
  assume "arm_inv a i r z w m h p"
  then show "arm_inv a i r z w' False h p"
    using fetch_inv_stable arm_cas_stable unfolding arm_inv_def by metis
next
  fix a i r z w m h p
  assume a: "arm_inv a i r z w m h p" "length (arm_routine a) \<le> i"
  show "\<not> h \<and> track p (Return (result a r)) = Some Out"
  proof (cases "is_cas a")
    case True
    then obtain e d where "a = Cas e d" by (cases a) simp_all
    then show ?thesis using a arm_cas_end [of e d i r z w m p] by (simp add: arm_inv_def arm_cas_nth)
  next
    case False
    then show ?thesis using a fetch_inv_end [of 2 a i r z w m p] by (auto simp: arm_inv_def arm_loop)
  qed
qed

text \<open>RISC-V with the A extension: one AMO, or a reservation loop.\<close>

definition rv_cas_inv :: "atomic_call \<Rightarrow> nat \<Rightarrow> (reg \<Rightarrow> u32) \<Rightarrow> bool \<Rightarrow> u32 \<Rightarrow> bool \<Rightarrow> progress \<Rightarrow> bool" where
  "rv_cas_inv a i r z w m p \<longleftrightarrow>
     (let seen = (p = In a (Some (r Current))); same = (r Current = r Expected) in
      (i = 0 \<and> (\<exists>ro. p = In a ro)) \<or>
      (i = 1 \<and> seen \<and> (m \<longrightarrow> w = r Current)) \<or>
      (i = 2 \<and> seen \<and> (m \<longrightarrow> w = r Current) \<and> same) \<or>
      (i = 3 \<and> tried a r p \<and> same) \<or>
      (i = 4 \<and> p = Done a (r Current) \<and> r Failed = 0 \<and> same) \<or>
      (i = 5 \<and> seen \<and> \<not> same) \<or>
      (i = 6 \<and> (if r Failed = 0 then p = Done a (r Current) \<and> same else seen \<and> \<not> same)))"

text \<open>The calls that are one AMO, after the preparation of \<open>FetchSub\<close>'s operand.\<close>

definition amo_inv :: "atomic_call \<Rightarrow> nat \<Rightarrow> (reg \<Rightarrow> u32) \<Rightarrow> progress \<Rightarrow> bool" where
  "amo_inv a i r p \<longleftrightarrow>
     (let n = length (rv_routine a) in
      (i = 0 \<and> (\<exists>ro. p = In a ro)) \<or>
      (i = 1 \<and> n = 2 \<and> (\<exists>ro. p = In a ro) \<and> r Updated = 0 - r Value) \<or>
      (i = n \<and> p = Done a (r Current)))"

fun is_nand :: "atomic_call \<Rightarrow> bool" where
  "is_nand (FetchNand _) = True"
| "is_nand _ = False"

definition rv_inv ::
  "atomic_call \<Rightarrow> nat \<Rightarrow> (reg \<Rightarrow> u32) \<Rightarrow> bool \<Rightarrow> u32 \<Rightarrow> bool \<Rightarrow> bool \<Rightarrow> progress \<Rightarrow> bool" where
  "rv_inv a i r z w m h p \<longleftrightarrow> \<not> h \<and> args_ok a r \<and>
     (if is_cas a then rv_cas_inv a i r z w m p else if is_nand a then fetch_inv 1 a i r z w m p else amo_inv a i r p)"

lemmas rv_amo_defs = rv_atomic_exchange_def rv_atomic_add_def rv_atomic_sub_def rv_atomic_or_def rv_atomic_and_def
  rv_atomic_xor_def

lemma rv_cas_nth:
  "rv_atomic_cas ! 0 = LDREX Current" "rv_atomic_cas ! 1 = BNER Current Expected 5"
  "rv_atomic_cas ! 2 = STREX Failed Desired" "rv_atomic_cas ! 3 = BNEZ Failed 0" "rv_atomic_cas ! 4 = B 6"
  "rv_atomic_cas ! 5 = SET Failed 1" "length rv_atomic_cas = 6"
  by (simp_all add: rv_atomic_cas_def)

lemma rv_cas_step:
  assumes "rv_cas_inv (Cas e d) (pc th) (rf th) (zf th) (word sh) (reserved sh c) p" "args_ok (Cas e d) (rf th)"
    and "pc th < length rv_atomic_cas" "exec c (rv_atomic_cas ! pc th) th sh = Some (th', sh', evs)"
  shows "\<exists>q. track_all p evs = Some q \<and> rv_cas_inv (Cas e d) (pc th') (rf th') (zf th') (word sh') (reserved sh' c) q \<and>
    args_ok (Cas e d) (rf th') \<and> holder sh' = holder sh"
proof -
  have "pc th < 6" using assms(3) by (simp add: rv_cas_nth)
  then consider "pc th = 0" | "pc th = 1" | "pc th = 2" | "pc th = 3" | "pc th = 4" | "pc th = 5" by linarith
  then show ?thesis
  proof cases
    case 1
    then show ?thesis using assms(1,2,4) by (clarsimp simp: rv_cas_nth [simplified] rv_cas_inv_def put_def Let_def)
  next
    case 2
    then show ?thesis using assms(1,2,4)
      by (cases "rf th Current = rf th Expected"; clarsimp simp: rv_cas_nth [simplified] rv_cas_inv_def jump_def Let_def)
  next
    case 3
    then show ?thesis using assms(1,2,4)
      by (cases "reserved sh c"; clarsimp simp: rv_cas_nth [simplified] rv_cas_inv_def tried_def put_def store_def Let_def)
  next
    case 4
    then show ?thesis using assms(1,2,4)
      by (cases "rf th Failed = 0"; clarsimp simp: rv_cas_nth [simplified] rv_cas_inv_def tried_def jump_def Let_def)
  next
    case 5
    then show ?thesis using assms(1,2,4) by (clarsimp simp: rv_cas_nth [simplified] rv_cas_inv_def jump_def Let_def)
  next
    case 6
    then show ?thesis using assms(1,2,4) by (clarsimp simp: rv_cas_nth [simplified] rv_cas_inv_def put_def Let_def)
  qed
qed

lemma amo_step:
  assumes "amo_inv a (pc th) (rf th) p" "args_ok a (rf th)" "\<not> is_cas a" "\<not> is_nand a"
    and "pc th < length (rv_routine a)" "exec c (rv_routine a ! pc th) th sh = Some (th', sh', evs)"
  shows "\<exists>q. track_all p evs = Some q \<and> amo_inv a (pc th') (rf th') q \<and> args_ok a (rf th') \<and> holder sh' = holder sh"
  using assms by (cases a) (auto simp: amo_inv_def rv_amo_defs put_def store_def less_Suc_eq)

lemma rv_nand_loop: "is_nand a \<Longrightarrow> rv_routine a = loop_of 1 a \<and> \<not> is_cas a"
  by (cases a) (simp_all add: loop_of_def rv_atomic_nand_def)

lemma rv_cas_end:
  assumes "rv_cas_inv (Cas e d) i r z w m p" "args_ok (Cas e d) r" "6 \<le> i"
  shows "track p (Return (result (Cas e d) r)) = Some Out"
proof -
  have "i = 6" using assms(1,3) unfolding rv_cas_inv_def Let_def by (elim disjE conjE; simp)
  then show ?thesis using assms(1,2) by (cases "r Failed = 0"; clarsimp simp: rv_cas_inv_def)
qed

lemma rv_cas_stable: "rv_cas_inv a i r z w m p \<Longrightarrow> rv_cas_inv a i r z w' False p"
  unfolding rv_cas_inv_def Let_def by (elim disjE conjE; simp)

lemma amo_end:
  assumes "amo_inv a i r p" "\<not> is_cas a" "length (rv_routine a) \<le> i"
  shows "track p (Return (result a r)) = Some Out"
proof -
  have "0 < length (rv_routine a)" by (cases a) (simp_all add: rv_amo_defs rv_atomic_nand_def rv_atomic_cas_def)
  then have "p = Done a (r Current)" using assms(1,3) by (auto simp: amo_inv_def Let_def)
  then show ?thesis using answer_fetch [OF assms(2)] by simp
qed

lemma rv_no_exit: "EXIT \<notin> set (rv_routine a)"
  by (cases a) (simp_all add: rv_amo_defs rv_atomic_nand_def rv_atomic_cas_def)

interpretation rv: atomic_port False rv_routine rv_inv
proof
  fix a r z w m
  assume "args_ok a r"
  then show "rv_inv a 0 r z w m False (In a None)"
    by (simp add: rv_inv_def rv_cas_inv_def fetch_inv_def amo_inv_def Let_def)
next
  fix th sh c p th' sh' evs
  assume a: "rv_inv (call th) (pc th) (rf th) (zf th) (word sh) (reserved sh c) (holder sh = Some c) p"
    "pc th < length (rv_routine (call th))" "exec c (rv_routine (call th) ! pc th) th sh = Some (th', sh', evs)"
  consider "is_cas (call th)" | "is_nand (call th)" | "\<not> is_cas (call th)" "\<not> is_nand (call th)" by blast
  then show "\<exists>q. track_all p evs = Some q \<and>
      rv_inv (call th) (pc th') (rf th') (zf th') (word sh') (reserved sh' c) (holder sh' = Some c) q"
  proof cases
    case 1
    then obtain e d where "call th = Cas e d" by (cases "call th") simp_all
    then show ?thesis using a rv_cas_step [of e d th sh c p th' sh' evs] by (auto simp: rv_inv_def)
  next
    case 2
    then show ?thesis using a fetch_inv_step [of 1 "call th" th sh c p th' sh' evs] rv_nand_loop by (auto simp: rv_inv_def)
  next
    case 3
    then show ?thesis using a amo_step [of "call th" th p c sh th' sh' evs] by (auto simp: rv_inv_def)
  qed
next
  fix a i r z w m h p
  assume "i < length (rv_routine a)"
  then show "(rv_routine a ! i = EXIT \<longrightarrow> h) \<and> (False \<and> writes (rv_routine a ! i) m \<longrightarrow> h)"
    using rv_no_exit nth_mem by metis
next
  fix a i r z w m h p w'
  assume "rv_inv a i r z w m h p"
  then show "rv_inv a i r z w' False h p"
    using fetch_inv_stable rv_cas_stable unfolding rv_inv_def by metis
next
  fix a i r z w m h p
  assume a: "rv_inv a i r z w m h p" "length (rv_routine a) \<le> i"
  consider "is_cas a" | "is_nand a" | "\<not> is_cas a" "\<not> is_nand a" by blast
  then show "\<not> h \<and> track p (Return (result a r)) = Some Out"
  proof cases
    case 1
    then obtain e d where "a = Cas e d" by (cases a) simp_all
    then show ?thesis using a rv_cas_end [of e d i r z w m p] by (simp add: rv_inv_def rv_cas_nth)
  next
    case 2
    then show ?thesis using a fetch_inv_end [of 1 a i r z w m p] rv_nand_loop by (auto simp: rv_inv_def)
  next
    case 3
    then show ?thesis using a amo_end by (auto simp: rv_inv_def)
  qed
qed

text \<open>The fallback: everything between \<open>ENTER\<close> and \<open>EXIT\<close> happens while no other context holds the section.\<close>

definition masked_fetch_inv ::
  "atomic_call \<Rightarrow> nat \<Rightarrow> (reg \<Rightarrow> u32) \<Rightarrow> u32 \<Rightarrow> bool \<Rightarrow> progress \<Rightarrow> bool" where
  "masked_fetch_inv a i r w h p \<longleftrightarrow>
     (let n = length (body a) in
      (i = 0 \<and> \<not> h \<and> (\<exists>ro. p = In a ro)) \<or>
      (i = 1 \<and> h \<and> (\<exists>ro. p = In a ro)) \<or>
      (2 \<le> i \<and> i \<le> n + 2 \<and> h \<and> p = In a (Some (r Current)) \<and> w = r Current \<and>
        effect a (r Current) = Some (compute (drop (i - 2) (body a)) r (src a))) \<or>
      (i = n + 3 \<and> h \<and> p = Done a (r Current)) \<or>
      (i = n + 4 \<and> \<not> h \<and> p = Done a (r Current)))"

definition masked_cas_inv ::
  "atomic_call \<Rightarrow> nat \<Rightarrow> (reg \<Rightarrow> u32) \<Rightarrow> u32 \<Rightarrow> bool \<Rightarrow> progress \<Rightarrow> bool" where
  "masked_cas_inv a i r w h p \<longleftrightarrow>
     (let seen = (p = In a (Some (r Current))); same = (r Current = r Expected) in
      (i = 0 \<and> \<not> h \<and> (\<exists>ro. p = In a ro)) \<or>
      (i = 1 \<and> \<not> h \<and> (\<exists>ro. p = In a ro) \<and> r Failed = 1) \<or>
      (i = 2 \<and> h \<and> (\<exists>ro. p = In a ro) \<and> r Failed = 1) \<or>
      (i = 3 \<and> h \<and> seen \<and> w = r Current \<and> r Failed = 1) \<or>
      (i = 4 \<and> h \<and> seen \<and> w = r Current \<and> same) \<or>
      (i = 5 \<and> h \<and> p = Done a (r Current) \<and> same) \<or>
      (i = 6 \<and> h \<and> (if r Failed = 0 then p = Done a (r Current) \<and> same else seen \<and> \<not> same)) \<or>
      (i = 7 \<and> \<not> h \<and> (if r Failed = 0 then p = Done a (r Current) \<and> same else seen \<and> \<not> same)))"

definition masked_inv ::
  "atomic_call \<Rightarrow> nat \<Rightarrow> (reg \<Rightarrow> u32) \<Rightarrow> bool \<Rightarrow> u32 \<Rightarrow> bool \<Rightarrow> bool \<Rightarrow> progress \<Rightarrow> bool" where
  "masked_inv a i r z w m h p \<longleftrightarrow>
     args_ok a r \<and> (if is_cas a then masked_cas_inv a i r w h p else masked_fetch_inv a i r w h p)"

definition section_of :: "atomic_call \<Rightarrow> instr list" where
  "section_of a = ENTER # LOADW Current # body a @ [STOREW (src a), EXIT]"

lemma masked_section: "\<not> is_cas a \<Longrightarrow> masked_routine a = section_of a"
  by (cases a) (simp_all add: section_of_def masked_atomic_exchange_def masked_atomic_add_def masked_atomic_sub_def
      masked_atomic_or_def masked_atomic_and_def masked_atomic_xor_def masked_atomic_nand_def)

lemma section_nth:
  "section_of a ! 0 = ENTER" "section_of a ! 1 = LOADW Current"
  "2 \<le> i \<Longrightarrow> i < length (body a) + 2 \<Longrightarrow> section_of a ! i = body a ! (i - 2)"
  "section_of a ! (length (body a) + 2) = STOREW (src a)" "section_of a ! (length (body a) + 3) = EXIT"
  "length (section_of a) = length (body a) + 4"
  by (auto simp: section_of_def nth_Cons' nth_append numeral_2_eq_2)

lemma masked_fetch_step:
  assumes inv: "masked_fetch_inv a (pc th) (rf th) (word sh) (holder sh = Some c) p"
    and a: "args_ok a (rf th)" "\<not> is_cas a" and l: "pc th < length (section_of a)"
    and e: "exec c (section_of a ! pc th) th sh = Some (th', sh', evs)"
  shows "\<exists>q. track_all p evs = Some q \<and> masked_fetch_inv a (pc th') (rf th') (word sh') (holder sh' = Some c) q \<and>
    args_ok a (rf th')"
proof -
  let ?n = "length (body a)"
  consider (enter) "pc th = 0" "\<exists>ro. p = In a ro" | (load) "pc th = 1" "holder sh = Some c" "\<exists>ro. p = In a ro"
    | (mid) "2 \<le> pc th" "pc th < ?n + 2" "holder sh = Some c" "p = In a (Some (rf th Current))" "word sh = rf th Current"
        "effect a (rf th Current) = Some (compute (drop (pc th - 2) (body a)) (rf th) (src a))"
    | (put_word) "pc th = ?n + 2" "holder sh = Some c" "p = In a (Some (rf th Current))" "word sh = rf th Current"
        "effect a (rf th Current) = Some (rf th (src a))"
    | (leave) "pc th = ?n + 3" "holder sh = Some c" "p = Done a (rf th Current)"
    using inv l section_nth(6) [of a] by (force simp: masked_fetch_inv_def Let_def le_Suc_eq)
  then show ?thesis
  proof cases
    case enter
    then show ?thesis using e a
      by (cases "holder sh = None") (auto simp: section_nth jump_def masked_fetch_inv_def Let_def)
  next
    case load
    then show ?thesis using e a compute_effect [of a "(rf th)(Current := word sh)"]
      by (auto simp: section_nth [simplified] put_def masked_fetch_inv_def Let_def)
  next
    case mid
    have b: "pc th - 2 < ?n" using mid by linarith
    obtain v where v: "exec c (body a ! (pc th - 2)) th sh = Some (put Updated v th, sh, [])"
      "compute (drop (pc th - 2) (body a)) (rf th) = compute (drop (Suc (pc th - 2)) (body a)) ((rf th)(Updated := v))"
      using body_step [OF b] by metis
    have d: "Suc (pc th) - 2 = Suc (pc th - 2)" using mid(1) by linarith
    show ?thesis using mid e a v d by (auto simp: section_nth put_def masked_fetch_inv_def Let_def)
  next
    case put_word
    then show ?thesis using e a by (auto simp: section_nth [simplified] jump_def store_def masked_fetch_inv_def Let_def)
  next
    case leave
    then show ?thesis using e a by (auto simp: section_nth [simplified] jump_def masked_fetch_inv_def Let_def)
  qed
qed

lemma masked_cas_nth:
  "masked_atomic_cas ! 0 = SET Failed 1" "masked_atomic_cas ! 1 = ENTER" "masked_atomic_cas ! 2 = LOADW Current"
  "masked_atomic_cas ! 3 = BNER Current Expected 6" "masked_atomic_cas ! 4 = STOREW Desired"
  "masked_atomic_cas ! 5 = SET Failed 0" "masked_atomic_cas ! 6 = EXIT" "length masked_atomic_cas = 7"
  by (simp_all add: masked_atomic_cas_def)

lemma masked_cas_step:
  assumes "masked_cas_inv (Cas e d) (pc th) (rf th) (word sh) (holder sh = Some c) p" "args_ok (Cas e d) (rf th)"
    and "pc th < length masked_atomic_cas" "exec c (masked_atomic_cas ! pc th) th sh = Some (th', sh', evs)"
  shows "\<exists>q. track_all p evs = Some q \<and> masked_cas_inv (Cas e d) (pc th') (rf th') (word sh') (holder sh' = Some c) q \<and>
    args_ok (Cas e d) (rf th')"
proof -
  have "pc th < 7" using assms(3) by (simp add: masked_cas_nth)
  then consider "pc th = 0" | "pc th = 1" | "pc th = 2" | "pc th = 3" | "pc th = 4" | "pc th = 5" | "pc th = 6" by linarith
  then show ?thesis
  proof cases
    case 1
    then show ?thesis using assms(1,2,4) by (clarsimp simp: masked_cas_nth [simplified] masked_cas_inv_def put_def Let_def)
  next
    case 2
    then show ?thesis using assms(1,2,4)
      by (cases "holder sh"; clarsimp simp: masked_cas_nth [simplified] masked_cas_inv_def jump_def Let_def)
  next
    case 3
    then show ?thesis using assms(1,2,4) by (clarsimp simp: masked_cas_nth [simplified] masked_cas_inv_def put_def Let_def)
  next
    case 4
    then show ?thesis using assms(1,2,4)
      by (cases "rf th Current = rf th Expected";
          clarsimp simp: masked_cas_nth [simplified] masked_cas_inv_def jump_def Let_def)
  next
    case 5
    then show ?thesis using assms(1,2,4)
      by (clarsimp simp: masked_cas_nth [simplified] masked_cas_inv_def jump_def store_def Let_def)
  next
    case 6
    then show ?thesis using assms(1,2,4) by (clarsimp simp: masked_cas_nth [simplified] masked_cas_inv_def put_def Let_def)
  next
    case 7
    then show ?thesis using assms(1,2,4) by (clarsimp simp: masked_cas_nth [simplified] masked_cas_inv_def jump_def Let_def)
  qed
qed

lemma masked_cas_end:
  assumes "masked_cas_inv (Cas e d) i r w h p" "args_ok (Cas e d) r" "7 \<le> i"
  shows "\<not> h \<and> track p (Return (result (Cas e d) r)) = Some Out"
proof -
  have "i = 7" using assms(1,3) unfolding masked_cas_inv_def Let_def by (elim disjE conjE; simp)
  then show ?thesis using assms(1,2) by (cases "r Failed = 0"; clarsimp simp: masked_cas_inv_def)
qed

lemma masked_fetch_end:
  assumes "masked_fetch_inv a i r w h p" "\<not> is_cas a" "length (section_of a) \<le> i"
  shows "\<not> h \<and> track p (Return (result a r)) = Some Out"
  using assms answer_fetch [OF assms(2)] section_nth(6) [of a] by (auto simp: masked_fetch_inv_def Let_def)

lemma masked_fetch_guard:
  assumes "masked_fetch_inv a i r w h p" "i < length (section_of a)"
  shows "(section_of a ! i = EXIT \<longrightarrow> h) \<and> (writes (section_of a ! i) m \<longrightarrow> h)"
proof -
  have h: "i \<noteq> 0 \<longrightarrow> h"
    using assms section_nth(6) [of a] unfolding masked_fetch_inv_def Let_def by (elim disjE conjE; simp)
  then show ?thesis by (cases "i = 0") (simp_all add: section_nth(1) writes_def)
qed

lemma masked_cas_guard:
  assumes "masked_cas_inv a i r w h p" "i < 7"
  shows "(masked_atomic_cas ! i = EXIT \<longrightarrow> h) \<and> (writes (masked_atomic_cas ! i) m \<longrightarrow> h)"
proof -
  have h: "2 \<le> i \<longrightarrow> h" using assms unfolding masked_cas_inv_def Let_def by (elim disjE conjE; simp)
  consider "i = 0" | "i = 1" | "2 \<le> i" by linarith
  then show ?thesis using h by cases (simp_all add: masked_cas_nth [simplified] writes_def)
qed

lemma masked_stable:
  assumes "masked_inv a i r z w m h p" "w' = w \<or> \<not> h"
  shows "masked_inv a i r z w' False h p"
proof -
  have "masked_cas_inv a i r w h p \<Longrightarrow> masked_cas_inv a i r w' h p"
    using assms(2) unfolding masked_cas_inv_def Let_def by (elim disjE conjE; simp)
  moreover have "masked_fetch_inv a i r w h p \<Longrightarrow> masked_fetch_inv a i r w' h p"
    using assms(2) unfolding masked_fetch_inv_def Let_def by (elim disjE conjE; simp)
  ultimately show ?thesis using assms(1) unfolding masked_inv_def by metis
qed

interpretation masked: atomic_port True masked_routine masked_inv
proof
  fix a r z w m
  assume "args_ok a r"
  then show "masked_inv a 0 r z w m False (In a None)"
    by (simp add: masked_inv_def masked_cas_inv_def masked_fetch_inv_def)
next
  fix th sh c p th' sh' evs
  assume a: "masked_inv (call th) (pc th) (rf th) (zf th) (word sh) (reserved sh c) (holder sh = Some c) p"
    "pc th < length (masked_routine (call th))" "exec c (masked_routine (call th) ! pc th) th sh = Some (th', sh', evs)"
  show "\<exists>q. track_all p evs = Some q \<and>
      masked_inv (call th) (pc th') (rf th') (zf th') (word sh') (reserved sh' c) (holder sh' = Some c) q"
  proof (cases "is_cas (call th)")
    case True
    then obtain e d where "call th = Cas e d" by (cases "call th") simp_all
    then show ?thesis using a masked_cas_step [of e d th sh c p th' sh' evs] by (auto simp: masked_inv_def)
  next
    case False
    then show ?thesis using a masked_fetch_step [of "call th" th sh c p th' sh' evs]
      by (auto simp: masked_inv_def masked_section)
  qed
next
  fix a i r z w m h p
  assume a: "masked_inv a i r z w m h p" "i < length (masked_routine a)"
  show "(masked_routine a ! i = EXIT \<longrightarrow> h) \<and> (True \<and> writes (masked_routine a ! i) m \<longrightarrow> h)"
  proof (cases "is_cas a")
    case True
    then have "masked_routine a = masked_atomic_cas" by (cases a) simp_all
    then show ?thesis using a masked_cas_guard [of a i r w h p m] True by (simp add: masked_inv_def masked_cas_nth)
  next
    case False
    then show ?thesis using a masked_fetch_guard [of a i r w h p m] by (simp add: masked_inv_def masked_section)
  qed
next
  fix a i r z w m h p w'
  assume "masked_inv a i r z w m h p" "w' = w \<or> \<not> (True \<and> h)"
  then show "masked_inv a i r z w' False h p" using masked_stable by simp
next
  fix a i r z w m h p
  assume a: "masked_inv a i r z w m h p" "length (masked_routine a) \<le> i"
  show "\<not> h \<and> track p (Return (result a r)) = Some Out"
  proof (cases "is_cas a")
    case True
    then obtain e d where "a = Cas e d" by (cases a) simp_all
    then show ?thesis using a masked_cas_end [of e d i r w h p] by (simp add: masked_inv_def masked_cas_nth)
  next
    case False
    then show ?thesis using a masked_fetch_end [of a i r w h p] by (simp add: masked_inv_def masked_section)
  qed
qed

section \<open>The kernel's calls\<close>

text \<open>
  \<^verbatim>\<open>kernel/os_atomic.c\<close>. An atomic is named by its address, 0 is NULL; \<open>m\<close> is what the words hold. A port
  call takes effect at one instant, which is what the implementations above were shown to give, so here it is
  its effect and its answer. \<open>None\<close> is a failed assertion, which does not return, when assertions are on.
\<close>

type_synonym words = "nat \<Rightarrow> u32"

definition os_arch_atomic :: "atomic_call \<Rightarrow> nat \<Rightarrow> words \<Rightarrow> u32 \<times> words" where
  "os_arch_atomic a t m = (answer a (m t), (case effect a (m t) of None \<Rightarrow> m | Some w \<Rightarrow> m(t := w)))"

definition OS_ATOMIC_BITS :: nat where "OS_ATOMIC_BITS = 32"

definition atomic_assert :: "bool \<Rightarrow> bool \<Rightarrow> 'a \<Rightarrow> 'a option" where
  "atomic_assert asserts ok x = (if asserts \<and> \<not> ok then None else Some x)"

definition os_atomic_get :: "nat \<Rightarrow> words \<Rightarrow> u32" where
  "os_atomic_get t m = (if t \<noteq> 0 then m t else 0)"

text \<open>The shape that the calls which hand back the previous value share.\<close>

definition atomic_fetch :: "bool \<Rightarrow> atomic_call \<Rightarrow> nat \<Rightarrow> words \<Rightarrow> (u32 \<times> words) option" where
  "atomic_fetch asserts a t m =
     atomic_assert asserts (t \<noteq> 0) (if t \<noteq> 0 then os_arch_atomic a t m else (0, m))"

definition os_atomic_set :: "bool \<Rightarrow> nat \<Rightarrow> u32 \<Rightarrow> words \<Rightarrow> (u32 \<times> words) option" where
  "os_atomic_set asserts t v m = atomic_fetch asserts (Exchange v) t m"

definition os_atomic_clear :: "bool \<Rightarrow> nat \<Rightarrow> words \<Rightarrow> (u32 \<times> words) option" where
  "os_atomic_clear asserts t m = atomic_fetch asserts (Exchange 0) t m"

definition os_atomic_add :: "bool \<Rightarrow> nat \<Rightarrow> u32 \<Rightarrow> words \<Rightarrow> (u32 \<times> words) option" where
  "os_atomic_add asserts t v m = atomic_fetch asserts (FetchAdd v) t m"

definition os_atomic_sub :: "bool \<Rightarrow> nat \<Rightarrow> u32 \<Rightarrow> words \<Rightarrow> (u32 \<times> words) option" where
  "os_atomic_sub asserts t v m = atomic_fetch asserts (FetchSub v) t m"

definition os_atomic_inc :: "bool \<Rightarrow> nat \<Rightarrow> words \<Rightarrow> (u32 \<times> words) option" where
  "os_atomic_inc asserts t m = atomic_fetch asserts (FetchAdd 1) t m"

definition os_atomic_dec :: "bool \<Rightarrow> nat \<Rightarrow> words \<Rightarrow> (u32 \<times> words) option" where
  "os_atomic_dec asserts t m = atomic_fetch asserts (FetchSub 1) t m"

definition os_atomic_or :: "bool \<Rightarrow> nat \<Rightarrow> u32 \<Rightarrow> words \<Rightarrow> (u32 \<times> words) option" where
  "os_atomic_or asserts t v m = atomic_fetch asserts (FetchOr v) t m"

definition os_atomic_and :: "bool \<Rightarrow> nat \<Rightarrow> u32 \<Rightarrow> words \<Rightarrow> (u32 \<times> words) option" where
  "os_atomic_and asserts t v m = atomic_fetch asserts (FetchAnd v) t m"

definition os_atomic_xor :: "bool \<Rightarrow> nat \<Rightarrow> u32 \<Rightarrow> words \<Rightarrow> (u32 \<times> words) option" where
  "os_atomic_xor asserts t v m = atomic_fetch asserts (FetchXor v) t m"

definition os_atomic_nand :: "bool \<Rightarrow> nat \<Rightarrow> u32 \<Rightarrow> words \<Rightarrow> (u32 \<times> words) option" where
  "os_atomic_nand asserts t v m = atomic_fetch asserts (FetchNand v) t m"

definition os_atomic_cas :: "bool \<Rightarrow> nat \<Rightarrow> u32 \<Rightarrow> u32 \<Rightarrow> words \<Rightarrow> (bool \<times> words) option" where
  "os_atomic_cas asserts t expected desired m =
     atomic_assert asserts (t \<noteq> 0)
       (if t \<noteq> 0 then (case os_arch_atomic (Cas expected desired) t m of (swapped, m') \<Rightarrow> (swapped \<noteq> 0, m'))
        else (False, m))"

definition bit_mask :: "nat \<Rightarrow> u32" where
  "bit_mask n = push_bit n 1"

definition os_atomic_test_bit :: "bool \<Rightarrow> nat \<Rightarrow> nat \<Rightarrow> words \<Rightarrow> bool option" where
  "os_atomic_test_bit asserts t n m =
     atomic_assert asserts (n < OS_ATOMIC_BITS)
       (if t \<noteq> 0 \<and> n < OS_ATOMIC_BITS then m t AND bit_mask n \<noteq> 0 else False)"

text \<open>The four calls on a bit check the pointer first, then the bit.\<close>

definition atomic_bit_call ::
  "bool \<Rightarrow> nat \<Rightarrow> nat \<Rightarrow> atomic_call \<Rightarrow> (u32 \<Rightarrow> 'a) \<Rightarrow> 'a \<Rightarrow> words \<Rightarrow> ('a \<times> words) option" where
  "atomic_bit_call asserts t n a f idle m =
     atomic_assert asserts (t \<noteq> 0 \<and> n < OS_ATOMIC_BITS)
       (if t \<noteq> 0 \<and> n < OS_ATOMIC_BITS then (case os_arch_atomic a t m of (previous, m') \<Rightarrow> (f previous, m'))
        else (idle, m))"

definition os_atomic_test_and_set_bit :: "bool \<Rightarrow> nat \<Rightarrow> nat \<Rightarrow> words \<Rightarrow> (bool \<times> words) option" where
  "os_atomic_test_and_set_bit asserts t n m =
     atomic_bit_call asserts t n (FetchOr (bit_mask n)) (\<lambda>previous. previous AND bit_mask n \<noteq> 0) False m"

definition os_atomic_test_and_clear_bit :: "bool \<Rightarrow> nat \<Rightarrow> nat \<Rightarrow> words \<Rightarrow> (bool \<times> words) option" where
  "os_atomic_test_and_clear_bit asserts t n m =
     atomic_bit_call asserts t n (FetchAnd (NOT (bit_mask n))) (\<lambda>previous. previous AND bit_mask n \<noteq> 0) False m"

definition os_atomic_set_bit :: "bool \<Rightarrow> nat \<Rightarrow> nat \<Rightarrow> words \<Rightarrow> (unit \<times> words) option" where
  "os_atomic_set_bit asserts t n m = atomic_bit_call asserts t n (FetchOr (bit_mask n)) (\<lambda>_. ()) () m"

definition os_atomic_clear_bit :: "bool \<Rightarrow> nat \<Rightarrow> nat \<Rightarrow> words \<Rightarrow> (unit \<times> words) option" where
  "os_atomic_clear_bit asserts t n m = atomic_bit_call asserts t n (FetchAnd (NOT (bit_mask n))) (\<lambda>_. ()) () m"

definition os_atomic_set_bit_to :: "bool \<Rightarrow> nat \<Rightarrow> nat \<Rightarrow> bool \<Rightarrow> words \<Rightarrow> (unit \<times> words) option" where
  "os_atomic_set_bit_to asserts t n value m =
     atomic_bit_call asserts t n (if value then FetchOr (bit_mask n) else FetchAnd (NOT (bit_mask n))) (\<lambda>_. ()) () m"

text \<open>Writing one bit: that bit reads back, every other bit and every other word stays.\<close>

lemma bit_mask_bit: "bit (bit_mask n) k \<longleftrightarrow> k = n \<and> n < 32"
  by (auto simp: bit_mask_def bit_exp_iff)

lemma bit_mask_test: "n < 32 \<Longrightarrow> w AND bit_mask n \<noteq> 0 \<longleftrightarrow> bit w n"
proof -
  assume n: "n < 32"
  have "w AND bit_mask n = 0 \<longleftrightarrow> (\<forall>k. \<not> bit (w AND bit_mask n) k)"
    using bit_imp_le_length [of "w AND bit_mask n"] by (fastforce simp: bit_eq_iff simp del: bit_and_iff)
  then show ?thesis using n by (auto simp: bit_and_iff bit_mask_bit)
qed

lemma set_bit_to_effect:
  assumes "t \<noteq> 0" "n < 32"
  obtains m' where "os_atomic_set_bit_to asserts t n v m = Some ((), m')"
    "os_atomic_test_bit asserts t n m' = Some v"
    "k < 32 \<Longrightarrow> k \<noteq> n \<Longrightarrow> os_atomic_test_bit asserts t k m' = os_atomic_test_bit asserts t k m"
    "u \<noteq> t \<Longrightarrow> m' u = m u"
proof
  let ?m' = "m(t := if v then m t OR bit_mask n else m t AND NOT (bit_mask n))"
  show "os_atomic_set_bit_to asserts t n v m = Some ((), ?m')"
    using assms by (simp add: os_atomic_set_bit_to_def atomic_bit_call_def atomic_assert_def OS_ATOMIC_BITS_def os_arch_atomic_def)
  show "os_atomic_test_bit asserts t n ?m' = Some v"
    using assms by (simp add: os_atomic_test_bit_def atomic_assert_def OS_ATOMIC_BITS_def bit_mask_test bit_or_iff
        bit_and_iff bit_not_iff bit_mask_bit)
  show "os_atomic_test_bit asserts t k ?m' = os_atomic_test_bit asserts t k m" if "k < 32" "k \<noteq> n"
    using assms that by (simp add: os_atomic_test_bit_def atomic_assert_def OS_ATOMIC_BITS_def bit_mask_test bit_or_iff
        bit_and_iff bit_not_iff bit_mask_bit)
  show "?m' u = m u" if "u \<noteq> t" using that by simp
qed

end
