(* ===== verification/AtomicProps.thy ===== *)
theory AtomicProps
  imports Atomic
begin

text \<open>
  The property of the atomic operations.
\<close>

text \<open>A schedule: who moves at each step.\<close>

fun drive :: "(atomic_call \<Rightarrow> instr list) \<Rightarrow> nat list \<Rightarrow> machine \<Rightarrow> ((nat \<times> event) list \<times> machine) option" where
  "drive routine [] s = Some ([], s)"
| "drive routine (c # cs) s =
     (case threads s c of
        None \<Rightarrow> None
      | Some th \<Rightarrow>
          if length (routine (call th)) \<le> pc th
          then (case drive routine cs (s\<lparr>threads := (threads s)(c := None)\<rparr>) of
                  None \<Rightarrow> None
                | Some (es, s') \<Rightarrow> Some ((c, Return (result (call th) (rf th))) # es, s'))
          else (case exec c (routine (call th) ! pc th) th (mem s) of
                  None \<Rightarrow> None
                | Some (th', sh, evs) \<Rightarrow>
                    (case drive routine cs (s\<lparr>mem := sh, threads := (threads s)(c := Some th')\<rparr>) of
                       None \<Rightarrow> None
                     | Some (es, s') \<Rightarrow> Some (map (Pair c) evs @ es, s'))))"

lemma drive_run:
  assumes "atomic_run routine s0 tr s" "drive routine cs s = Some (es, s')"
  shows "atomic_run routine s0 (tr @ es) s'"
  using assms
proof (induction cs arbitrary: tr s es)
  case (Cons c cs)
  then obtain th where th: "threads s c = Some th" by (auto split: option.splits)
  show ?case
  proof (cases "length (routine (call th)) \<le> pc th")
    case True
    have "atomic_step routine s [(c, Return (result (call th) (rf th)))] (s\<lparr>threads := (threads s)(c := None)\<rparr>)"
      by (rule atomic_step.return [where th = th]) (use th True in simp_all)
    from Cons.IH [OF atomic_run.step [OF Cons.prems(1) this]] show ?thesis
      using Cons.prems(2) th True by (auto split: option.splits)
  next
    case False
    then obtain th' sh evs where e: "exec c (routine (call th) ! pc th) th (mem s) = Some (th', sh, evs)"
      using Cons.prems(2) th by (auto split: option.splits)
    have "atomic_step routine s (map (Pair c) evs) (s\<lparr>mem := sh, threads := (threads s)(c := Some th')\<rparr>)"
      by (rule atomic_step.run [where th = th]) (use th False e in simp_all)
    from Cons.IH [OF atomic_run.step [OF Cons.prems(1) this]] show ?thesis
      using Cons.prems(2) th False e by (auto split: option.splits)
  qed
qed simp

definition five :: machine where
  "five = \<lparr>mem = \<lparr>word = 5, reserved = (\<lambda>_. False), holder = None\<rparr>, threads = (\<lambda>_. None)\<rparr>"

definition entered :: "atomic_call \<Rightarrow> (reg \<Rightarrow> u32) \<Rightarrow> thread" where
  "entered a r = \<lparr>call = a, pc = 0, rf = r, zf = False\<rparr>"

text \<open>Two contexts add at the same time.\<close>

definition racing :: machine where
  "racing = five\<lparr>threads := (\<lambda>_. None)(0 := Some (entered (FetchAdd 1) ((\<lambda>_. 0)(Value := 1))),
     1 := Some (entered (FetchAdd 2) ((\<lambda>_. 0)(Value := 2))))\<rparr>"

lemma racing_run: "atomic_run routine five [(0, Begin (FetchAdd 1)), (1, Begin (FetchAdd 2))] racing"
proof -
  let ?r1 = "(\<lambda>_. 0)(Value := 1)" and ?r2 = "(\<lambda>_. 0)(Value := 2)"
  have a: "args_ok (FetchAdd 1) ?r1" "args_ok (FetchAdd 2) ?r2" by simp_all
  have t: "threads five 0 = None" by (simp add: five_def)
  have t2: "threads (five\<lparr>threads := (threads five)(0 := Some \<lparr>call = FetchAdd 1, pc = 0, rf = ?r1, zf = False\<rparr>)\<rparr>) 1 = None"
    by (simp add: five_def)
  from atomic_run.step [OF atomic_run.step [OF start begin_call [OF t a(1)]] begin_call [OF t2 a(2)]]
  show ?thesis by (simp add: racing_def entered_def five_def)
qed

text \<open>
  C33. Atomic operations are indivisible. In each of the three builds, however the cores, tasks and
  interrupts interleave instruction by instruction, the word changes only by whole operations one after
  another: each call that changes it does so in one write, between its begin and its answer, of the value
  that its operation makes of the value it finds, and answers with that value; a compare-and-swap that
  fails found another value during the call.
\<close>

theorem atomics_linearizable:
  assumes "atomic_run routine s0 tr s" "routine = arm_routine \<or> routine = rv_routine \<or> routine = masked_routine"
    and "threads s0 = (\<lambda>_. None)" "holder (mem s0) = None"
  shows "replay (word (mem s0)) tr = Some (word (mem s)) \<and> track_all Out (events_of c tr) \<noteq> None"
  using assms(2)
proof (elim disjE)
  assume r: "routine = arm_routine"
  show ?thesis by (rule arm.linearizable [OF assms(1) [unfolded r] assms(3,4)])
next
  assume r: "routine = rv_routine"
  show ?thesis by (rule rv.linearizable [OF assms(1) [unfolded r] assms(3,4)])
next
  assume r: "routine = masked_routine"
  show ?thesis by (rule masked.linearizable [OF assms(1) [unfolded r] assms(3,4)])
qed

text \<open>Context 1 reads first, loses its reservation to context 0's write, and adds on the second attempt.\<close>

theorem atomics_linearizable_witness:
  "\<exists>tr s. atomic_run arm_routine five tr s \<and> replay 5 tr = Some 8 \<and> (1, Return 6) \<in> set tr"
proof -
  define d where "d = drive arm_routine [1, 0, 0, 0, 1, 1, 1, 1, 1, 1, 1, 1, 1, 1] racing"
  have "case d of None \<Rightarrow> False | Some (es, s') \<Rightarrow> word (mem s') = 8 \<and> list_ex (\<lambda>x. x = (1, Return 6)) es"
    unfolding d_def by code_simp
  then obtain es s' where d: "drive arm_routine [1, 0, 0, 0, 1, 1, 1, 1, 1, 1, 1, 1, 1, 1] racing = Some (es, s')"
    "word (mem s') = 8" "(1, Return 6) \<in> set es"
    unfolding d_def [symmetric] by (cases d) (auto simp: list_ex_iff)
  note r = drive_run [OF racing_run d(1)]
  have "threads five = (\<lambda>_. None)" "holder (mem five) = None" "word (mem five) = 5" by (simp_all add: five_def)
  then show ?thesis using atomics_linearizable [OF r] r d(2,3) by (intro exI) auto
qed

end
