(* ===== verification/Frame.thy ===== *)
theory Frame
  imports TaskApi
begin

text \<open>
  The context switch of the ports: the frames that the switch handlers of
  \<^verbatim>\<open>arch/arm/common/os_arch_port_v6m.c\<close>, \<^verbatim>\<open>v7m\<close> and \<^verbatim>\<open>v8m\<close> and of \<^verbatim>\<open>arch/riscv/common/os_arch_port_rv32.c\<close> push
  and pop, instruction by instruction, and the first frame that \<^verbatim>\<open>os_arch_task_stack_initialize\<close> builds.
  On ARM the hardware stacks the caller-saved registers itself, above what the handler pushes; on RISC-V
  the handler saves everything. What a port promises is the locale \<open>context_port\<close>; that switching is invisible
  to the tasks is proved inside it, once for the four ports.
\<close>

section \<open>Words in stack memory\<close>

definition put_word :: "nat \<Rightarrow> u32 \<Rightarrow> stack_memory \<Rightarrow> stack_memory" where
  "put_word a w m = m(a := ucast w, a + 1 := ucast (drop_bit 8 w), a + 2 := ucast (drop_bit 16 w),
     a + 3 := ucast (drop_bit 24 w))"

definition word_at :: "nat \<Rightarrow> stack_memory \<Rightarrow> u32" where
  "word_at a m = ucast (m a) OR push_bit 8 (ucast (m (a + 1))) OR push_bit 16 (ucast (m (a + 2))) OR
     push_bit 24 (ucast (m (a + 3)))"

fun stores :: "nat \<Rightarrow> u32 list \<Rightarrow> stack_memory \<Rightarrow> stack_memory" where
  "stores a [] m = m"
| "stores a (w # ws) m = stores (a + 4) ws (put_word a w m)"

fun loads :: "nat \<Rightarrow> nat \<Rightarrow> stack_memory \<Rightarrow> u32 list" where
  "loads a 0 m = []"
| "loads a (Suc n) m = word_at a m # loads (a + 4) n m"

lemma put_word_outside: "b < a \<or> a + 4 \<le> b \<Longrightarrow> put_word a w m b = m b"
  by (auto simp: put_word_def)

lemma word_at_put: "word_at a (put_word a w m) = w"
proof (rule bit_word_eqI)
  fix n assume n: "n < LENGTH(32)"
  consider "n < 8" | "8 \<le> n" "n < 16" | "16 \<le> n" "n < 24" | "24 \<le> n" by linarith
  then show "bit (word_at a (put_word a w m)) n = bit w n"
    using n by cases (auto simp: word_at_def put_word_def bit_simps)
qed

lemma word_at_cong: "(\<And>b. a \<le> b \<Longrightarrow> b < a + 4 \<Longrightarrow> m' b = m b) \<Longrightarrow> word_at a m' = word_at a m"
  by (simp add: word_at_def)

lemma stores_outside: "b < a \<or> a + 4 * length ws \<le> b \<Longrightarrow> stores a ws m b = m b"
  by (induction a ws m rule: stores.induct) (auto simp: put_word_outside)

lemma loads_cong: "(\<And>b. a \<le> b \<Longrightarrow> b < a + 4 * n \<Longrightarrow> m' b = m b) \<Longrightarrow> loads a n m' = loads a n m"
proof (induction n arbitrary: a)
  case (Suc n)
  have "word_at a m' = word_at a m" by (rule word_at_cong) (use Suc.prems in simp)
  then show ?case using Suc.IH [of "a + 4"] Suc.prems by simp
qed simp

lemma loads_stores: "loads a (length ws) (stores a ws m) = ws"
proof (induction a ws m rule: stores.induct)
  case (2 a w ws m)
  have "word_at a (stores (a + 4) ws (put_word a w m)) = word_at a (put_word a w m)"
    by (rule word_at_cong) (simp add: stores_outside)
  then show ?case using 2 by (simp add: word_at_put)
qed simp

lemma length_loads [simp]: "length (loads a n m) = n"
  by (induction a n m rule: loads.induct) simp_all

lemma loads_append: "loads a (n + k) m = loads a n m @ loads (a + 4 * n) k m"
  by (induction a n m rule: loads.induct) (simp_all add: ac_simps)

section \<open>Registers, and the multiple loads and stores\<close>

text \<open>\<open>R\<close>, \<open>Lr\<close>, \<open>S\<close> and \<open>Psplim\<close> are ARM's; \<open>X\<close>, \<open>Mstatus\<close> and \<open>Mepc\<close> are RISC-V's.\<close>

datatype creg = R nat | Lr | S nat | Psplim | X nat | Mstatus | Mepc

type_synonym regs = "creg \<Rightarrow> u32"

fun set_regs :: "creg list \<Rightarrow> u32 list \<Rightarrow> regs \<Rightarrow> regs" where
  "set_regs (k # ks) (w # ws) r = set_regs ks ws (r(k := w))"
| "set_regs _ _ r = r"

definition stmdb :: "creg list \<Rightarrow> regs \<Rightarrow> nat \<Rightarrow> stack_memory \<Rightarrow> nat \<times> stack_memory" where
  "stmdb ks r sp m = (sp - 4 * length ks, stores (sp - 4 * length ks) (map r ks) m)"

definition stmia :: "creg list \<Rightarrow> regs \<Rightarrow> nat \<Rightarrow> stack_memory \<Rightarrow> nat \<times> stack_memory" where
  "stmia ks r p m = (p + 4 * length ks, stores p (map r ks) m)"

definition ldmia :: "creg list \<Rightarrow> nat \<Rightarrow> stack_memory \<Rightarrow> regs \<Rightarrow> nat \<times> regs" where
  "ldmia ks p m r = (p + 4 * length ks, set_regs ks (loads p (length ks) m) r)"

lemma set_regs_other: "k \<notin> set ks \<Longrightarrow> set_regs ks ws r k = r k"
  by (induction ks ws r rule: set_regs.induct) auto

lemma set_regs_map: "distinct ks \<Longrightarrow> k \<in> set ks \<Longrightarrow> set_regs ks (map f ks) r k = f k"
proof (induction ks arbitrary: r)
  case (Cons x ks)
  then show ?case by (cases "k = x") (auto simp: set_regs_other)
qed simp

section \<open>The switch handlers\<close>

text \<open>
  \<open>save\<close> is what the handler pushes before it calls \<^verbatim>\<open>os_task_stack_save_current\<close> with the stack pointer
  that results, \<open>restore\<close> what it pops from the one \<^verbatim>\<open>os_task_stack_select_next\<close> hands back; \<open>fp\<close> says
  whether the build has the floating-point context.
\<close>

definition arm_core :: "creg list" where
  "arm_core = [R 4, R 5, R 6, R 7, R 8, R 9, R 10, R 11]"

definition arm_fp :: "creg list" where
  "arm_fp = map S [16..<32]"

definition extended :: "bool \<Rightarrow> regs \<Rightarrow> bool" where
  "extended fp r \<longleftrightarrow> fp \<and> \<not> bit (r Lr) 4"

text \<open>ARMv7-M.\<close>

definition v7m_save :: "bool \<Rightarrow> regs \<Rightarrow> nat \<Rightarrow> stack_memory \<Rightarrow> nat \<times> stack_memory" where
  "v7m_save fp r psp m =
     (case (if extended fp r then stmdb arm_fp r psp m else (psp, m)) of
        (sp, m1) \<Rightarrow> stmdb (arm_core @ [Lr]) r sp m1)"

definition v7m_restore :: "bool \<Rightarrow> nat \<Rightarrow> stack_memory \<Rightarrow> regs \<Rightarrow> regs \<times> nat" where
  "v7m_restore fp sp m r =
     (case ldmia (arm_core @ [Lr]) sp m r of
        (sp1, r1) \<Rightarrow> (case (if extended fp r1 then ldmia arm_fp sp1 m r1 else (sp1, r1)) of (sp2, r2) \<Rightarrow> (r2, sp2)))"

text \<open>ARMv8-M mainline: the stack limit travels in \<open>r2\<close>.\<close>

definition v8m_save :: "bool \<Rightarrow> regs \<Rightarrow> nat \<Rightarrow> stack_memory \<Rightarrow> nat \<times> stack_memory" where
  "v8m_save fp r psp m =
     (case (if extended fp r then stmdb arm_fp r psp m else (psp, m)) of
        (sp, m1) \<Rightarrow> stmdb ([R 2] @ arm_core @ [Lr]) (r(R 2 := r Psplim)) sp m1)"

definition v8m_restore :: "bool \<Rightarrow> nat \<Rightarrow> stack_memory \<Rightarrow> regs \<Rightarrow> regs \<times> nat" where
  "v8m_restore fp sp m r =
     (case ldmia ([R 2] @ arm_core @ [Lr]) sp m r of
        (sp1, r1) \<Rightarrow>
          let r2 = r1(Psplim := r1 (R 2)) in
          (case (if extended fp r2 then ldmia arm_fp sp1 m r2 else (sp1, r2)) of (sp2, r3) \<Rightarrow> (r3, sp2)))"

text \<open>ARMv6-M and ARMv8-M baseline: only the low registers can be stored, so the high ones pass through them.\<close>

definition v6m_low :: "creg list" where
  "v6m_low = [R 4, R 5, R 6, R 7]"

definition v6m_save :: "regs \<Rightarrow> nat \<Rightarrow> stack_memory \<Rightarrow> nat \<times> stack_memory" where
  "v6m_save r psp m =
     (case stmia v6m_low r (psp - 36) m of
        (p1, m1) \<Rightarrow>
          let r1 = r(R 4 := r (R 8), R 5 := r (R 9), R 6 := r (R 10), R 7 := r (R 11)) in
          (case stmia v6m_low r1 p1 m1 of
             (p2, m2) \<Rightarrow>
               (case stmia [R 4] (r1(R 4 := r1 Lr)) p2 m2 of (p3, m3) \<Rightarrow> (p3 - 36, m3))))"

definition v6m_restore :: "nat \<Rightarrow> stack_memory \<Rightarrow> regs \<Rightarrow> regs \<times> nat" where
  "v6m_restore sp m r =
     (case ldmia v6m_low (sp + 16) m r of
        (p1, r1) \<Rightarrow>
          let r2 = r1(R 8 := r1 (R 4), R 9 := r1 (R 5), R 10 := r1 (R 6), R 11 := r1 (R 7)) in
          (case ldmia [R 2] p1 m r2 of
             (p2, r3) \<Rightarrow>
               let r4 = r3(Lr := r3 (R 2)) in
               (case ldmia v6m_low sp m r4 of (_, r5) \<Rightarrow> (r5, p2))))"

text \<open>RISC-V: every register in its slot of a 128-byte frame. \<open>X n\<close> is \<open>x\<close>\<open>n\<close>, so \<open>X 1\<close> is \<open>ra\<close> and \<open>X 10\<close> is \<open>a0\<close>.\<close>

definition rv_slots :: "(creg \<times> nat) list" where
  "rv_slots =
     [(X 1, 8), (X 5, 12), (X 6, 16), (X 7, 20), (X 8, 24), (X 9, 28), (X 10, 32), (X 11, 36), (X 12, 40),
      (X 13, 44), (X 14, 48), (X 15, 52), (X 16, 56), (X 17, 60), (X 18, 64), (X 19, 68), (X 20, 72), (X 21, 76),
      (X 22, 80), (X 23, 84), (X 24, 88), (X 25, 92), (X 26, 96), (X 27, 100), (X 28, 104), (X 29, 108),
      (X 30, 112), (X 31, 116)]"

definition rv_save :: "regs \<Rightarrow> nat \<Rightarrow> stack_memory \<Rightarrow> nat \<times> stack_memory" where
  "rv_save r sp m =
     (let sp' = sp - 128;
          m1 = fold (\<lambda>(k, off) m. put_word (sp' + off) (r k) m) rv_slots m;
          r1 = r(X 5 := r Mstatus, X 6 := r Mepc);
          m2 = put_word sp' (r1 (X 5)) m1;
          m3 = put_word (sp' + 4) (r1 (X 6)) m2
      in (sp', m3))"

definition rv_restore :: "nat \<Rightarrow> stack_memory \<Rightarrow> regs \<Rightarrow> regs \<times> nat" where
  "rv_restore sp m r =
     (let r1 = r(X 5 := word_at sp m, X 6 := word_at (sp + 4) m);
          r2 = r1(Mstatus := r1 (X 5), Mepc := r1 (X 6));
          r3 = fold (\<lambda>(k, off) r. r(k := word_at (sp + off) m)) rv_slots r2
      in (r3, sp + 128))"

section \<open>The contract of a port, and transparency\<close>

record context_ops =
  ctx_save :: "regs \<Rightarrow> nat \<Rightarrow> stack_memory \<Rightarrow> nat \<times> stack_memory"
  ctx_restore :: "nat \<Rightarrow> stack_memory \<Rightarrow> regs \<Rightarrow> regs \<times> nat"
  ctx_kept :: "regs \<Rightarrow> creg list"
  ctx_frame :: "regs \<Rightarrow> nat"

record core_context =
  running :: nat
  cregs :: regs
  csp :: nat
  cmem :: stack_memory
  saved_sp :: "nat \<Rightarrow> nat"

text \<open>
  Tasks share one core. The running task changes its registers and its own stack as it likes; at a switch
  its context is saved and another task's restored, whatever the scheduler's code left in the registers
  in between. \<open>ctx\<close> records the registers and stack pointer every suspended task was left with.
\<close>

inductive switching ::
  "context_ops \<Rightarrow> (nat \<Rightarrow> nat) \<Rightarrow> (nat \<Rightarrow> nat) \<Rightarrow> core_context \<Rightarrow> (nat \<Rightarrow> (regs \<times> nat) option) \<Rightarrow> bool"
  for p lo hi where
  boot: "switching p lo hi s (\<lambda>_. None)"
| runs: "switching p lo hi s ctx \<Longrightarrow> (\<And>a. a < lo (running s) \<or> hi (running s) \<le> a \<Longrightarrow> m a = cmem s a) \<Longrightarrow>
    switching p lo hi (s\<lparr>cregs := r, csp := sp, cmem := m\<rparr>) ctx"
| switch: "switching p lo hi s ctx \<Longrightarrow> lo (running s) + ctx_frame p (cregs s) \<le> csp s \<Longrightarrow> csp s \<le> hi (running s) \<Longrightarrow>
    ctx_save p (cregs s) (csp s) (cmem s) = (sp, m) \<Longrightarrow> u \<noteq> running s \<Longrightarrow>
    ctx_restore p (saved_sp s u) m r = (r', sp') \<Longrightarrow>
    switching p lo hi
      \<lparr>running = u, cregs = r', csp = sp', cmem = m, saved_sp = (saved_sp s)(running s := sp)\<rparr>
      (ctx(running s := Some (cregs s, csp s), u := None))"

locale context_port =
  fixes p :: context_ops
  assumes save_frame: "ctx_frame p r \<le> sp \<Longrightarrow> ctx_save p r sp m = (sp', m') \<Longrightarrow>
      sp' + ctx_frame p r = sp \<and> (\<forall>a. a < sp' \<or> sp \<le> a \<longrightarrow> m' a = m a)"
    and restore_saved: "ctx_frame p r \<le> sp \<Longrightarrow> ctx_save p r sp m = (sp', m') \<Longrightarrow>
      (\<forall>a. sp' \<le> a \<and> a < sp \<longrightarrow> m'' a = m' a) \<Longrightarrow> ctx_restore p sp' m'' r2 = (r3, sp2) \<Longrightarrow>
      sp2 = sp \<and> (\<forall>k \<in> set (ctx_kept p r). r3 k = r k)"
begin

text \<open>A suspended task's frame is intact, inside its own stack.\<close>

definition parked :: "(nat \<Rightarrow> nat) \<Rightarrow> (nat \<Rightarrow> nat) \<Rightarrow> core_context \<Rightarrow> nat \<Rightarrow> regs \<Rightarrow> nat \<Rightarrow> bool" where
  "parked lo hi s u r sp \<longleftrightarrow> u \<noteq> running s \<and> lo u \<le> saved_sp s u \<and> sp \<le> hi u \<and> ctx_frame p r \<le> sp \<and>
     (\<exists>m0 m1. ctx_save p r sp m0 = (saved_sp s u, m1) \<and> (\<forall>a. saved_sp s u \<le> a \<and> a < sp \<longrightarrow> cmem s a = m1 a))"

lemma parked_inv:
  assumes "switching p lo hi s ctx" and apart: "\<And>t u. t \<noteq> u \<Longrightarrow> hi t \<le> lo u \<or> hi u \<le> lo t"
  shows "ctx u = Some (r, sp) \<Longrightarrow> parked lo hi s u r sp"
  using assms(1)
proof (induction arbitrary: u r sp rule: switching.induct)
  case (runs s ctx m r0 sp0)
  from runs.IH [OF runs.prems] have p: "parked lo hi s u r sp" .
  then have "u \<noteq> running s" by (simp add: parked_def)
  note a = apart [OF this]
  have "m a = cmem s a" if "lo u \<le> a" "a < hi u" for a using runs.hyps(2) that a by fastforce
  then show ?case using p by (fastforce simp: parked_def)
next
  case (switch s ctx sp1 m v r0 r' sp')
  let ?t = "running s"
  have f: "sp1 + ctx_frame p (cregs s) = csp s" "\<forall>a. a < sp1 \<or> csp s \<le> a \<longrightarrow> m a = cmem s a"
    using save_frame [OF _ switch.hyps(4)] switch.hyps(2) by auto
  show ?case
  proof (cases "u = ?t")
    case True
    then have "r = cregs s" "sp = csp s" using switch.prems switch.hyps(5) by simp_all
    then show ?thesis using True f switch.hyps by (auto simp: parked_def)
  next
    case False
    have "ctx u = Some (r, sp)" "u \<noteq> v" using switch.prems False by (auto split: if_splits)
    then have p: "parked lo hi s u r sp" using switch.IH by blast
    have "m a = cmem s a" if "lo u \<le> a" "a < hi u" for a
      using f apart [OF False] switch.hyps(2,3) that by fastforce
    then show ?thesis using p False \<open>u \<noteq> v\<close> by (fastforce simp: parked_def)
  qed
qed simp

lemma resumes:
  assumes "switching p lo hi s ctx" "\<And>t u. t \<noteq> u \<Longrightarrow> hi t \<le> lo u \<or> hi u \<le> lo t"
    and "ctx u = Some (r, sp)" "ctx_restore p (saved_sp s u) (cmem s) r0 = (r', sp')"
  shows "sp' = sp \<and> (\<forall>k \<in> set (ctx_kept p r). r' k = r k)"
proof -
  obtain m0 m1 where "ctx_frame p r \<le> sp" "ctx_save p r sp m0 = (saved_sp s u, m1)"
    "\<forall>a. saved_sp s u \<le> a \<and> a < sp \<longrightarrow> cmem s a = m1 a"
    using parked_inv [OF assms(1,2,3)] by (auto simp: parked_def)
  then show ?thesis using restore_saved assms(4) by blast
qed

end

section \<open>The four ports keep it\<close>

lemma ldmia_stored:
  assumes "distinct ks" "\<And>a. p \<le> a \<Longrightarrow> a < p + 4 * length ks \<Longrightarrow> m'' a = stores p (map r ks) m a"
  shows "ldmia ks p m'' r2 = (p + 4 * length ks, set_regs ks (map r ks) r2)"
proof -
  have "loads p (length ks) m'' = loads p (length ks) (stores p (map r ks) m)"
    by (rule loads_cong) (rule assms(2))
  then show ?thesis using loads_stores [of p "map r ks" m] by (simp add: ldmia_def)
qed

lemma arm_lists: "length arm_core = 8" "length arm_fp = 16" "distinct arm_core" "distinct arm_fp"
  "R 2 \<notin> set arm_core" "Lr \<notin> set arm_core" "Lr \<notin> set arm_fp" "Psplim \<notin> set arm_core" "Psplim \<notin> set arm_fp"
  "set arm_core \<inter> set arm_fp = {}"
  by (auto simp: arm_core_def arm_fp_def distinct_map inj_on_def)

definition port_v7m :: "bool \<Rightarrow> context_ops" where
  "port_v7m fp = \<lparr>ctx_save = v7m_save fp, ctx_restore = v7m_restore fp,
     ctx_kept = (\<lambda>r. arm_core @ [Lr] @ (if extended fp r then arm_fp else [])),
     ctx_frame = (\<lambda>r. if extended fp r then 100 else 36)\<rparr>"

definition port_v8m :: "bool \<Rightarrow> context_ops" where
  "port_v8m fp = \<lparr>ctx_save = v8m_save fp, ctx_restore = v8m_restore fp,
     ctx_kept = (\<lambda>r. [Psplim] @ arm_core @ [Lr] @ (if extended fp r then arm_fp else [])),
     ctx_frame = (\<lambda>r. if extended fp r then 104 else 40)\<rparr>"

definition port_v6m :: context_ops where
  "port_v6m = \<lparr>ctx_save = v6m_save, ctx_restore = v6m_restore, ctx_kept = (\<lambda>r. arm_core @ [Lr]),
     ctx_frame = (\<lambda>r. 36)\<rparr>"

definition port_rv32 :: context_ops where
  "port_rv32 = \<lparr>ctx_save = rv_save, ctx_restore = rv_restore,
     ctx_kept = (\<lambda>r. [Mstatus, Mepc] @ map fst rv_slots), ctx_frame = (\<lambda>r. 128)\<rparr>"

text \<open>Two blocks, one below the other: the floating-point registers and the core registers.\<close>

lemma two_blocks:
  assumes ks: "distinct ks" "distinct fs" and sp: "4 * length ks + 4 * length fs \<le> sp"
    and m': "m' = stores (sp - 4 * length fs - 4 * length ks) (map r ks) (stores (sp - 4 * length fs) (map f fs) m)"
  shows "a < sp - 4 * length fs - 4 * length ks \<or> sp \<le> a \<Longrightarrow> m' a = m a"
    and "(\<And>a. sp - 4 * length fs - 4 * length ks \<le> a \<Longrightarrow> a < sp \<Longrightarrow> m'' a = m' a) \<Longrightarrow>
      ldmia ks (sp - 4 * length fs - 4 * length ks) m'' r2 = (sp - 4 * length fs, set_regs ks (map r ks) r2) \<and>
      ldmia fs (sp - 4 * length fs) m'' r3 = (sp, set_regs fs (map f fs) r3)"
proof -
  show "m' a = m a" if "a < sp - 4 * length fs - 4 * length ks \<or> sp \<le> a"
  proof -
    have "a < sp - 4 * length fs \<or> sp - 4 * length fs + 4 * length (map f fs) \<le> a"
      "a < sp - 4 * length fs - 4 * length ks \<or> sp - 4 * length fs - 4 * length ks + 4 * length (map r ks) \<le> a"
      using that sp by (simp_all, linarith+)
    then show ?thesis unfolding m' by (simp only: stores_outside)
  qed
  assume eq: "\<And>a. sp - 4 * length fs - 4 * length ks \<le> a \<Longrightarrow> a < sp \<Longrightarrow> m'' a = m' a"
  have "ldmia ks (sp - 4 * length fs - 4 * length ks) m'' r2 =
      (sp - 4 * length fs - 4 * length ks + 4 * length ks, set_regs ks (map r ks) r2)"
    by (rule ldmia_stored [OF ks(1)]) (use eq sp in \<open>simp add: m'\<close>)
  moreover have "ldmia fs (sp - 4 * length fs) m'' r3 = (sp - 4 * length fs + 4 * length fs, set_regs fs (map f fs) r3)"
    by (rule ldmia_stored [OF ks(2)]) (use eq sp in \<open>simp add: m' stores_outside\<close>)
  ultimately show "ldmia ks (sp - 4 * length fs - 4 * length ks) m'' r2 = (sp - 4 * length fs, set_regs ks (map r ks) r2) \<and>
      ldmia fs (sp - 4 * length fs) m'' r3 = (sp, set_regs fs (map f fs) r3)" using sp by simp
qed

lemma ext_frame: "(if extended fp r then stmdb arm_fp r sp m else (sp, m)) =
    (sp - 4 * length (if extended fp r then arm_fp else []),
     stores (sp - 4 * length (if extended fp r then arm_fp else [])) (map r (if extended fp r then arm_fp else [])) m)"
  by (simp add: stmdb_def)

lemma ext_load: "(if extended fp r then ldmia arm_fp sp m r1 else (sp, r1)) =
    ldmia (if extended fp r then arm_fp else []) sp m r1"
  by (simp add: ldmia_def)

interpretation v7m: context_port "port_v7m fp" for fp
proof
  fix r :: regs and sp :: nat and m sp' m'
  assume a: "ctx_frame (port_v7m fp) r \<le> sp" "ctx_save (port_v7m fp) r sp m = (sp', m')"
  let ?fs = "if extended fp r then arm_fp else []" and ?ks = "arm_core @ [Lr]"
  have l: "distinct ?ks" "distinct ?fs" "4 * length ?ks + 4 * length ?fs \<le> sp"
    and s: "sp' = sp - 4 * length ?fs - 4 * length ?ks"
      "m' = stores (sp - 4 * length ?fs - 4 * length ?ks) (map r ?ks) (stores (sp - 4 * length ?fs) (map r ?fs) m)"
    using a arm_lists by (auto simp: port_v7m_def v7m_save_def ext_frame stmdb_def split: if_splits)
  note tb = two_blocks [OF l s(2)]
  show "sp' + ctx_frame (port_v7m fp) r = sp \<and> (\<forall>a. a < sp' \<or> sp \<le> a \<longrightarrow> m' a = m a)"
    using tb(1) l(3) s(1) arm_lists by (auto simp: port_v7m_def)
  fix m'' r2 r3 sp2
  assume b: "\<forall>a. sp' \<le> a \<and> a < sp \<longrightarrow> m'' a = m' a" "ctx_restore (port_v7m fp) sp' m'' r2 = (r3, sp2)"
  define r1 where "r1 = set_regs ?ks (map r ?ks) r2"
  have "r1 Lr = r Lr" unfolding r1_def using l(1) by (intro set_regs_map) simp_all
  then have e: "extended fp r1 = extended fp r" by (simp add: extended_def)
  have ld: "ldmia ?ks sp' m'' r2 = (sp - 4 * length ?fs, r1)"
    "ldmia ?fs (sp - 4 * length ?fs) m'' r1 = (sp, set_regs ?fs (map r ?fs) r1)"
    unfolding s(1) r1_def using tb(2) b(1) s(1) by auto
  have "ctx_restore (port_v7m fp) sp' m'' r2 = (set_regs ?fs (map r ?fs) r1, sp)"
    unfolding port_v7m_def by (simp only: context_ops.simps v7m_restore_def ld(1) prod.case ext_load e ld(2))
  then have q: "sp2 = sp" "r3 = set_regs ?fs (map r ?fs) r1" using b(2) by simp_all
  have "r3 k = r k" if "k \<in> set ?ks \<union> set ?fs" for k
    using that l set_regs_map [of ?fs k r r1] set_regs_map [of ?ks k r r2] set_regs_other [of k ?fs]
    unfolding q(2) r1_def by (cases "k \<in> set ?fs") auto
  then show "sp2 = sp \<and> (\<forall>k \<in> set (ctx_kept (port_v7m fp) r). r3 k = r k)" using q(1) by (auto simp: port_v7m_def)
qed

interpretation v8m: context_port "port_v8m fp" for fp
proof
  fix r :: regs and sp :: nat and m sp' m'
  assume a: "ctx_frame (port_v8m fp) r \<le> sp" "ctx_save (port_v8m fp) r sp m = (sp', m')"
  let ?fs = "if extended fp r then arm_fp else []" and ?ks = "[R 2] @ arm_core @ [Lr]" and ?q = "r(R 2 := r Psplim)"
  have l: "distinct ?ks" "distinct ?fs" "4 * length ?ks + 4 * length ?fs \<le> sp"
    and s: "sp' = sp - 4 * length ?fs - 4 * length ?ks"
      "m' = stores (sp - 4 * length ?fs - 4 * length ?ks) (map ?q ?ks) (stores (sp - 4 * length ?fs) (map r ?fs) m)"
    using a arm_lists by (auto simp: port_v8m_def v8m_save_def ext_frame stmdb_def split: if_splits)
  note tb = two_blocks [OF l s(2)]
  show "sp' + ctx_frame (port_v8m fp) r = sp \<and> (\<forall>a. a < sp' \<or> sp \<le> a \<longrightarrow> m' a = m a)"
    using tb(1) l(3) s(1) arm_lists by (auto simp: port_v8m_def)
  fix m'' r2 r3 sp2
  assume b: "\<forall>a. sp' \<le> a \<and> a < sp \<longrightarrow> m'' a = m' a" "ctx_restore (port_v8m fp) sp' m'' r2 = (r3, sp2)"
  define r1 where "r1 = set_regs ?ks (map ?q ?ks) r2"
  define r1' where "r1' = r1(Psplim := r1 (R 2))"
  have r1: "r1 k = ?q k" if "k \<in> set ?ks" for k unfolding r1_def by (rule set_regs_map [OF l(1) that])
  have "r1' Lr = r Lr" using r1 [of Lr] by (simp add: r1'_def)
  then have e: "extended fp r1' = extended fp r" by (simp add: extended_def)
  have ld: "ldmia ?ks sp' m'' r2 = (sp - 4 * length ?fs, r1)"
    "ldmia ?fs (sp - 4 * length ?fs) m'' r1' = (sp, set_regs ?fs (map r ?fs) r1')"
    unfolding s(1) r1_def using tb(2) b(1) s(1) by auto
  have "ctx_restore (port_v8m fp) sp' m'' r2 = (set_regs ?fs (map r ?fs) r1', sp)"
    unfolding port_v8m_def
    by (simp only: context_ops.simps v8m_restore_def ld(1) prod.case Let_def r1'_def [symmetric] ext_load e ld(2))
  then have q: "sp2 = sp" "r3 = set_regs ?fs (map r ?fs) r1'" using b(2) by simp_all
  have "r3 k = r k" if "k \<in> set arm_core \<union> {Psplim, Lr} \<union> set ?fs" for k
  proof (cases "k \<in> set ?fs")
    case True
    then show ?thesis unfolding q(2) by (rule set_regs_map [OF l(2)])
  next
    case False
    then have "r3 k = r1' k" unfolding q(2) by (rule set_regs_other)
    also have "\<dots> = r k" using that False r1 [of k] r1 [of "R 2"] arm_lists(5,8) by (auto simp: r1'_def)
    finally show ?thesis .
  qed
  then show "sp2 = sp \<and> (\<forall>k \<in> set (ctx_kept (port_v8m fp) r). r3 k = r k)" using q(1) by (auto simp: port_v8m_def)
qed

text \<open>ARMv6-M: three stores that together fill the frame, read back in another order.\<close>

lemma v6m_layout:
  assumes "36 \<le> sp" "v6m_save r sp m = (sp', m')"
  shows "sp' = sp - 36" "m' = stores (sp - 36) (map r (arm_core @ [Lr])) m"
proof -
  have "sp - 36 + 36 - 36 = sp - 36" by simp
  moreover have "4 + (4 + (4 + (4 + (sp - 36)))) = sp - 20" "sp - 20 + 16 = sp - 4" using assms(1) by simp_all
  ultimately show "sp' = sp - 36" "m' = stores (sp - 36) (map r (arm_core @ [Lr])) m"
    using assms(2) by (auto simp: v6m_save_def stmia_def v6m_low_def arm_core_def Let_def add.assoc)
qed

lemma v6m_pop:
  assumes "loads sp 9 m = ws"
  shows "v6m_restore sp m r =
    (set_regs (arm_core @ [Lr]) ws (r(R 2 := ws ! 8)), sp + 36)"
proof -
  have "loads sp 9 m = loads sp 4 m @ loads (sp + 16) 4 m @ loads (sp + 32) 1 m"
    using loads_append [of sp 4 5 m] loads_append [of "sp + 16" 4 1 m] by (simp add: add.commute [of 32])
  then show ?thesis using assms
    by (auto simp: v6m_restore_def ldmia_def v6m_low_def arm_core_def Let_def numeral_eq_Suc fun_upd_twist)
qed

interpretation v6m: context_port port_v6m
proof
  fix r :: regs and sp :: nat and m sp' m'
  assume a: "ctx_frame port_v6m r \<le> sp" "ctx_save port_v6m r sp m = (sp', m')"
  let ?ks = "arm_core @ [Lr]"
  have sp: "36 \<le> sp" using a(1) by (simp add: port_v6m_def)
  have s: "sp' = sp - 36" "m' = stores (sp - 36) (map r ?ks) m"
    using v6m_layout [OF sp] a(2) by (auto simp: port_v6m_def)
  have n: "length (map r ?ks) = 9" using arm_lists by simp
  show "sp' + ctx_frame port_v6m r = sp \<and> (\<forall>a. a < sp' \<or> sp \<le> a \<longrightarrow> m' a = m a)"
    using sp s n stores_outside [of _ "sp - 36" "map r ?ks" m] by (auto simp: port_v6m_def simp del: map_append)
  fix m'' r2 r3 sp2
  assume b: "\<forall>a. sp' \<le> a \<and> a < sp \<longrightarrow> m'' a = m' a" "ctx_restore port_v6m sp' m'' r2 = (r3, sp2)"
  have "loads sp' 9 m'' = loads sp' 9 m'" by (rule loads_cong) (use b(1) s(1) sp in auto)
  also have "\<dots> = map r ?ks" using loads_stores [of sp' "map r ?ks" m] by (simp only: s n)
  finally have w: "loads sp' 9 m'' = map r ?ks" .
  have q: "sp2 = sp" "r3 = set_regs ?ks (map r ?ks) (r2(R 2 := map r ?ks ! 8))"
    using v6m_pop [OF w, of r2] b(2) s(1) sp by (simp_all add: port_v6m_def)
  then show "sp2 = sp \<and> (\<forall>k \<in> set (ctx_kept port_v6m r). r3 k = r k)"
    using set_regs_map [of ?ks _ r] arm_lists by (auto simp: port_v6m_def)
qed

text \<open>RISC-V: the slots are the words of the frame above its two status words.\<close>

definition rv_regs :: "creg list" where
  "rv_regs = map fst rv_slots"

lemma rv_regs_facts: "length rv_regs = 28" "distinct rv_regs" "Mstatus \<notin> set rv_regs" "Mepc \<notin> set rv_regs"
  by (simp_all add: rv_regs_def rv_slots_def)

lemma rv_slots_store:
  "fold (\<lambda>(k, off) m. put_word (p + off) (r k) m) rv_slots m = stores (p + 8) (map r rv_regs) m"
  by (simp add: rv_regs_def rv_slots_def ac_simps)

lemma loads_numeral: "loads a (numeral n) m = word_at a m # loads (a + 4) (pred_numeral n) m"
  by (simp add: numeral_eq_Suc)

lemma rv_slots_load:
  "fold (\<lambda>(k, off) r. r(k := word_at (p + off) m)) rv_slots r = set_regs rv_regs (loads (p + 8) 28 m) r"
  by (simp add: rv_regs_def rv_slots_def loads_numeral ac_simps)

lemma word_at_put_other: "b + 4 \<le> a \<or> a + 4 \<le> b \<Longrightarrow> word_at b (put_word a w m) = word_at b m"
  by (rule word_at_cong) (auto simp: put_word_outside)

lemma rv_layout:
  assumes "rv_save r sp m = (sp', m')"
  shows "sp' = sp - 128" "loads (sp' + 8) 28 m' = map r rv_regs" "word_at sp' m' = r Mstatus" "word_at (sp' + 4) m' = r Mepc"
    "b < sp' \<or> sp' + 128 \<le> b \<Longrightarrow> m' b = m b"
proof -
  let ?m1 = "stores (sp' + 8) (map r rv_regs) m"
  have s: "sp' = sp - 128" "m' = put_word (sp' + 4) (r Mepc) (put_word sp' (r Mstatus) ?m1)"
    using assms by (auto simp: rv_save_def rv_slots_store Let_def)
  have n: "length (map r rv_regs) = 28" using rv_regs_facts by simp
  show "sp' = sp - 128" by (rule s(1))
  have "loads (sp' + 8) 28 m' = loads (sp' + 8) 28 ?m1"
    by (rule loads_cong) (simp add: s(2) put_word_outside)
  then show "loads (sp' + 8) 28 m' = map r rv_regs" using loads_stores [of "sp' + 8" "map r rv_regs" m] n by simp
  show "word_at sp' m' = r Mstatus" "word_at (sp' + 4) m' = r Mepc"
    by (simp_all add: s(2) word_at_put word_at_put_other)
  show "b < sp' \<or> sp' + 128 \<le> b \<Longrightarrow> m' b = m b"
    using n stores_outside [of b "sp' + 8" "map r rv_regs" m] by (auto simp: s(2) put_word_outside)
qed

interpretation rv32: context_port port_rv32
proof
  fix r :: regs and sp :: nat and m sp' m'
  assume a: "ctx_frame port_rv32 r \<le> sp" "ctx_save port_rv32 r sp m = (sp', m')"
  have s: "rv_save r sp m = (sp', m')" and sp: "128 \<le> sp" using a by (simp_all add: port_rv32_def)
  note l = rv_layout [OF s]
  show "sp' + ctx_frame port_rv32 r = sp \<and> (\<forall>a. a < sp' \<or> sp \<le> a \<longrightarrow> m' a = m a)"
    using l(1,5) sp by (auto simp: port_rv32_def)
  fix m'' r2 r3 sp2
  assume b: "\<forall>a. sp' \<le> a \<and> a < sp \<longrightarrow> m'' a = m' a" "ctx_restore port_rv32 sp' m'' r2 = (r3, sp2)"
  have eq: "m'' b = m' b" if "sp' \<le> b" "b < sp' + 128" for b using b(1) l(1) sp that by simp
  have "loads (sp' + 8) 28 m'' = loads (sp' + 8) 28 m'" by (rule loads_cong) (use eq in simp)
  moreover have "word_at sp' m'' = word_at sp' m'" by (rule word_at_cong) (use eq in simp)
  moreover have "word_at (sp' + 4) m'' = word_at (sp' + 4) m'" by (rule word_at_cong) (use eq in simp)
  ultimately have w: "loads (sp' + 8) 28 m'' = map r rv_regs" "word_at sp' m'' = r Mstatus" "word_at (sp' + 4) m'' = r Mepc"
    using l(2,3,4) by simp_all
  have "sp2 = sp' + 128" "r3 = set_regs rv_regs (map r rv_regs)
      (r2(X 5 := r Mstatus, X 6 := r Mepc, Mstatus := r Mstatus, Mepc := r Mepc))"
    using b(2) by (auto simp: port_rv32_def rv_restore_def rv_slots_load w Let_def)
  then show "sp2 = sp \<and> (\<forall>k \<in> set (ctx_kept port_rv32 r). r3 k = r k)"
    using set_regs_map [OF rv_regs_facts(2)] set_regs_other rv_regs_facts(3,4) l(1) sp
    by (auto simp: port_rv32_def rv_regs_def [symmetric])
qed

section \<open>The first frame\<close>

definition push :: "u32 \<Rightarrow> nat \<times> stack_memory \<Rightarrow> nat \<times> stack_memory" where
  "push w = (\<lambda>(p, m). (p - 4, put_word (p - 4) w m))"

definition OS_ARCH_XPSR_THUMB :: u32 where "OS_ARCH_XPSR_THUMB = push_bit 24 1"

text \<open>The three ARM ports start alike: the words the exception return takes, then those the handler pops.\<close>

definition arm_first_frame :: "u32 \<Rightarrow> u32 \<Rightarrow> nat \<Rightarrow> nat \<Rightarrow> nat \<Rightarrow> nat \<Rightarrow> stack_memory \<Rightarrow> nat \<times> stack_memory" where
  "arm_first_frame exc_return exit_trap base bytes entry context m =
     fold push
       ([OS_ARCH_XPSR_THUMB, word_of_nat entry, exit_trap, 0, 0, 0, 0, word_of_nat context] @ [exc_return] @ replicate 8 0)
       (base + bytes - (base + bytes) mod 8, m)"

definition v7m_stack_initialize ::
  "nat \<Rightarrow> u32 \<Rightarrow> u32 \<Rightarrow> nat \<Rightarrow> nat \<Rightarrow> nat \<Rightarrow> nat \<Rightarrow> stack_memory \<Rightarrow> nat option \<times> stack_memory" where
  "v7m_stack_initialize min_size exc_return exit_trap base bytes entry context m =
     (if base \<noteq> 0 \<and> entry \<noteq> 0 \<and> min_size \<le> bytes
      then (case arm_first_frame exc_return exit_trap base bytes entry context m of (p, m') \<Rightarrow> (Some p, m'))
      else (None, m))"

definition v6m_stack_initialize ::
  "nat \<Rightarrow> u32 \<Rightarrow> u32 \<Rightarrow> nat \<Rightarrow> nat \<Rightarrow> nat \<Rightarrow> nat \<Rightarrow> stack_memory \<Rightarrow> nat option \<times> stack_memory" where
  "v6m_stack_initialize min_size exc_return exit_trap base bytes entry context m =
     (if base \<noteq> 0 \<and> entry \<noteq> 0 \<and> min_size \<le> bytes
      then (case arm_first_frame exc_return exit_trap base bytes entry context m of (p, m') \<Rightarrow> (Some p, m'))
      else (None, m))"

definition v8m_stack_initialize ::
  "nat \<Rightarrow> u32 \<Rightarrow> u32 \<Rightarrow> nat \<Rightarrow> nat \<Rightarrow> nat \<Rightarrow> nat \<Rightarrow> stack_memory \<Rightarrow> nat option \<times> stack_memory" where
  "v8m_stack_initialize min_size exc_return exit_trap base bytes entry context m =
     (if base \<noteq> 0 \<and> entry \<noteq> 0 \<and> min_size \<le> bytes
      then (case push ((word_of_nat base + 7) AND NOT 7) (arm_first_frame exc_return exit_trap base bytes entry context m) of
              (p, m') \<Rightarrow> (Some p, m'))
      else (None, m))"

definition OS_ARCH_MSTATUS_MPIE_MSK :: u32 where "OS_ARCH_MSTATUS_MPIE_MSK = push_bit 7 1"
definition OS_ARCH_MSTATUS_MPP_M :: u32 where "OS_ARCH_MSTATUS_MPP_M = push_bit 11 3"

definition rv32_stack_initialize ::
  "u32 \<Rightarrow> nat \<Rightarrow> nat \<Rightarrow> nat \<Rightarrow> nat \<Rightarrow> stack_memory \<Rightarrow> nat option \<times> stack_memory" where
  "rv32_stack_initialize exit_trap base bytes entry context m =
     (let t = base + bytes - (base + bytes) mod 16;
          frame = t - 128;
          m1 = fold (\<lambda>i m. put_word (frame + 4 * i) 0 m) [0..<32] m;
          m2 = put_word (frame + 4 * 0) (OS_ARCH_MSTATUS_MPIE_MSK OR OS_ARCH_MSTATUS_MPP_M) m1;
          m3 = put_word (frame + 4 * 1) (word_of_nat entry) m2;
          m4 = put_word (frame + 4 * 8) (word_of_nat context) m3;
          m5 = put_word (frame + 4 * 2) exit_trap m4
      in (Some frame, m5))"

lemma push_pair: "push w (p, m) = (p - 4, put_word (p - 4) w m)"
  by (simp add: push_def)

lemma pushes:
  assumes "fold push ws (p, m) = (p', m')" "4 * length ws \<le> p"
  shows "p' = p - 4 * length ws" "loads p' (length ws) m' = rev ws" "a < p' \<or> p \<le> a \<Longrightarrow> m' a = m a"
proof -
  have "p' = p - 4 * length ws \<and> loads p' (length ws) m' = rev ws \<and> (\<forall>a. a < p' \<or> p \<le> a \<longrightarrow> m' a = m a)"
    using assms
  proof (induction ws arbitrary: p' m' rule: rev_induct)
    case (snoc w ws)
    obtain q n where f: "fold push ws (p, m) = (q, n)" by fastforce
    have l: "4 * length ws + 4 \<le> p" using snoc.prems(2) by simp
    then have i: "q = p - 4 * length ws" "loads q (length ws) n = rev ws" "\<forall>a. a < q \<or> p \<le> a \<longrightarrow> n a = m a"
      using snoc.IH [OF f] by auto
    have r: "p' = q - 4" "m' = put_word (q - 4) w n" using snoc.prems(1) f by (auto simp: push_pair)
    have q: "4 \<le> q" using i(1) l by simp
    have "loads q (length ws) m' = loads q (length ws) n" by (rule loads_cong) (use q in \<open>simp add: r put_word_outside\<close>)
    moreover have "put_word (q - 4) w n a = m a" if "a < q - 4 \<or> p \<le> a" for a
    proof -
      have "a < q - 4 \<or> q - 4 + 4 \<le> a" "a < q \<or> p \<le> a" using that i(1) q l by (simp_all, linarith+)
      then show ?thesis using i(3) by (simp only: put_word_outside)
    qed
    ultimately show ?case using i(1,2) q by (simp add: r word_at_put)
  qed simp
  then show "p' = p - 4 * length ws" "loads p' (length ws) m' = rev ws" "a < p' \<or> p \<le> a \<Longrightarrow> m' a = m a" by auto
qed

lemma rounded: "(c - c mod n) mod n = (0 :: nat)"
  by (simp add: minus_mod_eq_mult_div)

lemma arm_first_frame_words:
  assumes "arm_first_frame exc trap base bytes entry context m = (sp, m')" "76 \<le> bytes"
  shows "sp = base + bytes - (base + bytes) mod 8 - 68" "base \<le> sp"
    "loads sp 9 m' = replicate 8 0 @ [exc]"
    "loads (sp + 36) 8 m' = [word_of_nat context, 0, 0, 0, 0, trap, word_of_nat entry, OS_ARCH_XPSR_THUMB]"
proof -
  let ?t = "base + bytes - (base + bytes) mod 8"
  let ?ws = "[OS_ARCH_XPSR_THUMB, word_of_nat entry, trap, 0, 0, 0, 0, word_of_nat context] @ [exc] @ replicate 8 0"
  have n: "length ?ws = 17" by simp
  have "(base + bytes) mod 8 < 8" by simp
  then have t: "base + 68 < ?t" using assms(2) by linarith
  have "4 * length ?ws \<le> ?t" using t n by simp
  note p = pushes [OF assms(1) [unfolded arm_first_frame_def] this]
  show sp: "sp = ?t - 68" using p(1) n by simp
  show "base \<le> sp" using sp t by linarith
  have "loads sp 17 m' = rev ?ws" using p(2) n by simp
  then have "loads sp (9 + 8) m' = replicate 8 0 @ [exc] @
      [word_of_nat context, 0, 0, 0, 0, trap, word_of_nat entry, OS_ARCH_XPSR_THUMB]" by (simp del: loads.simps)
  then have l: "loads sp 9 m' @ loads (sp + 36) 8 m' = (replicate 8 0 @ [exc]) @
      [word_of_nat context, 0, 0, 0, 0, trap, word_of_nat entry, OS_ARCH_XPSR_THUMB]"
    unfolding loads_append by simp
  have "length (loads sp 9 m') = length (replicate 8 (0 :: u32) @ [exc])" by simp
  from l [unfolded append_eq_append_conv [OF disjI1 [OF this]]]
  show "loads sp 9 m' = replicate 8 0 @ [exc]"
    "loads (sp + 36) 8 m' = [word_of_nat context, 0, 0, 0, 0, trap, word_of_nat entry, OS_ARCH_XPSR_THUMB]" by blast+
qed

lemma arm_core_words: "set_regs (arm_core @ [Lr]) (replicate 8 0 @ [exc]) r Lr = exc"
  "k \<in> set arm_core \<Longrightarrow> set_regs (arm_core @ [Lr]) (replicate 8 0 @ [exc]) r k = 0"
  by (auto simp: arm_core_def numeral_eq_Suc)

text \<open>
  What the exception return finds after the first dispatch: the stack pointer it unstacks from, at an
  8-byte boundary inside the stack, and there the caller-saved registers with the entry as return address.
\<close>

definition arm_started :: "u32 \<Rightarrow> u32 \<Rightarrow> nat \<Rightarrow> nat \<Rightarrow> nat \<Rightarrow> nat \<Rightarrow> stack_memory \<Rightarrow> regs \<times> nat \<Rightarrow> bool" where
  "arm_started exc trap base bytes entry context m = (\<lambda>(r, psp).
     psp mod 8 = 0 \<and> base \<le> psp \<and> psp + 32 \<le> base + bytes \<and> r Lr = exc \<and>
     loads psp 8 m = [word_of_nat context, 0, 0, 0, 0, trap, word_of_nat entry, OS_ARCH_XPSR_THUMB])"

lemma arm_startedI:
  assumes "arm_first_frame exc trap base bytes entry context m = (sp, m')" "76 \<le> bytes" "r Lr = exc"
    and "\<And>a. sp \<le> a \<Longrightarrow> m'' a = m' a"
  shows "arm_started exc trap base bytes entry context m'' (r, sp + 36)"
proof -
  let ?t = "base + bytes - (base + bytes) mod 8"
  note w = arm_first_frame_words [OF assms(1,2)]
  have "(base + bytes) mod 8 < 8" by simp
  then have t: "68 \<le> ?t" using assms(2) by linarith
  have "?t mod 8 = 0" by (rule rounded)
  then have "8 dvd ?t" by (simp only: dvd_eq_mod_eq_0)
  then obtain q where q: "?t = 8 * q" by (rule dvdE)
  have "sp + 36 = 8 * (q - 4)" using w(1) t q by linarith
  then have "(sp + 36) mod 8 = 0" by simp
  moreover have "loads (sp + 36) 8 m'' = loads (sp + 36) 8 m'" by (rule loads_cong) (use assms(4) in simp)
  moreover have "sp + 36 + 32 \<le> base + bytes" using w(1) t by linarith
  ultimately show ?thesis using w(2,4) assms(3) by (simp add: arm_started_def)
qed

lemma v7m_first:
  assumes i: "v7m_stack_initialize ms exc trap base bytes entry context m = (Some sp, m')" "76 \<le> bytes" "bit exc 4"
  shows "arm_started exc trap base bytes entry context m' (v7m_restore fp sp m' r)"
proof -
  have f: "arm_first_frame exc trap base bytes entry context m = (sp, m')"
    using i(1) by (auto simp: v7m_stack_initialize_def split: if_splits prod.splits)
  define r1 where "r1 = set_regs (arm_core @ [Lr]) (replicate 8 0 @ [exc]) r"
  have "ldmia (arm_core @ [Lr]) sp m' r = (sp + 36, r1)"
    using arm_first_frame_words(3) [OF f i(2)] arm_lists(1) by (simp add: ldmia_def r1_def)
  moreover have lr: "r1 Lr = exc" by (simp add: r1_def arm_core_words)
  ultimately have "v7m_restore fp sp m' r = (r1, sp + 36)"
    using i(3) by (simp add: v7m_restore_def extended_def)
  then show ?thesis using arm_startedI [where r = r1, OF f i(2) lr] by simp
qed

lemma v6m_first:
  assumes i: "v6m_stack_initialize ms exc trap base bytes entry context m = (Some sp, m')" "76 \<le> bytes"
  shows "arm_started exc trap base bytes entry context m' (v6m_restore sp m' r)"
proof -
  have f: "arm_first_frame exc trap base bytes entry context m = (sp, m')"
    using i(1) by (auto simp: v6m_stack_initialize_def split: if_splits prod.splits)
  show ?thesis unfolding v6m_pop [OF arm_first_frame_words(3) [OF f i(2)]]
    by (rule arm_startedI [OF f i(2)]) (simp_all add: arm_core_words)
qed

lemma v8m_first:
  assumes i: "v8m_stack_initialize ms exc trap base bytes entry context m = (Some sp, m')" "80 \<le> bytes" "bit exc 4"
  shows "arm_started exc trap base bytes entry context m' (v8m_restore fp sp m' r) \<and>
    fst (v8m_restore fp sp m' r) Psplim = (word_of_nat base + 7) AND NOT 7"
proof -
  have i2: "76 \<le> bytes" using i(2) by simp
  obtain q n where f: "arm_first_frame exc trap base bytes entry context m = (q, n)" by fastforce
  let ?lim = "(word_of_nat base + 7) AND NOT 7 :: u32"
  have s: "sp = q - 4" "m' = put_word (q - 4) ?lim n" and b: "base \<noteq> 0"
    using i(1) f by (auto simp: v8m_stack_initialize_def push_pair split: if_splits)
  have w: "q = base + bytes - (base + bytes) mod 8 - 68" "base \<le> q" "loads q 9 n = replicate 8 0 @ [exc]"
    using arm_first_frame_words [OF f i2] by simp_all
  have "(base + bytes) mod 8 < 8" by simp
  then have q: "4 \<le> q" using w(1) i(2) b by linarith
  have l9: "loads q 9 m' = loads q 9 n" by (rule loads_cong) (use q in \<open>simp add: s put_word_outside\<close>)
  have "word_at sp m' = ?lim" "sp + 4 = q" using q by (simp_all add: s word_at_put)
  then have "loads sp (Suc 9) m' = ?lim # replicate 8 0 @ [exc]" unfolding loads.simps(2) by (simp only: l9 w(3))
  then have "loads sp 10 m' = ?lim # replicate 8 0 @ [exc]" by simp
  moreover define r1 where "r1 = set_regs (arm_core @ [Lr]) (replicate 8 0 @ [exc]) (r(R 2 := ?lim))"
  ultimately have "ldmia ([R 2] @ arm_core @ [Lr]) sp m' r = (q + 36, r1)"
    using q arm_lists(1) by (simp add: ldmia_def s)
  moreover have lr: "r1 Lr = exc" "r1 (R 2) = ?lim"
    using set_regs_other [of "R 2" "arm_core @ [Lr]"] arm_lists(5) by (simp_all add: r1_def arm_core_words)
  ultimately have e: "v8m_restore fp sp m' r = (r1(Psplim := ?lim), q + 36)"
    using i(3) by (simp add: v8m_restore_def extended_def Let_def)
  have "arm_started exc trap base bytes entry context m' (r1(Psplim := ?lim), q + 36)"
    by (rule arm_startedI [OF f i2]) (use lr q in \<open>simp_all add: s put_word_outside\<close>)
  then show ?thesis by (simp add: e)
qed

lemma rv32_first:
  assumes i: "rv32_stack_initialize trap base bytes entry context m = (Some sp, m')" "144 \<le> bytes"
    and r: "rv_restore sp m' r = (r', sp')"
  shows "base \<le> sp" "sp' \<le> base + bytes" "sp' mod 16 = 0" "r' Mepc = word_of_nat entry" "r' (X 10) = word_of_nat context"
    "r' (X 1) = trap" "r' Mstatus = OS_ARCH_MSTATUS_MPIE_MSK OR OS_ARCH_MSTATUS_MPP_M"
proof -
  let ?t = "base + bytes - (base + bytes) mod 16"
  define m1 where "m1 = fold (\<lambda>i m. put_word (sp + 4 * i) 0 m) [0..<32] m"
  have s: "sp = ?t - 128" "m' = put_word (sp + 8) trap (put_word (sp + 32) (word_of_nat context)
      (put_word (sp + 4) (word_of_nat entry) (put_word sp (OS_ARCH_MSTATUS_MPIE_MSK OR OS_ARCH_MSTATUS_MPP_M) m1)))"
    using i(1) by (auto simp: rv32_stack_initialize_def m1_def Let_def)
  have "(base + bytes) mod 16 < 16" by simp
  then have t: "base + 128 \<le> ?t" "?t \<le> base + bytes" using i(2) by linarith+
  have sp': "sp' = ?t" using r s(1) t by (auto simp: rv_restore_def Let_def)
  show "base \<le> sp" "sp' \<le> base + bytes" using s(1) sp' t by simp_all
  show "sp' mod 16 = 0" unfolding sp' by (rule rounded)
  have w: "word_at sp m' = OS_ARCH_MSTATUS_MPIE_MSK OR OS_ARCH_MSTATUS_MPP_M" "word_at (sp + 4) m' = word_of_nat entry"
    "word_at (sp + 8) m' = trap" "word_at (sp + 32) m' = word_of_nat context"
    by (simp_all add: s(2) word_at_put word_at_put_other)
  have r': "r' = fold (\<lambda>(k, off) r. r(k := word_at (sp + off) m')) rv_slots
      (r(X 5 := word_at sp m', X 6 := word_at (sp + 4) m', Mstatus := word_at sp m', Mepc := word_at (sp + 4) m'))"
    using r by (auto simp: rv_restore_def Let_def)
  show "r' Mepc = word_of_nat entry" "r' (X 10) = word_of_nat context" "r' (X 1) = trap"
    "r' Mstatus = OS_ARCH_MSTATUS_MPIE_MSK OR OS_ARCH_MSTATUS_MPP_M"
    by (simp_all add: r' rv_slots_def w)
qed

end
