(* ===== verification/FrameProps.thy ===== *)
theory FrameProps
  imports Frame
begin

text \<open>
  The properties of the ports' context switch.
\<close>

text \<open>
  C34. Context switching is invisible. On each of the four ports, however the tasks of a core take turns
  and whatever each does to its registers and its own stack while it runs, a task that is dispatched
  again finds the stack pointer and every register its handler is responsible for as they were
  when it was suspended, the floating-point registers included when it had used them.
\<close>

theorem context_switch_transparent:
  assumes "switching p lo hi s ctx"
    and "p \<in> {port_v6m, port_v7m True, port_v7m False, port_v8m True, port_v8m False, port_rv32}"
    and apart: "\<And>t u. t \<noteq> u \<Longrightarrow> hi t \<le> lo u \<or> hi u \<le> lo t"
    and r: "ctx u = Some (r, sp)" "ctx_restore p (saved_sp s u) (cmem s) r0 = (r', sp')"
  shows "sp' = sp \<and> (\<forall>k \<in> set (ctx_kept p r). r' k = r k)"
proof -
  have sw: "p = q \<Longrightarrow> switching q lo hi s ctx" "p = q \<Longrightarrow> ctx_restore q (saved_sp s u) (cmem s) r0 = (r', sp')" for q
    using assms(1) r(2) by simp_all
  consider "p = port_v6m" | fp where "p = port_v7m fp" | fp where "p = port_v8m fp" | "p = port_rv32"
    using assms(2) by auto
  then show ?thesis
  proof cases
    case 1
    show ?thesis unfolding 1 by (rule v6m.resumes [OF sw(1) [OF 1] apart r(1) sw(2) [OF 1]])
  next
    case (2 fp)
    show ?thesis unfolding 2 by (rule v7m.resumes [OF sw(1) [OF 2] apart r(1) sw(2) [OF 2]])
  next
    case (3 fp)
    show ?thesis unfolding 3 by (rule v8m.resumes [OF sw(1) [OF 3] apart r(1) sw(2) [OF 3]])
  next
    case 4
    show ?thesis unfolding 4 by (rule rv32.resumes [OF sw(1) [OF 4] apart r(1) sw(2) [OF 4]])
  qed
qed

text \<open>Task 0, with its stack below 1000 and every register 7, gives way to task 1.\<close>

definition sevens :: core_context where
  "sevens = \<lparr>running = 0, cregs = (\<lambda>_. 7), csp = 900, cmem = (\<lambda>_. 0), saved_sp = (\<lambda>t. t * 1000 + 500)\<rparr>"

theorem context_switch_transparent_witness:
  "\<exists>s ctx. switching (port_v7m True) (\<lambda>t. t * 1000) (\<lambda>t. t * 1000 + 1000) s ctx \<and> running s = 1 \<and>
     snd (v7m_restore True (saved_sp s 0) (cmem s) (\<lambda>_. 9)) = 900 \<and>
     fst (v7m_restore True (saved_sp s 0) (cmem s) (\<lambda>_. 9)) (S 31) = 7 \<and>
     fst (v7m_restore True (saved_sp s 0) (cmem s) (\<lambda>_. 9)) (R 11) = 7"
proof -
  let ?p = "port_v7m True" and ?lo = "\<lambda>t :: nat. t * 1000" and ?hi = "\<lambda>t :: nat. t * 1000 + 1000"
  obtain sp m where s: "ctx_save ?p (cregs sevens) (csp sevens) (cmem sevens) = (sp, m)" by fastforce
  obtain r' sp' where l: "ctx_restore ?p (saved_sp sevens 1) m (\<lambda>_. 0) = (r', sp')" by fastforce
  let ?s = "\<lparr>running = 1, cregs = r', csp = sp', cmem = m, saved_sp = (saved_sp sevens)(running sevens := sp)\<rparr>"
  let ?ctx = "(\<lambda>_. None)(running sevens := Some (cregs sevens, csp sevens), 1 := None) :: nat \<Rightarrow> (regs \<times> nat) option"
  have ext: "\<not> bit (7 :: u32) 4" by (simp add: bit_numeral_rec)
  have sw: "switching ?p ?lo ?hi ?s ?ctx"
    by (rule switching.switch [OF switching.boot _ _ s _ l]) (simp_all add: sevens_def port_v7m_def)
  have c: "?ctx 0 = Some (\<lambda>_. 7, 900)" by (simp add: sevens_def)
  obtain r2 sp2 where q: "ctx_restore ?p (saved_sp ?s 0) (cmem ?s) (\<lambda>_. 9) = (r2, sp2)" by fastforce
  have apart: "t * 1000 + 1000 \<le> u * 1000 \<or> u * 1000 + 1000 \<le> t * 1000" if "t \<noteq> u" for t u :: nat
    using that by linarith
  have "sp2 = 900 \<and> (\<forall>k \<in> set (ctx_kept ?p (\<lambda>_. 7)). r2 k = 7)"
    using context_switch_transparent [OF sw _ apart c q] by simp
  moreover have "S 31 \<in> set (ctx_kept ?p (\<lambda>_. 7))" "R 11 \<in> set (ctx_kept ?p (\<lambda>_. 7))"
    using ext by (simp_all add: port_v7m_def extended_def arm_fp_def arm_core_def)
  moreover have "v7m_restore True (saved_sp ?s 0) (cmem ?s) (\<lambda>_. 9) = (r2, sp2)" using q by (simp add: port_v7m_def)
  ultimately show ?thesis using sw by (intro exI [of _ ?s] exI [of _ ?ctx]) simp
qed



end
