(* ===== verification/SocTick.thy ===== *)
theory SocTick
  imports Window
begin

text \<open>
  The wake sources of the SoC packages, which end a tickless window and say how long it was: the
  low-power timer of \<^verbatim>\<open>soc/st/stm32/soc_cb.c\<close>, the always-on timer of
  \<^verbatim>\<open>soc/raspberrypi/common/soc_powman.h\<close>, the microsecond timer of \<^verbatim>\<open>soc/raspberrypi/rp2040/soc_cb.c\<close>,
  and the machine timer that is also the tick of \<^verbatim>\<open>soc/raspberrypi/rp235x_riscv/soc_cb.c\<close>. The first
  three bank what they measured in an accumulator and hand out whole ticks: they share the locale
  \<open>tick_bank\<close>. The vendor's register accessors are parameters: what a counter reads is an
  argument, or a list of readings to come where the code polls.
\<close>

type_synonym u64 = "64 word"

section \<open>The low-power timer of STM32 (soc/st/stm32/soc_cb.c)\<close>

text \<open>
  \<open>CLOCK_HZ\<close> and \<open>TICK_HZ\<close> are the configured rates; \<open>soc_lptim_rate\<close> is the rate every conversion
  uses, the measured one where the build calibrates. \<open>COMPARE\<close>, \<open>FLAG_MATCH\<close> and \<open>NVIC_pending\<close>
  are the registers the window writes; \<open>lptim_reads\<close> are the readings the counter will give.
\<close>

record lptim =
  CLOCK_HZ :: u32
  TICK_HZ :: u32
  soc_lptim_rate :: u32
  soc_lptim_start :: u32
  soc_lptim_armed :: u32
  soc_lptim_accum :: u64
  COMPARE :: u32
  FLAG_MATCH :: bool
  NVIC_pending :: bool
  lptim_reads :: "u32 list"

definition SOC_LPTIM_PERIOD :: u32 where "SOC_LPTIM_PERIOD = 0xFFFF"

definition SOC_LPTIM_MAX_COUNTS :: u32 where
  "SOC_LPTIM_MAX_COUNTS = ((SOC_LPTIM_PERIOD + 1) * 3) div 4"

definition SOC_LPTIM_ARM_COUNTS :: u32 where "SOC_LPTIM_ARM_COUNTS = 4"
definition SOC_LPTIM_CMPOK_POLLS :: nat where "SOC_LPTIM_CMPOK_POLLS = 100000"
definition SOC_LPTIM_CAL_COUNTS :: u32 where "SOC_LPTIM_CAL_COUNTS = 2048"
definition SOC_LPTIM_CAL_TOLERANCE :: u32 where "SOC_LPTIM_CAL_TOLERANCE = 4"

definition SOC_LPTIM_COUNTS_PER_TICK :: "lptim \<Rightarrow> u32" where
  "SOC_LPTIM_COUNTS_PER_TICK s = CLOCK_HZ s div TICK_HZ s"

text \<open>What the preprocessor refuses: a source faster than 1 MHz, or slower than the tick.\<close>

definition lptim_config_ok :: "lptim \<Rightarrow> bool" where
  "lptim_config_ok s \<longleftrightarrow>
     TICK_HZ s \<noteq> 0 \<and> CLOCK_HZ s \<le> 1000000 \<and> SOC_LPTIM_COUNTS_PER_TICK s \<noteq> 0"

definition soc_lptim_ticks_to_counts :: "u32 \<Rightarrow> lptim \<Rightarrow> u32" where
  "soc_lptim_ticks_to_counts ticks s =
     (let wanted = (ucast ticks :: u64) * ucast (soc_lptim_rate s)
      in ucast ((wanted + ucast (TICK_HZ s) - 1) div ucast (TICK_HZ s)))"

text \<open>
  Two readings that agree make a sample. \<open>None\<close>: the readings ran out, the loop is still polling.
\<close>

fun count_sample :: "u32 list \<Rightarrow> (u32 \<times> u32 list) option" where
  "count_sample (first # second # rs) = (if first \<noteq> second then count_sample rs else Some (second, rs))"
| "count_sample _ = None"

definition soc_lptim_count_get :: "lptim \<Rightarrow> (u32 \<times> lptim) option" where
  "soc_lptim_count_get s =
     (case count_sample (lptim_reads s) of
        None \<Rightarrow> None
      | Some (count, rs) \<Rightarrow> Some (count, s\<lparr>lptim_reads := rs\<rparr>))"

text \<open>The wait for a register write: \<open>flag n\<close> is what the \<open>n\<close>-th poll reads. The count of polls is the answer.\<close>

fun settle_polls :: "(nat \<Rightarrow> bool) \<Rightarrow> nat \<Rightarrow> nat \<Rightarrow> nat" where
  "settle_polls flag 0 polls = polls"
| "settle_polls flag (Suc left) polls = (if flag polls then polls else settle_polls flag left (Suc polls))"

definition soc_lptim_write_settle :: "(nat \<Rightarrow> bool) \<Rightarrow> nat" where
  "soc_lptim_write_settle flag = settle_polls flag SOC_LPTIM_CMPOK_POLLS 0"

definition lptim_suppress_max :: "lptim \<Rightarrow> u32" where
  "lptim_suppress_max s =
     ucast (((ucast SOC_LPTIM_MAX_COUNTS :: u64) * ucast (TICK_HZ s)) div ucast (soc_lptim_rate s))"

definition lptim_suppress_min :: "lptim \<Rightarrow> u32" where
  "lptim_suppress_min s =
     (SOC_LPTIM_ARM_COUNTS + SOC_LPTIM_COUNTS_PER_TICK s - 1) div SOC_LPTIM_COUNTS_PER_TICK s"

definition lptim_suppress :: "u32 \<Rightarrow> lptim \<Rightarrow> lptim option" where
  "lptim_suppress ticks s =
     (let counts = soc_lptim_ticks_to_counts ticks s;
          counts' = (if counts > SOC_LPTIM_MAX_COUNTS then SOC_LPTIM_MAX_COUNTS else counts)
      in case soc_lptim_count_get s of
           None \<Rightarrow> None
         | Some (start, s1) \<Rightarrow>
             Some (s1\<lparr>soc_lptim_start := start, soc_lptim_armed := counts',
                      FLAG_MATCH := False, NVIC_pending := False,
                      COMPARE := (start + counts') AND SOC_LPTIM_PERIOD\<rparr>))"

definition lptim_resume :: "lptim \<Rightarrow> (u32 \<times> lptim) option" where
  "lptim_resume s =
     (if soc_lptim_armed s \<noteq> 0 then
        case soc_lptim_count_get s of
          None \<Rightarrow> None
        | Some (count, s1) \<Rightarrow>
            let counts = (count - soc_lptim_start s1) AND SOC_LPTIM_PERIOD;
                accum = soc_lptim_accum s1 + ucast counts * ucast (TICK_HZ s1);
                elapsed = (ucast (accum div ucast (soc_lptim_rate s1)) :: u32)
            in Some (elapsed, s1\<lparr>soc_lptim_accum := accum - ucast elapsed * ucast (soc_lptim_rate s1),
                                 soc_lptim_armed := 0\<rparr>)
      else Some (0, s))"

text \<open>
  The calibration at boot. \<open>Trapped\<close> is \<open>os_arch_config_fault_trap\<close>, \<open>Polling\<close> a loop whose readings
  ran out, \<open>Divided_by_zero\<close> the undefined division of a cycle counter that did not move.
\<close>

datatype 'a outcome = Done 'a | Trapped | Polling | Divided_by_zero

text \<open>\<open>cycles\<close>: the readings of \<open>os_arch_delay_counter_get\<close> to come.\<close>

fun cycle_get :: "u32 list \<Rightarrow> (u32 \<times> u32 list) option" where
  "cycle_get [] = None"
| "cycle_get (c # cs) = Some (c, cs)"

lemma count_sample_shorter: "count_sample rs = Some (c, rs') \<Longrightarrow> length rs' < length rs"
  by (induction rs rule: count_sample.induct) (auto split: if_splits)

text \<open>The loop \<open>while (stay (count)) { if (delay - start > hz) trap; }\<close>, which the code has twice.\<close>

function cal_wait :: "(u32 \<Rightarrow> bool) \<Rightarrow> u32 \<Rightarrow> u32 \<Rightarrow> u32 list \<Rightarrow> u32 list \<Rightarrow> (u32 list \<times> u32 list) outcome" where
  "cal_wait stay hz start rs cycles =
     (case count_sample rs of
        None \<Rightarrow> Polling
      | Some (count, rs') \<Rightarrow>
          if stay count then
            (case cycles of
               [] \<Rightarrow> Polling
             | now # cycles' \<Rightarrow> if now - start > hz then Trapped else cal_wait stay hz start rs' cycles')
          else Done (rs', cycles))"
  by pat_completeness auto
termination by (relation "measure (\<lambda>(_, _, _, rs, _). length rs)") (auto dest: count_sample_shorter)

definition lptim_soc_ready :: "u32 \<Rightarrow> u32 list \<Rightarrow> lptim \<Rightarrow> lptim outcome" where
  "lptim_soc_ready hz cycles s =
     (if hz = 0 then Done s
      else case (count_sample (lptim_reads s), cycle_get cycles) of
        (Some (mark, rs), Some (start, cycles1)) \<Rightarrow>
          (case cal_wait (\<lambda>count. count = mark) hz start rs cycles1 of
             Done (rs1, cycles2) \<Rightarrow>
               (case (count_sample rs1, cycle_get cycles2) of
                  (Some (mark1, rs2), Some (start1, cycles3)) \<Rightarrow>
                    (case cal_wait (\<lambda>count. (count - mark1) AND SOC_LPTIM_PERIOD < SOC_LPTIM_CAL_COUNTS)
                            hz start1 rs2 cycles3 of
                       Done (rs3, cycles4) \<Rightarrow>
                         (case cycle_get cycles4 of
                            None \<Rightarrow> Polling
                          | Some (now, _) \<Rightarrow>
                              let taken = now - start1;
                                  rate = (ucast (((ucast SOC_LPTIM_CAL_COUNTS :: u64) * ucast hz) div ucast taken) :: u32)
                              in if taken = 0 then Divided_by_zero
                                 else if rate > CLOCK_HZ s + CLOCK_HZ s div SOC_LPTIM_CAL_TOLERANCE \<or>
                                         rate < CLOCK_HZ s - CLOCK_HZ s div SOC_LPTIM_CAL_TOLERANCE
                                 then Trapped
                                 else Done (s\<lparr>soc_lptim_rate := rate, lptim_reads := rs3\<rparr>))
                     | Trapped \<Rightarrow> Trapped | Polling \<Rightarrow> Polling | Divided_by_zero \<Rightarrow> Divided_by_zero)
                | _ \<Rightarrow> Polling)
           | Trapped \<Rightarrow> Trapped | Polling \<Rightarrow> Polling | Divided_by_zero \<Rightarrow> Divided_by_zero)
      | _ \<Rightarrow> Polling)"

section \<open>The always-on timer of RP235x (soc/raspberrypi/common/soc_powman.h)\<close>

text \<open>
  \<open>timer_running\<close>, \<open>alarm_at\<close>, \<open>alarm_fired\<close>, \<open>irq_on\<close>: the registers. \<open>lposc_hz\<close> is the frequency the timer is told
  its oscillator runs at, where it was told one.
\<close>

record powman =
  PM_TICK_HZ :: u32
  soc_powman_entry_ms :: u64
  soc_powman_accum_ms_hz :: u64
  soc_powman_ready :: bool
  timer_running :: bool
  lposc_hz :: "u32 option"
  alarm_at :: "u64 option"
  alarm_fired :: bool
  irq_on :: bool

definition SOC_POWMAN_MS_PER_TICK :: "powman \<Rightarrow> u32" where
  "SOC_POWMAN_MS_PER_TICK s = 1000 div PM_TICK_HZ s"

definition powman_config_ok :: "powman \<Rightarrow> bool" where
  "powman_config_ok s \<longleftrightarrow> PM_TICK_HZ s \<noteq> 0 \<and> SOC_POWMAN_MS_PER_TICK s \<noteq> 0"

text \<open>\<open>lposc_khz\<close>: what the frequency counter answers, zero where it could not count.\<close>

definition soc_powman_ready_get :: "u32 \<Rightarrow> powman \<Rightarrow> bool \<times> powman" where
  "soc_powman_ready_get lposc_khz s =
     (if \<not> soc_powman_ready s
      then let s1 = (if \<not> timer_running s
                     then s\<lparr>lposc_hz := (if lposc_khz \<noteq> 0 then Some (lposc_khz * 1000) else None),
                            timer_running := True\<rparr>
                     else s)
           in (True, s1\<lparr>soc_powman_ready := True\<rparr>)
      else (True, s))"

definition soc_powman_isr :: "powman \<Rightarrow> powman" where
  "soc_powman_isr s = s\<lparr>alarm_fired := False\<rparr>"

definition soc_powman_ceiling_ticks :: "u32 \<Rightarrow> powman \<Rightarrow> u32 \<times> powman" where
  "soc_powman_ceiling_ticks lposc_khz s =
     (case soc_powman_ready_get lposc_khz s of (ready, s1) \<Rightarrow> (if ready then 0xFFFFFFFF else 0, s1))"

definition soc_powman_floor_ticks :: "powman \<Rightarrow> u32" where
  "soc_powman_floor_ticks s = (2 * PM_TICK_HZ s + 999) div 1000"

definition soc_powman_window_open :: "u32 \<Rightarrow> u64 \<Rightarrow> u32 \<Rightarrow> powman \<Rightarrow> powman" where
  "soc_powman_window_open lposc_khz now ticks s =
     (case soc_powman_ready_get lposc_khz s of (ready, s1) \<Rightarrow>
        if ready then
          let wanted_ms = ((ucast ticks * 1000) + ucast (PM_TICK_HZ s1) - 1) div ucast (PM_TICK_HZ s1)
          in s1\<lparr>soc_powman_entry_ms := now, alarm_fired := False, irq_on := True,
                 alarm_at := Some (now + wanted_ms)\<rparr>
        else s1)"

definition soc_powman_window_close :: "u64 \<Rightarrow> powman \<Rightarrow> u32 \<times> powman" where
  "soc_powman_window_close now s =
     (let s1 = s\<lparr>alarm_at := None, alarm_fired := False, irq_on := False\<rparr>;
          elapsed_ms = now - soc_powman_entry_ms s1;
          accum = soc_powman_accum_ms_hz s1 + elapsed_ms * ucast (PM_TICK_HZ s1);
          elapsed_ticks = (ucast (accum div 1000) :: u32)
      in (elapsed_ticks, s1\<lparr>soc_powman_accum_ms_hz := accum - ucast elapsed_ticks * 1000\<rparr>))"


section \<open>The microsecond timer of RP2040 (soc/raspberrypi/rp2040/soc_cb.c)\<close>

text \<open>\<open>INTE\<close>, \<open>INTR\<close> and \<open>ALARM\<close> are the registers of the claimed alarm; \<open>-1\<close> is no alarm.\<close>

record us_timer =
  US_TICK_HZ :: u32
  soc_tickless_alarm :: int
  soc_tickless_entry_us :: u64
  soc_tickless_accum_us_hz :: u64
  INTE :: bool
  INTR :: bool
  ALARM :: u32
  us_irq_on :: bool

definition soc_tickless_ticks_to_us :: "u32 \<Rightarrow> us_timer \<Rightarrow> u64" where
  "soc_tickless_ticks_to_us ticks s =
     (let wanted = ucast ticks * 1000000
      in (wanted + ucast (US_TICK_HZ s) - 1) div ucast (US_TICK_HZ s))"

definition soc_tickless_alarm_isr :: "us_timer \<Rightarrow> us_timer" where
  "soc_tickless_alarm_isr s = s\<lparr>INTR := False\<rparr>"

text \<open>\<open>claimed\<close>: what the vendor's allocator of alarms answers, negative where none is left.\<close>

definition soc_tickless_alarm_ready :: "int \<Rightarrow> us_timer \<Rightarrow> bool \<times> us_timer" where
  "soc_tickless_alarm_ready claimed s =
     (let s1 = (if soc_tickless_alarm s < 0 \<and> claimed \<ge> 0 then s\<lparr>soc_tickless_alarm := claimed\<rparr> else s)
      in (soc_tickless_alarm s1 \<ge> 0, s1))"

definition us_suppress_max :: "int \<Rightarrow> us_timer \<Rightarrow> u32 \<times> us_timer" where
  "us_suppress_max claimed s =
     (case soc_tickless_alarm_ready claimed s of (ready, s1) \<Rightarrow> (if ready then 60 * US_TICK_HZ s1 else 0, s1))"

definition us_suppress :: "int \<Rightarrow> u64 \<Rightarrow> u32 \<Rightarrow> us_timer \<Rightarrow> us_timer" where
  "us_suppress claimed now ticks s =
     (case soc_tickless_alarm_ready claimed s of (ready, s1) \<Rightarrow>
        if ready then
          let target = now + soc_tickless_ticks_to_us ticks s1
          in s1\<lparr>soc_tickless_entry_us := now, INTE := True, us_irq_on := True, ALARM := ucast target\<rparr>
        else s1)"

definition us_resume :: "u64 \<Rightarrow> us_timer \<Rightarrow> u32 \<times> us_timer" where
  "us_resume now s =
     (let s1 = s\<lparr>INTE := False, INTR := False, us_irq_on := False\<rparr>;
          elapsed_us = now - soc_tickless_entry_us s1;
          accum = soc_tickless_accum_us_hz s1 + elapsed_us * ucast (US_TICK_HZ s1);
          elapsed_ticks = (ucast (accum div 1000000) :: u32)
      in (elapsed_ticks, s1\<lparr>soc_tickless_accum_us_hz := accum - ucast elapsed_ticks * 1000000\<rparr>))"

section \<open>The machine timer of RP235x on RISC-V (soc/raspberrypi/rp235x_riscv/soc_cb.c)\<close>

text \<open>
  The timer is also the tick: its interrupt is pending while \<open>MTIME\<close> has reached \<open>MTIMECMP\<close>. One core.
\<close>

record mtimer =
  MTIME :: u64
  MTIMECMP :: u64
  MTIMER_enabled :: bool
  MTIME_irq_on :: bool
  soc_tick_interval :: u32
  soc_tickless_base :: u64
  soc_tickless_planned :: u32

definition soc_tick_isr :: "mtimer \<Rightarrow> mtimer" where
  "soc_tick_isr s = s\<lparr>MTIMECMP := MTIMECMP s + ucast (soc_tick_interval s)\<rparr>"

definition mtimer_tick_init :: "u32 \<Rightarrow> u32 \<Rightarrow> mtimer \<Rightarrow> mtimer" where
  "mtimer_tick_init clock_hz tick_hz s =
     (if clock_hz \<noteq> 0 \<and> tick_hz \<noteq> 0 then
        let s1 = s\<lparr>MTIMER_enabled := True, soc_tick_interval := clock_hz div tick_hz\<rparr>
        in if soc_tick_interval s1 \<noteq> 0
           then s1\<lparr>MTIMECMP := MTIME s1 + ucast (soc_tick_interval s1), MTIME_irq_on := True\<rparr>
           else s1
      else s)"

definition mtimer_suppress_max :: "mtimer \<Rightarrow> u32" where
  "mtimer_suppress_max s = (if soc_tick_interval s \<noteq> 0 then 0xFFFFFFFF else 0)"

definition mtimer_suppress :: "u32 \<Rightarrow> mtimer \<Rightarrow> mtimer" where
  "mtimer_suppress ticks s =
     (if soc_tick_interval s \<noteq> 0 \<and> ticks > 1
      then s\<lparr>soc_tickless_base := MTIMECMP s, soc_tickless_planned := ticks,
             MTIMECMP := MTIMECMP s + ucast (ticks - 1) * ucast (soc_tick_interval s)\<rparr>
      else s\<lparr>soc_tickless_planned := 0\<rparr>)"

definition mtimer_resume :: "mtimer \<Rightarrow> u32 \<times> mtimer" where
  "mtimer_resume s =
     (if soc_tickless_planned s \<noteq> 0 then
        let now = MTIME s;
            e0 = (if now \<ge> soc_tickless_base s
                  then 1 + ucast ((now - soc_tickless_base s) div ucast (soc_tick_interval s)) else (0::u32));
            elapsed = (if e0 > soc_tickless_planned s - 1 then soc_tickless_planned s - 1 else e0);
            s1 = (if elapsed < soc_tickless_planned s - 1
                  then s\<lparr>MTIMECMP := soc_tickless_base s + ucast elapsed * ucast (soc_tick_interval s)\<rparr> else s)
        in (elapsed, s1\<lparr>soc_tickless_planned := 0\<rparr>)
      else (0, s))"

text \<open>The deep-sleep build parks the tick and gives the window to the always-on timer.\<close>

definition mtimer_deep_suppress :: "u32 \<Rightarrow> u64 \<Rightarrow> u32 \<Rightarrow> mtimer \<times> powman \<Rightarrow> mtimer \<times> powman" where
  "mtimer_deep_suppress lposc_khz now ticks sp =
     (case sp of (s, p) \<Rightarrow>
        if soc_tick_interval s \<noteq> 0
        then (s\<lparr>MTIME_irq_on := False\<rparr>, soc_powman_window_open lposc_khz now ticks p) else (s, p))"

definition mtimer_deep_resume :: "u64 \<Rightarrow> mtimer \<times> powman \<Rightarrow> u32 \<times> mtimer \<times> powman" where
  "mtimer_deep_resume now sp =
     (case sp of (s, p) \<Rightarrow>
        if soc_tick_interval s \<noteq> 0
        then (case soc_powman_window_close now p of (elapsed, p1) \<Rightarrow>
                (elapsed, s\<lparr>MTIMECMP := MTIME s + ucast (soc_tick_interval s), MTIME_irq_on := True\<rparr>, p1))
        else (0, s, p))"

section \<open>Banked time\<close>

text \<open>
  The arithmetic the three banking sources share: a source that runs at \<open>rate\<close>, ticks at \<open>hz\<close>, and
  an accumulator below \<open>rate\<close>.
\<close>

lemma unat_add64: "unat (a :: u64) + unat b < 2 ^ 64 \<Longrightarrow> unat (a + b) = unat a + unat b"
  by (simp add: unat_word_ariths)

lemma unat_mult64: "unat (a :: u64) * unat b < 2 ^ 64 \<Longrightarrow> unat (a * b) = unat a * unat b"
  by (simp add: unat_word_ariths)

lemma unat_sub64: "unat (b :: u64) \<le> unat a \<Longrightarrow> unat (a - b) = unat a - unat b"
  by (rule unat_sub) (simp add: word_le_nat_alt)

lemma bank_exact:
  fixes accum counts :: u64 and hz :: u32
  assumes a: "unat accum < rate" and rate: "unat (r :: u64) = rate" "0 < rate"
    and fit: "unat accum + unat counts * unat hz < 2 ^ 64"
      "(unat accum + unat counts * unat hz) div rate < 2 ^ 32"
    and b: "banked = accum + counts * ucast hz" and e: "elapsed = (ucast (banked div r) :: u32)"
    and l: "left = banked - ucast elapsed * r"
  shows "unat elapsed * rate + unat left = unat accum + unat counts * unat hz" "unat left < rate"
proof -
  let ?n = "unat accum + unat counts * unat hz"
  have m: "unat (counts * ucast hz) = unat counts * unat hz"
    using fit(1) by (subst unat_mult64) simp_all
  have B: "unat banked = ?n" using fit(1) m by (simp add: b unat_add64)
  have E: "unat elapsed = ?n div rate"
    using fit(2) B rate(1) by (simp add: e unat_narrow unat_div)
  have q: "?n div rate * rate \<le> ?n" by simp
  then have "?n div rate * rate < 2 ^ 64" using fit(1) by linarith
  then have p: "unat (ucast elapsed * r :: u64) = ?n div rate * rate"
    using rate(1) E by (subst unat_mult64) simp_all
  then have "unat left = ?n - ?n div rate * rate" using q B by (simp add: l unat_sub64)
  then have "unat left = ?n mod rate" by (simp only: minus_div_mult_eq_mod)
  then show "unat elapsed * rate + unat left = ?n" "unat left < rate" using E rate(2) by simp_all
qed


lemma ceil_le_iff: "0 < d \<Longrightarrow> (n + d - 1) div d \<le> k \<longleftrightarrow> n \<le> k * (d :: nat)"
  using div_less_iff_less_mult [of d "n + d - 1" "Suc k"] by auto

lemma ceil_ge: "0 < d \<Longrightarrow> n \<le> (n + d - 1) div d * (d :: nat)"
  using ceil_le_iff [of d n "(n + d - 1) div d"] by simp

lemma ceil_less: "0 < d \<Longrightarrow> (n + d - 1) div d * (d :: nat) < n + d"
proof -
  assume d: "0 < d"
  have "(n + d - 1) div d * d \<le> n + d - 1" by simp
  then show ?thesis using d by linarith
qed

lemma ceil_word:
  fixes ticks hz :: u32 and r :: u64
  assumes hz: "hz \<noteq> 0" and r: "unat r < 2 ^ 32"
  shows "unat ((ucast ticks * r + ucast hz - 1) div ucast hz :: u64) = (unat ticks * unat r + unat hz - 1) div unat hz"
proof -
  have b: "unat ticks < 2 ^ 32" "unat hz < 2 ^ 32" using unsigned_less [of ticks] unsigned_less [of hz] by simp_all
  have "unat ticks * unat r \<le> 4294967295 * 4294967295" using b r by (intro mult_mono) auto
  moreover have "0 < unat hz" using hz by (simp add: unat_gt_0)
  ultimately have s: "unat ticks * unat r + unat hz < 2 ^ 64" "1 \<le> unat ticks * unat r + unat hz" using b by simp_all
  have m: "unat (ucast ticks * r :: u64) = unat ticks * unat r"
    using s(1) by (subst unat_mult64) simp_all
  have a: "unat (ucast ticks * r + ucast hz :: u64) = unat ticks * unat r + unat hz"
    using s(1) m by (subst unat_add64) simp_all
  have "unat (ucast ticks * r + ucast hz - 1 :: u64) = unat ticks * unat r + unat hz - 1"
    using s(2) a by (subst unat_sub64) simp_all
  then show ?thesis by (simp add: unat_div)
qed

lemma low16: "unat ((x :: u32) AND SOC_LPTIM_PERIOD) = unat x mod 65536"
proof -
  have "SOC_LPTIM_PERIOD = mask 16" by (simp add: SOC_LPTIM_PERIOD_def mask_eq_exp_minus_1)
  then have "x AND SOC_LPTIM_PERIOD = take_bit 16 x" by (simp add: take_bit_eq_mask)
  then show ?thesis by (simp only: unsigned_take_bit_eq) (simp add: take_bit_eq_mod)
qed

lemma low16_diff: "unat (x - y :: u32) mod 65536 = (unat x + (4294967296 - unat y)) mod 65536"
proof (cases "unat y \<le> unat x")
  case True
  then have e: "unat x + (4294967296 - unat y) = unat (x - y) + 65536 * 65536"
    using unsigned_less [of y, where 'a = nat] by (simp add: unat_sub word_le_nat_alt)
  show ?thesis unfolding e by (rule mod_mult_self2 [symmetric])
next
  case False
  then show ?thesis using unsigned_less [of y, where 'a = nat] by (simp add: unat_sub_if_size word_size)
qed

section \<open>The low-power timer keeps exact time\<close>

definition lptim_ok :: "lptim \<Rightarrow> bool" where
  "lptim_ok s \<longleftrightarrow> lptim_config_ok s \<and>
     CLOCK_HZ s - CLOCK_HZ s div SOC_LPTIM_CAL_TOLERANCE \<le> soc_lptim_rate s \<and>
     soc_lptim_rate s \<le> CLOCK_HZ s + CLOCK_HZ s div SOC_LPTIM_CAL_TOLERANCE \<and>
     unat (soc_lptim_accum s) < unat (soc_lptim_rate s)"

lemma lptim_okD:
  assumes "lptim_ok s"
  shows "0 < unat (TICK_HZ s)" "unat (TICK_HZ s) \<le> 1000000" "3 * unat (TICK_HZ s) \<le> 4 * unat (soc_lptim_rate s)"
    "0 < unat (soc_lptim_rate s)" "unat (soc_lptim_accum s) < unat (soc_lptim_rate s)"
    "unat (soc_lptim_rate s) \<le> 1250000"
proof -
  let ?c = "unat (CLOCK_HZ s)" and ?h = "unat (TICK_HZ s)"
  have c: "TICK_HZ s \<noteq> 0" "?c \<le> 1000000" "CLOCK_HZ s div TICK_HZ s \<noteq> 0"
    using assms by (simp_all add: lptim_ok_def lptim_config_ok_def SOC_LPTIM_COUNTS_PER_TICK_def word_le_nat_alt)
  then have "unat (CLOCK_HZ s div TICK_HZ s) \<noteq> 0" by (simp only: unat_eq_0 not_False_eq_True)
  then have hc: "?h \<le> ?c" by (simp add: unat_div div_eq_0_iff not_less)
  have h0: "0 < ?h" using c(1) by (simp add: unat_gt_0)
  have q: "unat (CLOCK_HZ s div SOC_LPTIM_CAL_TOLERANCE) = ?c div 4"
    by (simp add: SOC_LPTIM_CAL_TOLERANCE_def unat_div)
  have lo: "unat (CLOCK_HZ s - CLOCK_HZ s div SOC_LPTIM_CAL_TOLERANCE) = ?c - ?c div 4"
    using q by (subst unat_sub) (simp_all add: word_le_nat_alt)
  have hi: "unat (CLOCK_HZ s + CLOCK_HZ s div SOC_LPTIM_CAL_TOLERANCE) = ?c + ?c div 4"
    using q c(2) by (subst unat_add_lt) simp_all
  have r: "?c - ?c div 4 \<le> unat (soc_lptim_rate s)" "unat (soc_lptim_rate s) \<le> ?c + ?c div 4"
    "unat (soc_lptim_accum s) < unat (soc_lptim_rate s)"
    using assms lo hi by (simp_all add: lptim_ok_def word_le_nat_alt)
  show "0 < ?h" "?h \<le> 1000000" "3 * ?h \<le> 4 * unat (soc_lptim_rate s)"
    "0 < unat (soc_lptim_rate s)" "unat (soc_lptim_accum s) < unat (soc_lptim_rate s)"
    "unat (soc_lptim_rate s) \<le> 1250000"
    using h0 hc c(2) r by linarith+
qed

text \<open>What a close measured, in counts: the counter's distance from the open, modulo its span.\<close>

definition lptim_counts :: "u32 \<Rightarrow> lptim \<Rightarrow> nat" where
  "lptim_counts count s = unat (count - soc_lptim_start s) mod 65536"

lemma lptim_resume_exact:
  assumes ok: "lptim_ok s" and armed: "soc_lptim_armed s \<noteq> 0"
    and c: "soc_lptim_count_get s = Some (count, s1)" and r: "lptim_resume s = Some (n, s')"
  shows "unat n * unat (soc_lptim_rate s) + unat (soc_lptim_accum s') =
      unat (soc_lptim_accum s) + lptim_counts count s * unat (TICK_HZ s)"
    "lptim_ok s'" "soc_lptim_armed s' = 0"
    "soc_lptim_rate s' = soc_lptim_rate s" "TICK_HZ s' = TICK_HZ s" "CLOCK_HZ s' = CLOCK_HZ s"
proof -
  note d = lptim_okD [OF ok]
  have s1: "s1 = s\<lparr>lptim_reads := lptim_reads s1\<rparr>"
    using c by (auto simp: soc_lptim_count_get_def split: option.splits)
  define u where "u = (count - soc_lptim_start s) AND SOC_LPTIM_PERIOD"
  have u: "unat u = lptim_counts count s" "unat u < 65536" by (simp_all add: u_def low16 lptim_counts_def)
  define hz rate where "hz = TICK_HZ s" and "rate = soc_lptim_rate s"
  define banked where "banked = soc_lptim_accum s + ucast u * ucast hz"
  have f: "soc_lptim_start s1 = soc_lptim_start s" "soc_lptim_accum s1 = soc_lptim_accum s" "TICK_HZ s1 = hz"
    "soc_lptim_rate s1 = rate" "CLOCK_HZ s1 = CLOCK_HZ s"
    using s1 by (metis (lifting) lptim.select_convs lptim.surjective lptim.update_convs(10) hz_def rate_def)+
  have n: "n = ucast (banked div ucast rate)"
    and s': "s' = s1\<lparr>soc_lptim_accum := banked - ucast n * ucast rate, soc_lptim_armed := 0\<rparr>"
    using r armed c by (auto simp: lptim_resume_def Let_def f u_def [symmetric] banked_def)
  have "unat u * unat hz \<le> 65535 * unat hz" using u(2) by (intro mult_right_mono) auto
  then have w: "unat (soc_lptim_accum s) + unat u * unat hz < 100000 * unat rate"
    using d(3,5) unfolding hz_def rate_def by linarith
  then have "(unat (soc_lptim_accum s) + unat u * unat hz) div unat rate < 100000"
    using d(4) by (simp add: div_less_iff_less_mult rate_def)
  moreover have "unat (soc_lptim_accum s) + unat u * unat hz < 2 ^ 64" using w d(6) by (simp add: rate_def)
  ultimately have *: "unat n * unat rate + unat (banked - ucast n * ucast rate) = unat (soc_lptim_accum s) + unat u * unat hz"
    "unat (banked - ucast n * ucast rate) < unat rate"
    using bank_exact [OF d(5) _ d(4), of "ucast rate" "ucast u" hz banked n] n
    by (simp_all add: banked_def rate_def)
  then show "unat n * unat (soc_lptim_rate s) + unat (soc_lptim_accum s') =
      unat (soc_lptim_accum s) + lptim_counts count s * unat (TICK_HZ s)"
    by (simp add: s' u(1) hz_def rate_def)
  show "soc_lptim_armed s' = 0" "soc_lptim_rate s' = soc_lptim_rate s" "TICK_HZ s' = TICK_HZ s" "CLOCK_HZ s' = CLOCK_HZ s"
    by (simp_all add: s' f) (simp_all add: rate_def hz_def)
  then show "lptim_ok s'"
    using ok *(2) by (simp add: lptim_ok_def lptim_config_ok_def SOC_LPTIM_COUNTS_PER_TICK_def s' rate_def)
qed


lemma count_get_frame:
  "soc_lptim_count_get s = Some (count, s1) \<Longrightarrow> s1 = s\<lparr>lptim_reads := lptim_reads s1\<rparr>"
  by (auto simp: soc_lptim_count_get_def split: option.splits)

text \<open>A sample was read twice in a row.\<close>

lemma count_sample_agrees:
  "count_sample rs = Some (c, rs') \<Longrightarrow> \<exists>pre. even (length pre) \<and> rs = pre @ c # c # rs'"
proof (induction rs rule: count_sample.induct)
  case (1 a b rs)
  then show ?case
  proof (cases "a = b")
    case False
    then obtain pre where "even (length pre)" "rs = pre @ c # c # rs'" using 1 by auto
    then show ?thesis by (intro exI [of _ "a # b # pre"]) simp
  qed (auto intro: exI [of _ "[]"])
qed simp_all

lemma settle_bounded: "settle_polls flag left polls \<le> polls + left"
  by (induction flag left polls rule: settle_polls.induct) auto

lemma write_settle_bounded: "soc_lptim_write_settle flag \<le> SOC_LPTIM_CMPOK_POLLS"
  using settle_bounded [of flag SOC_LPTIM_CMPOK_POLLS 0] by (simp add: soc_lptim_write_settle_def)

lemma max_counts: "unat SOC_LPTIM_MAX_COUNTS = 49152"
  by (simp add: SOC_LPTIM_MAX_COUNTS_def SOC_LPTIM_PERIOD_def unat_div)

lemma ticks_to_counts_unat:
  assumes ok: "lptim_ok s" and fit: "unat ticks * unat (soc_lptim_rate s) \<le> k * unat (TICK_HZ s)" "k < 2 ^ 32"
  shows "unat (soc_lptim_ticks_to_counts ticks s) =
      (unat ticks * unat (soc_lptim_rate s) + unat (TICK_HZ s) - 1) div unat (TICK_HZ s)"
    "unat (soc_lptim_ticks_to_counts ticks s) \<le> k"
proof -
  note d = lptim_okD [OF ok]
  have h: "TICK_HZ s \<noteq> 0" using d(1) by (auto simp: unat_gt_0)
  have r: "unat (ucast (soc_lptim_rate s) :: u64) < 2 ^ 32"
    using unsigned_less [of "soc_lptim_rate s", where 'a = nat] by simp
  note w = ceil_word [OF h r, of ticks, unfolded unat_wide]
  have k: "(unat ticks * unat (soc_lptim_rate s) + unat (TICK_HZ s) - 1) div unat (TICK_HZ s) \<le> k"
    by (rule iffD2 [OF ceil_le_iff [OF d(1)] fit(1)])
  then show "unat (soc_lptim_ticks_to_counts ticks s) =
      (unat ticks * unat (soc_lptim_rate s) + unat (TICK_HZ s) - 1) div unat (TICK_HZ s)"
    using w fit(2) by (simp add: soc_lptim_ticks_to_counts_def Let_def unat_narrow)
  then show "unat (soc_lptim_ticks_to_counts ticks s) \<le> k" using k by simp
qed

lemma lptim_max_unat:
  assumes ok: "lptim_ok s"
  shows "unat (lptim_suppress_max s) = 49152 * unat (TICK_HZ s) div unat (soc_lptim_rate s)"
proof -
  note d = lptim_okD [OF ok]
  have m: "unat ((ucast SOC_LPTIM_MAX_COUNTS :: u64) * ucast (TICK_HZ s)) = 49152 * unat (TICK_HZ s)"
    using d(2) by (subst unat_mult64) (simp_all add: max_counts)
  have "49152 * unat (TICK_HZ s) < 100000 * unat (soc_lptim_rate s)" using d(3,4) by linarith
  then have "49152 * unat (TICK_HZ s) div unat (soc_lptim_rate s) < 100000"
    using d(4) by (simp add: div_less_iff_less_mult)
  then show ?thesis unfolding lptim_suppress_max_def by (subst unat_narrow) (simp_all add: unat_div m)
qed

text \<open>A window the kernel may plan fits the counter, so the arming path cuts nothing off.\<close>

lemma lptim_window_fits:
  assumes ok: "lptim_ok s" and t: "ticks \<le> lptim_suppress_max s"
  shows "unat ticks * unat (soc_lptim_rate s) \<le> 49152 * unat (TICK_HZ s)"
proof -
  have "unat ticks \<le> 49152 * unat (TICK_HZ s) div unat (soc_lptim_rate s)"
    using t lptim_max_unat [OF ok] by (simp add: word_le_nat_alt)
  then have "unat ticks * unat (soc_lptim_rate s) \<le>
      49152 * unat (TICK_HZ s) div unat (soc_lptim_rate s) * unat (soc_lptim_rate s)"
    by (rule mult_right_mono) simp
  also have "\<dots> \<le> 49152 * unat (TICK_HZ s)" by simp
  finally show ?thesis .
qed

lemma lptim_suppress_effect:
  assumes "lptim_suppress ticks s = Some s1"
  shows "soc_lptim_rate s1 = soc_lptim_rate s" "TICK_HZ s1 = TICK_HZ s" "CLOCK_HZ s1 = CLOCK_HZ s"
    "soc_lptim_accum s1 = soc_lptim_accum s"
    "COMPARE s1 = (soc_lptim_start s1 + soc_lptim_armed s1) AND SOC_LPTIM_PERIOD"
    "\<not> NVIC_pending s1" "\<not> FLAG_MATCH s1" "unat (soc_lptim_armed s1) \<le> 49152"
    "soc_lptim_armed s1 = (if soc_lptim_ticks_to_counts ticks s > SOC_LPTIM_MAX_COUNTS then SOC_LPTIM_MAX_COUNTS
                           else soc_lptim_ticks_to_counts ticks s)"
  using assms
  by (auto simp: lptim_suppress_def soc_lptim_count_get_def Let_def max_counts word_less_nat_alt
      split: option.splits)

lemma lptim_suppress_ok: "lptim_suppress ticks s = Some s1 \<Longrightarrow> lptim_ok s1 = lptim_ok s"
  using lptim_suppress_effect(1-4) [of ticks s s1]
  by (simp add: lptim_ok_def lptim_config_ok_def SOC_LPTIM_COUNTS_PER_TICK_def)

text \<open>The compare ends the window at the planned tick, not before it and less than one count after.\<close>

lemma lptim_match_on_time:
  assumes ok: "lptim_ok s" and t: "ticks \<le> lptim_suppress_max s" and o: "lptim_suppress ticks s = Some s1"
    and m: "count AND SOC_LPTIM_PERIOD = COMPARE s1"
  shows "unat ticks * unat (soc_lptim_rate s) \<le> lptim_counts count s1 * unat (TICK_HZ s)"
    "lptim_counts count s1 * unat (TICK_HZ s) < unat ticks * unat (soc_lptim_rate s) + unat (TICK_HZ s)"
proof -
  note d = lptim_okD [OF ok]
  note c = ticks_to_counts_unat [OF ok lptim_window_fits [OF ok t], simplified]
  have a: "soc_lptim_armed s1 = soc_lptim_ticks_to_counts ticks s"
    using lptim_suppress_effect(9) [OF o] c(2) by (simp add: word_less_nat_alt max_counts)
  have e: "unat count mod 65536 = unat (soc_lptim_start s1 + soc_lptim_armed s1) mod 65536"
    using arg_cong [OF m, of unat] lptim_suppress_effect(5) [OF o] by (simp add: low16)
  have sub: "unat (x - y) mod 65536 = (unat x + (4294967296 - unat y)) mod 65536" for x y :: u32
    by (rule low16_diff)
  have "lptim_counts count s1 = (unat count mod 65536 + (4294967296 - unat (soc_lptim_start s1))) mod 65536"
    by (simp add: lptim_counts_def sub mod_simps)
  also have "\<dots> = unat (soc_lptim_start s1 + soc_lptim_armed s1 - soc_lptim_start s1) mod 65536"
    unfolding e by (simp only: sub mod_simps)
  also have "\<dots> = unat (soc_lptim_armed s1)"
    using lptim_suppress_effect(8) [OF o] by simp
  finally have "lptim_counts count s1 =
      (unat ticks * unat (soc_lptim_rate s) + unat (TICK_HZ s) - 1) div unat (TICK_HZ s)"
    using a c(1) by simp
  then show "unat ticks * unat (soc_lptim_rate s) \<le> lptim_counts count s1 * unat (TICK_HZ s)"
    "lptim_counts count s1 * unat (TICK_HZ s) < unat ticks * unat (soc_lptim_rate s) + unat (TICK_HZ s)"
    using ceil_ge [OF d(1)] ceil_less [OF d(1)] by simp_all
qed


section \<open>Many windows in a row\<close>

text \<open>
  A run of windows: \<open>close s w\<close> is what the window \<open>w\<close> reports, \<open>measured s w\<close> how many units of its
  counter it spanned. The answer is the ticks reported and the units measured in all.
\<close>

fun bank_run :: "('s \<Rightarrow> 'w \<Rightarrow> (u32 \<times> 's) option) \<Rightarrow> ('s \<Rightarrow> 'w \<Rightarrow> nat) \<Rightarrow> 's \<Rightarrow> 'w list \<Rightarrow> (nat \<times> nat \<times> 's) option" where
  "bank_run close measured s [] = Some (0, 0, s)"
| "bank_run close measured s (w # ws) =
     (case close s w of
        None \<Rightarrow> None
      | Some (n, s') \<Rightarrow>
          (case bank_run close measured s' ws of
             None \<Rightarrow> None
           | Some (ticks, units, t) \<Rightarrow> Some (unat n + ticks, measured s w + units, t)))"

locale tick_bank =
  fixes close :: "'s \<Rightarrow> 'w \<Rightarrow> (u32 \<times> 's) option"
    and measured :: "'s \<Rightarrow> 'w \<Rightarrow> nat"
    and ok :: "'s \<Rightarrow> bool" and fits :: "'w \<Rightarrow> bool"
    and bank :: "'s \<Rightarrow> nat" and rate :: "'s \<Rightarrow> nat" and hz :: "'s \<Rightarrow> nat"
  assumes close_exact: "ok s \<Longrightarrow> fits w \<Longrightarrow> close s w = Some (n, s') \<Longrightarrow>
      unat n * rate s + bank s' = bank s + measured s w * hz s \<and> ok s' \<and> rate s' = rate s \<and> hz s' = hz s"
    and bank_small: "ok s \<Longrightarrow> bank s < rate s"
begin

lemma run_exact:
  "bank_run close measured s ws = Some (ticks, units, t) \<Longrightarrow> ok s \<Longrightarrow> (\<And>w. w \<in> set ws \<Longrightarrow> fits w) \<Longrightarrow>
   ticks * rate s + bank t = bank s + units * hz s \<and> ok t \<and> rate t = rate s"
proof (induction ws arbitrary: s ticks units)
  case (Cons w ws)
  obtain n s1 where c: "close s w = Some (n, s1)" using Cons.prems(1) by (auto split: option.splits)
  obtain k u where r: "bank_run close measured s1 ws = Some (k, u, t)"
    using Cons.prems(1) c by (auto split: option.splits)
  have e: "ticks = unat n + k" "units = measured s w + u" using Cons.prems(1) c r by auto
  have x: "unat n * rate s + bank s1 = bank s + measured s w * hz s" "ok s1" "rate s1 = rate s" "hz s1 = hz s"
    using close_exact [OF Cons.prems(2) _ c] Cons.prems(3) by simp_all
  have "k * rate s + bank t = bank s1 + u * hz s" "ok t" "rate t = rate s"
    using Cons.IH [OF r x(2)] Cons.prems(3) x(3,4) by simp_all
  then show ?case using x(1) by (simp add: e algebra_simps)
qed simp

lemma run_total:
  assumes "bank_run close measured s ws = Some (ticks, units, t)" "ok s" "\<And>w. w \<in> set ws \<Longrightarrow> fits w"
  shows "ticks = (bank s + units * hz s) div rate s"
proof -
  note x = run_exact [OF assms]
  have b: "bank t < rate s" using x bank_small [of t] by simp
  have "(bank s + units * hz s) div rate s = (bank t + ticks * rate s) div rate s" using x by (simp add: add.commute)
  also have "\<dots> = ticks" using b by simp
  finally show ?thesis by simp
qed

end

text \<open>A window of the low-power timer: armed, then closed; its readings are next on the tape.\<close>

definition lptim_window :: "lptim \<Rightarrow> u32 \<Rightarrow> (u32 \<times> lptim) option" where
  "lptim_window s ticks = (case lptim_suppress ticks s of None \<Rightarrow> None | Some s1 \<Rightarrow> lptim_resume s1)"

definition lptim_measured :: "lptim \<Rightarrow> u32 \<Rightarrow> nat" where
  "lptim_measured s ticks =
     (case lptim_suppress ticks s of
        None \<Rightarrow> 0
      | Some s1 \<Rightarrow>
          if soc_lptim_armed s1 = 0 then 0
          else (case soc_lptim_count_get s1 of None \<Rightarrow> 0 | Some (count, _) \<Rightarrow> lptim_counts count s1))"

lemma lptim_window_exact:
  assumes ok: "lptim_ok s" and w: "lptim_window s ticks = Some (n, s')"
  shows "unat n * unat (soc_lptim_rate s) + unat (soc_lptim_accum s') =
      unat (soc_lptim_accum s) + lptim_measured s ticks * unat (TICK_HZ s) \<and>
    lptim_ok s' \<and> unat (soc_lptim_rate s') = unat (soc_lptim_rate s) \<and> unat (TICK_HZ s') = unat (TICK_HZ s)"
proof -
  obtain s1 where o: "lptim_suppress ticks s = Some s1" and r: "lptim_resume s1 = Some (n, s')"
    using w by (auto simp: lptim_window_def split: option.splits)
  note e = lptim_suppress_effect(1-4) [OF o]
  have ok1: "lptim_ok s1" using ok lptim_suppress_ok [OF o] by simp
  show ?thesis
  proof (cases "soc_lptim_armed s1 = 0")
    case True
    then show ?thesis using r o e ok1 by (simp add: lptim_resume_def lptim_measured_def)
  next
    case False
    then obtain count s2 where c: "soc_lptim_count_get s1 = Some (count, s2)"
      using r by (auto simp: lptim_resume_def split: option.splits)
    show ?thesis
      using lptim_resume_exact [OF ok1 False c r] o c False e by (simp add: lptim_measured_def)
  qed
qed

interpretation lptim_bank: tick_bank lptim_window lptim_measured lptim_ok "\<lambda>_. True"
  "\<lambda>s. unat (soc_lptim_accum s)" "\<lambda>s. unat (soc_lptim_rate s)" "\<lambda>s. unat (TICK_HZ s)"
  by unfold_locales (rule lptim_window_exact, assumption+, rule lptim_okD(5))

text \<open>A window of the always-on timer: the planned ticks and the two readings of the clock, in ms.\<close>

definition powman_ok :: "powman \<Rightarrow> bool" where
  "powman_ok s \<longleftrightarrow> powman_config_ok s \<and> unat (soc_powman_accum_ms_hz s) < 1000"

definition powman_window :: "u32 \<Rightarrow> powman \<Rightarrow> u32 \<times> u64 \<times> u64 \<Rightarrow> (u32 \<times> powman) option" where
  "powman_window lposc_khz s w =
     (case w of (ticks, opened, closed) \<Rightarrow>
        Some (soc_powman_window_close closed (soc_powman_window_open lposc_khz opened ticks s)))"

definition span_fits :: "u32 \<times> u64 \<times> u64 \<Rightarrow> bool" where
  "span_fits w \<longleftrightarrow> (case w of (ticks, opened, closed) \<Rightarrow> unat (closed - opened) < 2 ^ 32)"

definition span_measured :: "'s \<Rightarrow> u32 \<times> u64 \<times> u64 \<Rightarrow> nat" where
  "span_measured s w = (case w of (ticks, opened, closed) \<Rightarrow> unat (closed - opened))"

lemma powman_open_effect:
  "soc_powman_entry_ms (soc_powman_window_open k now ticks s) = now"
  "soc_powman_accum_ms_hz (soc_powman_window_open k now ticks s) = soc_powman_accum_ms_hz s"
  "PM_TICK_HZ (soc_powman_window_open k now ticks s) = PM_TICK_HZ s"
  by (simp_all add: soc_powman_window_open_def soc_powman_ready_get_def Let_def)

lemma powman_hz: "powman_config_ok s \<Longrightarrow> 0 < unat (PM_TICK_HZ s) \<and> unat (PM_TICK_HZ s) \<le> 1000"
proof -
  assume "powman_config_ok s"
  then have h: "PM_TICK_HZ s \<noteq> 0" "1000 div PM_TICK_HZ s \<noteq> 0"
    by (simp_all add: powman_config_ok_def SOC_POWMAN_MS_PER_TICK_def)
  then have "unat (1000 div PM_TICK_HZ s) \<noteq> 0" by (simp only: unat_eq_0 not_False_eq_True)
  then show ?thesis using h(1) by (simp add: unat_div div_eq_0_iff not_less unat_gt_0)
qed

lemma bank_fits:
  "b < r \<Longrightarrow> h \<le> r \<Longrightarrow> (m :: nat) < 4294967296 \<Longrightarrow> r \<le> 4294967296 \<Longrightarrow>
   b + m * h < 18446744073709551616 \<and> (b + m * h) div r < 4294967296"
proof -
  assume a: "b < r" "h \<le> r" "m < 4294967296" "r \<le> 4294967296"
  have "b + m * h < r + 4294967295 * r" using a(1) mult_mono [of m 4294967295 h r] a(2,3) by simp
  then have l: "b + m * h < 4294967296 * r" by simp
  moreover have "4294967296 * r \<le> 4294967296 * 4294967296" using a(4) by simp
  ultimately show ?thesis using a(1) by (simp add: div_less_iff_less_mult)
qed

lemma powman_window_exact:
  assumes ok: "powman_ok s" and f: "span_fits w" and w: "powman_window k s w = Some (n, s')"
  shows "unat n * 1000 + unat (soc_powman_accum_ms_hz s') =
      unat (soc_powman_accum_ms_hz s) + span_measured s w * unat (PM_TICK_HZ s) \<and>
    powman_ok s' \<and> unat (PM_TICK_HZ s') = unat (PM_TICK_HZ s)"
proof -
  obtain ticks opened closed where we: "w = (ticks, opened, closed)" by (cases w) auto
  have a: "unat (soc_powman_accum_ms_hz s) < 1000" "powman_config_ok s" using ok by (simp_all add: powman_ok_def)
  have b: "unat (closed - opened) < 4294967296" using f by (simp add: span_fits_def we)
  define banked where "banked = soc_powman_accum_ms_hz s + (closed - opened) * ucast (PM_TICK_HZ s)"
  have n: "n = ucast (banked div 1000)" and r: "soc_powman_accum_ms_hz s' = banked - ucast n * 1000"
    and h: "PM_TICK_HZ s' = PM_TICK_HZ s"
    using w by (auto simp: powman_window_def we soc_powman_window_close_def Let_def powman_open_effect banked_def)
  note fit = bank_fits [OF a(1) conjunct2 [OF powman_hz [OF a(2)]] b]
  have "unat n * 1000 + unat (soc_powman_accum_ms_hz s') =
      unat (soc_powman_accum_ms_hz s) + unat (closed - opened) * unat (PM_TICK_HZ s)"
    "unat (soc_powman_accum_ms_hz s') < 1000"
    using bank_exact [OF a(1), of 1000 "closed - opened" "PM_TICK_HZ s" banked n "soc_powman_accum_ms_hz s'"] fit n r
    by (simp_all add: banked_def)
  then show ?thesis
    using a(2) h by (simp add: span_measured_def we powman_ok_def powman_config_ok_def SOC_POWMAN_MS_PER_TICK_def)
qed

interpretation powman_bank: tick_bank "powman_window k" span_measured powman_ok span_fits
  "\<lambda>s. unat (soc_powman_accum_ms_hz s)" "\<lambda>_. 1000" "\<lambda>s. unat (PM_TICK_HZ s)" for k
  by unfold_locales (use powman_window_exact in blast, simp add: powman_ok_def)

text \<open>A window of the microsecond timer.\<close>

definition us_ok :: "us_timer \<Rightarrow> bool" where
  "us_ok s \<longleftrightarrow> US_TICK_HZ s \<noteq> 0 \<and> unat (US_TICK_HZ s) \<le> 1000000 \<and> 0 \<le> soc_tickless_alarm s \<and>
     unat (soc_tickless_accum_us_hz s) < 1000000"

definition us_window :: "int \<Rightarrow> us_timer \<Rightarrow> u32 \<times> u64 \<times> u64 \<Rightarrow> (u32 \<times> us_timer) option" where
  "us_window claimed s w =
     (case w of (ticks, opened, closed) \<Rightarrow> Some (us_resume closed (us_suppress claimed opened ticks s)))"

lemma us_window_exact:
  assumes ok: "us_ok s" and f: "span_fits w" and w: "us_window claimed s w = Some (n, s')"
  shows "unat n * 1000000 + unat (soc_tickless_accum_us_hz s') =
      unat (soc_tickless_accum_us_hz s) + span_measured s w * unat (US_TICK_HZ s) \<and>
    us_ok s' \<and> unat (US_TICK_HZ s') = unat (US_TICK_HZ s)"
proof -
  obtain ticks opened closed where we: "w = (ticks, opened, closed)" by (cases w) auto
  have a: "unat (soc_tickless_accum_us_hz s) < 1000000" "unat (US_TICK_HZ s) \<le> 1000000" "0 \<le> soc_tickless_alarm s"
    using ok by (simp_all add: us_ok_def)
  have b: "unat (closed - opened) < 4294967296" using f by (simp add: span_fits_def we)
  define banked where "banked = soc_tickless_accum_us_hz s + (closed - opened) * ucast (US_TICK_HZ s)"
  have n: "n = ucast (banked div 1000000)" and r: "soc_tickless_accum_us_hz s' = banked - ucast n * 1000000"
    and h: "US_TICK_HZ s' = US_TICK_HZ s" "soc_tickless_alarm s' = soc_tickless_alarm s"
    using w a(3) by (auto simp: us_window_def we us_resume_def us_suppress_def soc_tickless_alarm_ready_def Let_def
        banked_def)
  note fit = bank_fits [OF a(1) a(2) b]
  have "unat n * 1000000 + unat (soc_tickless_accum_us_hz s') =
      unat (soc_tickless_accum_us_hz s) + unat (closed - opened) * unat (US_TICK_HZ s)"
    "unat (soc_tickless_accum_us_hz s') < 1000000"
    using bank_exact [OF a(1), of 1000000 "closed - opened" "US_TICK_HZ s" banked n "soc_tickless_accum_us_hz s'"]
      fit n r by (simp_all add: banked_def)
  then show ?thesis using ok h by (simp add: span_measured_def we us_ok_def)
qed

interpretation us_bank: tick_bank "us_window claimed" span_measured us_ok span_fits
  "\<lambda>s. unat (soc_tickless_accum_us_hz s)" "\<lambda>_. 1000000" "\<lambda>s. unat (US_TICK_HZ s)" for claimed
  by unfold_locales (use us_window_exact in blast, simp add: us_ok_def)


section \<open>The machine timer stays on its grid\<close>

text \<open>
  The tick's grid: the moments \<open>base + k * interval\<close> at which a tick falls due. \<open>grid_passed\<close> is how many
  of them, from the base on, the clock has reached.
\<close>

definition grid_passed :: "nat \<Rightarrow> nat \<Rightarrow> nat \<Rightarrow> nat" where
  "grid_passed base interval now = (if now < base then 0 else (now - base) div interval + 1)"

lemma grid_passed_less: "0 < i \<Longrightarrow> grid_passed b i t < k \<longleftrightarrow> 0 < k \<and> t < b + (k - 1) * i"
  by (cases k) (auto simp: grid_passed_def div_less_iff_less_mult)

lemma grid_passed_next: "0 < i \<Longrightarrow> t < b + grid_passed b i t * i"
proof -
  assume "0 < i"
  then have "grid_passed b i t < Suc (grid_passed b i t) \<longleftrightarrow> t < b + grid_passed b i t * i"
    using grid_passed_less [of i b t "Suc (grid_passed b i t)"] by simp
  then show ?thesis by simp
qed

text \<open>The window is open, and neither its end nor the clock is near the end of the 64 bits.\<close>

definition mtimer_armed :: "u32 \<Rightarrow> mtimer \<Rightarrow> bool" where
  "mtimer_armed n s \<longleftrightarrow> soc_tick_interval s \<noteq> 0 \<and> soc_tickless_planned s = n \<and> 2 \<le> unat n \<and>
     unat (soc_tickless_base s) + unat n * unat (soc_tick_interval s) < 2 ^ 64 \<and>
     unat (MTIMECMP s) = unat (soc_tickless_base s) + (unat n - 1) * unat (soc_tick_interval s) \<and>
     grid_passed (unat (soc_tickless_base s)) (unat (soc_tick_interval s)) (unat (MTIME s)) < 2 ^ 32"

lemma mtimer_suppress_arms:
  assumes i: "soc_tick_interval s \<noteq> 0" and n: "2 \<le> unat n"
    and f: "unat (MTIMECMP s) + unat n * unat (soc_tick_interval s) < 2 ^ 64"
    and g: "grid_passed (unat (MTIMECMP s)) (unat (soc_tick_interval s)) now < 2 ^ 32" "now < 2 ^ 64"
  shows "mtimer_armed n ((mtimer_suppress n s)\<lparr>MTIME := of_nat now\<rparr>)"
    "soc_tickless_base (mtimer_suppress n s) = MTIMECMP s"
    "soc_tick_interval (mtimer_suppress n s) = soc_tick_interval s"
proof -
  have n1: "n > 1" "n \<noteq> 0" using n by (auto simp: word_less_nat_alt)
  have p: "unat (n - 1) = unat n - 1" using n1(2) by (rule word_pred_unat)
  have "(unat n - 1) * unat (soc_tick_interval s) \<le> unat n * unat (soc_tick_interval s)" by (simp add: mult_le_mono1)
  then have l: "unat (MTIMECMP s) + (unat n - 1) * unat (soc_tick_interval s) < 2 ^ 64" using f by linarith
  then have m: "unat (ucast (n - 1) * ucast (soc_tick_interval s) :: u64) = (unat n - 1) * unat (soc_tick_interval s)"
    using p by (subst unat_mult64) simp_all
  have c: "unat (MTIMECMP s + ucast (n - 1) * ucast (soc_tick_interval s)) =
      unat (MTIMECMP s) + (unat n - 1) * unat (soc_tick_interval s)"
    using l m by (subst unat_add64) simp_all
  have t: "unat (of_nat now :: u64) = now" using g(2) by (simp add: unat_of_nat take_bit_nat_eq_self)
  show "mtimer_armed n ((mtimer_suppress n s)\<lparr>MTIME := of_nat now\<rparr>)"
    "soc_tickless_base (mtimer_suppress n s) = MTIMECMP s"
    "soc_tick_interval (mtimer_suppress n s) = soc_tick_interval s"
    using i n1 n f g c t by (simp_all add: mtimer_suppress_def mtimer_armed_def)
qed

text \<open>
  The close reports the ticks that passed, but for the last one of the window, which the interrupt
  takes; and it leaves the comparator on the first tick that is not reported.
\<close>

lemma mtimer_resume_exact:
  assumes a: "mtimer_armed n s" and r: "mtimer_resume s = (e, s')"
  shows "unat e = min (unat n - 1) (grid_passed (unat (soc_tickless_base s)) (unat (soc_tick_interval s)) (unat (MTIME s)))"
    "unat (MTIMECMP s') = unat (soc_tickless_base s) + unat e * unat (soc_tick_interval s)"
    "soc_tickless_planned s' = 0" "soc_tick_interval s' = soc_tick_interval s" "MTIME s' = MTIME s"
proof -
  let ?b = "unat (soc_tickless_base s)" and ?i = "unat (soc_tick_interval s)" and ?t = "unat (MTIME s)"
  let ?g = "grid_passed ?b ?i ?t"
  have i: "0 < ?i" "n \<noteq> 0" "2 \<le> unat n" "soc_tickless_planned s = n" "?g < 4294967296"
    "unat (MTIMECMP s) = ?b + (unat n - 1) * ?i" "?b + unat n * ?i < 18446744073709551616"
    using a by (auto simp: mtimer_armed_def unat_gt_0)
  have p: "unat (n - 1) = unat n - 1" using i(2) by (rule word_pred_unat)
  define e0 where "e0 = (if MTIME s \<ge> soc_tickless_base s
                         then 1 + ucast ((MTIME s - soc_tickless_base s) div ucast (soc_tick_interval s)) else (0::u32))"
  have e0: "unat e0 = ?g"
  proof (cases "soc_tickless_base s \<le> MTIME s")
    case True
    then have q: "unat ((MTIME s - soc_tickless_base s) div ucast (soc_tick_interval s)) = (?t - ?b) div ?i"
      by (simp add: unat_div unat_sub)
    have g: "?g = (?t - ?b) div ?i + 1" using True by (simp add: grid_passed_def word_le_nat_alt)
    then have "unat (ucast ((MTIME s - soc_tickless_base s) div ucast (soc_tick_interval s)) :: u32) = (?t - ?b) div ?i"
      using i(5) by (simp add: unat_narrow q)
    then show ?thesis using True g i(5) by (simp add: e0_def unat_add_lt)
  next
    case False
    then show ?thesis by (simp add: e0_def grid_passed_def word_le_nat_alt)
  qed
  have e: "e = (if e0 > n - 1 then n - 1 else e0)"
    and s': "s' = (if e < n - 1 then s\<lparr>MTIMECMP := soc_tickless_base s + ucast e * ucast (soc_tick_interval s)\<rparr> else s)
                    \<lparr>soc_tickless_planned := 0\<rparr>"
    using r i(2,4) by (auto simp: mtimer_resume_def Let_def e0_def [symmetric])
  show ue: "unat e = min (unat n - 1) ?g" using e e0 p by (auto simp: word_less_nat_alt min_def)
  have "unat e * ?i \<le> unat n * ?i" using ue by (intro mult_right_mono) simp_all
  then have l: "?b + unat e * ?i < 18446744073709551616" using i(7) by linarith
  then have m: "unat (ucast e * ucast (soc_tick_interval s) :: u64) = unat e * ?i" by (subst unat_mult64) simp_all
  have c: "unat (soc_tickless_base s + ucast e * ucast (soc_tick_interval s)) = ?b + unat e * ?i"
    using l m by (subst unat_add64) simp_all
  show "unat (MTIMECMP s') = ?b + unat e * ?i"
  proof (cases "e < n - 1")
    case True
    then show ?thesis by (simp add: s' c)
  next
    case False
    then have "unat e = unat n - 1" using e by (auto simp: p split: if_splits)
    then show ?thesis using False i(6) by (simp add: s')
  qed
  show "soc_tickless_planned s' = 0" "soc_tick_interval s' = soc_tick_interval s" "MTIME s' = MTIME s"
    by (simp_all add: s')
qed


text \<open>The interrupts that follow a close: each is taken while the clock has reached the comparator.\<close>

fun take_ticks :: "nat \<Rightarrow> mtimer \<Rightarrow> nat \<times> mtimer" where
  "take_ticks 0 s = (0, s)"
| "take_ticks (Suc fuel) s =
     (if MTIMECMP s \<le> MTIME s then (case take_ticks fuel (soc_tick_isr s) of (n, t) \<Rightarrow> (Suc n, t)) else (0, s))"

lemma take_ticks_exact:
  assumes "soc_tick_interval s \<noteq> 0" "unat (MTIMECMP s) = b + k * unat (soc_tick_interval s)"
    "b + grid_passed b (unat (soc_tick_interval s)) (unat (MTIME s)) * unat (soc_tick_interval s) < 2 ^ 64"
    "grid_passed b (unat (soc_tick_interval s)) (unat (MTIME s)) \<le> k + fuel"
  shows "fst (take_ticks fuel s) = grid_passed b (unat (soc_tick_interval s)) (unat (MTIME s)) - k"
  using assms
proof (induction fuel arbitrary: s k)
  case (Suc fuel)
  let ?i = "unat (soc_tick_interval s)" and ?t = "unat (MTIME s)"
  let ?g = "grid_passed b ?i ?t"
  have i: "0 < ?i" using Suc.prems(1) by (simp add: unat_gt_0)
  have due: "MTIMECMP s \<le> MTIME s \<longleftrightarrow> k < ?g"
  proof -
    have "?g < Suc k \<longleftrightarrow> ?t < b + k * ?i" using grid_passed_less [OF i, of b ?t "Suc k"] by simp
    then show ?thesis using Suc.prems(2) by (auto simp: word_le_nat_alt)
  qed
  show ?case
  proof (cases "k < ?g")
    case True
    then have "Suc k * ?i \<le> ?g * ?i" by (intro mult_right_mono) simp_all
    then have "unat (MTIMECMP s) + ?i < 18446744073709551616" using Suc.prems(2,3) by simp
    then have c: "unat (MTIMECMP (soc_tick_isr s)) = b + Suc k * ?i"
      using Suc.prems(2) unat_add64 [of "MTIMECMP s" "ucast (soc_tick_interval s)"] by (simp add: soc_tick_isr_def)
    have f: "soc_tick_interval (soc_tick_isr s) = soc_tick_interval s" "MTIME (soc_tick_isr s) = MTIME s"
      by (simp_all add: soc_tick_isr_def)
    have "fst (take_ticks fuel (soc_tick_isr s)) = ?g - Suc k"
      using Suc.IH [of "soc_tick_isr s" "Suc k", unfolded f] c Suc.prems(1,3,4) by simp
    then show ?thesis using True due by (simp add: split_beta)
  qed (simp add: due)
qed simp

text \<open>
  Over a window and the interrupts after it, the kernel is told of every tick that fell due, once.
\<close>

lemma mtimer_window_exact:
  assumes a: "mtimer_armed n s" and r: "mtimer_resume s = (e, s')"
    and f: "unat (soc_tickless_base s) +
        grid_passed (unat (soc_tickless_base s)) (unat (soc_tick_interval s)) (unat (MTIME s)) *
          unat (soc_tick_interval s) < 2 ^ 64"
      "grid_passed (unat (soc_tickless_base s)) (unat (soc_tick_interval s)) (unat (MTIME s)) \<le> fuel"
  shows "unat e + fst (take_ticks fuel s') =
    grid_passed (unat (soc_tickless_base s)) (unat (soc_tick_interval s)) (unat (MTIME s))"
proof -
  note x = mtimer_resume_exact [OF a r]
  have i: "soc_tick_interval s \<noteq> 0" using a by (simp add: mtimer_armed_def)
  show ?thesis
    using take_ticks_exact [of s' "unat (soc_tickless_base s)" "unat e" fuel] x f i by simp
qed

section \<open>The window of STM32, from the plan to what is announced\<close>

text \<open>
  \<open>os_arch_sleep_prepare\<close>, the sleep and \<open>os_arch_elapsed_ticks_get\<close> with the low-power timer as
  the SoC's source. \<open>None\<close>: the counter is still being polled.
\<close>

definition lptim_source :: "u32 \<Rightarrow> lptim \<Rightarrow> soc_source" where
  "lptim_source elapsed s =
     \<lparr>tick_suppress_max_cb = lptim_suppress_max s, tick_suppress_min_cb = lptim_suppress_min s,
      tick_resume_cb = elapsed\<rparr>"

definition stm32_sleep :: "(systick \<Rightarrow> systick) \<Rightarrow> lptim \<times> window \<Rightarrow> u32 \<Rightarrow> (u32 \<times> lptim \<times> window) option" where
  "stm32_sleep hw sw planned =
     (case sw of (s, w) \<Rightarrow>
        if planned \<ge> 2 \<and> lptim_suppress_max s \<noteq> 0 then
          (case lptim_window s planned of
             None \<Rightarrow> None
           | Some (elapsed, s') \<Rightarrow>
               (case os_arch_elapsed_ticks_get (\<lambda>_ e. e) (lptim_source elapsed s)
                       (OS_ARCH_SLEEP (lptim_source elapsed s) hw planned w) of
                  (n, w') \<Rightarrow> Some (n, s', w')))
        else
          (case os_arch_elapsed_ticks_get (\<lambda>_ e. e) (lptim_source 0 s)
                  (OS_ARCH_SLEEP (lptim_source 0 s) hw planned w) of
             (n, w') \<Rightarrow> Some (n, s, w')))"

lemma soc_window_answer:
  assumes "2 \<le> p" "tick_suppress_max_cb soc \<noteq> 0"
  shows "fst (os_arch_elapsed_ticks_get (\<lambda>_ e. e) soc (OS_ARCH_SLEEP soc hw p w)) =
    (if tick_resume_cb soc > p then p else tick_resume_cb soc)"
proof -
  have "p \<noteq> 0" using assms(1) by (auto simp: word_le_nat_alt)
  then show ?thesis
    using assms by (simp add: os_arch_elapsed_ticks_get_def sleep_window os_arch_sleep_prepare_def Let_def)
qed

lemma stm32_sleep_step:
  assumes "2 \<le> p" "lptim_suppress_max s \<noteq> 0" "lptim_window s p = Some (e, s')"
  shows "\<exists>w'. stm32_sleep hw (s, w) p = Some (if e > p then p else e, s', w')"
proof -
  have "fst (os_arch_elapsed_ticks_get (\<lambda>_ e. e) (lptim_source e s) (OS_ARCH_SLEEP (lptim_source e s) hw p w)) =
      (if e > p then p else e)"
    using soc_window_answer [of p "lptim_source e s" hw w] assms(1,2) by (simp add: lptim_source_def)
  then show ?thesis
    using assms
    by (cases "os_arch_elapsed_ticks_get (\<lambda>_ e. e) (lptim_source e s) (OS_ARCH_SLEEP (lptim_source e s) hw p w)")
       (simp add: stm32_sleep_def)
qed

lemma stm32_sleep_answer:
  assumes p: "2 \<le> p" "lptim_suppress_max s \<noteq> 0" and r: "stm32_sleep hw (s, w) p = Some (n, s', w')"
  obtains e where "lptim_window s p = Some (e, s')" "n = (if e > p then p else e)"
proof (cases "lptim_window s p")
  case None
  then show thesis using p r by (simp add: stm32_sleep_def)
next
  case (Some es)
  obtain e s1 where es: "es = (e, s1)" by (cases es)
  then show thesis using stm32_sleep_step [OF p, of e s1 hw w] Some r that by auto
qed

text \<open>
  What a window announces, and what it does not: the ticks beyond the plan have left the bank, but
  the clamp of \<open>os_arch_elapsed_ticks_get\<close> keeps them from the kernel.
\<close>

lemma stm32_sleep_accounts:
  assumes ok: "lptim_ok s" and p: "2 \<le> p" "lptim_suppress_max s \<noteq> 0"
    and r: "stm32_sleep hw (s, w) p = Some (n, s', w')"
  obtains lost where
    "(unat n + lost) * unat (soc_lptim_rate s) + unat (soc_lptim_accum s') =
       unat (soc_lptim_accum s) + lptim_measured s p * unat (TICK_HZ s)"
    "n \<le> p" "lptim_ok s'" "soc_lptim_rate s' = soc_lptim_rate s"
    "0 < lost \<longleftrightarrow> (unat p + 1) * unat (soc_lptim_rate s) \<le>
       unat (soc_lptim_accum s) + lptim_measured s p * unat (TICK_HZ s)"
proof -
  obtain e where e: "lptim_window s p = Some (e, s')" and n: "n = (if e > p then p else e)"
    by (rule stm32_sleep_answer [OF p r])
  note x = lptim_window_exact [OF ok e]
  have b: "unat (soc_lptim_accum s') < unat (soc_lptim_rate s)" using lptim_okD(5) [of s'] x by simp
  have le: "n \<le> p" "unat n + (unat e - unat n) = unat e" using n by (auto simp: word_le_nat_alt word_less_nat_alt)
  have "0 < unat e - unat n \<longleftrightarrow> unat p < unat e" using n by (auto simp: word_less_nat_alt)
  also have "\<dots> \<longleftrightarrow> (unat p + 1) * unat (soc_lptim_rate s) \<le>
       unat (soc_lptim_accum s) + lptim_measured s p * unat (TICK_HZ s)"
  proof
    assume "unat p < unat e"
    then have "(unat p + 1) * unat (soc_lptim_rate s) \<le> unat e * unat (soc_lptim_rate s)"
      by (intro mult_right_mono) simp_all
    then show "(unat p + 1) * unat (soc_lptim_rate s) \<le>
       unat (soc_lptim_accum s) + lptim_measured s p * unat (TICK_HZ s)" using x by linarith
  next
    assume a: "(unat p + 1) * unat (soc_lptim_rate s) \<le>
       unat (soc_lptim_accum s) + lptim_measured s p * unat (TICK_HZ s)"
    show "unat p < unat e"
    proof (rule ccontr)
      assume "\<not> unat p < unat e"
      then have "unat e * unat (soc_lptim_rate s) \<le> unat p * unat (soc_lptim_rate s)"
        by (intro mult_right_mono) simp_all
      moreover have "(unat p + 1) * unat (soc_lptim_rate s) = unat p * unat (soc_lptim_rate s) + unat (soc_lptim_rate s)"
        by simp
      ultimately show False using a b conjunct1 [OF x] by linarith
    qed
  qed
  finally show thesis
    using x le by (intro that [of "unat e - unat n"]) (simp_all add: word_unat_eq_iff)
qed

text \<open>
  Four windows of ten ticks, each left eight counts (a quarter of a millisecond) after its match, at
  32768 Hz and a tick of 1 kHz: 1344 counts, just over 41 ticks, of which the kernel is told 40.
\<close>

definition late_lptim :: lptim where
  "late_lptim = \<lparr>CLOCK_HZ = 32768, TICK_HZ = 1000, soc_lptim_rate = 32768, soc_lptim_start = 0, soc_lptim_armed = 0,
     soc_lptim_accum = 0, COMPARE = 0, FLAG_MATCH = False, NVIC_pending = False,
     lptim_reads = [0, 0, 336, 336, 400, 400, 736, 736, 800, 800, 1136, 1136, 1200, 1200, 1536, 1536]\<rparr>"

lemma late_lptim_ok: "lptim_ok late_lptim" by code_simp

text \<open>The four states the timer goes through: \<open>k\<close> windows closed.\<close>

definition late_after :: "u32 \<Rightarrow> u64 \<Rightarrow> u32 list \<Rightarrow> lptim" where
  "late_after start accum rs = late_lptim\<lparr>soc_lptim_start := start, soc_lptim_accum := accum,
     COMPARE := (start + 328) AND SOC_LPTIM_PERIOD, lptim_reads := rs\<rparr>"

lemmas lptim_eval = lptim_window_def lptim_measured_def lptim_suppress_def lptim_resume_def soc_lptim_count_get_def
  soc_lptim_ticks_to_counts_def lptim_counts_def late_after_def late_lptim_def SOC_LPTIM_MAX_COUNTS_def SOC_LPTIM_PERIOD_def

lemma late_windows:
  "lptim_window late_lptim 10 =
     Some (10, late_after 0 8320 [400, 400, 736, 736, 800, 800, 1136, 1136, 1200, 1200, 1536, 1536])"
  "lptim_window (late_after 0 8320 [400, 400, 736, 736, 800, 800, 1136, 1136, 1200, 1200, 1536, 1536]) 10 =
     Some (10, late_after 400 16640 [800, 800, 1136, 1136, 1200, 1200, 1536, 1536])"
  "lptim_window (late_after 400 16640 [800, 800, 1136, 1136, 1200, 1200, 1536, 1536]) 10 =
     Some (10, late_after 800 24960 [1200, 1200, 1536, 1536])"
  "lptim_window (late_after 800 24960 [1200, 1200, 1536, 1536]) 10 = Some (11, late_after 1200 512 [])"
  by (simp_all add: lptim_eval Let_def)

lemma late_measured:
  "lptim_measured late_lptim 10 = 336"
  "lptim_measured (late_after 0 8320 [400, 400, 736, 736, 800, 800, 1136, 1136, 1200, 1200, 1536, 1536]) 10 = 336"
  "lptim_measured (late_after 400 16640 [800, 800, 1136, 1136, 1200, 1200, 1536, 1536]) 10 = 336"
  "lptim_measured (late_after 800 24960 [1200, 1200, 1536, 1536]) 10 = 336"
  by (simp_all add: lptim_eval Let_def)

lemma late_max: "lptim_suppress_max late_lptim \<noteq> 0" "lptim_suppress_max (late_after st a rs) \<noteq> 0"
  by (simp_all add: lptim_suppress_max_def late_after_def late_lptim_def SOC_LPTIM_MAX_COUNTS_def SOC_LPTIM_PERIOD_def)

lemma late_wakes_drop_a_tick:
  "\<exists>w'. bank_run (stm32_sleep hw) (\<lambda>sw. lptim_measured (fst sw)) (late_lptim, w) [10, 10, 10, 10] =
     Some (40, 1344, late_after 1200 512 [], w')"
proof -
  note step = stm32_sleep_step [of 10 _ _ _ hw, simplified]
  obtain w1 where 1: "stm32_sleep hw (late_lptim, w) 10 =
      Some (10, late_after 0 8320 [400, 400, 736, 736, 800, 800, 1136, 1136, 1200, 1200, 1536, 1536], w1)"
    using step [OF late_max(1) late_windows(1), of w] by auto
  obtain w2 where 2: "stm32_sleep hw (late_after 0 8320 [400, 400, 736, 736, 800, 800, 1136, 1136, 1200, 1200, 1536, 1536], w1) 10 =
      Some (10, late_after 400 16640 [800, 800, 1136, 1136, 1200, 1200, 1536, 1536], w2)"
    using step [OF late_max(2) late_windows(2), of w1] by auto
  obtain w3 where 3: "stm32_sleep hw (late_after 400 16640 [800, 800, 1136, 1136, 1200, 1200, 1536, 1536], w2) 10 =
      Some (10, late_after 800 24960 [1200, 1200, 1536, 1536], w3)"
    using step [OF late_max(2) late_windows(3), of w2] by auto
  obtain w4 where 4: "stm32_sleep hw (late_after 800 24960 [1200, 1200, 1536, 1536], w3) 10 =
      Some (10, late_after 1200 512 [], w4)"
    using step [OF late_max(2) late_windows(4), of w3] by auto
  show ?thesis by (rule exI [of _ w4]) (simp add: 1 2 3 4 late_measured)
qed

section \<open>The calibration either traps or leaves a usable rate\<close>

lemma calibration_ok:
  assumes r: "lptim_soc_ready hz cycles s = Done s'" and ok: "lptim_ok s" and z: "soc_lptim_accum s = 0"
  shows "lptim_ok s'"
proof (cases "hz = 0")
  case True
  then show ?thesis using r ok by (simp add: lptim_soc_ready_def)
next
  case False
  have s': "s' = s\<lparr>soc_lptim_rate := soc_lptim_rate s', lptim_reads := lptim_reads s'\<rparr> \<and>
      CLOCK_HZ s - CLOCK_HZ s div SOC_LPTIM_CAL_TOLERANCE \<le> soc_lptim_rate s' \<and>
      soc_lptim_rate s' \<le> CLOCK_HZ s + CLOCK_HZ s div SOC_LPTIM_CAL_TOLERANCE"
    using r False
    by (auto simp: lptim_soc_ready_def Let_def not_less split: option.splits outcome.splits prod.splits if_splits)
  note d = lptim_okD [OF ok]
  have "CLOCK_HZ s \<le> 1000000" "CLOCK_HZ s div TICK_HZ s \<noteq> 0"
    using ok by (simp_all add: lptim_ok_def lptim_config_ok_def SOC_LPTIM_COUNTS_PER_TICK_def)
  then have c: "0 < unat (CLOCK_HZ s)" by (cases "CLOCK_HZ s = 0") (auto simp: unat_gt_0)
  have "unat (CLOCK_HZ s - CLOCK_HZ s div SOC_LPTIM_CAL_TOLERANCE) = unat (CLOCK_HZ s) - unat (CLOCK_HZ s) div 4"
    by (subst unat_sub) (simp_all add: word_le_nat_alt SOC_LPTIM_CAL_TOLERANCE_def unat_div)
  then have p: "0 < unat (soc_lptim_rate s')" using s' c by (auto simp: word_le_nat_alt)
  have f: "CLOCK_HZ s' = CLOCK_HZ s" "TICK_HZ s' = TICK_HZ s" "soc_lptim_accum s' = 0"
    using conjunct1 [OF s'] z by (metis (lifting) lptim.select_convs lptim.surjective lptim.update_convs(3,10))+
  show ?thesis using ok s' p f
    by (simp add: lptim_ok_def lptim_config_ok_def SOC_LPTIM_COUNTS_PER_TICK_def)
qed

end
