(* ===== verification/SocSleep.thy ===== *)
theory SocSleep
  imports Prelude
begin

text \<open>
  Deep sleep on the two-core RP235x: the rendezvous by which core 0 parks core 1 before it stops the
  clock they share (\<^verbatim>\<open>soc/raspberrypi/rp235x_riscv/soc_cb.c\<close>, and with the same shared words and the
  same order of accesses \<^verbatim>\<open>soc/raspberrypi/rp235x_arm/soc_cb.c\<close>). Each core is a state machine over
  its program points; a step makes at most one access to a shared word, and the cores' steps
  interleave freely. The fences of the code make the accesses happen in that order. What a core reads from its
  environment in a step (pending work, the time, whether the idle task runs, the application's veto)
  is the argument of the step.
\<close>

section \<open>Pending work\<close>

definition SOC_SLEEP_MIP_SWI :: u32 where "SOC_SLEEP_MIP_SWI = 2 ^ 3"
definition SOC_SLEEP_SWI_POLLS :: nat where "SOC_SLEEP_SWI_POLLS = 64"

text \<open>RISC-V: the interrupts pending in \<^verbatim>\<open>mip\<close> and enabled in \<^verbatim>\<open>mie\<close>.\<close>

definition soc_sleep_work_pending_ex :: "u32 \<Rightarrow> u32 \<Rightarrow> bool \<Rightarrow> bool" where
  "soc_sleep_work_pending_ex mip mie swi_matters =
     (let pending = mip AND mie;
          pending' = (if \<not> swi_matters then pending AND NOT SOC_SLEEP_MIP_SWI else pending)
      in pending' \<noteq> 0)"

definition soc_sleep_work_pending :: "u32 \<Rightarrow> u32 \<Rightarrow> bool" where
  "soc_sleep_work_pending mip mie = soc_sleep_work_pending_ex mip mie True"

text \<open>
  The bounded wait for a software interrupt to be seen retired: \<open>mip n\<close> is the register at the \<open>n\<close>-th
  reading. The answer is how often the request was cleared.
\<close>

fun swi_retire :: "(nat \<Rightarrow> u32) \<Rightarrow> nat \<Rightarrow> nat \<Rightarrow> nat" where
  "swi_retire mip 0 polls = polls"
| "swi_retire mip (Suc left) polls =
     (if mip polls AND SOC_SLEEP_MIP_SWI \<noteq> 0 then swi_retire mip left (Suc polls) else polls)"

definition soc_sleep_swi_retire :: "(nat \<Rightarrow> u32) \<Rightarrow> nat" where
  "soc_sleep_swi_retire mip = swi_retire mip SOC_SLEEP_SWI_POLLS 0"

text \<open>ARM: the scheduler's exceptions, or an interrupt pending and enabled.\<close>

definition arm_sleep_work_pending :: "u32 \<Rightarrow> u32 \<times> u32 \<Rightarrow> u32 \<times> u32 \<Rightarrow> bool" where
  "arm_sleep_work_pending icsr ispr iser \<longleftrightarrow>
     icsr AND (2 ^ 28 OR 2 ^ 26 OR 2 ^ 31) \<noteq> 0 \<or>
     fst ispr AND fst iser \<noteq> 0 \<or> snd ispr AND snd iser \<noteq> 0"

section \<open>State\<close>

text \<open>
  Core 0, the owner: in \<open>os_arch_soc_sleep_prepare_cb\<close> from \<open>Entered\<close> to \<open>Confirm_abort\<close>; \<open>Prepared\<close>
  after it returned true; in \<open>os_arch_soc_sleep_cb\<close> from \<open>Sleep_entered\<close>; \<open>Deep\<close> while clk_sys and its
  PLL are stopped, \<open>Light\<close> in a plain wait, \<open>Slept\<close> after either.
\<close>

datatype owner_pc =
    Awake | Entered | Read_idle | Read_ack | Request | Wait_ack | Wait_abort | Confirm_ack | Confirm_abort
  | Prepared | Sleep_entered | Sleep_ack | Sleep_abort | Deep | Light | Slept

text \<open>
  Core 1, the peer: \<open>Running\<close> outside \<open>os_arch_soc_idle_cb\<close>; \<open>Park_entered\<close> to \<open>Park_leaving\<close> is
  \<open>soc_sleep_peer_park\<close>, which the idle hook calls twice.
\<close>

datatype peer_pc =
    Running | Idle_entered | Park_entered | Park_test | Park_check | Park_ack | Park_loop | Park_body | Park_wake
  | Park_refuse | Park_rearm | Park_clear | Park_leaving | Idle_leaving

record sleepers =
  soc_sleep_request :: u32
  soc_sleep_ack :: u32
  soc_sleep_abort :: u32
  soc_sleep_peer_idle :: bool
  soc_sleep_generation :: u32
  soc_sleep_owner_held :: bool
  owner :: owner_pc
  owner_mie :: bool
  soc_sleep_owner_mask :: bool
  clk_sys_stopped :: bool
  owner_ipi :: bool
  peer :: peer_pc
  peer_generation :: u32
  peer_wake_sent :: bool
  peer_second :: bool
  peer_mie :: bool
  peer_mask :: bool
  peer_tick_on :: bool

text \<open>
  What a step reads of its environment. \<open>mip\<close> and \<open>mie\<close> are those of the core that steps. \<open>is_idle\<close>:
  the core runs its idle task; \<open>time_up\<close>: \<open>SOC_SLEEP_RENDEZVOUS_US\<close> have passed; \<open>ready_and_allowed\<close>:
  \<open>soc_deep_peripherals_ready\<close> and the application's \<open>soc_deep_sleep_allowed_cb\<close>; \<open>declined\<close>: the
  kernel closes the window without sleeping.
\<close>

record reading =
  mip :: u32
  mie :: u32
  is_idle :: bool
  time_up :: bool
  ready_and_allowed :: bool
  declined :: bool

abbreviation pending_here :: "reading \<Rightarrow> bool" where
  "pending_here e \<equiv> soc_sleep_work_pending (mip e) (mie e)"

section \<open>The owner\<close>

definition next_generation :: "u32 \<Rightarrow> u32" where
  "next_generation g = (let generation = g + 1 in if generation = 0 then 1 else generation)"

text \<open>The request has one writer, core 0, so its test and its write are one step.\<close>

definition soc_sleep_release :: "sleepers \<Rightarrow> sleepers" where
  "soc_sleep_release s =
     (let s1 = (if soc_sleep_request s \<noteq> 0 then s\<lparr>soc_sleep_request := 0\<rparr> else s)
      in s1\<lparr>soc_sleep_owner_held := False, owner_mie := soc_sleep_owner_mask s1 \<or> owner_mie s1\<rparr>)"

definition prepare_step :: "reading \<Rightarrow> sleepers \<Rightarrow> sleepers" where
  "prepare_step e s =
     (case owner s of
        Awake \<Rightarrow> s\<lparr>soc_sleep_owner_mask := owner_mie s, owner_mie := False, owner := Entered\<rparr>
      | Entered \<Rightarrow>
          if pending_here e then (soc_sleep_release s)\<lparr>owner := Awake\<rparr> else s\<lparr>owner := Read_idle\<rparr>
      | Read_idle \<Rightarrow>
          if soc_sleep_peer_idle s then s\<lparr>owner := Read_ack\<rparr> else (soc_sleep_release s)\<lparr>owner := Prepared\<rparr>
      | Read_ack \<Rightarrow>
          if soc_sleep_ack s = 0 then s\<lparr>owner := Request\<rparr> else (soc_sleep_release s)\<lparr>owner := Prepared\<rparr>
      | Request \<Rightarrow>
          let generation = next_generation (soc_sleep_generation s)
          in s\<lparr>soc_sleep_generation := generation, soc_sleep_request := generation, owner := Wait_ack\<rparr>
      | Wait_ack \<Rightarrow>
          if soc_sleep_ack s = soc_sleep_generation s then s\<lparr>owner := Confirm_ack\<rparr> else s\<lparr>owner := Wait_abort\<rparr>
      | Wait_abort \<Rightarrow>
          if soc_sleep_abort s = soc_sleep_generation s \<or> pending_here e \<or> time_up e
          then s\<lparr>owner := Confirm_ack\<rparr> else s\<lparr>owner := Wait_ack\<rparr>
      | Confirm_ack \<Rightarrow>
          if soc_sleep_ack s = soc_sleep_generation s then s\<lparr>owner := Confirm_abort\<rparr>
          else (soc_sleep_release s)\<lparr>owner := Prepared\<rparr>
      | Confirm_abort \<Rightarrow>
          if soc_sleep_abort s \<noteq> soc_sleep_generation s \<and> \<not> pending_here e \<and> ready_and_allowed e
          then s\<lparr>soc_sleep_owner_held := True, owner := Prepared\<rparr>
          else (soc_sleep_release s)\<lparr>owner := Prepared\<rparr>
      | _ \<Rightarrow> s)"

text \<open>
  The window: the kernel sleeps through \<open>os_arch_soc_sleep_cb\<close> or not, then always calls
  \<open>os_arch_soc_sleep_finish_cb\<close>.
\<close>

definition os_arch_soc_sleep_finish_cb :: "sleepers \<Rightarrow> sleepers" where
  "os_arch_soc_sleep_finish_cb s = (if soc_sleep_owner_held s then soc_sleep_release s else s)"

definition sleep_step :: "reading \<Rightarrow> sleepers \<Rightarrow> sleepers" where
  "sleep_step e s =
     (case owner s of
        Prepared \<Rightarrow>
          if declined e then (os_arch_soc_sleep_finish_cb s)\<lparr>owner := Awake\<rparr> else s\<lparr>owner := Sleep_entered\<rparr>
      | Sleep_entered \<Rightarrow>
          if soc_sleep_owner_held s \<and> \<not> soc_sleep_work_pending_ex (mip e) (mie e) False
          then s\<lparr>owner := Sleep_ack\<rparr> else s\<lparr>owner := Light\<rparr>
      | Sleep_ack \<Rightarrow>
          if soc_sleep_ack s = soc_sleep_request s \<and> soc_sleep_request s \<noteq> 0
          then s\<lparr>owner := Sleep_abort\<rparr> else s\<lparr>owner := Light\<rparr>
      | Sleep_abort \<Rightarrow>
          if soc_sleep_abort s \<noteq> soc_sleep_request s \<and> ready_and_allowed e
          then s\<lparr>clk_sys_stopped := True, owner := Deep\<rparr> else s\<lparr>owner := Light\<rparr>
      | Deep \<Rightarrow> s\<lparr>clk_sys_stopped := False, owner_ipi := False, owner := Slept\<rparr>
      | Light \<Rightarrow> s\<lparr>owner_ipi := False, owner := Slept\<rparr>
      | Slept \<Rightarrow> (os_arch_soc_sleep_finish_cb s)\<lparr>owner := Awake\<rparr>
      | _ \<Rightarrow> s)"

definition owner_step :: "reading \<Rightarrow> sleepers \<Rightarrow> sleepers" where
  "owner_step e s =
     (if owner s \<in> {Prepared, Sleep_entered, Sleep_ack, Sleep_abort, Deep, Light, Slept}
      then sleep_step e s else prepare_step e s)"

section \<open>The peer\<close>

definition soc_sleep_peer_park :: "reading \<Rightarrow> sleepers \<Rightarrow> sleepers" where
  "soc_sleep_peer_park e s =
     (case peer s of
        Park_entered \<Rightarrow>
          s\<lparr>peer_mask := peer_mie s, peer_mie := False, peer_generation := soc_sleep_request s, peer := Park_test\<rparr>
      | Park_test \<Rightarrow>
          if peer_generation s \<noteq> 0 \<and> is_idle e \<and> \<not> pending_here e
          then s\<lparr>peer_wake_sent := False, peer_tick_on := False, peer := Park_check\<rparr>
          else s\<lparr>peer := Park_leaving\<rparr>
      | Park_check \<Rightarrow>
          if \<not> pending_here e \<and> soc_sleep_request s = peer_generation s
          then s\<lparr>peer := Park_ack\<rparr> else s\<lparr>peer := Park_refuse\<rparr>
      | Park_ack \<Rightarrow> s\<lparr>soc_sleep_ack := peer_generation s, peer := Park_loop\<rparr>
      | Park_loop \<Rightarrow>
          if soc_sleep_request s = peer_generation s then s\<lparr>peer := Park_body\<rparr> else s\<lparr>peer := Park_rearm\<rparr>
      | Park_body \<Rightarrow>
          if \<not> peer_wake_sent s \<and> pending_here e
          then s\<lparr>soc_sleep_abort := peer_generation s, peer := Park_wake\<rparr> else s\<lparr>peer := Park_loop\<rparr>
      | Park_wake \<Rightarrow> s\<lparr>owner_ipi := True, peer_wake_sent := True, peer := Park_loop\<rparr>
      | Park_refuse \<Rightarrow> s\<lparr>soc_sleep_abort := peer_generation s, peer := Park_rearm\<rparr>
      | Park_rearm \<Rightarrow> s\<lparr>peer_tick_on := True, peer := Park_clear\<rparr>
      | Park_clear \<Rightarrow> s\<lparr>soc_sleep_ack := 0, peer := Park_leaving\<rparr>
      | Park_leaving \<Rightarrow>
          s\<lparr>peer_mie := peer_mask s \<or> peer_mie s,
            peer := (if peer_second s then Idle_leaving else Park_entered), peer_second := True\<rparr>
      | _ \<Rightarrow> s)"

text \<open>Between the two calls the hook waits for an event, which may come at once.\<close>

definition os_arch_soc_idle_cb :: "reading \<Rightarrow> sleepers \<Rightarrow> sleepers" where
  "os_arch_soc_idle_cb e s =
     (case peer s of
        Running \<Rightarrow> if is_idle e then s\<lparr>peer := Idle_entered\<rparr> else s
      | Idle_entered \<Rightarrow> s\<lparr>soc_sleep_peer_idle := True, peer_second := False, peer := Park_entered\<rparr>
      | Idle_leaving \<Rightarrow> s\<lparr>soc_sleep_peer_idle := False, peer := Running\<rparr>
      | _ \<Rightarrow> s)"

definition peer_step :: "reading \<Rightarrow> sleepers \<Rightarrow> sleepers" where
  "peer_step e s =
     (if peer s \<in> {Running, Idle_entered, Idle_leaving} then os_arch_soc_idle_cb e s else soc_sleep_peer_park e s)"

section \<open>Runs\<close>

definition sleep_boot :: sleepers where
  "sleep_boot = \<lparr>soc_sleep_request = 0, soc_sleep_ack = 0, soc_sleep_abort = 0, soc_sleep_peer_idle = False,
     soc_sleep_generation = 0, soc_sleep_owner_held = False, owner = Awake, owner_mie = True,
     soc_sleep_owner_mask = False, clk_sys_stopped = False, owner_ipi = False, peer = Running,
     peer_generation = 0, peer_wake_sent = False, peer_second = False, peer_mie = True, peer_mask = False,
     peer_tick_on = True\<rparr>"

text \<open>The peer acts on the request it read: from the read until its acknowledgement is cleared.\<close>

definition holds_request :: "sleepers \<Rightarrow> bool" where
  "holds_request s \<longleftrightarrow> peer s \<in> {Park_test, Park_check, Park_ack, Park_loop, Park_body, Park_wake,
     Park_refuse, Park_rearm, Park_clear}"

definition parked :: "sleepers \<Rightarrow> bool" where
  "parked s \<longleftrightarrow> peer s \<in> {Park_loop, Park_body, Park_wake}"

text \<open>
  A run, with the number of requests the owner has issued since the peer read the one it acts on. The
  number stays at most \<open>K\<close>: the peer does not take so long that more rendezvous time out meanwhile.
\<close>

inductive sleep_run :: "nat \<Rightarrow> nat \<Rightarrow> sleepers \<Rightarrow> bool" for K :: nat where
  boot: "sleep_run K 0 sleep_boot"
| owner_moves: "sleep_run K a s \<Longrightarrow> a' = (if owner s = Request \<and> holds_request s then a + 1 else a) \<Longrightarrow> a' \<le> K \<Longrightarrow>
    sleep_run K a' (owner_step e s)"
| peer_moves: "sleep_run K a s \<Longrightarrow> a' = (if peer s = Park_entered then 0 else a) \<Longrightarrow>
    sleep_run K a' (peer_step e s)"

section \<open>Generations\<close>

lemma next_generation_nonzero: "next_generation g \<noteq> 0"
  by (simp add: next_generation_def Let_def)

lemma next_generation_unat:
  assumes "g \<noteq> 0"
  shows "unat (next_generation g) = unat g mod 4294967295 + 1"
proof -
  have g: "0 < unat g" "unat g < 4294967296" using assms unsigned_less [of g, where 'a = nat] by (simp_all add: unat_gt_0)
  show ?thesis
  proof (cases "unat g = 4294967295")
    case True
    then have "unat (g + 1) = 0" by (simp add: unat_word_ariths)
    then have "g + 1 = 0" by (simp only: unat_eq_0)
    then show ?thesis using True by (simp add: next_generation_def)
  next
    case False
    then have u: "unat (g + 1) = unat g + 1" using g by (subst unat_add_lt) simp_all
    then have "g + 1 \<noteq> 0" by (metis add_is_0 unat_0 zero_neq_one)
    then show ?thesis using u False g by (simp add: next_generation_def Let_def)
  qed
qed

lemma next_generation_pow:
  assumes g: "g \<noteq> 0"
  shows "(next_generation ^^ k) g \<noteq> 0 \<and>
    unat ((next_generation ^^ k) g) = (unat g - 1 + k) mod 4294967295 + 1"
proof (induction k)
  case 0
  have "0 < unat g" "unat g < 4294967296" using g unsigned_less [of g, where 'a = nat] by (simp_all add: unat_gt_0)
  then show ?case using g by simp
next
  case (Suc k)
  then show ?case
    by (simp add: next_generation_nonzero next_generation_unat mod_simps)
qed

lemma generation_not_reused:
  assumes "g \<noteq> 0" "0 < k" "k < 4294967295"
  shows "(next_generation ^^ k) g \<noteq> g"
proof
  assume e: "(next_generation ^^ k) g = g"
  have g: "0 < unat g" "unat g < 4294967296" using assms(1) unsigned_less [of g, where 'a = nat] by (simp_all add: unat_gt_0)
  have "(unat g - 1 + k) mod 4294967295 = unat g - 1"
    using conjunct2 [OF next_generation_pow [OF assms(1), of k]] unfolding e by linarith
  moreover have "(unat g - 1 + k) mod 4294967295 = unat g - 1 + k - 4294967295" if "4294967295 \<le> unat g - 1 + k"
    using that g assms(3) by (simp add: le_mod_geq)
  ultimately show False using assms(2,3) g by (cases "4294967295 \<le> unat g - 1 + k") auto
qed

section \<open>The invariant\<close>

definition owner_ok :: "sleepers \<Rightarrow> bool" where
  "owner_ok s \<longleftrightarrow>
     (owner s \<in> {Awake, Entered, Read_idle, Read_ack, Request} \<longrightarrow>
        soc_sleep_request s = 0 \<and> \<not> soc_sleep_owner_held s) \<and>
     (owner s \<in> {Wait_ack, Wait_abort, Confirm_ack, Confirm_abort} \<longrightarrow>
        soc_sleep_request s = soc_sleep_generation s \<and> soc_sleep_generation s \<noteq> 0 \<and> \<not> soc_sleep_owner_held s) \<and>
     (owner s \<in> {Prepared, Sleep_entered, Sleep_ack, Sleep_abort, Deep, Light, Slept} \<longrightarrow>
        soc_sleep_request s = (if soc_sleep_owner_held s then soc_sleep_generation s else 0)) \<and>
     (owner s \<in> {Sleep_ack, Sleep_abort, Deep} \<longrightarrow> soc_sleep_owner_held s) \<and>
     (soc_sleep_owner_held s \<longrightarrow> soc_sleep_generation s \<noteq> 0) \<and>
     (soc_sleep_owner_held s \<or>
      owner s \<in> {Entered, Read_idle, Read_ack, Request, Wait_ack, Wait_abort, Confirm_ack, Confirm_abort} \<longrightarrow>
        \<not> owner_mie s) \<and>
     (clk_sys_stopped s \<longleftrightarrow> owner s = Deep)"

definition peer_ok :: "sleepers \<Rightarrow> bool" where
  "peer_ok s \<longleftrightarrow>
     (let no_ack = (soc_sleep_ack s = 0); stopped = (peer_generation s \<noteq> 0 \<and> \<not> peer_tick_on s \<and> \<not> peer_mie s);
          late_ack = (soc_sleep_ack s = 0 \<or> soc_sleep_ack s = peer_generation s \<and> soc_sleep_request s \<noteq> peer_generation s)
      in case peer s of
           Running \<Rightarrow> no_ack \<and> peer_tick_on s
         | Idle_entered \<Rightarrow> no_ack \<and> peer_tick_on s
         | Park_entered \<Rightarrow> no_ack \<and> peer_tick_on s
         | Idle_leaving \<Rightarrow> no_ack \<and> peer_tick_on s
         | Park_test \<Rightarrow> no_ack \<and> peer_tick_on s \<and> \<not> peer_mie s
         | Park_leaving \<Rightarrow> no_ack \<and> peer_tick_on s \<and> \<not> peer_mie s
         | Park_check \<Rightarrow> no_ack \<and> stopped
         | Park_ack \<Rightarrow> no_ack \<and> stopped
         | Park_refuse \<Rightarrow> no_ack \<and> stopped
         | Park_loop \<Rightarrow> soc_sleep_ack s = peer_generation s \<and> stopped
         | Park_body \<Rightarrow> soc_sleep_ack s = peer_generation s \<and> stopped
         | Park_wake \<Rightarrow> soc_sleep_ack s = peer_generation s \<and> stopped
         | Park_rearm \<Rightarrow> late_ack \<and> stopped
         | Park_clear \<Rightarrow> late_ack \<and> peer_generation s \<noteq> 0 \<and> peer_tick_on s \<and> \<not> peer_mie s)"

definition sleep_ok :: "nat \<Rightarrow> sleepers \<Rightarrow> bool" where
  "sleep_ok a s \<longleftrightarrow> owner_ok s \<and> peer_ok s \<and>
     (owner s = Confirm_abort \<or> soc_sleep_owner_held s \<longrightarrow> soc_sleep_ack s = soc_sleep_generation s) \<and>
     (holds_request s \<and> peer_generation s \<noteq> 0 \<longrightarrow>
        soc_sleep_generation s = (next_generation ^^ a) (peer_generation s))"

lemmas sleep_ok_defs = sleep_ok_def owner_ok_def peer_ok_def parked_def holds_request_def

lemma sleep_boot_ok: "sleep_ok 0 sleep_boot"
  by (simp add: sleep_ok_defs sleep_boot_def)

text \<open>A step of one core leaves the other core's variables alone.\<close>

lemma owner_frame:
  "peer (owner_step e s) = peer s" "peer_generation (owner_step e s) = peer_generation s"
  "soc_sleep_ack (owner_step e s) = soc_sleep_ack s" "peer_tick_on (owner_step e s) = peer_tick_on s"
  "peer_mie (owner_step e s) = peer_mie s" "soc_sleep_abort (owner_step e s) = soc_sleep_abort s"
  "soc_sleep_peer_idle (owner_step e s) = soc_sleep_peer_idle s"
  by (cases "owner s"; simp add: owner_step_def prepare_step_def sleep_step_def soc_sleep_release_def
      os_arch_soc_sleep_finish_cb_def Let_def)+

lemma owner_request:
  "owner s \<noteq> Request \<Longrightarrow> soc_sleep_request (owner_step e s) \<in> {soc_sleep_request s, 0}"
  "owner s \<noteq> Request \<Longrightarrow> soc_sleep_generation (owner_step e s) = soc_sleep_generation s"
  by (cases "owner s"; simp add: owner_step_def prepare_step_def sleep_step_def soc_sleep_release_def
      os_arch_soc_sleep_finish_cb_def Let_def)+

lemma peer_frame:
  "owner (peer_step e s) = owner s" "soc_sleep_request (peer_step e s) = soc_sleep_request s"
  "soc_sleep_generation (peer_step e s) = soc_sleep_generation s"
  "soc_sleep_owner_held (peer_step e s) = soc_sleep_owner_held s" "owner_mie (peer_step e s) = owner_mie s"
  "soc_sleep_owner_mask (peer_step e s) = soc_sleep_owner_mask s"
  "clk_sys_stopped (peer_step e s) = clk_sys_stopped s"
  by (cases "peer s"; simp add: peer_step_def soc_sleep_peer_park_def os_arch_soc_idle_cb_def)+

lemma holds_owner: "holds_request (owner_step e s) = holds_request s" "parked (owner_step e s) = parked s"
  by (simp_all add: holds_request_def parked_def owner_frame)

lemma owner_keeps_owner_ok: "owner_ok s \<Longrightarrow> owner_ok (owner_step e s)"
  by (cases "owner s"; simp add: owner_step_def prepare_step_def sleep_step_def soc_sleep_release_def
      os_arch_soc_sleep_finish_cb_def Let_def owner_ok_def next_generation_nonzero)

lemma peer_keeps_owner_ok: "owner_ok s \<Longrightarrow> owner_ok (peer_step e s)"
  by (simp add: owner_ok_def peer_frame)

lemma peer_acked:
  "peer_ok s \<Longrightarrow> soc_sleep_ack s \<noteq> 0 \<Longrightarrow>
   soc_sleep_ack s = peer_generation s \<and>
   (parked s \<or> peer s \<in> {Park_rearm, Park_clear} \<and> soc_sleep_request s \<noteq> peer_generation s)"
  by (cases "peer s"; simp add: peer_ok_def parked_def)

lemma peer_parked: "peer_ok s \<Longrightarrow> parked s \<Longrightarrow> \<not> peer_tick_on s \<and> \<not> peer_mie s \<and> peer_generation s \<noteq> 0"
  by (cases "peer s"; simp add: peer_ok_def parked_def)

lemma owner_keeps_peer_ok:
  assumes p: "peer_ok s"
    and r: "soc_sleep_ack s \<noteq> 0 \<Longrightarrow> peer s \<in> {Park_rearm, Park_clear} \<Longrightarrow>
      soc_sleep_request (owner_step e s) \<noteq> peer_generation s"
  shows "peer_ok (owner_step e s)"
  using p r by (cases "peer s") (auto simp: peer_ok_def owner_frame Let_def)

lemma peer_keeps_peer_ok: "peer_ok s \<Longrightarrow> peer_ok (peer_step e s)"
  by (cases "peer s"; simp add: peer_step_def soc_sleep_peer_park_def os_arch_soc_idle_cb_def peer_ok_def)

lemma rendezvous_by_owner:
  assumes o: "owner_ok s" and c: "owner s = Confirm_abort \<or> soc_sleep_owner_held s \<longrightarrow> soc_sleep_ack s = soc_sleep_generation s"
    and n: "owner (owner_step e s) = Confirm_abort \<or> soc_sleep_owner_held (owner_step e s)"
  shows "soc_sleep_ack (owner_step e s) = soc_sleep_generation (owner_step e s)"
  using o c n
  by (cases "owner s"; simp add: owner_step_def prepare_step_def sleep_step_def soc_sleep_release_def
      os_arch_soc_sleep_finish_cb_def Let_def owner_ok_def split: if_splits)

text \<open>Once confirmed, the acknowledgement stays: the peer clears it only after it saw the request change.\<close>

lemma confirmed_request:
  "owner_ok s \<Longrightarrow> owner s = Confirm_abort \<or> soc_sleep_owner_held s \<Longrightarrow>
   soc_sleep_request s = soc_sleep_generation s \<and> soc_sleep_generation s \<noteq> 0"
  by (cases "owner s"; auto simp: owner_ok_def)

lemma confirmed_parked:
  assumes "sleep_ok a s" "owner s = Confirm_abort \<or> soc_sleep_owner_held s"
  shows "parked s" "soc_sleep_ack s = peer_generation s"
proof -
  have o: "owner_ok s" and p: "peer_ok s" and c: "soc_sleep_ack s = soc_sleep_generation s"
    using assms by (simp_all add: sleep_ok_def)
  note r = confirmed_request [OF o assms(2)]
  have k: "soc_sleep_ack s = peer_generation s \<and>
      (parked s \<or> peer s \<in> {Park_rearm, Park_clear} \<and> soc_sleep_request s \<noteq> peer_generation s)"
    by (rule peer_acked [OF p]) (simp add: r c)
  then show "soc_sleep_ack s = peer_generation s" by simp
  show "parked s" using k r c by metis
qed

lemma rendezvous_by_peer:
  assumes ok: "sleep_ok a s" and n: "owner s = Confirm_abort \<or> soc_sleep_owner_held s"
  shows "soc_sleep_ack (peer_step e s) = soc_sleep_generation s"
proof -
  have "soc_sleep_ack (peer_step e s) = soc_sleep_ack s"
    using confirmed_parked(1) [OF ok n]
    by (auto simp: parked_def peer_step_def soc_sleep_peer_park_def)
  then show ?thesis using ok n by (simp add: sleep_ok_def)
qed

lemma owner_step_ok:
  assumes ok: "sleep_ok a s" and a: "a' = (if owner s = Request \<and> holds_request s then a + 1 else a)" "a' < 4294967295"
  shows "sleep_ok a' (owner_step e s)"
proof -
  have o: "owner_ok s" and p: "peer_ok s"
    and c: "owner s = Confirm_abort \<or> soc_sleep_owner_held s \<longrightarrow> soc_sleep_ack s = soc_sleep_generation s"
    and g: "holds_request s \<Longrightarrow> peer_generation s \<noteq> 0 \<Longrightarrow>
      soc_sleep_generation s = (next_generation ^^ a) (peer_generation s)"
    using ok by (simp_all add: sleep_ok_def)
  have q: "soc_sleep_request (owner_step e s) = next_generation (soc_sleep_generation s)"
    "soc_sleep_generation (owner_step e s) = next_generation (soc_sleep_generation s)" if "owner s = Request"
    using that by (simp_all add: owner_step_def prepare_step_def Let_def)
  have g': "soc_sleep_generation (owner_step e s) = (next_generation ^^ a') (peer_generation s)"
    if "holds_request s" "peer_generation s \<noteq> 0"
    using g [OF that] q(2) owner_request(2) [of s e] a(1) that(1) by (cases "owner s = Request") simp_all
  have "peer_ok (owner_step e s)"
  proof (rule owner_keeps_peer_ok [OF p])
    assume k: "soc_sleep_ack s \<noteq> 0" "peer s \<in> {Park_rearm, Park_clear}"
    have h: "holds_request s" "peer_generation s \<noteq> 0" "soc_sleep_request s \<noteq> peer_generation s"
      using k peer_acked [OF p k(1)] by (auto simp: holds_request_def parked_def)
    show "soc_sleep_request (owner_step e s) \<noteq> peer_generation s"
    proof (cases "owner s = Request")
      case True
      then have "(next_generation ^^ a') (peer_generation s) \<noteq> peer_generation s"
        using generation_not_reused [OF h(2), of a'] a h(1) by simp
      then show ?thesis using q [OF True] g' [OF h(1,2)] by simp
    next
      case False
      then show ?thesis using owner_request(1) [OF False, of e] h(2,3) by auto
    qed
  qed
  then show ?thesis
    using owner_keeps_owner_ok [OF o] rendezvous_by_owner [OF o c] g'
    by (simp add: sleep_ok_def holds_owner owner_frame)
qed

lemma peer_step_ok:
  assumes ok: "sleep_ok a s" and a: "a' = (if peer s = Park_entered then 0 else a)"
  shows "sleep_ok a' (peer_step e s)"
proof -
  have o: "owner_ok s" and p: "peer_ok s"
    and g: "holds_request s \<Longrightarrow> peer_generation s \<noteq> 0 \<Longrightarrow>
      soc_sleep_generation s = (next_generation ^^ a) (peer_generation s)"
    using ok by (simp_all add: sleep_ok_def)
  have r: "soc_sleep_request s \<noteq> 0 \<Longrightarrow> soc_sleep_request s = soc_sleep_generation s"
    using o by (cases "owner s"; simp add: owner_ok_def split: if_splits)
  have "soc_sleep_generation s = (next_generation ^^ a') (peer_generation (peer_step e s))"
    if "holds_request (peer_step e s)" "peer_generation (peer_step e s) \<noteq> 0"
    using that a g r
    by (cases "peer s"; simp add: peer_step_def soc_sleep_peer_park_def os_arch_soc_idle_cb_def holds_request_def
        split: if_splits)
  then show ?thesis
    using peer_keeps_owner_ok [OF o] peer_keeps_peer_ok [OF p] rendezvous_by_peer [OF ok]
    by (simp add: sleep_ok_def peer_frame)
qed

lemma sleep_run_ok: "sleep_run K a s \<Longrightarrow> K < 4294967295 \<Longrightarrow> sleep_ok a s"
  by (induction rule: sleep_run.induct) (auto intro: sleep_boot_ok owner_step_ok peer_step_ok)

section \<open>The clock stops only under a parked core\<close>

lemma stopped_clock_parked:
  assumes r: "sleep_run K a s" "K < 4294967295" and d: "clk_sys_stopped s"
  shows "parked s \<and> soc_sleep_request s = peer_generation s \<and> soc_sleep_request s \<noteq> 0 \<and>
    \<not> peer_tick_on s \<and> \<not> peer_mie s \<and> \<not> owner_mie s"
proof -
  note ok = sleep_run_ok [OF r]
  then have o: "owner_ok s" "peer_ok s" by (simp_all add: sleep_ok_def)
  then have h: "soc_sleep_owner_held s" "owner s = Deep" using d by (simp_all add: owner_ok_def)
  note p = confirmed_parked [OF ok disjI2 [OF h(1)]]
  have c: "soc_sleep_ack s = soc_sleep_generation s" using ok h by (simp add: sleep_ok_def)
  note q = confirmed_request [OF o(1) disjI2 [OF h(1)]]
  have "\<not> owner_mie s" using o(1) h(1) by (simp add: owner_ok_def)
  moreover have "soc_sleep_request s = peer_generation s" using q c p(2) by metis
  ultimately show ?thesis using p(1) peer_parked [OF o(2) p(1)] by simp
qed

section \<open>A released core leaves its park\<close>

definition peer_rank :: "sleepers \<Rightarrow> nat" where
  "peer_rank s =
     (let rounds = (if peer_second s then 0 else 8)
      in case peer s of
           Running \<Rightarrow> 0 | Idle_leaving \<Rightarrow> 1 | Park_leaving \<Rightarrow> 2 + rounds | Park_clear \<Rightarrow> 3 + rounds
         | Park_rearm \<Rightarrow> 4 + rounds | Park_refuse \<Rightarrow> 5 + rounds | Park_loop \<Rightarrow> 5 + rounds | Park_wake \<Rightarrow> 6 + rounds
         | Park_ack \<Rightarrow> 6 + rounds | Park_body \<Rightarrow> 7 + rounds | Park_check \<Rightarrow> 7 + rounds | Park_test \<Rightarrow> 8 + rounds
         | Park_entered \<Rightarrow> 9 + rounds | Idle_entered \<Rightarrow> 18)"

lemma peer_rank_bound: "peer_rank s \<le> 18"
  by (cases "peer s"; simp add: peer_rank_def Let_def)

lemma peer_step_progress:
  assumes "peer_ok s" "soc_sleep_request s = 0" "peer s \<noteq> Running"
  shows "peer_rank (peer_step e s) < peer_rank s"
  using assms
  by (cases "peer s"; simp add: peer_step_def soc_sleep_peer_park_def os_arch_soc_idle_cb_def peer_rank_def
      peer_ok_def Let_def)

lemma released_peer_leaves:
  assumes "peer_ok s" "soc_sleep_request s = 0" "peer_rank s \<le> length es"
  shows "\<exists>n \<le> length es. peer (fold peer_step (take n es) s) = Running \<and> peer_tick_on (fold peer_step (take n es) s)"
  using assms
proof (induction es arbitrary: s)
  case Nil
  then have "peer s = Running" by (cases "peer s") (simp_all add: peer_rank_def Let_def)
  then show ?case using Nil.prems(1) by (simp add: peer_ok_def)
next
  case (Cons e es)
  show ?case
  proof (cases "peer s = Running")
    case True
    then have "peer_tick_on s" using Cons.prems(1) by (simp add: peer_ok_def)
    then show ?thesis using True by (intro exI [of _ 0]) simp
  next
    case False
    have "peer_rank (peer_step e s) \<le> length es"
      using peer_step_progress [OF Cons.prems(1,2) False, of e] Cons.prems(3) by simp
    then obtain n where "n \<le> length es" "peer (fold peer_step (take n es) (peer_step e s)) = Running"
      "peer_tick_on (fold peer_step (take n es) (peer_step e s))"
      using Cons.IH [of "peer_step e s"] peer_keeps_peer_ok [OF Cons.prems(1)] Cons.prems(2) by (auto simp: peer_frame)
    then show ?thesis by (intro exI [of _ "Suc n"]) simp
  qed
qed

section \<open>The bound on the run is needed\<close>

text \<open>
  A comment in the code says that a wrap of the generation cannot let a late acknowledgement pass. It
  can, after exactly \<open>2\<^sup>3\<^sup>2 - 1\<close> requests within one pass of the peer: the request that is about to be
  issued then has the generation that the peer is about to acknowledge, and the peer, which saw the
  request withdrawn in between, leaves its park.
\<close>

definition quiet :: reading where
  "quiet = \<lparr>mip = 0, mie = 0, is_idle = True, time_up = True, ready_and_allowed = True, declined = False\<rparr>"

text \<open>The peer is about to acknowledge generation 1; the owner has given up \<open>k\<close> further requests.\<close>

definition stale_ack :: "nat \<Rightarrow> sleepers" where
  "stale_ack k = sleep_boot\<lparr>soc_sleep_generation := (next_generation ^^ k) 1, soc_sleep_peer_idle := True,
     soc_sleep_owner_mask := True, peer := Park_ack, peer_generation := 1, peer_mask := True, peer_mie := False,
     peer_tick_on := False\<rparr>"

lemma run_owner:
  "sleep_run K a s \<Longrightarrow> owner s \<noteq> Request \<Longrightarrow> a \<le> K \<Longrightarrow> sleep_run K a (owner_step e s)"
  by (rule sleep_run.owner_moves) simp_all

lemma run_peer: "sleep_run K a s \<Longrightarrow> peer s \<noteq> Park_entered \<Longrightarrow> sleep_run K a (peer_step e s)"
  by (rule sleep_run.peer_moves) simp_all

lemma not_pending: "\<not> soc_sleep_work_pending (mip quiet) (mie quiet)" "\<not> soc_sleep_work_pending_ex (mip quiet) (mie quiet) b"
  by (simp_all add: soc_sleep_work_pending_def soc_sleep_work_pending_ex_def quiet_def Let_def)

lemma quiet_simps: "is_idle quiet" "time_up quiet" "ready_and_allowed quiet" "\<not> declined quiet"
  by (simp_all add: quiet_def)

lemmas walk = owner_step_def prepare_step_def sleep_step_def soc_sleep_release_def os_arch_soc_sleep_finish_cb_def
  peer_step_def soc_sleep_peer_park_def os_arch_soc_idle_cb_def not_pending quiet_simps Let_def

lemma give_up_cycle:
  assumes r: "sleep_run K k (stale_ack k)" and k: "k + 1 \<le> K"
  shows "sleep_run K (k + 1) (stale_ack (k + 1))"
proof -
  let ?s = "stale_ack k" and ?e = "quiet\<lparr>declined := True\<rparr>"
  have 1: "(owner_step quiet ^^ 4) ?s = ?s\<lparr>owner_mie := False, owner := Request\<rparr>"
    by (simp add: stale_ack_def sleep_boot_def walk numeral_eq_Suc)
  have r1: "sleep_run K k ((owner_step quiet ^^ 4) ?s)"
    using k by (simp add: numeral_eq_Suc) (intro run_owner r; simp add: stale_ack_def sleep_boot_def walk)
  define g where "g = (next_generation ^^ (k + 1)) 1"
  have g: "next_generation ((next_generation ^^ k) 1) = g" "g \<noteq> 0" "stale_ack (k + 1) = ?s\<lparr>soc_sleep_generation := g\<rparr>"
    by (simp_all add: g_def next_generation_nonzero stale_ack_def)
  define s1 where "s1 = owner_step quiet ((owner_step quiet ^^ 4) ?s)"
  have s1: "s1 = ?s\<lparr>owner_mie := False, soc_sleep_generation := g, soc_sleep_request := g, owner := Wait_ack\<rparr>"
    unfolding s1_def 1 by (simp add: stale_ack_def walk g(1))
  have r2: "sleep_run K (k + 1) s1"
    unfolding s1_def
    by (rule sleep_run.owner_moves [OF r1 _ k]) (unfold 1, simp add: holds_request_def stale_ack_def)
  have 2: "(owner_step quiet ^^ 3) s1 = ?s\<lparr>soc_sleep_generation := g, owner := Prepared\<rparr>"
    using g(2) unfolding s1 by (simp add: stale_ack_def sleep_boot_def walk numeral_eq_Suc)
  have "sleep_run K (k + 1) ((owner_step quiet ^^ 3) s1)"
    using k g(2) by (simp add: numeral_eq_Suc) (intro run_owner r2 [simplified]; simp add: s1 stale_ack_def sleep_boot_def walk)
  then have "sleep_run K (k + 1) (owner_step ?e ((owner_step quiet ^^ 3) s1))"
    using k by (intro run_owner) (simp_all add: 2)
  moreover have "owner_step ?e ((owner_step quiet ^^ 3) s1) = stale_ack (k + 1)"
    unfolding 2 g(3) by (simp add: stale_ack_def sleep_boot_def walk)
  ultimately show ?thesis by (simp only:)
qed

lemma stale_ack_start: "sleep_run K 0 (stale_ack 0)"
proof -
  let ?e = "quiet\<lparr>declined := True\<rparr>"
  let ?s1 = "sleep_boot\<lparr>soc_sleep_peer_idle := True, peer := Park_entered\<rparr>"
  have 1: "(peer_step quiet ^^ 2) sleep_boot = ?s1" by (simp add: sleep_boot_def walk numeral_eq_Suc)
  have "sleep_run K 0 ((peer_step quiet ^^ 2) sleep_boot)"
    by (simp add: numeral_eq_Suc) (intro run_peer sleep_run.boot; simp add: sleep_boot_def walk)
  then have r1: "sleep_run K 0 ?s1" unfolding 1 .
  let ?s2 = "?s1\<lparr>owner_mie := False, soc_sleep_owner_mask := True, owner := Request\<rparr>"
  have 2: "(owner_step quiet ^^ 4) ?s1 = ?s2" by (simp add: sleep_boot_def walk numeral_eq_Suc)
  have "sleep_run K 0 ((owner_step quiet ^^ 4) ?s1)"
    using r1 by (simp add: numeral_eq_Suc) (intro run_owner; simp add: sleep_boot_def walk)
  then have r2: "sleep_run K 0 ?s2" unfolding 2 .
  let ?s3 = "?s2\<lparr>soc_sleep_generation := 1, soc_sleep_request := 1, owner := Wait_ack\<rparr>"
  have 3: "owner_step quiet ?s2 = ?s3" by (simp add: sleep_boot_def walk next_generation_def)
  have "sleep_run K 0 (owner_step quiet ?s2)"
    by (rule sleep_run.owner_moves [OF r2]) (simp_all add: holds_request_def)
  then have r3: "sleep_run K 0 ?s3" unfolding 3 .
  let ?s4 = "?s3\<lparr>peer_generation := 1, peer_mask := True, peer_mie := False, peer := Park_test\<rparr>"
  have 4: "peer_step quiet ?s3 = ?s4" by (simp add: sleep_boot_def walk)
  have "sleep_run K 0 (peer_step quiet ?s3)" by (rule sleep_run.peer_moves [OF r3]) simp
  then have r4: "sleep_run K 0 ?s4" unfolding 4 .
  let ?s5 = "?s4\<lparr>peer_tick_on := False, peer := Park_ack\<rparr>"
  have 5: "(peer_step quiet ^^ 2) ?s4 = ?s5" by (simp add: sleep_boot_def walk numeral_eq_Suc)
  have "sleep_run K 0 ((peer_step quiet ^^ 2) ?s4)"
    using r4 by (simp add: numeral_eq_Suc) (intro run_peer; simp add: sleep_boot_def walk)
  then have r5: "sleep_run K 0 ?s5" unfolding 5 .
  let ?s6 = "?s5\<lparr>soc_sleep_request := 0, owner_mie := True, owner := Prepared\<rparr>"
  have 6: "(owner_step quiet ^^ 3) ?s5 = ?s6" by (simp add: sleep_boot_def walk numeral_eq_Suc)
  have "sleep_run K 0 ((owner_step quiet ^^ 3) ?s5)"
    using r5 by (simp add: numeral_eq_Suc) (intro run_owner; simp add: sleep_boot_def walk)
  then have r6: "sleep_run K 0 ?s6" unfolding 6 .
  have "sleep_run K 0 (owner_step ?e ?s6)" by (intro run_owner r6) simp_all
  moreover have "owner_step ?e ?s6 = stale_ack 0" by (simp add: stale_ack_def sleep_boot_def walk)
  ultimately show ?thesis by (simp only:)
qed

lemma stale_ack_run: "k \<le> K \<Longrightarrow> sleep_run K k (stale_ack k)"
proof (induction k)
  case (Suc k)
  then show ?case using give_up_cycle [of K k] by simp
qed (rule stale_ack_start)

lemma generation_comes_round: "(next_generation ^^ 4294967295) 1 = 1"
  using next_generation_pow [of 1 4294967295] by (simp add: word_unat_eq_iff)

lemma wrapped_generation_unparks:
  obtains s where "sleep_run 4294967295 4294967295 s" "clk_sys_stopped s" "peer s = Park_rearm"
proof -
  define N :: nat where "N = 4294967294"
  have N: "Suc N = 4294967295" by (simp add: N_def)
  let ?s = "stale_ack N"
  have r0: "sleep_run (Suc N) N ?s" by (rule stale_ack_run) simp
  let ?s1 = "?s\<lparr>owner_mie := False, owner := Request\<rparr>"
  have 1: "(owner_step quiet ^^ 4) ?s = ?s1" by (simp add: stale_ack_def sleep_boot_def walk numeral_eq_Suc)
  have "sleep_run (Suc N) N ((owner_step quiet ^^ 4) ?s)"
    using r0 by (simp add: numeral_eq_Suc) (intro run_owner; simp add: stale_ack_def sleep_boot_def walk)
  then have r1: "sleep_run (Suc N) N ?s1" unfolding 1 .
  let ?s2 = "?s1\<lparr>soc_sleep_ack := 1, peer := Park_rearm\<rparr>"
  have 2: "(peer_step quiet ^^ 2) ?s1 = ?s2" by (simp add: stale_ack_def sleep_boot_def walk numeral_eq_Suc)
  have "sleep_run (Suc N) N ((peer_step quiet ^^ 2) ?s1)"
    using r1 by (simp add: numeral_eq_Suc) (intro run_peer; simp add: stale_ack_def sleep_boot_def walk)
  then have r2: "sleep_run (Suc N) N ?s2" unfolding 2 .
  let ?s3 = "?s2\<lparr>soc_sleep_generation := 1, soc_sleep_request := 1, owner := Wait_ack\<rparr>"
  have "next_generation ((next_generation ^^ N) 1) = (next_generation ^^ Suc N) 1" by simp
  then have g: "next_generation ((next_generation ^^ N) 1) = 1" unfolding N generation_comes_round .
  have "owner_step quiet ?s2 = ?s3" by (simp add: stale_ack_def walk g)
  moreover have "sleep_run (Suc N) (Suc N) (owner_step quiet ?s2)"
    by (rule sleep_run.owner_moves [OF r2]) (simp_all add: holds_request_def stale_ack_def)
  ultimately have r3: "sleep_run (Suc N) (Suc N) ?s3" by (simp only:)
  let ?s4 = "?s3\<lparr>soc_sleep_owner_held := True, clk_sys_stopped := True, owner := Deep\<rparr>"
  have 4: "(owner_step quiet ^^ 7) ?s3 = ?s4" by (simp add: stale_ack_def sleep_boot_def walk numeral_eq_Suc)
  have "sleep_run (Suc N) (Suc N) ((owner_step quiet ^^ 7) ?s3)"
    using r3 by (simp add: numeral_eq_Suc) (intro run_owner; simp add: stale_ack_def sleep_boot_def walk)
  then have "sleep_run (Suc N) (Suc N) ?s4" unfolding 4 .
  then show thesis unfolding N by (rule that) simp_all
qed

section \<open>A rendezvous that succeeds\<close>

text \<open>A schedule: which core steps next, the owner or the peer. Every reading is \<open>quiet\<close>.\<close>

fun walk_run :: "bool list \<Rightarrow> nat \<Rightarrow> sleepers \<Rightarrow> nat \<times> sleepers" where
  "walk_run [] a s = (a, s)"
| "walk_run (m # ms) a s =
     (if m then walk_run ms (if owner s = Request \<and> holds_request s then a + 1 else a) (owner_step quiet s)
      else walk_run ms (if peer s = Park_entered then 0 else a) (peer_step quiet s))"

lemma walk_run_run:
  "sleep_run K a s \<Longrightarrow> a + length ms \<le> K \<Longrightarrow> walk_run ms a s = (b, t) \<Longrightarrow> sleep_run K b t"
proof (induction ms arbitrary: a s)
  case (Cons m ms)
  show ?case
  proof (cases m)
    case True
    let ?a = "if owner s = Request \<and> holds_request s then a + 1 else a"
    have "sleep_run K ?a (owner_step quiet s)" using Cons.prems(2) by (intro sleep_run.owner_moves [OF Cons.prems(1)]) auto
    then show ?thesis by (rule Cons.IH) (use Cons.prems True in auto)
  next
    case False
    let ?a = "if peer s = Park_entered then 0 else a"
    have "sleep_run K ?a (peer_step quiet s)" by (intro sleep_run.peer_moves [OF Cons.prems(1)]) auto
    then show ?thesis by (rule Cons.IH) (use Cons.prems False in auto)
  qed
qed simp

text \<open>Core 1 goes idle, core 0 asks, core 1 parks, core 0 stops the clock.\<close>

definition rendezvous :: "bool list" where
  "rendezvous = replicate 2 False @ replicate 5 True @ replicate 4 False @ replicate 7 True"

lemma rendezvous_sleeps:
  "clk_sys_stopped (snd (walk_run rendezvous 0 sleep_boot))"
  by code_simp

end
