(* ===== verification/SocProps.thy ===== *)
theory SocProps
  imports SocTick SocSleep
begin

text \<open>
  The properties of the SoC packages: the wake sources account for all the time they measure, what the
  port's clamp makes of it, and the rendezvous of deep sleep. Each is applied at concrete timers and runs.
\<close>

section \<open>Wake sources\<close>

text \<open>
  C36. The wake sources lose no time. Over any sequence of tickless windows, the whole ticks that the
  low-power timer of STM32, the always-on timer of RP235x and the microsecond timer of RP2040 hand
  out, together with the fraction of a tick they keep, are exactly the time their counters measured;
  the fraction stays below one tick.
\<close>

theorem wake_sources_keep_time:
  assumes "lptim_ok l" "bank_run lptim_window lptim_measured l plans = Some (ticks1, counts, l')"
    and "powman_ok p" "\<forall>w \<in> set spans. span_fits w"
      "bank_run (powman_window khz) span_measured p spans = Some (ticks2, ms, p')"
    and "us_ok u" "\<forall>w \<in> set uspans. span_fits w"
      "bank_run (us_window claimed) span_measured u uspans = Some (ticks3, us, u')"
  shows "ticks1 * unat (soc_lptim_rate l) + unat (soc_lptim_accum l') =
           unat (soc_lptim_accum l) + counts * unat (TICK_HZ l) \<and>
         unat (soc_lptim_accum l') < unat (soc_lptim_rate l) \<and>
         ticks2 * 1000 + unat (soc_powman_accum_ms_hz p') =
           unat (soc_powman_accum_ms_hz p) + ms * unat (PM_TICK_HZ p) \<and>
         unat (soc_powman_accum_ms_hz p') < 1000 \<and>
         ticks3 * 1000000 + unat (soc_tickless_accum_us_hz u') =
           unat (soc_tickless_accum_us_hz u) + us * unat (US_TICK_HZ u) \<and>
         unat (soc_tickless_accum_us_hz u') < 1000000"
proof -
  note 1 = lptim_bank.run_exact [OF assms(2,1)]
  note 2 = powman_bank.run_exact [OF assms(5,3)]
  note 3 = us_bank.run_exact [OF assms(8,6)]
  show ?thesis
    using 1 2 3 assms(4,7) lptim_bank.bank_small [of l'] powman_bank.bank_small [of p'] us_bank.bank_small [of u']
    by simp
qed

text \<open>A tick of 100 Hz on both Raspberry Pi timers: two windows of 25 and 18 units.\<close>

definition idle_powman :: powman where
  "idle_powman = \<lparr>PM_TICK_HZ = 100, soc_powman_entry_ms = 0, soc_powman_accum_ms_hz = 0, soc_powman_ready = True,
     timer_running = True, lposc_hz = None, alarm_at = None, alarm_fired = False, irq_on = False\<rparr>"

definition idle_us :: us_timer where
  "idle_us = \<lparr>US_TICK_HZ = 100, soc_tickless_alarm = 2, soc_tickless_entry_us = 0, soc_tickless_accum_us_hz = 0,
     INTE = False, INTR = False, ALARM = 0, us_irq_on = False\<rparr>"

lemmas idle_eval = idle_powman_def idle_us_def powman_window_def us_window_def soc_powman_window_open_def
  soc_powman_window_close_def us_suppress_def us_resume_def soc_tickless_alarm_ready_def soc_powman_ready_get_def
  soc_tickless_ticks_to_us_def span_measured_def

lemma late_run: "bank_run lptim_window lptim_measured late_lptim [10, 10, 10, 10] = Some (41, 1344, late_after 1200 512 [])"
  by (simp add: late_windows late_measured)

lemma powman_run: "\<exists>t. bank_run (powman_window 0) span_measured idle_powman [(2, 100, 125), (2, 200, 218)] = Some (4, 43, t)"
  by (simp add: idle_eval Let_def)

lemma us_run:
  "\<exists>t. bank_run (us_window 2) span_measured idle_us [(2, 100, 25100), (1, 30000, 48000)] = Some (4, 43000, t)"
  by (simp add: idle_eval Let_def)

theorem wake_sources_keep_time_witness:
  "\<exists>p' u'. (41 :: nat) * 32768 + 512 = 1344 * 1000 \<and>
     bank_run (powman_window 0) span_measured idle_powman [(2, 100, 125), (2, 200, 218)] = Some (4, 43, p') \<and>
     4 * 1000 + unat (soc_powman_accum_ms_hz p') = 43 * 100 \<and>
     bank_run (us_window 2) span_measured idle_us [(2, 100, 25100), (1, 30000, 48000)] = Some (4, 43000, u') \<and>
     4 * 1000000 + unat (soc_tickless_accum_us_hz u') = 43000 * 100"
proof -
  obtain p' where p: "bank_run (powman_window 0) span_measured idle_powman [(2, 100, 125), (2, 200, 218)] = Some (4, 43, p')"
    using powman_run by blast
  obtain u' where u: "bank_run (us_window 2) span_measured idle_us [(2, 100, 25100), (1, 30000, 48000)] = Some (4, 43000, u')"
    using us_run by blast
  have ok: "powman_ok idle_powman" "us_ok idle_us"
    by (simp_all add: idle_eval powman_ok_def us_ok_def powman_config_ok_def SOC_POWMAN_MS_PER_TICK_def)
  have f: "\<forall>w \<in> set [(2, 100, 125), (2, 200, 218)]. span_fits w" "\<forall>w \<in> set [(2, 100, 25100), (1, 30000, 48000)]. span_fits w"
    by (simp_all add: span_fits_def)
  have i: "soc_lptim_rate late_lptim = 32768" "TICK_HZ late_lptim = 1000" "soc_lptim_accum late_lptim = 0"
    "soc_lptim_accum (late_after 1200 512 []) = 512" "PM_TICK_HZ idle_powman = 100" "US_TICK_HZ idle_us = 100"
    "soc_powman_accum_ms_hz idle_powman = 0" "soc_tickless_accum_us_hz idle_us = 0"
    by (simp_all add: late_lptim_def late_after_def idle_powman_def idle_us_def)
  show ?thesis
    using wake_sources_keep_time [OF late_lptim_ok late_run ok(1) f(1) p ok(2) f(2) u] p u
    by (intro exI [of _ p'] exI [of _ u']) (simp add: i)
qed

text \<open>
  C37. What the clamp of \<open>os_arch_elapsed_ticks_get\<close> makes of the STM32 window. The timer takes every
  whole tick it measured out of its bank, but no more than the planned count is announced: whatever is
  beyond the plan, a late wake or ticks that earlier late wakes added up to, never reaches the kernel's clock.
  That happens exactly when bank and measurement together reach one tick more than the plan.
\<close>

theorem clamp_loses_banked_ticks:
  assumes "lptim_ok s" "2 \<le> planned" "lptim_suppress_max s \<noteq> 0"
    and "stm32_sleep hw (s, w) planned = Some (announced, s', w')"
  shows "\<exists>lost. (unat announced + lost) * unat (soc_lptim_rate s) + unat (soc_lptim_accum s') =
      unat (soc_lptim_accum s) + lptim_measured s planned * unat (TICK_HZ s) \<and>
    announced \<le> planned \<and>
    (0 < lost \<longleftrightarrow> (unat planned + 1) * unat (soc_lptim_rate s) \<le>
       unat (soc_lptim_accum s) + lptim_measured s planned * unat (TICK_HZ s))"
  by (rule stm32_sleep_accounts [OF assms]) blast

text \<open>
  The last of the four late windows: 41 ticks have passed since the first began, 30 were announced, and
  this one announces ten.
\<close>

lemma late_last_ok: "lptim_ok (late_after 800 24960 [1200, 1200, 1536, 1536])" by code_simp

theorem clamp_loses_banked_ticks_witness:
  "\<exists>lost > 0. \<exists>w'. stm32_sleep id (late_after 800 24960 [1200, 1200, 1536, 1536], overrun_window) 10 =
      Some (10, late_after 1200 512 [], w') \<and> (10 + lost) * 32768 + 512 = 24960 + 336 * (1000 :: nat)"
proof -
  let ?s = "late_after 800 24960 [1200, 1200, 1536, 1536]"
  obtain w' where w: "stm32_sleep id (?s, overrun_window) 10 = Some (10, late_after 1200 512 [], w')"
    using stm32_sleep_step [of 10 ?s 11 "late_after 1200 512 []" id overrun_window] late_max(2) late_windows(4) by auto
  have i: "soc_lptim_rate ?s = 32768" "TICK_HZ ?s = 1000" "soc_lptim_accum ?s = 24960"
    "soc_lptim_accum (late_after 1200 512 []) = 512"
    by (simp_all add: late_lptim_def late_after_def)
  obtain lost where "(unat (10 :: u32) + lost) * 32768 + 512 = 24960 + 336 * 1000" "0 < lost"
    using clamp_loses_banked_ticks [OF late_last_ok _ late_max(2) w] by (auto simp: i late_measured)
  then show ?thesis using w by (intro exI [of _ lost] conjI exI [of _ w']) simp_all
qed

section \<open>Deep sleep\<close>

text \<open>
  C38. The clock that both cores run on stops only under a parked core. In every interleaving of the
  two cores, as long as core 0 gives up fewer than \<open>2 ^ 32 - 1\<close> requests within one pass of core 1: when
  clk_sys is stopped, core 1 is in its park loop for the request that stands, with its tick off and
  interrupts masked on both cores.
\<close>

theorem clock_stops_only_parked:
  assumes "sleep_run K given_up s" "K < 4294967295" "clk_sys_stopped s"
  shows "parked s \<and> soc_sleep_request s = peer_generation s \<and> soc_sleep_request s \<noteq> 0 \<and>
    \<not> peer_tick_on s \<and> \<not> peer_mie s \<and> \<not> owner_mie s"
  by (rule stopped_clock_parked [OF assms])

theorem clock_stops_only_parked_witness:
  "\<exists>s. clk_sys_stopped s \<and> parked s \<and> soc_sleep_request s \<noteq> 0 \<and> \<not> peer_mie s \<and> \<not> owner_mie s"
proof -
  obtain b t where r: "walk_run rendezvous 0 sleep_boot = (b, t)" by (cases "walk_run rendezvous 0 sleep_boot")
  have "sleep_run 18 b t" by (rule walk_run_run [OF sleep_run.boot _ r]) (simp add: rendezvous_def)
  moreover have "clk_sys_stopped t" using rendezvous_sleeps r by simp
  ultimately show ?thesis using clock_stops_only_parked [of 18 b t] by (intro exI [of _ t]) auto
qed

end
