(* ===== verification/Spinlock.thy ===== *)
theory Spinlock
  imports Atomic Critical
begin

text \<open>
  The kernel's spinlock, instruction by instruction: the retry loops over an exclusive access that
  \<open>os_arch_spinlock_acquire\<close> and \<open>os_arch_spinlock_release\<close> are on ARM
  (\<^verbatim>\<open>arch/arm/common/os_arch_port_common.h\<close>) and on RISC-V (\<^verbatim>\<open>arch/riscv/common/os_arch_port_common.h\<close>), on the
  machine of \<open>Atomic\<close>. Any number of cores interleave. What the two routines must do is the
  locale \<open>spin_port\<close>; inside it, they are shown to implement the indivisible lock that \<open>Critical\<close> uses.
\<close>

section \<open>The routines\<close>

text \<open>Labels are instruction indexes. \<open>Updated\<close> holds the one that is stored, \<open>Value\<close> the zero.\<close>

definition arm_spinlock_acquire :: "instr list" where
  "arm_spinlock_acquire =
     [SET Updated 1, LDREX Current, CMP0 Current, BNE 1, STREX Failed Updated, CMP0 Failed, BNE 1]"

definition arm_spinlock_release :: "instr list" where
  "arm_spinlock_release = [SET Value 0, STOREW Value]"

definition rv_spinlock_acquire :: "instr list" where
  "rv_spinlock_acquire = [SET Updated 1, LDREX Current, BNEZ Current 1, STREX Failed Updated, BNEZ Failed 1]"

definition rv_spinlock_release :: "instr list" where
  "rv_spinlock_release = [SET Value 0, STOREW Value]"

section \<open>Cores that take and give the lock\<close>

datatype spin_phase = Outside | Locking thread | Inside | Unlocking thread

record spin =
  spin_mem :: shared
  phase :: "nat \<Rightarrow> spin_phase"

text \<open>The registers a routine finds are arbitrary. \<open>lose\<close>: an exception or another core takes a reservation.\<close>

inductive spin_step :: "instr list \<Rightarrow> instr list \<Rightarrow> spin \<Rightarrow> spin \<Rightarrow> bool" for acquire release where
  lock: "phase s c = Outside \<Longrightarrow> pc th = 0 \<Longrightarrow>
    spin_step acquire release s (s\<lparr>phase := (phase s)(c := Locking th)\<rparr>)"
| lock_run: "phase s c = Locking th \<Longrightarrow> pc th < length acquire \<Longrightarrow>
    exec c (acquire ! pc th) th (spin_mem s) = Some (th', sh', evs) \<Longrightarrow>
    spin_step acquire release s (s\<lparr>spin_mem := sh', phase := (phase s)(c := Locking th')\<rparr>)"
| locked: "phase s c = Locking th \<Longrightarrow> length acquire \<le> pc th \<Longrightarrow>
    spin_step acquire release s (s\<lparr>phase := (phase s)(c := Inside)\<rparr>)"
| unlock: "phase s c = Inside \<Longrightarrow> pc th = 0 \<Longrightarrow>
    spin_step acquire release s (s\<lparr>phase := (phase s)(c := Unlocking th)\<rparr>)"
| unlock_run: "phase s c = Unlocking th \<Longrightarrow> pc th < length release \<Longrightarrow>
    exec c (release ! pc th) th (spin_mem s) = Some (th', sh', evs) \<Longrightarrow>
    spin_step acquire release s (s\<lparr>spin_mem := sh', phase := (phase s)(c := Unlocking th')\<rparr>)"
| unlocked: "phase s c = Unlocking th \<Longrightarrow> length release \<le> pc th \<Longrightarrow>
    spin_step acquire release s (s\<lparr>phase := (phase s)(c := Outside)\<rparr>)"
| lose: "spin_step acquire release s
    (s\<lparr>spin_mem := (spin_mem s)\<lparr>reserved := (reserved (spin_mem s))(c := False)\<rparr>\<rparr>)"

text \<open>\<open>OS_ARCH_SPINLOCK_INIT\<close>: the word is zero, and nobody is in a routine.\<close>

definition spin_boot :: "spin \<Rightarrow> bool" where
  "spin_boot s \<longleftrightarrow> word (spin_mem s) = 0 \<and> phase s = (\<lambda>_. Outside)"

inductive spin_run :: "instr list \<Rightarrow> instr list \<Rightarrow> spin \<Rightarrow> bool" for acquire release where
  boot: "spin_boot s \<Longrightarrow> spin_run acquire release s"
| step: "spin_run acquire release s \<Longrightarrow> spin_step acquire release s s' \<Longrightarrow> spin_run acquire release s'"

text \<open>The moves of an indivisible lock: none, taken while free, given up while taken.\<close>

definition lock_moves :: "nat option \<Rightarrow> nat option \<Rightarrow> bool" where
  "lock_moves k k' \<longleftrightarrow> k' = k \<or> (k = None \<and> k' \<noteq> None) \<or> (k \<noteq> None \<and> k' = None)"

section \<open>What the routines must do\<close>

text \<open>
  \<open>A\<close> is an invariant of the acquiring code (instruction, registers, flag, the word, the reservation), kept
  when another core stores to the word; \<open>won\<close> tells that the lock is taken already. \<open>held\<close> tells that the
  releasing code has not given it up yet, and \<open>R\<close> is its invariant.
\<close>

locale spin_port =
  fixes acquire release :: "instr list"
    and A :: "nat \<Rightarrow> (reg \<Rightarrow> u32) \<Rightarrow> bool \<Rightarrow> u32 \<Rightarrow> bool \<Rightarrow> bool"
    and won :: "nat \<Rightarrow> (reg \<Rightarrow> u32) \<Rightarrow> bool \<Rightarrow> bool"
    and R :: "nat \<Rightarrow> (reg \<Rightarrow> u32) \<Rightarrow> bool"
    and held :: "nat \<Rightarrow> bool"
  assumes begins: "A 0 r z w m" "\<not> won 0 r z" "R 0 r" "held 0"
    and acquires: "\<lbrakk> A (pc th) (rf th) (zf th) (word sh) (reserved sh c); pc th < length acquire;
        exec c (acquire ! pc th) th sh = Some (th', sh', evs) \<rbrakk> \<Longrightarrow>
      A (pc th') (rf th') (zf th') (word sh') (reserved sh' c) \<and>
      (if writes (acquire ! pc th) (reserved sh c)
       then word sh = 0 \<and> word sh' = 1 \<and> \<not> won (pc th) (rf th) (zf th) \<and> won (pc th') (rf th') (zf th')
       else won (pc th') (rf th') (zf th') = won (pc th) (rf th) (zf th))"
    and stable: "A i r z w m \<Longrightarrow> A i r z w' False"
    and got: "A i r z w m \<Longrightarrow> length acquire \<le> i \<Longrightarrow> won i r z"
    and releases: "\<lbrakk> R (pc th) (rf th); pc th < length release; exec c (release ! pc th) th sh = Some (th', sh', evs) \<rbrakk> \<Longrightarrow>
      R (pc th') (rf th') \<and>
      (if writes (release ! pc th) (reserved sh c) then word sh' = 0 \<and> held (pc th) \<and> \<not> held (pc th')
       else held (pc th') = held (pc th))"
    and given: "R i r \<Longrightarrow> length release \<le> i \<Longrightarrow> \<not> held i"
begin

definition owns :: "nat \<Rightarrow> spin \<Rightarrow> bool" where
  "owns c s \<longleftrightarrow>
     (case phase s c of Outside \<Rightarrow> False | Locking th \<Rightarrow> won (pc th) (rf th) (zf th) | Inside \<Rightarrow> True
      | Unlocking th \<Rightarrow> held (pc th))"

definition code_ok :: "nat \<Rightarrow> spin \<Rightarrow> bool" where
  "code_ok c s \<longleftrightarrow>
     (case phase s c of
        Locking th \<Rightarrow> A (pc th) (rf th) (zf th) (word (spin_mem s)) (reserved (spin_mem s) c)
      | Unlocking th \<Rightarrow> R (pc th) (rf th) | _ \<Rightarrow> True)"

text \<open>The concrete lock represents the abstract one.\<close>

definition represents :: "spin \<Rightarrow> nat option \<Rightarrow> bool" where
  "represents s k \<longleftrightarrow> (\<forall>c. code_ok c s) \<and> (\<forall>c. owns c s \<longleftrightarrow> k = Some c) \<and>
     word (spin_mem s) = (case k of None \<Rightarrow> 0 | Some _ \<Rightarrow> 1)"

lemma boot_represents: "spin_boot s \<Longrightarrow> represents s None"
  by (simp add: spin_boot_def represents_def code_ok_def owns_def)

text \<open>What an instruction of one core leaves true of the others.\<close>

lemma others_code_ok:
  assumes o: "code_ok d s" "d \<noteq> c" and e: "exec c i th (spin_mem s) = Some (th', sh', evs)"
  shows "code_ok d (s\<lparr>spin_mem := sh', phase := (phase s)(c := p)\<rparr>)"
proof (cases "writes i (reserved (spin_mem s) c)")
  case True
  then show ?thesis using o exec_shared(3) [OF e True] stable
    by (cases "phase s d") (auto simp: code_ok_def)
next
  case False
  then show ?thesis using o exec_shared(2) [OF e False] by (cases "phase s d") (simp_all add: code_ok_def)
qed

lemma others_owns: "d \<noteq> c \<Longrightarrow> owns d (s\<lparr>spin_mem := sh', phase := (phase s)(c := p)\<rparr>) = owns d s"
  by (simp add: owns_def)

text \<open>Only core \<open>c\<close> moves, and the owner does not change; or \<open>c\<close> takes or gives up the lock.\<close>

lemma representsI:
  assumes r: "represents s k" and o: "\<And>d. d \<noteq> c \<Longrightarrow> code_ok d s'" "\<And>d. d \<noteq> c \<Longrightarrow> owns d s' = owns d s"
    and c: "code_ok c s'" "owns c s' = owns c s" "word (spin_mem s') = word (spin_mem s)"
  shows "represents s' k"
proof -
  have "code_ok d s'" for d using o(1) c(1) by (cases "d = c") blast+
  moreover have "owns d s' = owns d s" for d using o(2) c(2) by (cases "d = c") blast+
  ultimately show ?thesis using r c(3) by (simp add: represents_def)
qed

lemma represents_takes:
  assumes r: "represents s k" and o: "\<And>d. d \<noteq> c \<Longrightarrow> code_ok d s'" "\<And>d. d \<noteq> c \<Longrightarrow> owns d s' = owns d s"
    and c: "code_ok c s'" "owns c s'" "word (spin_mem s) = 0" "word (spin_mem s') = 1"
  shows "represents s' (Some c) \<and> k = None"
proof -
  have k: "k = None" using r c(3) by (simp add: represents_def split: option.splits)
  have "code_ok d s'" for d using o(1) c(1) by (cases "d = c") blast+
  moreover have "owns d s' \<longleftrightarrow> Some c = Some d" for d
    using o(2) c(2) r k by (cases "d = c") (simp_all add: represents_def)
  ultimately show ?thesis using k c(4) by (simp add: represents_def)
qed

lemma represents_gives:
  assumes r: "represents s k" and o: "\<And>d. d \<noteq> c \<Longrightarrow> code_ok d s'" "\<And>d. d \<noteq> c \<Longrightarrow> owns d s' = owns d s"
    and c: "code_ok c s'" "owns c s" "\<not> owns c s'" "word (spin_mem s') = 0"
  shows "represents s' None \<and> k = Some c"
proof -
  have k: "k = Some c" using r c(2) by (simp add: represents_def)
  have "code_ok d s'" for d using o(1) c(1) by (cases "d = c") blast+
  moreover have "\<not> owns d s'" for d
    using o(2) c(3) r k by (cases "d = c") (simp_all add: represents_def)
  ultimately show ?thesis using k c(4) by (simp add: represents_def)
qed

lemma phase_represents:
  assumes r: "represents s k" and c: "code_ok c (s\<lparr>phase := (phase s)(c := p)\<rparr>)"
    "owns c (s\<lparr>phase := (phase s)(c := p)\<rparr>) = owns c s"
  shows "represents (s\<lparr>phase := (phase s)(c := p)\<rparr>) k"
proof (rule representsI [OF r, where c = c])
  show "code_ok d (s\<lparr>phase := (phase s)(c := p)\<rparr>)" if "d \<noteq> c" for d
  proof -
    have "code_ok d s" using r by (simp add: represents_def)
    then show ?thesis using that by (cases "phase s d") (simp_all add: code_ok_def)
  qed
qed (use c in \<open>simp_all add: owns_def\<close>)

lemma acquire_represents:
  assumes r: "represents s k" and p: "phase s c = Locking th" "pc th < length acquire"
    and e: "exec c (acquire ! pc th) th (spin_mem s) = Some (th', sh', evs)"
  shows "\<exists>k'. represents (s\<lparr>spin_mem := sh', phase := (phase s)(c := Locking th')\<rparr>) k' \<and> lock_moves k k'"
proof -
  let ?s = "s\<lparr>spin_mem := sh', phase := (phase s)(c := Locking th')\<rparr>"
  have all: "code_ok d s" for d using r by (simp add: represents_def)
  have a: "A (pc th) (rf th) (zf th) (word (spin_mem s)) (reserved (spin_mem s) c)"
    using all [of c] p(1) by (simp add: code_ok_def)
  note x = acquires [OF a p(2) e]
  have ok: "\<And>d. d \<noteq> c \<Longrightarrow> code_ok d ?s" using others_code_ok [OF all _ e] .
  have mine: "code_ok c ?s" "owns c s = won (pc th) (rf th) (zf th)" "owns c ?s = won (pc th') (rf th') (zf th')"
    using conjunct1 [OF x] p(1) by (simp_all add: code_ok_def owns_def)
  show ?thesis
  proof (cases "writes (acquire ! pc th) (reserved (spin_mem s) c)")
    case True
    then have "represents ?s (Some c) \<and> k = None"
      using x mine by (intro represents_takes [OF r ok others_owns]) simp_all
    then show ?thesis by (intro exI [of _ "Some c"]) (simp add: lock_moves_def)
  next
    case False
    have o: "owns c ?s = owns c s" unfolding mine using x False by simp
    have "represents ?s k"
      by (rule representsI [OF r ok others_owns mine(1) o]) (simp_all add: exec_shared(2) [OF e False])
    then show ?thesis by (intro exI [of _ k]) (simp add: lock_moves_def)
  qed
qed

lemma release_represents:
  assumes r: "represents s k" and p: "phase s c = Unlocking th" "pc th < length release"
    and e: "exec c (release ! pc th) th (spin_mem s) = Some (th', sh', evs)"
  shows "\<exists>k'. represents (s\<lparr>spin_mem := sh', phase := (phase s)(c := Unlocking th')\<rparr>) k' \<and> lock_moves k k'"
proof -
  let ?s = "s\<lparr>spin_mem := sh', phase := (phase s)(c := Unlocking th')\<rparr>"
  have all: "code_ok d s" for d using r by (simp add: represents_def)
  have a: "R (pc th) (rf th)" using all [of c] p(1) by (simp add: code_ok_def)
  note x = releases [OF a p(2) e]
  have ok: "\<And>d. d \<noteq> c \<Longrightarrow> code_ok d ?s" using others_code_ok [OF all _ e] .
  have mine: "code_ok c ?s" "owns c s = held (pc th)" "owns c ?s = held (pc th')"
    using conjunct1 [OF x] p(1) by (simp_all add: code_ok_def owns_def)
  show ?thesis
  proof (cases "writes (release ! pc th) (reserved (spin_mem s) c)")
    case True
    then have "represents ?s None \<and> k = Some c"
      using x mine by (intro represents_gives [OF r ok others_owns]) simp_all
    then show ?thesis by (intro exI [of _ None]) (simp add: lock_moves_def)
  next
    case False
    have o: "owns c ?s = owns c s" unfolding mine using x False by simp
    have "represents ?s k"
      by (rule representsI [OF r ok others_owns mine(1) o]) (simp_all add: exec_shared(2) [OF e False])
    then show ?thesis by (intro exI [of _ k]) (simp add: lock_moves_def)
  qed
qed

lemma step_represents:
  assumes "spin_step acquire release s s'" and r: "represents s k"
  shows "\<exists>k'. represents s' k' \<and> lock_moves k k'"
proof -
  have all: "code_ok d s" for d using r by (simp add: represents_def)
  have same: "represents s' k \<Longrightarrow> ?thesis" by (intro exI [of _ k]) (simp add: lock_moves_def)
  from assms(1) show ?thesis
  proof cases
    case (lock_run c th th' sh' evs)
    then show ?thesis using acquire_represents [OF r] by simp
  next
    case (unlock_run c th th' sh' evs)
    then show ?thesis using release_represents [OF r] by simp
  next
    case (lock c th)
    show ?thesis unfolding lock(1)
      by (rule same [unfolded lock(1)], rule phase_represents [OF r])
         (simp_all add: code_ok_def owns_def lock begins)
  next
    case (locked c th)
    have "won (pc th) (rf th) (zf th)" using all [of c] locked got by (simp add: code_ok_def)
    then show ?thesis unfolding locked(1)
      by (intro same [unfolded locked(1)] phase_represents [OF r]) (simp_all add: code_ok_def owns_def locked)
  next
    case (unlock c th)
    show ?thesis unfolding unlock(1)
      by (rule same [unfolded unlock(1)], rule phase_represents [OF r])
         (simp_all add: code_ok_def owns_def unlock begins)
  next
    case (unlocked c th)
    have "\<not> held (pc th)" using all [of c] unlocked given by (simp add: code_ok_def)
    then show ?thesis unfolding unlocked(1)
      by (intro same [unfolded unlocked(1)] phase_represents [OF r]) (simp_all add: code_ok_def owns_def unlocked)
  next
    case (lose c)
    have "code_ok d s'" for d
      using all [of d] stable unfolding lose by (cases "phase s d") (simp_all add: code_ok_def)
    then have "represents s' k" unfolding lose by (intro representsI [OF r]) (simp_all add: owns_def)
    then show ?thesis by (rule same)
  qed
qed

lemma run_represents: "spin_run acquire release s \<Longrightarrow> \<exists>k. represents s k"
  by (induction rule: spin_run.induct) (blast dest: boot_represents step_represents)+

lemma inside_word: "spin_run acquire release s \<Longrightarrow> phase s c = Inside \<Longrightarrow> word (spin_mem s) = 1"
proof -
  assume r: "spin_run acquire release s" and c: "phase s c = Inside"
  obtain k where k: "represents s k" using run_represents [OF r] by blast
  then have "k = Some c" using c by (auto simp: represents_def owns_def)
  then show ?thesis using k by (simp add: represents_def)
qed

lemma exclusive:
  assumes "spin_run acquire release s" "phase s c = Inside" "phase s d = Inside"
  shows "c = d"
proof -
  obtain k where "represents s k" using run_represents [OF assms(1)] by blast
  then have "owns c s \<longleftrightarrow> k = Some c" "owns d s \<longleftrightarrow> k = Some d" by (simp_all add: represents_def)
  then show ?thesis using assms(2,3) by (simp add: owns_def)
qed

end


section \<open>The two ports meet it\<close>

definition arm_lock_inv :: "nat \<Rightarrow> (reg \<Rightarrow> u32) \<Rightarrow> bool \<Rightarrow> u32 \<Rightarrow> bool \<Rightarrow> bool" where
  "arm_lock_inv i r z w m \<longleftrightarrow> i \<le> 7 \<and> (1 \<le> i \<longrightarrow> r Updated = 1) \<and>
     (m \<longrightarrow> (i = 2 \<longrightarrow> r Current = w) \<and> (i = 3 \<longrightarrow> z = (w = 0)) \<and> (i = 4 \<longrightarrow> w = 0))"

definition arm_lock_won :: "nat \<Rightarrow> (reg \<Rightarrow> u32) \<Rightarrow> bool \<Rightarrow> bool" where
  "arm_lock_won i r z \<longleftrightarrow> i = 5 \<and> r Failed = 0 \<or> i = 6 \<and> z \<or> 7 \<le> i"

definition rv_lock_inv :: "nat \<Rightarrow> (reg \<Rightarrow> u32) \<Rightarrow> bool \<Rightarrow> u32 \<Rightarrow> bool \<Rightarrow> bool" where
  "rv_lock_inv i r z w m \<longleftrightarrow> i \<le> 5 \<and> (1 \<le> i \<longrightarrow> r Updated = 1) \<and>
     (m \<longrightarrow> (i = 2 \<longrightarrow> r Current = w) \<and> (i = 3 \<longrightarrow> w = 0))"

definition rv_lock_won :: "nat \<Rightarrow> (reg \<Rightarrow> u32) \<Rightarrow> bool \<Rightarrow> bool" where
  "rv_lock_won i r z \<longleftrightarrow> i = 4 \<and> r Failed = 0 \<or> 5 \<le> i"

definition unlock_inv :: "nat \<Rightarrow> (reg \<Rightarrow> u32) \<Rightarrow> bool" where
  "unlock_inv i r \<longleftrightarrow> i \<le> 2 \<and> (1 \<le> i \<longrightarrow> r Value = 0)"

definition unlock_held :: "nat \<Rightarrow> bool" where
  "unlock_held i \<longleftrightarrow> i \<le> 1"

lemmas spin_exec = writes_def put_def jump_def store_def

lemma arm_acquire_step:
  assumes a: "arm_lock_inv (pc th) (rf th) (zf th) (word sh) (reserved sh c)" and i: "pc th < length arm_spinlock_acquire"
    and e: "exec c (arm_spinlock_acquire ! pc th) th sh = Some (th', sh', evs)"
  shows "arm_lock_inv (pc th') (rf th') (zf th') (word sh') (reserved sh' c) \<and>
      (if writes (arm_spinlock_acquire ! pc th) (reserved sh c)
       then word sh = 0 \<and> word sh' = 1 \<and> \<not> arm_lock_won (pc th) (rf th) (zf th) \<and> arm_lock_won (pc th') (rf th') (zf th')
       else arm_lock_won (pc th') (rf th') (zf th') = arm_lock_won (pc th) (rf th) (zf th))"
proof -
  have "pc th = 0 \<or> pc th = 1 \<or> pc th = 2 \<or> pc th = 3 \<or> pc th = 4 \<or> pc th = 5 \<or> pc th = 6"
    using i by (simp add: arm_spinlock_acquire_def) linarith
  then show ?thesis
    using a e
    by (elim disjE) (auto simp: arm_spinlock_acquire_def arm_lock_inv_def arm_lock_won_def spin_exec split: if_splits)
qed

lemma rv_acquire_step:
  assumes a: "rv_lock_inv (pc th) (rf th) (zf th) (word sh) (reserved sh c)" and i: "pc th < length rv_spinlock_acquire"
    and e: "exec c (rv_spinlock_acquire ! pc th) th sh = Some (th', sh', evs)"
  shows "rv_lock_inv (pc th') (rf th') (zf th') (word sh') (reserved sh' c) \<and>
      (if writes (rv_spinlock_acquire ! pc th) (reserved sh c)
       then word sh = 0 \<and> word sh' = 1 \<and> \<not> rv_lock_won (pc th) (rf th) (zf th) \<and> rv_lock_won (pc th') (rf th') (zf th')
       else rv_lock_won (pc th') (rf th') (zf th') = rv_lock_won (pc th) (rf th) (zf th))"
proof -
  have "pc th = 0 \<or> pc th = 1 \<or> pc th = 2 \<or> pc th = 3 \<or> pc th = 4"
    using i by (simp add: rv_spinlock_acquire_def) linarith
  then show ?thesis
    using a e
    by (elim disjE) (auto simp: rv_spinlock_acquire_def rv_lock_inv_def rv_lock_won_def spin_exec split: if_splits)
qed

lemma release_step:
  assumes a: "unlock_inv (pc th) (rf th)" and l: "l = [SET Value 0, STOREW Value]" and i: "pc th < length l"
    and e: "exec c (l ! pc th) th sh = Some (th', sh', evs)"
  shows "unlock_inv (pc th') (rf th') \<and>
      (if writes (l ! pc th) (reserved sh c) then word sh' = 0 \<and> unlock_held (pc th) \<and> \<not> unlock_held (pc th')
       else unlock_held (pc th') = unlock_held (pc th))"
proof -
  have "pc th = 0 \<or> pc th = 1" using i l by auto
  then show ?thesis
    using a e unfolding l by (elim disjE) (auto simp: unlock_inv_def unlock_held_def spin_exec)
qed

interpretation arm_spin: spin_port arm_spinlock_acquire arm_spinlock_release arm_lock_inv arm_lock_won unlock_inv unlock_held
proof
  show "arm_lock_inv (pc th') (rf th') (zf th') (word sh') (reserved sh' c) \<and>
      (if writes (arm_spinlock_acquire ! pc th) (reserved sh c)
       then word sh = 0 \<and> word sh' = 1 \<and> \<not> arm_lock_won (pc th) (rf th) (zf th) \<and> arm_lock_won (pc th') (rf th') (zf th')
       else arm_lock_won (pc th') (rf th') (zf th') = arm_lock_won (pc th) (rf th) (zf th))"
    if "arm_lock_inv (pc th) (rf th) (zf th) (word sh) (reserved sh c)" "pc th < length arm_spinlock_acquire"
      "exec c (arm_spinlock_acquire ! pc th) th sh = Some (th', sh', evs)" for th sh c th' sh' evs
    using that by (rule arm_acquire_step)
  show "unlock_inv (pc th') (rf th') \<and>
      (if writes (arm_spinlock_release ! pc th) (reserved sh c) then word sh' = 0 \<and> unlock_held (pc th) \<and> \<not> unlock_held (pc th')
       else unlock_held (pc th') = unlock_held (pc th))"
    if "unlock_inv (pc th) (rf th)" "pc th < length arm_spinlock_release"
      "exec c (arm_spinlock_release ! pc th) th sh = Some (th', sh', evs)" for th sh c th' sh' evs
    by (rule release_step [OF that(1) arm_spinlock_release_def that(2,3)])
qed (simp_all add: arm_lock_inv_def arm_lock_won_def unlock_inv_def unlock_held_def arm_spinlock_acquire_def
    arm_spinlock_release_def)

interpretation rv_spin: spin_port rv_spinlock_acquire rv_spinlock_release rv_lock_inv rv_lock_won unlock_inv unlock_held
proof
  show "rv_lock_inv (pc th') (rf th') (zf th') (word sh') (reserved sh' c) \<and>
      (if writes (rv_spinlock_acquire ! pc th) (reserved sh c)
       then word sh = 0 \<and> word sh' = 1 \<and> \<not> rv_lock_won (pc th) (rf th) (zf th) \<and> rv_lock_won (pc th') (rf th') (zf th')
       else rv_lock_won (pc th') (rf th') (zf th') = rv_lock_won (pc th) (rf th) (zf th))"
    if "rv_lock_inv (pc th) (rf th) (zf th) (word sh) (reserved sh c)" "pc th < length rv_spinlock_acquire"
      "exec c (rv_spinlock_acquire ! pc th) th sh = Some (th', sh', evs)" for th sh c th' sh' evs
    using that by (rule rv_acquire_step)
  show "unlock_inv (pc th') (rf th') \<and>
      (if writes (rv_spinlock_release ! pc th) (reserved sh c) then word sh' = 0 \<and> unlock_held (pc th) \<and> \<not> unlock_held (pc th')
       else unlock_held (pc th') = unlock_held (pc th))"
    if "unlock_inv (pc th) (rf th)" "pc th < length rv_spinlock_release"
      "exec c (rv_spinlock_release ! pc th) th sh = Some (th', sh', evs)" for th sh c th' sh' evs
    by (rule release_step [OF that(1) rv_spinlock_release_def that(2,3)])
qed (simp_all add: rv_lock_inv_def rv_lock_won_def unlock_inv_def unlock_held_def rv_spinlock_acquire_def
    rv_spinlock_release_def)

section \<open>The lock of \<open>Critical\<close>\<close>

text \<open>
  The moves of the represented lock are those of the indivisible operations: taken by
  \<open>os_arch_spinlock_acquire\<close>, given up by \<open>os_arch_spinlock_release\<close>.
\<close>

lemma lock_moves_critical:
  assumes "lock_moves (os_critical_kernel_lock t) k'"
  obtains t' where "os_critical_kernel_lock t' = k'"
    "t' = t \<or> (\<exists>c. os_arch_spinlock_acquire c t = Some t') \<or> t' = os_arch_spinlock_release t"
proof (cases k')
  case None
  show ?thesis
    using assms None that [of t] that [of "os_arch_spinlock_release t"]
    by (auto simp: lock_moves_def os_arch_spinlock_release_def)
next
  case (Some c)
  show ?thesis
  proof (cases "os_critical_kernel_lock t = k'")
    case True
    then show ?thesis by (rule that) simp
  next
    case False
    then have "os_arch_spinlock_acquire c t = Some (t\<lparr>os_critical_kernel_lock := Some c\<rparr>)"
      using assms Some by (auto simp: lock_moves_def os_arch_spinlock_acquire_def)
    then show ?thesis using Some by (intro that [of "t\<lparr>os_critical_kernel_lock := Some c\<rparr>"]) auto
  qed
qed

text \<open>A lock that is free and that nobody else wants is taken in one pass through the loop.\<close>

fun run_alone :: "nat \<Rightarrow> instr list \<Rightarrow> nat \<Rightarrow> thread \<times> shared \<Rightarrow> thread \<times> shared" where
  "run_alone 0 code c ts = ts"
| "run_alone (Suc fuel) code c ts =
     (case ts of (th, sh) \<Rightarrow>
        if pc th < length code
        then (case exec c (code ! pc th) th sh of Some (th', sh', _) \<Rightarrow> run_alone fuel code c (th', sh') | None \<Rightarrow> (th, sh))
        else (th, sh))"

lemma uncontended_acquire:
  assumes "word sh = 0" "pc th = 0"
  shows "pc (fst (run_alone 7 arm_spinlock_acquire c (th, sh))) = 7" "word (snd (run_alone 7 arm_spinlock_acquire c (th, sh))) = 1"
    "pc (fst (run_alone 5 rv_spinlock_acquire c (th, sh))) = 5" "word (snd (run_alone 5 rv_spinlock_acquire c (th, sh))) = 1"
  using assms by (simp_all add: numeral_eq_Suc arm_spinlock_acquire_def rv_spinlock_acquire_def spin_exec)

lemma run_alone_run:
  assumes "spin_run acquire release s" "phase s c = Locking th"
  shows "\<exists>s'. spin_run acquire release s' \<and> phase s' c = Locking (fst (run_alone n acquire c (th, spin_mem s)))"
  using assms
proof (induction n arbitrary: s th)
  case (Suc n)
  show ?case
  proof (cases "exec c (acquire ! pc th) th (spin_mem s)")
    case None
    then show ?thesis using Suc.prems by (intro exI [of _ s]) simp
  next
    case (Some r)
    obtain th' sh' evs where e: "exec c (acquire ! pc th) th (spin_mem s) = Some (th', sh', evs)"
      using Some by (cases r) auto
    let ?s = "s\<lparr>spin_mem := sh', phase := (phase s)(c := Locking th')\<rparr>"
    show ?thesis
    proof (cases "pc th < length acquire")
      case True
      then have "spin_run acquire release ?s"
        by (rule spin_run.step [OF Suc.prems(1) spin_step.lock_run [OF Suc.prems(2) _ e]])
      then show ?thesis using Suc.IH [of ?s th'] True e by simp
    next
      case False
      then show ?thesis using Suc.prems by (intro exI [of _ s]) simp
    qed
  qed
qed auto

lemma acquires_alone:
  assumes "spin_run acquire release s" "phase s c = Outside" "pc th = 0"
    and "length acquire \<le> pc (fst (run_alone n acquire c (th, spin_mem s)))"
  obtains s' where "spin_run acquire release s'" "phase s' c = Inside"
proof -
  let ?s = "s\<lparr>phase := (phase s)(c := Locking th)\<rparr>"
  have "spin_run acquire release ?s" by (rule spin_run.step [OF assms(1) spin_step.lock [OF assms(2,3)]])
  then obtain s1 where s1: "spin_run acquire release s1" "phase s1 c = Locking (fst (run_alone n acquire c (th, spin_mem s)))"
    using run_alone_run [of acquire release ?s c th n] by auto
  show thesis
    by (rule that [OF spin_run.step [OF s1(1) spin_step.locked [OF s1(2) assms(4)]]]) simp
qed

end
