(* ===== verification/Port.thy ===== *)
theory Port
  imports Window
begin

text \<open>
  What the ports do outside the context switch: the checks of a build against the hardware it runs on,
  the start of the tick, the interrupt masks and the interrupt test of RISC-V, and the cycle counter that
  an ARM core without a DWT counter derives from SysTick. Sources: \<^verbatim>\<open>arch/arm/common/os_arch_port_common.h\<close>,
  the three \<^verbatim>\<open>arch/arm/common/os_arch_port_v*.c\<close>, \<^verbatim>\<open>arch/arm/common/os_arch_cycle_systick.c\<close>, and
  \<^verbatim>\<open>arch/riscv/common/os_arch_port_common.h\<close> and \<^verbatim>\<open>os_arch_port_rv32.c\<close>. \<open>os_arch_config_fault_trap\<close>, which
  never returns, is \<open>None\<close> or a false check.
\<close>

section \<open>ARM: state and hardware\<close>

record arm_core =
  VTOR :: u32
  SHPR3 :: u32
  PSP :: u32
  MSPLIM :: u32
  CONTROL :: u32
  DEMCR :: u32
  DWT_CTRL :: u32
  DWT_CYCCNT :: u32
  PENDSVSET :: bool
  win :: window
  cycle_last :: u32

text \<open>
  What the hardware answers: the words of memory, AIRCR, the priority bits BASEPRI implements, what
  DWT_CTRL reads after a write, and the successive readings of the cycle counter.
\<close>

record arm_hw =
  mem_word :: "u32 \<Rightarrow> u32"
  AIRCR :: u32
  priority_bits :: u32
  dwt_readback :: "u32 \<Rightarrow> u32"
  dwt_samples :: "nat \<Rightarrow> u32"

definition OS_ARCH_DWT_CTRL_CYCCNTENA_MSK :: u32 where "OS_ARCH_DWT_CTRL_CYCCNTENA_MSK = 1"
definition OS_ARCH_DWT_CTRL_NOCYCCNT_MSK :: u32 where "OS_ARCH_DWT_CTRL_NOCYCCNT_MSK = 2 ^ 25"
definition OS_ARCH_DEMCR_TRCENA_MSK :: u32 where "OS_ARCH_DEMCR_TRCENA_MSK = 2 ^ 24"
definition OS_ARCH_CONTROL_FPCA_MSK :: u32 where "OS_ARCH_CONTROL_FPCA_MSK = 2 ^ 2"
definition OS_ARCH_VECTOR_PENDSV :: u32 where "OS_ARCH_VECTOR_PENDSV = 14"
definition OS_ARCH_IPSR_SYSHANDLER_BASE :: u32 where "OS_ARCH_IPSR_SYSHANDLER_BASE = 4"
definition OS_ARCH_IPSR_IRQ_BASE :: u32 where "OS_ARCH_IPSR_IRQ_BASE = 16"
definition OS_ARCH_PRIORITY_LOWEST :: u32 where "OS_ARCH_PRIORITY_LOWEST = 255"

section \<open>ARM: the checks\<close>

definition os_arch_vector_check :: "arm_hw \<Rightarrow> u32 \<Rightarrow> u32 \<Rightarrow> bool" where
  "os_arch_vector_check hw vtor pendsv_handler \<longleftrightarrow>
     mem_word hw (vtor + 4 * OS_ARCH_VECTOR_PENDSV) AND NOT 1 = pendsv_handler AND NOT 1"

definition arm_in_isr :: "u32 \<Rightarrow> bool" where
  "arm_in_isr ipsr \<longleftrightarrow> ipsr \<noteq> 0"

definition os_arch_kernel_mask_active :: "u32 \<Rightarrow> irq_mask \<Rightarrow> u32" where
  "os_arch_kernel_mask_active ceil m = (if ceil \<noteq> 0 then BASEPRI m else os_arch_primask_get m)"

text \<open>
  \<open>ceil\<close> is \<open>OS_CONFIG_MAX_SYSCALL_IRQ_PRIORITY\<close>; \<open>ipr\<close> and \<open>shpr\<close> are the priority bytes of the
  interrupts and of the system handlers. False is the trap.
\<close>

definition os_arch_isr_priority_check :: "u32 \<Rightarrow> u32 \<Rightarrow> (u32 \<Rightarrow> u8) \<Rightarrow> (u32 \<Rightarrow> u8) \<Rightarrow> bool" where
  "os_arch_isr_priority_check ceil ipsr ipr shpr =
     (if ceil = 0 then True
      else if ipsr = 0 then True
      else if ipsr \<ge> OS_ARCH_IPSR_IRQ_BASE then \<not> (ucast (ipr (ipsr - OS_ARCH_IPSR_IRQ_BASE)) < ceil)
      else if ipsr \<ge> OS_ARCH_IPSR_SYSHANDLER_BASE then \<not> (ucast (shpr (ipsr - OS_ARCH_IPSR_SYSHANDLER_BASE)) < ceil)
      else False)"

text \<open>The ceiling is written to BASEPRI and read back; sub-priority bits must not be among the implemented ones.\<close>

definition ceiling_check :: "arm_hw \<Rightarrow> u32 \<Rightarrow> bool" where
  "ceiling_check hw ceil =
     (if ceil \<noteq> 0 then
        let readback = ceil AND priority_bits hw;
            implemented = 0xFF AND priority_bits hw;
            prigroup = drop_bit 8 (AIRCR hw) AND 7
        in readback = ceil \<and> implemented AND (push_bit (unat prigroup + 1) 1 - 1) = 0
      else True)"

definition OS_CONFIG_TRUSTZONE_UNKNOWN :: u32 where "OS_CONFIG_TRUSTZONE_UNKNOWN = 0xFFFFFFFF"

definition os_arch_trustzone_state_check :: "u32 \<Rightarrow> u32 \<Rightarrow> bool" where
  "os_arch_trustzone_state_check actual configured \<longleftrightarrow>
     \<not> (actual \<noteq> OS_CONFIG_TRUSTZONE_UNKNOWN \<and> actual \<noteq> configured)"

fun dwt_moves :: "(nat \<Rightarrow> u32) \<Rightarrow> u32 \<Rightarrow> nat \<Rightarrow> nat \<Rightarrow> bool" where
  "dwt_moves sample first 0 attempt = False"
| "dwt_moves sample first (Suc left) attempt =
     (if sample attempt \<noteq> first then True else dwt_moves sample first left (Suc attempt))"

definition os_arch_dwt_enable :: "arm_hw \<Rightarrow> arm_core \<Rightarrow> bool \<times> arm_core" where
  "os_arch_dwt_enable hw s =
     (if DWT_CTRL s AND OS_ARCH_DWT_CTRL_NOCYCCNT_MSK = 0 then
        let s1 = s\<lparr>DWT_CYCCNT := 0, DWT_CTRL := dwt_readback hw (DWT_CTRL s OR OS_ARCH_DWT_CTRL_CYCCNTENA_MSK)\<rparr>
        in if DWT_CTRL s1 AND OS_ARCH_DWT_CTRL_CYCCNTENA_MSK \<noteq> 0
           then (dwt_moves (dwt_samples hw) (dwt_samples hw 0) 64 1, s1)
           else (False, s1)
      else (False, s))"

section \<open>ARM: initialisation\<close>

definition lowest_priority :: "nat \<Rightarrow> u32 \<Rightarrow> u32" where
  "lowest_priority pos shpr3 = shpr3 AND NOT (push_bit pos 0xFF) OR push_bit pos OS_ARCH_PRIORITY_LOWEST"

definition os_arch_cycle_systick_reset :: "arm_core \<Rightarrow> arm_core" where
  "os_arch_cycle_systick_reset s =
     s\<lparr>win := (win s)\<lparr>cycle_periods := 0, cycle_fallback := 0\<rparr>, cycle_last := 0\<rparr>"

text \<open>PendSV to the lowest priority, and SysTick too where it is the tick.\<close>

definition priorities_init :: "bool \<Rightarrow> arm_core \<Rightarrow> arm_core" where
  "priorities_init systick_tick s =
     (let shpr3 = lowest_priority 16 (SHPR3 s);
          shpr3' = (if systick_tick then lowest_priority 24 shpr3 else shpr3)
      in s\<lparr>SHPR3 := shpr3', PSP := 0\<rparr>)"

definition v6m_arch_init :: "arm_hw \<Rightarrow> bool \<Rightarrow> u32 \<Rightarrow> arm_core \<Rightarrow> arm_core option" where
  "v6m_arch_init hw systick_tick pendsv_handler s =
     (if os_arch_vector_check hw (VTOR s) pendsv_handler
      then Some (os_arch_cycle_systick_reset (priorities_init systick_tick s)) else None)"

definition arch_init_checked :: "arm_hw \<Rightarrow> bool \<Rightarrow> arm_core \<Rightarrow> arm_core option" where
  "arch_init_checked hw systick_tick s =
     (let s1 = priorities_init systick_tick s
      in if ceiling_check hw (irq_ceil (win s1)) then
           let s2 = (if irq_ceil (win s1) \<noteq> 0 then s1\<lparr>win := (win s1)\<lparr>irq := (irq (win s1))\<lparr>BASEPRI := 0\<rparr>\<rparr>\<rparr> else s1);
               (available, s3) = os_arch_dwt_enable hw (s2\<lparr>DEMCR := DEMCR s2 OR OS_ARCH_DEMCR_TRCENA_MSK\<rparr>)
           in Some (os_arch_cycle_systick_reset (s3\<lparr>win := (win s3)\<lparr>dwt_available := available\<rparr>\<rparr>))
         else None)"

definition v7m_arch_init :: "arm_hw \<Rightarrow> bool \<Rightarrow> u32 \<Rightarrow> arm_core \<Rightarrow> arm_core option" where
  "v7m_arch_init hw systick_tick pendsv_handler s =
     (if os_arch_vector_check hw (VTOR s) pendsv_handler then arch_init_checked hw systick_tick s else None)"

text \<open>The bottom of the handler stack that is not the SoC's: two linker symbols, the second where the first is absent.\<close>

definition os_arch_handler_stack_limit :: "bool \<Rightarrow> u32 \<Rightarrow> u32 \<Rightarrow> u32 \<Rightarrow> u32" where
  "os_arch_handler_stack_limit multicore stack_limit_symbol sstack_symbol core_id =
     (if multicore \<and> core_id \<noteq> 0 then 0
      else if stack_limit_symbol = 0 then sstack_symbol else stack_limit_symbol)"

text \<open>\<open>limit\<close>: what \<open>os_arch_handler_stack_limit_cb\<close> answers for this core, zero for none.\<close>

definition v8m_arch_init :: "arm_hw \<Rightarrow> bool \<Rightarrow> u32 \<Rightarrow> u32 \<Rightarrow> u32 \<Rightarrow> u32 \<Rightarrow> arm_core \<Rightarrow> arm_core option" where
  "v8m_arch_init hw systick_tick pendsv_handler actual configured limit s =
     (if os_arch_vector_check hw (VTOR s) pendsv_handler then
        if os_arch_trustzone_state_check actual configured then
          (case arch_init_checked hw systick_tick s of
             None \<Rightarrow> None
           | Some s1 \<Rightarrow> Some (if limit \<noteq> 0 then s1\<lparr>MSPLIM := (limit + 7) AND NOT 7\<rparr> else s1))
        else None
      else None)"

text \<open>The first switch: no task's stack pointer yet, so that PendSV takes its first-start path.\<close>

definition arm_start_first_task :: "bool \<Rightarrow> arm_core \<Rightarrow> arm_core" where
  "arm_start_first_task has_fp s =
     (let s1 = (if has_fp then s\<lparr>CONTROL := CONTROL s AND NOT OS_ARCH_CONTROL_FPCA_MSK\<rparr> else s)
      in s1\<lparr>PSP := 0, PENDSVSET := True, win := (win s1)\<lparr>irq := (irq (win s1))\<lparr>PRIMASK := False\<rparr>\<rparr>\<rparr>)"

section \<open>ARM: starting SysTick\<close>

definition systick_start :: "u32 \<Rightarrow> window \<Rightarrow> window" where
  "systick_start reload_value w =
     w\<lparr>stk := (stk w)\<lparr>SYST_RVR := reload_value - 1, SYST_CVR := 0, SYST_CSR := SYST_CSR_RUN\<rparr>\<rparr>"

definition v7m_tick_init :: "u32 \<Rightarrow> u32 \<Rightarrow> window \<Rightarrow> window" where
  "v7m_tick_init clock_hz tick_hz w =
     (if clock_hz \<noteq> 0 \<and> tick_hz \<noteq> 0 then
        let reload_value = clock_hz div tick_hz
        in if reload_value \<noteq> 0 \<and> reload_value \<le> OS_ARCH_SYST_RVR_RELOAD_MSK + 1 then systick_start reload_value w else w
      else w)"

definition v8m_tick_init :: "u32 \<Rightarrow> u32 \<Rightarrow> window \<Rightarrow> window" where
  "v8m_tick_init clock_hz tick_hz w =
     (if clock_hz \<noteq> 0 \<and> tick_hz \<noteq> 0 then
        let reload_value = clock_hz div tick_hz
        in if reload_value \<noteq> 0 \<and> reload_value \<le> OS_ARCH_SYST_RVR_RELOAD_MSK + 1
           then systick_start reload_value (w\<lparr>tick_reload_cycles := reload_value\<rparr>) else w
      else w)"

section \<open>ARM: the cycle counter from SysTick\<close>

definition OS_ARCH_CYCLE_FALLBACK_STEP :: u32 where "OS_ARCH_CYCLE_FALLBACK_STEP = 8"

text \<open>
  The readings of the sampling loop to come, in triples: the 24 bits of the counter, the
  pending bit, the counter again. \<open>None\<close>: still
  sampling when they ran out.
\<close>

fun systick_sample :: "(u32 \<times> bool \<times> u32) list \<Rightarrow> (u32 \<times> bool) option" where
  "systick_sample [] = None"
| "systick_sample ((cvr, pending, recheck) # rs) = (if recheck > cvr then systick_sample rs else Some (cvr, pending))"

definition os_arch_cycle_systick_get :: "(u32 \<times> bool \<times> u32) list \<Rightarrow> arm_core \<Rightarrow> (u32 \<times> arm_core) option" where
  "os_arch_cycle_systick_get readings s =
     (let w = win s; reload = SYST_RVR (stk w) AND OS_ARCH_SYST_RVR_RELOAD_MSK in
      if SYST_CSR (stk w) AND OS_ARCH_SYST_CSR_ENABLE_MSK = 0 \<or> reload = 0 then
        let fallback = cycle_fallback w + OS_ARCH_CYCLE_FALLBACK_STEP
        in Some (fallback, s\<lparr>win := w\<lparr>cycle_fallback := fallback\<rparr>\<rparr>)
      else
        (case systick_sample readings of
           None \<Rightarrow> None
         | Some (cvr, pending) \<Rightarrow>
             let periods = cycle_periods w + (if pending then 1 else 0);
                 value = cycle_fallback w + periods * (reload + 1) + (reload - cvr);
                 step = value - cycle_last s;
                 value' = (if sint step < 0 \<and> sint step > - sint (2 * (reload + 1)) then cycle_last s else value)
             in Some (value', s\<lparr>cycle_last := value'\<rparr>)))"

definition v7m_cycle_count_get :: "(u32 \<times> bool \<times> u32) list \<Rightarrow> arm_core \<Rightarrow> (u32 \<times> arm_core) option" where
  "v7m_cycle_count_get readings s =
     (if dwt_available (win s) then Some (DWT_CYCCNT s, s) else os_arch_cycle_systick_get readings s)"

text \<open>The busy waits' counter: \<open>reference_hz\<close> and \<open>reference\<close> are the SoC's reference clock.\<close>

definition v7m_delay_counter_hz_get :: "bool \<Rightarrow> u32 \<Rightarrow> u32 \<Rightarrow> arm_core \<Rightarrow> u32" where
  "v7m_delay_counter_hz_get multicore reference_hz clock_hz s =
     (if multicore then reference_hz else if dwt_available (win s) then clock_hz else reference_hz)"

definition v7m_delay_counter_get :: "bool \<Rightarrow> 64 word \<Rightarrow> arm_core \<Rightarrow> u32" where
  "v7m_delay_counter_get multicore reference s =
     (if multicore then ucast reference else if dwt_available (win s) then DWT_CYCCNT s else ucast reference)"

section \<open>ARMv6-M and ARMv8-M: the same routines\<close>

text \<open>
  Each of the three files has its own copy. ARMv6-M has no floating point and no DWT; it paces busy
  waits by the SoC's reference clock alone.
\<close>

definition v6m_start_first_task :: "arm_core \<Rightarrow> arm_core" where
  "v6m_start_first_task = arm_start_first_task False"

definition v6m_tick_init :: "u32 \<Rightarrow> u32 \<Rightarrow> window \<Rightarrow> window" where
  "v6m_tick_init = v7m_tick_init"

definition v6m_cycle_count_get :: "(u32 \<times> bool \<times> u32) list \<Rightarrow> arm_core \<Rightarrow> (u32 \<times> arm_core) option" where
  "v6m_cycle_count_get = os_arch_cycle_systick_get"

definition v6m_delay_counter_hz_get :: "u32 \<Rightarrow> u32" where
  "v6m_delay_counter_hz_get reference_hz = reference_hz"

definition v6m_delay_counter_get :: "64 word \<Rightarrow> u32" where
  "v6m_delay_counter_get reference = ucast reference"

definition v8m_start_first_task :: "bool \<Rightarrow> arm_core \<Rightarrow> arm_core" where
  "v8m_start_first_task = arm_start_first_task"

definition v8m_dwt_enable :: "arm_hw \<Rightarrow> arm_core \<Rightarrow> bool \<times> arm_core" where
  "v8m_dwt_enable = os_arch_dwt_enable"

definition v8m_cycle_count_get :: "(u32 \<times> bool \<times> u32) list \<Rightarrow> arm_core \<Rightarrow> (u32 \<times> arm_core) option" where
  "v8m_cycle_count_get = v7m_cycle_count_get"

definition v8m_delay_counter_hz_get :: "bool \<Rightarrow> u32 \<Rightarrow> u32 \<Rightarrow> arm_core \<Rightarrow> u32" where
  "v8m_delay_counter_hz_get = v7m_delay_counter_hz_get"

definition v8m_delay_counter_get :: "bool \<Rightarrow> 64 word \<Rightarrow> arm_core \<Rightarrow> u32" where
  "v8m_delay_counter_get = v7m_delay_counter_get"

section \<open>RISC-V: masks, interrupt test and initialisation\<close>

record hart =
  MSTATUS :: u32
  MIE_CSR :: u32
  MTVEC :: u32
  MCOUNTINHIBIT :: u32
  MEICONTEXT :: u32
  os_arch_isr_nesting :: u32

definition OS_ARCH_MSTATUS_MIE_MSK :: u32 where "OS_ARCH_MSTATUS_MIE_MSK = 2 ^ 3"
definition OS_ARCH_MIE_MSIE_MSK :: u32 where "OS_ARCH_MIE_MSIE_MSK = 2 ^ 3"
definition OS_ARCH_MCOUNTINHIBIT_CY_MSK :: u32 where "OS_ARCH_MCOUNTINHIBIT_CY_MSK = 1"
definition OS_ARCH_TRAP_CAUSE_SWI :: u32 where "OS_ARCH_TRAP_CAUSE_SWI = 3"
definition OS_ARCH_MEICONTEXT_NOIRQ_MSK :: u32 where "OS_ARCH_MEICONTEXT_NOIRQ_MSK = 2 ^ 15"

definition rv_mask_save :: "hart \<Rightarrow> u32 \<times> hart" where
  "rv_mask_save h =
     ((if MSTATUS h AND OS_ARCH_MSTATUS_MIE_MSK \<noteq> 0 then 0 else 1),
      h\<lparr>MSTATUS := MSTATUS h AND NOT OS_ARCH_MSTATUS_MIE_MSK\<rparr>)"

definition rv_mask_restore :: "u32 \<Rightarrow> hart \<Rightarrow> hart" where
  "rv_mask_restore saved_state h =
     (if saved_state = 0 then h\<lparr>MSTATUS := MSTATUS h OR OS_ARCH_MSTATUS_MIE_MSK\<rparr> else h)"

definition rv_mask_active :: "hart \<Rightarrow> u32" where
  "rv_mask_active h = (if MSTATUS h AND OS_ARCH_MSTATUS_MIE_MSK \<noteq> 0 then 0 else 1)"

text \<open>\<open>xh3irq\<close>: the core has Hazard3's interrupt controller, which knows whether an external interrupt runs.\<close>

definition os_arch_ext_irq_active :: "bool \<Rightarrow> hart \<Rightarrow> bool" where
  "os_arch_ext_irq_active xh3irq h \<longleftrightarrow> xh3irq \<and> MEICONTEXT h AND OS_ARCH_MEICONTEXT_NOIRQ_MSK = 0"

definition os_arch_isr_enter :: "hart \<Rightarrow> hart" where
  "os_arch_isr_enter h = h\<lparr>os_arch_isr_nesting := os_arch_isr_nesting h + 1\<rparr>"

definition os_arch_isr_exit :: "hart \<Rightarrow> hart" where
  "os_arch_isr_exit h = h\<lparr>os_arch_isr_nesting := os_arch_isr_nesting h - 1\<rparr>"

definition rv_in_isr :: "bool \<Rightarrow> hart \<Rightarrow> bool" where
  "rv_in_isr xh3irq h \<longleftrightarrow> os_arch_ext_irq_active xh3irq h \<or> os_arch_isr_nesting h \<noteq> 0"

text \<open>The target of a \<^verbatim>\<open>jal\<close> in the vector table, put together from its scattered offset bits.\<close>

definition jal_offset :: "u32 \<Rightarrow> u32" where
  "jal_offset instruction =
     (let offset = push_bit 1 (drop_bit 21 instruction AND 0x3FF)
                OR push_bit 11 (drop_bit 20 instruction AND 0x1)
                OR push_bit 12 (drop_bit 12 instruction AND 0xFF)
                OR push_bit 20 (drop_bit 31 instruction AND 0x1)
      in if offset AND 2 ^ 20 \<noteq> 0 then offset OR NOT (2 ^ 21 - 1) else offset)"

definition rv_vector_check :: "(u32 \<Rightarrow> u32) \<Rightarrow> u32 \<Rightarrow> u32 \<Rightarrow> bool" where
  "rv_vector_check mem mtvec swi_handler =
     (if mtvec AND 3 = 1 then
        let slot = (mtvec AND NOT 3) + OS_ARCH_TRAP_CAUSE_SWI * 4;
            instruction = mem slot
        in if instruction AND 0x7F = 0x6F then slot + jal_offset instruction = swi_handler else True
      else True)"

definition rv_arch_init :: "(u32 \<Rightarrow> u32) \<Rightarrow> u32 \<Rightarrow> hart \<Rightarrow> hart option" where
  "rv_arch_init mem swi_handler h =
     (if rv_vector_check mem (MTVEC h) swi_handler
      then Some (h\<lparr>MCOUNTINHIBIT := MCOUNTINHIBIT h AND NOT OS_ARCH_MCOUNTINHIBIT_CY_MSK,
                   MIE_CSR := MIE_CSR h OR OS_ARCH_MIE_MSIE_MSK\<rparr>)
      else None)"

definition rv_delay_counter_hz_get :: "bool \<Rightarrow> u32 \<Rightarrow> u32 \<Rightarrow> u32" where
  "rv_delay_counter_hz_get multicore reference_hz clock_hz = (if multicore then reference_hz else clock_hz)"

definition rv_delay_counter_get :: "bool \<Rightarrow> 64 word \<Rightarrow> u32 \<Rightarrow> u32" where
  "rv_delay_counter_get multicore reference mcycle = (if multicore then ucast reference else mcycle)"

section \<open>The cycle counter never goes back\<close>

text \<open>
  SysTick as a down-counter of period \<open>P = reload + 1\<close>, \<open>t\<close> cycles after it was started: what it reads, and
  how often it has reached zero, which is when its exception becomes pending.
\<close>

definition systick_reads :: "nat \<Rightarrow> nat \<Rightarrow> u32" where
  "systick_reads reload t = of_nat (reload - t mod (reload + 1))"

definition systick_zeros :: "nat \<Rightarrow> nat \<Rightarrow> nat" where
  "systick_zeros reload t = (t + 1) div (reload + 1)"

text \<open>
  One pass of the sampling loop at the instants \<open>t1\<close>, \<open>t2\<close>, \<open>t3\<close>, within less than a period; \<open>credited\<close> of
  the zeros have been counted by the tick handler, at most one has not.
\<close>

definition sample_at :: "nat \<Rightarrow> nat \<Rightarrow> nat \<times> nat \<times> nat \<Rightarrow> u32 \<times> bool \<times> u32" where
  "sample_at reload credited ts =
     (case ts of (t1, t2, t3) \<Rightarrow>
        (systick_reads reload t1, systick_zeros reload t2 = credited + 1, systick_reads reload t3))"

definition sample_ok :: "nat \<Rightarrow> nat \<Rightarrow> nat \<times> nat \<times> nat \<Rightarrow> bool" where
  "sample_ok reload credited ts \<longleftrightarrow>
     (case ts of (t1, t2, t3) \<Rightarrow>
        t1 \<le> t2 \<and> t2 \<le> t3 \<and> t3 < t1 + (reload + 1) \<and>
        credited \<le> systick_zeros reload t2 \<and> systick_zeros reload t2 \<le> credited + 1)"

lemma same_period:
  fixes P :: nat
  assumes "t1 \<le> t3" "t3 < t1 + P" "t1 mod P \<le> t3 mod P" "0 < P"
  shows "t3 div P = t1 div P"
proof (rule ccontr)
  assume n: "t3 div P \<noteq> t1 div P"
  have "t1 div P \<le> t3 div P" using assms(1) by (rule div_le_mono)
  then have "t1 div P + 1 \<le> t3 div P" using n by simp
  then have "(t1 div P + 1) * P \<le> t3 div P * P" by (rule mult_le_mono1)
  then have "t1 div P * P + P + t3 mod P \<le> t3" using div_mult_mod_eq [of t3 P] unfolding add_mult_distrib by linarith
  then show False using assms(2,3) div_mult_mod_eq [of t1 P] by linarith
qed

lemma systick_sample_in:
  "systick_sample rs = Some (c, p) \<Longrightarrow> \<exists>r. (c, p, r) \<in> set rs \<and> \<not> r > c"
  by (induction rs rule: systick_sample.induct) (auto split: if_splits)

lemma reads_le: "reload < 2 ^ 24 \<Longrightarrow> systick_reads reload t3 \<le> systick_reads reload t1 \<longleftrightarrow>
   t1 mod (reload + 1) \<le> t3 mod (reload + 1)"
proof -
  assume r: "reload < 2 ^ 24"
  have u: "unat (systick_reads reload t) = reload - t mod (reload + 1)" for t
  proof -
    have "reload - t mod (reload + 1) < 2 ^ 32" using r by simp
    then show ?thesis unfolding systick_reads_def by (simp only: unat_of_nat) (simp add: take_bit_nat_eq_self)
  qed
  have m: "t mod (reload + 1) \<le> reload" for t using mod_less_divisor [of "reload + 1" t] by linarith
  show ?thesis unfolding word_le_nat_alt u using m [of t1] m [of t3] by linarith
qed

text \<open>A reading is the time, or one period more when the counter reached zero within the sample.\<close>

lemma reading_value:
  assumes r: "reload < 2 ^ 24" and ok: "sample_ok reload credited (t1, t2, t3)"
    and a: "\<not> systick_reads reload t3 > systick_reads reload t1"
  shows "(of_nat credited + (if systick_zeros reload t2 = credited + 1 then 1 else 0)) * (of_nat reload + 1) +
      (of_nat reload - systick_reads reload t1) = (of_nat t1 :: u32) \<or>
    (of_nat credited + (if systick_zeros reload t2 = credited + 1 then 1 else 0)) * (of_nat reload + 1) +
      (of_nat reload - systick_reads reload t1) = (of_nat (t1 + (reload + 1)) :: u32)"
proof -
  let ?P = "reload + 1"
  have t: "t1 \<le> t2" "t2 \<le> t3" "t3 < t1 + ?P" using ok by (simp_all add: sample_ok_def)
  have le: "t1 mod ?P \<le> t3 mod ?P" using a reads_le [OF r, of t3 t1] by (simp add: not_less)
  have d3: "t3 div ?P = t1 div ?P" by (rule same_period) (use t le in simp_all)
  have "t1 div ?P \<le> t2 div ?P" "t2 div ?P \<le> t3 div ?P" using t by (auto intro: div_le_mono)
  then have d2: "t2 div ?P = t1 div ?P" using d3 by simp
  have z: "systick_zeros reload t2 = t1 div ?P \<or> systick_zeros reload t2 = t1 div ?P + 1"
    using d2 div_Suc [of t2 ?P] by (simp add: systick_zeros_def split: if_splits)
  define k where "k = systick_zeros reload t2"
  have k: "of_nat credited + (if k = credited + 1 then 1 else 0) = (of_nat k :: u32)"
  proof -
    have "k = credited + 1 \<or> k = credited" using ok by (auto simp: sample_ok_def k_def)
    then show ?thesis by auto
  qed
  have m: "t1 mod ?P \<le> reload" using mod_less_divisor [of ?P t1] by linarith
  have c: "of_nat reload - systick_reads reload t1 = (of_nat (t1 mod ?P) :: u32)"
    unfolding systick_reads_def using m by (simp add: of_nat_diff)
  have e: "(of_nat k :: u32) * (of_nat reload + 1) + of_nat (t1 mod ?P) = of_nat (k * ?P + t1 mod ?P)" by (simp add: algebra_simps)
  have "k * ?P + t1 mod ?P = t1 \<or> k * ?P + t1 mod ?P = t1 + ?P"
    using z div_mult_mod_eq [of t1 ?P] by (auto simp: k_def)
  then show ?thesis unfolding k_def [symmetric] k c e by metis
qed

lemma sint_diff_small:
  assumes "- (2 ^ 31) \<le> d" "d < 2 ^ 31"
  shows "sint (word_of_int d :: u32) = d"
  using assms by (simp add: signed_of_int signed_take_bit_int_eq_self)

text \<open>
  Between two readings: the one before handed out \<open>fallback + x\<close> at the time \<open>t\<close>, at most one period
  ahead of it. The next is not before it, and again at most one period ahead of its own time.
\<close>

lemma cycle_reading_step:
  assumes w: "SYST_CSR (stk (win s)) AND OS_ARCH_SYST_CSR_ENABLE_MSK \<noteq> 0"
      "SYST_RVR (stk (win s)) AND OS_ARCH_SYST_RVR_RELOAD_MSK = of_nat reload" "0 < reload" "reload < 2 ^ 24"
      "cycle_periods (win s) = of_nat credited"
    and last: "cycle_last s = cycle_fallback (win s) + of_nat x" "t \<le> x" "x \<le> t + (reload + 1)"
    and ok: "\<And>ts. ts \<in> set samples \<Longrightarrow> sample_ok reload credited ts \<and> t \<le> fst ts \<and> fst ts < t + 2 ^ 30"
    and g: "os_arch_cycle_systick_get (map (sample_at reload credited) samples) s = Some (v, s')"
  shows "\<exists>y t1. v = cycle_fallback (win s) + of_nat y \<and> cycle_last s' = v \<and> win s' = win s \<and> x \<le> y \<and>
    t1 \<in> fst ` set samples \<and> t1 \<le> y \<and> y \<le> t1 + (reload + 1)"
proof -
  let ?P = "reload + 1" and ?r = "of_nat reload :: u32"
  have rb: "unat ?r = reload" using w(4) by (simp only: unat_of_nat) (simp add: take_bit_nat_eq_self)
  then have r0: "?r \<noteq> 0" using w(3) by auto
  obtain c p where sm: "systick_sample (map (sample_at reload credited) samples) = Some (c, p)"
    and v: "v = (let value = cycle_fallback (win s) + (of_nat credited + (if p then 1 else 0)) * (?r + 1) + (?r - c);
                     step = value - cycle_last s
                 in if sint step < 0 \<and> sint step > - sint (2 * (?r + 1)) then cycle_last s else value)"
    and s': "s' = s\<lparr>cycle_last := v\<rparr>"
    using g w r0 by (auto simp: os_arch_cycle_systick_get_def Let_def split: option.splits)
  obtain ts where ts: "ts \<in> set samples" "fst (sample_at reload credited ts) = c" "fst (snd (sample_at reload credited ts)) = p"
    "\<not> snd (snd (sample_at reload credited ts)) > c"
  proof -
    obtain r where r: "(c, p, r) \<in> set (map (sample_at reload credited) samples)" "\<not> r > c"
      using systick_sample_in [OF sm] by blast
    then obtain ts where "ts \<in> set samples" "sample_at reload credited ts = (c, p, r)" by auto
    then show thesis using r(2) that by (metis fst_conv snd_conv)
  qed
  obtain t1 t2 t3 where e: "ts = (t1, t2, t3)" by (cases ts)
  have b: "sample_ok reload credited (t1, t2, t3)" "t \<le> t1" "t1 < t + 2 ^ 30" using ok [OF ts(1)] e by auto
  have cp: "c = systick_reads reload t1" "p = (systick_zeros reload t2 = credited + 1)"
    "\<not> systick_reads reload t3 > systick_reads reload t1"
    using ts(2-4) e by (auto simp: sample_at_def)
  obtain V where V: "V = t1 \<or> V = t1 + ?P"
    "(of_nat credited + (if p then 1 else 0)) * (?r + 1) + (?r - c) = (of_nat V :: u32)"
    using reading_value [OF w(4) b(1) cp(3)] unfolding cp(1,2) by blast
  have st: "cycle_fallback (win s) + (of_nat credited + (if p then 1 else 0)) * (?r + 1) + (?r - c) - cycle_last s =
      word_of_int (int V - int x)"
    unfolding last(1) add.assoc V(2) by simp
  have small: "- (2 ^ 31) \<le> int V - int x" "int V - int x < 2 ^ 31" "- int (2 * ?P) < int V - int x"
    using V(1) last(2,3) b(2,3) w(3,4) by auto
  note si = sint_diff_small [OF small(1,2)]
  have "sint (2 * (?r + 1)) = int (2 * ?P)"
  proof -
    have "2 * (?r + 1) = word_of_int (int (2 * ?P))" by simp
    then show ?thesis using w(4) by (simp only:) (rule sint_diff_small, simp_all)
  qed
  then have v': "v = (if V < x then cycle_last s else cycle_fallback (win s) + of_nat V)"
    using v small(3) unfolding Let_def st si by (simp add: add.assoc V(2))
  define y where "y = (if V < x then x else V)"
  have "v = cycle_fallback (win s) + of_nat y" using v' last(1) by (simp add: y_def)
  moreover have "x \<le> y" "t1 \<le> y" "y \<le> t1 + ?P" using V(1) last(3) b(2) by (auto simp: y_def)
  moreover have "t1 \<in> fst ` set samples" using ts(1) e by force
  moreover have "cycle_last s' = v" "win s' = win s" by (simp_all add: s')
  ultimately show ?thesis by blast
qed

section \<open>The vector table of RISC-V\<close>

text \<open>The instruction \<^verbatim>\<open>jal rd, offset\<close>, as the architecture encodes it.\<close>

definition jal_encode :: "u32 \<Rightarrow> u32 \<Rightarrow> u32" where
  "jal_encode rd offset =
     push_bit 31 (drop_bit 20 offset AND 0x1) OR push_bit 21 (drop_bit 1 offset AND 0x3FF)
     OR push_bit 20 (drop_bit 11 offset AND 0x1) OR push_bit 12 (drop_bit 12 offset AND 0xFF)
     OR push_bit 7 (rd AND 0x1F) OR 0x6F"

text \<open>An offset that a \<^verbatim>\<open>jal\<close> can reach: even, and 21 bits with their sign.\<close>

definition jal_reaches :: "u32 \<Rightarrow> bool" where
  "jal_reaches offset \<longleftrightarrow> \<not> bit offset 0 \<and> signed_take_bit 20 offset = offset"

lemma mask_numerals: "(0x1F :: u32) = mask 5" "(0x3FF :: u32) = mask 10" "(0xFF :: u32) = mask 8" "(0x7F :: u32) = mask 7"
    "(1 :: u32) = mask 1" "(2 ^ 21 - 1 :: u32) = mask 21"
  by (simp_all add: mask_eq_exp_minus_1)

lemma bit_6F: "bit (0x6F :: u32) n \<longleftrightarrow> n \<in> {0, 1, 2, 3, 5, 6}"
proof -
  have e: "(0x6F :: u32) = mask 4 OR push_bit 5 (mask 2)" by (simp add: mask_eq_exp_minus_1)
  show ?thesis unfolding e by (auto simp: bit_or_iff bit_push_bit_iff bit_mask_iff)
qed

text \<open>Bit by bit: the 32 positions of a word.\<close>

lemma below_32: "n < 32 \<Longrightarrow> n \<in> set [0, 1, 2, 3, 4, 5, 6, 7, 8, 9, 10, 11, 12, 13, 14, 15, 16, 17, 18, 19, 20, 21, 22, 23,
    24, 25, 26, 27, 28, 29, 30, 31 :: nat]"
  by (simp add: less_Suc_eq numeral_eq_Suc)

lemmas field_bits = bit_or_iff bit_and_iff bit_push_bit_iff bit_drop_bit_eq bit_mask_iff bit_not_iff

lemma jal_encode_bits:
  "n < 32 \<Longrightarrow> bit (jal_encode rd offset) n \<longleftrightarrow>
     n = 31 \<and> bit offset 20 \<or> 21 \<le> n \<and> n < 31 \<and> bit offset (n - 20) \<or> n = 20 \<and> bit offset 11 \<or>
     12 \<le> n \<and> n < 20 \<and> bit offset n \<or> 7 \<le> n \<and> n < 12 \<and> bit rd (n - 7) \<or> n \<in> {0, 1, 2, 3, 5, 6}"
  unfolding jal_encode_def mask_numerals(1-3,5) field_bits bit_6F
  by (drule below_32, simp only: list.set insert_iff empty_iff, elim disjE, simp_all add: numeral_2_eq_2 [symmetric])

definition jal_fields :: "u32 \<Rightarrow> u32" where
  "jal_fields instruction = push_bit 1 (drop_bit 21 instruction AND 0x3FF)
                OR push_bit 11 (drop_bit 20 instruction AND 0x1)
                OR push_bit 12 (drop_bit 12 instruction AND 0xFF)
                OR push_bit 20 (drop_bit 31 instruction AND 0x1)"

lemma jal_fields_bits:
  "n < 32 \<Longrightarrow> bit (jal_fields i) n \<longleftrightarrow>
     1 \<le> n \<and> n < 11 \<and> bit i (n + 20) \<or> n = 11 \<and> bit i 20 \<or> 12 \<le> n \<and> n < 20 \<and> bit i n \<or> n = 20 \<and> bit i 31"
  unfolding jal_fields_def mask_numerals(1-3,5) field_bits
  by (drule below_32, simp only: list.set insert_iff empty_iff, elim disjE, simp_all)

lemma jal_offset_bits:
  assumes "n < 32"
  shows "bit (jal_offset i) n \<longleftrightarrow> (if n < 20 then bit (jal_fields i) n else bit i 31)"
proof -
  have s: "jal_fields i AND 2 ^ 20 \<noteq> 0 \<longleftrightarrow> bit i 31"
  proof -
    have "jal_fields i AND 2 ^ 20 \<noteq> 0 \<longleftrightarrow> bit (jal_fields i) 20"
      by (simp add: bit_iff_and_push_bit_not_eq_0 push_bit_eq_mult)
    then show ?thesis by (simp add: jal_fields_bits)
  qed
  have "jal_offset i = (if bit i 31 then jal_fields i OR NOT (mask 21) else jal_fields i)"
    unfolding jal_offset_def Let_def jal_fields_def [symmetric] s mask_numerals(6) ..
  then show ?thesis using assms jal_fields_bits [OF assms, of i] by (auto simp: field_bits)
qed

lemma jal_round_trip:
  assumes "jal_reaches offset"
  shows "jal_offset (jal_encode rd offset) = offset"
proof (rule bit_word_eqI)
  fix n assume "n < LENGTH(32)"
  then have n: "n < 32" by simp
  have z: "\<not> bit offset 0" and e: "signed_take_bit 20 offset = offset" using assms by (simp_all add: jal_reaches_def)
  have "bit (signed_take_bit 20 offset) n = bit offset (min n 20)" using n by (simp add: bit_signed_take_bit_iff min.commute)
  then have h: "bit offset n = bit offset (min n 20)" using e by simp
  show "bit (jal_offset (jal_encode rd offset)) n = bit offset n"
    unfolding jal_offset_bits [OF n] jal_fields_bits [OF n] h using n z
    by (cases "n = 0"; cases "n = 11") (auto simp: jal_encode_bits)
qed

lemma jal_encode_opcode: "jal_encode rd offset AND 0x7F = 0x6F"
proof (rule bit_word_eqI)
  fix n assume "n < LENGTH(32)"
  then have n: "n < 32" by simp
  show "bit (jal_encode rd offset AND 0x7F) n = bit (0x6F :: u32) n"
    unfolding mask_numerals(4) bit_and_iff bit_mask_iff bit_6F jal_encode_bits [OF n] by auto
qed

text \<open>The check accepts a \<^verbatim>\<open>jal\<close> in the software interrupt's slot exactly when it jumps to the kernel's handler.\<close>

lemma vector_check_jal:
  assumes "jal_reaches offset" "mem (table + 12) = jal_encode rd offset" "table AND 3 = 0"
  shows "rv_vector_check mem (table OR 1) swi_handler \<longleftrightarrow> table + 12 + offset = swi_handler"
proof -
  have b: "\<not> bit table 0" "\<not> bit table 1"
  proof -
    have m: "(3 :: u32) = mask 2" by (simp add: mask_eq_exp_minus_1)
    have "\<not> bit (table AND 3) 0" "\<not> bit (table AND 3) 1" by (simp_all add: assms(3))
    then show "\<not> bit table 0" "\<not> bit table 1" unfolding m by (simp_all add: field_bits)
  qed
  have v: "(table OR 1) AND 3 = 1" "(table OR 1) AND NOT 3 = table"
  proof -
    have m: "(3 :: u32) = mask 2" "(1 :: u32) = mask 1" by (simp_all add: mask_eq_exp_minus_1)
    have two: "n < 2 \<Longrightarrow> n = 0 \<or> n = 1" for n :: nat by linarith
    show "(table OR 1) AND 3 = 1" unfolding m
      by (rule bit_word_eqI) (use b two in \<open>auto simp: field_bits bit_1_iff\<close>)
    show "(table OR 1) AND NOT 3 = table" unfolding m
      by (rule bit_word_eqI) (use b two in \<open>auto simp: field_bits bit_1_iff\<close>)
  qed
  show ?thesis
    unfolding rv_vector_check_def v Let_def OS_ARCH_TRAP_CAUSE_SWI_def
    using jal_round_trip [OF assms(1)] assms(2) by (simp add: jal_encode_opcode)
qed

section \<open>Masks, nesting and the tick\<close>

lemma rv_mask_round_trip:
  assumes "rv_mask_save h = (saved, h')"
  shows "rv_mask_restore saved h' = h" "rv_mask_active h' = 1" "saved = rv_mask_active h"
proof -
  have b: "MSTATUS h AND OS_ARCH_MSTATUS_MIE_MSK \<noteq> 0 \<longleftrightarrow> bit (MSTATUS h) 3"
    unfolding OS_ARCH_MSTATUS_MIE_MSK_def by (simp add: bit_iff_and_push_bit_not_eq_0 push_bit_eq_mult)
  have m: "OS_ARCH_MSTATUS_MIE_MSK = push_bit 3 (mask 1)" by (simp add: OS_ARCH_MSTATUS_MIE_MSK_def)
  have three: "3 \<le> n \<and> n - 3 < 1 \<longleftrightarrow> n = 3" for n :: nat by linarith
  have r: "(MSTATUS h AND NOT OS_ARCH_MSTATUS_MIE_MSK) OR OS_ARCH_MSTATUS_MIE_MSK = MSTATUS h" if "bit (MSTATUS h) 3"
    unfolding m by (rule bit_word_eqI, unfold field_bits) (use that in \<open>auto simp: three\<close>)
  have n: "MSTATUS h AND NOT OS_ARCH_MSTATUS_MIE_MSK = MSTATUS h" if "\<not> bit (MSTATUS h) 3"
    unfolding m by (rule bit_word_eqI, unfold field_bits) (use that in \<open>auto simp: three\<close>)
  show "rv_mask_restore saved h' = h" using assms b r n
    by (auto simp: rv_mask_save_def rv_mask_restore_def)
  show "rv_mask_active h' = 1" using assms
    by (auto simp: rv_mask_save_def rv_mask_active_def and.assoc bit.conj_cancel_left)
  show "saved = rv_mask_active h" using assms by (auto simp: rv_mask_save_def rv_mask_active_def)
qed

lemma isr_nesting_exact:
  "os_arch_isr_exit (os_arch_isr_enter h) = h"
  "os_arch_isr_nesting h + 1 \<noteq> 0 \<Longrightarrow> rv_in_isr xh3irq (os_arch_isr_enter h)"
  by (simp_all add: os_arch_isr_exit_def os_arch_isr_enter_def rv_in_isr_def)

text \<open>
  A clock the 24-bit counter can divide starts SysTick with the whole number of cycles nearest below a
  tick, in the state that the windows of \<open>Window\<close> assume.
\<close>

lemma v8m_tick_init_runs:
  assumes "tick_hz \<noteq> 0" "clock_hz div tick_hz \<noteq> 0" "clock_hz div tick_hz \<le> OS_ARCH_SYST_RVR_RELOAD_MSK + 1"
  shows "tick_running (v8m_tick_init clock_hz tick_hz w)"
    "SYST_CSR (stk (v8m_tick_init clock_hz tick_hz w)) = SYST_CSR_RUN"
    "SYST_RVR (stk (v8m_tick_init clock_hz tick_hz w)) + 1 = tick_reload_cycles (v8m_tick_init clock_hz tick_hz w)"
    "unat (tick_reload_cycles (v8m_tick_init clock_hz tick_hz w)) = unat clock_hz div unat tick_hz"
proof -
  have c: "clock_hz \<noteq> 0" using assms(2) by auto
  have "0 < unat (clock_hz div tick_hz)" using assms(2) by (simp add: unat_gt_0)
  then show "tick_running (v8m_tick_init clock_hz tick_hz w)"
    "SYST_CSR (stk (v8m_tick_init clock_hz tick_hz w)) = SYST_CSR_RUN"
    "SYST_RVR (stk (v8m_tick_init clock_hz tick_hz w)) + 1 = tick_reload_cycles (v8m_tick_init clock_hz tick_hz w)"
    "unat (tick_reload_cycles (v8m_tick_init clock_hz tick_hz w)) = unat clock_hz div unat tick_hz"
    using assms c by (simp_all add: v8m_tick_init_def Let_def systick_start_def tick_running_def unat_div)
qed

text \<open>Any other clock leaves the timer stopped as it was.\<close>

lemma v8m_tick_init_refuses:
  "clock_hz = 0 \<or> tick_hz = 0 \<or> clock_hz div tick_hz = 0 \<or> clock_hz div tick_hz > OS_ARCH_SYST_RVR_RELOAD_MSK + 1 \<Longrightarrow>
   v8m_tick_init clock_hz tick_hz w = w"
  by (auto simp: v8m_tick_init_def Let_def)

section \<open>The DWT counter is believed only when it moves\<close>

lemma dwt_moves_iff: "dwt_moves sample first left k \<longleftrightarrow> (\<exists>i. k \<le> i \<and> i < k + left \<and> sample i \<noteq> first)"
proof (induction left arbitrary: k)
  case (Suc left)
  have "(\<exists>i. k \<le> i \<and> i < k + Suc left \<and> sample i \<noteq> first) \<longleftrightarrow>
      sample k \<noteq> first \<or> (\<exists>i. Suc k \<le> i \<and> i < Suc k + left \<and> sample i \<noteq> first)"
  proof -
    have r: "k \<le> i \<and> i < k + Suc left \<longleftrightarrow> i = k \<or> Suc k \<le> i \<and> i < Suc k + left" for i by linarith
    show ?thesis unfolding conj_assoc [symmetric] r by blast
  qed
  then show ?case using Suc.IH [of "Suc k"] by simp
qed simp

text \<open>
  The routine answers that the counter works only on a core that has one, whose enable bit reads back
  set, and whose value was seen to change within 64 readings. A start that passes leaves PendSV at the lowest
  priority and the answer in the variable that every later reading goes by.
\<close>

lemma dwt_enable_exact:
  "fst (os_arch_dwt_enable hw s) \<longleftrightarrow>
     DWT_CTRL s AND OS_ARCH_DWT_CTRL_NOCYCCNT_MSK = 0 \<and>
     dwt_readback hw (DWT_CTRL s OR OS_ARCH_DWT_CTRL_CYCCNTENA_MSK) AND OS_ARCH_DWT_CTRL_CYCCNTENA_MSK \<noteq> 0 \<and>
     (\<exists>i. 1 \<le> i \<and> i \<le> 64 \<and> dwt_samples hw i \<noteq> dwt_samples hw 0)"
  by (auto simp: os_arch_dwt_enable_def Let_def dwt_moves_iff)

lemma dwt_enable_frame: "snd (os_arch_dwt_enable hw s) = s\<lparr>DWT_CYCCNT := DWT_CYCCNT (snd (os_arch_dwt_enable hw s)),
    DWT_CTRL := DWT_CTRL (snd (os_arch_dwt_enable hw s))\<rparr>"
  by (simp add: os_arch_dwt_enable_def Let_def)

lemma v7m_init_accepts:
  assumes "v7m_arch_init hw systick_tick pendsv_handler s = Some s'"
  shows "os_arch_vector_check hw (VTOR s) pendsv_handler" "ceiling_check hw (irq_ceil (win s))"
    "SHPR3 s' = SHPR3 (priorities_init systick_tick s)" "PSP s' = 0" "cycle_last s' = 0"
    "dwt_available (win s') \<longleftrightarrow> (\<exists>t. fst (os_arch_dwt_enable hw t) \<and> DWT_CTRL t = DWT_CTRL s)"
proof -
  let ?s1 = "priorities_init systick_tick s"
  let ?s2 = "if irq_ceil (win ?s1) \<noteq> 0 then ?s1\<lparr>win := (win ?s1)\<lparr>irq := (irq (win ?s1))\<lparr>BASEPRI := 0\<rparr>\<rparr>\<rparr> else ?s1"
  let ?t = "?s2\<lparr>DEMCR := DEMCR ?s2 OR OS_ARCH_DEMCR_TRCENA_MSK\<rparr>"
  have f: "win ?s1 = win s" "DWT_CTRL ?s1 = DWT_CTRL s" "PSP ?s1 = 0" by (simp_all add: priorities_init_def Let_def)
  have t: "SHPR3 ?t = SHPR3 ?s1" "DWT_CTRL ?t = DWT_CTRL s" "PSP ?t = 0" by (simp_all add: f)
  obtain av s3 where d: "os_arch_dwt_enable hw ?t = (av, s3)" by (cases "os_arch_dwt_enable hw ?t")
  have s3: "SHPR3 s3 = SHPR3 ?t" "PSP s3 = PSP ?t"
  proof -
    have "s3 = snd (os_arch_dwt_enable hw ?t)" using d by simp
    then show "SHPR3 s3 = SHPR3 ?t" "PSP s3 = PSP ?t"
      using arg_cong [OF dwt_enable_frame [of hw ?t], of SHPR3] arg_cong [OF dwt_enable_frame [of hw ?t], of PSP] by simp_all
  qed
  have c: "os_arch_vector_check hw (VTOR s) pendsv_handler \<and> ceiling_check hw (irq_ceil (win s)) \<and>
      s' = os_arch_cycle_systick_reset (s3\<lparr>win := (win s3)\<lparr>dwt_available := av\<rparr>\<rparr>)"
    using assms d f by (auto simp: v7m_arch_init_def arch_init_checked_def Let_def split: if_splits)
  then show "os_arch_vector_check hw (VTOR s) pendsv_handler" "ceiling_check hw (irq_ceil (win s))" by simp_all
  show "SHPR3 s' = SHPR3 (priorities_init systick_tick s)" "PSP s' = 0" "cycle_last s' = 0"
    using c s3 t by (simp_all add: os_arch_cycle_systick_reset_def)
  have "dwt_available (win s') \<longleftrightarrow> fst (os_arch_dwt_enable hw ?t)"
    using c d by (simp add: os_arch_cycle_systick_reset_def)
  then show "dwt_available (win s') \<longleftrightarrow> (\<exists>t. fst (os_arch_dwt_enable hw t) \<and> DWT_CTRL t = DWT_CTRL s)"
    using t(2) by (metis dwt_enable_exact)
qed

end
