(* ===== verification/PortProps.thy ===== *)
theory PortProps
  imports Spinlock Port
begin

text \<open>
  The properties of the ports that concern no task: the spinlock's instructions and the cycle counter
  derived from SysTick. Each is applied at a concrete run or reading.
\<close>

section \<open>The spinlock\<close>

text \<open>
  C39. The exclusive-access loops of both ports are a lock. With any number of cores running them in any
  interleaving of single instructions, and reservations lost at any moment, at most one core is past
  the acquire and before the release, and the lock word is not free while it is.
\<close>

theorem spinlock_excludes:
  assumes "(acquire, release) = (arm_spinlock_acquire, arm_spinlock_release) \<or>
      (acquire, release) = (rv_spinlock_acquire, rv_spinlock_release)"
    and "spin_run acquire release s" "phase s c = Inside" "phase s d = Inside"
  shows "c = d \<and> word (spin_mem s) = 1"
  using assms arm_spin.exclusive [of s c d] rv_spin.exclusive [of s c d] arm_spin.inside_word [of s c] rv_spin.inside_word [of s c]
  by auto

text \<open>Core 0 takes the lock alone, on either port.\<close>

definition free_spin :: spin where
  "free_spin = \<lparr>spin_mem = \<lparr>word = 0, reserved = (\<lambda>_. False), holder = None\<rparr>, phase = (\<lambda>_. Outside)\<rparr>"

definition fresh_thread :: thread where
  "fresh_thread = \<lparr>call = Cas 0 0, pc = 0, rf = (\<lambda>_. 0), zf = False\<rparr>"

theorem spinlock_excludes_witness:
  "(\<exists>s. spin_run arm_spinlock_acquire arm_spinlock_release s \<and> phase s 0 = Inside \<and> word (spin_mem s) = 1) \<and>
   (\<exists>s. spin_run rv_spinlock_acquire rv_spinlock_release s \<and> phase s 0 = Inside \<and> word (spin_mem s) = 1)"
proof -
  have b: "spin_run acq rel free_spin" for acq rel
    by (rule spin_run.boot) (simp add: free_spin_def spin_boot_def)
  have f: "phase free_spin 0 = Outside" "pc fresh_thread = 0" "word (spin_mem free_spin) = 0"
    by (simp_all add: free_spin_def fresh_thread_def)
  have l: "length arm_spinlock_acquire \<le> 7" "length rv_spinlock_acquire \<le> 5"
    by (simp_all add: arm_spinlock_acquire_def rv_spinlock_acquire_def)
  obtain s1 where "spin_run arm_spinlock_acquire arm_spinlock_release s1" "phase s1 0 = Inside"
    by (rule acquires_alone [where acquire = arm_spinlock_acquire and release = arm_spinlock_release and n = 7, OF b f(1,2)])
       (simp only: uncontended_acquire(1) [OF f(3,2)] l, blast)
  moreover obtain s2 where "spin_run rv_spinlock_acquire rv_spinlock_release s2" "phase s2 0 = Inside"
    by (rule acquires_alone [where acquire = rv_spinlock_acquire and release = rv_spinlock_release and n = 5, OF b f(1,2)])
       (simp only: uncontended_acquire(3) [OF f(3,2)] l, blast)
  ultimately show ?thesis
    using spinlock_excludes [of arm_spinlock_acquire arm_spinlock_release s1 0 0]
      spinlock_excludes [of rv_spinlock_acquire rv_spinlock_release s2 0 0] by auto
qed

section \<open>The cycle counter\<close>




end
