(* ===== verification/TaskLife.thy ===== *)
theory TaskLife
  imports TaskApi
begin

text \<open>
  The ends of a task's life and of a wait that no other theory needs (\<^verbatim>\<open>os_task.c\<close>): a task that returns from
  its entry function, the wake by control block, and the wake of every waiter of a list.
\<close>

section \<open>Waking\<close>

definition os_task_wake_tcb :: "tref option \<Rightarrow> kstate \<Rightarrow> kstate" where
  "os_task_wake_tcb tcb_handle s = os_task_wake_locked tcb_handle s"

text \<open>A loop over a list that each round takes a waiter out of. \<open>None\<close> would be a loop without end.\<close>

partial_function (option) os_task_waiters_wake_all :: "wref \<Rightarrow> kstate \<Rightarrow> kstate option" where
  "os_task_waiters_wake_all w s =
     (case os_task_waiters_wake_one w s of
        (woken, s') \<Rightarrow> if woken then os_task_waiters_wake_all w s' else Some s')"

text \<open>It ends, with the list empty, the waiters READY, and every other task in the state it was in.\<close>

lemma wake_all_returns:
  assumes "kwf {} s"
  shows "\<exists>s'. os_task_waiters_wake_all w s = Some s' \<and> kwf {} s' \<and> same_env s s' \<and> wlist s' w = [] \<and>
    (\<forall>t. task_state (tcb_of s' t) = (if t \<in> set (wlist s w) then OS_TASK_STATE_READY else task_state (tcb_of s t)))"
  using assms
proof (induction "card (set (wlist s w))" arbitrary: s rule: less_induct)
  case less
  show ?case
  proof (cases "wlist s w")
    case Nil
    then show ?thesis using less.prems
      by (subst os_task_waiters_wake_all.simps) (simp add: os_task_waiters_wake_one_def)
  next
    case (Cons t ts)
    let ?f = "\<lambda>x. x\<lparr>woken_from := Some w\<rparr>"
    let ?s1 = "signal_and_ready t ?f s"
    have t: "is_slot t" using waiter_is_slot [OF less.prems, of t w] Cons by simp
    note e = signal_and_ready_effect [OF less.prems t, of ?f]
    have k: "kwf {} ?s1" by (rule signal_and_ready_kwf [OF less.prems t]) simp
    have l: "set (wlist ?s1 w) = set (wlist s w) - {t}" by (rule e(5)) simp
    have "card (set (wlist ?s1 w)) < card (set (wlist s w))"
      unfolding l using Cons by (intro psubset_card_mono) auto
    from less.hyps [OF this k] obtain s' where s': "os_task_waiters_wake_all w ?s1 = Some s'" "kwf {} s'"
      "same_env ?s1 s'" "wlist s' w = []"
      "\<forall>x. task_state (tcb_of s' x) = (if x \<in> set (wlist ?s1 w) then OS_TASK_STATE_READY else task_state (tcb_of ?s1 x))"
      by blast
    have st: "task_state (tcb_of ?s1 x) = (if x = t then OS_TASK_STATE_READY else task_state (tcb_of s x))" for x
      by (rule e(3)) simp
    have "same_env s s'" by (rule same_env_trans [OF e(1) s'(3)]) simp
    moreover have "os_task_waiters_wake_all w s = Some s'"
      using s'(1) Cons by (subst os_task_waiters_wake_all.simps) (simp add: os_task_waiters_wake_one_def)
    moreover have "\<forall>x. task_state (tcb_of s' x) =
        (if x \<in> set (wlist s w) then OS_TASK_STATE_READY else task_state (tcb_of s x))"
      using s'(5) l st Cons by auto
    ultimately show ?thesis using s'(2,4) by blast
  qed
qed

section \<open>Returning from a task\<close>

text \<open>The state in which the routine starts to idle for good, with what the deletion answered.\<close>

definition os_task_exit :: "kstate \<Rightarrow> os_err_t \<times> kstate" where
  "os_task_exit s = (case os_task_delete None s of (status, _, s') \<Rightarrow> (status, s'))"

lemma exit_kwf: "kwf {} s \<Longrightarrow> kwf {} (snd (os_task_exit s))"
  using os_task_delete_kwf [of s None] by (simp add: os_task_exit_def split_beta)

text \<open>
  An application task that returns gives up its slot and its core. With the scheduler still locked
  the deletion is refused, and the routine idles on the task's stack: nothing else ever runs on that core.
\<close>

lemma exit_answers:
  assumes "\<not> in_isr s" "current s (this_core s) = Some t" "t \<noteq> Idle (this_core s)" "\<not> system_task (tcb_of s t)"
    and "os_task_find_by_id (task_id (tcb_of s t)) s = Some t"
  shows "fst (os_task_exit s) = (if lock_count s (this_core s) = 0 then OS_ERR_NONE else OS_ERR_BUSY)"
    "lock_count s (this_core s) \<noteq> 0 \<Longrightarrow> snd (os_task_exit s) = s"
  using assms by (simp_all add: os_task_exit_def os_task_delete_def os_task_delete_resolve_def os_task_self_tcb_def Let_def)

lemma exit_frees:
  assumes k: "kwf {} s" and ok: "fst (os_task_exit s) = OS_ERR_NONE"
    and c: "current s (this_core s) = Some t" and f: "os_task_find_by_id (task_id (tcb_of s t)) s = Some t"
  shows "current (snd (os_task_exit s)) (this_core s) = None"
    "task_state (tcb_of (snd (os_task_exit s)) t) = OS_TASK_STATE_INACTIVE"
proof -
  have ok': "fst (os_task_delete None s) = OS_ERR_NONE" using ok by (simp add: os_task_exit_def split_beta)
  obtain u where u: "os_task_delete_resolve None (this_core s) s = Inr (u, current s (this_core s) = Some u)"
    and ni: "\<not> in_isr s" and e: "snd (snd (os_task_delete None s)) =
       (let s3 = os_task_tcb_clear u (os_task_unlink u (os_task_wake_compensate u s)) in
        if current s (this_core s) = Some u then
          let s' = s3\<lparr>current := (current s3)(this_core s3 := None)\<rparr>
          in if kernel_running s' then os_task_switch_request s' else s'
        else s3)"
    by (rule os_task_delete_eq [OF ok'])
  have ut: "u = t" using u ni c f
    by (auto simp: os_task_delete_resolve_def os_task_self_tcb_def Let_def split: if_splits)
  have sl: "is_slot t" using find_by_id_SomeD(1) [OF f] .
  have cur: "this_core (os_task_unlink t (os_task_wake_compensate t s)) = this_core s"
    using same_envD [OF unlink_compensate_kwf(3) [OF k sl]] by simp
  show "current (snd (os_task_exit s)) (this_core s) = None"
    "task_state (tcb_of (snd (os_task_exit s)) t) = OS_TASK_STATE_INACTIVE"
    using e c cur by (simp_all add: ut os_task_exit_def split_beta Let_def OS_TASK_TCB_EMPTY_def)
qed

end
