(* ===== verification/Board.thy ===== *)
theory Board
  imports Prelude
begin

text \<open>
  What the Raspberry Pi packages do besides timing: the hard-fault report of
  \<^verbatim>\<open>soc/raspberrypi/common/soc_common.c\<close>, the stacks of its cores, and the interrupts by which one core asks
  another for a context switch (\<^verbatim>\<open>rp2040/soc_cb.c\<close>, \<^verbatim>\<open>rp235x_arm/soc_cb.c\<close>, \<^verbatim>\<open>rp235x_riscv/soc_cb.c\<close>).
  The vendor's memory map and the depth of its mailbox are arguments.
\<close>

section \<open>The hard-fault report\<close>

record soc_fault_t =
  taken :: u32
  core :: u32
  pc :: u32
  lr :: u32
  psr :: u32
  cfsr :: u32
  hfsr :: u32
  sp :: u32
  psp :: u32
  msp :: u32
  stack :: "u32 list"

text \<open>The board: \<open>SRAM_BASE\<close> and \<open>SRAM_END\<close>, and whether the core has fault status registers.\<close>

record board =
  SRAM_BASE :: u32
  SRAM_END :: u32
  OS_ARCH_HAS_FAULT_STATUS :: bool

text \<open>The registers as the handler finds them.\<close>

record fault_regs =
  core_num :: u32
  PSP :: u32
  MSP :: u32
  CFSR :: u32
  HFSR :: u32

text \<open>Which stack holds the frame: bit 2 of the exception-return word.\<close>

definition isr_hardfault :: "u32 \<Rightarrow> fault_regs \<Rightarrow> u32" where
  "isr_hardfault exc_return r = (if exc_return AND 4 \<noteq> 0 then PSP r else MSP r)"

text \<open>\<open>mem a\<close> is the word at \<open>a\<close>; \<open>None\<close> is a bus fault, within the handler a lock-up.\<close>

definition frame_word :: "(u32 \<Rightarrow> u32 option) \<Rightarrow> u32 \<Rightarrow> nat \<Rightarrow> u32 option" where
  "frame_word mem frame k = mem (frame + 4 * of_nat k)"

definition fault_capture :: "board \<Rightarrow> (u32 \<Rightarrow> u32 option) \<Rightarrow> fault_regs \<Rightarrow> u32 \<Rightarrow> soc_fault_t \<Rightarrow> soc_fault_t option" where
  "fault_capture b mem r frame f =
     (let f1 = f\<lparr>core := core_num r, sp := frame, psp := PSP r, msp := MSP r\<rparr>;
          f2 = (if OS_ARCH_HAS_FAULT_STATUS b then f1\<lparr>cfsr := CFSR r, hfsr := HFSR r\<rparr> else f1);
          f3 = f2\<lparr>taken := 1\<rparr>
      in if frame \<ge> SRAM_BASE b \<and> frame \<le> SRAM_END b - 32 \<and> frame AND 3 = 0 then
           (case (frame_word mem frame 6, frame_word mem frame 5, frame_word mem frame 7) of
              (Some w6, Some w5, Some w7) \<Rightarrow>
                let f4 = f3\<lparr>pc := w6, lr := w5, psr := w7, taken := 2\<rparr>
                in if frame \<le> SRAM_END b - 64 then
                     (case those (map (\<lambda>i. frame_word mem frame (8 + i)) [0..<8]) of
                        Some words \<Rightarrow> Some (f4\<lparr>stack := words\<rparr>)
                      | None \<Rightarrow> None)
                   else Some f4
            | _ \<Rightarrow> None)
         else Some f3)"

section \<open>Its text\<close>

definition hex_chars :: string where "hex_chars = ''0123456789ABCDEF''"

text \<open>The digits are filled in from the last.\<close>

fun hex_loop :: "nat \<Rightarrow> string \<Rightarrow> u32 \<Rightarrow> string" where
  "hex_loop 0 acc v = acc"
| "hex_loop (Suc left) acc v = hex_loop left (hex_chars ! unat (v AND 0xF) # acc) (drop_bit 4 v)"

definition soc_panic_hex :: "u32 \<Rightarrow> string" where
  "soc_panic_hex v = hex_loop 8 [] v"

definition crlf :: string where "crlf = [CHR 0x0D, CHR 0x0A]"

definition fault_text :: "bool \<Rightarrow> soc_fault_t \<Rightarrow> string" where
  "fault_text armv6m f =
     crlf @ ''*** HARD FAULT on core 0x'' @ soc_panic_hex (core f) @
     (if taken f = 1 then '' *** (frame unreadable - bad stack pointer)'' @ crlf @ ''  pc=0x''
      else '' ***'' @ crlf @ ''  pc=0x'') @
     soc_panic_hex (pc f) @ '' lr=0x'' @ soc_panic_hex (lr f) @ '' psr=0x'' @ soc_panic_hex (psr f) @
     crlf @ ''  sp=0x'' @ soc_panic_hex (sp f) @ '' psp=0x'' @ soc_panic_hex (psp f) @ '' msp=0x'' @ soc_panic_hex (msp f) @
     (if armv6m then crlf @ ''  (no CFSR/HFSR on ARMv6-M)''
      else crlf @ ''  CFSR=0x'' @ soc_panic_hex (cfsr f) @ '' HFSR=0x'' @ soc_panic_hex (hfsr f)) @
     crlf @ ''  stack:'' @ concat (map (\<lambda>w. '' 0x'' @ soc_panic_hex w) (take 8 (stack f))) @ crlf"

text \<open>The record of the fault, and what is printed; the core then stays in an empty loop.\<close>

definition soc_fault_report ::
  "board \<Rightarrow> bool \<Rightarrow> (u32 \<Rightarrow> u32 option) \<Rightarrow> fault_regs \<Rightarrow> u32 \<Rightarrow> soc_fault_t \<Rightarrow> (soc_fault_t \<times> string) option" where
  "soc_fault_report b armv6m mem r frame f =
     (case fault_capture b mem r frame f of
        None \<Rightarrow> None
      | Some f' \<Rightarrow> Some (f', if core_num r = 0 then fault_text armv6m f' else []))"

section \<open>A fault report does not fault\<close>

text \<open>The memory of the board: every aligned word that lies wholly in SRAM can be read.\<close>

definition sram_readable :: "board \<Rightarrow> (u32 \<Rightarrow> u32 option) \<Rightarrow> bool" where
  "sram_readable b mem \<longleftrightarrow> 64 \<le> unat (SRAM_END b) \<and>
     (\<forall>a. SRAM_BASE b \<le> a \<and> unat a + 4 \<le> unat (SRAM_END b) \<and> a AND 3 = 0 \<longrightarrow> mem a \<noteq> None)"

lemma aligned_mod: "(a :: u32) AND 3 = 0 \<longleftrightarrow> unat a mod 4 = 0"
proof -
  have m: "(3 :: u32) = mask 2" by (simp add: mask_eq_exp_minus_1)
  have "unat (a AND 3) = unat a mod 4"
    unfolding m take_bit_eq_mask [symmetric] by (simp only: unsigned_take_bit_eq) (simp add: take_bit_eq_mod)
  then show ?thesis by (metis unat_eq_0)
qed

lemma frame_word_readable:
  assumes m: "sram_readable b mem" and f: "SRAM_BASE b \<le> frame" "frame AND 3 = 0" "unat frame + 4 * k + 4 \<le> unat (SRAM_END b)"
  shows "frame_word mem frame k \<noteq> None"
proof -
  have e: "unat (SRAM_END b) < 4294967296" using unsigned_less [of "SRAM_END b", where 'a = nat] by simp
  then have k: "4 * k < 4294967296" using f(3) by linarith
  have u4: "unat (4 * of_nat k :: u32) = 4 * k"
  proof -
    have "(4 * of_nat k :: u32) = of_nat (4 * k)" by simp
    then show ?thesis using k by (simp only: unat_of_nat) (simp add: take_bit_nat_eq_self)
  qed
  have u: "unat (frame + 4 * of_nat k) = unat frame + 4 * k"
    using f(3) e u4 by (subst unat_add_lt) simp_all
  have "unat (frame + 4 * of_nat k) mod 4 = 0" using f(2) unfolding u aligned_mod by simp
  then have "(frame + 4 * of_nat k) AND 3 = 0" by (simp only: aligned_mod)
  moreover have "SRAM_BASE b \<le> frame + 4 * of_nat k" using f(1) u by (simp add: word_le_nat_alt)
  ultimately show ?thesis using m f(3) u by (simp add: sram_readable_def frame_word_def)
qed

lemma those_all: "\<forall>x \<in> set xs. f x \<noteq> None \<Longrightarrow> \<exists>ys. those (map f xs) = Some ys \<and> length ys = length xs \<and> map Some ys = map f xs"
  by (induction xs) auto

text \<open>
  Whatever the stack pointer: the report reads no word outside SRAM and none that is misaligned. It tells the
  frame's words where there is a frame, and says so where there is none.
\<close>

lemma fault_capture_total:
  assumes m: "sram_readable b mem"
  obtains f' where "fault_capture b mem r frame f = Some f'" "core f' = core_num r" "sp f' = frame"
    "SRAM_BASE b \<le> frame \<and> unat frame + 32 \<le> unat (SRAM_END b) \<and> frame AND 3 = 0 \<longrightarrow>
       taken f' = 2 \<and> Some (pc f') = frame_word mem frame 6 \<and> Some (lr f') = frame_word mem frame 5 \<and>
       Some (psr f') = frame_word mem frame 7"
    "\<not> (SRAM_BASE b \<le> frame \<and> unat frame + 32 \<le> unat (SRAM_END b) \<and> frame AND 3 = 0) \<longrightarrow>
       taken f' = 1 \<and> pc f' = pc f \<and> stack f' = stack f"
    "unat frame + 64 \<le> unat (SRAM_END b) \<and> taken f' = 2 \<longrightarrow>
       map Some (stack f') = map (\<lambda>i. frame_word mem frame (8 + i)) [0..<8]"
proof -
  have e: "64 \<le> unat (SRAM_END b)" using m by (simp add: sram_readable_def)
  have l: "frame \<le> SRAM_END b - 32 \<longleftrightarrow> unat frame + 32 \<le> unat (SRAM_END b)"
    "frame \<le> SRAM_END b - 64 \<longleftrightarrow> unat frame + 64 \<le> unat (SRAM_END b)"
  proof -
    have "unat (SRAM_END b - 32) = unat (SRAM_END b) - 32" "unat (SRAM_END b - 64) = unat (SRAM_END b) - 64"
      using e by (simp_all add: unat_sub word_le_nat_alt)
    then show "frame \<le> SRAM_END b - 32 \<longleftrightarrow> unat frame + 32 \<le> unat (SRAM_END b)"
      "frame \<le> SRAM_END b - 64 \<longleftrightarrow> unat frame + 64 \<le> unat (SRAM_END b)"
      using e by (simp_all add: word_le_nat_alt le_diff_conv2)
  qed
  show thesis
  proof (cases "SRAM_BASE b \<le> frame \<and> unat frame + 32 \<le> unat (SRAM_END b) \<and> frame AND 3 = 0")
    case False
    then show ?thesis
      by (intro that [of "(if OS_ARCH_HAS_FAULT_STATUS b
           then f\<lparr>core := core_num r, sp := frame, psp := PSP r, msp := MSP r, cfsr := CFSR r, hfsr := HFSR r\<rparr>
           else f\<lparr>core := core_num r, sp := frame, psp := PSP r, msp := MSP r\<rparr>)\<lparr>taken := 1\<rparr>"])
         (auto simp: fault_capture_def l Let_def)
  next
    case True
    have w: "unat frame + 4 * k + 4 \<le> unat (SRAM_END b) \<Longrightarrow> \<exists>v. frame_word mem frame k = Some v" for k
      using frame_word_readable [OF m, of frame k] True by blast
    obtain w5 w6 w7 where ws: "frame_word mem frame 5 = Some w5" "frame_word mem frame 6 = Some w6" "frame_word mem frame 7 = Some w7"
      using w [of 5] w [of 6] w [of 7] True by auto
    show ?thesis
    proof (cases "unat frame + 64 \<le> unat (SRAM_END b)")
      case t: True
      have "\<forall>i \<in> set [0..<8]. frame_word mem frame (8 + i) \<noteq> None"
      proof
        fix i :: nat assume "i \<in> set [0..<8]"
        then show "frame_word mem frame (8 + i) \<noteq> None" using w [of "8 + i"] t by auto
      qed
      from those_all [OF this] obtain ys where ys: "those (map (\<lambda>i. frame_word mem frame (8 + i)) [0..<8]) = Some ys"
        "map Some ys = map (\<lambda>i. frame_word mem frame (8 + i)) [0..<8]" by blast
      obtain f' where f': "fault_capture b mem r frame f = Some f'" "stack f' = ys" "core f' = core_num r" "sp f' = frame"
        "taken f' = 2" "pc f' = w6" "lr f' = w5" "psr f' = w7"
        using True ws t ys(1) by (simp add: fault_capture_def l Let_def)
      show ?thesis by (rule that [OF f'(1)]) (use True f' ws ys(2) in simp_all)
    next
      case f: False
      obtain f' where f': "fault_capture b mem r frame f = Some f'" "core f' = core_num r" "sp f' = frame"
        "taken f' = 2" "pc f' = w6" "lr f' = w5" "psr f' = w7"
        using True ws f by (simp add: fault_capture_def l Let_def)
      show ?thesis by (rule that [OF f'(1)]) (use True f f' ws in simp_all)
    qed
  qed
qed

section \<open>The printed numbers can be read back\<close>

definition digit_value :: "char \<Rightarrow> nat" where
  "digit_value c = (let n = of_char c in if n < 58 then n - 48 else n - 55)"

fun hex_value :: "string \<Rightarrow> nat" where
  "hex_value [] = 0"
| "hex_value (c # cs) = digit_value c * 16 ^ length cs + hex_value cs"

lemma digit_round_trip: "n < 16 \<Longrightarrow> digit_value (hex_chars ! n) = n"
proof -
  assume "n < 16"
  then have "n \<in> set [0, 1, 2, 3, 4, 5, 6, 7, 8, 9, 10, 11, 12, 13, 14, 15]" by (simp add: less_Suc_eq numeral_eq_Suc)
  moreover have "list_all (\<lambda>n. digit_value (hex_chars ! n) = n) [0, 1, 2, 3, 4, 5, 6, 7, 8, 9, 10, 11, 12, 13, 14, 15]"
    by code_simp
  ultimately show ?thesis by (auto simp: list_all_iff)
qed

lemma hex_loop_value: "hex_value (hex_loop n acc v) = unat v mod 16 ^ n * 16 ^ length acc + hex_value acc"
proof (induction n arbitrary: acc v)
  case (Suc n)
  have m: "(0xF :: u32) = mask 4" by (simp add: mask_eq_exp_minus_1)
  have d: "unat (v AND 0xF) = unat v mod 16"
    unfolding m take_bit_eq_mask [symmetric] by (simp only: unsigned_take_bit_eq) (simp add: take_bit_eq_mod)
  have s: "unat (drop_bit 4 v) = unat v div 16" by (simp add: drop_bit_eq_div unat_div)
  have "unat v div 16 mod 16 ^ n * 16 + unat v mod 16 = unat v mod 16 ^ Suc n"
    by (metis add.commute mod_mult2_eq mult.commute power_Suc)
  then have "unat v mod 16 ^ Suc n * 16 ^ length acc =
      unat v div 16 mod 16 ^ n * 16 ^ Suc (length acc) + unat v mod 16 * 16 ^ length acc"
    by (metis (no_types, lifting) add_mult_distrib mult.assoc power_Suc)
  then show ?case by (simp add: Suc.IH d s digit_round_trip)
qed simp

lemma panic_hex_round_trip: "hex_value (soc_panic_hex v) = unat v"
  using unsigned_less [of v, where 'a = nat] by (simp add: soc_panic_hex_def hex_loop_value)

lemma hex_loop_length: "length (hex_loop n acc v) = n + length acc"
  by (induction n arbitrary: acc v) simp_all

lemma panic_hex_length: "length (soc_panic_hex v) = 8"
  by (simp add: soc_panic_hex_def hex_loop_length)

section \<open>Stacks of the cores\<close>

text \<open>The linker symbols of the two Pico stacks are arguments.\<close>

definition pico_stack_limit :: "bool \<Rightarrow> u32 \<Rightarrow> u32 \<Rightarrow> u32 \<Rightarrow> u32" where
  "pico_stack_limit multicore StackBottom StackOneBottom core_id =
     (if multicore \<and> core_id = 1 then StackOneBottom else if core_id = 0 then StackBottom else 0)"

definition pico_stack_top :: "bool \<Rightarrow> u32 \<Rightarrow> u32 \<Rightarrow> u32 \<Rightarrow> u32" where
  "pico_stack_top multicore StackTop StackOneTop core_id =
     (if multicore \<and> core_id = 1 then StackOneTop else StackTop)"

text \<open>RISC-V: an array of stacks of \<open>bytes\<close> bytes at \<open>base\<close>, one for every core but the first.\<close>

definition rv_stack_top :: "u32 \<Rightarrow> u32 \<Rightarrow> u32 \<Rightarrow> u32" where
  "rv_stack_top base bytes core_id = (if core_id \<noteq> 0 then base + (core_id - 1) * bytes + bytes else 0)"

definition rv_stack_limit :: "u32 \<Rightarrow> u32 \<Rightarrow> u32 \<Rightarrow> u32" where
  "rv_stack_limit base bytes core_id = (if core_id \<noteq> 0 then base + (core_id - 1) * bytes else 0)"

lemma rv_stacks_adjoin:
  assumes "core_id \<noteq> 0" "core_id + 1 \<noteq> 0"
  shows "rv_stack_top base bytes core_id = rv_stack_limit base bytes core_id + bytes"
    "rv_stack_limit base bytes (core_id + 1) = rv_stack_top base bytes core_id"
  using assms by (simp_all add: rv_stack_top_def rv_stack_limit_def algebra_simps)

section \<open>Asking another core for a switch\<close>

text \<open>
  ARM, two cores: tokens in the mailbox of each core, of a depth that the vendor fixes, or a doorbell. \<open>pendsv\<close>
  is the request for a context switch that the handler makes on its own core.
\<close>

record ipis =
  fifo :: "nat \<Rightarrow> nat"
  doorbell :: "nat \<Rightarrow> bool"
  pendsv :: "nat \<Rightarrow> bool"

definition push_other :: "nat \<Rightarrow> nat \<Rightarrow> ipis \<Rightarrow> ipis" where
  "push_other depth self s =
     (let other = 1 - self in if fifo s other < depth then s\<lparr>fifo := (fifo s)(other := fifo s other + 1)\<rparr> else s)"

definition rp2040_ipi_request :: "nat \<Rightarrow> nat \<Rightarrow> nat \<Rightarrow> ipis \<Rightarrow> ipis" where
  "rp2040_ipi_request depth self core_id s =
     (if core_id = self then s\<lparr>pendsv := (pendsv s)(self := True)\<rparr> else push_other depth self s)"

definition rp2040_ipi_handler :: "nat \<Rightarrow> ipis \<Rightarrow> ipis" where
  "rp2040_ipi_handler self s = s\<lparr>fifo := (fifo s)(self := 0), pendsv := (pendsv s)(self := True)\<rparr>"

text \<open>\<open>bell\<close> is \<open>SOC_CONFIG_IPI_DOORBELL\<close>.\<close>

definition rp235x_ipi_request :: "bool \<Rightarrow> nat \<Rightarrow> nat \<Rightarrow> nat \<Rightarrow> ipis \<Rightarrow> ipis" where
  "rp235x_ipi_request bell depth self core_id s =
     (if core_id = self then s\<lparr>pendsv := (pendsv s)(self := True)\<rparr>
      else if bell then s\<lparr>doorbell := (doorbell s)(1 - self := True)\<rparr> else push_other depth self s)"

definition rp235x_ipi_handler :: "bool \<Rightarrow> nat \<Rightarrow> ipis \<Rightarrow> ipis" where
  "rp235x_ipi_handler bell self s =
     (let s1 = (if bell then s\<lparr>doorbell := (doorbell s)(self := False)\<rparr> else s\<lparr>fifo := (fifo s)(self := 0)\<rparr>)
      in s1\<lparr>pendsv := (pendsv s1)(self := True)\<rparr>)"

text \<open>A core is asked while its switch is pending or the interrupt is that will make it so.\<close>

definition asked :: "bool \<Rightarrow> nat \<Rightarrow> ipis \<Rightarrow> bool" where
  "asked bell c s \<longleftrightarrow> pendsv s c \<or> (if bell then doorbell s c else 0 < fifo s c)"

text \<open>
  A request is never lost, a full mailbox included: the core it names is asked, whatever other requests and the
  other core's handler do it stays asked, and its handler makes the switch pending.
\<close>

lemma ipi_request_asks:
  assumes "0 < depth" "self < 2" "core_id < 2"
  shows "asked False core_id (rp2040_ipi_request depth self core_id s)"
    "asked bell core_id (rp235x_ipi_request bell depth self core_id s)"
proof -
  have "core_id = self \<or> core_id = 1 - self" using assms(2,3) by linarith
  then show "asked False core_id (rp2040_ipi_request depth self core_id s)"
    "asked bell core_id (rp235x_ipi_request bell depth self core_id s)"
    using assms(1) by (auto simp: asked_def rp2040_ipi_request_def rp235x_ipi_request_def push_other_def Let_def)
qed

lemma ipi_stays_asked:
  assumes "asked bell c s"
  shows "asked bell c (rp235x_ipi_request bell depth self core_id s)"
    "asked bell c (rp235x_ipi_handler bell self s)" "pendsv (rp235x_ipi_handler bell c s) c"
    "\<not> bell \<Longrightarrow> asked False c (rp2040_ipi_request depth self core_id s)"
    "\<not> bell \<Longrightarrow> asked False c (rp2040_ipi_handler self s)" "pendsv (rp2040_ipi_handler c s) c"
  using assms
  by (auto simp: asked_def rp235x_ipi_request_def rp235x_ipi_handler_def rp2040_ipi_request_def rp2040_ipi_handler_def
      push_other_def Let_def)

text \<open>RISC-V: one register, whose low byte sets software interrupts and whose next byte clears them.\<close>

definition SOC_SOFTIRQ_SET :: "nat \<Rightarrow> u32" where "SOC_SOFTIRQ_SET c = push_bit c 1"
definition SOC_SOFTIRQ_CLR :: "nat \<Rightarrow> u32" where "SOC_SOFTIRQ_CLR c = push_bit (c + 8) 1"

definition softirq_write :: "u32 \<Rightarrow> (nat \<Rightarrow> bool) \<Rightarrow> nat \<Rightarrow> bool" where
  "softirq_write v pending c = (if bit v c then True else if bit v (c + 8) then False else pending c)"

definition os_arch_swi_request_cb :: "nat \<Rightarrow> (nat \<Rightarrow> bool) \<Rightarrow> nat \<Rightarrow> bool" where
  "os_arch_swi_request_cb self = softirq_write (SOC_SOFTIRQ_SET self)"

definition os_arch_swi_clear_cb :: "nat \<Rightarrow> (nat \<Rightarrow> bool) \<Rightarrow> nat \<Rightarrow> bool" where
  "os_arch_swi_clear_cb self = softirq_write (SOC_SOFTIRQ_CLR self)"

definition rv_ipi_request :: "nat \<Rightarrow> (nat \<Rightarrow> bool) \<Rightarrow> nat \<Rightarrow> bool" where
  "rv_ipi_request core_id = softirq_write (SOC_SOFTIRQ_SET core_id)"

text \<open>No two of these touch the same core's interrupt, and none touches a core it does not name.\<close>

lemma softirq_exact:
  assumes "self < 8" "c < 8"
  shows "os_arch_swi_request_cb self p c = (if c = self then True else p c)"
    "os_arch_swi_clear_cb self p c = (if c = self then False else p c)"
    "rv_ipi_request self p c = (if c = self then True else p c)"
  using assms
  by (auto simp: os_arch_swi_request_cb_def os_arch_swi_clear_cb_def rv_ipi_request_def softirq_write_def
      SOC_SOFTIRQ_SET_def SOC_SOFTIRQ_CLR_def bit_push_bit_iff bit_1_iff simp del: push_bit_of_1)

end
